(* ===== verification/Ggmk_Prelude.thy ===== *)
theory Ggmk_Prelude
  imports Main "HOL-Library.Word" "HOL-Library.Monad_Syntax" "HOL-Library.Multiset"
begin

text \<open>
  Shared vocabulary of the development: machine-integer types, the execution type of the C
  functions, array reads and writes, and the lemmas on words, lists and power-of-two index
  arithmetic that the component theories use.

  A C function that cannot fail to return is a plain HOL function.  A C function that reads or
  writes an array, follows a pointer or loops without a static bound has the result type
  \<open>'a exec\<close> (an option): \<open>Some v\<close> means that it returns \<open>v\<close>, and \<open>None\<close> means
  that it does not return or that it touches memory outside the object it works on.  Hence
  every theorem that concludes \<open>f x = Some y\<close> also says that the code returns and stays
  in bounds.
\<close>

unbundle bit_operations_syntax

section \<open>Types\<close>

type_synonym u8 = "8 word"
type_synonym u16 = "16 word"
type_synonym u32 = "32 word"
type_synonym u64 = "64 word"

text \<open>A C \<open>int32_t\<close> is a 32-bit word that is read with \<^const>\<open>sint\<close>; an address is a
  64-bit word, with 0 for \<open>NULL\<close>; a C \<open>int\<close> return code is a HOL \<^typ>\<open>int\<close>.\<close>

type_synonym i32 = "32 word"
type_synonym addr = "64 word"
type_synonym rc = int

type_synonym 'a exec = "'a option"

text \<open>The collections that the component proofs draw on: \<open>exec_simps\<close> evaluates the
  execution type, \<open>ring_index\<close> holds the index arithmetic of power-of-two rings and
  \<open>inv_simps\<close> the preservation facts of the component invariants.\<close>

named_theorems exec_simps \<open>evaluation of C executions\<close>
named_theorems ring_index \<open>power-of-two index arithmetic\<close>
named_theorems inv_simps \<open>preservation of component invariants\<close>

section \<open>Array accesses\<close>

definition arr_get :: "'a list \<Rightarrow> nat \<Rightarrow> 'a exec" where
  "arr_get xs i = (if i < length xs then Some (xs ! i) else None)"

definition arr_set :: "'a list \<Rightarrow> nat \<Rightarrow> 'a \<Rightarrow> 'a list exec" where
  "arr_set xs i v = (if i < length xs then Some (xs[i := v]) else None)"

lemma arr_get_Some [exec_simps]: "i < length xs \<Longrightarrow> arr_get xs i = Some (xs ! i)"
  by (simp add: arr_get_def)

lemma arr_set_Some [exec_simps]: "i < length xs \<Longrightarrow> arr_set xs i v = Some (xs[i := v])"
  by (simp add: arr_set_def)

lemma arr_get_eq_Some: "arr_get xs i = Some v \<longleftrightarrow> i < length xs \<and> xs ! i = v"
  by (simp add: arr_get_def)

lemma arr_set_eq_Some: "arr_set xs i v = Some ys \<longleftrightarrow> i < length xs \<and> ys = xs[i := v]"
  by (auto simp: arr_set_def)

section \<open>Lists\<close>

definition swap_at :: "'a list \<Rightarrow> nat \<Rightarrow> nat \<Rightarrow> 'a list" where
  "swap_at xs i j = xs[i := xs ! j, j := xs ! i]"

lemma length_swap_at [simp]: "length (swap_at xs i j) = length xs"
  by (simp add: swap_at_def)

lemma nth_swap_at:
  "i < length xs \<Longrightarrow> j < length xs \<Longrightarrow>
   swap_at xs i j ! k = (if k = j then xs ! i else if k = i then xs ! j else xs ! k)"
  by (simp add: swap_at_def nth_list_update)

lemma mset_swap_at [simp]:
  "i < length xs \<Longrightarrow> j < length xs \<Longrightarrow> mset (swap_at xs i j) = mset xs"
  by (cases "i = j") (simp_all add: swap_at_def mset_swap)

lemma take_swap_at:
  "i < n \<Longrightarrow> j < n \<Longrightarrow> n \<le> length xs \<Longrightarrow> take n (swap_at xs i j) = swap_at (take n xs) i j"
  by (simp add: swap_at_def take_update_swap)

lemma less_4_cases: "(p::nat) < 4 \<longleftrightarrow> p = 0 \<or> p = 1 \<or> p = 2 \<or> p = 3"
  by auto

lemma upt_4 [simp]: "[0..<4] = [0, 1, 2, 3::nat]"
  by (simp add: upt_rec)

section \<open>Words\<close>

lemma unat_of_nat_lt: "n < 2 ^ LENGTH('a::len) \<Longrightarrow> unat (of_nat n :: 'a word) = n"
  by (simp add: unat_of_nat take_bit_nat_eq_self)

lemma unat_pow2: "k < LENGTH('a::len) \<Longrightarrow> unat (2 ^ k :: 'a word) = 2 ^ k"
  using unat_of_nat_lt [of "2 ^ k", where 'a = 'a] by simp

lemma sint_of_nat_small: "m < 2 ^ 31 \<Longrightarrow> sint (of_nat m :: u32) = int m"
  by (simp add: signed_of_nat signed_take_bit_int_eq_self)

lemma unat32_lt [simp]: "unat (x :: u32) < 4294967296"
  using unsigned_less [of x] by simp

lemma unat64_lt [simp]: "unat (x :: u64) < 18446744073709551616"
  using unsigned_less [of x] by simp

lemma unat_add_nowrap:
  "unat (x :: 'a::len word) + unat y < 2 ^ LENGTH('a) \<Longrightarrow> unat (x + y) = unat x + unat y"
  by (simp add: unat_word_ariths)

lemma unat_mult_nowrap:
  "unat (x :: 'a::len word) * unat y < 2 ^ LENGTH('a) \<Longrightarrow> unat (x * y) = unat x * unat y"
  by (simp add: unat_word_ariths)

lemma unat_Suc_nowrap:
  "unat (x :: 'a::len word) + 1 < 2 ^ LENGTH('a) \<Longrightarrow> unat (x + 1) = unat x + 1"
  by (simp add: unat_word_ariths)

lemma unat_minus_le: "y \<le> x \<Longrightarrow> unat ((x :: 'a::len word) - y) = unat x - unat y"
  by (rule unat_sub)

lemma unat_sub_add1:
  "unat ((t :: 'a::len word) - h) + 1 < 2 ^ LENGTH('a) \<Longrightarrow> unat (t + 1 - h) = unat (t - h) + 1"
  using unat_Suc_nowrap [of "t - h"] by (simp add: algebra_simps)

lemma unat_sub_sub1:
  assumes "(t :: 'a::len word) \<noteq> h"
  shows "unat (t - (h + 1)) = unat (t - h) - 1"
proof -
  have "1 \<le> t - h" using assms by (simp add: word_le_nat_alt unat_gt_0 Suc_le_eq)
  then have "unat (t - h - 1) = unat (t - h) - unat (1 :: 'a word)" by (rule unat_sub)
  then show ?thesis by (simp add: algebra_simps)
qed

lemma unat_ucast_up:
  assumes "LENGTH('a::len) \<le> LENGTH('b::len)"
  shows "unat (ucast (x :: 'a word) :: 'b word) = unat x"
proof -
  have "unat x < 2 ^ LENGTH('b)"
    by (rule less_le_trans [OF unsigned_less power_increasing]) (use assms in simp_all)
  then show ?thesis by (simp add: unsigned_ucast_eq take_bit_nat_eq_self)
qed

lemma unat_diff_eq_0_iff: "unat ((t :: 'a::len word) - h) = 0 \<longleftrightarrow> t = h"
  by (simp add: unat_eq_zero)

lemma word_eq_add_diff: "(t :: 'a::len word) = h + of_nat (unat (t - h))"
  by simp

subsection \<open>Power-of-two masks\<close>

text \<open>\<open>x AND (2 ^ k - 1)\<close> is the remainder modulo \<open>2 ^ k\<close>, and because \<open>2 ^ k\<close> divides the
  word's range, adding to a counter that wraps around is addition of the index modulo \<open>2 ^ k\<close>.\<close>

lemma unat_and_mask: "unat ((x :: 'a::len word) AND (2 ^ k - 1)) = unat x mod 2 ^ k"
proof -
  have "x AND (2 ^ k - 1) = take_bit k x"
    by (simp add: take_bit_eq_mask mask_eq_exp_minus_1)
  then have "unat (x AND (2 ^ k - 1)) = take_bit k (unat x)"
    by (simp add: unsigned_take_bit_eq)
  then show ?thesis by (simp add: take_bit_eq_mod)
qed

lemma and_not_mask_sub: "(x :: 'a::len word) AND NOT m = x - (x AND m)"
proof -
  have "(x AND NOT m) + (x AND m) = (x AND NOT m) OR (x AND m)"
    by (rule disjunctive_add) (auto simp: bit_simps)
  also have "\<dots> = x" by (rule bit_word_eqI) (auto simp: bit_simps)
  finally show ?thesis by (simp add: algebra_simps)
qed

lemma mod_pow2_wrap:
  assumes "k \<le> LENGTH('a::len)"
  shows "unat ((x :: 'a word) + of_nat i) mod 2 ^ k = (unat x + i) mod 2 ^ k"
proof -
  have dvd: "(2::nat) ^ k dvd 2 ^ LENGTH('a)" using assms by (rule le_imp_power_dvd)
  have "unat (x + of_nat i) = (unat x + i) mod 2 ^ LENGTH('a)"
    by (simp add: unat_word_ariths unat_of_nat take_bit_eq_mod mod_simps)
  then show ?thesis using dvd by (simp add: mod_mod_cancel)
qed

lemma unat_ring_index [ring_index]:
  "k \<le> LENGTH('a::len) \<Longrightarrow>
   unat (((x :: 'a word) + of_nat i) AND (2 ^ k - 1)) = (unat x + i) mod 2 ^ k"
  by (simp add: unat_and_mask mod_pow2_wrap)

lemma mod_add_inj:
  assumes "i < c" "j < c" "((x::nat) + i) mod c = (x + j) mod c"
  shows "i = j"
proof (rule ccontr)
  assume "i \<noteq> j"
  define d where "d = (if i < j then j - i else i - j)"
  have d: "0 < d" "d < c" using assms(1,2) \<open>i \<noteq> j\<close> by (auto simp: d_def)
  have "c dvd d"
    using assms(3) mod_eq_dvd_iff_nat [of "x + i" "x + j" c] mod_eq_dvd_iff_nat [of "x + j" "x + i" c]
    by (cases "i < j") (auto simp: d_def)
  then show False using d by (auto dest: dvd_imp_le)
qed

subsection \<open>Windows of a circular buffer\<close>

text \<open>\<open>window b h c n\<close> lists the \<open>n\<close> slots of the circular buffer \<open>b\<close> of size \<open>c\<close> that start at
  counter value \<open>h\<close>; it is what a ring with free-running counters holds.\<close>

definition window :: "'a list \<Rightarrow> nat \<Rightarrow> nat \<Rightarrow> nat \<Rightarrow> 'a list" where
  "window b h c n = map (\<lambda>i. b ! ((h + i) mod c)) [0..<n]"

lemma length_window [simp]: "length (window b h c n) = n"
  by (simp add: window_def)

lemma nth_window: "i < n \<Longrightarrow> window b h c n ! i = b ! ((h + i) mod c)"
  by (simp add: window_def)

lemma window_0 [simp]: "window b h c 0 = []"
  by (simp add: window_def)

lemma window_cong: "h mod c = h' mod c \<Longrightarrow> window b h c n = window b h' c n"
  by (simp add: window_def) (metis mod_add_left_eq)

lemma window_Suc: "window b h c (Suc n) = b ! (h mod c) # window b (Suc h) c n"
  by (rule nth_equalityI) (auto simp: window_def nth_Cons' simp del: upt_Suc)

lemma window_snoc: "window b h c (Suc n) = window b h c n @ [b ! ((h + n) mod c)]"
  by (simp add: window_def)

lemma window_update:
  assumes "n \<le> m" "m < c"
  shows "window (b[(h + m) mod c := x]) h c n = window b h c n"
proof (rule nth_equalityI)
  fix i assume "i < length (window (b[(h + m) mod c := x]) h c n)"
  then have "i < n" by simp
  then have "(h + i) mod c \<noteq> (h + m) mod c" using assms mod_add_inj [of i c m h] by auto
  then show "window (b[(h + m) mod c := x]) h c n ! i = window b h c n ! i"
    using \<open>i < n\<close> by (simp add: nth_window)
qed simp

lemma window_push:
  assumes "n < c" "length b = c"
  shows "window (b[(h + n) mod c := x]) h c (Suc n) = window b h c n @ [x]"
  using assms by (simp add: window_snoc window_update)

lemma map_window: "c = length b \<Longrightarrow> 0 < c \<Longrightarrow>
  map f (window b h c n) = window (map f b) h c n"
  by (simp add: window_def)

end
