(* ===== verification/Ggmk_Platform.thy ===== *)
theory Ggmk_Platform
  imports Ggmk_Prelude
begin

text \<open>
  The arithmetic helpers of \<open>include/ggmk/platform.h\<close> and the constants and bit-field macros of
  \<open>include/ggmk/error.h\<close>.  The lemmas characterise the power-of-two test and the rounding
  function by the mathematical powers of two, which every ring buffer and the block allocator
  rely on.
\<close>

section \<open>Return codes and limits (error.h)\<close>

abbreviation (input) GMK_OK :: rc where "GMK_OK \<equiv> 0"
abbreviation (input) GMK_RETRY :: rc where "GMK_RETRY \<equiv> 1"
abbreviation (input) GMK_FAIL :: "int \<Rightarrow> rc" where "GMK_FAIL code \<equiv> - code"

abbreviation (input) GMK_ERR_NOMEM :: int where "GMK_ERR_NOMEM \<equiv> 1"
abbreviation (input) GMK_ERR_FULL :: int where "GMK_ERR_FULL \<equiv> 2"
abbreviation (input) GMK_ERR_INVALID :: int where "GMK_ERR_INVALID \<equiv> 4"
abbreviation (input) GMK_ERR_NOT_FOUND :: int where "GMK_ERR_NOT_FOUND \<equiv> 5"
abbreviation (input) GMK_ERR_EXISTS :: int where "GMK_ERR_EXISTS \<equiv> 6"
abbreviation (input) GMK_ERR_CLOSED :: int where "GMK_ERR_CLOSED \<equiv> 7"
abbreviation (input) GMK_ERR_POISONED :: int where "GMK_ERR_POISONED \<equiv> 8"
abbreviation (input) GMK_ERR_YIELD_OVERFLOW :: int where "GMK_ERR_YIELD_OVERFLOW \<equiv> 9"
abbreviation (input) GMK_ERR_YIELD_LIMIT :: int where "GMK_ERR_YIELD_LIMIT \<equiv> 10"
abbreviation (input) GMK_ERR_ALREADY_BOUND :: int where "GMK_ERR_ALREADY_BOUND \<equiv> 12"

abbreviation (input) GMK_CHAN_FULL :: rc where "GMK_CHAN_FULL \<equiv> GMK_FAIL GMK_ERR_FULL"
abbreviation (input) GMK_CHAN_CLOSED :: rc where "GMK_CHAN_CLOSED \<equiv> GMK_FAIL GMK_ERR_CLOSED"
abbreviation (input) GMK_CHAN_ALREADY_BOUND :: rc where
  "GMK_CHAN_ALREADY_BOUND \<equiv> GMK_FAIL GMK_ERR_ALREADY_BOUND"

abbreviation (input) GMK_TF_PRIORITY_MASK :: u16 where "GMK_TF_PRIORITY_MASK \<equiv> 3"
abbreviation (input) GMK_TF_CHANNEL_MSG :: u16 where "GMK_TF_CHANNEL_MSG \<equiv> 0x20"
abbreviation (input) GMK_TF_PAYLOAD_RC :: u16 where "GMK_TF_PAYLOAD_RC \<equiv> 0x40"

abbreviation (input) GMK_PRIORITY_COUNT :: nat where "GMK_PRIORITY_COUNT \<equiv> 4"
abbreviation (input) GMK_PRIO_CRITICAL :: u16 where "GMK_PRIO_CRITICAL \<equiv> 0"
abbreviation (input) GMK_PRIO_LOW :: u32 where "GMK_PRIO_LOW \<equiv> 3"

abbreviation (input) GMK_CHAN_P2P :: u32 where "GMK_CHAN_P2P \<equiv> 1"
abbreviation (input) GMK_CHAN_FANOUT :: u32 where "GMK_CHAN_FANOUT \<equiv> 2"
abbreviation (input) GMK_CHAN_LOSSY :: u32 where "GMK_CHAN_LOSSY \<equiv> 0"
abbreviation (input) GMK_CHAN_LOSSLESS :: u32 where "GMK_CHAN_LOSSLESS \<equiv> 0x10"

abbreviation (input) GMK_MAX_CHANNELS :: u32 where "GMK_MAX_CHANNELS \<equiv> 256"
abbreviation (input) GMK_MAX_MODULES :: u32 where "GMK_MAX_MODULES \<equiv> 64"
abbreviation (input) GMK_MAX_HANDLERS :: u32 where "GMK_MAX_HANDLERS \<equiv> 256"
abbreviation (input) GMK_MAX_WORKERS :: u32 where "GMK_MAX_WORKERS \<equiv> 32"
abbreviation (input) GMK_MAX_TENANTS :: u32 where "GMK_MAX_TENANTS \<equiv> 16"
abbreviation (input) GMK_MAX_CHAN_SUBS :: u32 where "GMK_MAX_CHAN_SUBS \<equiv> 32"
abbreviation (input) GMK_MAX_CHAN_NAME :: nat where "GMK_MAX_CHAN_NAME \<equiv> 64"

abbreviation (input) GMK_RQ_DEFAULT_CAP :: u32 where "GMK_RQ_DEFAULT_CAP \<equiv> 4096"
abbreviation (input) GMK_LQ_DEFAULT_CAP :: u32 where "GMK_LQ_DEFAULT_CAP \<equiv> 1024"
abbreviation (input) GMK_EVQ_DEFAULT_CAP :: u32 where "GMK_EVQ_DEFAULT_CAP \<equiv> 65536"
abbreviation (input) GMK_CHAN_DEFAULT_SLOTS :: u32 where "GMK_CHAN_DEFAULT_SLOTS \<equiv> 1024"
abbreviation (input) GMK_LQ_YIELD_RESERVE_PCT :: u32 where "GMK_LQ_YIELD_RESERVE_PCT \<equiv> 25"
abbreviation (input) GMK_DEFAULT_MAX_YIELDS :: u32 where "GMK_DEFAULT_MAX_YIELDS \<equiv> 16"
abbreviation (input) GMK_OVERFLOW_CAP :: u32 where "GMK_OVERFLOW_CAP \<equiv> 4096"
abbreviation (input) GMK_EVQ_DRAIN_LIMIT :: nat where "GMK_EVQ_DRAIN_LIMIT \<equiv> 256"
abbreviation (input) GMK_CHAN_PRIORITY_RESERVE_PCT :: u32 where "GMK_CHAN_PRIORITY_RESERVE_PCT \<equiv> 10"
abbreviation (input) GMK_POISON_THRESHOLD :: u32 where "GMK_POISON_THRESHOLD \<equiv> 16"

text \<open>The pop weights of the ready queue, \<open>GMK_WEIGHT_P0\<close> to \<open>GMK_WEIGHT_P3\<close>.\<close>

definition rq_weights :: "u32 list" where
  "rq_weights = [8, 4, 2, 1]"

definition GMK_PRIORITY :: "u16 \<Rightarrow> u16" where
  "GMK_PRIORITY flags = flags AND GMK_TF_PRIORITY_MASK"

definition GMK_SET_PRIORITY :: "u16 \<Rightarrow> u16 \<Rightarrow> u16" where
  "GMK_SET_PRIORITY f p = (f AND NOT GMK_TF_PRIORITY_MASK) OR (p AND 3)"

lemma GMK_PRIORITY_less_4 [simp]: "unat (GMK_PRIORITY f) < 4"
  using unat_and_mask [of f 2] by (simp add: GMK_PRIORITY_def)

lemma GMK_PRIORITY_set: "GMK_PRIORITY (GMK_SET_PRIORITY f p) = p AND 3"
  by (rule bit_word_eqI) (auto simp: GMK_PRIORITY_def GMK_SET_PRIORITY_def bit_simps)

lemma GMK_PRIORITY_or_channel_msg: "GMK_PRIORITY (f OR GMK_TF_CHANNEL_MSG) = GMK_PRIORITY f"
proof -
  have "(GMK_TF_CHANNEL_MSG AND GMK_TF_PRIORITY_MASK) = 0" by simp
  then show ?thesis by (simp add: GMK_PRIORITY_def bit.conj_disj_distrib2)
qed

section \<open>Power-of-two helpers (platform.h)\<close>

definition gmk_is_power_of_two :: "u32 \<Rightarrow> bool" where
  "gmk_is_power_of_two x \<longleftrightarrow> x \<noteq> 0 \<and> x AND (x - 1) = 0"

definition smear :: "nat \<Rightarrow> u32 \<Rightarrow> u32" where
  "smear s x = x OR drop_bit s x"

definition gmk_next_pow2 :: "u32 \<Rightarrow> u32" where
  "gmk_next_pow2 x =
     (if x \<le> 1 then 1 else smear 16 (smear 8 (smear 4 (smear 2 (smear 1 (x - 1))))) + 1)"

text \<open>\<open>__builtin_ctz\<close>: the index of the lowest set bit (32 for 0, where C leaves it open).\<close>

fun ctz_upto :: "nat \<Rightarrow> u32 \<Rightarrow> nat" where
  "ctz_upto 0 x = 0"
| "ctz_upto (Suc n) x = (if bit x 0 then 0 else Suc (ctz_upto n (drop_bit 1 x)))"

definition builtin_ctz :: "u32 \<Rightarrow> nat" where
  "builtin_ctz x = ctz_upto 32 x"

subsection \<open>The test recognises the powers of two\<close>

lemma word_top_bit:
  assumes "x \<noteq> (0 :: 'a::len word)"
  obtains k where "k < LENGTH('a)" "2 ^ k \<le> unat x" "unat x < 2 ^ Suc k"
proof -
  have pos: "0 < unat x" using assms by (simp add: unat_gt_0)
  then obtain k where k: "2 ^ k \<le> unat x" "unat x < 2 ^ (k + 1)"
    using ex_power_ivl1 [of 2 "unat x"] by auto
  have "(2::nat) ^ k < 2 ^ LENGTH('a)" using k(1) unsigned_less [of x] by (rule le_less_trans)
  then have "k < LENGTH('a)" by simp
  with k show ?thesis by (auto intro: that)
qed

lemma bit_top:
  assumes "2 ^ k \<le> unat (x :: 'a::len word)" "unat x < 2 ^ Suc k"
  shows "bit x k"
proof -
  have "unat x div 2 ^ k = 1"
    using assms by (intro div_nat_eqI) (auto simp: mult.commute)
  then have "bit (unat x) k" by (simp add: bit_iff_odd)
  then show ?thesis by (simp add: bit_unsigned_iff)
qed

text \<open>The sign of an \<open>int32_t\<close> is its top bit.\<close>

lemma sint32_neg_iff: "sint (x :: u32) < 0 \<longleftrightarrow> 2147483648 \<le> unat x"
proof -
  have "sint x < 0 \<longleftrightarrow> bit x 31" using bit_last_iff [of x] by simp
  also have "\<dots> \<longleftrightarrow> 2 ^ 31 \<le> unat x"
  proof
    show "bit x 31" if "2 ^ 31 \<le> unat x" by (rule bit_top) (use that in simp_all)
    show "2 ^ 31 \<le> unat x" if "bit x 31"
    proof (rule ccontr)
      assume "\<not> 2 ^ 31 \<le> unat x"
      then have "\<not> bit (unat x) 31" by (simp add: bit_iff_odd)
      with that show False by (simp add: bit_unsigned_iff)
    qed
  qed
  finally show ?thesis by simp
qed

lemma gmk_is_power_of_two_iff: "gmk_is_power_of_two x \<longleftrightarrow> (\<exists>k < 32. x = 2 ^ k)"
proof
  assume pow: "gmk_is_power_of_two x"
  then have "x \<noteq> 0" by (simp add: gmk_is_power_of_two_def)
  then obtain k where k: "k < 32" "2 ^ k \<le> unat x" "unat x < 2 ^ Suc k"
    using word_top_bit [of x] by auto
  have "unat x = 2 ^ k"
  proof (rule ccontr)
    assume "unat x \<noteq> 2 ^ k"
    moreover have "unat (x - 1) = unat x - 1" using \<open>x \<noteq> 0\<close> by (metis unat_minus_one)
    ultimately have "bit (x - 1) k" using k by (intro bit_top) auto
    with bit_top [OF k(2,3)] have "bit (x AND (x - 1)) k" by (simp add: bit_and_iff)
    with pow show False by (simp add: gmk_is_power_of_two_def)
  qed
  then have "x = 2 ^ k"
    using k(1) by (intro word_unat_eq_iff [THEN iffD2]) (simp add: unat_pow2)
  with k(1) show "\<exists>k < 32. x = 2 ^ k" by auto
next
  assume "\<exists>k < 32. x = 2 ^ k"
  then obtain k where k: "k < 32" "x = 2 ^ k" by auto
  have "x AND (x - 1) = 0"
    by (rule bit_word_eqI) (simp add: k bit_simps flip: mask_eq_exp_minus_1)
  moreover have "x \<noteq> 0" using k by (simp add: word_unat_eq_iff unat_pow2)
  ultimately show "gmk_is_power_of_two x" by (simp add: gmk_is_power_of_two_def)
qed

lemma unat_pow2_32: "k < 32 \<Longrightarrow> unat (2 ^ k :: u32) = 2 ^ k"
  by (simp add: unat_pow2)

subsection \<open>Rounding up to a power of two\<close>

text \<open>After smearing by 1, 2, 4, 8 and 16 a bit is set exactly when some bit at or above it,
  up to 31 positions away, was set in the input.\<close>

lemma bit_smear:
  assumes "\<And>n. bit a n \<longleftrightarrow> (\<exists>j < s. bit (y :: u32) (n + j))"
  shows "bit (smear s a) n \<longleftrightarrow> (\<exists>j < s + s. bit y (n + j))"
proof -
  have "(\<exists>j < s + s. bit y (n + j)) \<longleftrightarrow> (\<exists>j < s. bit y (n + j)) \<or> (\<exists>j < s. bit y (n + s + j))"
    (is "?l \<longleftrightarrow> ?r")
  proof
    assume ?l
    then obtain j where j: "j < s + s" "bit y (n + j)" by auto
    show ?r
    proof (cases "j < s")
      case False
      with j show ?thesis by (intro disjI2 exI [of _ "j - s"]) (auto simp: add.assoc)
    qed (use j in auto)
  next
    assume ?r
    then show ?l by (metis add.assoc add_less_cancel_left trans_less_add1)
  qed
  then show ?thesis by (simp add: smear_def bit_simps assms add.commute add.left_commute)
qed

lemma bit_smear_all:
  "bit (smear 16 (smear 8 (smear 4 (smear 2 (smear 1 y))))) n \<longleftrightarrow> (\<exists>j < 32. bit y (n + j))"
proof -
  have 1: "bit (smear 1 y) n \<longleftrightarrow> (\<exists>j < 1 + 1. bit y (n + j))" for n
    by (rule bit_smear) simp
  have 2: "bit (smear 2 (smear 1 y)) n \<longleftrightarrow> (\<exists>j < 2 + 2. bit y (n + j))" for n
    by (rule bit_smear) (use 1 in \<open>simp add: numeral_2_eq_2\<close>)
  have 4: "bit (smear 4 (smear 2 (smear 1 y))) n \<longleftrightarrow> (\<exists>j < 4 + 4. bit y (n + j))" for n
    by (rule bit_smear) (use 2 in simp)
  have 8: "bit (smear 8 (smear 4 (smear 2 (smear 1 y)))) n \<longleftrightarrow> (\<exists>j < 8 + 8. bit y (n + j))" for n
    by (rule bit_smear) (use 4 in simp)
  have "bit (smear 16 (smear 8 (smear 4 (smear 2 (smear 1 y))))) n \<longleftrightarrow>
      (\<exists>j < 16 + 16. bit y (n + j))"
    by (rule bit_smear) (use 8 in simp)
  then show ?thesis by simp
qed

lemma smear_all_eq_mask:
  assumes "2 ^ k \<le> unat (y :: u32)" "unat y < 2 ^ Suc k" "k < 32"
  shows "smear 16 (smear 8 (smear 4 (smear 2 (smear 1 y)))) = mask (Suc k)"
proof (rule bit_word_eqI)
  fix n assume n: "n < LENGTH(32)"
  have top: "bit y k" by (rule bit_top [OF assms(1,2)])
  have above: "m \<le> k" if "bit y m" for m
  proof (rule ccontr)
    assume "\<not> m \<le> k"
    then have "unat y < 2 ^ m" using assms(2) power_increasing [of "Suc k" m "2::nat"] by simp
    then have "\<not> bit (unat y) m" by (simp add: bit_iff_odd)
    then show False using that by (simp add: bit_unsigned_iff bit_imp_le_length)
  qed
  have "(\<exists>j < 32. bit y (n + j)) \<longleftrightarrow> n \<le> k"
  proof
    assume "\<exists>j < 32. bit y (n + j)"
    then show "n \<le> k" using above by (metis add_leD1)
  next
    assume "n \<le> k"
    then show "\<exists>j < 32. bit y (n + j)" using top assms(3) by (intro exI [of _ "k - n"]) auto
  qed
  then show "bit (smear 16 (smear 8 (smear 4 (smear 2 (smear 1 y))))) n = bit (mask (Suc k) :: u32) n"
    using n bit_smear_all [of y n] by (simp add: bit_mask_iff less_Suc_eq_le)
qed

lemma gmk_next_pow2_eq:
  assumes "2 ^ k < unat x" "unat x \<le> 2 ^ Suc k" "k < 31"
  shows "gmk_next_pow2 x = 2 ^ Suc k"
proof -
  have x: "1 < unat x" using assms(1) one_le_power [of "2::nat" k] by linarith
  then have "unat (x - 1) = unat x - 1" by (metis not_one_less_zero unat_0 unat_minus_one)
  then have "smear 16 (smear 8 (smear 4 (smear 2 (smear 1 (x - 1))))) = mask (Suc k)"
    using assms by (intro smear_all_eq_mask) auto
  moreover have "\<not> x \<le> 1" using x by (simp add: word_le_nat_alt)
  ultimately show ?thesis by (simp add: gmk_next_pow2_def mask_eq_exp_minus_1)
qed

text \<open>For every input up to \<open>2 ^ 31\<close> the result is the least power of two that is not smaller;
  above that the 32-bit addition wraps and the result is 0.\<close>

lemma gmk_next_pow2_least:
  assumes "unat x \<le> 2 ^ 31"
  obtains k where "k \<le> 31" "gmk_next_pow2 x = 2 ^ k" "unat x \<le> 2 ^ k"
    and "\<And>j. unat x \<le> 2 ^ j \<Longrightarrow> k \<le> j"
proof (cases "unat x \<le> 1")
  case True
  then have "x \<le> 1" by (simp add: word_le_nat_alt)
  then show ?thesis using True by (intro that [of 0]) (auto simp: gmk_next_pow2_def)
next
  case False
  then obtain k where k: "2 ^ k < unat x" "unat x \<le> 2 ^ (k + 1)"
    using ex_power_ivl2 [of 2 "unat x"] by auto
  have "(2::nat) ^ k < 2 ^ 31" using k(1) assms by (rule less_le_trans)
  then have "k < 31" by (rule power_less_imp_less_exp [rotated]) simp
  have "Suc k \<le> j" if "unat x \<le> 2 ^ j" for j
  proof -
    have "(2::nat) ^ k < 2 ^ j" using k(1) that by linarith
    then show ?thesis by (simp add: Suc_le_eq)
  qed
  then show ?thesis
    using k \<open>k < 31\<close> gmk_next_pow2_eq [of k x] by (intro that [of "Suc k"]) auto
qed

lemma gmk_next_pow2_wraps:
  assumes "2 ^ 31 < unat x"
  shows "gmk_next_pow2 x = 0"
proof -
  have "unat (x - 1) = unat x - 1" using assms by (metis not_less_zero unat_0 unat_minus_one)
  then have "smear 16 (smear 8 (smear 4 (smear 2 (smear 1 (x - 1))))) = mask (Suc 31)"
    using assms by (intro smear_all_eq_mask) (simp_all add: less_imp_diff_less)
  moreover have "\<not> x \<le> 1" using assms by (simp add: word_le_nat_alt)
  ultimately show ?thesis by (simp add: gmk_next_pow2_def mask_eq_exp_minus_1)
qed

lemma ctz_upto_pow2: "k < n \<Longrightarrow> k < 32 \<Longrightarrow> ctz_upto n (2 ^ k) = k"
proof (induction n arbitrary: k)
  case (Suc n)
  show ?case
  proof (cases k)
    case (Suc j)
    have "drop_bit 1 (2 ^ k :: u32) = 2 ^ j"
      using Suc.prems(2) \<open>k = Suc j\<close> by (intro bit_word_eqI) (auto simp: bit_simps)
    then show ?thesis using Suc.IH [of j] Suc.prems \<open>k = Suc j\<close> by (simp add: bit_simps)
  qed (simp add: bit_simps)
qed simp

lemma builtin_ctz_pow2: "k < 32 \<Longrightarrow> builtin_ctz (2 ^ k) = k"
  by (simp add: builtin_ctz_def ctz_upto_pow2)

end
