(* ===== verification/Ggmk_Types.thy ===== *)
theory Ggmk_Types
  imports Ggmk_Platform
begin

text \<open>
  The record types of \<open>include/ggmk/types.h\<close>.  A function pointer (a handler, a module's \<open>init\<close>
  or \<open>fini\<close>) is an address, 0 for \<open>NULL\<close>; what the code behind it does is a parameter of the
  definitions that call it.
\<close>

record gmk_task =
  tk_type :: u32
  tk_flags :: u16
  tk_tenant :: u16
  tk_channel :: u32
  tk_seq :: u32
  tk_payload_ptr :: u64
  tk_payload_len :: u32
  tk_yield_count :: u16
  tk_pad :: u16
  tk_meta0 :: u64
  tk_meta1 :: u64

text \<open>The zero-initialised task, \<open>gmk_task_t task = {0}\<close>, and \<open>sizeof(gmk_task_t)\<close>.\<close>

definition zero_task :: gmk_task where
  "zero_task = \<lparr>tk_type = 0, tk_flags = 0, tk_tenant = 0, tk_channel = 0, tk_seq = 0,
     tk_payload_ptr = 0, tk_payload_len = 0, tk_yield_count = 0, tk_pad = 0,
     tk_meta0 = 0, tk_meta1 = 0\<rparr>"

abbreviation (input) sizeof_gmk_task :: u32 where "sizeof_gmk_task \<equiv> 48"

record gmk_handler_reg =
  hr_type :: u32
  hr_fn :: addr
  hr_name :: string
  hr_flags :: u32
  hr_max_yields :: u32

record gmk_chan_decl =
  cd_name :: string
  cd_direction :: u32
  cd_msg_type :: u32
  cd_mode :: u32
  cd_guarantee :: u32

record gmk_module =
  md_name :: string
  md_version :: u32
  md_handlers :: "gmk_handler_reg list"
  md_n_handlers :: u32
  md_channels :: "gmk_chan_decl list"
  md_n_channels :: u32
  md_init :: addr
  md_fini :: addr

text \<open>The context passed to a handler.  Its pointers to the allocator, the channel registry, the
  trace, the metrics, the scheduler and the kernel all lead to the one shared kernel state,
  which the model passes beside the context.\<close>

record gmk_ctx =
  cx_task :: "gmk_task option"
  cx_worker_id :: u32
  cx_tick :: u32

record gmk_trace_ev =
  te_tsc :: u64
  te_ev_type :: u32
  te_tenant :: u16
  te_type :: u16
  te_arg0 :: u32
  te_arg1 :: u32
  te_pad :: u64

definition zero_trace_ev :: gmk_trace_ev where
  "zero_trace_ev = \<lparr>te_tsc = 0, te_ev_type = 0, te_tenant = 0, te_type = 0, te_arg0 = 0,
     te_arg1 = 0, te_pad = 0\<rparr>"

abbreviation (input) sizeof_gmk_trace_ev :: u32 where "sizeof_gmk_trace_ev \<equiv> 32"

text \<open>The priority of a task, \<open>GMK_PRIORITY(task->flags)\<close>, as a queue index.\<close>

definition task_prio :: "gmk_task \<Rightarrow> nat" where
  "task_prio t = unat (GMK_PRIORITY (tk_flags t))"

lemma task_prio_less_4 [simp]: "task_prio t < 4"
  by (simp add: task_prio_def)

lemma task_prio_update [simp]:
  "task_prio (t\<lparr>tk_seq := s\<rparr>) = task_prio t"
  "task_prio (t\<lparr>tk_yield_count := y\<rparr>) = task_prio t"
  "task_prio (t\<lparr>tk_meta0 := m\<rparr>) = task_prio t"
  "task_prio (t\<lparr>tk_channel := c\<rparr>) = task_prio t"
  by (simp_all add: task_prio_def)

end
