(* ===== verification/Hal_Mem.thy ===== *)
theory Hal_Mem
  imports Ggmk_Platform
begin

text \<open>
  The memory part of the hosted hardware abstraction layer, \<open>hal/linux/mem.c\<close>.  The C library's
  allocator is outside the repository and is a parameter: the field \<open>hal_answer\<close> gives the
  address that the \<open>n\<close>-th allocation request returns for an alignment and a size (0 for a
  failed request).  The model keeps the list of blocks that are live, newest first, so that
  the theorems of the other theories can say that an operation leaks nothing.
\<close>

record hal =
  hal_answer :: "nat \<Rightarrow> u64 \<Rightarrow> u64 \<Rightarrow> addr"
  hal_calls :: nat
  hal_live :: "(addr \<times> u64) list"

definition libc_alloc :: "u64 \<Rightarrow> u64 \<Rightarrow> hal \<Rightarrow> addr \<times> hal" where
  "libc_alloc align sz h =
     (let p = hal_answer h (hal_calls h) align sz
      in (p, h\<lparr>hal_calls := Suc (hal_calls h),
               hal_live := (if p = 0 then hal_live h else (p, sz) # hal_live h)\<rparr>))"

fun live_remove :: "addr \<Rightarrow> (addr \<times> u64) list \<Rightarrow> (addr \<times> u64) list" where
  "live_remove p [] = []"
| "live_remove p (b # bs) = (if fst b = p then bs else b # live_remove p bs)"

definition libc_free :: "addr \<Rightarrow> hal \<Rightarrow> hal" where
  "libc_free p h = (if p = 0 then h else h\<lparr>hal_live := live_remove p (hal_live h)\<rparr>)"

section \<open>The HAL functions\<close>

abbreviation (input) GMK_CACHE_LINE :: u64 where "GMK_CACHE_LINE \<equiv> 64"

definition gmk_hal_page_alloc :: "u64 \<Rightarrow> u64 \<Rightarrow> hal \<Rightarrow> addr \<times> hal" where
  "gmk_hal_page_alloc sz align h =
     (let align' = (if align < 8 then 8 else align);
          sz1 = (sz + align' - 1) AND NOT (align' - 1)
      in libc_alloc align' sz1 h)"

definition gmk_hal_page_free :: "addr \<Rightarrow> u64 \<Rightarrow> hal \<Rightarrow> hal" where
  "gmk_hal_page_free ptr sz h = libc_free ptr h"

text \<open>\<open>calloc\<close> refuses a request whose product does not fit in \<open>size_t\<close>.\<close>

definition gmk_hal_calloc :: "u64 \<Rightarrow> u64 \<Rightarrow> hal \<Rightarrow> addr \<times> hal" where
  "gmk_hal_calloc n sz h =
     (if unat n * unat sz < 2 ^ 64 then libc_alloc 16 (n * sz) h else (0, h))"

definition gmk_hal_free :: "addr \<Rightarrow> hal \<Rightarrow> hal" where
  "gmk_hal_free ptr h = libc_free ptr h"

lemmas hal_defs = gmk_hal_page_alloc_def gmk_hal_page_free_def gmk_hal_calloc_def gmk_hal_free_def
  libc_alloc_def libc_free_def Let_def

section \<open>Leak accounting\<close>

text \<open>\<open>hal_owns h0 P h\<close>: relative to the earlier state \<open>h0\<close>, exactly the blocks at the addresses
  \<open>P\<close> (a multiset, none of them 0) have been added to the live blocks.\<close>

definition hal_blocks :: "hal \<Rightarrow> addr multiset" where
  "hal_blocks h = mset (map fst (hal_live h))"

definition hal_owns :: "hal \<Rightarrow> addr multiset \<Rightarrow> hal \<Rightarrow> bool" where
  "hal_owns h0 P h \<longleftrightarrow> hal_blocks h = P + hal_blocks h0 \<and> 0 \<notin># P"

lemma hal_owns_refl [simp]: "hal_owns h {#} h"
  by (simp add: hal_owns_def)

lemma hal_owns_empty: "hal_owns h0 {#} h \<longleftrightarrow> hal_blocks h = hal_blocks h0"
  by (simp add: hal_owns_def)

lemma hal_owns_nonzero: "hal_owns h0 P h \<Longrightarrow> p \<in># P \<Longrightarrow> p \<noteq> 0"
  by (auto simp: hal_owns_def)

lemma hal_owns_libc_alloc:
  "hal_owns h0 P h \<Longrightarrow> libc_alloc a s h = (p, h') \<Longrightarrow>
   hal_owns h0 (if p = 0 then P else add_mset p P) h'"
  by (auto simp: hal_owns_def hal_blocks_def libc_alloc_def Let_def)

lemma hal_owns_page_alloc:
  "hal_owns h0 P h \<Longrightarrow> gmk_hal_page_alloc s a h = (p, h') \<Longrightarrow>
   hal_owns h0 (if p = 0 then P else add_mset p P) h'"
  unfolding gmk_hal_page_alloc_def Let_def by (rule hal_owns_libc_alloc)

lemma hal_owns_calloc:
  "hal_owns h0 P h \<Longrightarrow> gmk_hal_calloc n s h = (p, h') \<Longrightarrow>
   hal_owns h0 (if p = 0 then P else add_mset p P) h'"
  by (auto simp: gmk_hal_calloc_def hal_owns_libc_alloc split: if_splits dest: hal_owns_libc_alloc)

lemma map_fst_live_remove: "map fst (live_remove p ns) = remove1 p (map fst ns)"
  by (induction ns) auto

lemma hal_owns_libc_free:
  assumes "hal_owns h0 (add_mset p P) h"
  shows "hal_owns h0 P (libc_free p h)"
  using assms by (auto simp: hal_owns_def hal_blocks_def libc_free_def map_fst_live_remove)

lemma hal_owns_page_free:
  "hal_owns h0 (add_mset p P) h \<Longrightarrow> hal_owns h0 P (gmk_hal_page_free p s h)"
  by (simp add: gmk_hal_page_free_def hal_owns_libc_free)

lemma hal_owns_free:
  "hal_owns h0 (add_mset p P) h \<Longrightarrow> hal_owns h0 P (gmk_hal_free p h)"
  by (simp add: gmk_hal_free_def hal_owns_libc_free)


section \<open>What is relied on\<close>

text \<open>A block that the C library hands out lies inside the address space.\<close>

definition libc_in_space :: "hal \<Rightarrow> bool" where
  "libc_in_space h \<longleftrightarrow> (\<forall>n a s. unat (hal_answer h n a s) + unat s \<le> 2 ^ 64)"

lemma libc_in_space_alloc [simp]:
  "libc_alloc a s h = (p, h') \<Longrightarrow> libc_in_space h' = libc_in_space h"
  by (auto simp: libc_alloc_def Let_def libc_in_space_def)

lemma page_alloc_in_space:
  assumes "libc_in_space h" "gmk_hal_page_alloc sz 64 h = (p, h')" "unat sz < 2 ^ 63"
  shows "unat p + unat sz \<le> 2 ^ 64"
proof -
  let ?r = "(sz + 64 - 1) AND NOT (64 - 1)"
  have s: "unat (sz + 63) = unat sz + 63" using assms(3) by (subst unat_add_nowrap) simp_all
  have m: "unat ((sz + 63) AND 63) = (unat sz + 63) mod 64"
    using unat_and_mask [of "sz + 63" 6] s by simp
  have e: "sz + 64 - 1 = sz + 63" "64 - 1 = (63 :: u64)" by simp_all
  have "?r = (sz + 63) - ((sz + 63) AND 63)" unfolding e by (rule and_not_mask_sub)
  moreover have "(sz + 63) AND 63 \<le> sz + 63" by (rule word_and_le2)
  ultimately have "unat ?r = unat sz + 63 - (unat sz + 63) mod 64" using s m by (simp add: unat_sub)
  then have ge: "unat sz \<le> unat ?r" by linarith
  have "p = hal_answer h (hal_calls h) 64 ?r"
    using assms(2) by (simp add: gmk_hal_page_alloc_def libc_alloc_def Let_def)
  then have "unat p + unat ?r \<le> 2 ^ 64" using assms(1) by (simp add: libc_in_space_def)
  then show ?thesis using ge by linarith
qed

end
