(* ===== verification/Bounded_Fifo.thy ===== *)
theory Bounded_Fifo
  imports Ggmk_Platform
begin

text \<open>
  The contract that the scheduler, the channels and the trace writer rely on when they use a
  ring buffer: a bounded first-in first-out queue.  Both rings of the program implement it
  (theories \<open>Ring_Spsc\<close> and \<open>Ring_Mpmc\<close>); the client facts are proved once here.

  \<open>push q x\<close> returns 0 and appends, or returns -1 and changes nothing when the queue is full.
  \<open>pop q\<close> yields \<open>Some x\<close> (the C call returns 0 and writes \<open>x\<close>) or \<open>None\<close> (it returns -1).
\<close>

locale bounded_fifo =
  fixes inv :: "'q \<Rightarrow> bool"
    and contents :: "'q \<Rightarrow> 'a list"
    and capacity :: "'q \<Rightarrow> nat"
    and push :: "'q \<Rightarrow> 'a \<Rightarrow> (rc \<times> 'q) exec"
    and pop :: "'q \<Rightarrow> ('a option \<times> 'q) exec"
    and count :: "'q \<Rightarrow> u32"
  assumes contents_bound: "inv q \<Longrightarrow> length (contents q) \<le> capacity q"
    and push_room: "inv q \<Longrightarrow> length (contents q) < capacity q \<Longrightarrow>
      \<exists>q'. push q x = Some (0, q') \<and> inv q' \<and> contents q' = contents q @ [x]
           \<and> capacity q' = capacity q"
    and push_full: "inv q \<Longrightarrow> capacity q \<le> length (contents q) \<Longrightarrow> push q x = Some (-1, q)"
    and pop_some: "inv q \<Longrightarrow> contents q = y # ys \<Longrightarrow>
      \<exists>q'. pop q = Some (Some y, q') \<and> inv q' \<and> contents q' = ys \<and> capacity q' = capacity q"
    and pop_none: "inv q \<Longrightarrow> contents q = [] \<Longrightarrow> pop q = Some (None, q)"
    and count_contents: "inv q \<Longrightarrow> unat (count q) = length (contents q)"
begin

text \<open>Every operation returns; the outcome is one of the two the contract names.\<close>

lemma push_cases:
  assumes "inv q"
  obtains (room) q' where "push q x = Some (0, q')" "inv q'" "contents q' = contents q @ [x]"
      "capacity q' = capacity q" "length (contents q) < capacity q"
    | (full) "push q x = Some (-1, q)" "length (contents q) = capacity q"
  using push_room [OF assms, of x] push_full [OF assms, of x] contents_bound [OF assms]
  by (cases "length (contents q) < capacity q") (auto intro: that)

lemma pop_cases:
  assumes "inv q"
  obtains (some) y q' where "pop q = Some (Some y, q')" "inv q'" "contents q = y # contents q'"
      "capacity q' = capacity q"
    | (none) "pop q = Some (None, q)" "contents q = []"
  using pop_some [OF assms] pop_none [OF assms] by (cases "contents q") (auto intro: that)

lemma push_returns: "inv q \<Longrightarrow> \<exists>r q'. push q x = Some (r, q') \<and> inv q' \<and> (r = 0 \<or> r = -1)"
  by (rule push_cases) auto

lemma pop_returns: "inv q \<Longrightarrow> \<exists>r q'. pop q = Some (r, q') \<and> inv q'"
  by (rule pop_cases) auto

text \<open>Pushing a list that fits and popping as often gives the list back in order, whatever
  was queued before it.\<close>

fun push_all :: "'q \<Rightarrow> 'a list \<Rightarrow> 'q exec" where
  "push_all q [] = Some q"
| "push_all q (x # xs) = do { (r, q') \<leftarrow> push q x; if r = 0 then push_all q' xs else None }"

fun pop_n :: "nat \<Rightarrow> 'q \<Rightarrow> ('a list \<times> 'q) exec" where
  "pop_n 0 q = Some ([], q)"
| "pop_n (Suc n) q =
     do { (r, q') \<leftarrow> pop q;
          case r of None \<Rightarrow> None
          | Some x \<Rightarrow> do { (xs, q'') \<leftarrow> pop_n n q'; Some (x # xs, q'') } }"

lemma push_all_fits:
  "inv q \<Longrightarrow> length (contents q) + length xs \<le> capacity q \<Longrightarrow>
   \<exists>q'. push_all q xs = Some q' \<and> inv q' \<and> contents q' = contents q @ xs \<and> capacity q' = capacity q"
proof (induction xs arbitrary: q)
  case (Cons x xs)
  then obtain q1 where q1: "push q x = Some (0, q1)" "inv q1" "contents q1 = contents q @ [x]"
    "capacity q1 = capacity q"
    using push_room [of q x] by auto
  then obtain q2 where "push_all q1 xs = Some q2" "inv q2" "contents q2 = contents q1 @ xs"
    "capacity q2 = capacity q1"
    using Cons.IH [of q1] Cons.prems by auto
  with q1 show ?case by auto
qed simp

lemma pop_n_prefix:
  "inv q \<Longrightarrow> contents q = xs @ ys \<Longrightarrow>
   \<exists>q'. pop_n (length xs) q = Some (xs, q') \<and> inv q' \<and> contents q' = ys \<and> capacity q' = capacity q"
proof (induction xs arbitrary: q)
  case (Cons x xs)
  then obtain q1 where q1: "pop q = Some (Some x, q1)" "inv q1" "contents q1 = xs @ ys"
    "capacity q1 = capacity q"
    using pop_some [of q x "xs @ ys"] by auto
  with Cons.IH [of q1] show ?case by auto
qed simp

lemma fifo_roundtrip:
  assumes "inv q" "length (contents q) + length xs \<le> capacity q"
  shows "\<exists>q1 q2. push_all q xs = Some q1
           \<and> pop_n (length (contents q) + length xs) q1 = Some (contents q @ xs, q2)
           \<and> inv q2 \<and> contents q2 = []"
proof -
  obtain q1 where q1: "push_all q xs = Some q1" "inv q1" "contents q1 = contents q @ xs"
    using push_all_fits [OF assms] by auto
  obtain q2 where "pop_n (length (contents q @ xs)) q1 = Some (contents q @ xs, q2)" "inv q2"
    "contents q2 = []"
    using pop_n_prefix [of q1 "contents q @ xs" "[]"] q1 by auto
  with q1 show ?thesis by auto
qed

end

end
