(* ===== verification/Ring_Spsc.thy ===== *)
theory Ring_Spsc
  imports Hal_Mem Bounded_Fifo
begin

text \<open>
  The single-producer single-consumer ring of \<open>src/ring_spsc.c\<close>.  The element storage
  \<open>buf + idx * elem_size\<close> is a list of slots, one per element; \<open>memcpy\<close> of one element is a
  slot read or write.  \<open>head\<close> and \<open>tail\<close> are free-running 32-bit counters that wrap around, as
  in the code.  The invariant relates them to the list of queued elements, and the ring is
  shown to implement the bounded queue contract across the wrap-around.
\<close>

section \<open>State and operations\<close>

record 'a gmk_ring_spsc =
  sp_head :: u32
  sp_tail :: u32
  sp_cap :: u32
  sp_mask :: u32
  sp_elem_size :: u32
  sp_ptr :: addr
  sp_buf :: "'a list"

definition zero_ring_spsc :: "'a gmk_ring_spsc" where
  "zero_ring_spsc = \<lparr>sp_head = 0, sp_tail = 0, sp_cap = 0, sp_mask = 0, sp_elem_size = 0,
     sp_ptr = 0, sp_buf = []\<rparr>"

text \<open>Fresh memory from \<open>gmk_hal_page_alloc\<close> is zeroed: \<open>z\<close> is the all-zero element.  When the
  guards or the allocation fail, the code returns -1; the fields it has already written are
  written in the model too.\<close>

definition gmk_ring_spsc_init ::
  "'a gmk_ring_spsc \<Rightarrow> 'a \<Rightarrow> u32 \<Rightarrow> u32 \<Rightarrow> hal \<Rightarrow> rc \<times> 'a gmk_ring_spsc \<times> hal" where
  "gmk_ring_spsc_init r z cap elem_size h =
     (if \<not> gmk_is_power_of_two cap \<or> elem_size = 0 then (-1, r, h)
      else let (p, h') = gmk_hal_page_alloc (ucast cap * ucast elem_size) GMK_CACHE_LINE h;
               r1 = r\<lparr>sp_cap := cap, sp_mask := cap - 1, sp_elem_size := elem_size, sp_ptr := p\<rparr>
           in if p = 0 then (-1, r1, h')
              else (0, r1\<lparr>sp_buf := replicate (unat cap) z, sp_head := 0, sp_tail := 0\<rparr>, h'))"

text \<open>The caller's buffer is the address \<open>p\<close> together with its slots \<open>mem\<close>.\<close>

definition gmk_ring_spsc_init_buf ::
  "'a gmk_ring_spsc \<Rightarrow> u32 \<Rightarrow> u32 \<Rightarrow> addr \<Rightarrow> 'a list \<Rightarrow> rc \<times> 'a gmk_ring_spsc" where
  "gmk_ring_spsc_init_buf r cap elem_size p mem =
     (if \<not> gmk_is_power_of_two cap \<or> elem_size = 0 \<or> p = 0 then (-1, r)
      else (0, r\<lparr>sp_cap := cap, sp_mask := cap - 1, sp_elem_size := elem_size, sp_ptr := p,
                 sp_buf := mem, sp_head := 0, sp_tail := 0\<rparr>))"

definition gmk_ring_spsc_destroy :: "'a gmk_ring_spsc \<Rightarrow> hal \<Rightarrow> 'a gmk_ring_spsc \<times> hal" where
  "gmk_ring_spsc_destroy r h =
     (if sp_ptr r \<noteq> 0
      then (r\<lparr>sp_ptr := 0, sp_buf := []\<rparr>,
            gmk_hal_page_free (sp_ptr r) (ucast (sp_cap r) * ucast (sp_elem_size r)) h)
      else (r, h))"

definition gmk_ring_spsc_push :: "'a gmk_ring_spsc \<Rightarrow> 'a \<Rightarrow> (rc \<times> 'a gmk_ring_spsc) exec" where
  "gmk_ring_spsc_push r x =
     (let tail = sp_tail r; head = sp_head r
      in if tail - head \<ge> sp_cap r then Some (-1, r)
         else let idx = tail AND sp_mask r
              in do { b \<leftarrow> arr_set (sp_buf r) (unat idx) x;
                      Some (0, r\<lparr>sp_buf := b, sp_tail := tail + 1\<rparr>) })"

definition gmk_ring_spsc_pop :: "'a gmk_ring_spsc \<Rightarrow> ('a option \<times> 'a gmk_ring_spsc) exec" where
  "gmk_ring_spsc_pop r =
     (let head = sp_head r; tail = sp_tail r
      in if head = tail then Some (None, r)
         else let idx = head AND sp_mask r
              in do { x \<leftarrow> arr_get (sp_buf r) (unat idx);
                      Some (Some x, r\<lparr>sp_head := head + 1\<rparr>) })"

definition gmk_ring_spsc_count :: "'a gmk_ring_spsc \<Rightarrow> u32" where
  "gmk_ring_spsc_count r = sp_tail r - sp_head r"

definition gmk_ring_spsc_full :: "'a gmk_ring_spsc \<Rightarrow> bool" where
  "gmk_ring_spsc_full r \<longleftrightarrow> gmk_ring_spsc_count r \<ge> sp_cap r"

definition gmk_ring_spsc_empty :: "'a gmk_ring_spsc \<Rightarrow> bool" where
  "gmk_ring_spsc_empty r \<longleftrightarrow> gmk_ring_spsc_count r = 0"

section \<open>Invariant and abstraction\<close>

definition spsc_inv :: "'a gmk_ring_spsc \<Rightarrow> bool" where
  "spsc_inv r \<longleftrightarrow> gmk_is_power_of_two (sp_cap r) \<and> sp_mask r = sp_cap r - 1
     \<and> length (sp_buf r) = unat (sp_cap r) \<and> sp_tail r - sp_head r \<le> sp_cap r"

definition spsc_contents :: "'a gmk_ring_spsc \<Rightarrow> 'a list" where
  "spsc_contents r =
     window (sp_buf r) (unat (sp_head r)) (unat (sp_cap r)) (unat (sp_tail r - sp_head r))"

definition spsc_capacity :: "'a gmk_ring_spsc \<Rightarrow> nat" where
  "spsc_capacity r = unat (sp_cap r)"

lemma length_spsc_contents [simp]: "length (spsc_contents r) = unat (sp_tail r - sp_head r)"
  by (simp add: spsc_contents_def)

lemma spsc_invE:
  assumes "spsc_inv r"
  obtains k where "k < 32" "sp_cap r = 2 ^ k" "sp_mask r = 2 ^ k - 1" "unat (sp_cap r) = 2 ^ k"
    "length (sp_buf r) = 2 ^ k" "unat (sp_tail r - sp_head r) \<le> 2 ^ k"
proof -
  from assms obtain k where k: "k < 32" "sp_cap r = 2 ^ k"
    by (auto simp: spsc_inv_def gmk_is_power_of_two_iff)
  then have "unat (sp_cap r) = 2 ^ k" by (simp add: unat_pow2)
  with assms k show ?thesis by (intro that [of k]) (auto simp: spsc_inv_def word_le_nat_alt)
qed

lemma spsc_push_room:
  assumes inv: "spsc_inv r" and room: "length (spsc_contents r) < spsc_capacity r"
  shows "\<exists>r'. gmk_ring_spsc_push r x = Some (0, r') \<and> spsc_inv r'
           \<and> spsc_contents r' = spsc_contents r @ [x] \<and> spsc_capacity r' = spsc_capacity r"
proof -
  obtain k where k: "k < 32" "sp_cap r = 2 ^ k" "sp_mask r = 2 ^ k - 1" "unat (sp_cap r) = 2 ^ k"
    "length (sp_buf r) = 2 ^ k"
    by (rule spsc_invE [OF inv])
  let ?n = "unat (sp_tail r - sp_head r)"
  let ?i = "(unat (sp_head r) + ?n) mod 2 ^ k"
  have n: "?n < 2 ^ k" using room k by (simp add: spsc_capacity_def)
  have le: "(2::nat) ^ k \<le> 2 ^ 31" using k(1) by (intro power_increasing) auto
  have idx: "unat (sp_tail r AND sp_mask r) = ?i"
    using unat_ring_index [of k "sp_head r" ?n] k(1,3) by simp
  let ?r = "r\<lparr>sp_buf := (sp_buf r)[?i := x], sp_tail := sp_tail r + 1\<rparr>"
  have push: "gmk_ring_spsc_push r x = Some (0, ?r)"
    using n k idx by (simp add: gmk_ring_spsc_push_def Let_def exec_simps word_le_nat_alt)
  have n': "unat (sp_tail r + 1 - sp_head r) = Suc ?n"
    using n le by (subst unat_sub_add1) auto
  have "spsc_inv ?r"
    using inv n n' k by (simp add: spsc_inv_def word_le_nat_alt)
  moreover have "spsc_contents ?r = spsc_contents r @ [x]"
    using n k n' by (simp add: spsc_contents_def window_push)
  ultimately show ?thesis using push by (auto simp: spsc_capacity_def)
qed

lemma spsc_push_full:
  "spsc_inv r \<Longrightarrow> spsc_capacity r \<le> length (spsc_contents r) \<Longrightarrow>
   gmk_ring_spsc_push r x = Some (-1, r)"
  by (simp add: gmk_ring_spsc_push_def spsc_capacity_def word_le_nat_alt Let_def)

lemma spsc_pop_some:
  assumes inv: "spsc_inv r" and c: "spsc_contents r = y # ys"
  shows "\<exists>r'. gmk_ring_spsc_pop r = Some (Some y, r') \<and> spsc_inv r'
           \<and> spsc_contents r' = ys \<and> spsc_capacity r' = spsc_capacity r"
proof -
  obtain k where k: "k < 32" "sp_cap r = 2 ^ k" "sp_mask r = 2 ^ k - 1" "unat (sp_cap r) = 2 ^ k"
    "length (sp_buf r) = 2 ^ k" "unat (sp_tail r - sp_head r) \<le> 2 ^ k"
    by (rule spsc_invE [OF inv])
  let ?n = "unat (sp_tail r - sp_head r)"
  have n: "?n = Suc (length ys)" using arg_cong [OF c, of length] by simp
  then have ne: "sp_tail r \<noteq> sp_head r" by auto
  have idx: "unat (sp_head r AND sp_mask r) = unat (sp_head r) mod 2 ^ k"
    using k by (simp add: unat_and_mask)
  have y: "y = sp_buf r ! (unat (sp_head r) mod 2 ^ k)"
    and ys: "ys = window (sp_buf r) (Suc (unat (sp_head r))) (2 ^ k) (length ys)"
    using c n k by (simp_all add: spsc_contents_def window_Suc)
  let ?r = "r\<lparr>sp_head := sp_head r + 1\<rparr>"
  have pop: "gmk_ring_spsc_pop r = Some (Some y, ?r)"
    using ne idx y k by (simp add: gmk_ring_spsc_pop_def Let_def exec_simps)
  have n': "unat (sp_tail r - (sp_head r + 1)) = length ys"
    using n by (simp add: unat_sub_sub1 [OF ne])
  have h: "unat (sp_head r + 1) mod 2 ^ k = Suc (unat (sp_head r)) mod 2 ^ k"
    using mod_pow2_wrap [of k "sp_head r" 1] k(1) by simp
  then have "spsc_contents ?r = ys"
    using ys [symmetric] n' k by (simp add: spsc_contents_def window_cong [OF h])
  moreover have "spsc_inv ?r" using inv n n' k by (simp add: spsc_inv_def word_le_nat_alt)
  ultimately show ?thesis using pop by (auto simp: spsc_capacity_def)
qed

lemma spsc_pop_none:
  assumes "spsc_contents r = []"
  shows "gmk_ring_spsc_pop r = Some (None, r)"
proof -
  have "unat (sp_tail r - sp_head r) = 0" using arg_cong [OF assms, of length] by simp
  then have "sp_head r = sp_tail r" by (simp add: unat_diff_eq_0_iff)
  then show ?thesis by (simp add: gmk_ring_spsc_pop_def)
qed

lemma spsc_init_cases:
  assumes "gmk_ring_spsc_init r z cap es h = (c, r', h')" "hal_owns h0 P h"
  obtains (ok) "c = 0" "spsc_inv r'" "spsc_contents r' = []" "sp_cap r' = cap" "sp_ptr r' \<noteq> 0"
      "hal_owns h0 (add_mset (sp_ptr r') P) h'"
    | (fail) "c = -1" "hal_owns h0 P h'"
proof (cases "gmk_is_power_of_two cap \<and> es \<noteq> 0")
  case False
  with assms show ?thesis by (auto simp: gmk_ring_spsc_init_def intro: that(2))
next
  case True
  obtain p h1 where a: "gmk_hal_page_alloc (ucast cap * ucast es) 64 h = (p, h1)" by fastforce
  have o: "hal_owns h0 (if p = 0 then P else add_mset p P) h1"
    using hal_owns_page_alloc [OF assms(2) a] .
  show ?thesis
    using assms(1) True a o
    by (cases "p = 0") (auto simp: gmk_ring_spsc_init_def spsc_inv_def spsc_contents_def
      word_le_nat_alt intro: that)
qed

lemma hal_owns_spsc_destroy:
  "hal_owns h0 (add_mset (sp_ptr r) P) h \<Longrightarrow> gmk_ring_spsc_destroy r h = (r', h') \<Longrightarrow>
   hal_owns h0 P h' \<and> sp_ptr r' = 0"
  by (auto simp: gmk_ring_spsc_destroy_def split: if_splits
      dest: hal_owns_nonzero intro: hal_owns_page_free)

interpretation spsc: bounded_fifo spsc_inv spsc_contents spsc_capacity
  gmk_ring_spsc_push gmk_ring_spsc_pop gmk_ring_spsc_count
proof unfold_locales
  show "length (spsc_contents q) \<le> spsc_capacity q" if "spsc_inv q" for q :: "'a gmk_ring_spsc"
    using that by (simp add: spsc_inv_def spsc_capacity_def word_le_nat_alt)
qed (auto simp: gmk_ring_spsc_count_def intro: spsc_push_room spsc_push_full spsc_pop_none
  dest: spsc_pop_some)

lemma spsc_push_ptr: "gmk_ring_spsc_push r x = Some (c, r') \<Longrightarrow> sp_ptr r' = sp_ptr r"
  by (auto simp: gmk_ring_spsc_push_def Let_def bind_eq_Some_conv split: if_splits)

lemma spsc_pop_ptr: "gmk_ring_spsc_pop r = Some (x, r') \<Longrightarrow> sp_ptr r' = sp_ptr r"
  by (auto simp: gmk_ring_spsc_pop_def Let_def bind_eq_Some_conv split: if_splits)

end
