(* ===== verification/Sched_Lq.thy ===== *)
theory Sched_Lq
  imports Ggmk_Types Ring_Spsc
begin

text \<open>
  The per-worker local queue of \<open>src/sched_lq.c\<close>: a single-producer ring whose upper quarter is
  reserved for yielded tasks.
\<close>

record gmk_lq =
  lq_ring :: "gmk_task gmk_ring_spsc"
  lq_yield_watermark :: u32
  lq_cap :: u32

definition gmk_lq_init :: "gmk_lq \<Rightarrow> u32 \<Rightarrow> hal \<Rightarrow> rc \<times> gmk_lq \<times> hal" where
  "gmk_lq_init lq cap h =
     (let lq1 = lq\<lparr>lq_cap := cap,
                   lq_yield_watermark := cap - (cap * GMK_LQ_YIELD_RESERVE_PCT div 100)\<rparr>;
          (c, r, h') = gmk_ring_spsc_init (lq_ring lq1) zero_task cap sizeof_gmk_task h
      in (c, lq1\<lparr>lq_ring := r\<rparr>, h'))"

definition gmk_lq_destroy :: "gmk_lq \<Rightarrow> hal \<Rightarrow> gmk_lq \<times> hal" where
  "gmk_lq_destroy lq h =
     (let (r, h') = gmk_ring_spsc_destroy (lq_ring lq) h in (lq\<lparr>lq_ring := r\<rparr>, h'))"

definition gmk_lq_push :: "gmk_lq \<Rightarrow> gmk_task \<Rightarrow> (rc \<times> gmk_lq) exec" where
  "gmk_lq_push lq t =
     (if gmk_ring_spsc_count (lq_ring lq) \<ge> lq_yield_watermark lq then Some (-1, lq)
      else do { (c, r) \<leftarrow> gmk_ring_spsc_push (lq_ring lq) t; Some (c, lq\<lparr>lq_ring := r\<rparr>) })"

definition gmk_lq_push_yield :: "gmk_lq \<Rightarrow> gmk_task \<Rightarrow> (rc \<times> gmk_lq) exec" where
  "gmk_lq_push_yield lq t =
     do { (c, r) \<leftarrow> gmk_ring_spsc_push (lq_ring lq) t; Some (c, lq\<lparr>lq_ring := r\<rparr>) }"

definition gmk_lq_pop :: "gmk_lq \<Rightarrow> (gmk_task option \<times> gmk_lq) exec" where
  "gmk_lq_pop lq = do { (t, r) \<leftarrow> gmk_ring_spsc_pop (lq_ring lq); Some (t, lq\<lparr>lq_ring := r\<rparr>) }"

definition gmk_lq_count :: "gmk_lq \<Rightarrow> u32" where
  "gmk_lq_count lq = gmk_ring_spsc_count (lq_ring lq)"

section \<open>Invariant\<close>

definition lq_inv :: "gmk_lq \<Rightarrow> bool" where
  "lq_inv lq \<longleftrightarrow> spsc_inv (lq_ring lq) \<and> lq_yield_watermark lq \<le> sp_cap (lq_ring lq)"

definition lq_tasks :: "gmk_lq \<Rightarrow> gmk_task list" where
  "lq_tasks lq = spsc_contents (lq_ring lq)"

definition lq_capacity :: "gmk_lq \<Rightarrow> nat" where
  "lq_capacity lq = spsc_capacity (lq_ring lq)"

text \<open>A push with yield rights and a pop are those of a bounded queue over the full capacity.\<close>

interpretation lqy: bounded_fifo lq_inv lq_tasks lq_capacity gmk_lq_push_yield gmk_lq_pop gmk_lq_count
proof unfold_locales
  fix q x y ys assume inv: "lq_inv q"
  then have r: "spsc_inv (lq_ring q)" by (simp add: lq_inv_def)
  note cap_eq = lq_inv_def lq_tasks_def lq_capacity_def spsc_capacity_def word_le_nat_alt
  show "length (lq_tasks q) \<le> lq_capacity q" "unat (gmk_lq_count q) = length (lq_tasks q)"
    using spsc.contents_bound [OF r] spsc.count_contents [OF r]
    by (simp_all add: lq_tasks_def lq_capacity_def gmk_lq_count_def)
  show "gmk_lq_push_yield q x = Some (- 1, q)" if "lq_capacity q \<le> length (lq_tasks q)"
    using spsc.push_full [OF r, of x] that
    by (simp add: gmk_lq_push_yield_def lq_tasks_def lq_capacity_def)
  show "gmk_lq_pop q = Some (None, q)" if "lq_tasks q = []"
    using spsc.pop_none [OF r] that by (simp add: gmk_lq_pop_def lq_tasks_def)
  show "\<exists>q'. gmk_lq_push_yield q x = Some (0, q') \<and> lq_inv q' \<and> lq_tasks q' = lq_tasks q @ [x]
      \<and> lq_capacity q' = lq_capacity q" if "length (lq_tasks q) < lq_capacity q"
    using spsc.push_room [OF r, of x] that inv by (auto simp: gmk_lq_push_yield_def cap_eq)
  show "\<exists>q'. gmk_lq_pop q = Some (Some y, q') \<and> lq_inv q' \<and> lq_tasks q' = ys
      \<and> lq_capacity q' = lq_capacity q" if "lq_tasks q = y # ys"
    using spsc.pop_some [OF r, of y ys] that inv by (auto simp: gmk_lq_pop_def cap_eq)
qed

lemma lq_push_eq:
  "gmk_lq_push lq t =
     (if lq_yield_watermark lq \<le> gmk_lq_count lq then Some (-1, lq) else gmk_lq_push_yield lq t)"
  by (simp add: gmk_lq_push_def gmk_lq_push_yield_def gmk_lq_count_def)

lemma lq_push_cases:
  assumes "lq_inv lq"
  obtains (room) lq' where "gmk_lq_push lq t = Some (0, lq')" "lq_inv lq'"
      "lq_tasks lq' = lq_tasks lq @ [t]" "lq_capacity lq' = lq_capacity lq"
      "lq_yield_watermark lq' = lq_yield_watermark lq"
      "length (lq_tasks lq) < unat (lq_yield_watermark lq)"
    | (full) "gmk_lq_push lq t = Some (-1, lq)"
      "unat (lq_yield_watermark lq) \<le> length (lq_tasks lq)"
proof (cases "lq_yield_watermark lq \<le> gmk_lq_count lq")
  case True
  with lqy.count_contents [OF assms] show ?thesis
    by (intro that(2)) (simp_all add: lq_push_eq word_le_nat_alt)
next
  case False
  then have lt: "length (lq_tasks lq) < unat (lq_yield_watermark lq)"
    using lqy.count_contents [OF assms] by (simp add: word_le_nat_alt)
  moreover have "unat (lq_yield_watermark lq) \<le> lq_capacity lq"
    using assms by (simp add: lq_inv_def lq_capacity_def spsc_capacity_def word_le_nat_alt)
  ultimately obtain lq' where lq': "gmk_lq_push_yield lq t = Some (0, lq')" "lq_inv lq'"
      "lq_tasks lq' = lq_tasks lq @ [t]" "lq_capacity lq' = lq_capacity lq"
    using lqy.push_room [OF assms, of t] by auto
  moreover have "lq_yield_watermark lq' = lq_yield_watermark lq"
    using lq'(1) by (auto simp: gmk_lq_push_yield_def bind_eq_Some_conv)
  moreover have "gmk_lq_push lq t = Some (0, lq')" using False lq'(1) by (simp add: lq_push_eq)
  ultimately show ?thesis using lt by (intro that(1))
qed

lemma lq_watermark_le: "cap - (cap * 25 div 100) \<le> (cap :: u32)"
proof (rule word_sub_le)
  have "unat (cap * 25 div 100) = (unat cap * 25 mod 4294967296) div 100"
    by (simp add: unat_div unat_word_ariths)
  also have "\<dots> \<le> unat cap * 25 div 100" by (intro div_le_mono mod_less_eq_dividend)
  finally show "cap * 25 div 100 \<le> cap" by (simp add: word_le_nat_alt)
qed

text \<open>For the default capacity the watermark is 768 of 1024 slots.\<close>

lemma lq_init_cases:
  assumes "gmk_lq_init lq cap h = (c, lq', h')" "hal_owns h0 P h"
  obtains (ok) "c = 0" "lq_inv lq'" "lq_tasks lq' = []" "lq_capacity lq' = unat cap"
      "lq_yield_watermark lq' = cap - (cap * 25 div 100)" "hal_owns h0 (add_mset (sp_ptr (lq_ring lq')) P) h'"
    | (fail) "c = -1" "hal_owns h0 P h'"
proof -
  obtain r where r: "gmk_ring_spsc_init (lq_ring lq) zero_task cap 48 h = (c, r, h')"
    and lq': "lq' = lq\<lparr>lq_cap := cap, lq_yield_watermark := cap - (cap * 25 div 100), lq_ring := r\<rparr>"
    using assms(1) by (auto simp: gmk_lq_init_def Let_def split: prod.splits)
  show ?thesis
  proof (rule spsc_init_cases [OF r assms(2)])
    assume "c = 0" "spsc_inv r" "spsc_contents r = []" "sp_cap r = cap" "sp_ptr r \<noteq> 0"
      "hal_owns h0 (add_mset (sp_ptr r) P) h'"
    then show ?thesis using lq_watermark_le [of cap]
      by (intro that(1)) (simp_all add: lq' lq_inv_def lq_tasks_def lq_capacity_def spsc_capacity_def)
  qed (rule that(2))
qed

lemma hal_owns_lq_destroy:
  "hal_owns h0 (add_mset (sp_ptr (lq_ring lq)) P) h \<Longrightarrow> gmk_lq_destroy lq h = (lq', h') \<Longrightarrow>
   hal_owns h0 P h' \<and> sp_ptr (lq_ring lq') = 0"
  by (auto simp: gmk_lq_destroy_def split: prod.splits dest: hal_owns_spsc_destroy)

end
