(* ===== verification/Ring_Mpmc.thy ===== *)
theory Ring_Mpmc
  imports Hal_Mem Bounded_Fifo
begin

text \<open>
  The multi-producer multi-consumer ring of \<open>src/ring_mpmc.c\<close> (a Vyukov bounded queue), as one
  thread at a time executes it; the interleaving of several threads at the granularity of
  the atomic accesses is the subject of theory \<open>Mpmc_Interleaving\<close>.  A cell holds a sequence
  number and one element; cell \<open>i\<close> is the memory at \<open>buf + i * cell_size\<close>.

  The retry loops of push and pop are partial functions: \<open>None\<close> is a loop that never exits.
  Comparisons of sequence numbers are the two's complement differences the compiled code
  computes, so the counters may wrap around.  A weak compare-and-swap that finds the expected
  value succeeds, as it does on x86; spurious failures are part of the interleaving model.
\<close>

section \<open>State and operations\<close>

record 'a gmk_mpmc_cell =
  cell_seq :: u32
  cell_data :: 'a

record 'a gmk_ring_mpmc =
  mp_head :: u32
  mp_tail :: u32
  mp_cap :: u32
  mp_mask :: u32
  mp_elem_size :: u32
  mp_cell_size :: u32
  mp_ptr :: addr
  mp_buf :: "'a gmk_mpmc_cell list"

definition cell_stride :: "u32 \<Rightarrow> u32" where
  "cell_stride elem_size = (let raw = 4 + elem_size in (raw + 7) AND NOT 7)"

definition mpmc_cells :: "u32 \<Rightarrow> 'a \<Rightarrow> 'a gmk_mpmc_cell list" where
  "mpmc_cells cap z = map (\<lambda>i. \<lparr>cell_seq = of_nat i, cell_data = z\<rparr>) [0..<unat cap]"

definition gmk_ring_mpmc_init ::
  "'a gmk_ring_mpmc \<Rightarrow> 'a \<Rightarrow> u32 \<Rightarrow> u32 \<Rightarrow> hal \<Rightarrow> rc \<times> 'a gmk_ring_mpmc \<times> hal" where
  "gmk_ring_mpmc_init r z cap elem_size h =
     (if \<not> gmk_is_power_of_two cap \<or> elem_size = 0 then (-1, r, h)
      else let r1 = r\<lparr>mp_cap := cap, mp_mask := cap - 1, mp_elem_size := elem_size,
                      mp_cell_size := cell_stride elem_size\<rparr>;
               (p, h') = gmk_hal_page_alloc (ucast cap * ucast (mp_cell_size r1)) GMK_CACHE_LINE h;
               r2 = r1\<lparr>mp_ptr := p\<rparr>
           in if p = 0 then (-1, r2, h')
              else (0, r2\<lparr>mp_buf := mpmc_cells cap z, mp_head := 0, mp_tail := 0\<rparr>, h'))"

definition gmk_ring_mpmc_init_buf ::
  "'a gmk_ring_mpmc \<Rightarrow> 'a \<Rightarrow> u32 \<Rightarrow> u32 \<Rightarrow> addr \<Rightarrow> u64 \<Rightarrow> rc \<times> 'a gmk_ring_mpmc" where
  "gmk_ring_mpmc_init_buf r z cap elem_size p buf_size =
     (if \<not> gmk_is_power_of_two cap \<or> elem_size = 0 \<or> p = 0 then (-1, r)
      else let r1 = r\<lparr>mp_cap := cap, mp_mask := cap - 1, mp_elem_size := elem_size,
                      mp_cell_size := cell_stride elem_size\<rparr>
           in if buf_size < ucast cap * ucast (mp_cell_size r1) then (-1, r1)
              else (0, r1\<lparr>mp_ptr := p, mp_buf := mpmc_cells cap z, mp_head := 0, mp_tail := 0\<rparr>))"

definition gmk_ring_mpmc_destroy :: "'a gmk_ring_mpmc \<Rightarrow> hal \<Rightarrow> 'a gmk_ring_mpmc \<times> hal" where
  "gmk_ring_mpmc_destroy r h =
     (if mp_ptr r \<noteq> 0
      then (r\<lparr>mp_ptr := 0, mp_buf := []\<rparr>,
            gmk_hal_page_free (mp_ptr r) (ucast (mp_cap r) * ucast (mp_cell_size r)) h)
      else (r, h))"

text \<open>The claim loop of a push.  \<open>Some tail\<close> is a claimed position, \<open>None\<close> inside the result is
  the full queue.  A failed compare-and-swap leaves the current \<open>r->tail\<close> in \<open>tail\<close>.\<close>

partial_function (option) mpmc_push_claim ::
  "'a gmk_ring_mpmc \<Rightarrow> u32 \<Rightarrow> (u32 option \<times> 'a gmk_ring_mpmc) option" where
  "mpmc_push_claim r tail =
     do { c \<leftarrow> arr_get (mp_buf r) (unat (tail AND mp_mask r));
          if cell_seq c - tail = 0
          then (if mp_tail r = tail then Some (Some tail, r\<lparr>mp_tail := tail + 1\<rparr>)
                else mpmc_push_claim r (mp_tail r))
          else if sint (cell_seq c - tail) < 0 then Some (None, r)
          else mpmc_push_claim r (mp_tail r) }"

definition gmk_ring_mpmc_push :: "'a gmk_ring_mpmc \<Rightarrow> 'a \<Rightarrow> (rc \<times> 'a gmk_ring_mpmc) exec" where
  "gmk_ring_mpmc_push r x =
     do { (claimed, r1) \<leftarrow> mpmc_push_claim r (mp_tail r);
          case claimed of
            None \<Rightarrow> Some (-1, r1)
          | Some tail \<Rightarrow>
              do { b \<leftarrow> arr_set (mp_buf r1) (unat (tail AND mp_mask r1))
                           \<lparr>cell_seq = tail + 1, cell_data = x\<rparr>;
                   Some (0, r1\<lparr>mp_buf := b\<rparr>) } }"

partial_function (option) mpmc_pop_claim ::
  "'a gmk_ring_mpmc \<Rightarrow> u32 \<Rightarrow> (u32 option \<times> 'a gmk_ring_mpmc) option" where
  "mpmc_pop_claim r head =
     do { c \<leftarrow> arr_get (mp_buf r) (unat (head AND mp_mask r));
          if cell_seq c - (head + 1) = 0
          then (if mp_head r = head then Some (Some head, r\<lparr>mp_head := head + 1\<rparr>)
                else mpmc_pop_claim r (mp_head r))
          else if sint (cell_seq c - (head + 1)) < 0 then Some (None, r)
          else mpmc_pop_claim r (mp_head r) }"

definition gmk_ring_mpmc_pop :: "'a gmk_ring_mpmc \<Rightarrow> ('a option \<times> 'a gmk_ring_mpmc) exec" where
  "gmk_ring_mpmc_pop r =
     do { (claimed, r1) \<leftarrow> mpmc_pop_claim r (mp_head r);
          case claimed of
            None \<Rightarrow> Some (None, r1)
          | Some head \<Rightarrow>
              do { c \<leftarrow> arr_get (mp_buf r1) (unat (head AND mp_mask r1));
                   b \<leftarrow> arr_set (mp_buf r1) (unat (head AND mp_mask r1))
                           (c\<lparr>cell_seq := head + mp_cap r1\<rparr>);
                   Some (Some (cell_data c), r1\<lparr>mp_buf := b\<rparr>) } }"

definition gmk_ring_mpmc_count :: "'a gmk_ring_mpmc \<Rightarrow> u32" where
  "gmk_ring_mpmc_count r = mp_tail r - mp_head r"

section \<open>Invariant and abstraction\<close>

text \<open>Counting from \<open>head\<close>, the first \<open>tail - head\<close> cells carry their position plus one (full)
  and the remaining ones their position (free).  The capacity is at least 2.\<close>

definition mpmc_inv :: "'a gmk_ring_mpmc \<Rightarrow> bool" where
  "mpmc_inv r \<longleftrightarrow> gmk_is_power_of_two (mp_cap r) \<and> 2 \<le> mp_cap r \<and> mp_mask r = mp_cap r - 1
     \<and> length (mp_buf r) = unat (mp_cap r) \<and> mp_tail r - mp_head r \<le> mp_cap r
     \<and> (\<forall>i < unat (mp_cap r).
          cell_seq (mp_buf r ! ((unat (mp_head r) + i) mod unat (mp_cap r)))
          = mp_head r + of_nat i + (if i < unat (mp_tail r - mp_head r) then 1 else 0))"

definition mpmc_contents :: "'a gmk_ring_mpmc \<Rightarrow> 'a list" where
  "mpmc_contents r =
     map cell_data
       (window (mp_buf r) (unat (mp_head r)) (unat (mp_cap r)) (unat (mp_tail r - mp_head r)))"

definition mpmc_capacity :: "'a gmk_ring_mpmc \<Rightarrow> nat" where
  "mpmc_capacity r = unat (mp_cap r)"

lemma length_mpmc_contents [simp]: "length (mpmc_contents r) = unat (mp_tail r - mp_head r)"
  by (simp add: mpmc_contents_def)

lemma mpmc_invE:
  assumes "mpmc_inv r"
  obtains k where "0 < k" "k < 32" "mp_cap r = 2 ^ k" "mp_mask r = 2 ^ k - 1"
    "unat (mp_cap r) = 2 ^ k" "length (mp_buf r) = 2 ^ k" "unat (mp_tail r - mp_head r) \<le> 2 ^ k"
    "\<And>i. i < 2 ^ k \<Longrightarrow> cell_seq (mp_buf r ! ((unat (mp_head r) + i) mod 2 ^ k))
        = mp_head r + of_nat i + (if i < unat (mp_tail r - mp_head r) then 1 else 0)"
proof -
  from assms obtain k where k: "k < 32" "mp_cap r = 2 ^ k"
    by (auto simp: mpmc_inv_def gmk_is_power_of_two_iff)
  then have u: "unat (mp_cap r) = 2 ^ k" by (simp add: unat_pow2)
  moreover have "0 < k" using assms u by (cases k) (auto simp: mpmc_inv_def word_le_nat_alt)
  ultimately show ?thesis
    using assms k by (intro that [of k]) (auto simp: mpmc_inv_def word_le_nat_alt)
qed

lemma pow2_le_2_31: "k < 32 \<Longrightarrow> (2::nat) ^ k \<le> 2147483648"
  using power_increasing [of k 31 "2::nat"] by simp

lemma sint_one_minus_pow2:
  assumes "0 < k" "k < 32"
  shows "sint (1 - 2 ^ k :: u32) < 0"
proof -
  have le: "(2::nat) ^ k \<le> 2147483648" by (rule pow2_le_2_31 [OF assms(2)])
  have ge: "(2::nat) \<le> 2 ^ k" using assms(1) by (cases k) auto
  have "unat (1 - 2 ^ k :: u32) = 2 ^ 32 + 1 - 2 ^ k"
    using ge assms(2) by (simp add: unat_sub_if_size unat_pow2 word_size)
  then show ?thesis using le ge by (simp add: sint32_neg_iff)
qed

text \<open>What a push and a pop do on a well-formed ring: the retry loop exits in its first round.\<close>

lemma mpmc_push_claim_room:
  assumes inv: "mpmc_inv r" and room: "unat (mp_tail r - mp_head r) < unat (mp_cap r)"
  shows "mpmc_push_claim r (mp_tail r) = Some (Some (mp_tail r), r\<lparr>mp_tail := mp_tail r + 1\<rparr>)"
    and "unat (mp_tail r AND mp_mask r)
         = (unat (mp_head r) + unat (mp_tail r - mp_head r)) mod unat (mp_cap r)"
proof -
  obtain k where k: "0 < k" "k < 32" "mp_cap r = 2 ^ k" "mp_mask r = 2 ^ k - 1"
    "unat (mp_cap r) = 2 ^ k" "length (mp_buf r) = 2 ^ k" "unat (mp_tail r - mp_head r) \<le> 2 ^ k"
    and seq: "\<And>i. i < 2 ^ k \<Longrightarrow> cell_seq (mp_buf r ! ((unat (mp_head r) + i) mod 2 ^ k))
        = mp_head r + of_nat i + (if i < unat (mp_tail r - mp_head r) then 1 else 0)"
    by (rule mpmc_invE [OF inv]) blast
  show idx: "unat (mp_tail r AND mp_mask r)
      = (unat (mp_head r) + unat (mp_tail r - mp_head r)) mod unat (mp_cap r)"
    using unat_ring_index [of k "mp_head r" "unat (mp_tail r - mp_head r)"] k by simp
  show "mpmc_push_claim r (mp_tail r) = Some (Some (mp_tail r), r\<lparr>mp_tail := mp_tail r + 1\<rparr>)"
    using seq [of "unat (mp_tail r - mp_head r)"] room idx k
    by (subst mpmc_push_claim.simps) (simp add: exec_simps)
qed

lemma mpmc_push_claim_full:
  assumes inv: "mpmc_inv r" and full: "unat (mp_cap r) \<le> unat (mp_tail r - mp_head r)"
  shows "mpmc_push_claim r (mp_tail r) = Some (None, r)"
proof -
  obtain k where k: "0 < k" "k < 32" "mp_cap r = 2 ^ k" "mp_mask r = 2 ^ k - 1"
    "unat (mp_cap r) = 2 ^ k" "length (mp_buf r) = 2 ^ k" "unat (mp_tail r - mp_head r) \<le> 2 ^ k"
    and seq: "\<And>i. i < 2 ^ k \<Longrightarrow> cell_seq (mp_buf r ! ((unat (mp_head r) + i) mod 2 ^ k))
        = mp_head r + of_nat i + (if i < unat (mp_tail r - mp_head r) then 1 else 0)"
    by (rule mpmc_invE [OF inv]) blast
  have n: "unat (mp_tail r - mp_head r) = 2 ^ k" using full k by simp
  have tail: "mp_tail r = mp_head r + 2 ^ k"
    using word_eq_add_diff [of "mp_tail r" "mp_head r"] n by (metis of_nat_numeral of_nat_power)
  have idx: "unat (mp_tail r AND mp_mask r) = (unat (mp_head r) + 0) mod 2 ^ k"
    using unat_ring_index [of k "mp_head r" "2 ^ k"] k tail by simp
  have "cell_seq (mp_buf r ! unat (mp_tail r AND mp_mask r)) = mp_head r + 1"
    using seq [of 0] n idx by simp
  then have "cell_seq (mp_buf r ! unat (mp_tail r AND mp_mask r)) - mp_tail r = 1 - 2 ^ k"
    by (simp add: tail)
  moreover have "sint (1 - 2 ^ k :: u32) < 0" using k by (intro sint_one_minus_pow2)
  moreover have "unat (mp_tail r AND mp_mask r) < length (mp_buf r)" using idx k by simp
  ultimately show ?thesis
    by (subst mpmc_push_claim.simps) (auto simp: exec_simps)
qed

lemma mpmc_push_room:
  assumes inv: "mpmc_inv r" and room: "length (mpmc_contents r) < mpmc_capacity r"
  shows "\<exists>r'. gmk_ring_mpmc_push r x = Some (0, r') \<and> mpmc_inv r'
           \<and> mpmc_contents r' = mpmc_contents r @ [x] \<and> mpmc_capacity r' = mpmc_capacity r"
proof -
  let ?n = "unat (mp_tail r - mp_head r)"
  obtain k where k: "0 < k" "k < 32" "mp_cap r = 2 ^ k" "mp_mask r = 2 ^ k - 1"
    "unat (mp_cap r) = 2 ^ k" "length (mp_buf r) = 2 ^ k" "unat (mp_tail r - mp_head r) \<le> 2 ^ k"
    and seq: "\<And>i. i < 2 ^ k \<Longrightarrow> cell_seq (mp_buf r ! ((unat (mp_head r) + i) mod 2 ^ k))
        = mp_head r + of_nat i + (if i < ?n then 1 else 0)"
    by (rule mpmc_invE [OF inv]) blast
  have n: "?n < unat (mp_cap r)" using room by (simp add: mpmc_capacity_def)
  note claim = mpmc_push_claim_room [OF inv n]
  let ?i = "(unat (mp_head r) + ?n) mod 2 ^ k"
  let ?c = "\<lparr>cell_seq = mp_tail r + 1, cell_data = x\<rparr>"
  let ?r = "r\<lparr>mp_tail := mp_tail r + 1, mp_buf := (mp_buf r)[?i := ?c]\<rparr>"
  have push: "gmk_ring_mpmc_push r x = Some (0, ?r)"
    using claim k by (simp add: gmk_ring_mpmc_push_def exec_simps)
  have n': "unat (mp_tail r + 1 - mp_head r) = Suc ?n"
    using n k pow2_le_2_31 [OF k(2)] by (subst unat_sub_add1) auto
  have "cell_seq ((mp_buf r)[?i := ?c] ! ((unat (mp_head r) + i) mod 2 ^ k))
      = mp_head r + of_nat i + (if i < Suc ?n then 1 else 0)" if "i < 2 ^ k" for i
    using seq [OF that] that n k mod_add_inj [of i "2 ^ k" ?n "unat (mp_head r)"]
    by (cases "i = ?n") (auto simp: nth_list_update)
  then have "mpmc_inv ?r"
    using inv n n' k by (simp add: mpmc_inv_def word_le_nat_alt)
  moreover have "mpmc_contents ?r = mpmc_contents r @ [x]"
    using n k n' by (simp add: mpmc_contents_def window_push)
  ultimately show ?thesis using push by (auto simp: mpmc_capacity_def)
qed

lemma mpmc_push_full:
  "mpmc_inv r \<Longrightarrow> mpmc_capacity r \<le> length (mpmc_contents r) \<Longrightarrow>
   gmk_ring_mpmc_push r x = Some (-1, r)"
  by (simp add: gmk_ring_mpmc_push_def mpmc_capacity_def mpmc_push_claim_full)

lemma mpmc_pop_some:
  assumes inv: "mpmc_inv r" and c: "mpmc_contents r = y # ys"
  shows "\<exists>r'. gmk_ring_mpmc_pop r = Some (Some y, r') \<and> mpmc_inv r'
           \<and> mpmc_contents r' = ys \<and> mpmc_capacity r' = mpmc_capacity r"
proof -
  let ?n = "unat (mp_tail r - mp_head r)"
  obtain k where k: "0 < k" "k < 32" "mp_cap r = 2 ^ k" "mp_mask r = 2 ^ k - 1"
    "unat (mp_cap r) = 2 ^ k" "length (mp_buf r) = 2 ^ k" "?n \<le> 2 ^ k"
    and seq: "\<And>i. i < 2 ^ k \<Longrightarrow> cell_seq (mp_buf r ! ((unat (mp_head r) + i) mod 2 ^ k))
        = mp_head r + of_nat i + (if i < ?n then 1 else 0)"
    by (rule mpmc_invE [OF inv]) blast
  have n: "?n = Suc (length ys)" using arg_cong [OF c, of length] by simp
  then have ne: "mp_tail r \<noteq> mp_head r" by auto
  let ?i = "unat (mp_head r) mod 2 ^ k"
  have idx: "unat (mp_head r AND mp_mask r) = ?i" using k by (simp add: unat_and_mask)
  have y: "y = cell_data (mp_buf r ! ?i)"
    and ys: "map cell_data (window (mp_buf r) (Suc (unat (mp_head r))) (2 ^ k) (length ys)) = ys"
    using c n k by (simp_all add: mpmc_contents_def window_Suc)
  let ?b = "(mp_buf r)[?i := (mp_buf r ! ?i)\<lparr>cell_seq := mp_head r + 2 ^ k\<rparr>]"
  let ?r = "r\<lparr>mp_head := mp_head r + 1, mp_buf := ?b\<rparr>"
  have claim: "mpmc_pop_claim r (mp_head r) = Some (Some (mp_head r), r\<lparr>mp_head := mp_head r + 1\<rparr>)"
    using seq [of 0] n idx k by (subst mpmc_pop_claim.simps) (simp add: exec_simps)
  have pop: "gmk_ring_mpmc_pop r = Some (Some y, ?r)"
    using claim idx k y by (simp add: gmk_ring_mpmc_pop_def exec_simps)
  have n': "unat (mp_tail r - (mp_head r + 1)) = length ys"
    using n by (simp add: unat_sub_sub1 [OF ne])
  have h: "unat (mp_head r + 1) mod 2 ^ k = Suc (unat (mp_head r)) mod 2 ^ k"
    using mod_pow2_wrap [of k "mp_head r" 1] k(2) by simp
  have last: "(unat (mp_head r + 1) + (2 ^ k - 1)) mod 2 ^ k = ?i"
  proof -
    have "(unat (mp_head r + 1) + (2 ^ k - 1)) mod 2 ^ k = (Suc (unat (mp_head r)) + (2 ^ k - 1)) mod 2 ^ k"
      using h by (metis mod_add_left_eq)
    then show ?thesis by simp
  qed
  have shift: "(unat (mp_head r + 1) + i) mod 2 ^ k = (unat (mp_head r) + Suc i) mod 2 ^ k" for i
    using h mod_add_left_eq [of "unat (mp_head r + 1)" "2 ^ k" i]
      mod_add_left_eq [of "Suc (unat (mp_head r))" "2 ^ k" i] by simp
  have "cell_seq (?b ! ((unat (mp_head r + 1) + i) mod 2 ^ k))
      = mp_head r + 1 + of_nat i + (if i < length ys then 1 else 0)" if i: "i < 2 ^ k" for i
  proof (cases "Suc i < 2 ^ k")
    case True
    then have "(unat (mp_head r) + Suc i) mod 2 ^ k \<noteq> ?i"
      using mod_add_inj [of "Suc i" "2 ^ k" 0 "unat (mp_head r)"] by auto
    then show ?thesis using seq [OF True] n by (simp add: shift)
  next
    case False
    then have "i = 2 ^ k - 1" using i by simp
    moreover have "mp_head r + 2 ^ k = mp_head r + 1 + of_nat (2 ^ k - 1)"
      by (simp add: of_nat_diff)
    ultimately show ?thesis using last n k(6,7) by simp
  qed
  then have "mpmc_inv ?r" using inv n n' k by (simp add: mpmc_inv_def word_le_nat_alt)
  moreover have "window ?b (Suc (unat (mp_head r))) (2 ^ k) (length ys)
      = window (mp_buf r) (Suc (unat (mp_head r))) (2 ^ k) (length ys)"
    using window_update [of "length ys" "2 ^ k - 1" "2 ^ k" "mp_buf r" "Suc (unat (mp_head r))"] n k
    by simp
  then have "mpmc_contents ?r = ys"
    using ys n' k by (simp add: mpmc_contents_def window_cong [OF h])
  ultimately show ?thesis using pop by (auto simp: mpmc_capacity_def)
qed

lemma mpmc_pop_none:
  assumes inv: "mpmc_inv r" and "mpmc_contents r = []"
  shows "gmk_ring_mpmc_pop r = Some (None, r)"
proof -
  obtain k where k: "0 < k" "k < 32" "mp_cap r = 2 ^ k" "mp_mask r = 2 ^ k - 1"
    "unat (mp_cap r) = 2 ^ k" "length (mp_buf r) = 2 ^ k" "unat (mp_tail r - mp_head r) \<le> 2 ^ k"
    and seq: "\<And>i. i < 2 ^ k \<Longrightarrow> cell_seq (mp_buf r ! ((unat (mp_head r) + i) mod 2 ^ k))
        = mp_head r + of_nat i + (if i < unat (mp_tail r - mp_head r) then 1 else 0)"
    by (rule mpmc_invE [OF inv]) blast
  have "unat (mp_tail r - mp_head r) = 0" using arg_cong [OF assms(2), of length] by simp
  then have "mpmc_pop_claim r (mp_head r) = Some (None, r)"
    using seq [of 0] k unat_and_mask [of "mp_head r" k]
    by (subst mpmc_pop_claim.simps) (simp add: exec_simps)
  then show ?thesis by (simp add: gmk_ring_mpmc_pop_def)
qed

interpretation mpmc: bounded_fifo mpmc_inv mpmc_contents mpmc_capacity
  gmk_ring_mpmc_push gmk_ring_mpmc_pop gmk_ring_mpmc_count
proof unfold_locales
  show "length (mpmc_contents q) \<le> mpmc_capacity q" if "mpmc_inv q" for q :: "'a gmk_ring_mpmc"
    using that by (simp add: mpmc_inv_def mpmc_capacity_def word_le_nat_alt)
qed (auto simp: gmk_ring_mpmc_count_def intro: mpmc_push_room mpmc_push_full mpmc_pop_none
  dest: mpmc_pop_some)

section \<open>Initialisation\<close>

lemma mpmc_cells_inv:
  assumes "gmk_is_power_of_two cap" "2 \<le> cap"
  shows "mpmc_inv (r\<lparr>mp_cap := cap, mp_mask := cap - 1, mp_buf := mpmc_cells cap z,
                     mp_head := 0, mp_tail := 0\<rparr>)"
  using assms by (simp add: mpmc_inv_def mpmc_cells_def)

lemma mpmc_init_cases:
  assumes "gmk_ring_mpmc_init r z cap es h = (c, r', h')" "hal_owns h0 P h" "2 \<le> cap"
  obtains (ok) "c = 0" "mpmc_inv r'" "mpmc_contents r' = []" "mp_cap r' = cap" "mp_ptr r' \<noteq> 0"
      "hal_owns h0 (add_mset (mp_ptr r') P) h'"
    | (fail) "c = -1" "hal_owns h0 P h'"
proof (cases "gmk_is_power_of_two cap \<and> es \<noteq> 0")
  case False
  with assms show ?thesis by (auto simp: gmk_ring_mpmc_init_def intro: that(2))
next
  case True
  obtain p h1 where a: "gmk_hal_page_alloc (ucast cap * ucast (cell_stride es)) 64 h = (p, h1)"
    by fastforce
  have o: "hal_owns h0 (if p = 0 then P else add_mset p P) h1"
    using hal_owns_page_alloc [OF assms(2) a] .
  show ?thesis
  proof (cases "p = 0")
    case p: True
    then have "c = -1" "h' = h1" using assms(1) True a by (simp_all add: gmk_ring_mpmc_init_def)
    then show ?thesis using o p by (intro that(2)) simp_all
  next
    case p: False
    let ?r = "r\<lparr>mp_elem_size := es, mp_cell_size := cell_stride es, mp_ptr := p,
      mp_cap := cap, mp_mask := cap - 1, mp_buf := mpmc_cells cap z, mp_head := 0, mp_tail := 0\<rparr>"
    have "c = 0" "h' = h1" and r': "r' = ?r"
      using assms(1) True a p by (auto simp: gmk_ring_mpmc_init_def)
    moreover have "mpmc_inv r'" unfolding r' by (rule mpmc_cells_inv) (use True assms(3) in simp_all)
    moreover have "mpmc_contents r' = []" by (simp add: r' mpmc_contents_def)
    ultimately show ?thesis using o p by (intro that(1)) simp_all
  qed
qed

lemma hal_owns_mpmc_destroy:
  "hal_owns h0 (add_mset (mp_ptr r) P) h \<Longrightarrow> gmk_ring_mpmc_destroy r h = (r', h') \<Longrightarrow>
   hal_owns h0 P h' \<and> mp_ptr r' = 0"
  by (auto simp: gmk_ring_mpmc_destroy_def split: if_splits
      dest: hal_owns_nonzero intro: hal_owns_page_free)

text \<open>No operation moves the cells.\<close>

lemma mpmc_claim_ptr:
  "mpmc_push_claim r h = Some y \<Longrightarrow> mp_ptr (snd y) = mp_ptr r"
  "mpmc_pop_claim r h = Some y \<Longrightarrow> mp_ptr (snd y) = mp_ptr r"
proof -
  show "mp_ptr (snd y) = mp_ptr r" if "mpmc_push_claim r h = Some y"
    using that
  proof (induction rule: mpmc_push_claim.raw_induct [rotated, consumes 1])
    case (1 f r h y)
    then show ?case by (fastforce simp: bind_eq_Some_conv split: if_splits)
  qed
  show "mp_ptr (snd y) = mp_ptr r" if "mpmc_pop_claim r h = Some y"
    using that
  proof (induction rule: mpmc_pop_claim.raw_induct [rotated, consumes 1])
    case (1 f r h y)
    then show ?case by (fastforce simp: bind_eq_Some_conv split: if_splits)
  qed
qed

lemma mpmc_push_ptr: "gmk_ring_mpmc_push r x = Some (e, r') \<Longrightarrow> mp_ptr r' = mp_ptr r"
  by (fastforce simp: gmk_ring_mpmc_push_def bind_eq_Some_conv split: option.splits dest: mpmc_claim_ptr)

lemma mpmc_pop_ptr: "gmk_ring_mpmc_pop r = Some (x, r') \<Longrightarrow> mp_ptr r' = mp_ptr r"
  by (fastforce simp: gmk_ring_mpmc_pop_def bind_eq_Some_conv split: option.splits dest: mpmc_claim_ptr)

section \<open>Capacity 1\<close>

text \<open>With one cell the sequence number that marks a full cell is also the one that the next
  producer waits for.  A consumer that then finds the number ahead of its position reloads the
  head, which does not change, and never leaves the loop.\<close>

lemma mpmc_pop_claim_spins:
  assumes "arr_get (mp_buf r) (unat (mp_head r AND mp_mask r)) = Some c"
    "cell_seq c - (mp_head r + 1) \<noteq> 0" "\<not> sint (cell_seq c - (mp_head r + 1)) < 0"
  shows "mpmc_pop_claim r (mp_head r) = None"
proof -
  have "\<not> (r' = r \<and> h = mp_head r)" if "mpmc_pop_claim r' h = Some y" for r' h y
    using that
  proof (induction rule: mpmc_pop_claim.raw_induct [rotated, consumes 1])
    case (1 f r' h y)
    then show ?case using assms by (cases y) (auto simp: bind_eq_Some_conv split: if_splits)
  qed
  then show ?thesis by (metis option.exhaust)
qed

lemma mpmc_one_hangs:
  assumes "mp_head r1 = 0" "mp_tail r1 = 0" "mp_mask r1 = 0" "mp_cap r1 = 1"
    "mp_buf r1 = [\<lparr>cell_seq = 0, cell_data = z\<rparr>]"
  shows "\<exists>r2 r3. gmk_ring_mpmc_push r1 x = Some (0, r2) \<and> gmk_ring_mpmc_push r2 y = Some (0, r3)
    \<and> gmk_ring_mpmc_pop r3 = None"
proof -
  let ?r2 = "r1\<lparr>mp_tail := 1, mp_buf := [\<lparr>cell_seq = 1, cell_data = x\<rparr>]\<rparr>"
  let ?r3 = "r1\<lparr>mp_tail := 2, mp_buf := [\<lparr>cell_seq = 2, cell_data = y\<rparr>]\<rparr>"
  have "mpmc_push_claim r1 0 = Some (Some 0, r1\<lparr>mp_tail := 1\<rparr>)"
    using assms by (subst mpmc_push_claim.simps) (simp add: exec_simps)
  then have 1: "gmk_ring_mpmc_push r1 x = Some (0, ?r2)"
    using assms by (simp add: gmk_ring_mpmc_push_def exec_simps)
  have "mpmc_push_claim ?r2 1 = Some (Some 1, ?r2\<lparr>mp_tail := 2\<rparr>)"
    using assms by (subst mpmc_push_claim.simps) (simp add: exec_simps)
  then have 2: "gmk_ring_mpmc_push ?r2 y = Some (0, ?r3)"
    using assms by (simp add: gmk_ring_mpmc_push_def exec_simps)
  have "mpmc_pop_claim ?r3 (mp_head ?r3) = None"
    using assms by (intro mpmc_pop_claim_spins [of _ "\<lparr>cell_seq = 2, cell_data = y\<rparr>"]) (simp_all add: exec_simps)
  then have "gmk_ring_mpmc_pop ?r3 = None" using assms by (simp add: gmk_ring_mpmc_pop_def)
  with 1 2 show ?thesis by blast
qed

end
