(* ===== verification/Sched_Rq.thy ===== *)
theory Sched_Rq
  imports Ggmk_Types Ring_Mpmc
begin

text \<open>
  The ready queue of \<open>src/sched_rq.c\<close>: four rings, one per priority, popped by weighted round
  robin.  The abstract scheduler \<open>wrr_pop\<close> works on the four lists of waiting tasks and the four
  counters; the code refines it, and a task that waits cannot be passed over for more than
  a fixed number of pops.
\<close>

section \<open>State and operations\<close>

record gmk_rq =
  rq_queues :: "gmk_task gmk_ring_mpmc list"
  rq_pop_counters :: "u32 list"

definition zero_ring_mpmc :: "'a gmk_ring_mpmc" where
  "zero_ring_mpmc = \<lparr>mp_head = 0, mp_tail = 0, mp_cap = 0, mp_mask = 0, mp_elem_size = 0,
     mp_cell_size = 0, mp_ptr = 0, mp_buf = []\<rparr>"

definition zero_rq :: gmk_rq where
  "zero_rq = \<lparr>rq_queues = replicate GMK_PRIORITY_COUNT zero_ring_mpmc,
              rq_pop_counters = replicate GMK_PRIORITY_COUNT 0\<rparr>"

text \<open>Destroying the queues of the given priorities, in order.\<close>

fun rq_destroy_queues :: "nat list \<Rightarrow> gmk_rq \<Rightarrow> hal \<Rightarrow> (gmk_rq \<times> hal) exec" where
  "rq_destroy_queues [] rq h = Some (rq, h)"
| "rq_destroy_queues (j # js) rq h =
     do { q \<leftarrow> arr_get (rq_queues rq) j;
          let (q', h') = gmk_ring_mpmc_destroy q h
          in rq_destroy_queues js (rq\<lparr>rq_queues := (rq_queues rq)[j := q']\<rparr>) h' }"

text \<open>The initialisation loop; at the first failure the queues built so far are destroyed.\<close>

fun rq_init_queues :: "nat list \<Rightarrow> u32 \<Rightarrow> gmk_rq \<Rightarrow> hal \<Rightarrow> (rc \<times> gmk_rq \<times> hal) exec" where
  "rq_init_queues [] cap rq h = Some (0, rq, h)"
| "rq_init_queues (i # is) cap rq h =
     do { q \<leftarrow> arr_get (rq_queues rq) i;
          let (c, q', h') = gmk_ring_mpmc_init q zero_task cap sizeof_gmk_task h;
              rq' = rq\<lparr>rq_queues := (rq_queues rq)[i := q']\<rparr>
          in if c \<noteq> 0
             then do { (rq'', h'') \<leftarrow> rq_destroy_queues [0..<i] rq' h'; Some (-1, rq'', h'') }
             else do { cs \<leftarrow> arr_set (rq_pop_counters rq') i 0;
                       rq_init_queues is cap (rq'\<lparr>rq_pop_counters := cs\<rparr>) h' } }"

definition gmk_rq_init :: "u32 \<Rightarrow> hal \<Rightarrow> (rc \<times> gmk_rq \<times> hal) exec" where
  "gmk_rq_init cap_per_queue h = rq_init_queues [0..<GMK_PRIORITY_COUNT] cap_per_queue zero_rq h"

definition gmk_rq_destroy :: "gmk_rq \<Rightarrow> hal \<Rightarrow> (gmk_rq \<times> hal) exec" where
  "gmk_rq_destroy rq h = rq_destroy_queues [0..<GMK_PRIORITY_COUNT] rq h"

definition gmk_rq_push :: "gmk_rq \<Rightarrow> gmk_task \<Rightarrow> (rc \<times> gmk_rq) exec" where
  "gmk_rq_push rq t =
     (let prio = (ucast (GMK_PRIORITY (tk_flags t)) :: u32);
          prio' = (if prio \<ge> 4 then GMK_PRIO_LOW else prio)
      in do { q \<leftarrow> arr_get (rq_queues rq) (unat prio');
              (c, q') \<leftarrow> gmk_ring_mpmc_push q t;
              Some (c, rq\<lparr>rq_queues := (rq_queues rq)[unat prio' := q']\<rparr>) })"

text \<open>The first pass tries the priorities whose counter is below their weight; the second
  pass tries all of them.\<close>

fun rq_pass1 :: "nat list \<Rightarrow> gmk_rq \<Rightarrow> (gmk_task option \<times> gmk_rq) exec" where
  "rq_pass1 [] rq = Some (None, rq)"
| "rq_pass1 (p # ps) rq =
     do { c \<leftarrow> arr_get (rq_pop_counters rq) p;
          w \<leftarrow> arr_get rq_weights p;
          if c < w
          then do { q \<leftarrow> arr_get (rq_queues rq) p;
                    (t, q') \<leftarrow> gmk_ring_mpmc_pop q;
                    let rq' = rq\<lparr>rq_queues := (rq_queues rq)[p := q']\<rparr>
                    in case t of
                         Some x \<Rightarrow> Some (Some x, rq'\<lparr>rq_pop_counters := (rq_pop_counters rq)[p := c + 1]\<rparr>)
                       | None \<Rightarrow> rq_pass1 ps rq' }
          else rq_pass1 ps rq }"

fun rq_pass2 :: "nat list \<Rightarrow> gmk_rq \<Rightarrow> (gmk_task option \<times> gmk_rq) exec" where
  "rq_pass2 [] rq = Some (None, rq)"
| "rq_pass2 (p # ps) rq =
     do { q \<leftarrow> arr_get (rq_queues rq) p;
          (t, q') \<leftarrow> gmk_ring_mpmc_pop q;
          let rq' = rq\<lparr>rq_queues := (rq_queues rq)[p := q']\<rparr>
          in case t of
               Some x \<Rightarrow> do { c \<leftarrow> arr_get (rq_pop_counters rq) p;
                              Some (Some x, rq'\<lparr>rq_pop_counters := (rq_pop_counters rq)[p := c + 1]\<rparr>) }
             | None \<Rightarrow> rq_pass2 ps rq' }"

definition gmk_rq_pop :: "gmk_rq \<Rightarrow> (gmk_task option \<times> gmk_rq) exec" where
  "gmk_rq_pop rq =
     do { (t, rq1) \<leftarrow> rq_pass1 [0..<GMK_PRIORITY_COUNT] rq;
          case t of
            Some x \<Rightarrow> Some (Some x, rq1)
          | None \<Rightarrow> rq_pass2 [0..<GMK_PRIORITY_COUNT]
                      (rq1\<lparr>rq_pop_counters := replicate GMK_PRIORITY_COUNT 0\<rparr>) }"

definition gmk_rq_count :: "gmk_rq \<Rightarrow> u32" where
  "gmk_rq_count rq = sum_list (map gmk_ring_mpmc_count (rq_queues rq))"

section \<open>Invariant and abstraction\<close>

definition rq_inv :: "gmk_rq \<Rightarrow> bool" where
  "rq_inv rq \<longleftrightarrow> length (rq_queues rq) = 4 \<and> length (rq_pop_counters rq) = 4
     \<and> (\<forall>q \<in> set (rq_queues rq). mpmc_inv q)
     \<and> (\<forall>p < 4. rq_pop_counters rq ! p \<le> rq_weights ! p)
     \<and> (\<forall>p < 4. \<forall>t \<in> set (mpmc_contents (rq_queues rq ! p)). task_prio t = p)"

text \<open>The waiting tasks of each priority, and the pops already spent.\<close>

definition rq_lists :: "gmk_rq \<Rightarrow> gmk_task list list" where
  "rq_lists rq = map mpmc_contents (rq_queues rq)"

definition rq_spent :: "gmk_rq \<Rightarrow> nat list" where
  "rq_spent rq = map unat (rq_pop_counters rq)"

definition rq_caps :: "gmk_rq \<Rightarrow> nat list" where
  "rq_caps rq = map mpmc_capacity (rq_queues rq)"

text \<open>The abstract scheduler.\<close>

definition wrr_weight :: "nat list" where
  "wrr_weight = [8, 4, 2, 1]"

definition wrr_pick :: "(nat \<Rightarrow> bool) \<Rightarrow> gmk_task list list \<Rightarrow> nat option" where
  "wrr_pick ok ls = find (\<lambda>p. ok p \<and> ls ! p \<noteq> []) [0..<4]"

definition wrr_pop ::
  "gmk_task list list \<Rightarrow> nat list \<Rightarrow> gmk_task option \<times> gmk_task list list \<times> nat list" where
  "wrr_pop ls cs =
     (case wrr_pick (\<lambda>p. cs ! p < wrr_weight ! p) ls of
        Some p \<Rightarrow> (Some (hd (ls ! p)), ls[p := tl (ls ! p)], cs[p := Suc (cs ! p)])
      | None \<Rightarrow>
          (case wrr_pick (\<lambda>p. True) ls of
             Some p \<Rightarrow> (Some (hd (ls ! p)), ls[p := tl (ls ! p)], (replicate 4 0)[p := 1])
           | None \<Rightarrow> (None, ls, replicate 4 0)))"

lemma rq_weights_eq: "p < 4 \<Longrightarrow> unat (rq_weights ! p) = wrr_weight ! p"
  by (auto simp: rq_weights_def wrr_weight_def less_4_cases)

lemma rq_inv_queue:
  assumes "rq_inv rq" "p < 4"
  shows "mpmc_inv (rq_queues rq ! p)" "rq_lists rq ! p = mpmc_contents (rq_queues rq ! p)"
    "rq_spent rq ! p = unat (rq_pop_counters rq ! p)" "p < length (rq_queues rq)"
    "p < length (rq_pop_counters rq)"
  using assms by (auto simp: rq_inv_def rq_lists_def rq_spent_def)

text \<open>Replacing one queue by a well-formed one with tasks of the right priority.\<close>

lemma rq_inv_update_queue:
  assumes "rq_inv rq" "p < 4" "mpmc_inv q" "\<forall>t \<in> set (mpmc_contents q). task_prio t = p"
  shows "rq_inv (rq\<lparr>rq_queues := (rq_queues rq)[p := q]\<rparr>)"
  using assms set_update_subset_insert [of "rq_queues rq" p q]
  by (auto simp: rq_inv_def nth_list_update)

lemma rq_inv_update_counters:
  assumes "rq_inv rq" "length cs = 4" "\<And>p. p < 4 \<Longrightarrow> cs ! p \<le> rq_weights ! p"
  shows "rq_inv (rq\<lparr>rq_pop_counters := cs\<rparr>)"
  using assms by (simp add: rq_inv_def)

text \<open>One service of priority \<open>p\<close>: the ring pops its oldest task and the counter moves on.\<close>

definition rq_served :: "gmk_rq \<Rightarrow> nat \<Rightarrow> gmk_rq \<Rightarrow> bool" where
  "rq_served rq p rq' \<longleftrightarrow> rq_inv rq' \<and> rq_lists rq' = (rq_lists rq)[p := tl (rq_lists rq ! p)]
     \<and> rq_spent rq' = (rq_spent rq)[p := Suc (rq_spent rq ! p)] \<and> rq_caps rq' = rq_caps rq"

lemma rq_serve:
  assumes inv: "rq_inv rq" and p: "p < 4" and ne: "rq_lists rq ! p \<noteq> []"
    and lt: "rq_pop_counters rq ! p < rq_weights ! p"
  obtains q' where "gmk_ring_mpmc_pop (rq_queues rq ! p) = Some (Some (hd (rq_lists rq ! p)), q')"
    and "rq_served rq p (rq\<lparr>rq_queues := (rq_queues rq)[p := q'],
                rq_pop_counters := (rq_pop_counters rq)[p := rq_pop_counters rq ! p + 1]\<rparr>)"
proof -
  note q = rq_inv_queue [OF inv p]
  have c: "mpmc_contents (rq_queues rq ! p) = hd (rq_lists rq ! p) # tl (rq_lists rq ! p)"
    using ne q(2) by simp
  obtain q' where q': "gmk_ring_mpmc_pop (rq_queues rq ! p) = Some (Some (hd (rq_lists rq ! p)), q')"
    "mpmc_inv q'" "mpmc_contents q' = tl (rq_lists rq ! p)"
    "mpmc_capacity q' = mpmc_capacity (rq_queues rq ! p)"
    using mpmc.pop_some [OF q(1) c] by auto
  let ?cs = "(rq_pop_counters rq)[p := rq_pop_counters rq ! p + 1]"
  let ?rq1 = "rq\<lparr>rq_queues := (rq_queues rq)[p := q']\<rparr>"
  have prio: "\<forall>t \<in> set (mpmc_contents q'). task_prio t = p"
    using inv p q'(3) q(2) ne by (auto simp: rq_inv_def dest: list.set_sel(2))
  have inc: "rq_pop_counters rq ! p + 1 \<le> rq_weights ! p" using lt by (rule inc_le)
  have suc: "unat (rq_pop_counters rq ! p + 1) = Suc (unat (rq_pop_counters rq ! p))"
    using lt p by (subst unat_Suc_nowrap) (auto simp: word_less_nat_alt rq_weights_def less_4_cases)
  have "rq_inv ?rq1" by (rule rq_inv_update_queue [OF inv p q'(2) prio])
  then have "rq_inv (?rq1\<lparr>rq_pop_counters := ?cs\<rparr>)"
    by (rule rq_inv_update_counters)
      (use inv inc p in \<open>auto simp: rq_inv_def nth_list_update\<close>)
  moreover have "rq_lists (?rq1\<lparr>rq_pop_counters := ?cs\<rparr>) = (rq_lists rq)[p := tl (rq_lists rq ! p)]"
    using q'(3) by (simp add: rq_lists_def map_update)
  moreover have "rq_spent (?rq1\<lparr>rq_pop_counters := ?cs\<rparr>) = (rq_spent rq)[p := Suc (rq_spent rq ! p)]"
    using suc q by (simp add: rq_spent_def map_update)
  moreover have "rq_caps (?rq1\<lparr>rq_pop_counters := ?cs\<rparr>) = rq_caps rq"
    using q'(4) q(4) by (simp add: rq_caps_def map_update list_update_same_conv)
  ultimately show ?thesis using q'(1) by (intro that [of q']) (simp_all add: rq_served_def)
qed

lemma rq_pop_empty_queue:
  assumes "rq_inv rq" "p < 4" "rq_lists rq ! p = []"
  shows "gmk_ring_mpmc_pop (rq_queues rq ! p) = Some (None, rq_queues rq ! p)"
  using mpmc.pop_none [of "rq_queues rq ! p"] rq_inv_queue [OF assms(1,2)] assms(3) by simp

lemma rq_pass1_spec:
  assumes inv: "rq_inv rq" and "set ps \<subseteq> {..<4}"
  shows "case find (\<lambda>p. rq_spent rq ! p < wrr_weight ! p \<and> rq_lists rq ! p \<noteq> []) ps of
      None \<Rightarrow> rq_pass1 ps rq = Some (None, rq)
    | Some p \<Rightarrow> \<exists>rq'. rq_pass1 ps rq = Some (Some (hd (rq_lists rq ! p)), rq') \<and> rq_served rq p rq'"
  using assms(2)
proof (induction ps)
  case (Cons p ps)
  then have p: "p < 4" by simp
  note q = rq_inv_queue [OF inv p]
  have w: "p < length rq_weights" using p by (simp add: rq_weights_def)
  have lt: "rq_pop_counters rq ! p < rq_weights ! p \<longleftrightarrow> rq_spent rq ! p < wrr_weight ! p"
    using q rq_weights_eq [OF p] by (simp add: word_less_nat_alt)
  show ?case
  proof (cases "rq_spent rq ! p < wrr_weight ! p \<and> rq_lists rq ! p \<noteq> []")
    case True
    then obtain q' where
      q': "gmk_ring_mpmc_pop (rq_queues rq ! p) = Some (Some (hd (rq_lists rq ! p)), q')"
      "rq_served rq p (rq\<lparr>rq_queues := (rq_queues rq)[p := q'],
          rq_pop_counters := (rq_pop_counters rq)[p := rq_pop_counters rq ! p + 1]\<rparr>)"
      using rq_serve [OF inv p] lt by metis
    then show ?thesis using True lt q w by (simp add: exec_simps)
  next
    case False
    then have "rq_pass1 (p # ps) rq = rq_pass1 ps rq"
      using rq_pop_empty_queue [OF inv p] lt q w by (auto simp: exec_simps)
    then show ?thesis using Cons False by (auto simp del: rq_pass1.simps split: option.splits)
  qed
qed simp

lemma rq_pass2_spec:
  assumes inv: "rq_inv rq" and "set ps \<subseteq> {..<4}" and zero: "rq_pop_counters rq = replicate 4 0"
  shows "case find (\<lambda>p. rq_lists rq ! p \<noteq> []) ps of
      None \<Rightarrow> rq_pass2 ps rq = Some (None, rq)
    | Some p \<Rightarrow> \<exists>rq'. rq_pass2 ps rq = Some (Some (hd (rq_lists rq ! p)), rq') \<and> rq_served rq p rq'"
  using assms(2)
proof (induction ps)
  case (Cons p ps)
  then have p: "p < 4" by simp
  note q = rq_inv_queue [OF inv p]
  have lt: "rq_pop_counters rq ! p < rq_weights ! p"
    using zero p by (auto simp: rq_weights_def less_4_cases)
  show ?case
  proof (cases "rq_lists rq ! p \<noteq> []")
    case True
    then obtain q' where
      q': "gmk_ring_mpmc_pop (rq_queues rq ! p) = Some (Some (hd (rq_lists rq ! p)), q')"
      "rq_served rq p (rq\<lparr>rq_queues := (rq_queues rq)[p := q'],
          rq_pop_counters := (rq_pop_counters rq)[p := rq_pop_counters rq ! p + 1]\<rparr>)"
      using rq_serve [OF inv p] lt by metis
    then show ?thesis using True q by (simp add: exec_simps)
  next
    case False
    then have "rq_pass2 (p # ps) rq = rq_pass2 ps rq"
      using rq_pop_empty_queue [OF inv p] q by (auto simp: exec_simps)
    then show ?thesis using Cons False by (auto simp del: rq_pass2.simps split: option.splits)
  qed
qed simp


section \<open>The pop refines weighted round robin\<close>

lemma wrr_pick_cong:
  "(\<And>p. p < 4 \<Longrightarrow> ok p \<longleftrightarrow> ok' p) \<Longrightarrow> wrr_pick ok ls = wrr_pick ok' ls"
  by (simp add: wrr_pick_def)

lemma wrr_pick_SomeD:
  "wrr_pick ok ls = Some p \<Longrightarrow> p < 4 \<and> ok p \<and> ls ! p \<noteq> [] \<and> (\<forall>q < p. ok q \<longrightarrow> ls ! q = [])"
  by (auto simp: wrr_pick_def find_Some_iff simp del: upt_4)

lemma wrr_pick_NoneD: "wrr_pick ok ls = None \<Longrightarrow> p < 4 \<Longrightarrow> ok p \<Longrightarrow> ls ! p = []"
  by (auto simp: wrr_pick_def less_4_cases split: if_splits)

lemma rq_reset:
  assumes "rq_inv rq"
  defines "rq0 \<equiv> rq\<lparr>rq_pop_counters := replicate 4 0\<rparr>"
  shows "rq_inv rq0" "rq_lists rq0 = rq_lists rq" "rq_spent rq0 = replicate 4 0"
    "rq_caps rq0 = rq_caps rq"
  using rq_inv_update_counters [OF assms(1), of "replicate 4 0"]
  by (simp_all add: rq0_def rq_lists_def rq_spent_def rq_caps_def)

lemma rq_pop_refines_wrr:
  assumes inv: "rq_inv rq"
  obtains t rq' where "gmk_rq_pop rq = Some (t, rq')" "rq_inv rq'"
    "(t, rq_lists rq', rq_spent rq') = wrr_pop (rq_lists rq) (rq_spent rq)"
    "rq_caps rq' = rq_caps rq"
proof -
  let ?rq0 = "rq\<lparr>rq_pop_counters := replicate 4 0\<rparr>"
  note p1 = rq_pass1_spec [OF inv, of "[0..<4]"]
  note r0 = rq_reset [OF inv]
  note p2 = rq_pass2_spec [OF r0(1), of "[0..<4]"]
  show ?thesis
  proof (cases "wrr_pick (\<lambda>p. rq_spent rq ! p < wrr_weight ! p) (rq_lists rq)")
    case (Some p)
    then obtain rq' where "rq_pass1 [0..<4] rq = Some (Some (hd (rq_lists rq ! p)), rq')"
      "rq_served rq p rq'"
      using p1 by (auto simp: wrr_pick_def)
    then show ?thesis using Some
      by (intro that [of "Some (hd (rq_lists rq ! p))" rq'])
        (simp_all add: gmk_rq_pop_def rq_served_def wrr_pop_def del: upt_4)
  next
    case None
    then have n1: "rq_pass1 [0..<4] rq = Some (None, rq)"
      using p1 by (auto simp: wrr_pick_def)
    show ?thesis
    proof (cases "wrr_pick (\<lambda>p. True) (rq_lists rq)")
      case (Some p)
      then obtain rq' where "rq_pass2 [0..<4] ?rq0 = Some (Some (hd (rq_lists rq ! p)), rq')"
        "rq_served ?rq0 p rq'"
        using p2 r0 by (auto simp: wrr_pick_def)
      moreover have "p < 4" using wrr_pick_SomeD [OF Some] by simp
      ultimately show ?thesis using Some None n1 r0
        by (intro that [of "Some (hd (rq_lists rq ! p))" rq'])
          (simp_all add: gmk_rq_pop_def rq_served_def wrr_pop_def del: upt_4)
    next
      case no: None
      then have "rq_pass2 [0..<4] ?rq0 = Some (None, ?rq0)"
        using p2 r0 by (auto simp: wrr_pick_def)
      then show ?thesis using no None n1 r0
        by (intro that [of None ?rq0]) (simp_all add: gmk_rq_pop_def wrr_pop_def del: upt_4)
    qed
  qed
qed


section \<open>Push\<close>

lemma rq_push_queue_index:
  "unat (if (ucast (GMK_PRIORITY (tk_flags t)) :: u32) \<ge> 4 then GMK_PRIO_LOW
         else (ucast (GMK_PRIORITY (tk_flags t)) :: u32)) = task_prio t"
  by (simp add: not_le word_le_nat_alt task_prio_def unat_ucast_up)

lemma rq_push_cases:
  assumes inv: "rq_inv rq"
  obtains (room) rq' where "gmk_rq_push rq t = Some (0, rq')" "rq_inv rq'"
      "rq_lists rq' = (rq_lists rq)[task_prio t := rq_lists rq ! task_prio t @ [t]]"
      "rq_pop_counters rq' = rq_pop_counters rq" "rq_caps rq' = rq_caps rq"
      "length (rq_lists rq ! task_prio t) < rq_caps rq ! task_prio t"
    | (full) "gmk_rq_push rq t = Some (-1, rq)"
      "length (rq_lists rq ! task_prio t) = rq_caps rq ! task_prio t"
proof -
  let ?p = "task_prio t" and ?q = "rq_queues rq ! task_prio t"
  have p: "?p < 4" by simp
  note q = rq_inv_queue [OF inv p]
  have caps: "rq_caps rq ! ?p = mpmc_capacity ?q" using q(4) by (simp add: rq_caps_def)
  have push: "gmk_rq_push rq t = do { (c, q') \<leftarrow> gmk_ring_mpmc_push ?q t;
      Some (c, rq\<lparr>rq_queues := (rq_queues rq)[?p := q']\<rparr>) }"
    unfolding gmk_rq_push_def Let_def rq_push_queue_index using q(4) by (simp add: exec_simps)
  show ?thesis
  proof (rule mpmc.push_cases [OF q(1), of t])
    fix q' assume q': "gmk_ring_mpmc_push ?q t = Some (0, q')" "mpmc_inv q'"
      "mpmc_contents q' = mpmc_contents ?q @ [t]" "mpmc_capacity q' = mpmc_capacity ?q"
      "length (mpmc_contents ?q) < mpmc_capacity ?q"
    let ?rq' = "rq\<lparr>rq_queues := (rq_queues rq)[?p := q']\<rparr>"
    have "rq_inv ?rq'"
      using inv q' p by (intro rq_inv_update_queue) (auto simp: rq_inv_def)
    then show ?thesis using q' q caps push
      by (intro that(1) [of ?rq'])
        (simp_all add: rq_lists_def rq_caps_def map_update list_update_same_conv)
  next
    assume "gmk_ring_mpmc_push ?q t = Some (- 1, ?q)" "length (mpmc_contents ?q) = mpmc_capacity ?q"
    then show ?thesis using push q caps by (intro that(2)) simp_all
  qed
qed

section \<open>Bounded waiting\<close>

text \<open>\<open>wrr_wait p cs\<close> bounds the pops that serve other priorities before \<open>p\<close> is served.\<close>

definition wrr_other :: "nat \<Rightarrow> nat list \<Rightarrow> nat" where
  "wrr_other p cs = (\<Sum>q \<in> {..<4} - {p}. wrr_weight ! q - cs ! q)"

definition wrr_wait :: "nat \<Rightarrow> nat list \<Rightarrow> nat" where
  "wrr_wait p cs =
     (if cs ! p < wrr_weight ! p then wrr_other p cs else wrr_other p cs + wrr_other p (replicate 4 0))"

lemma lessThan_4: "{..<4::nat} = {0, 1, 2, 3}"
  by auto

lemma wrr_other_le: "p < 4 \<Longrightarrow> wrr_other p cs \<le> 14"
  by (auto simp: wrr_other_def lessThan_4 wrr_weight_def less_4_cases insert_Diff_if)

lemma wrr_wait_le: "p < 4 \<Longrightarrow> wrr_wait p cs \<le> 28"
  using wrr_other_le [of p cs] wrr_other_le [of p "replicate 4 0"] by (simp add: wrr_wait_def)

lemma wrr_other_serve:
  assumes "q < 4" "q \<noteq> p" "cs ! q < wrr_weight ! q" "length cs = 4"
  shows "wrr_other p (cs[q := Suc (cs ! q)]) < wrr_other p cs"
  unfolding wrr_other_def
  by (rule sum_strict_mono_ex1) (use assms in \<open>auto simp: nth_list_update intro: bexI [of _ q]\<close>)

text \<open>While queue \<open>p\<close> holds a task, each pop serves it or brings the wait down.\<close>

lemma wrr_pop_progress:
  assumes p: "p < 4" "ls ! p \<noteq> []" and len: "length ls = 4" "length cs = 4"
    and pop: "wrr_pop ls cs = (t, ls', cs')"
  obtains (served) "t = Some (hd (ls ! p))" "ls' = ls[p := tl (ls ! p)]"
    | (other) q where "q < 4" "q \<noteq> p" "ls ! q \<noteq> []" "t = Some (hd (ls ! q))" "ls' ! p = ls ! p"
        "wrr_wait p cs' < wrr_wait p cs"
proof (cases "wrr_pick (\<lambda>p. cs ! p < wrr_weight ! p) ls")
  case (Some q)
  note D = wrr_pick_SomeD [OF Some]
  show ?thesis
  proof (cases "q = p")
    case False
    then have "wrr_wait p (cs[q := Suc (cs ! q)]) < wrr_wait p cs"
      using wrr_other_serve [of q p cs] D len by (simp add: wrr_wait_def)
    then show ?thesis using pop Some False D by (intro that(2) [of q]) (auto simp: wrr_pop_def)
  qed (use pop Some in \<open>auto simp: wrr_pop_def intro: that(1)\<close>)
next
  case None
  then have full: "\<not> cs ! p < wrr_weight ! p" using wrr_pick_NoneD [OF None p(1)] p by auto
  obtain q where q: "wrr_pick (\<lambda>p. True) ls = Some q"
    using wrr_pick_NoneD [of "\<lambda>p. True" ls p] p by fastforce
  note D = wrr_pick_SomeD [OF q]
  show ?thesis
  proof (cases "q = p")
    case False
    have "0 < wrr_weight ! q" using D by (auto simp: wrr_weight_def less_4_cases)
    then have "wrr_other p ((replicate 4 0)[q := 1]) < wrr_other p (replicate 4 0)"
      using wrr_other_serve [of q p "replicate 4 0"] D False by simp
    then have "wrr_wait p ((replicate 4 0)[q := 1]) < wrr_wait p cs"
      using full False p(1) by (auto simp: wrr_wait_def wrr_weight_def less_4_cases)
    then show ?thesis using pop None q False D by (intro that(2) [of q]) (auto simp: wrr_pop_def)
  qed (use pop None q in \<open>auto simp: wrr_pop_def intro: that(1)\<close>)
qed

text \<open>A schedule of pushes and pops, and the tasks that its pops hand out.\<close>

datatype rq_op = RqPush gmk_task | RqPop

fun rq_run :: "rq_op list \<Rightarrow> gmk_rq \<Rightarrow> (gmk_task list \<times> gmk_rq) exec" where
  "rq_run [] rq = Some ([], rq)"
| "rq_run (RqPush t # os) rq = do { (c, rq') \<leftarrow> gmk_rq_push rq t; rq_run os rq' }"
| "rq_run (RqPop # os) rq =
     do { (t, rq') \<leftarrow> gmk_rq_pop rq;
          (ts, rq'') \<leftarrow> rq_run os rq';
          Some (case t of Some x \<Rightarrow> x # ts | None \<Rightarrow> ts, rq'') }"

definition rq_pops :: "rq_op list \<Rightarrow> nat" where
  "rq_pops os = length (filter ((=) RqPop) os)"

lemma rq_run_returns: "rq_inv rq \<Longrightarrow> \<exists>ts rq'. rq_run os rq = Some (ts, rq') \<and> rq_inv rq'"
proof (induction os arbitrary: rq)
  case (Cons a os)
  show ?case
  proof (cases a)
    case (RqPush t)
    obtain c rq' where "gmk_rq_push rq t = Some (c, rq')" "rq_inv rq'"
      using rq_push_cases [OF Cons.prems, of t] Cons.prems by metis
    then show ?thesis using RqPush Cons.IH [of rq'] by auto
  next
    case RqPop
    obtain t rq' where "gmk_rq_pop rq = Some (t, rq')" "rq_inv rq'"
      using rq_pop_refines_wrr [OF Cons.prems] by metis
    then show ?thesis using RqPop Cons.IH [of rq'] by auto
  qed
qed simp

text \<open>The first \<open>k + 1\<close> tasks that wait at priority \<open>p\<close> are handed out, in order, within
  \<open>29 * (k + 1)\<close> pops, whatever is pushed in the meantime.\<close>

lemma rq_run_prefix:
  assumes "rq_inv rq" "p < 4" "k < length (rq_lists rq ! p)"
    "wrr_wait p (rq_spent rq) + 29 * k < rq_pops os" "rq_run os rq = Some (ts, rq')"
  shows "take (Suc k) (filter (\<lambda>t. task_prio t = p) ts) = take (Suc k) (rq_lists rq ! p)"
  using assms
proof (induction os arbitrary: rq k ts)
  case (Cons a os)
  have len: "length (rq_lists rq) = 4" "length (rq_spent rq) = 4"
    using Cons.prems(1) by (simp_all add: rq_inv_def rq_lists_def rq_spent_def)
  show ?case
  proof (cases a)
    case (RqPush t)
    obtain c rq1 where rq1: "gmk_rq_push rq t = Some (c, rq1)" "rq_inv rq1"
        "k < length (rq_lists rq1 ! p)" "rq_spent rq1 = rq_spent rq"
        "take (Suc k) (rq_lists rq1 ! p) = take (Suc k) (rq_lists rq ! p)"
    proof (rule rq_push_cases [OF Cons.prems(1), of t])
      fix rq1 assume "gmk_rq_push rq t = Some (0, rq1)" "rq_inv rq1"
        "rq_lists rq1 = (rq_lists rq)[task_prio t := rq_lists rq ! task_prio t @ [t]]"
        "rq_pop_counters rq1 = rq_pop_counters rq"
      then show thesis using Cons.prems(3) len
        by (intro that [of 0 rq1]) (auto simp: rq_spent_def nth_list_update)
    qed (use that Cons.prems in blast)
    then show ?thesis
      using RqPush Cons.IH [of rq1 k ts] Cons.prems by (auto simp: rq_pops_def)
  next
    case RqPop
    obtain t rq1 where rq1: "gmk_rq_pop rq = Some (t, rq1)" "rq_inv rq1"
        "wrr_pop (rq_lists rq) (rq_spent rq) = (t, rq_lists rq1, rq_spent rq1)"
      using rq_pop_refines_wrr [OF Cons.prems(1)] by metis
    obtain ts1 where ts1: "rq_run os rq1 = Some (ts1, rq')"
        "ts = (case t of Some x \<Rightarrow> x # ts1 | None \<Rightarrow> ts1)"
      using Cons.prems(5) RqPop rq1(1) by (auto simp: bind_eq_Some_conv)
    have ne: "rq_lists rq ! p \<noteq> []" using Cons.prems(3) by auto
    have prio: "task_prio (hd (rq_lists rq ! q)) = q" if "q < 4" "rq_lists rq ! q \<noteq> []" for q
      using Cons.prems(1) that rq_inv_queue(2) [OF Cons.prems(1) that(1)] by (auto simp: rq_inv_def)
    show ?thesis
    proof (rule wrr_pop_progress [OF Cons.prems(2) ne len rq1(3)])
      assume *: "t = Some (hd (rq_lists rq ! p))"
        "rq_lists rq1 = (rq_lists rq)[p := tl (rq_lists rq ! p)]"
      have tail: "rq_lists rq1 ! p = tl (rq_lists rq ! p)" using * len Cons.prems(2) by simp
      have cons: "rq_lists rq ! p = hd (rq_lists rq ! p) # tl (rq_lists rq ! p)" using ne by simp
      have "take k (filter (\<lambda>t. task_prio t = p) ts1) = take k (tl (rq_lists rq ! p))"
      proof (cases k)
        case (Suc j)
        then show ?thesis
          using Cons.IH [of rq1 j ts1] Cons.prems(2,3,4) rq1(2) ts1(1) RqPop tail
            wrr_wait_le [OF Cons.prems(2), of "rq_spent rq1"]
          by (simp add: rq_pops_def)
      qed simp
      then show ?thesis using * ts1 prio [OF Cons.prems(2) ne]
        by (subst cons) simp
    next
      fix q assume "q < 4" "q \<noteq> p" "rq_lists rq ! q \<noteq> []" "t = Some (hd (rq_lists rq ! q))"
        "rq_lists rq1 ! p = rq_lists rq ! p" "wrr_wait p (rq_spent rq1) < wrr_wait p (rq_spent rq)"
      then show ?thesis
        using Cons.IH [of rq1 k ts1] Cons.prems rq1 ts1 prio [of q] RqPop by (simp add: rq_pops_def)
    qed
  qed
qed (simp add: rq_pops_def)


section \<open>Construction and destruction\<close>

definition rq_ptrs :: "gmk_rq \<Rightarrow> addr list" where
  "rq_ptrs rq = map mp_ptr (rq_queues rq)"

lemma hal_owns_rq_destroy_queues:
  "hal_owns h0 (mset (map (\<lambda>j. rq_ptrs rq ! j) js) + P) h \<Longrightarrow> distinct js \<Longrightarrow>
   set js \<subseteq> {..<length (rq_queues rq)} \<Longrightarrow>
   \<exists>rq' h'. rq_destroy_queues js rq h = Some (rq', h') \<and> hal_owns h0 P h'
     \<and> rq_ptrs rq' = map (\<lambda>j. if j \<in> set js then 0 else rq_ptrs rq ! j) [0..<length (rq_queues rq)]"
proof (induction js arbitrary: rq h)
  case Nil
  then show ?case by (auto simp: rq_ptrs_def intro: nth_equalityI)
next
  case (Cons j js)
  then have j: "j < length (rq_queues rq)" by simp
  obtain q' h1 where d: "gmk_ring_mpmc_destroy (rq_queues rq ! j) h = (q', h1)" by fastforce
  let ?rq1 = "rq\<lparr>rq_queues := (rq_queues rq)[j := q']\<rparr>"
  have p1: "rq_ptrs ?rq1 = (rq_ptrs rq)[j := 0]" and o:
    "hal_owns h0 (mset (map (\<lambda>j. rq_ptrs rq ! j) js) + P) h1"
    using hal_owns_mpmc_destroy [OF _ d, of h0 "mset (map (\<lambda>j. rq_ptrs rq ! j) js) + P"] Cons.prems(1) j
    by (simp_all add: rq_ptrs_def map_update)
  have "mset (map (\<lambda>j. rq_ptrs ?rq1 ! j) js) = mset (map (\<lambda>j. rq_ptrs rq ! j) js)"
    using Cons.prems(2) unfolding p1 by (intro arg_cong [of _ _ mset] map_cong) (auto intro!: nth_list_update_neq)
  then obtain rq' h' where "rq_destroy_queues js ?rq1 h1 = Some (rq', h')" "hal_owns h0 P h'"
      "rq_ptrs rq' = map (\<lambda>j. if j \<in> set js then 0 else rq_ptrs ?rq1 ! j) [0..<length (rq_queues rq)]"
    using Cons.IH [of ?rq1 h1] Cons.prems o by auto
  then show ?case using j d unfolding p1
    by (auto simp: exec_simps rq_ptrs_def nth_list_update intro!: map_cong)
qed

lemma rq_destroy_frees:
  assumes "length (rq_queues rq) = 4" "hal_owns h0 (mset (rq_ptrs rq) + P) h"
  shows "\<exists>rq' h'. gmk_rq_destroy rq h = Some (rq', h') \<and> hal_owns h0 P h' \<and> rq_ptrs rq' = replicate 4 0"
proof -
  have e: "map (\<lambda>j. rq_ptrs rq ! j) [0..<4] = rq_ptrs rq"
    using assms(1) by (intro nth_equalityI) (simp_all add: rq_ptrs_def del: upt_4)
  have z: "map (\<lambda>j. if j \<in> set [0..<4] then 0 else rq_ptrs rq ! j) [0..<4] = replicate 4 (0::addr)"
    by (simp add: numeral_eq_Suc)
  have "distinct [0..<4::nat]" "set [0..<4] \<subseteq> {..<length (rq_queues rq)}" using assms(1) by auto
  from hal_owns_rq_destroy_queues [OF _ this, of h0 P h] assms(2) show ?thesis
    unfolding e assms(1) z gmk_rq_destroy_def by blast
qed

text \<open>The state of the initialisation loop before queue \<open>n\<close> is built.\<close>

definition rq_built :: "nat \<Rightarrow> u32 \<Rightarrow> gmk_rq \<Rightarrow> bool" where
  "rq_built n cap rq \<longleftrightarrow> n \<le> 4 \<and> length (rq_queues rq) = 4 \<and> rq_pop_counters rq = replicate 4 0
     \<and> (\<forall>i < n. mpmc_inv (rq_queues rq ! i) \<and> mpmc_contents (rq_queues rq ! i) = []
              \<and> mp_cap (rq_queues rq ! i) = cap)"

lemma rq_built_Suc:
  assumes "rq_built n cap rq" "n < 4" "mpmc_inv q" "mpmc_contents q = []" "mp_cap q = cap"
  shows "rq_built (Suc n) cap (rq\<lparr>rq_queues := (rq_queues rq)[n := q]\<rparr>)"
  using assms by (auto simp: rq_built_def nth_list_update less_Suc_eq)

lemma rq_built_done:
  assumes "rq_built 4 cap rq"
  shows "rq_inv rq" "rq_lists rq = replicate 4 []" "rq_caps rq = replicate 4 (unat cap)"
    "rq_spent rq = replicate 4 0"
proof -
  have len: "length (rq_queues rq) = 4" "rq_pop_counters rq = replicate 4 0"
    and q: "\<And>i. i < 4 \<Longrightarrow> mpmc_inv (rq_queues rq ! i) \<and> mpmc_contents (rq_queues rq ! i) = []
              \<and> mp_cap (rq_queues rq ! i) = cap"
    using assms by (auto simp: rq_built_def)
  show "rq_inv rq" using len q by (auto simp: rq_inv_def in_set_conv_nth)
  show "rq_lists rq = replicate 4 []" "rq_caps rq = replicate 4 (unat cap)"
    using len q by (auto simp: rq_lists_def rq_caps_def mpmc_capacity_def intro!: nth_equalityI)
  show "rq_spent rq = replicate 4 0" using len by (simp add: rq_spent_def)
qed

lemma rq_init_queues_cases:
  assumes "rq_built n cap rq" "2 \<le> cap"
    "hal_owns h0 (mset (map (\<lambda>j. rq_ptrs rq ! j) [0..<n]) + P) h"
  shows "(\<exists>rq' h'. rq_init_queues [n..<4] cap rq h = Some (0, rq', h') \<and> rq_built 4 cap rq'
            \<and> hal_owns h0 (mset (rq_ptrs rq') + P) h')
       \<or> (\<exists>rq' h'. rq_init_queues [n..<4] cap rq h = Some (-1, rq', h') \<and> hal_owns h0 P h')"
  using assms
proof (induction "4 - n" arbitrary: n rq h)
  case 0
  then have n: "n = 4" by (simp add: rq_built_def)
  have "map (\<lambda>j. rq_ptrs rq ! j) [0..<n] = rq_ptrs rq"
    using 0 n by (intro nth_equalityI) (simp_all add: rq_ptrs_def rq_built_def del: upt_4)
  then show ?case using 0 n by simp
next
  case (Suc k)
  then have n: "n < 4" by simp
  have len: "length (rq_queues rq) = 4" "rq_pop_counters rq = replicate 4 0"
    using Suc.prems(1) by (simp_all add: rq_built_def)
  obtain c q h1 where i: "gmk_ring_mpmc_init (rq_queues rq ! n) zero_task cap 48 h = (c, q, h1)"
    using prod_cases3 by blast
  let ?rq1 = "rq\<lparr>rq_queues := (rq_queues rq)[n := q]\<rparr>"
  have ptrs: "rq_ptrs ?rq1 = (rq_ptrs rq)[n := mp_ptr q]" by (simp add: rq_ptrs_def map_update)
  have old: "map (\<lambda>j. rq_ptrs ?rq1 ! j) [0..<n] = map (\<lambda>j. rq_ptrs rq ! j) [0..<n]"
    unfolding ptrs by simp
  have upt: "[n..<4] = n # [Suc n..<4]" using n by (simp add: upt_conv_Cons del: upt_4)
  have cs: "(replicate 4 0)[n := 0] = replicate 4 (0::u32)" using n by (simp add: list_update_same_conv)
  have same: "?rq1\<lparr>rq_pop_counters := replicate 4 0\<rparr> = ?rq1" using len(2) by (cases rq) simp
  show ?case
  proof (rule mpmc_init_cases [OF i Suc.prems(3,2)])
    assume ok: "c = 0" "mpmc_inv q" "mpmc_contents q = []" "mp_cap q = cap" "mp_ptr q \<noteq> 0"
      "hal_owns h0 (add_mset (mp_ptr q) (mset (map ((!) (rq_ptrs rq)) [0..<n]) + P)) h1"
    have b: "rq_built (Suc n) cap ?rq1" by (rule rq_built_Suc [OF Suc.prems(1) n ok(2-4)])
    have "rq_ptrs ?rq1 ! n = mp_ptr q" using n len by (simp add: ptrs rq_ptrs_def)
    then have e: "map (\<lambda>j. rq_ptrs ?rq1 ! j) [0..<Suc n] = map (\<lambda>j. rq_ptrs rq ! j) [0..<n] @ [mp_ptr q]"
      using old by simp
    have "hal_owns h0 (mset (map (\<lambda>j. rq_ptrs ?rq1 ! j) [0..<Suc n]) + P) h1"
      using ok(6) unfolding e by simp
    moreover have "rq_init_queues [n..<4] cap rq h = rq_init_queues [Suc n..<4] cap ?rq1 h1"
      using n len i ok(1) cs unfolding upt by (simp add: exec_simps same del: upt_4)
    moreover have "k = 4 - Suc n" using Suc.hyps(2) by simp
    ultimately show ?thesis using Suc.hyps(1) [of "Suc n" ?rq1 h1] b Suc.prems(2) by simp
  next
    assume f: "c = -1" "hal_owns h0 (mset (map ((!) (rq_ptrs rq)) [0..<n]) + P) h1"
    have "distinct [0..<n]" "set [0..<n] \<subseteq> {..<length (rq_queues ?rq1)}" using n len by auto
    from hal_owns_rq_destroy_queues [OF _ this, of h0 P h1] f(2)
    have "\<exists>rq' h'. rq_destroy_queues [0..<n] ?rq1 h1 = Some (rq', h') \<and> hal_owns h0 P h'"
      unfolding old by blast
    then show ?thesis using n len i f(1) unfolding upt by (auto simp: exec_simps simp del: upt_4)
  qed
qed

lemma rq_init_cases:
  assumes "2 \<le> cap" "hal_owns h0 P h"
  obtains (ok) rq h' where "gmk_rq_init cap h = Some (0, rq, h')" "rq_inv rq"
      "rq_lists rq = replicate 4 []" "rq_caps rq = replicate 4 (unat cap)"
      "rq_spent rq = replicate 4 0" "hal_owns h0 (mset (rq_ptrs rq) + P) h'"
    | (fail) rq h' where "gmk_rq_init cap h = Some (-1, rq, h')" "hal_owns h0 P h'"
proof -
  have "rq_built 0 cap zero_rq" by (simp add: rq_built_def zero_rq_def)
  from rq_init_queues_cases [OF this assms(1), of h0 P h] assms(2) rq_built_done that show ?thesis
    unfolding gmk_rq_init_def by (auto simp del: upt_4)
qed

end
