(* ===== verification/Sched_Evq.thy ===== *)
theory Sched_Evq
  imports Ggmk_Types Hal_Mem
begin

text \<open>
  The event queue of \<open>src/sched_evq.c\<close>: a binary min-heap of tasks ordered by the key
  \<open>(tick << 32) | (priority << 16) | seq\<close>.  The interface that the workers use is the locale
  \<open>event_queue\<close>; the heap implements it.
\<close>

section \<open>State and operations\<close>

record gmk_evq_entry =
  ee_key :: u64
  ee_task :: gmk_task

record gmk_evq =
  evq_ptr :: addr
  evq_heap :: "gmk_evq_entry list"
  evq_count :: u32
  evq_cap :: u32
  evq_next_seq :: u32

abbreviation (input) sizeof_gmk_evq_entry :: u64 where "sizeof_gmk_evq_entry \<equiv> 64"

definition zero_evq_entry :: gmk_evq_entry where
  "zero_evq_entry = \<lparr>ee_key = 0, ee_task = zero_task\<rparr>"

definition evq_key :: "gmk_task \<Rightarrow> u32 \<Rightarrow> u64" where
  "evq_key t seq =
     (let tick = (ucast (tk_meta0 t) :: u32);
          prio = (ucast (GMK_PRIORITY (tk_flags t)) :: u32)
      in push_bit 32 (ucast tick) OR push_bit 16 (ucast prio) OR ucast seq)"

text \<open>The loop of \<open>heap_sift_up\<close> ends because the parent index is smaller.\<close>

function heap_sift_up :: "gmk_evq_entry list \<Rightarrow> u32 \<Rightarrow> gmk_evq_entry list exec" where
  "heap_sift_up heap idx =
     (if idx > 0
      then let parent = (idx - 1) div 2
           in do { e \<leftarrow> arr_get heap (unat idx);
                   p \<leftarrow> arr_get heap (unat parent);
                   if ee_key e < ee_key p
                   then heap_sift_up (heap[unat idx := p, unat parent := e]) parent
                   else Some heap }
      else Some heap)"
  by pat_completeness auto

lemma unat_parent:
  assumes "0 < (idx :: u32)"
  shows "unat ((idx - 1) div 2) = (unat idx - 1) div 2"
proof -
  have "idx \<noteq> 0" using assms by auto
  then show ?thesis by (simp add: unat_div unat_minus_one)
qed

lemma unat_parent_less: "0 < (idx :: u32) \<Longrightarrow> unat ((idx - 1) div 2) < unat idx"
  by (simp only: unat_parent) (auto simp: word_less_nat_alt)

termination heap_sift_up
  by (relation "measure (\<lambda>(_, idx). unat idx)") (auto simp only: in_measure prod.case unat_parent_less)

text \<open>\<open>heap_sift_down\<close> computes child indices with 32-bit wrap-around, so its loop is a partial
  function.\<close>

partial_function (option) heap_sift_down ::
  "gmk_evq_entry list \<Rightarrow> u32 \<Rightarrow> u32 \<Rightarrow> gmk_evq_entry list exec" where
  "heap_sift_down heap cnt idx =
     (let left = 2 * idx + 1; right = 2 * idx + 2
      in do { e \<leftarrow> arr_get heap (unat idx);
              s1 \<leftarrow> (if left < cnt
                     then do { l \<leftarrow> arr_get heap (unat left);
                               Some (if ee_key l < ee_key e then left else idx) }
                     else Some idx);
              e1 \<leftarrow> arr_get heap (unat s1);
              smallest \<leftarrow> (if right < cnt
                     then do { r \<leftarrow> arr_get heap (unat right);
                               Some (if ee_key r < ee_key e1 then right else s1) }
                     else Some s1);
              if smallest \<noteq> idx
              then do { m \<leftarrow> arr_get heap (unat smallest);
                        heap_sift_down (heap[unat idx := m, unat smallest := e]) cnt smallest }
              else Some heap })"

declare heap_sift_down.simps [code]

definition gmk_evq_init :: "gmk_evq \<Rightarrow> u32 \<Rightarrow> hal \<Rightarrow> rc \<times> gmk_evq \<times> hal" where
  "gmk_evq_init evq cap h =
     (if cap = 0 then (-1, evq, h)
      else let (p, h') = gmk_hal_calloc (ucast cap) sizeof_gmk_evq_entry h;
               evq1 = evq\<lparr>evq_ptr := p\<rparr>
           in if p = 0 then (-1, evq1, h')
              else (0, evq1\<lparr>evq_heap := replicate (unat cap) zero_evq_entry, evq_count := 0,
                            evq_cap := cap, evq_next_seq := 0\<rparr>, h'))"

definition gmk_evq_destroy :: "gmk_evq \<Rightarrow> hal \<Rightarrow> gmk_evq \<times> hal" where
  "gmk_evq_destroy evq h =
     (evq\<lparr>evq_ptr := 0, evq_heap := []\<rparr>, gmk_hal_free (evq_ptr evq) h)"

definition gmk_evq_push :: "gmk_evq \<Rightarrow> gmk_task \<Rightarrow> (rc \<times> gmk_evq) exec" where
  "gmk_evq_push evq t =
     (if evq_count evq \<ge> evq_cap evq then Some (-1, evq)
      else let seq = evq_next_seq evq;
               idx = evq_count evq;
               evq1 = evq\<lparr>evq_next_seq := seq + 1, evq_count := idx + 1\<rparr>
           in do { hp \<leftarrow> arr_set (evq_heap evq1) (unat idx)
                            \<lparr>ee_key = evq_key t seq, ee_task = t\<lparr>tk_seq := seq\<rparr>\<rparr>;
                   hp' \<leftarrow> heap_sift_up hp idx;
                   Some (0, evq1\<lparr>evq_heap := hp'\<rparr>) })"

definition evq_entry_tick :: "gmk_evq_entry \<Rightarrow> u32" where
  "evq_entry_tick e = ucast (drop_bit 32 (ee_key e))"

definition gmk_evq_pop_due :: "gmk_evq \<Rightarrow> u32 \<Rightarrow> (gmk_task option \<times> gmk_evq) exec" where
  "gmk_evq_pop_due evq current_tick =
     (if evq_count evq = 0 then Some (None, evq)
      else do { root \<leftarrow> arr_get (evq_heap evq) 0;
                if evq_entry_tick root > current_tick then Some (None, evq)
                else let evq1 = evq\<lparr>evq_count := evq_count evq - 1\<rparr>
                     in if evq_count evq1 > 0
                        then do { lst \<leftarrow> arr_get (evq_heap evq1) (unat (evq_count evq1));
                                  hp \<leftarrow> heap_sift_down ((evq_heap evq1)[0 := lst]) (evq_count evq1) 0;
                                  Some (Some (ee_task root), evq1\<lparr>evq_heap := hp\<rparr>) }
                        else Some (Some (ee_task root), evq1) })"

definition gmk_evq_count :: "gmk_evq \<Rightarrow> u32" where
  "gmk_evq_count evq = evq_count evq"


declare heap_sift_up.simps [simp del]

section \<open>The heap order\<close>

definition parent :: "nat \<Rightarrow> nat" where
  "parent i = (i - 1) div 2"

abbreviation hk :: "gmk_evq_entry list \<Rightarrow> nat \<Rightarrow> u64" where
  "hk h i \<equiv> ee_key (h ! i)"

definition heap_ok :: "gmk_evq_entry list \<Rightarrow> nat \<Rightarrow> bool" where
  "heap_ok h n \<longleftrightarrow> (\<forall>i. 0 < i \<and> i < n \<longrightarrow> hk h (parent i) \<le> hk h i)"

text \<open>The heap order may fail between \<open>k\<close> and its parent, or between \<open>k\<close> and its children.\<close>

definition hole_up :: "gmk_evq_entry list \<Rightarrow> nat \<Rightarrow> nat \<Rightarrow> bool" where
  "hole_up h n k \<longleftrightarrow> (\<forall>i. 0 < i \<and> i < n \<and> i \<noteq> k \<longrightarrow> hk h (parent i) \<le> hk h i)
     \<and> (\<forall>i. 0 < i \<and> i < n \<and> 0 < k \<and> parent i = k \<longrightarrow> hk h (parent k) \<le> hk h i)"

definition hole_down :: "gmk_evq_entry list \<Rightarrow> nat \<Rightarrow> nat \<Rightarrow> bool" where
  "hole_down h n k \<longleftrightarrow> (\<forall>i. 0 < i \<and> i < n \<and> parent i \<noteq> k \<longrightarrow> hk h (parent i) \<le> hk h i)
     \<and> (\<forall>i. 0 < i \<and> i < n \<and> 0 < k \<and> parent i = k \<longrightarrow> hk h (parent k) \<le> hk h i)"

lemma parent_less: "0 < i \<Longrightarrow> parent i < i"
  by (auto simp: parent_def)

lemma heap_root_min: "heap_ok h n \<Longrightarrow> i < n \<Longrightarrow> hk h 0 \<le> hk h i"
proof (induction i rule: less_induct)
  case (less i)
  show ?case
  proof (cases "i = 0")
    case False
    then have "hk h 0 \<le> hk h (parent i)" using less parent_less [of i] by simp
    also have "\<dots> \<le> hk h i" using less.prems False by (simp add: heap_ok_def)
    finally show ?thesis .
  qed simp
qed

lemma hole_up_step:
  assumes h: "hole_up h n k" and k: "0 < k" "k < n" "n \<le> length h" and lt: "hk h k < hk h (parent k)"
  shows "hole_up (swap_at h k (parent k)) n (parent k)"
proof -
  have pk: "parent k < k" using k(1) by (rule parent_less)
  have new: "hk (swap_at h k (parent k)) j =
      (if j = parent k then hk h k else if j = k then hk h (parent k) else hk h j)" if "j < n" for j
    using k pk by (simp add: nth_swap_at)
  have up: "hk h (parent i) \<le> hk h i" if "0 < i" "i < n" "i \<noteq> k" for i
    using h that by (simp add: hole_up_def)
  have down: "hk h (parent k) \<le> hk h i" if "0 < i" "i < n" "parent i = k" for i
    using h that k by (simp add: hole_up_def)
  have "hk (swap_at h k (parent k)) (parent i) \<le> hk (swap_at h k (parent k)) i"
    if "0 < i" "i < n" "i \<noteq> parent k" for i
  proof -
    have "parent i < n" "parent i \<noteq> i" using parent_less [of i] that by simp_all
    then show ?thesis using that lt up [of i] down [of i] pk by (auto simp: new)
  qed
  moreover have "hk (swap_at h k (parent k)) (parent (parent k)) \<le> hk (swap_at h k (parent k)) i"
    if "0 < i" "i < n" "0 < parent k" "parent i = parent k" for i
  proof -
    have pp: "hk h (parent (parent k)) \<le> hk h (parent k)" using up [of "parent k"] that pk k by simp
    have "parent (parent k) < parent k" using that(3) by (rule parent_less)
    then show ?thesis using pp that up [of i] pk k by (cases "i = k") (auto simp: new)
  qed
  ultimately show ?thesis unfolding hole_up_def by blast
qed

definition permutes_prefix :: "nat \<Rightarrow> 'a list \<Rightarrow> 'a list \<Rightarrow> bool" where
  "permutes_prefix n xs ys \<longleftrightarrow>
     length ys = length xs \<and> mset (take n ys) = mset (take n xs) \<and> drop n ys = drop n xs"

lemma permutes_prefix_refl [simp]: "permutes_prefix n xs xs"
  by (simp add: permutes_prefix_def)

lemma permutes_prefix_trans:
  "permutes_prefix n xs ys \<Longrightarrow> permutes_prefix n ys zs \<Longrightarrow> permutes_prefix n xs zs"
  by (simp add: permutes_prefix_def)

lemma permutes_prefix_swap:
  "i < n \<Longrightarrow> j < n \<Longrightarrow> n \<le> length xs \<Longrightarrow> permutes_prefix n xs (swap_at xs i j)"
  by (simp add: permutes_prefix_def take_swap_at) (simp add: swap_at_def)

lemma heap_sift_up_ok:
  "hole_up h n (unat idx) \<Longrightarrow> unat idx < n \<Longrightarrow> n \<le> length h \<Longrightarrow>
   \<exists>h'. heap_sift_up h idx = Some h' \<and> heap_ok h' n \<and> permutes_prefix n h h'"
proof (induction h idx rule: heap_sift_up.induct)
  case (1 h idx)
  show ?case
  proof (cases "0 < idx")
    case False
    then have "idx = 0" by (simp add: word_gt_0)
    then show ?thesis using 1 by (simp add: heap_sift_up.simps hole_up_def heap_ok_def)
  next
    case True
    let ?k = "unat idx" and ?p = "(idx - 1) div 2"
    have k: "0 < ?k" and p: "unat ?p = parent ?k" and pk: "parent ?k < ?k"
      using True unat_parent [OF True] parent_less [of ?k] by (auto simp: word_less_nat_alt parent_def)
    have len: "?k < length h" "parent ?k < length h" "parent ?k < n" using 1 pk by linarith+
    have step: "heap_sift_up h idx =
        (if hk h ?k < hk h (parent ?k) then heap_sift_up (swap_at h ?k (parent ?k)) ?p else Some h)"
      using True len p by (subst heap_sift_up.simps) (simp add: Let_def exec_simps swap_at_def)
    show ?thesis
    proof (cases "hk h ?k < hk h (parent ?k)")
      case lt: True
      have eq: "h[?k := h ! parent ?k, parent ?k := h ! ?k] = swap_at h ?k (parent ?k)"
        by (simp add: swap_at_def)
      have "\<exists>h'. heap_sift_up (swap_at h ?k (parent ?k)) ?p = Some h' \<and> heap_ok h' n
          \<and> permutes_prefix n (swap_at h ?k (parent ?k)) h'"
        using 1(1) [OF True refl _ _ _, of "h ! ?k" "h ! parent ?k"] hole_up_step [OF 1(2) k 1(3,4) lt]
          lt p len 1(4) unfolding p eq by (simp add: arr_get_Some)
      then show ?thesis
        using step lt permutes_prefix_swap [OF 1(3) len(3) 1(4)] by (auto intro: permutes_prefix_trans)
    next
      case False
      then have "heap_ok h n" using 1(2) k by (auto simp: hole_up_def heap_ok_def not_less)
      then show ?thesis using step False by simp
    qed
  qed
qed

lemma parent_children: "0 < i \<Longrightarrow> parent i = k \<longleftrightarrow> i = 2 * k + 1 \<or> i = 2 * k + 2"
  by (auto simp: parent_def)

lemma hole_down_step:
  assumes h: "hole_down h n k" and m: "0 < m" "m < n" "parent m = k" "n \<le> length h"
    and lt: "hk h m < hk h k"
    and min: "\<And>i. 0 < i \<Longrightarrow> i < n \<Longrightarrow> parent i = k \<Longrightarrow> hk h m \<le> hk h i"
  shows "hole_down (swap_at h k m) n m"
proof -
  have km: "k < m" using parent_less [OF m(1)] m(3) by simp
  have new: "hk (swap_at h k m) j = (if j = m then hk h k else if j = k then hk h m else hk h j)"
    if "j < n" for j
    using m km by (simp add: nth_swap_at)
  have rest: "hk h (parent i) \<le> hk h i" if "0 < i" "i < n" "parent i \<noteq> k" for i
    using h that by (simp add: hole_down_def)
  have "hk (swap_at h k m) (parent i) \<le> hk (swap_at h k m) i"
    if "0 < i" "i < n" "parent i \<noteq> m" for i
  proof -
    have pi: "parent i < n" "parent i \<noteq> i" using parent_less [of i] that by simp_all
    have "0 < k \<Longrightarrow> hk h (parent k) \<le> hk h m" using h m by (simp add: hole_down_def)
    then show ?thesis using that lt rest [of i] min [of i] km m(3) pi by (auto simp: new)
  qed
  moreover have "hk (swap_at h k m) (parent m) \<le> hk (swap_at h k m) i"
    if "0 < i" "i < n" "parent i = m" for i
  proof -
    have "m < i" using parent_less [OF that(1)] that(3) by simp
    then show ?thesis using that rest [of i] km m(2,3) by (auto simp: new)
  qed
  ultimately show ?thesis unfolding hole_down_def by blast
qed

text \<open>One round of the loop: the index it moves to, or the end.\<close>

definition min_child :: "gmk_evq_entry list \<Rightarrow> nat \<Rightarrow> nat \<Rightarrow> nat" where
  "min_child h n k =
     (let s = (if 2 * k + 1 < n \<and> hk h (2 * k + 1) < hk h k then 2 * k + 1 else k)
      in if 2 * k + 2 < n \<and> hk h (2 * k + 2) < hk h s then 2 * k + 2 else s)"

lemma heap_sift_down_step:
  assumes "unat idx < unat cnt" "unat cnt \<le> length h" "unat cnt < 2 ^ 31"
  obtains m where "unat m = min_child h (unat cnt) (unat idx)"
    "heap_sift_down h cnt idx =
       (if m \<noteq> idx then heap_sift_down (swap_at h (unat idx) (unat m)) cnt m else Some h)"
proof -
  let ?k = "unat idx" and ?n = "unat cnt"
  have d: "unat (2 * idx) = 2 * ?k" using assms by (subst unat_mult_nowrap) auto
  have l: "unat (2 * idx + 1) = 2 * ?k + 1" using assms d by (subst unat_add_nowrap) auto
  have r: "unat (2 * idx + 2) = 2 * ?k + 2" using assms d by (subst unat_add_nowrap) auto
  have lr: "2 * idx + 1 < cnt \<longleftrightarrow> 2 * ?k + 1 < ?n" "2 * idx + 2 < cnt \<longleftrightarrow> 2 * ?k + 2 < ?n"
    by (simp_all only: word_less_nat_alt l r)
  define s where "s = (if 2 * ?k + 1 < ?n \<and> hk h (2 * ?k + 1) < hk h ?k then 2 * idx + 1 else idx)"
  define m where "m = (if 2 * ?k + 2 < ?n \<and> hk h (2 * ?k + 2) < hk h (unat s) then 2 * idx + 2 else s)"
  have us: "unat s = (if 2 * ?k + 1 < ?n \<and> hk h (2 * ?k + 1) < hk h ?k then 2 * ?k + 1 else ?k)"
    by (simp only: s_def l if_distrib [of unat])
  have um: "unat m = min_child h ?n ?k"
    unfolding min_child_def Let_def us [symmetric] by (simp only: m_def r if_distrib [of unat])
  have len: "unat s < length h" "unat m < length h"
    using assms us um by (auto simp: min_child_def Let_def split: if_splits)
  have s1: "(if 2 * idx + 1 < cnt then do { l \<leftarrow> arr_get h (unat (2 * idx + 1));
        Some (if ee_key l < hk h ?k then 2 * idx + 1 else idx) } else Some idx) = Some s"
    unfolding lr l using assms by (simp add: exec_simps s_def)
  have m1: "(if 2 * idx + 2 < cnt then do { r \<leftarrow> arr_get h (unat (2 * idx + 2));
        Some (if ee_key r < hk h (unat s) then 2 * idx + 2 else s) } else Some s) = Some m"
    unfolding lr r using assms by (simp add: exec_simps m_def)
  have "heap_sift_down h cnt idx =
      (if m \<noteq> idx then heap_sift_down (swap_at h ?k (unat m)) cnt m else Some h)"
    using assms len
    by (subst heap_sift_down.simps) (simp only: Let_def arr_get_Some s1 m1 bind.simps swap_at_def
        less_le_trans [OF assms(1,2)] if_True)
  then show ?thesis using um by (intro that [of m])
qed

lemma min_child_cases:
  obtains (stop) "min_child h n k = k" "\<And>i. 0 < i \<Longrightarrow> i < n \<Longrightarrow> parent i = k \<Longrightarrow> hk h k \<le> hk h i"
    | (move) "0 < min_child h n k" "k < min_child h n k" "min_child h n k < n"
      "parent (min_child h n k) = k" "hk h (min_child h n k) < hk h k"
      "\<And>i. 0 < i \<Longrightarrow> i < n \<Longrightarrow> parent i = k \<Longrightarrow> hk h (min_child h n k) \<le> hk h i"
proof (cases "min_child h n k = k")
  case True
  then show ?thesis
    by (intro that(1)) (auto simp: min_child_def Let_def parent_children not_less split: if_splits)
next
  case False
  then have "min_child h n k = 2 * k + 1 \<or> min_child h n k = 2 * k + 2"
    by (auto simp: min_child_def Let_def split: if_splits)
  then have p: "0 < min_child h n k" "k < min_child h n k" "parent (min_child h n k) = k"
    by (auto simp: parent_def)
  show ?thesis
    by (rule that(2)) (use p False in \<open>auto simp: min_child_def Let_def parent_children not_less
      split: if_splits\<close>)
qed

lemma heap_sift_down_ok:
  "hole_down h (unat cnt) (unat idx) \<Longrightarrow> unat idx < unat cnt \<Longrightarrow> unat cnt \<le> length h \<Longrightarrow>
   unat cnt < 2 ^ 31 \<Longrightarrow>
   \<exists>h'. heap_sift_down h cnt idx = Some h' \<and> heap_ok h' (unat cnt) \<and> permutes_prefix (unat cnt) h h'"
proof (induction "unat cnt - unat idx" arbitrary: h idx rule: less_induct)
  case less
  obtain m where m: "unat m = min_child h (unat cnt) (unat idx)" and
    step: "heap_sift_down h cnt idx =
       (if m \<noteq> idx then heap_sift_down (swap_at h (unat idx) (unat m)) cnt m else Some h)"
    using heap_sift_down_step [OF less.prems(2-4)] by blast
  show ?case
  proof (rule min_child_cases [of h "unat cnt" "unat idx"])
    assume *: "min_child h (unat cnt) (unat idx) = unat idx"
      "\<And>i. 0 < i \<Longrightarrow> i < unat cnt \<Longrightarrow> parent i = unat idx \<Longrightarrow> hk h (unat idx) \<le> hk h i"
    then have "m = idx" using m by (simp add: word_unat_eq_iff)
    moreover have "heap_ok h (unat cnt)"
      using less.prems(1) *(2) by (auto simp: heap_ok_def hole_down_def)
    ultimately show ?thesis using step by simp
  next
    assume "0 < min_child h (unat cnt) (unat idx)" "unat idx < min_child h (unat cnt) (unat idx)"
      "min_child h (unat cnt) (unat idx) < unat cnt"
      "parent (min_child h (unat cnt) (unat idx)) = unat idx"
      "hk h (min_child h (unat cnt) (unat idx)) < hk h (unat idx)"
      "\<And>i. 0 < i \<Longrightarrow> i < unat cnt \<Longrightarrow> parent i = unat idx \<Longrightarrow>
         hk h (min_child h (unat cnt) (unat idx)) \<le> hk h i"
    note mv = this [folded m]
    let ?h = "swap_at h (unat idx) (unat m)"
    have "hole_down ?h (unat cnt) (unat m)"
      by (rule hole_down_step [OF less.prems(1) mv(1,3,4) less.prems(3) mv(5,6)])
    then have "\<exists>h'. heap_sift_down ?h cnt m = Some h' \<and> heap_ok h' (unat cnt)
        \<and> permutes_prefix (unat cnt) ?h h'"
      using less.hyps [of m ?h] mv less.prems by simp
    moreover have "m \<noteq> idx" using mv(2) by auto
    ultimately show ?thesis
      using step permutes_prefix_swap [OF less.prems(2) mv(3) less.prems(3)]
      by (auto intro: permutes_prefix_trans)
  qed
qed


section \<open>The interface\<close>

text \<open>A timed queue: a pop at tick \<open>t\<close> hands out a due element with the least key, and nothing
  when no element is due.  \<open>drain n t\<close> is the loop that a worker runs, up to \<open>n\<close> pops.\<close>

locale event_queue =
  fixes inv :: "'q \<Rightarrow> bool"
    and pending :: "'q \<Rightarrow> 'e multiset"
    and key :: "'e \<Rightarrow> u64"
    and due :: "u32 \<Rightarrow> 'e \<Rightarrow> bool"
    and item :: "'e \<Rightarrow> 't"
    and pop :: "'q \<Rightarrow> u32 \<Rightarrow> ('t option \<times> 'q) exec"
  assumes pop_due: "inv q \<Longrightarrow> x \<in># pending q \<Longrightarrow> due t x \<Longrightarrow>
      \<exists>e q'. pop q t = Some (Some (item e), q') \<and> inv q' \<and> e \<in># pending q \<and> due t e
           \<and> (\<forall>y \<in># pending q. key e \<le> key y) \<and> pending q' = pending q - {#e#}"
    and pop_not_due: "inv q \<Longrightarrow> \<forall>x \<in># pending q. \<not> due t x \<Longrightarrow> pop q t = Some (None, q)"
begin

fun drain :: "nat \<Rightarrow> u32 \<Rightarrow> 'q \<Rightarrow> ('t list \<times> 'q) exec" where
  "drain 0 t q = Some ([], q)"
| "drain (Suc n) t q =
     do { (r, q') \<leftarrow> pop q t;
          case r of None \<Rightarrow> Some ([], q')
          | Some x \<Rightarrow> do { (xs, q'') \<leftarrow> drain n t q'; Some (x # xs, q'') } }"

lemma pop_cases:
  assumes "inv q"
  obtains (some) e q' where "pop q t = Some (Some (item e), q')" "inv q'" "due t e"
      "pending q = add_mset e (pending q')" "\<And>y. y \<in># pending q \<Longrightarrow> key e \<le> key y"
    | (none) "pop q t = Some (None, q)" "size (filter_mset (due t) (pending q)) = 0"
proof (cases "\<exists>x \<in># pending q. due t x")
  case True
  then show ?thesis using pop_due [OF assms, of _ t] that(1) by (metis insert_DiffM)
next
  case False
  then show ?thesis using pop_not_due [OF assms, of t] that(2) by auto
qed

lemma drain_spec:
  "inv q \<Longrightarrow> \<exists>es q'. drain n t q = Some (map item es, q') \<and> inv q' \<and> pending q = mset es + pending q'
     \<and> sorted (map key es) \<and> (\<forall>e \<in> set es. due t e \<and> (\<forall>y \<in># pending q'. key e \<le> key y))
     \<and> length es = min n (size (filter_mset (due t) (pending q)))"
proof (induction n arbitrary: q)
  case 0
  then show ?case by auto
next
  case (Suc n)
  from Suc.prems show ?case
  proof (cases rule: pop_cases [of q t])
    case (some e q1)
    obtain es q' where es: "drain n t q1 = Some (map item es, q')" "inv q'"
      "pending q1 = mset es + pending q'" "sorted (map key es)"
      "\<forall>e \<in> set es. due t e \<and> (\<forall>y \<in># pending q'. key e \<le> key y)"
      "length es = min n (size (filter_mset (due t) (pending q1)))"
      using Suc.IH [OF some(2)] by blast
    have "key e \<le> key y" if "y \<in> set es \<or> y \<in># pending q'" for y
      using some(4,5) es(3) that by auto
    then show ?thesis using some es by (intro exI [of _ "e # es"] exI [of _ q']) simp
  next
    case none
    then show ?thesis using Suc.prems by (intro exI [of _ "[]"] exI [of _ q]) (simp del: size_eq_0_iff_empty)
  qed
qed

end

section \<open>Keys\<close>

lemma evq_key_drop: "drop_bit 32 (evq_key t seq) = ucast (ucast (tk_meta0 t) :: u32)"
proof -
  have "drop_bit 32 (push_bit 16 (ucast (ucast (GMK_PRIORITY (tk_flags t)) :: u32)) :: u64) = 0"
  proof (rule bit_word_eqI)
    fix n assume "n < LENGTH(64)"
    show "bit (drop_bit 32 (push_bit 16 (ucast (ucast (GMK_PRIORITY (tk_flags t)) :: u32)) :: u64)) n
        = bit (0 :: u64) n"
      by (auto simp: bit_simps GMK_PRIORITY_def dest!: bit_imp_le_length)
  qed
  moreover have "drop_bit 32 (ucast seq :: u64) = 0"
    by (rule bit_word_eqI) (auto simp: bit_simps dest: bit_imp_le_length)
  moreover have "drop_bit 32 (push_bit 32 (ucast (ucast (tk_meta0 t) :: u32)) :: u64)
      = ucast (ucast (tk_meta0 t) :: u32)"
    by (rule bit_word_eqI) (auto simp: bit_simps dest: bit_imp_le_length)
  ultimately show ?thesis by (simp add: evq_key_def Let_def)
qed

lemma unat_drop_bit_div: "unat (drop_bit n (x :: 'a::len word)) = unat x div 2 ^ n"
  by (subst drop_bit_eq_div [symmetric]) (rule unat_drop_bit_eq)

lemma unat_entry_tick: "unat (evq_entry_tick e) = unat (ee_key e) div 2 ^ 32"
proof -
  have "unat (ee_key e) div 2 ^ 32 < 2 ^ 32" by (simp add: less_mult_imp_div_less)
  then show ?thesis
    by (simp add: evq_entry_tick_def unsigned_ucast_eq unat_drop_bit_div take_bit_nat_eq_self)
qed

lemma entry_tick_mono: "ee_key x \<le> ee_key y \<Longrightarrow> evq_entry_tick x \<le> evq_entry_tick y"
  by (simp add: word_le_nat_alt unat_entry_tick div_le_mono)

text \<open>The tick field of a key is exact for every sequence number.\<close>

lemma entry_tick_key: "ee_key e = evq_key t seq \<Longrightarrow> evq_entry_tick e = ucast (tk_meta0 t)"
proof (rule word_unat_eq_iff [THEN iffD2])
  assume "ee_key e = evq_key t seq"
  then have "unat (evq_entry_tick e) = unat (drop_bit 32 (evq_key t seq))"
    by (simp add: unat_entry_tick unat_drop_bit_div)
  then show "unat (evq_entry_tick e) = unat (ucast (tk_meta0 t) :: u32)"
    by (simp only: evq_key_drop) (simp add: unat_ucast_up)
qed

text \<open>While the sequence number fits in 16 bits, the fields of the key do not overlap.\<close>

definition task_tick :: "gmk_task \<Rightarrow> nat" where
  "task_tick t = unat (ucast (tk_meta0 t) :: u32)"

lemma unat_push_bit_small:
  assumes "unat (x :: 'a::len word) * 2 ^ n < 2 ^ LENGTH('a)"
  shows "unat (push_bit n x) = unat x * 2 ^ n"
  using assms by (subst unsigned_push_bit_eq) (simp add: push_bit_eq_mult take_bit_nat_eq_self)

lemma evq_key_fields:
  assumes "unat seq < 2 ^ 16"
  shows "unat (evq_key t seq) = task_tick t * 2 ^ 32 + task_prio t * 2 ^ 16 + unat seq"
proof -
  define a :: u64 where "a = push_bit 32 (ucast (ucast (tk_meta0 t) :: u32))"
  define b :: u64 where "b = push_bit 16 (ucast (ucast (GMK_PRIORITY (tk_flags t)) :: u32))"
  define c :: u64 where "c = ucast seq"
  have tick: "task_tick t < 2 ^ 32" unfolding task_tick_def by simp
  have prio: "task_prio t \<le> 3" using task_prio_less_4 [of t] by linarith
  have ua: "unat a = task_tick t * 2 ^ 32"
    unfolding a_def using tick
    by (subst unat_push_bit_small) (simp_all add: unat_ucast_up task_tick_def)
  have ub: "unat b = task_prio t * 2 ^ 16"
    unfolding b_def by (subst unat_push_bit_small)
      (auto simp: unat_ucast_up task_prio_def intro: less_trans [OF GMK_PRIORITY_less_4])
  have uc: "unat c = unat seq" unfolding c_def by (simp add: unat_ucast_up)
  have small: "\<not> bit x n" if "unat (x :: u64) < 2 ^ k" "k \<le> n" for x n k
  proof -
    have "unat x < 2 ^ n" by (rule less_le_trans [OF that(1) power_increasing]) (use that(2) in simp_all)
    then have "drop_bit n x = 0" by (simp add: unat_drop_bit_div word_unat_eq_iff)
    then show ?thesis by (simp add: bit_iff_odd_drop_bit)
  qed
  have "b + c = b OR c"
  proof (rule disjunctive_add)
    fix n show "\<not> bit b n \<or> \<not> bit c n"
      using small [of c 16 n] assms uc by (cases "n < 16") (auto simp: b_def bit_simps)
  qed
  moreover have "a + (b OR c) = a OR (b OR c)"
  proof (rule disjunctive_add)
    fix n
    have "unat b < 2 ^ 32" "unat c < 2 ^ 32" using ub uc prio assms by simp_all
    then show "\<not> bit a n \<or> \<not> bit (b OR c) n"
      using small [of b 32 n] small [of c 32 n] by (cases "n < 32") (auto simp: a_def bit_simps)
  qed
  ultimately have "evq_key t seq = a + (b + c)"
    by (simp add: evq_key_def Let_def a_def b_def c_def or.assoc)
  moreover have "unat (b + c) = unat b + unat c"
    using ub uc assms prio by (intro unat_add_nowrap) simp
  moreover have "unat (a + (b + c)) = unat a + unat (b + c)"
    using calculation(2) ua ub uc assms tick prio by (intro unat_add_nowrap) simp
  ultimately show ?thesis using ua ub uc by simp
qed

text \<open>Hence keys compare as the triples of tick, priority and sequence number.\<close>

lemma lex3_less_iff:
  assumes "(p::nat) < 4" "p' < 4" "s < 65536" "s' < 65536"
  shows "t * 4294967296 + p * 65536 + s < t' * 4294967296 + p' * 65536 + s' \<longleftrightarrow>
    t < t' \<or> t = t' \<and> (p < p' \<or> p = p' \<and> s < s')"
proof (cases t t' rule: linorder_cases)
  case equal
  then show ?thesis using assms by (cases p p' rule: linorder_cases) auto
qed (use assms in linarith)+

lemma evq_key_less_iff:
  assumes "unat s < 2 ^ 16" "unat s' < 2 ^ 16"
  shows "evq_key t s < evq_key t' s' \<longleftrightarrow>
    task_tick t < task_tick t' \<or> task_tick t = task_tick t'
      \<and> (task_prio t < task_prio t' \<or> task_prio t = task_prio t' \<and> unat s < unat s')"
  using lex3_less_iff [of "task_prio t" "task_prio t'" "unat s" "unat s'" "task_tick t" "task_tick t'"]
    assms by (simp add: word_less_nat_alt [of "evq_key t s"] evq_key_fields)


section \<open>Invariant and behaviour\<close>

definition evq_pending :: "gmk_evq \<Rightarrow> gmk_evq_entry multiset" where
  "evq_pending q = mset (take (unat (evq_count q)) (evq_heap q))"

text \<open>Child indices do not wrap around below \<open>2 ^ 31\<close> entries; the default capacity is 65536.\<close>

definition evq_inv :: "gmk_evq \<Rightarrow> bool" where
  "evq_inv q \<longleftrightarrow> evq_count q \<le> evq_cap q \<and> length (evq_heap q) = unat (evq_cap q)
     \<and> unat (evq_cap q) < 2 ^ 31 \<and> heap_ok (evq_heap q) (unat (evq_count q))
     \<and> (\<forall>e \<in># evq_pending q. ee_key e = evq_key (ee_task e) (tk_seq (ee_task e)))"

definition evq_entry :: "gmk_task \<Rightarrow> u32 \<Rightarrow> gmk_evq_entry" where
  "evq_entry t seq = \<lparr>ee_key = evq_key t seq, ee_task = t\<lparr>tk_seq := seq\<rparr>\<rparr>"

definition evq_due :: "u32 \<Rightarrow> gmk_evq_entry \<Rightarrow> bool" where
  "evq_due tick e \<longleftrightarrow> evq_entry_tick e \<le> tick"

lemma evq_key_set_seq [simp]: "evq_key (t\<lparr>tk_seq := s\<rparr>) seq = evq_key t seq"
  by (simp add: evq_key_def)

lemma evq_size_pending: "evq_inv q \<Longrightarrow> size (evq_pending q) = unat (evq_count q)"
  by (simp add: evq_pending_def evq_inv_def word_le_nat_alt)

lemma evq_push_full: "evq_cap q \<le> evq_count q \<Longrightarrow> gmk_evq_push q t = Some (-1, q)"
  by (simp add: gmk_evq_push_def)

lemma evq_push_room:
  assumes inv: "evq_inv q" and room: "evq_count q < evq_cap q"
  obtains q' where "gmk_evq_push q t = Some (0, q')" "evq_inv q'"
    "evq_pending q' = add_mset (evq_entry t (evq_next_seq q)) (evq_pending q)"
    "evq_next_seq q' = evq_next_seq q + 1" "evq_cap q' = evq_cap q" "evq_ptr q' = evq_ptr q"
    "evq_count q' = evq_count q + 1"
proof -
  let ?n = "unat (evq_count q)" and ?e = "evq_entry t (evq_next_seq q)"
  let ?h = "(evq_heap q)[?n := ?e]"
  have n: "?n < length (evq_heap q)" "length (evq_heap q) = unat (evq_cap q)" "heap_ok (evq_heap q) ?n"
    using assms by (simp_all add: evq_inv_def word_less_nat_alt)
  have suc: "unat (evq_count q + 1) = Suc ?n"
    using n unat32_lt [of "evq_cap q"] by (subst unat_Suc_nowrap) (simp_all del: unat32_lt)
  have "hole_up ?h (Suc ?n) ?n"
  proof -
    have up: "parent i < i" if "0 < i" for i using that by (rule parent_less)
    have "hk ?h (parent i) \<le> hk ?h i" if "0 < i" "i < ?n" for i
      using n(3) that up [of i] by (simp add: heap_ok_def)
    moreover have "parent i \<noteq> ?n" if "0 < i" "i < Suc ?n" for i using up [of i] that by simp
    ultimately show ?thesis by (auto simp: hole_up_def less_Suc_eq)
  qed
  then obtain h' where h': "heap_sift_up ?h (evq_count q) = Some h'" "heap_ok h' (Suc ?n)"
      "permutes_prefix (Suc ?n) ?h h'"
    using heap_sift_up_ok [of ?h "Suc ?n" "evq_count q"] n by auto
  let ?q = "q\<lparr>evq_next_seq := evq_next_seq q + 1, evq_count := evq_count q + 1, evq_heap := h'\<rparr>"
  have push: "gmk_evq_push q t = Some (0, ?q)"
    using room n(1) h'(1) by (simp add: gmk_evq_push_def not_le exec_simps evq_entry_def)
  have "take (Suc ?n) ?h = take ?n (evq_heap q) @ [?e]"
    using n(1) by (simp add: take_Suc_conv_app_nth)
  then have pend: "evq_pending ?q = add_mset ?e (evq_pending q)"
    using h'(3) by (simp add: evq_pending_def suc permutes_prefix_def)
  have "evq_inv ?q"
    using inv h' n suc pend unfolding evq_inv_def
    by (auto simp: permutes_prefix_def word_le_nat_alt evq_entry_def)
  then show ?thesis using push pend by (intro that [of ?q]) simp_all
qed

lemma evq_remove_root:
  assumes "unat c = Suc m" "Suc m \<le> length h"
  shows "mset (take m (h[0 := h ! m])) = mset (take (Suc m) h) - {#h ! 0#}"
proof (cases m)
  case 0
  then show ?thesis using assms(2) by (cases h) auto
next
  case (Suc j)
  with assms(2) obtain x xs where h: "h = x # xs" "m \<le> length xs" by (cases h) auto
  then have "take m (h[0 := h ! m]) = xs ! j # take j xs" using Suc by simp
  moreover have "take (Suc m) h = x # take j xs @ [xs ! j]"
    using h Suc by (simp add: take_Suc_conv_app_nth)
  ultimately show ?thesis using h by simp
qed

lemma evq_root:
  assumes "evq_inv q" "evq_count q \<noteq> 0"
  shows "evq_heap q ! 0 \<in># evq_pending q" "\<And>e. e \<in># evq_pending q \<Longrightarrow> hk (evq_heap q) 0 \<le> ee_key e"
    "0 < length (evq_heap q)"
proof -
  have n: "0 < unat (evq_count q)" "unat (evq_count q) \<le> length (evq_heap q)"
    "heap_ok (evq_heap q) (unat (evq_count q))"
    using assms by (simp_all add: evq_inv_def word_le_nat_alt unat_gt_0)
  then show "evq_heap q ! 0 \<in># evq_pending q" "0 < length (evq_heap q)"
    by (auto simp: evq_pending_def in_set_conv_nth)
  show "hk (evq_heap q) 0 \<le> ee_key e" if "e \<in># evq_pending q" for e
    using that heap_root_min [OF n(3)] by (auto simp: evq_pending_def in_set_conv_nth)
qed

text \<open>A pop that finds a due root removes exactly the root, which has the least key.\<close>

lemma evq_pop_root:
  assumes inv: "evq_inv q" and ne: "evq_count q \<noteq> 0" and due: "evq_due tick (evq_heap q ! 0)"
  obtains q' where "gmk_evq_pop_due q tick = Some (Some (ee_task (evq_heap q ! 0)), q')" "evq_inv q'"
    "evq_pending q' = evq_pending q - {#evq_heap q ! 0#}" "evq_cap q' = evq_cap q"
    "evq_next_seq q' = evq_next_seq q" "evq_ptr q' = evq_ptr q" "evq_count q' = evq_count q - 1"
proof -
  let ?h = "evq_heap q" and ?c = "evq_count q - 1"
  obtain m where m: "unat (evq_count q) = Suc m" using ne by (metis unat_eq_zero not0_implies_Suc)
  have c: "unat ?c = m" using ne m by (simp add: unat_minus_one)
  have len: "Suc m \<le> length ?h" "length ?h = unat (evq_cap q)" "unat (evq_cap q) < 2 ^ 31"
    "heap_ok ?h (Suc m)"
    using inv m by (simp_all add: evq_inv_def word_le_nat_alt)
  have nd: "\<not> tick < evq_entry_tick (?h ! 0)" using due by (simp add: evq_due_def not_less)
  have start: "gmk_evq_pop_due q tick =
      (if ?c > 0 then do { hp \<leftarrow> heap_sift_down (?h[0 := ?h ! m]) ?c 0;
                           Some (Some (ee_task (?h ! 0)), q\<lparr>evq_count := ?c, evq_heap := hp\<rparr>) }
       else Some (Some (ee_task (?h ! 0)), q\<lparr>evq_count := ?c\<rparr>))"
    using ne nd len m c evq_root(3) [OF inv ne] by (simp add: gmk_evq_pop_due_def exec_simps Let_def)
  have pos: "?c > 0 \<longleftrightarrow> 0 < m" using c by (simp add: word_less_nat_alt)
  obtain h' where h': "gmk_evq_pop_due q tick =
      Some (Some (ee_task (?h ! 0)), q\<lparr>evq_count := ?c, evq_heap := h'\<rparr>)"
      "heap_ok h' m" "length h' = length ?h" "mset (take m h') = mset (take m (?h[0 := ?h ! m]))"
  proof (cases "0 < m")
    case True
    have "hole_down (?h[0 := ?h ! m]) m 0"
      using len(4) by (auto simp: hole_down_def heap_ok_def)
    then show ?thesis
      using heap_sift_down_ok [of "?h[0 := ?h ! m]" ?c 0] c len True start pos that
      by (auto simp: permutes_prefix_def)
  next
    case False
    then show ?thesis using start pos by (intro that [of ?h]) (simp_all add: heap_ok_def)
  qed
  let ?q = "q\<lparr>evq_count := ?c, evq_heap := h'\<rparr>"
  have pend: "evq_pending ?q = evq_pending q - {#?h ! 0#}"
    using h'(4) evq_remove_root [OF m len(1)] by (simp add: evq_pending_def c m)
  have "evq_inv ?q"
    using inv h'(2,3) c m pend unfolding evq_inv_def
    by (auto simp: word_le_nat_alt dest: in_diffD)
  then show ?thesis using h'(1) pend by (intro that [of ?q]) simp_all
qed

lemma evq_due_mono: "ee_key x \<le> ee_key y \<Longrightarrow> evq_due t y \<Longrightarrow> evq_due t x"
  using entry_tick_mono by (auto simp: evq_due_def intro: order_trans)

lemma evq_pop_not_due:
  assumes "evq_inv q" "evq_count q = 0 \<or> \<not> evq_due t (evq_heap q ! 0)"
  shows "gmk_evq_pop_due q t = Some (None, q)"
  using assms evq_root(3) [of q] by (auto simp: gmk_evq_pop_due_def exec_simps evq_due_def not_le)

interpretation evq: event_queue evq_inv evq_pending ee_key evq_due ee_task gmk_evq_pop_due
proof unfold_locales
  fix q x t assume inv: "evq_inv q"
  show "gmk_evq_pop_due q t = Some (None, q)" if "\<forall>x \<in># evq_pending q. \<not> evq_due t x"
    using that evq_root(1) [OF inv] evq_pop_not_due [OF inv] by blast
  assume x: "x \<in># evq_pending q" "evq_due t x"
  then have ne: "evq_count q \<noteq> 0" using evq_size_pending [OF inv] by auto
  note root = evq_root [OF inv ne]
  have due: "evq_due t (evq_heap q ! 0)" using root(2) [OF x(1)] x(2) by (rule evq_due_mono)
  show "\<exists>e q'. gmk_evq_pop_due q t = Some (Some (ee_task e), q') \<and> evq_inv q' \<and> e \<in># evq_pending q
      \<and> evq_due t e \<and> (\<forall>y \<in># evq_pending q. ee_key e \<le> ee_key y) \<and> evq_pending q' = evq_pending q - {#e#}"
    using evq_pop_root [OF inv ne due] root(1,2) due by metis
qed

lemma evq_init_cases:
  assumes "gmk_evq_init q cap h = (c, q', h')" "hal_owns h0 P h" "unat cap < 2 ^ 31"
  obtains (ok) "c = 0" "evq_inv q'" "evq_pending q' = {#}" "evq_cap q' = cap" "evq_next_seq q' = 0"
      "hal_owns h0 (add_mset (evq_ptr q') P) h'"
    | (fail) "c = -1" "hal_owns h0 P h'"
proof (cases "cap = 0")
  case True
  then show ?thesis using assms by (auto simp: gmk_evq_init_def intro: that(2))
next
  case False
  obtain p h1 where a: "gmk_hal_calloc (ucast cap) 64 h = (p, h1)" by fastforce
  show ?thesis
    using assms(1,3) hal_owns_calloc [OF assms(2) a] a False
    by (cases "p = 0") (auto simp: gmk_evq_init_def evq_inv_def evq_pending_def heap_ok_def
      word_le_nat_alt intro: that)
qed

lemma hal_owns_evq_destroy:
  "hal_owns h0 (add_mset (evq_ptr q) P) h \<Longrightarrow> gmk_evq_destroy q h = (q', h') \<Longrightarrow>
   hal_owns h0 P h' \<and> evq_ptr q' = 0"
  by (auto simp: gmk_evq_destroy_def intro: hal_owns_free)

section \<open>The sequence number past its field\<close>

lemma evq_key_seq_overrun:
  assumes "tk_meta0 t = tk_meta0 t'" "unat s < 2 ^ 16"
  shows "evq_key t s < evq_key t' 0x40000"
proof -
  define a :: u64 where "a = push_bit 32 (ucast (ucast (tk_meta0 t') :: u32))"
  have tick: "task_tick t' < 2 ^ 32" unfolding task_tick_def by simp
  have ua: "unat a = task_tick t' * 2 ^ 32"
    using tick by (simp add: a_def task_tick_def unat_push_bit_small unat_ucast_up)
  have disj: "a OR 0x40000 = a + 0x40000"
  proof (rule disjunctive_add [symmetric])
    fix n show "\<not> bit a n \<or> \<not> bit (0x40000 :: u64) n"
      using bit_exp_iff [of 18 n, where 'a = u64] by (auto simp: a_def bit_push_bit_iff)
  qed
  have "unat (a + 0x40000) = task_tick t' * 2 ^ 32 + 0x40000"
    using ua tick by (subst unat_add_nowrap) simp_all
  moreover have "unat (evq_key t s) = task_tick t' * 2 ^ 32 + task_prio t * 2 ^ 16 + unat s"
    using evq_key_fields [OF assms(2), of t] assms(1) by (simp add: task_tick_def)
  moreover have "task_prio t \<le> 3" using task_prio_less_4 [of t] by linarith
  ultimately have "evq_key t s < a OR 0x40000" using assms(2) disj by (simp add: word_less_nat_alt)
  also have "a OR 0x40000 \<le> evq_key t' 0x40000"
  proof -
    have "evq_key t' 0x40000 = (a OR 0x40000) OR push_bit 16 (ucast (ucast (GMK_PRIORITY (tk_flags t')) :: u32))"
      by (rule bit_word_eqI) (auto simp: evq_key_def Let_def a_def bit_or_iff)
    then show ?thesis by (simp only:) (rule le_word_or2)
  qed
  finally show ?thesis .
qed

end
