(* ===== verification/Owned_Array.thy ===== *)
theory Owned_Array
  imports Hal_Mem
begin

text \<open>
  Arrays of objects that own one heap block each (the local queues of the workers, the trace rings of
  the tenants).  The code initialises such an array in a loop that destroys what it has built at
  the first failure, and destroys it in another loop; both loops are defined once here, for the
  init and destroy functions of the element.
\<close>

fun destroy_each :: "('r \<Rightarrow> hal \<Rightarrow> 'r \<times> hal) \<Rightarrow> nat list \<Rightarrow> 'r list \<Rightarrow> hal \<Rightarrow> ('r list \<times> hal) exec" where
  "destroy_each destroy [] rs h = Some (rs, h)"
| "destroy_each destroy (j # js) rs h =
     do { r \<leftarrow> arr_get rs j;
          let (r', h') = destroy r h in destroy_each destroy js (rs[j := r']) h' }"

fun init_each ::
  "('r \<Rightarrow> hal \<Rightarrow> rc \<times> 'r \<times> hal) \<Rightarrow> ('r \<Rightarrow> hal \<Rightarrow> 'r \<times> hal) \<Rightarrow> nat list \<Rightarrow> 'r list \<Rightarrow> hal
    \<Rightarrow> (rc \<times> 'r list \<times> hal) exec" where
  "init_each init destroy [] rs h = Some (0, rs, h)"
| "init_each init destroy (i # is) rs h =
     do { r \<leftarrow> arr_get rs i;
          let (c, r', h') = init r h
          in if c \<noteq> 0
             then do { (rs', h'') \<leftarrow> destroy_each destroy [0..<i] (rs[i := r']) h'; Some (-1, rs', h'') }
             else init_each init destroy is (rs[i := r']) h' }"

text \<open>The contract of an element: a successful \<open>init\<close> adds its block to the live blocks and makes it
  well-formed, a failed one adds nothing, and \<open>destroy\<close> gives the block back.\<close>

locale owned_element =
  fixes init :: "'r \<Rightarrow> hal \<Rightarrow> rc \<times> 'r \<times> hal"
    and destroy :: "'r \<Rightarrow> hal \<Rightarrow> 'r \<times> hal"
    and ptr :: "'r \<Rightarrow> addr"
    and fresh :: "'r \<Rightarrow> bool"
  assumes init_law: "init r h = (c, r', h') \<Longrightarrow> hal_owns h0 P h \<Longrightarrow>
      c = 0 \<and> fresh r' \<and> hal_owns h0 (add_mset (ptr r') P) h' \<or> c = -1 \<and> hal_owns h0 P h'"
    and destroy_law: "hal_owns h0 (add_mset (ptr r) P) h \<Longrightarrow> destroy r h = (r', h') \<Longrightarrow> hal_owns h0 P h'"
begin

abbreviation ptrs :: "'r list \<Rightarrow> addr list" where
  "ptrs rs \<equiv> map ptr rs"

lemma destroy_each_frees:
  "hal_owns h0 (mset (map (\<lambda>j. ptrs rs ! j) js) + P) h \<Longrightarrow> distinct js \<Longrightarrow> set js \<subseteq> {..<length rs} \<Longrightarrow>
   \<exists>rs' h'. destroy_each destroy js rs h = Some (rs', h') \<and> hal_owns h0 P h' \<and> length rs' = length rs"
proof (induction js arbitrary: rs h)
  case (Cons j js)
  then have j: "j < length rs" by simp
  obtain r h1 where d: "destroy (rs ! j) h = (r, h1)" by fastforce
  have o: "hal_owns h0 (mset (map (\<lambda>j. ptrs rs ! j) js) + P) h1"
    by (rule destroy_law [OF _ d]) (use Cons.prems(1) j in simp)
  have "map (\<lambda>i. ptrs (rs[j := r]) ! i) js = map (\<lambda>i. ptrs rs ! i) js"
    using Cons.prems(2) by (auto simp: map_update intro!: nth_list_update_neq)
  then have "hal_owns h0 (mset (map (\<lambda>i. ptrs (rs[j := r]) ! i) js) + P) h1"
    using o by (simp only:)
  from Cons.IH [OF this] show ?case using Cons.prems j d by (simp add: exec_simps)
qed simp

lemma destroy_all_frees:
  assumes "hal_owns h0 (mset (map (\<lambda>j. ptrs rs ! j) [0..<n]) + P) h" "n \<le> length rs"
  shows "\<exists>rs' h'. destroy_each destroy [0..<n] rs h = Some (rs', h') \<and> hal_owns h0 P h' \<and> length rs' = length rs"
proof -
  have "distinct [0..<n]" "set [0..<n] \<subseteq> {..<length rs}" using assms(2) by auto
  from destroy_each_frees [OF assms(1) this] show ?thesis .
qed

lemma init_each_cases:
  assumes "n \<le> N" "N \<le> length rs" "\<forall>i < n. fresh (rs ! i)"
    "hal_owns h0 (mset (map (\<lambda>j. ptrs rs ! j) [0..<n]) + P) h"
  shows "(\<exists>rs' h'. init_each init destroy [n..<N] rs h = Some (0, rs', h') \<and> length rs' = length rs
            \<and> (\<forall>i < N. fresh (rs' ! i)) \<and> hal_owns h0 (mset (map (\<lambda>j. ptrs rs' ! j) [0..<N]) + P) h')
       \<or> (\<exists>rs' h'. init_each init destroy [n..<N] rs h = Some (-1, rs', h') \<and> length rs' = length rs
            \<and> hal_owns h0 P h')"
  using assms
proof (induction "N - n" arbitrary: n rs h)
  case 0
  then show ?case by auto
next
  case (Suc k)
  then have n: "n < N" "n < length rs" by simp_all
  obtain c r h1 where i: "init (rs ! n) h = (c, r, h1)" using prod_cases3 by blast
  let ?rs = "rs[n := r]"
  have old: "map (\<lambda>j. ptrs ?rs ! j) [0..<n] = map (\<lambda>j. ptrs rs ! j) [0..<n]"
    by (simp add: map_update)
  have upt: "[n..<N] = n # [Suc n..<N]" using n by (simp add: upt_conv_Cons)
  from init_law [OF i Suc.prems(4)] show ?case
  proof (elim disjE conjE)
    assume ok: "c = 0" "fresh r" "hal_owns h0 (add_mset (ptr r) (mset (map ((!) (ptrs rs)) [0..<n]) + P)) h1"
    have "ptrs ?rs ! n = ptr r" using n by simp
    then have e: "map (\<lambda>j. ptrs ?rs ! j) [0..<Suc n] = map (\<lambda>j. ptrs rs ! j) [0..<n] @ [ptr r]"
      using old by simp
    have "hal_owns h0 (mset (map (\<lambda>j. ptrs ?rs ! j) [0..<Suc n]) + P) h1"
      using ok(3) unfolding e by simp
    moreover have "\<forall>i < Suc n. fresh (?rs ! i)"
      using Suc.prems(3) ok(2) n by (auto simp: nth_list_update less_Suc_eq)
    moreover have "init_each init destroy [n..<N] rs h = init_each init destroy [Suc n..<N] ?rs h1"
      using n i ok(1) unfolding upt by (simp add: exec_simps)
    moreover have "k = N - Suc n" using Suc.hyps(2) by simp
    ultimately show ?thesis using Suc.hyps(1) [of "Suc n" ?rs h1] Suc.prems(2) n by simp
  next
    assume f: "c = -1" "hal_owns h0 (mset (map ((!) (ptrs rs)) [0..<n]) + P) h1"
    have "\<exists>rs' h'. destroy_each destroy [0..<n] ?rs h1 = Some (rs', h') \<and> hal_owns h0 P h'
        \<and> length rs' = length rs"
      using destroy_all_frees [of h0 ?rs n P h1] f(2) n unfolding old by simp
    then show ?thesis using n i f(1) unfolding upt by (auto simp: exec_simps)
  qed
qed

end

end
