(* ===== verification/Sched.thy ===== *)
theory Sched
  imports Sched_Lq Sched_Rq Sched_Evq Owned_Array
begin

text \<open>
  The scheduler aggregate of \<open>src/sched.c\<close> and the enqueue paths of \<open>src/enqueue.c\<close>.  The
  array \<open>lqs\<close> is its address together with its elements; address 0 is the \<open>NULL\<close> pointer.
\<close>

section \<open>State\<close>

record gmk_sched =
  sd_rq :: gmk_rq
  sd_lqs_ptr :: addr
  sd_lqs :: "gmk_lq list"
  sd_evq :: gmk_evq
  sd_overflow :: "gmk_task gmk_ring_mpmc"
  sd_n_workers :: u32
  sd_next_seq :: u32

definition zero_lq :: gmk_lq where
  "zero_lq = \<lparr>lq_ring = zero_ring_spsc, lq_yield_watermark = 0, lq_cap = 0\<rparr>"

definition zero_evq :: gmk_evq where
  "zero_evq = \<lparr>evq_ptr = 0, evq_heap = [], evq_count = 0, evq_cap = 0, evq_next_seq = 0\<rparr>"

definition zero_sched :: gmk_sched where
  "zero_sched = \<lparr>sd_rq = zero_rq, sd_lqs_ptr = 0, sd_lqs = [], sd_evq = zero_evq,
     sd_overflow = zero_ring_mpmc, sd_n_workers = 0, sd_next_seq = 0\<rparr>"

abbreviation (input) sizeof_gmk_lq :: u64 where "sizeof_gmk_lq \<equiv> 192"

section \<open>Construction and destruction\<close>

definition lqs_destroy :: "nat list \<Rightarrow> gmk_lq list \<Rightarrow> hal \<Rightarrow> (gmk_lq list \<times> hal) exec" where
  "lqs_destroy = destroy_each gmk_lq_destroy"

text \<open>The initialisation loop; at the first failure the local queues built so far are destroyed.\<close>

definition lqs_init :: "nat list \<Rightarrow> gmk_lq list \<Rightarrow> hal \<Rightarrow> (rc \<times> gmk_lq list \<times> hal) exec" where
  "lqs_init = init_each (\<lambda>lq. gmk_lq_init lq GMK_LQ_DEFAULT_CAP) gmk_lq_destroy"

text \<open>The common tail of the error paths: free the array of local queues, destroy the ready queue.\<close>

definition sched_fail :: "gmk_sched \<Rightarrow> hal \<Rightarrow> (rc \<times> gmk_sched \<times> hal) exec" where
  "sched_fail s h =
     (let h1 = gmk_hal_free (sd_lqs_ptr s) h
      in do { (rq, h2) \<leftarrow> gmk_rq_destroy (sd_rq s) h1; Some (-1, s\<lparr>sd_lqs := [], sd_rq := rq\<rparr>, h2) })"

definition sched_init_queues :: "u32 \<Rightarrow> gmk_sched \<Rightarrow> hal \<Rightarrow> (rc \<times> gmk_sched \<times> hal) exec" where
  "sched_init_queues n_workers s h =
     (let (c, evq, h1) = gmk_evq_init (sd_evq s) GMK_EVQ_DEFAULT_CAP h; s1 = s\<lparr>sd_evq := evq\<rparr>
      in if c \<noteq> 0
         then do { (lqs, h2) \<leftarrow> lqs_destroy [0..<unat n_workers] (sd_lqs s1) h1;
                   sched_fail (s1\<lparr>sd_lqs := lqs\<rparr>) h2 }
         else let (c', ov, h2) = gmk_ring_mpmc_init (sd_overflow s1) zero_task GMK_OVERFLOW_CAP
                                   sizeof_gmk_task h1;
                  s2 = s1\<lparr>sd_overflow := ov\<rparr>
              in if c' \<noteq> 0
                 then let (evq', h3) = gmk_evq_destroy (sd_evq s2) h2
                      in do { (lqs, h4) \<leftarrow> lqs_destroy [0..<unat n_workers] (sd_lqs s2) h3;
                              sched_fail (s2\<lparr>sd_evq := evq', sd_lqs := lqs\<rparr>) h4 }
                 else Some (0, s2, h2))"

definition gmk_sched_init :: "gmk_sched \<Rightarrow> u32 \<Rightarrow> hal \<Rightarrow> (rc \<times> gmk_sched \<times> hal) exec" where
  "gmk_sched_init s n_workers h =
     (if n_workers = 0 \<or> n_workers > GMK_MAX_WORKERS then Some (-1, s, h)
      else let s0 = zero_sched\<lparr>sd_n_workers := n_workers, sd_next_seq := 0\<rparr>
           in do { (c, rq, h1) \<leftarrow> gmk_rq_init GMK_RQ_DEFAULT_CAP h;
                   let s1 = s0\<lparr>sd_rq := rq\<rparr>
                   in if c \<noteq> 0 then Some (-1, s1, h1)
                      else let (p, h2) = gmk_hal_calloc (ucast n_workers) sizeof_gmk_lq h1;
                               s2 = s1\<lparr>sd_lqs_ptr := p\<rparr>
                           in if p = 0
                              then do { (rq', h3) \<leftarrow> gmk_rq_destroy (sd_rq s2) h2;
                                        Some (-1, s2\<lparr>sd_rq := rq'\<rparr>, h3) }
                              else do { (c', lqs, h3) \<leftarrow>
                                          lqs_init [0..<unat n_workers] (replicate (unat n_workers) zero_lq) h2;
                                        let s3 = s2\<lparr>sd_lqs := lqs\<rparr>
                                        in if c' \<noteq> 0 then sched_fail s3 h3
                                           else sched_init_queues n_workers s3 h3 } })"

definition gmk_sched_destroy :: "gmk_sched \<Rightarrow> hal \<Rightarrow> (gmk_sched \<times> hal) exec" where
  "gmk_sched_destroy s h =
     do { (rq, h1) \<leftarrow> gmk_rq_destroy (sd_rq s) h;
          (s1, h2) \<leftarrow>
            (if sd_lqs_ptr s \<noteq> 0
             then do { (lqs, h') \<leftarrow> lqs_destroy [0..<unat (sd_n_workers s)] (sd_lqs s) h1;
                       Some (s\<lparr>sd_rq := rq, sd_lqs := [], sd_lqs_ptr := 0\<rparr>, gmk_hal_free (sd_lqs_ptr s) h') }
             else Some (s\<lparr>sd_rq := rq\<rparr>, h1));
          let (evq, h3) = gmk_evq_destroy (sd_evq s1) h2;
              (ov, h4) = gmk_ring_mpmc_destroy (sd_overflow s1) h3
          in Some (s1\<lparr>sd_evq := evq, sd_overflow := ov\<rparr>, h4) }"

section \<open>Enqueue and yield\<close>

text \<open>\<open>worker_id >= 0 && (uint32_t)worker_id < s->n_workers\<close>\<close>

definition worker_in_range :: "gmk_sched \<Rightarrow> int \<Rightarrow> bool" where
  "worker_in_range s worker_id \<longleftrightarrow> 0 \<le> worker_id \<and> (of_int worker_id :: u32) < sd_n_workers s"

text \<open>Both functions write to the caller's task, which is the third component of the result.\<close>

definition gmk_enqueue ::
  "gmk_sched \<Rightarrow> gmk_task \<Rightarrow> int \<Rightarrow> (rc \<times> gmk_sched \<times> gmk_task) exec" where
  "gmk_enqueue s task worker_id =
     (let task1 = task\<lparr>tk_seq := sd_next_seq s\<rparr>;
          s1 = s\<lparr>sd_next_seq := sd_next_seq s + 1\<rparr>
      in do { (done, s2) \<leftarrow>
                (if worker_in_range s1 worker_id
                 then do { lq \<leftarrow> arr_get (sd_lqs s1) (nat worker_id);
                           (c, lq') \<leftarrow> gmk_lq_push lq task1;
                           Some (c = 0, s1\<lparr>sd_lqs := (sd_lqs s1)[nat worker_id := lq']\<rparr>) }
                 else Some (False, s1));
              if done then Some (0, s2, task1)
              else do { (c, rq) \<leftarrow> gmk_rq_push (sd_rq s2) task1; Some (c, s2\<lparr>sd_rq := rq\<rparr>, task1) } })"

definition gmk_yield ::
  "gmk_sched \<Rightarrow> gmk_task \<Rightarrow> int \<Rightarrow> u32 \<Rightarrow> (rc \<times> gmk_sched \<times> gmk_task) exec" where
  "gmk_yield s task worker_id max_yields =
     (let task1 = task\<lparr>tk_yield_count := tk_yield_count task + 1\<rparr>;
          max_yields' = (if max_yields = 0 then GMK_DEFAULT_MAX_YIELDS else max_yields)
      in if (ucast (tk_yield_count task1) :: u32) > max_yields'
         then Some (GMK_FAIL GMK_ERR_YIELD_LIMIT, s, task1)
         else do { (done, s1) \<leftarrow>
                (if worker_in_range s worker_id
                 then do { lq \<leftarrow> arr_get (sd_lqs s) (nat worker_id);
                           (c, lq') \<leftarrow> gmk_lq_push_yield lq task1;
                           Some (c = 0, s\<lparr>sd_lqs := (sd_lqs s)[nat worker_id := lq']\<rparr>) }
                 else Some (False, s));
              if done then Some (0, s1, task1)
              else do { (c, ov) \<leftarrow> gmk_ring_mpmc_push (sd_overflow s1) task1;
                        Some (if c = 0 then 0 else GMK_FAIL GMK_ERR_YIELD_OVERFLOW,
                              s1\<lparr>sd_overflow := ov\<rparr>, task1) } })"

definition gmk_yield_impl ::
  "gmk_sched \<Rightarrow> gmk_task \<Rightarrow> int \<Rightarrow> (gmk_sched \<times> gmk_task) exec" where
  "gmk_yield_impl s task worker_id =
     do { (_, s', task') \<leftarrow> gmk_yield s task worker_id GMK_DEFAULT_MAX_YIELDS; Some (s', task') }"

definition gmk_yield_at_impl ::
  "gmk_sched \<Rightarrow> gmk_task \<Rightarrow> int \<Rightarrow> u32 \<Rightarrow> (gmk_sched \<times> gmk_task) exec" where
  "gmk_yield_at_impl s task worker_id phase =
     do { (_, s', task') \<leftarrow> gmk_yield s (task\<lparr>tk_meta0 := ucast phase\<rparr>) worker_id GMK_DEFAULT_MAX_YIELDS;
          Some (s', task') }"


section \<open>Invariant, contents and leak freedom\<close>

definition sched_inv :: "gmk_sched \<Rightarrow> bool" where
  "sched_inv s \<longleftrightarrow> rq_inv (sd_rq s) \<and> length (sd_lqs s) = unat (sd_n_workers s)
     \<and> (\<forall>lq \<in> set (sd_lqs s). lq_inv lq) \<and> evq_inv (sd_evq s) \<and> mpmc_inv (sd_overflow s)"

definition lq_ptrs :: "gmk_lq list \<Rightarrow> addr list" where
  "lq_ptrs lqs = map (\<lambda>lq. sp_ptr (lq_ring lq)) lqs"

text \<open>The heap blocks that a scheduler owns.\<close>

definition sched_blocks :: "gmk_sched \<Rightarrow> addr multiset" where
  "sched_blocks s = mset (rq_ptrs (sd_rq s)) + add_mset (sd_lqs_ptr s) (mset (lq_ptrs (sd_lqs s)))
     + {#evq_ptr (sd_evq s), mp_ptr (sd_overflow s)#}"

interpretation lq_array: owned_element "\<lambda>lq. gmk_lq_init lq 1024" gmk_lq_destroy
  "\<lambda>lq. sp_ptr (lq_ring lq)" "\<lambda>lq. lq_inv lq \<and> lq_tasks lq = []"
proof unfold_locales
  fix lq lq' h h' h0 c P
  show "c = 0 \<and> (lq_inv lq' \<and> lq_tasks lq' = []) \<and> hal_owns h0 (add_mset (sp_ptr (lq_ring lq')) P) h'
      \<or> c = -1 \<and> hal_owns h0 P h'"
    if "gmk_lq_init lq 1024 h = (c, lq', h')" "hal_owns h0 P h"
    by (rule lq_init_cases [OF that]) auto
qed (use hal_owns_lq_destroy in blast)

lemma lq_ptrs_all: "length lqs = n \<Longrightarrow> map (\<lambda>j. lq_ptrs lqs ! j) [0..<n] = lq_ptrs lqs"
  by (intro nth_equalityI) (simp_all add: lq_ptrs_def)

lemma hal_owns_lqs_destroy_all:
  assumes "hal_owns h0 (mset (lq_ptrs lqs) + P) h" "n = length lqs"
  shows "\<exists>lqs' h'. lqs_destroy [0..<n] lqs h = Some (lqs', h') \<and> hal_owns h0 P h'"
proof -
  have "hal_owns h0 (mset (map (\<lambda>j. lq_ptrs lqs ! j) [0..<n]) + P) h"
    using assms lq_ptrs_all [of lqs n] by (simp only:)
  then show ?thesis
    using lq_array.destroy_all_frees [of h0 lqs n P h] assms(2) unfolding lqs_destroy_def lq_ptrs_def by blast
qed

lemma lqs_init_cases:
  assumes "length lqs = N" "hal_owns h0 P h"
  shows "(\<exists>lqs' h'. lqs_init [0..<N] lqs h = Some (0, lqs', h') \<and> length lqs' = N
            \<and> (\<forall>lq \<in> set lqs'. lq_inv lq \<and> lq_tasks lq = []) \<and> hal_owns h0 (mset (lq_ptrs lqs') + P) h')
       \<or> (\<exists>lqs' h'. lqs_init [0..<N] lqs h = Some (-1, lqs', h') \<and> hal_owns h0 P h')"
proof -
  have "(\<exists>lqs' h'. lqs_init [0..<N] lqs h = Some (0, lqs', h') \<and> length lqs' = N
            \<and> (\<forall>i < N. lq_inv (lqs' ! i) \<and> lq_tasks (lqs' ! i) = []) \<and> hal_owns h0 (mset (map (\<lambda>j. lq_ptrs lqs' ! j) [0..<N]) + P) h')
       \<or> (\<exists>lqs' h'. lqs_init [0..<N] lqs h = Some (-1, lqs', h') \<and> hal_owns h0 P h')"
    using lq_array.init_each_cases [of 0 N lqs h0 P h] assms unfolding lqs_init_def lq_ptrs_def by auto
  then show ?thesis
  proof (elim disjE exE conjE)
    fix lqs' h' assume l: "lqs_init [0..<N] lqs h = Some (0, lqs', h')" "length lqs' = N"
      "\<forall>i < N. lq_inv (lqs' ! i) \<and> lq_tasks (lqs' ! i) = []" "hal_owns h0 (mset (map (\<lambda>j. lq_ptrs lqs' ! j) [0..<N]) + P) h'"
    have "\<forall>lq \<in> set lqs'. lq_inv lq \<and> lq_tasks lq = []" using l(2,3) by (auto simp: in_set_conv_nth)
    then show ?thesis using l lq_ptrs_all [OF l(2)] by simp
  qed blast
qed

lemma sched_fail_frees:
  assumes "length (rq_queues (sd_rq s)) = 4"
    "hal_owns h0 (mset (rq_ptrs (sd_rq s)) + add_mset (sd_lqs_ptr s) P) h"
  shows "\<exists>s' h'. sched_fail s h = Some (-1, s', h') \<and> hal_owns h0 P h'"
proof -
  have "hal_owns h0 (mset (rq_ptrs (sd_rq s)) + P) (gmk_hal_free (sd_lqs_ptr s) h)"
    by (rule hal_owns_free) (use assms(2) in simp)
  from rq_destroy_frees [OF assms(1) this] show ?thesis by (auto simp: sched_fail_def)
qed

text \<open>The blocks a scheduler owns before its event queue and its overflow ring exist.\<close>

definition sched_blocks_early :: "gmk_sched \<Rightarrow> addr multiset" where
  "sched_blocks_early s = mset (rq_ptrs (sd_rq s)) + add_mset (sd_lqs_ptr s) (mset (lq_ptrs (sd_lqs s)))"

lemma sched_fail_lqs:
  assumes "length (rq_queues (sd_rq s)) = 4" "length (sd_lqs s) = n"
    "hal_owns h0 (sched_blocks_early s + P) h"
  shows "\<exists>lqs' h1 s' h'. lqs_destroy [0..<n] (sd_lqs s) h = Some (lqs', h1)
     \<and> sched_fail (s\<lparr>sd_lqs := lqs'\<rparr>) h1 = Some (-1, s', h') \<and> hal_owns h0 P h'"
proof -
  obtain lqs' h1 where d: "lqs_destroy [0..<n] (sd_lqs s) h = Some (lqs', h1)"
    "hal_owns h0 (mset (rq_ptrs (sd_rq s)) + add_mset (sd_lqs_ptr s) P) h1"
    using hal_owns_lqs_destroy_all
      [of h0 "sd_lqs s" "mset (rq_ptrs (sd_rq s)) + add_mset (sd_lqs_ptr s) P" h n]
      assms(2,3) by (auto simp: sched_blocks_early_def ac_simps)
  then show ?thesis using sched_fail_frees [of "s\<lparr>sd_lqs := lqs'\<rparr>" h0 P h1] assms(1) by auto
qed

lemma sched_init_queues_cases:
  assumes rq: "rq_inv (sd_rq s)" and lqs: "length (sd_lqs s) = unat n" "\<forall>lq \<in> set (sd_lqs s). lq_inv lq"
    and n: "sd_n_workers s = n" and o: "hal_owns h0 (sched_blocks_early s + P) h"
  shows "(\<exists>s' h'. sched_init_queues n s h = Some (0, s', h') \<and> sched_inv s' \<and> sd_rq s' = sd_rq s
            \<and> evq_pending (sd_evq s') = {#} \<and> mpmc_contents (sd_overflow s') = []
            \<and> sd_lqs s' = sd_lqs s \<and> sd_n_workers s' = n \<and> sd_next_seq s' = sd_next_seq s
            \<and> hal_owns h0 (sched_blocks s' + P) h')
       \<or> (\<exists>s' h'. sched_init_queues n s h = Some (-1, s', h') \<and> hal_owns h0 P h')"
proof -
  have q4: "length (rq_queues (sd_rq s)) = 4" using rq by (simp add: rq_inv_def)
  obtain c evq h1 where e: "gmk_evq_init (sd_evq s) 65536 h = (c, evq, h1)" using prod_cases3 by blast
  let ?s1 = "s\<lparr>sd_evq := evq\<rparr>"
  have early: "sched_blocks_early (s\<lparr>sd_evq := a, sd_overflow := b\<rparr>) = sched_blocks_early s"
    "sched_blocks_early (s\<lparr>sd_evq := a\<rparr>) = sched_blocks_early s" for a b
    by (simp_all add: sched_blocks_early_def)
  show ?thesis
  proof (rule evq_init_cases [OF e o])
    assume f: "c = -1" "hal_owns h0 (sched_blocks_early s + P) h1"
    show ?thesis
      using sched_fail_lqs [of ?s1 "unat n" h0 P h1] q4 lqs(1) f e early
      by (auto simp: sched_init_queues_def)
  next
    assume ok: "c = 0" "evq_inv evq" "evq_pending evq = {#}"
      "hal_owns h0 (add_mset (evq_ptr evq) (sched_blocks_early s + P)) h1"
    obtain c' ov h2 where r: "gmk_ring_mpmc_init (sd_overflow s) zero_task 4096 48 h1 = (c', ov, h2)"
      using prod_cases3 by blast
    let ?s2 = "s\<lparr>sd_evq := evq, sd_overflow := ov\<rparr>"
    show ?thesis
    proof (rule mpmc_init_cases [OF r ok(4)])
      assume k: "c' = 0" "mpmc_inv ov" "mpmc_contents ov = []"
        "hal_owns h0 (add_mset (mp_ptr ov) (add_mset (evq_ptr evq) (sched_blocks_early s + P))) h2"
      have "sched_init_queues n s h = Some (0, ?s2, h2)"
        using e r ok(1) k(1) by (simp add: sched_init_queues_def)
      moreover have "sched_blocks ?s2 + P =
          add_mset (mp_ptr ov) (add_mset (evq_ptr evq) (sched_blocks_early s + P))"
        by (simp add: sched_blocks_def sched_blocks_early_def)
      then have "hal_owns h0 (sched_blocks ?s2 + P) h2" using k(4) by (simp only:)
      moreover have "sched_inv ?s2" using ok(2) rq lqs n k(2) by (simp add: sched_inv_def)
      ultimately show ?thesis using ok(3) k(3) n by (intro disjI1 exI [of _ ?s2] exI [of _ h2]) simp
    next
      assume f: "c' = -1" "hal_owns h0 (add_mset (evq_ptr evq) (sched_blocks_early s + P)) h2"
      obtain evq' h3 where d: "gmk_evq_destroy evq h2 = (evq', h3)" by fastforce
      have "hal_owns h0 (sched_blocks_early s + P) h3" using hal_owns_evq_destroy [OF f(2) d] by simp
      then have "hal_owns h0 (sched_blocks_early (?s2\<lparr>sd_evq := evq'\<rparr>) + P) h3"
        by (simp add: sched_blocks_early_def)
      from sched_fail_lqs [OF _ _ this, of "unat n"] q4 lqs(1)
      obtain lqs' h4 s' h5 where "lqs_destroy [0..<unat n] (sd_lqs s) h3 = Some (lqs', h4)"
        "sched_fail (?s2\<lparr>sd_evq := evq', sd_lqs := lqs'\<rparr>) h4 = Some (-1, s', h5)" "hal_owns h0 P h5"
        by auto
      moreover from this have "sched_init_queues n s h = Some (-1, s', h5)"
        using f(1) e r ok(1) d by (simp add: sched_init_queues_def)
      ultimately show ?thesis by blast
    qed simp
  qed simp
qed

lemma sched_init_cases:
  assumes o: "hal_owns h0 P h" and n: "n \<noteq> 0" "n \<le> 32"
  obtains (ok) s' h' where "gmk_sched_init s n h = Some (0, s', h')" "sched_inv s'"
      "rq_lists (sd_rq s') = replicate 4 []" "evq_pending (sd_evq s') = {#}"
      "mpmc_contents (sd_overflow s') = []" "sd_n_workers s' = n" "sd_next_seq s' = 0"
      "\<And>lq. lq \<in> set (sd_lqs s') \<Longrightarrow> lq_tasks lq = []"
      "hal_owns h0 (sched_blocks s' + P) h'"
    | (fail) s' h' where "gmk_sched_init s n h = Some (-1, s', h')" "hal_owns h0 P h'"
proof (rule rq_init_cases [OF _ o, of 4096])
  fix rq h1 assume "gmk_rq_init 4096 h = Some (-1, rq, h1)" "hal_owns h0 P h1"
  then show ?thesis using n
    by (intro that(2) [of "zero_sched\<lparr>sd_n_workers := n, sd_next_seq := 0, sd_rq := rq\<rparr>" h1])
      (auto simp: gmk_sched_init_def)
next
  fix rq h1 assume r: "gmk_rq_init 4096 h = Some (0, rq, h1)" "rq_inv rq"
    "rq_lists rq = replicate 4 []" "hal_owns h0 (mset (rq_ptrs rq) + P) h1"
  have q4: "length (rq_queues rq) = 4" using r(2) by (simp add: rq_inv_def)
  obtain p h2 where a: "gmk_hal_calloc (ucast n) 192 h1 = (p, h2)" by fastforce
  note o2 = hal_owns_calloc [OF r(4) a]
  let ?s2 = "zero_sched\<lparr>sd_n_workers := n, sd_next_seq := 0, sd_rq := rq, sd_lqs_ptr := p\<rparr>"
  show ?thesis
  proof (cases "p = 0")
    case True
    then obtain rq' h3 where "gmk_rq_destroy rq h2 = Some (rq', h3)" "hal_owns h0 P h3"
      using rq_destroy_frees [OF q4, of h0 P h2] o2 by auto
    then show ?thesis using n(1) leD [OF n(2)] r a True
      by (intro that(2) [of "?s2\<lparr>sd_rq := rq'\<rparr>" h3]) (simp_all add: gmk_sched_init_def)
  next
    case False
    let ?lqs0 = "replicate (unat n) zero_lq"
    have step: "gmk_sched_init s n h =
        do { (c', lqs, h3) \<leftarrow> lqs_init [0..<unat n] ?lqs0 h2;
             if c' \<noteq> 0 then sched_fail (?s2\<lparr>sd_lqs := lqs\<rparr>) h3
             else sched_init_queues n (?s2\<lparr>sd_lqs := lqs\<rparr>) h3 }"
      using n(1) leD [OF n(2)] r(1) a False by (simp add: gmk_sched_init_def Let_def)
    have "(\<exists>lqs h3. lqs_init [0..<unat n] ?lqs0 h2 = Some (0, lqs, h3) \<and> length lqs = unat n
            \<and> (\<forall>lq \<in> set lqs. lq_inv lq \<and> lq_tasks lq = [])
            \<and> hal_owns h0 (mset (lq_ptrs lqs) + add_mset p (mset (rq_ptrs rq) + P)) h3)
       \<or> (\<exists>lqs h3. lqs_init [0..<unat n] ?lqs0 h2 = Some (-1, lqs, h3)
            \<and> hal_owns h0 (add_mset p (mset (rq_ptrs rq) + P)) h3)"
      by (rule lqs_init_cases) (use o2 False in simp_all)
    then show ?thesis
    proof (elim disjE exE conjE)
      fix lqs h3 assume l: "lqs_init [0..<unat n] ?lqs0 h2 = Some (0, lqs, h3)" "length lqs = unat n"
        "\<forall>lq \<in> set lqs. lq_inv lq \<and> lq_tasks lq = []"
        "hal_owns h0 (mset (lq_ptrs lqs) + add_mset p (mset (rq_ptrs rq) + P)) h3"
      have "hal_owns h0 (sched_blocks_early (?s2\<lparr>sd_lqs := lqs\<rparr>) + P) h3"
        using l(4) by (simp add: sched_blocks_early_def ac_simps)
      with sched_init_queues_cases [of "?s2\<lparr>sd_lqs := lqs\<rparr>" n h0 P h3] l r step show ?thesis
        by (auto intro: that)
    next
      fix lqs h3 assume "lqs_init [0..<unat n] ?lqs0 h2 = Some (-1, lqs, h3)"
        "hal_owns h0 (add_mset p (mset (rq_ptrs rq) + P)) h3"
      with sched_fail_frees [of "?s2\<lparr>sd_lqs := lqs\<rparr>" h0 P h3] q4 step show ?thesis
        by (auto intro: that(2))
    qed
  qed
qed simp

lemma sched_destroy_frees:
  assumes inv: "sched_inv s" and o: "hal_owns h0 (sched_blocks s + P) h"
  shows "\<exists>s' h'. gmk_sched_destroy s h = Some (s', h') \<and> hal_owns h0 P h'"
proof -
  have q4: "length (rq_queues (sd_rq s)) = 4" and n: "unat (sd_n_workers s) = length (sd_lqs s)"
    using inv by (simp_all add: sched_inv_def rq_inv_def)
  let ?P1 = "add_mset (evq_ptr (sd_evq s)) (add_mset (mp_ptr (sd_overflow s)) P)"
  have p: "sd_lqs_ptr s \<noteq> 0" using o by (auto simp: hal_owns_def sched_blocks_def)
  obtain rq h1 where r: "gmk_rq_destroy (sd_rq s) h = Some (rq, h1)"
    "hal_owns h0 (mset (lq_ptrs (sd_lqs s)) + add_mset (sd_lqs_ptr s) ?P1) h1"
    using rq_destroy_frees [OF q4, of h0 "mset (lq_ptrs (sd_lqs s)) + add_mset (sd_lqs_ptr s) ?P1" h] o
    by (auto simp: sched_blocks_def ac_simps)
  obtain lqs h2 where l: "lqs_destroy [0..<unat (sd_n_workers s)] (sd_lqs s) h1 = Some (lqs, h2)"
    "hal_owns h0 (add_mset (sd_lqs_ptr s) ?P1) h2"
    using hal_owns_lqs_destroy_all [OF r(2) n] by auto
  obtain evq h3 where e: "gmk_evq_destroy (sd_evq s) (gmk_hal_free (sd_lqs_ptr s) h2) = (evq, h3)"
    by fastforce
  obtain ov h4 where v: "gmk_ring_mpmc_destroy (sd_overflow s) h3 = (ov, h4)" by fastforce
  have "hal_owns h0 P h4"
    using hal_owns_mpmc_destroy [OF _ v] hal_owns_evq_destroy [OF _ e] hal_owns_free [OF l(2)] by blast
  then show ?thesis using r(1) l(1) e v p by (auto simp: gmk_sched_destroy_def)
qed


section \<open>Enqueue and yield: where a task goes\<close>

text \<open>A C \<open>int\<close> is below \<open>2 ^ 31\<close>, so its conversion to \<open>uint32_t\<close> is exact when it is not
  negative.\<close>

lemma worker_in_range_iff:
  assumes "w < 2 ^ 31"
  shows "worker_in_range s w \<longleftrightarrow> 0 \<le> w \<and> nat w < unat (sd_n_workers s)"
proof (cases "0 \<le> w")
  case True
  then have "(of_int w :: u32) = of_nat (nat w)" by (simp add: of_nat_nat)
  moreover have "nat w < 2 ^ 32" using assms by (simp add: nat_less_iff)
  ultimately have "unat (of_int w :: u32) = nat w" by (simp add: unat_of_nat_lt)
  then show ?thesis by (simp add: worker_in_range_def word_less_nat_alt)
qed (simp add: worker_in_range_def)

text \<open>All tasks that wait to be executed.\<close>

definition sched_ready :: "gmk_sched \<Rightarrow> gmk_task multiset" where
  "sched_ready s = (\<Sum>lq \<leftarrow> sd_lqs s. mset (lq_tasks lq)) + (\<Sum>l \<leftarrow> rq_lists (sd_rq s). mset l)
     + mset (mpmc_contents (sd_overflow s))"

lemma sum_list_update_snoc:
  assumes "i < length xs" "mset (f y) = add_mset t (mset (f (xs ! i)))"
  shows "(\<Sum>x \<leftarrow> xs[i := y]. mset (f x)) = add_mset t (\<Sum>x \<leftarrow> xs. mset (f x))"
  using assms by (induction xs arbitrary: i) (auto split: nat.splits)

lemma sum_list_mset_empty: "\<forall>x \<in> set xs. f x = [] \<Longrightarrow> (\<Sum>x \<leftarrow> xs. mset (f x)) = {#}"
  by (induction xs) auto

lemma sched_inv_lq:
  assumes "sched_inv s" "i < unat (sd_n_workers s)"
  shows "lq_inv (sd_lqs s ! i)" "i < length (sd_lqs s)"
  using assms by (simp_all add: sched_inv_def)

lemma sched_inv_update_lq:
  assumes "sched_inv s" "lq_inv lq"
  shows "sched_inv (s\<lparr>sd_lqs := (sd_lqs s)[i := lq]\<rparr>)"
  using assms set_update_subset_insert [of "sd_lqs s" i lq] by (auto simp: sched_inv_def)

lemma sched_inv_update [simp]:
  "sched_inv (s\<lparr>sd_next_seq := n\<rparr>) = sched_inv s"
  "sched_inv s \<Longrightarrow> rq_inv rq \<Longrightarrow> sched_inv (s\<lparr>sd_rq := rq\<rparr>)"
  "sched_inv s \<Longrightarrow> mpmc_inv ov \<Longrightarrow> sched_inv (s\<lparr>sd_overflow := ov\<rparr>)"
  "sched_inv s \<Longrightarrow> evq_inv ev \<Longrightarrow> sched_inv (s\<lparr>sd_evq := ev\<rparr>)"
  by (simp_all add: sched_inv_def)

text \<open>The outcomes of an enqueue: the worker's local queue below its watermark, else the ready
  queue of the task's priority, else a refusal that leaves all queues as they were.\<close>

definition goes_local :: "gmk_sched \<Rightarrow> int \<Rightarrow> bool" where
  "goes_local s w \<longleftrightarrow> 0 \<le> w \<and> nat w < unat (sd_n_workers s)
     \<and> length (lq_tasks (sd_lqs s ! nat w)) < unat (lq_yield_watermark (sd_lqs s ! nat w))"

lemma enqueue_cases:
  fixes t defines "t1 s \<equiv> t\<lparr>tk_seq := sd_next_seq s\<rparr>"
  assumes inv: "sched_inv s" and w: "w < 2 ^ 31"
  obtains (local) lq' where "goes_local s w"
      "gmk_enqueue s t w = Some (0, s\<lparr>sd_next_seq := sd_next_seq s + 1,
         sd_lqs := (sd_lqs s)[nat w := lq']\<rparr>, t1 s)"
      "lq_inv lq'" "lq_tasks lq' = lq_tasks (sd_lqs s ! nat w) @ [t1 s]"
    | (ready) rq' where "\<not> goes_local s w"
      "gmk_enqueue s t w = Some (0, s\<lparr>sd_next_seq := sd_next_seq s + 1, sd_rq := rq'\<rparr>, t1 s)"
      "rq_inv rq'" "rq_lists rq' =
         (rq_lists (sd_rq s))[task_prio t := rq_lists (sd_rq s) ! task_prio t @ [t1 s]]"
      "length (rq_lists (sd_rq s) ! task_prio t) < rq_caps (sd_rq s) ! task_prio t"
    | (full) "\<not> goes_local s w"
      "gmk_enqueue s t w = Some (-1, s\<lparr>sd_next_seq := sd_next_seq s + 1\<rparr>, t1 s)"
      "length (rq_lists (sd_rq s) ! task_prio t) = rq_caps (sd_rq s) ! task_prio t"
proof -
  let ?s1 = "s\<lparr>sd_next_seq := sd_next_seq s + 1\<rparr>"
  have rq: "rq_inv (sd_rq s)" using inv by (simp add: sched_inv_def)
  have rng: "worker_in_range ?s1 w \<longleftrightarrow> 0 \<le> w \<and> nat w < unat (sd_n_workers s)"
    using worker_in_range_iff [OF w, of ?s1] by simp
  have prio: "task_prio (t1 s) = task_prio t" by (simp add: t1_def)
  note out = that
  have fall: ?thesis if nl: "\<not> goes_local s w" and
    e: "gmk_enqueue s t w = do { (c, rq) \<leftarrow> gmk_rq_push (sd_rq s) (t1 s); Some (c, ?s1\<lparr>sd_rq := rq\<rparr>, t1 s) }"
  proof (rule rq_push_cases [OF rq, of "t1 s"])
    fix rq' assume "gmk_rq_push (sd_rq s) (t1 s) = Some (0, rq')" "rq_inv rq'"
      "rq_lists rq' = (rq_lists (sd_rq s))[task_prio (t1 s) := rq_lists (sd_rq s) ! task_prio (t1 s) @ [t1 s]]"
      "length (rq_lists (sd_rq s) ! task_prio (t1 s)) < rq_caps (sd_rq s) ! task_prio (t1 s)"
    then show ?thesis using nl e prio by (intro out(2) [of rq']) simp_all
  next
    assume "gmk_rq_push (sd_rq s) (t1 s) = Some (- 1, sd_rq s)"
      "length (rq_lists (sd_rq s) ! task_prio (t1 s)) = rq_caps (sd_rq s) ! task_prio (t1 s)"
    then show ?thesis using nl e prio by (intro out(3)) simp_all
  qed
  show ?thesis
  proof (cases "worker_in_range ?s1 w")
    case False
    then show ?thesis using rng
      by (intro fall) (auto simp: goes_local_def gmk_enqueue_def Let_def t1_def)
  next
    case True
    then have w': "0 \<le> w" "nat w < unat (sd_n_workers s)" using rng by auto
    note lq = sched_inv_lq [OF inv w'(2)]
    show ?thesis
    proof (rule lq_push_cases [OF lq(1), of "t1 s"])
      fix lq' assume "gmk_lq_push (sd_lqs s ! nat w) (t1 s) = Some (0, lq')" "lq_inv lq'"
        "lq_tasks lq' = lq_tasks (sd_lqs s ! nat w) @ [t1 s]"
        "length (lq_tasks (sd_lqs s ! nat w)) < unat (lq_yield_watermark (sd_lqs s ! nat w))"
      then show ?thesis using True w' lq(2)
        by (intro that(1) [of lq']) (simp_all add: goes_local_def gmk_enqueue_def Let_def t1_def exec_simps)
    next
      assume "gmk_lq_push (sd_lqs s ! nat w) (t1 s) = Some (- 1, sd_lqs s ! nat w)"
        "unat (lq_yield_watermark (sd_lqs s ! nat w)) \<le> length (lq_tasks (sd_lqs s ! nat w))"
      moreover have "?s1\<lparr>sd_lqs := (sd_lqs s)[nat w := sd_lqs s ! nat w]\<rparr> = ?s1" by (cases s) simp
      ultimately show ?thesis using True w' lq(2)
        by (intro fall) (simp_all add: goes_local_def gmk_enqueue_def Let_def t1_def exec_simps)
    qed
  qed
qed

text \<open>Conservation: an accepted task is added to exactly one queue, a refused one to none.\<close>

lemma sched_ready_local:
  "i < length (sd_lqs s) \<Longrightarrow> lq_tasks lq = lq_tasks (sd_lqs s ! i) @ [t] \<Longrightarrow>
   sched_ready (s\<lparr>sd_lqs := (sd_lqs s)[i := lq]\<rparr>) = add_mset t (sched_ready s)"
  using sum_list_update_snoc [of i "sd_lqs s" lq_tasks lq t] by (simp add: sched_ready_def)

lemma sched_ready_rq:
  assumes "rq_inv (sd_rq s)" "p < 4"
    "rq_lists rq = (rq_lists (sd_rq s))[p := rq_lists (sd_rq s) ! p @ [t]]"
  shows "sched_ready (s\<lparr>sd_rq := rq\<rparr>) = add_mset t (sched_ready s)"
proof -
  have "p < length (rq_lists (sd_rq s))" using assms(1,2) by (simp add: rq_inv_def rq_lists_def)
  then show ?thesis
    using sum_list_update_snoc [of p "rq_lists (sd_rq s)" "\<lambda>l. l" "rq_lists (sd_rq s) ! p @ [t]" t] assms(3)
    by (simp add: sched_ready_def)
qed

lemma sched_ready_next_seq [simp]: "sched_ready (s\<lparr>sd_next_seq := n\<rparr>) = sched_ready s"
  by (simp add: sched_ready_def)

lemma enqueue_conserves:
  assumes inv: "sched_inv s" and w: "w < 2 ^ 31"
  obtains c s' where "gmk_enqueue s t w = Some (c, s', t\<lparr>tk_seq := sd_next_seq s\<rparr>)"
    "sched_inv s'" "c = 0 \<or> c = -1" "sd_next_seq s' = sd_next_seq s + 1"
    "sched_ready s' = (if c = 0 then add_mset (t\<lparr>tk_seq := sd_next_seq s\<rparr>) (sched_ready s)
                       else sched_ready s)"
    "sd_evq s' = sd_evq s" "sd_n_workers s' = sd_n_workers s" "sd_overflow s' = sd_overflow s"
proof (rule enqueue_cases [OF inv w, of t])
  let ?t = "t\<lparr>tk_seq := sd_next_seq s\<rparr>" and ?s1 = "s\<lparr>sd_next_seq := sd_next_seq s + 1\<rparr>"
  have inv1: "sched_inv ?s1" using inv by simp
  {
    fix lq' assume l: "goes_local s w" "lq_inv lq'" "lq_tasks lq' = lq_tasks (sd_lqs s ! nat w) @ [?t]"
      "gmk_enqueue s t w = Some (0, ?s1\<lparr>sd_lqs := (sd_lqs s)[nat w := lq']\<rparr>, ?t)"
    have "nat w < length (sd_lqs s)" using l(1) sched_inv_lq(2) [OF inv] by (simp add: goes_local_def)
    then show ?thesis
      using l sched_inv_update_lq [OF inv1 l(2), of "nat w"] sched_ready_local [of "nat w" ?s1 lq' ?t]
      by (intro that [of 0 "?s1\<lparr>sd_lqs := (sd_lqs s)[nat w := lq']\<rparr>"]) simp_all
  next
    fix rq' assume r: "rq_inv rq'" "gmk_enqueue s t w = Some (0, ?s1\<lparr>sd_rq := rq'\<rparr>, ?t)"
      "rq_lists rq' = (rq_lists (sd_rq s))[task_prio t := rq_lists (sd_rq s) ! task_prio t @ [?t]]"
    have "rq_inv (sd_rq ?s1)" using inv by (simp add: sched_inv_def)
    then show ?thesis
      using r inv1 sched_ready_rq [of ?s1 "task_prio t" rq' ?t]
      by (intro that [of 0 "?s1\<lparr>sd_rq := rq'\<rparr>"]) simp_all
  next
    assume "gmk_enqueue s t w = Some (- 1, ?s1, ?t)"
    then show ?thesis using inv1 by (intro that [of "-1" ?s1]) simp_all
  }
qed

text \<open>The outcomes of a yield: the circuit breaker, the local queue's reserve, the overflow bucket,
  or a refusal.  A yielded task keeps its sequence number.\<close>

definition yield_limit :: "u32 \<Rightarrow> u32" where
  "yield_limit max_yields = (if max_yields = 0 then GMK_DEFAULT_MAX_YIELDS else max_yields)"

definition lq_has_room :: "gmk_sched \<Rightarrow> int \<Rightarrow> bool" where
  "lq_has_room s w \<longleftrightarrow> 0 \<le> w \<and> nat w < unat (sd_n_workers s)
     \<and> length (lq_tasks (sd_lqs s ! nat w)) < lq_capacity (sd_lqs s ! nat w)"

lemma yield_cases:
  fixes t defines "t1 \<equiv> t\<lparr>tk_yield_count := tk_yield_count t + 1\<rparr>"
  assumes inv: "sched_inv s" and w: "w < 2 ^ 31"
  obtains (limit) "yield_limit m < ucast (tk_yield_count t1)" "gmk_yield s t w m = Some (-10, s, t1)"
    | (local) lq' where "ucast (tk_yield_count t1) \<le> yield_limit m" "lq_has_room s w"
      "gmk_yield s t w m = Some (0, s\<lparr>sd_lqs := (sd_lqs s)[nat w := lq']\<rparr>, t1)"
      "lq_inv lq'" "lq_tasks lq' = lq_tasks (sd_lqs s ! nat w) @ [t1]"
    | (overflow) ov where "ucast (tk_yield_count t1) \<le> yield_limit m" "\<not> lq_has_room s w"
      "gmk_yield s t w m = Some (0, s\<lparr>sd_overflow := ov\<rparr>, t1)"
      "mpmc_inv ov" "mpmc_contents ov = mpmc_contents (sd_overflow s) @ [t1]"
      "length (mpmc_contents (sd_overflow s)) < mpmc_capacity (sd_overflow s)"
    | (full) "ucast (tk_yield_count t1) \<le> yield_limit m" "\<not> lq_has_room s w"
      "gmk_yield s t w m = Some (-9, s, t1)"
      "length (mpmc_contents (sd_overflow s)) = mpmc_capacity (sd_overflow s)"
proof (cases "yield_limit m < ucast (tk_yield_count t1)")
  case True
  then show ?thesis by (intro that(1)) (simp_all add: gmk_yield_def Let_def t1_def yield_limit_def)
next
  case ok: False
  note out = that
  have le: "ucast (tk_yield_count t1) \<le> yield_limit m" using ok by simp
  have ov: "mpmc_inv (sd_overflow s)" using inv by (simp add: sched_inv_def)
  have fall: ?thesis if nr: "\<not> lq_has_room s w" and e: "gmk_yield s t w m = do { (c, ov) \<leftarrow> gmk_ring_mpmc_push (sd_overflow s) t1;
      Some (if c = 0 then 0 else -9, s\<lparr>sd_overflow := ov\<rparr>, t1) }"
  proof (rule mpmc.push_cases [OF ov, of t1])
    fix q' assume "gmk_ring_mpmc_push (sd_overflow s) t1 = Some (0, q')" "mpmc_inv q'"
      "mpmc_contents q' = mpmc_contents (sd_overflow s) @ [t1]"
      "length (mpmc_contents (sd_overflow s)) < mpmc_capacity (sd_overflow s)"
    then show ?thesis using e le nr by (intro out(3) [of q']) simp_all
  next
    assume "gmk_ring_mpmc_push (sd_overflow s) t1 = Some (- 1, sd_overflow s)"
      "length (mpmc_contents (sd_overflow s)) = mpmc_capacity (sd_overflow s)"
    then show ?thesis using e le nr by (intro out(4)) simp_all
  qed
  show ?thesis
  proof (cases "worker_in_range s w")
    case False
    then have "\<not> lq_has_room s w" using worker_in_range_iff [OF w, of s] by (auto simp: lq_has_room_def)
    then show ?thesis using ok False
      by (intro fall) (simp_all add: gmk_yield_def Let_def t1_def yield_limit_def)
  next
    case True
    then have w': "0 \<le> w" "nat w < unat (sd_n_workers s)" using worker_in_range_iff [OF w] by auto
    note lq = sched_inv_lq [OF inv w'(2)]
    show ?thesis
    proof (rule lqy.push_cases [OF lq(1), of t1])
      fix lq' assume "gmk_lq_push_yield (sd_lqs s ! nat w) t1 = Some (0, lq')" "lq_inv lq'"
        "lq_tasks lq' = lq_tasks (sd_lqs s ! nat w) @ [t1]"
        "length (lq_tasks (sd_lqs s ! nat w)) < lq_capacity (sd_lqs s ! nat w)"
      then show ?thesis using True w' lq(2) ok
        by (intro out(2) [of lq'])
          (simp_all add: lq_has_room_def gmk_yield_def Let_def t1_def yield_limit_def exec_simps not_less)
    next
      assume "gmk_lq_push_yield (sd_lqs s ! nat w) t1 = Some (- 1, sd_lqs s ! nat w)"
        "length (lq_tasks (sd_lqs s ! nat w)) = lq_capacity (sd_lqs s ! nat w)"
      then show ?thesis using True w' lq(2) ok
        by (intro fall) (simp_all add: lq_has_room_def gmk_yield_def Let_def t1_def yield_limit_def exec_simps)
    qed
  qed
qed

text \<open>The outcomes as conditions on the state before the call.\<close>

lemma enqueue_outcome:
  fixes t defines "t1 s \<equiv> t\<lparr>tk_seq := sd_next_seq s\<rparr>"
  assumes inv: "sched_inv s" and w: "w < 2 ^ 31"
  shows "\<exists>c s'. gmk_enqueue s t w = Some (c, s', t1 s)
    \<and> sched_inv s' \<and> sd_next_seq s' = sd_next_seq s + 1
    \<and> (if goes_local s w
       then c = 0 \<and> map lq_tasks (sd_lqs s') = (map lq_tasks (sd_lqs s))
              [nat w := map lq_tasks (sd_lqs s) ! nat w @ [t1 s]] \<and> sd_rq s' = sd_rq s
       else sd_lqs s' = sd_lqs s \<and>
         (if length (rq_lists (sd_rq s) ! task_prio t) < rq_caps (sd_rq s) ! task_prio t
          then c = 0 \<and> rq_lists (sd_rq s') =
                 (rq_lists (sd_rq s))[task_prio t := rq_lists (sd_rq s) ! task_prio t @ [t1 s]]
          else c = -1 \<and> sd_rq s' = sd_rq s))
    \<and> sd_evq s' = sd_evq s \<and> sd_overflow s' = sd_overflow s"
proof (rule enqueue_cases [OF inv w, of t])
  let ?s1 = "s\<lparr>sd_next_seq := sd_next_seq s + 1\<rparr>"
  have inv1: "sched_inv ?s1" using inv by simp
  {
    fix lq' assume l: "goes_local s w" "lq_inv lq'"
      "lq_tasks lq' = lq_tasks (sd_lqs s ! nat w) @ [t\<lparr>tk_seq := sd_next_seq s\<rparr>]"
      "gmk_enqueue s t w = Some (0, ?s1\<lparr>sd_lqs := (sd_lqs s)[nat w := lq']\<rparr>, t\<lparr>tk_seq := sd_next_seq s\<rparr>)"
    have "nat w < length (sd_lqs s)" using l(1) sched_inv_lq(2) [OF inv] by (simp add: goes_local_def)
    then show ?thesis using l sched_inv_update_lq [OF inv1 l(2), of "nat w"]
      by (simp add: t1_def map_update)
  next
    fix rq' assume r: "\<not> goes_local s w" "rq_inv rq'"
      "gmk_enqueue s t w = Some (0, ?s1\<lparr>sd_rq := rq'\<rparr>, t\<lparr>tk_seq := sd_next_seq s\<rparr>)"
      "rq_lists rq' = (rq_lists (sd_rq s))[task_prio t :=
         rq_lists (sd_rq s) ! task_prio t @ [t\<lparr>tk_seq := sd_next_seq s\<rparr>]]"
      "length (rq_lists (sd_rq s) ! task_prio t) < rq_caps (sd_rq s) ! task_prio t"
    then show ?thesis using inv1 by (simp add: t1_def)
  next
    assume "\<not> goes_local s w" "gmk_enqueue s t w = Some (- 1, ?s1, t\<lparr>tk_seq := sd_next_seq s\<rparr>)"
      "length (rq_lists (sd_rq s) ! task_prio t) = rq_caps (sd_rq s) ! task_prio t"
    then show ?thesis using inv1 by (simp add: t1_def)
  }
qed

lemma yield_outcome:
  fixes t defines "t1 \<equiv> t\<lparr>tk_yield_count := tk_yield_count t + 1\<rparr>"
  assumes inv: "sched_inv s" and w: "w < 2 ^ 31"
  shows "\<exists>c s'. gmk_yield s t w m = Some (c, s', t1) \<and> sched_inv s' \<and> sd_rq s' = sd_rq s
    \<and> (if yield_limit m < ucast (tk_yield_count t1) then c = -10 \<and> s' = s
       else if lq_has_room s w
       then c = 0 \<and> map lq_tasks (sd_lqs s') = (map lq_tasks (sd_lqs s))
              [nat w := map lq_tasks (sd_lqs s) ! nat w @ [t1]] \<and> sd_overflow s' = sd_overflow s
       else if length (mpmc_contents (sd_overflow s)) < mpmc_capacity (sd_overflow s)
       then c = 0 \<and> mpmc_contents (sd_overflow s') = mpmc_contents (sd_overflow s) @ [t1]
            \<and> sd_lqs s' = sd_lqs s
       else c = -9 \<and> s' = s)"
proof (rule yield_cases [OF inv w, where t = t and m = m, folded t1_def])
  {
    assume "yield_limit m < ucast (tk_yield_count t1)" "gmk_yield s t w m = Some (- 10, s, t1)"
    then show ?thesis using inv by simp
  next
    fix lq' assume l: "ucast (tk_yield_count t1) \<le> yield_limit m" "lq_has_room s w"
      "gmk_yield s t w m = Some (0, s\<lparr>sd_lqs := (sd_lqs s)[nat w := lq']\<rparr>, t1)" "lq_inv lq'"
      "lq_tasks lq' = lq_tasks (sd_lqs s ! nat w) @ [t1]"
    have "nat w < length (sd_lqs s)" using l(2) sched_inv_lq(2) [OF inv] by (simp add: lq_has_room_def)
    then show ?thesis using l leD [OF l(1)] sched_inv_update_lq [OF inv l(4), of "nat w"]
      by (simp add: map_update)
  next
    fix ov assume o: "ucast (tk_yield_count t1) \<le> yield_limit m" "\<not> lq_has_room s w"
      "gmk_yield s t w m = Some (0, s\<lparr>sd_overflow := ov\<rparr>, t1)" "mpmc_inv ov"
      "mpmc_contents ov = mpmc_contents (sd_overflow s) @ [t1]"
      "length (mpmc_contents (sd_overflow s)) < mpmc_capacity (sd_overflow s)"
    then show ?thesis using leD [OF o(1)] inv by simp
  next
    assume f: "ucast (tk_yield_count t1) \<le> yield_limit m" "\<not> lq_has_room s w"
      "gmk_yield s t w m = Some (- 9, s, t1)"
      "length (mpmc_contents (sd_overflow s)) = mpmc_capacity (sd_overflow s)"
    then show ?thesis using leD [OF f(1)] inv by simp
  }
qed

lemma sched_lifecycle:
  assumes "n \<noteq> 0" "n \<le> 32"
  shows "(\<exists>s' h'. gmk_sched_init s n h = Some (0, s', h') \<and> sched_inv s' \<and> sd_n_workers s' = n
            \<and> sched_ready s' = {#} \<and> evq_pending (sd_evq s') = {#}
            \<and> hal_blocks h' = sched_blocks s' + hal_blocks h
            \<and> (\<exists>s'' h''. gmk_sched_destroy s' h' = Some (s'', h'') \<and> hal_blocks h'' = hal_blocks h))
       \<or> (\<exists>s' h'. gmk_sched_init s n h = Some (-1, s', h') \<and> hal_blocks h' = hal_blocks h)"
proof (rule sched_init_cases [OF hal_owns_refl assms, of s h])
  fix s' h' assume i: "gmk_sched_init s n h = Some (0, s', h')" "sched_inv s'" "sd_n_workers s' = n"
    "rq_lists (sd_rq s') = replicate 4 []" "evq_pending (sd_evq s') = {#}"
    "mpmc_contents (sd_overflow s') = []" "\<And>lq. lq \<in> set (sd_lqs s') \<Longrightarrow> lq_tasks lq = []"
    "hal_owns h (sched_blocks s' + {#}) h'"
  have "(\<Sum>lq \<leftarrow> sd_lqs s'. mset (lq_tasks lq)) = {#}" using i(7) by (intro sum_list_mset_empty) auto
  then have "sched_ready s' = {#}" using i(4,6) by (simp add: sched_ready_def numeral_eq_Suc)
  moreover have "\<exists>s'' h''. gmk_sched_destroy s' h' = Some (s'', h'') \<and> hal_blocks h'' = hal_blocks h"
    using sched_destroy_frees [OF i(2,8)] by (auto simp: hal_owns_empty)
  ultimately show ?thesis using i by (auto simp: hal_owns_def)
qed (auto simp: hal_owns_empty)

end
