(* ===== verification/Alloc_Slab.thy ===== *)
theory Alloc_Slab
  imports Ggmk_Platform
begin

text \<open>
  The slab allocator of \<open>src/alloc_slab.c\<close>: objects of one size, with the indices of the free ones
  linked through an array of \<open>int32_t\<close> that ends with -1.  The memory region that holds the
  objects is represented by its address range; the free-list array, which lives behind the
  objects, is the list \<open>sl_free_list\<close>.
\<close>

section \<open>State and operations\<close>

record gmk_slab =
  sl_base :: addr
  sl_total_size :: u64
  sl_obj_size :: u32
  sl_capacity :: u32
  sl_alloc_count :: u32
  sl_high_water :: u32
  sl_free_list_at :: addr
  sl_free_list :: "i32 list"
  sl_free_head :: i32

definition zero_slab :: gmk_slab where
  "zero_slab = \<lparr>sl_base = 0, sl_total_size = 0, sl_obj_size = 0, sl_capacity = 0, sl_alloc_count = 0,
     sl_high_water = 0, sl_free_list_at = 0, sl_free_list = [], sl_free_head = 0\<rparr>"

text \<open>\<open>(x + 7u) & ~7u\<close>\<close>

definition align8 :: "u32 \<Rightarrow> u32" where
  "align8 x = (x + 7) AND NOT 7"

text \<open>The array after the linking loop: every slot points to the next one, the last one to -1.\<close>

definition slab_links :: "u32 \<Rightarrow> i32 list" where
  "slab_links cap =
     map (\<lambda>i. if i < unat (cap - 1) then of_nat (i + 1) else -1) [0..<unat cap]"

definition gmk_slab_init :: "gmk_slab \<Rightarrow> addr \<Rightarrow> u64 \<Rightarrow> u32 \<Rightarrow> rc \<times> gmk_slab" where
  "gmk_slab_init s mem mem_size obj_size =
     (if mem = 0 \<or> obj_size = 0 then (-1, s)
      else let osz = align8 obj_size;
               cap = (ucast (mem_size div (ucast osz + 4)) :: u32)
           in if cap = 0 then (-1, s)
              else (0, s\<lparr>sl_base := mem, sl_total_size := mem_size, sl_obj_size := osz,
                         sl_capacity := cap, sl_high_water := 0, sl_alloc_count := 0,
                         sl_free_list_at := mem + ucast cap * ucast osz,
                         sl_free_head := 0, sl_free_list := slab_links cap\<rparr>))"

definition gmk_slab_destroy :: "gmk_slab \<Rightarrow> gmk_slab" where
  "gmk_slab_destroy s = s\<lparr>sl_base := 0\<rparr>"

definition slab_addr :: "gmk_slab \<Rightarrow> u32 \<Rightarrow> addr" where
  "slab_addr s idx = sl_base s + ucast idx * ucast (sl_obj_size s)"

definition gmk_slab_alloc :: "gmk_slab \<Rightarrow> (addr \<times> gmk_slab) exec" where
  "gmk_slab_alloc s =
     (if sint (sl_free_head s) < 0 then Some (0, s)
      else let idx = sl_free_head s
           in do { next \<leftarrow> arr_get (sl_free_list s) (unat idx);
                   let count = sl_alloc_count s + 1;
                       s' = s\<lparr>sl_free_head := next, sl_alloc_count := count,
                              sl_high_water := (if count > sl_high_water s then count
                                                else sl_high_water s)\<rparr>
                   in Some (slab_addr s idx, s') })"

text \<open>Dividing by an object size of 0 is undefined.\<close>

definition gmk_slab_free :: "gmk_slab \<Rightarrow> addr \<Rightarrow> gmk_slab exec" where
  "gmk_slab_free s ptr =
     (if ptr = 0 then Some s
      else if ptr < sl_base s then Some s
      else if sl_obj_size s = 0 then None
      else let offset = ptr - sl_base s;
               idx = (ucast (offset div ucast (sl_obj_size s)) :: u32)
           in if idx \<ge> sl_capacity s then Some s
              else do { fl \<leftarrow> arr_set (sl_free_list s) (unat idx) (sl_free_head s);
                        Some (s\<lparr>sl_free_list := fl, sl_free_head := idx,
                                sl_alloc_count := sl_alloc_count s - 1\<rparr>) })"

definition gmk_slab_used :: "gmk_slab \<Rightarrow> u32" where
  "gmk_slab_used s = sl_alloc_count s"

section \<open>The free list\<close>

fun is_chain :: "i32 list \<Rightarrow> i32 \<Rightarrow> nat list \<Rightarrow> bool" where
  "is_chain fl h [] \<longleftrightarrow> sint h < 0"
| "is_chain fl h (x # xs) \<longleftrightarrow> x < length fl \<and> h = of_nat x \<and> is_chain fl (fl ! x) xs"

text \<open>The free slots in the order in which they will be handed out.\<close>

fun chain_walk :: "nat \<Rightarrow> i32 list \<Rightarrow> i32 \<Rightarrow> nat list" where
  "chain_walk 0 fl h = []"
| "chain_walk (Suc n) fl h =
     (if sint h < 0 \<or> length fl \<le> unat h then [] else unat h # chain_walk n fl (fl ! unat h))"

lemma sint_of_nat_nonneg: "x < 2 ^ 31 \<Longrightarrow> \<not> sint (of_nat x :: i32) < 0"
  by (simp add: sint32_neg_iff unat_of_nat_lt)

lemma chain_walk_eq:
  "is_chain fl h xs \<Longrightarrow> length xs \<le> n \<Longrightarrow> length fl \<le> 2 ^ 31 \<Longrightarrow> chain_walk n fl h = xs"
proof (induction xs arbitrary: h n)
  case Nil
  then show ?case by (cases n) auto
next
  case (Cons x xs)
  then obtain m where "n = Suc m" by (cases n) auto
  moreover have "unat (of_nat x :: i32) = x" using Cons.prems by (intro unat_of_nat_lt) simp
  ultimately show ?case using Cons sint_of_nat_nonneg [of x] by simp
qed

lemma is_chain_update: "is_chain fl h xs \<Longrightarrow> i \<notin> set xs \<Longrightarrow> is_chain (fl[i := v]) h xs"
  by (induction xs arbitrary: h) auto

lemma chain_bound: "is_chain fl h xs \<Longrightarrow> set xs \<subseteq> {..<length fl}"
  by (induction xs arbitrary: h) auto

definition slab_free_slots :: "gmk_slab \<Rightarrow> nat list" where
  "slab_free_slots s = chain_walk (unat (sl_capacity s)) (sl_free_list s) (sl_free_head s)"

text \<open>Well-formedness: the region does not wrap around the address space, the free list is a chain
  without repetition, and the counter counts the slots that are not on it.\<close>

definition slab_inv :: "gmk_slab \<Rightarrow> bool" where
  "slab_inv s \<longleftrightarrow> sl_base s \<noteq> 0 \<and> sl_obj_size s \<noteq> 0 \<and> sl_capacity s \<noteq> 0
     \<and> unat (sl_capacity s) < 2 ^ 31 \<and> length (sl_free_list s) = unat (sl_capacity s)
     \<and> unat (sl_capacity s) * (unat (sl_obj_size s) + 4) \<le> unat (sl_total_size s)
     \<and> unat (sl_base s) + unat (sl_total_size s) \<le> 2 ^ 64
     \<and> is_chain (sl_free_list s) (sl_free_head s) (slab_free_slots s) \<and> distinct (slab_free_slots s)
     \<and> unat (sl_alloc_count s) + length (slab_free_slots s) = unat (sl_capacity s)
     \<and> sl_alloc_count s \<le> sl_high_water s"

lemma chain_length:
  assumes "is_chain fl h xs" "distinct xs" shows "length xs \<le> length fl"
  using chain_bound [OF assms(1)] assms(2) card_mono [of "{..<length fl}" "set xs"]
  by (simp add: distinct_card)

lemma slab_free_slots_eq:
  assumes "is_chain (sl_free_list s) (sl_free_head s) xs" "distinct xs"
    "length (sl_free_list s) = unat (sl_capacity s)" "unat (sl_capacity s) < 2 ^ 31"
  shows "slab_free_slots s = xs"
  unfolding slab_free_slots_def
  using chain_walk_eq [OF assms(1)] chain_length [OF assms(1,2)] assms(3,4) by simp


section \<open>The interface\<close>

text \<open>What the users of a slab rely on: a pool of numbered slots with fixed, distinct addresses.
  An allocation takes a free slot, a release of an allocated slot makes it free again.  \<open>frame\<close>
  is the part of the state that never changes.\<close>

locale slot_allocator =
  fixes inv :: "'s \<Rightarrow> bool"
    and free_slots :: "'s \<Rightarrow> nat set"
    and slots :: "'s \<Rightarrow> nat"
    and addr_of :: "'s \<Rightarrow> nat \<Rightarrow> addr"
    and alloc :: "'s \<Rightarrow> (addr \<times> 's) exec"
    and release :: "'s \<Rightarrow> addr \<Rightarrow> 's exec"
    and frame :: "'s \<Rightarrow> 'f"
  assumes free_bound: "inv s \<Longrightarrow> free_slots s \<subseteq> {..<slots s}"
    and addr_nonzero: "inv s \<Longrightarrow> i < slots s \<Longrightarrow> addr_of s i \<noteq> 0"
    and addr_inj: "inv s \<Longrightarrow> i < slots s \<Longrightarrow> j < slots s \<Longrightarrow> addr_of s i = addr_of s j \<Longrightarrow> i = j"
    and addr_frame: "frame s = frame s' \<Longrightarrow> addr_of s = addr_of s' \<and> slots s = slots s'"
    and alloc_some: "inv s \<Longrightarrow> free_slots s \<noteq> {} \<Longrightarrow>
      \<exists>i s'. i \<in> free_slots s \<and> alloc s = Some (addr_of s i, s') \<and> inv s'
           \<and> free_slots s' = free_slots s - {i} \<and> frame s' = frame s"
    and alloc_none: "inv s \<Longrightarrow> free_slots s = {} \<Longrightarrow> alloc s = Some (0, s)"
    and release_ok: "inv s \<Longrightarrow> i < slots s \<Longrightarrow> i \<notin> free_slots s \<Longrightarrow>
      \<exists>s'. release s (addr_of s i) = Some s' \<and> inv s'
           \<and> free_slots s' = insert i (free_slots s) \<and> frame s' = frame s"
begin

definition live :: "'s \<Rightarrow> addr set" where
  "live s = addr_of s ` ({..<slots s} - free_slots s)"

lemma alloc_cases:
  assumes "inv s"
  obtains (some) a s' where "alloc s = Some (a, s')" "a \<noteq> 0" "inv s'" "a \<notin> live s"
      "live s' = insert a (live s)" "frame s' = frame s" "card (free_slots s') < card (free_slots s)"
    | (none) "alloc s = Some (0, s)" "free_slots s = {}"
proof (cases "free_slots s = {}")
  case True
  then show ?thesis using alloc_none [OF assms] by (intro that(2))
next
  case False
  then obtain i s' where i: "i \<in> free_slots s" "alloc s = Some (addr_of s i, s')" "inv s'"
    "free_slots s' = free_slots s - {i}" "frame s' = frame s"
    using alloc_some [OF assms] by blast
  have fin: "finite (free_slots s)" using free_bound [OF assms] by (rule finite_subset) simp
  have lt: "i < slots s" using free_bound [OF assms] i(1) by auto
  have eq: "addr_of s' = addr_of s" "slots s' = slots s" using addr_frame [OF i(5)] by simp_all
  have "addr_of s i \<notin> live s" using i(1) lt addr_inj [OF assms] by (auto simp: live_def)
  moreover have "live s' = insert (addr_of s i) (live s)"
    using i(1,4) lt by (auto simp: live_def eq)
  moreover have "card (free_slots s') < card (free_slots s)"
    using i(1,4) fin by (metis card_Diff1_less)
  ultimately show ?thesis using i addr_nonzero [OF assms lt] by (intro that(1))
qed

lemma release_live:
  assumes "inv s" "a \<in> live s"
  obtains s' where "release s a = Some s'" "inv s'" "live s' = live s - {a}" "frame s' = frame s"
proof -
  obtain i where i: "i < slots s" "i \<notin> free_slots s" "a = addr_of s i"
    using assms(2) by (auto simp: live_def)
  then obtain s' where s': "release s a = Some s'" "inv s'" "free_slots s' = insert i (free_slots s)"
    "frame s' = frame s"
    using release_ok [OF assms(1) i(1,2)] by auto
  have eq: "addr_of s' = addr_of s" "slots s' = slots s" using addr_frame [OF s'(4)] by simp_all
  have "live s' = live s - {a}"
    using addr_inj [OF assms(1)] i by (auto simp: live_def eq s'(3))
  then show ?thesis using s' by (intro that)
qed

text \<open>A run of allocations: as long as slots are free it hands out distinct, non-null addresses
  that were not live.\<close>

fun alloc_many :: "nat \<Rightarrow> 's \<Rightarrow> (addr list \<times> 's) exec" where
  "alloc_many 0 s = Some ([], s)"
| "alloc_many (Suc n) s =
     do { (a, s') \<leftarrow> alloc s; (as, s'') \<leftarrow> alloc_many n s'; Some (a # as, s'') }"

lemma alloc_many_fresh:
  "inv s \<Longrightarrow> n \<le> card (free_slots s) \<Longrightarrow>
   \<exists>as s'. alloc_many n s = Some (as, s') \<and> inv s' \<and> length as = n \<and> distinct as \<and> 0 \<notin> set as
     \<and> set as \<inter> live s = {} \<and> live s' = set as \<union> live s \<and> frame s' = frame s"
proof (induction n arbitrary: s)
  case (Suc n)
  then have "free_slots s \<noteq> {}" by auto
  then obtain i s1 where i: "i \<in> free_slots s" "alloc s = Some (addr_of s i, s1)" "inv s1"
    "free_slots s1 = free_slots s - {i}" "frame s1 = frame s"
    using alloc_some [OF Suc.prems(1)] by blast
  have fin: "finite (free_slots s)" using free_bound [OF Suc.prems(1)] by (rule finite_subset) simp
  have lt: "i < slots s" using free_bound [OF Suc.prems(1)] i(1) by auto
  have eq: "addr_of s1 = addr_of s" "slots s1 = slots s" using addr_frame [OF i(5)] by simp_all
  have live1: "live s1 = insert (addr_of s i) (live s)" "addr_of s i \<notin> live s"
    using i(1,4) lt addr_inj [OF Suc.prems(1)] by (auto simp: live_def eq)
  have "n \<le> card (free_slots s1)" using Suc.prems(2) i(1,4) fin by (simp add: card_Diff_singleton)
  from Suc.IH [OF i(3) this] show ?case
    using i live1 addr_nonzero [OF Suc.prems(1) lt] by auto
qed simp

text \<open>Releasing what was just allocated restores the set of live addresses.\<close>

lemma alloc_release:
  assumes "inv s" "alloc s = Some (a, s')" "a \<noteq> 0"
  shows "\<exists>s''. release s' a = Some s'' \<and> inv s'' \<and> live s'' = live s"
proof (rule alloc_cases [OF assms(1)])
  fix b s1 assume "alloc s = Some (b, s1)" "inv s1" "live s1 = insert b (live s)" "b \<notin> live s"
  with assms(2) have "inv s'" "live s' = insert a (live s)" "a \<notin> live s" by auto
  moreover from this obtain s2 where "release s' a = Some s2" "inv s2" "live s2 = live s' - {a}"
    using release_live [of s' a] by blast
  ultimately show ?thesis by auto
qed (use assms in simp)

end

section \<open>The slab implements it\<close>

definition slab_frame :: "gmk_slab \<Rightarrow> addr \<times> u64 \<times> u32 \<times> u32" where
  "slab_frame s = (sl_base s, sl_total_size s, sl_obj_size s, sl_capacity s)"

definition slab_slot_addr :: "gmk_slab \<Rightarrow> nat \<Rightarrow> addr" where
  "slab_slot_addr s i = slab_addr s (of_nat i)"

lemma unat_slab_slot_addr:
  assumes "slab_inv s" "i < unat (sl_capacity s)"
  shows "unat (slab_slot_addr s i) = unat (sl_base s) + i * unat (sl_obj_size s)"
    "unat (sl_base s) + i * unat (sl_obj_size s) + unat (sl_obj_size s) + 4 * unat (sl_capacity s)
       \<le> unat (sl_base s) + unat (sl_total_size s)"
proof -
  let ?o = "unat (sl_obj_size s)" and ?c = "unat (sl_capacity s)"
  have inv: "?c * (?o + 4) \<le> unat (sl_total_size s)" "unat (sl_base s) + unat (sl_total_size s) \<le> 2 ^ 64"
    "0 < ?o"
    using assms(1) by (simp_all add: slab_inv_def unat_gt_0)
  have "(i + 1) * ?o \<le> ?c * ?o" using assms(2) by (intro mult_le_mono1) simp
  then show le: "unat (sl_base s) + i * ?o + ?o + 4 * ?c \<le> unat (sl_base s) + unat (sl_total_size s)"
    using inv(1) by (simp add: algebra_simps)
  have i32: "i < 2 ^ 32" using assms(2) unat32_lt [of "sl_capacity s"] by (simp del: unat32_lt)
  have ui: "unat (ucast (of_nat i :: u32) :: u64) = i"
    using i32 by (simp add: unat_ucast_up unat_of_nat_lt)
  have uo: "unat (ucast (sl_obj_size s) :: u64) = ?o" by (simp add: unat_ucast_up)
  have m: "unat (ucast (of_nat i :: u32) * ucast (sl_obj_size s) :: u64) = i * ?o"
    using le inv(2,3) by (subst unat_mult_nowrap) (simp_all add: ui uo)
  show "unat (slab_slot_addr s i) = unat (sl_base s) + i * ?o"
    unfolding slab_slot_addr_def slab_addr_def
    using le inv(2,3) by (subst unat_add_nowrap) (simp_all add: m)
qed

lemma slab_inv_chain:
  assumes "slab_inv s"
  shows "is_chain (sl_free_list s) (sl_free_head s) (slab_free_slots s)" "distinct (slab_free_slots s)"
    "length (sl_free_list s) = unat (sl_capacity s)" "unat (sl_capacity s) < 2 ^ 31"
    "set (slab_free_slots s) \<subseteq> {..<unat (sl_capacity s)}"
  using assms chain_bound [of "sl_free_list s" "sl_free_head s" "slab_free_slots s"]
  by (simp_all add: slab_inv_def)

lemma slab_alloc_some:
  assumes inv: "slab_inv s" and fs: "slab_free_slots s = i # is"
  obtains s' where "gmk_slab_alloc s = Some (slab_slot_addr s i, s')" "slab_inv s'"
    "slab_free_slots s' = is" "slab_frame s' = slab_frame s"
    "sl_alloc_count s' = sl_alloc_count s + 1"
proof -
  note c = slab_inv_chain [OF inv]
  have i: "i < unat (sl_capacity s)" "sl_free_head s = of_nat i" using c(1,3) fs by auto
  have u: "unat (sl_free_head s) = i" using i c(4) by (simp add: unat_of_nat_lt)
  have head: "\<not> sint (sl_free_head s) < 0" using sint_of_nat_nonneg [of i] i c(4) by simp
  define s' where "s' = s\<lparr>sl_free_head := sl_free_list s ! i, sl_alloc_count := sl_alloc_count s + 1,
    sl_high_water := (if sl_alloc_count s + 1 > sl_high_water s then sl_alloc_count s + 1
                      else sl_high_water s)\<rparr>"
  have alloc: "gmk_slab_alloc s = Some (slab_slot_addr s i, s')"
    using head u i c(3) by (simp add: gmk_slab_alloc_def Let_def exec_simps slab_slot_addr_def s'_def)
  have ch: "is_chain (sl_free_list s') (sl_free_head s') is" using c(1) fs by (simp add: s'_def)
  have free: "slab_free_slots s' = is"
    using slab_free_slots_eq [OF ch] c(2,3,4) fs by (simp add: s'_def)
  have cnt: "unat (sl_alloc_count s) + Suc (length is) = unat (sl_capacity s)"
    using inv fs by (simp add: slab_inv_def)
  have "unat (sl_alloc_count s + 1) = unat (sl_alloc_count s) + 1"
    using cnt c(4) by (intro unat_Suc_nowrap) simp
  then have "unat (sl_alloc_count s') + length is = unat (sl_capacity s')"
    using cnt by (simp add: s'_def)
  then have "slab_inv s'"
    using inv ch free c(2) fs unfolding slab_inv_def by (auto simp: s'_def)
  then show ?thesis using alloc free by (intro that [of s']) (simp_all add: s'_def slab_frame_def)
qed

lemma slab_free_index:
  assumes "slab_inv s" "i < unat (sl_capacity s)"
  shows "slab_slot_addr s i \<noteq> 0" "\<not> slab_slot_addr s i < sl_base s"
    "(ucast ((slab_slot_addr s i - sl_base s) div ucast (sl_obj_size s)) :: u32) = of_nat i"
proof -
  note a = unat_slab_slot_addr [OF assms]
  have b: "0 < unat (sl_base s)" "0 < unat (sl_obj_size s)"
    using assms(1) by (simp_all add: slab_inv_def unat_gt_0)
  show "slab_slot_addr s i \<noteq> 0"
  proof
    assume "slab_slot_addr s i = 0"
    then have "unat (slab_slot_addr s i) = 0" by simp
    then show False using a(1) b(1) by simp
  qed
  show nl: "\<not> slab_slot_addr s i < sl_base s" using a(1) by (simp add: word_less_nat_alt)
  have "unat (slab_slot_addr s i - sl_base s) = i * unat (sl_obj_size s)"
    using nl a(1) by (subst unat_sub) (simp_all add: not_less)
  then have "unat ((slab_slot_addr s i - sl_base s) div ucast (sl_obj_size s)) = i"
    using b(2) by (simp add: unat_div unat_ucast_up)
  then show "(ucast ((slab_slot_addr s i - sl_base s) div ucast (sl_obj_size s)) :: u32) = of_nat i"
    by (metis of_nat_unat)
qed

lemma slab_release_ok:
  assumes inv: "slab_inv s" and i: "i < unat (sl_capacity s)" "i \<notin> set (slab_free_slots s)"
  obtains s' where "gmk_slab_free s (slab_slot_addr s i) = Some s'" "slab_inv s'"
    "slab_free_slots s' = i # slab_free_slots s" "slab_frame s' = slab_frame s"
    "sl_alloc_count s' = sl_alloc_count s - 1"
proof -
  note c = slab_inv_chain [OF inv] and x = slab_free_index [OF inv i(1)]
  have u: "unat (of_nat i :: u32) = i" using i c(4) by (simp add: unat_of_nat_lt)
  have lt: "\<not> sl_capacity s \<le> of_nat i" using u i(1) by (simp add: word_le_nat_alt)
  define s' where "s' = s\<lparr>sl_free_list := (sl_free_list s)[i := sl_free_head s],
    sl_free_head := of_nat i, sl_alloc_count := sl_alloc_count s - 1\<rparr>"
  have o: "sl_obj_size s \<noteq> 0" using inv by (simp add: slab_inv_def)
  have rel: "gmk_slab_free s (slab_slot_addr s i) = Some s'"
    using x o lt u i(1) c(3) by (simp add: gmk_slab_free_def Let_def exec_simps s'_def)
  have ch: "is_chain (sl_free_list s') (sl_free_head s') (i # slab_free_slots s)"
    using is_chain_update [OF c(1) i(2)] i(1) c(3) by (simp add: s'_def)
  have dist: "distinct (i # slab_free_slots s)" using c(2) i(2) by simp
  have free: "slab_free_slots s' = i # slab_free_slots s"
    using slab_free_slots_eq [OF ch dist] c(3,4) by (simp add: s'_def)
  have "length (i # slab_free_slots s) \<le> unat (sl_capacity s)"
    using chain_length [OF ch dist] c(3) by (simp add: s'_def)
  moreover have cnt: "unat (sl_alloc_count s) + length (slab_free_slots s) = unat (sl_capacity s)"
    using inv by (simp add: slab_inv_def)
  ultimately have pos: "0 < unat (sl_alloc_count s)" by simp
  then have dec: "unat (sl_alloc_count s - 1) = unat (sl_alloc_count s) - 1"
    by (intro unat_minus_one) auto
  have "sl_alloc_count s \<le> sl_high_water s" using inv by (simp add: slab_inv_def)
  then have hw: "sl_alloc_count s - 1 \<le> sl_high_water s" using dec by (simp add: word_le_nat_alt)
  have "slab_inv s'"
    unfolding slab_inv_def free
    using inv ch dist cnt dec pos hw by (simp add: slab_inv_def s'_def del: is_chain.simps)
  then show ?thesis using rel free by (intro that [of s']) (simp_all add: s'_def slab_frame_def)
qed

interpretation slab: slot_allocator slab_inv "\<lambda>s. set (slab_free_slots s)" "\<lambda>s. unat (sl_capacity s)"
  slab_slot_addr gmk_slab_alloc gmk_slab_free slab_frame
proof unfold_locales
  fix s s' :: gmk_slab and i j
  show "slab_slot_addr s = slab_slot_addr s' \<and> unat (sl_capacity s) = unat (sl_capacity s')"
    if "slab_frame s = slab_frame s'"
    using that by (auto simp: slab_frame_def slab_slot_addr_def slab_addr_def)
  assume inv: "slab_inv s"
  show "set (slab_free_slots s) \<subseteq> {..<unat (sl_capacity s)}" using slab_inv_chain(5) [OF inv] .
  show "slab_slot_addr s i \<noteq> 0" if "i < unat (sl_capacity s)" using slab_free_index(1) [OF inv that] .
  show "i = j" if "i < unat (sl_capacity s)" "j < unat (sl_capacity s)"
    "slab_slot_addr s i = slab_slot_addr s j"
  proof -
    have "i * unat (sl_obj_size s) = j * unat (sl_obj_size s)"
      using unat_slab_slot_addr(1) [OF inv that(1)] unat_slab_slot_addr(1) [OF inv that(2)] that(3)
      by (metis add_left_imp_eq)
    then show ?thesis using inv by (simp add: slab_inv_def unat_eq_zero)
  qed
  show "\<exists>i s'. i \<in> set (slab_free_slots s) \<and> gmk_slab_alloc s = Some (slab_slot_addr s i, s')
      \<and> slab_inv s' \<and> set (slab_free_slots s') = set (slab_free_slots s) - {i}
      \<and> slab_frame s' = slab_frame s" if ne: "set (slab_free_slots s) \<noteq> {}"
  proof -
    from ne obtain i "is" where fs: "slab_free_slots s = i # is" by (cases "slab_free_slots s") auto
    then have "i \<notin> set is" using slab_inv_chain(2) [OF inv] by simp
    then show ?thesis using slab_alloc_some [OF inv fs] fs by (metis Diff_insert_absorb list.set_intros(1) list.simps(15))
  qed
  show "gmk_slab_alloc s = Some (0, s)" if "set (slab_free_slots s) = {}"
    using that slab_inv_chain(1) [OF inv] by (simp add: gmk_slab_alloc_def)
  show "\<exists>s'. gmk_slab_free s (slab_slot_addr s i) = Some s' \<and> slab_inv s'
      \<and> set (slab_free_slots s') = insert i (set (slab_free_slots s)) \<and> slab_frame s' = slab_frame s"
    if "i < unat (sl_capacity s)" "i \<notin> set (slab_free_slots s)"
    using slab_release_ok [OF inv that] by (metis list.simps(15))
qed


section \<open>Initialisation\<close>

lemma unat_align8:
  assumes "unat x + 7 < 2 ^ 32"
  shows "unat (align8 x) = (unat x + 7) div 8 * 8" "unat x \<le> unat (align8 x)"
    "unat (align8 x) < unat x + 8"
proof -
  have a: "unat (x + 7) = unat x + 7" using assms by (subst unat_add_nowrap) simp_all
  have "align8 x = (x + 7) - ((x + 7) AND 7)"
    unfolding align8_def by (rule and_not_mask_sub)
  moreover have m: "unat ((x + 7) AND 7) = (unat x + 7) mod 8"
    using unat_and_mask [of "x + 7" 3] a by simp
  moreover have "(x + 7) AND 7 \<le> x + 7" by (rule word_and_le2)
  ultimately have "unat (align8 x) = unat x + 7 - (unat x + 7) mod 8"
    using a by (simp add: unat_sub)
  then show *: "unat (align8 x) = (unat x + 7) div 8 * 8" by (simp add: minus_mod_eq_div_mult)
  show "unat x \<le> unat (align8 x)" "unat (align8 x) < unat x + 8" unfolding * by linarith+
qed

lemma slab_links_chain:
  assumes "cap \<noteq> 0" "unat cap < 2 ^ 31" "i \<le> unat cap"
  shows "is_chain (slab_links cap) (if i < unat cap then of_nat i else -1) [i..<unat cap]"
  using assms(3)
proof (induction "unat cap - i" arbitrary: i)
  case (Suc k)
  then have i: "i < unat cap" by simp
  have last: "unat (cap - 1) = unat cap - 1" using assms(1) by (rule unat_minus_one)
  have "slab_links cap ! i = (if Suc i < unat cap then of_nat (Suc i) else -1)"
    using i last by (auto simp: slab_links_def)
  then show ?case using Suc(1) [of "Suc i"] Suc(2) i by (simp add: upt_conv_Cons slab_links_def)
qed simp

lemma slab_init_cases:
  assumes init: "gmk_slab_init s mem sz obj = (c, s')"
    and fit: "unat mem + unat sz \<le> 2 ^ 64" and obj: "unat obj + 7 < 2 ^ 32"
    and small: "unat sz < 2 ^ 33"
  obtains (ok) "c = 0" "slab_inv s'" "slab_free_slots s' = [0..<unat (sl_capacity s')]"
      "sl_base s' = mem" "sl_total_size s' = sz" "sl_obj_size s' = align8 obj"
      "unat (sl_capacity s') = unat sz div (unat (align8 obj) + 4)" "sl_alloc_count s' = 0"
      "mem \<noteq> 0" "obj \<noteq> 0"
    | (fail) "c = -1" "s' = s" "mem = 0 \<or> obj = 0 \<or> unat sz < unat (align8 obj) + 4"
proof -
  define o' where "o' = align8 obj"
  define cap where "cap = (ucast (sz div (ucast o' + 4)) :: u32)"
  have o4: "unat (ucast o' + 4 :: u64) = unat o' + 4"
    using unat32_lt [of o'] by (subst unat_add_nowrap) (simp_all add: unat_ucast_up del: unat32_lt)
  have q: "unat sz div (unat o' + 4) \<le> unat sz div 4" by (rule div_le_mono2) simp_all
  have capu: "unat cap = unat sz div (unat o' + 4)"
    using q small unfolding cap_def
    by (simp add: unsigned_ucast_eq unat_div o4 take_bit_nat_eq_self)
  show ?thesis
  proof (cases "mem = 0 \<or> obj = 0 \<or> cap = 0")
    case True
    then have "c = -1" "s' = s" using init by (auto simp: gmk_slab_init_def Let_def o'_def cap_def split: if_splits)
    moreover have "cap = 0 \<Longrightarrow> unat sz < unat o' + 4" using capu by (simp add: div_eq_0_iff)
    ultimately show ?thesis using True by (intro that(2)) (auto simp: o'_def)
  next
    case False
    have s': "c = 0" "s' = s\<lparr>sl_base := mem, sl_total_size := sz, sl_obj_size := o',
        sl_capacity := cap, sl_high_water := 0, sl_alloc_count := 0,
        sl_free_list_at := mem + ucast cap * ucast o', sl_free_head := 0, sl_free_list := slab_links cap\<rparr>"
      using init False by (auto simp: gmk_slab_init_def Let_def o'_def cap_def)
    have lt: "unat cap < 2 ^ 31" using q small unfolding capu by simp
    have pos: "0 < unat cap" using False by (simp add: unat_gt_0)
    have ch: "is_chain (slab_links cap) 0 [0..<unat cap]"
      using slab_links_chain [of cap 0] False lt pos by simp
    have fs: "slab_free_slots s' = [0..<unat cap]"
      by (rule slab_free_slots_eq) (use ch lt in \<open>simp_all add: s'(2) slab_links_def\<close>)
    have "unat o' \<noteq> 0"
      using unat_align8(2) [OF obj] False by (auto simp: o'_def unat_eq_zero)
    moreover have "unat cap * (unat o' + 4) \<le> unat sz" unfolding capu by (rule div_times_less_eq_dividend)
    ultimately have "slab_inv s'"
      unfolding slab_inv_def fs using ch lt False fit
      by (auto simp: s'(2) slab_links_def)
    then show ?thesis using fs s' capu False by (intro that(1)) (simp_all add: o'_def)
  qed
qed

text \<open>The free list is a stack.\<close>

lemma slab_free_alloc:
  assumes "slab_inv s" "i < unat (sl_capacity s)" "i \<notin> set (slab_free_slots s)"
  shows "\<exists>s1 s2. gmk_slab_free s (slab_slot_addr s i) = Some s1
    \<and> gmk_slab_alloc s1 = Some (slab_slot_addr s i, s2) \<and> slab_inv s2
    \<and> slab_free_slots s2 = slab_free_slots s"
proof (rule slab_release_ok [OF assms])
  fix s1 assume s1: "gmk_slab_free s (slab_slot_addr s i) = Some s1" "slab_inv s1"
    "slab_free_slots s1 = i # slab_free_slots s" "slab_frame s1 = slab_frame s"
  obtain s2 where "gmk_slab_alloc s1 = Some (slab_slot_addr s1 i, s2)" "slab_inv s2"
    "slab_free_slots s2 = slab_free_slots s"
    by (rule slab_alloc_some [OF s1(2,3)])
  moreover have "slab_slot_addr s1 i = slab_slot_addr s i"
    using s1(4) by (simp add: slab_frame_def slab_slot_addr_def slab_addr_def)
  ultimately show ?thesis using s1(1) by auto
qed

end
