(* ===== verification/Alloc_Block.thy ===== *)
theory Alloc_Block
  imports Alloc_Slab
begin

text \<open>
  The power-of-two bin allocator of \<open>src/alloc_block.c\<close>: twelve slabs with object sizes 32 to
  65536 laid out one behind the other.
\<close>

section \<open>State and operations\<close>

abbreviation (input) GMK_BLOCK_BINS :: nat where "GMK_BLOCK_BINS \<equiv> 12"
abbreviation (input) GMK_BLOCK_MIN_SIZE :: u32 where "GMK_BLOCK_MIN_SIZE \<equiv> 32"
abbreviation (input) GMK_BLOCK_MAX_SIZE :: u32 where "GMK_BLOCK_MAX_SIZE \<equiv> 65536"

record gmk_block =
  bk_bins :: "gmk_slab list"
  bk_base :: addr
  bk_total_size :: u64

definition zero_block :: gmk_block where
  "zero_block = \<lparr>bk_bins = replicate GMK_BLOCK_BINS zero_slab, bk_base = 0, bk_total_size = 0\<rparr>"

definition bin_index :: "u32 \<Rightarrow> int" where
  "bin_index sz =
     (if sz \<le> GMK_BLOCK_MIN_SIZE then 0
      else if sz > GMK_BLOCK_MAX_SIZE then -1
      else let rounded = gmk_next_pow2 sz;
               idx = int (builtin_ctz rounded) - 5;
               idx' = (if idx < 0 then 0 else idx)
           in if idx' \<ge> int GMK_BLOCK_BINS then -1 else idx')"

definition block_weights :: "u64 list" where
  "block_weights = [16, 12, 8, 6, 4, 2, 2, 2, 2, 2, 2, 2]"

text \<open>An unusable bin: zeroed, with an empty free list.\<close>

definition empty_bin :: gmk_slab where
  "empty_bin = zero_slab\<lparr>sl_capacity := 0, sl_free_head := -1\<rparr>"

definition bin_obj_size :: "nat \<Rightarrow> u32" where
  "bin_obj_size i = push_bit i GMK_BLOCK_MIN_SIZE"

text \<open>The share of bin \<open>i\<close>, cut to what remains; the last bin takes all that remains.\<close>

definition bin_mem_size :: "u64 \<Rightarrow> nat \<Rightarrow> u64 \<Rightarrow> u64" where
  "bin_mem_size mem_size i remaining =
     (let total_weight = sum_list block_weights;
          m = (mem_size * block_weights ! i) div total_weight;
          m1 = (if i = GMK_BLOCK_BINS - 1 then remaining else m)
      in if m1 > remaining then remaining else m1)"

definition block_init_bin :: "addr \<Rightarrow> u64 \<Rightarrow> nat \<Rightarrow> gmk_slab" where
  "block_init_bin ptr bin_mem i =
     (let obj_size = bin_obj_size i;
          aligned_obj = align8 obj_size
      in if bin_mem < ucast aligned_obj + 4 then empty_bin
         else let (c, s) = gmk_slab_init zero_slab ptr bin_mem obj_size
              in if c \<noteq> 0 then empty_bin else s)"

fun block_init_bins :: "nat list \<Rightarrow> u64 \<Rightarrow> addr \<Rightarrow> u64 \<Rightarrow> gmk_slab list" where
  "block_init_bins [] mem_size ptr remaining = []"
| "block_init_bins (i # is) mem_size ptr remaining =
     (let bin_mem = bin_mem_size mem_size i remaining
      in block_init_bin ptr bin_mem i
         # block_init_bins is mem_size (ptr + bin_mem) (remaining - bin_mem))"

definition gmk_block_init :: "gmk_block \<Rightarrow> addr \<Rightarrow> u64 \<Rightarrow> rc \<times> gmk_block" where
  "gmk_block_init b mem mem_size =
     (if mem = 0 \<or> mem_size = 0 then (-1, b)
      else (0, \<lparr>bk_bins = block_init_bins [0..<GMK_BLOCK_BINS] mem_size mem mem_size,
                bk_base = mem, bk_total_size = mem_size\<rparr>))"

definition gmk_block_destroy :: "gmk_block \<Rightarrow> gmk_block" where
  "gmk_block_destroy b =
     b\<lparr>bk_bins := map (\<lambda>s. if sl_capacity s > 0 then gmk_slab_destroy s else s) (bk_bins b), bk_base := 0\<rparr>"

definition gmk_block_alloc :: "gmk_block \<Rightarrow> u32 \<Rightarrow> (addr \<times> gmk_block) exec" where
  "gmk_block_alloc b sz =
     (if sz = 0 then Some (0, b)
      else let idx = bin_index sz
           in if idx < 0 then Some (0, b)
              else do { s \<leftarrow> arr_get (bk_bins b) (nat idx);
                        if sl_capacity s = 0 then Some (0, b)
                        else do { (a, s') \<leftarrow> gmk_slab_alloc s;
                                  Some (a, b\<lparr>bk_bins := (bk_bins b)[nat idx := s']\<rparr>) } })"

definition gmk_block_free :: "gmk_block \<Rightarrow> addr \<Rightarrow> u32 \<Rightarrow> gmk_block exec" where
  "gmk_block_free b ptr sz =
     (if ptr = 0 \<or> sz = 0 then Some b
      else let idx = bin_index sz
           in if idx < 0 then Some b
              else do { s \<leftarrow> arr_get (bk_bins b) (nat idx);
                        if sl_capacity s = 0 then Some b
                        else do { s' \<leftarrow> gmk_slab_free s ptr;
                                  Some (b\<lparr>bk_bins := (bk_bins b)[nat idx := s']\<rparr>) } })"

section \<open>The bin of a size\<close>

text \<open>\<open>bin_index\<close> is the first bin whose objects are large enough.\<close>

lemma bin_index_eq:
  assumes "sz \<noteq> 0" "unat sz \<le> 65536"
  obtains i where "i < 12" "bin_index sz = int i" "unat sz \<le> 32 * 2 ^ i"
    "\<And>j. unat sz \<le> 32 * 2 ^ j \<Longrightarrow> i \<le> j"
proof (cases "unat sz \<le> 32")
  case True
  then show ?thesis by (intro that [of 0]) (simp_all add: bin_index_def word_le_nat_alt)
next
  case False
  obtain k where k: "k \<le> 31" "gmk_next_pow2 sz = 2 ^ k" "unat sz \<le> 2 ^ k"
      "\<And>j. unat sz \<le> 2 ^ j \<Longrightarrow> k \<le> j"
    using gmk_next_pow2_least [of sz] assms(2) by auto
  have "k \<le> 16" using k(4) [of 16] assms(2) by simp
  moreover have "5 < k"
  proof (rule ccontr)
    assume "\<not> 5 < k"
    then have "(2::nat) ^ k \<le> 2 ^ 5" by (intro power_increasing) simp_all
    then show False using k(3) False by simp
  qed
  moreover define i where "i = k - 5"
  ultimately have i: "k = i + 5" "i < 12" by simp_all
  have p: "(2::nat) ^ (j + 5) = 32 * 2 ^ j" for j by (simp add: power_add)
  have "bin_index sz = int i"
    using False assms(2) k(1,2) i
    by (simp add: bin_index_def word_le_nat_alt word_less_nat_alt builtin_ctz_pow2 Let_def)
  moreover have "i \<le> j" if "unat sz \<le> 32 * 2 ^ j" for j
    using k(4) [of "j + 5"] that i(1) p [of j] by simp
  ultimately show ?thesis using i k(3) p [of i] by (intro that [of i]) simp_all
qed

lemma bin_index_large: "65536 < unat sz \<Longrightarrow> bin_index sz = -1"
  by (simp add: bin_index_def word_le_nat_alt word_less_nat_alt)

lemma unat_bin_obj_size: "i < 12 \<Longrightarrow> unat (bin_obj_size i) = 32 * 2 ^ i"
proof -
  assume i: "i < 12"
  then have "(2::nat) ^ i \<le> 2 ^ 11" by (intro power_increasing) simp_all
  then have "32 * (2::nat) ^ i < 2 ^ 32" by simp
  moreover have "bin_obj_size i = of_nat (32 * 2 ^ i)"
    by (simp add: bin_obj_size_def push_bit_eq_mult)
  ultimately show ?thesis by (simp only:) (rule unat_of_nat_lt, simp)
qed

lemma unat_bin_obj_aligned: "i < 12 \<Longrightarrow> unat (align8 (bin_obj_size i)) = 32 * 2 ^ i"
proof -
  assume i: "i < 12"
  then have "(2::nat) ^ i \<le> 2 ^ 11" by (intro power_increasing) simp_all
  then show ?thesis using unat_bin_obj_size [OF i] by (subst unat_align8) simp_all
qed

section \<open>Layout\<close>

definition region :: "gmk_slab \<Rightarrow> nat set" where
  "region s = {unat (sl_base s)..<unat (sl_base s) + unat (sl_total_size s)}"

definition bin_ok :: "nat \<Rightarrow> gmk_slab \<Rightarrow> bool" where
  "bin_ok i s \<longleftrightarrow> sl_capacity s = 0 \<or> slab_inv s \<and> unat (sl_obj_size s) = 32 * 2 ^ i"

text \<open>Every bin is unusable or a well-formed slab of its object size; the usable bins lie between
  the addresses \<open>lo\<close> and \<open>hi\<close>, one behind the other.\<close>

fun bins_layout :: "nat list \<Rightarrow> gmk_slab list \<Rightarrow> nat \<Rightarrow> nat \<Rightarrow> bool" where
  "bins_layout [] [] lo hi \<longleftrightarrow> lo \<le> hi"
| "bins_layout (i # is) (s # ss) lo hi \<longleftrightarrow> bin_ok i s
     \<and> (if sl_capacity s = 0 then bins_layout is ss lo hi
        else lo \<le> unat (sl_base s)
             \<and> bins_layout is ss (unat (sl_base s) + unat (sl_total_size s)) hi)"
| "bins_layout _ _ lo hi \<longleftrightarrow> False"

definition block_inv :: "gmk_block \<Rightarrow> bool" where
  "block_inv b \<longleftrightarrow> bins_layout [0..<12] (bk_bins b) (unat (bk_base b))
     (unat (bk_base b) + unat (bk_total_size b))"

lemma bins_layout_length: "bins_layout is ss lo hi \<Longrightarrow> length ss = length is"
  by (induction "is" ss lo hi rule: bins_layout.induct) (auto split: if_splits)

lemma bins_layout_le: "bins_layout is ss lo hi \<Longrightarrow> lo \<le> hi"
  by (induction "is" ss lo hi rule: bins_layout.induct) (auto split: if_splits)

lemma bins_layout_mono: "bins_layout is ss lo hi \<Longrightarrow> lo' \<le> lo \<Longrightarrow> bins_layout is ss lo' hi"
  by (induction "is" ss lo hi rule: bins_layout.induct) (auto split: if_splits)

lemma bins_layout_nth:
  "bins_layout is ss lo hi \<Longrightarrow> k < length ss \<Longrightarrow>
   bin_ok (is ! k) (ss ! k) \<and> (sl_capacity (ss ! k) \<noteq> 0 \<longrightarrow> lo \<le> unat (sl_base (ss ! k))
     \<and> unat (sl_base (ss ! k)) + unat (sl_total_size (ss ! k)) \<le> hi)"
proof (induction "is" ss lo hi arbitrary: k rule: bins_layout.induct)
  case (2 i "is" s ss lo hi)
  show ?case
  proof (cases k)
    case 0
    then show ?thesis using "2.prems" bins_layout_le by (auto split: if_splits)
  next
    case (Suc j)
    then show ?thesis using 2 by (force split: if_splits)
  qed
qed simp_all

lemma bins_layout_order:
  "bins_layout is ss lo hi \<Longrightarrow> j < k \<Longrightarrow> k < length ss \<Longrightarrow> sl_capacity (ss ! j) \<noteq> 0 \<Longrightarrow>
   sl_capacity (ss ! k) \<noteq> 0 \<Longrightarrow>
   unat (sl_base (ss ! j)) + unat (sl_total_size (ss ! j)) \<le> unat (sl_base (ss ! k))"
proof (induction "is" ss lo hi arbitrary: j k rule: bins_layout.induct)
  case (2 i "is" s ss lo hi)
  then obtain k' where k: "k = Suc k'" by (cases k) auto
  show ?case
  proof (cases j)
    case 0
    then show ?thesis using "2.prems" k bins_layout_nth [of "is" ss _ hi k'] by auto
  next
    case (Suc j')
    then show ?thesis using 2 k by (auto split: if_splits)
  qed
qed simp_all

lemma bins_layout_update:
  "bins_layout is ss lo hi \<Longrightarrow> k < length ss \<Longrightarrow> bin_ok (is ! k) s' \<Longrightarrow>
   slab_frame s' = slab_frame (ss ! k) \<Longrightarrow> bins_layout is (ss[k := s']) lo hi"
proof (induction "is" ss lo hi arbitrary: k rule: bins_layout.induct)
  case (2 i "is" s ss lo hi)
  then show ?case by (cases k) (auto simp: slab_frame_def split: if_splits)
qed simp_all

text \<open>The bins that \<open>block_init_bins\<close> builds for the indices \<open>is\<close>, from address \<open>p\<close> on.\<close>

lemma bin_mem_size_le: "bin_mem_size ms i rem \<le> rem"
  by (auto simp: bin_mem_size_def Let_def)

lemma block_init_bin_ok:
  assumes "i < 12" "unat p + unat m \<le> 2 ^ 64" "unat m < 2 ^ 33"
  shows "bin_ok i (block_init_bin p m i)"
    "sl_capacity (block_init_bin p m i) \<noteq> 0 \<Longrightarrow>
       sl_base (block_init_bin p m i) = p \<and> sl_total_size (block_init_bin p m i) = m
       \<and> slab.live (block_init_bin p m i) = {}"
proof -
  have e: "bin_ok i empty_bin" "sl_capacity empty_bin = 0" by (simp_all add: bin_ok_def empty_bin_def)
  obtain c s where s: "gmk_slab_init zero_slab p m (bin_obj_size i) = (c, s)" by fastforce
  have "unat (bin_obj_size i) + 7 < 2 ^ 32"
  proof -
    have "(2::nat) ^ i \<le> 2 ^ 11" using assms(1) by (intro power_increasing) simp_all
    then show ?thesis using unat_bin_obj_size [OF assms(1)] by simp
  qed
  note init = slab_init_cases [OF s assms(2) this assms(3)]
  have "c = 0 \<Longrightarrow> bin_ok i s \<and> sl_base s = p \<and> sl_total_size s = m \<and> slab.live s = {}"
    by (rule init) (auto simp: bin_ok_def slab.live_def unat_bin_obj_aligned [OF assms(1)])
  then show "bin_ok i (block_init_bin p m i)" "sl_capacity (block_init_bin p m i) \<noteq> 0 \<Longrightarrow>
       sl_base (block_init_bin p m i) = p \<and> sl_total_size (block_init_bin p m i) = m
       \<and> slab.live (block_init_bin p m i) = {}"
    using e by (auto simp: block_init_bin_def Let_def s split: if_splits)
qed

lemma block_init_bins_layout:
  "unat p + unat rem \<le> 2 ^ 64 \<Longrightarrow> unat rem < 2 ^ 33 \<Longrightarrow> \<forall>i \<in> set is. i < 12 \<Longrightarrow>
   bins_layout is (block_init_bins is ms p rem) (unat p) (unat p + unat rem)
   \<and> (\<forall>s \<in> set (block_init_bins is ms p rem). sl_capacity s \<noteq> 0 \<longrightarrow> slab.live s = {})"
proof (induction "is" arbitrary: p rem)
  case (Cons i "is")
  define m where "m = bin_mem_size ms i rem"
  have m: "m \<le> rem" "unat m \<le> unat rem"
    using bin_mem_size_le [of ms i rem] by (simp_all add: m_def word_le_nat_alt)
  have i: "i < 12" using Cons.prems by simp
  note bin = block_init_bin_ok [OF i, of p m]
  have r: "unat (rem - m) = unat rem - unat m" using m(1) by (rule unat_sub)
  have tail: "bins_layout is (block_init_bins is ms (p + m) (rem - m)) (unat p + unat m) (unat p + unat rem)
      \<and> (\<forall>s \<in> set (block_init_bins is ms (p + m) (rem - m)). sl_capacity s \<noteq> 0 \<longrightarrow> slab.live s = {})"
  proof (cases "unat p + unat m < 2 ^ 64")
    case True
    then have pm: "unat (p + m) = unat p + unat m" by (intro unat_add_nowrap) simp
    then show ?thesis using Cons.IH [of "p + m" "rem - m"] Cons.prems m(2) r by simp
  next
    case False
    then have "unat m = unat rem" using Cons.prems(1) m(2) by linarith
    then have "m = rem" by (simp add: word_unat_eq_iff)
    moreover have "bins_layout is (block_init_bins is ms q 0) lo lo
        \<and> (\<forall>s \<in> set (block_init_bins is ms q 0). sl_capacity s = 0)" if "\<forall>i \<in> set is. i < 12" for q lo
      using that
    proof (induction "is" arbitrary: q)
      case (Cons j "is")
      have "bin_mem_size ms j 0 = 0" using bin_mem_size_le [of ms j 0] by (simp add: word_le_nat_alt unat_eq_zero)
      moreover have "block_init_bin q 0 j = empty_bin"
      proof -
        have "(0::u64) < ucast (align8 (bin_obj_size j)) + 4"
          using unat32_lt [of "align8 (bin_obj_size j)"]
          by (simp add: word_less_nat_alt unat_word_ariths unat_ucast_up del: unat32_lt)
        then show ?thesis by (simp add: block_init_bin_def Let_def)
      qed
      ultimately show ?case using Cons by (simp add: bin_ok_def empty_bin_def Let_def)
    qed simp
    ultimately show ?thesis using Cons.prems(3) \<open>unat m = unat rem\<close> by (metis diff_self list.set_intros(2))
  qed
  show ?case using bin Cons.prems m(2) tail bins_layout_mono [OF conjunct1 [OF tail], of "unat p"]
    by (auto simp: Let_def m_def [symmetric])
qed simp

section \<open>Allocation and release\<close>

text \<open>The live objects with the number of their bin, and the bytes an object occupies.\<close>

definition block_live :: "gmk_block \<Rightarrow> (nat \<times> addr) set" where
  "block_live b = {(i, a). i < 12 \<and> sl_capacity (bk_bins b ! i) \<noteq> 0 \<and> a \<in> slab.live (bk_bins b ! i)}"

definition extent :: "addr \<Rightarrow> nat \<Rightarrow> nat set" where
  "extent a n = {unat a..<unat a + n}"

lemma block_inv_bin:
  assumes "block_inv b" "i < 12"
  shows "i < length (bk_bins b)" "bin_ok i (bk_bins b ! i)"
    "sl_capacity (bk_bins b ! i) \<noteq> 0 \<Longrightarrow> slab_inv (bk_bins b ! i)"
    "sl_capacity (bk_bins b ! i) \<noteq> 0 \<Longrightarrow> unat (sl_obj_size (bk_bins b ! i)) = 32 * 2 ^ i"
proof -
  have l: "bins_layout [0..<12] (bk_bins b) (unat (bk_base b)) (unat (bk_base b) + unat (bk_total_size b))"
    using assms(1) by (simp add: block_inv_def)
  show len: "i < length (bk_bins b)" using bins_layout_length [OF l] assms(2) by simp
  show "bin_ok i (bk_bins b ! i)"
    using bins_layout_nth [OF l len] assms(2) by simp
  then show "sl_capacity (bk_bins b ! i) \<noteq> 0 \<Longrightarrow> slab_inv (bk_bins b ! i)"
    "sl_capacity (bk_bins b ! i) \<noteq> 0 \<Longrightarrow> unat (sl_obj_size (bk_bins b ! i)) = 32 * 2 ^ i"
    by (simp_all add: bin_ok_def)
qed

lemma block_inv_update:
  assumes "block_inv b" "i < 12" "slab_inv s" "slab_frame s = slab_frame (bk_bins b ! i)"
    "sl_capacity (bk_bins b ! i) \<noteq> 0"
  shows "block_inv (b\<lparr>bk_bins := (bk_bins b)[i := s]\<rparr>)"
proof -
  have "bin_ok i s"
    using assms block_inv_bin(4) [OF assms(1,2)] by (simp add: bin_ok_def slab_frame_def)
  then show ?thesis
    using bins_layout_update [of "[0..<12]" "bk_bins b" _ _ i s] assms block_inv_bin(1) [OF assms(1,2)]
    by (simp add: block_inv_def)
qed

lemma block_live_update:
  assumes "block_inv b" "i < 12" "sl_capacity (bk_bins b ! i) \<noteq> 0" "sl_capacity s \<noteq> 0"
  shows "block_live (b\<lparr>bk_bins := (bk_bins b)[i := s]\<rparr>) =
    {(j, a) \<in> block_live b. j \<noteq> i} \<union> {i} \<times> slab.live s"
  using assms block_inv_bin(1) [OF assms(1,2)]
  by (auto simp: block_live_def nth_list_update split: if_splits)

lemma frame_capacity: "slab_frame s' = slab_frame s \<Longrightarrow> sl_capacity s' = sl_capacity s"
  by (simp add: slab_frame_def)

text \<open>An allocation yields a fresh object of the smallest bin that fits, or null when that bin is
  exhausted or the size is 0 or above 65536; it always returns.\<close>

text \<open>There is no slot for the size.\<close>

definition block_full :: "gmk_block \<Rightarrow> u32 \<Rightarrow> bool" where
  "block_full b sz \<longleftrightarrow> sz = 0 \<or> bin_index sz < 0
     \<or> sl_capacity (bk_bins b ! nat (bin_index sz)) = 0
     \<or> slab_free_slots (bk_bins b ! nat (bin_index sz)) = []"

lemma block_alloc_cases:
  assumes inv: "block_inv b"
  obtains (ok) i a b' where "gmk_block_alloc b sz = Some (a, b')" "a \<noteq> 0" "block_inv b'"
      "sz \<noteq> 0" "i < 12" "bin_index sz = int i" "unat sz \<le> 32 * 2 ^ i"
      "(i, a) \<notin> block_live b" "block_live b' = insert (i, a) (block_live b)"
      "bk_base b' = bk_base b" "bk_total_size b' = bk_total_size b"
    | (null) "gmk_block_alloc b sz = Some (0, b)" "block_full b sz"
proof (cases "sz = 0 \<or> 65536 < unat sz")
  case True
  then show ?thesis by (intro that(2)) (auto simp: gmk_block_alloc_def block_full_def bin_index_large)
next
  case False
  then obtain i where i: "i < 12" "bin_index sz = int i" "unat sz \<le> 32 * 2 ^ i"
    using bin_index_eq [of sz] by (metis not_less)
  note bin = block_inv_bin [OF inv i(1)]
  let ?s = "bk_bins b ! i"
  show ?thesis
  proof (cases "sl_capacity ?s = 0")
    case True
    then show ?thesis using False i bin(1)
      by (intro that(2)) (simp_all add: gmk_block_alloc_def block_full_def exec_simps)
  next
    case cap: False
    have step: "gmk_block_alloc b sz = do { (a, s') \<leftarrow> gmk_slab_alloc ?s;
        Some (a, b\<lparr>bk_bins := (bk_bins b)[i := s']\<rparr>) }"
      using False i bin(1) cap by (simp add: gmk_block_alloc_def exec_simps)
    show ?thesis
    proof (rule slab.alloc_cases [OF bin(3) [OF cap]])
      fix a s' assume a: "gmk_slab_alloc ?s = Some (a, s')" "a \<noteq> 0" "slab_inv s'" "a \<notin> slab.live ?s"
        "slab.live s' = insert a (slab.live ?s)" "slab_frame s' = slab_frame ?s"
      have "block_live (b\<lparr>bk_bins := (bk_bins b)[i := s']\<rparr>) = insert (i, a) (block_live b)"
        using block_live_update [OF inv i(1) cap, of s'] frame_capacity [OF a(6)] cap a(5) i(1)
        by (auto simp: block_live_def)
      moreover have "(i, a) \<notin> block_live b" using a(4) by (simp add: block_live_def)
      ultimately show ?thesis
        using step a False i block_inv_update [OF inv i(1) a(3,6) cap]
        by (intro that(1) [of a "b\<lparr>bk_bins := (bk_bins b)[i := s']\<rparr>" i]) simp_all
    next
      assume "gmk_slab_alloc ?s = Some (0, ?s)" "set (slab_free_slots ?s) = {}"
      then show ?thesis using step i by (intro that(2)) (simp_all add: block_full_def)
    qed
  qed
qed

lemma block_free_live:
  assumes inv: "block_inv b" and live: "(i, a) \<in> block_live b" and sz: "sz \<noteq> 0" "bin_index sz = int i"
  obtains b' where "gmk_block_free b a sz = Some b'" "block_inv b'"
    "block_live b' = block_live b - {(i, a)}" "bk_base b' = bk_base b" "bk_total_size b' = bk_total_size b"
proof -
  let ?s = "bk_bins b ! i"
  have i: "i < 12" "sl_capacity ?s \<noteq> 0" "a \<in> slab.live ?s" using live by (auto simp: block_live_def)
  note bin = block_inv_bin [OF inv i(1)]
  have s: "slab_inv ?s" using bin(3) i(2) by simp
  have "a \<noteq> 0" using i(3) slab.addr_nonzero [OF s] by (auto simp: slab.live_def)
  obtain s' where s': "gmk_slab_free ?s a = Some s'" "slab_inv s'" "slab.live s' = slab.live ?s - {a}"
    "slab_frame s' = slab_frame ?s"
    using slab.release_live [OF s i(3)] by blast
  have "block_live (b\<lparr>bk_bins := (bk_bins b)[i := s']\<rparr>) = block_live b - {(i, a)}"
    using block_live_update [OF inv i(1,2), of s'] frame_capacity [OF s'(4)] i s'(3)
    by (auto simp: block_live_def)
  moreover have "gmk_block_free b a sz = Some (b\<lparr>bk_bins := (bk_bins b)[i := s']\<rparr>)"
    using \<open>a \<noteq> 0\<close> sz bin(1) i(2) s'(1) by (simp add: gmk_block_free_def exec_simps)
  ultimately show ?thesis using block_inv_update [OF inv i(1) s'(2,4) i(2)]
    by (intro that [of "b\<lparr>bk_bins := (bk_bins b)[i := s']\<rparr>"]) simp_all
qed

text \<open>Live objects never overlap, and they stay inside the region of the allocator.\<close>

lemma slab_live_extent:
  assumes "slab_inv s" "a \<in> slab.live s"
  shows "unat (sl_base s) \<le> unat a" "unat a + unat (sl_obj_size s) \<le> unat (sl_base s) + unat (sl_total_size s)"
  using assms unat_slab_slot_addr [OF assms(1)] by (fastforce simp: slab.live_def)+

lemma slab_live_disjoint:
  assumes inv: "slab_inv s" and a: "a \<in> slab.live s" "a' \<in> slab.live s" "a \<noteq> a'"
  shows "extent a (unat (sl_obj_size s)) \<inter> extent a' (unat (sl_obj_size s)) = {}"
proof -
  let ?o = "unat (sl_obj_size s)"
  obtain i j where ij: "i < unat (sl_capacity s)" "a = slab_slot_addr s i" "j < unat (sl_capacity s)"
    "a' = slab_slot_addr s j" "i \<noteq> j"
    using a by (auto simp: slab.live_def)
  have u: "unat a = unat (sl_base s) + i * ?o" "unat a' = unat (sl_base s) + j * ?o"
    using unat_slab_slot_addr(1) [OF inv] ij by simp_all
  have "(i + 1) * ?o \<le> j * ?o \<or> (j + 1) * ?o \<le> i * ?o"
  proof (cases "i < j")
    case True
    then show ?thesis by (intro disjI1 mult_le_mono1) simp
  next
    case False
    then show ?thesis using ij(5) by (intro disjI2 mult_le_mono1) simp
  qed
  then show ?thesis unfolding extent_def u by auto
qed

lemma block_live_extents:
  assumes inv: "block_inv b" and a: "(i, a) \<in> block_live b"
  shows "unat (bk_base b) \<le> unat a"
    "unat a + 32 * 2 ^ i \<le> unat (bk_base b) + unat (bk_total_size b)"
    and "(j, a') \<in> block_live b \<Longrightarrow> (i, a) \<noteq> (j, a') \<Longrightarrow>
      extent a (32 * 2 ^ i) \<inter> extent a' (32 * 2 ^ j) = {}"
proof -
  have l: "bins_layout [0..<12] (bk_bins b) (unat (bk_base b)) (unat (bk_base b) + unat (bk_total_size b))"
    using inv by (simp add: block_inv_def)
  have obj: "unat (sl_base (bk_bins b ! k)) \<le> unat c \<and>
      unat c + 32 * 2 ^ k \<le> unat (sl_base (bk_bins b ! k)) + unat (sl_total_size (bk_bins b ! k))
      \<and> k < 12 \<and> sl_capacity (bk_bins b ! k) \<noteq> 0 \<and> k < length (bk_bins b)"
    if "(k, c) \<in> block_live b" for k c
    using that slab_live_extent [of "bk_bins b ! k" c] block_inv_bin [OF inv, of k]
    by (auto simp: block_live_def)
  show "unat (bk_base b) \<le> unat a" "unat a + 32 * 2 ^ i \<le> unat (bk_base b) + unat (bk_total_size b)"
    using bins_layout_nth [OF l, of i] obj [OF a] by auto
  assume a': "(j, a') \<in> block_live b" and ne: "(i, a) \<noteq> (j, a')"
  show "extent a (32 * 2 ^ i) \<inter> extent a' (32 * 2 ^ j) = {}"
  proof (cases "i = j")
    case True
    then show ?thesis
      using a a' ne slab_live_disjoint [of "bk_bins b ! i" a a'] block_inv_bin [OF inv, of i]
      by (auto simp: block_live_def)
  next
    case False
    then show ?thesis
      using bins_layout_order [OF l, of i j] bins_layout_order [OF l, of j i] obj [OF a] obj [OF a']
      by (cases "i < j") (auto simp: extent_def)
  qed
qed

lemma block_init_ok:
  assumes "mem \<noteq> 0" "sz \<noteq> 0" "unat mem + unat sz \<le> 2 ^ 64" "unat sz < 2 ^ 33"
  obtains b' where "gmk_block_init b mem sz = (0, b')" "block_inv b'" "bk_base b' = mem"
    "bk_total_size b' = sz" "block_live b' = {}"
proof -
  let ?b = "\<lparr>bk_bins = block_init_bins [0..<12] sz mem sz, bk_base = mem, bk_total_size = sz\<rparr>"
  note l = block_init_bins_layout [OF assms(3,4), of "[0..<12]" sz]
  have inv: "block_inv ?b" using l by (simp add: block_inv_def)
  have "block_live ?b = {}"
  proof -
    have "slab.live (bk_bins ?b ! i) = {}" if "i < 12" "sl_capacity (bk_bins ?b ! i) \<noteq> 0" for i
    proof -
      have "bk_bins ?b ! i \<in> set (bk_bins ?b)"
        using block_inv_bin(1) [OF inv that(1)] by (rule nth_mem)
      then show ?thesis using l that(2) by simp
    qed
    then show ?thesis by (auto simp: block_live_def)
  qed
  then show ?thesis using inv assms(1,2) by (intro that [of ?b]) (simp_all add: gmk_block_init_def)
qed

end
