(* ===== verification/Alloc_Bump.thy ===== *)
theory Alloc_Bump
  imports Alloc_Slab
begin

text \<open>
  The bump allocator of \<open>src/alloc_bump.c\<close>.  The offset is a 32-bit counter; the additions
  wrap around as in the code.
\<close>

record gmk_bump_t =
  bp_base :: addr
  bp_size :: u64
  bp_offset :: u32
  bp_high_water :: u32

definition zero_bump :: gmk_bump_t where
  "zero_bump = \<lparr>bp_base = 0, bp_size = 0, bp_offset = 0, bp_high_water = 0\<rparr>"

definition gmk_bump_init :: "gmk_bump_t \<Rightarrow> addr \<Rightarrow> u64 \<Rightarrow> rc \<times> gmk_bump_t" where
  "gmk_bump_init b mem mem_size =
     (if mem = 0 \<or> mem_size = 0 then (-1, b)
      else (0, b\<lparr>bp_base := mem, bp_size := mem_size, bp_high_water := 0, bp_offset := 0\<rparr>))"

definition gmk_bump_alloc :: "gmk_bump_t \<Rightarrow> u32 \<Rightarrow> addr \<times> gmk_bump_t" where
  "gmk_bump_alloc b sz =
     (if sz = 0 then (0, b)
      else let sz' = align8 sz;
               off = bp_offset b;
               b1 = b\<lparr>bp_offset := off + sz'\<rparr>
           in if off + sz' > ucast (bp_size b)
              then (0, b1\<lparr>bp_offset := bp_offset b1 - sz'\<rparr>)
              else let new_off = off + sz'
                   in (bp_base b + ucast off,
                       if new_off > bp_high_water b1 then b1\<lparr>bp_high_water := new_off\<rparr> else b1))"

definition gmk_bump_reset :: "gmk_bump_t \<Rightarrow> gmk_bump_t" where
  "gmk_bump_reset b = b\<lparr>bp_offset := 0\<rparr>"

definition gmk_bump_used :: "gmk_bump_t \<Rightarrow> u32" where
  "gmk_bump_used b = bp_offset b"

section \<open>Behaviour below the 32-bit limits\<close>

text \<open>The offset check compares 32-bit sums, so the region has to stay below \<open>2 ^ 31\<close> bytes for it
  to be exact (the default arena gives the bump allocator about 13 MB).\<close>

definition bump_inv :: "gmk_bump_t \<Rightarrow> bool" where
  "bump_inv b \<longleftrightarrow> bp_base b \<noteq> 0 \<and> unat (bp_size b) < 2 ^ 31 \<and> unat (bp_offset b) \<le> unat (bp_size b)
     \<and> unat (bp_base b) + unat (bp_size b) \<le> 2 ^ 64 \<and> bp_offset b \<le> bp_high_water b
     \<and> 8 dvd unat (bp_offset b)"

definition align8_nat :: "nat \<Rightarrow> nat" where
  "align8_nat n = (n + 7) div 8 * 8"

lemma bump_alloc_cases:
  assumes inv: "bump_inv b" and sz: "sz \<noteq> 0" "unat sz < 2 ^ 31 - 7"
  obtains (ok) b' where "gmk_bump_alloc b sz = (bp_base b + ucast (bp_offset b), b')" "bump_inv b'"
      "unat (bp_offset b') = unat (bp_offset b) + align8_nat (unat sz)"
      "unat (bp_offset b) + align8_nat (unat sz) \<le> unat (bp_size b)"
      "bp_base b' = bp_base b" "bp_size b' = bp_size b"
      "unat (bp_base b + ucast (bp_offset b)) = unat (bp_base b) + unat (bp_offset b)"
    | (full) "gmk_bump_alloc b sz = (0, b)"
      "unat (bp_size b) < unat (bp_offset b) + align8_nat (unat sz)"
proof -
  let ?a = "align8 sz" and ?o = "bp_offset b"
  have a: "unat ?a = align8_nat (unat sz)" "unat sz \<le> unat ?a" "unat ?a < unat sz + 8"
    using unat_align8 [of sz] sz(2) by (simp_all add: align8_nat_def)
  have lim: "unat (bp_size b) < 2 ^ 31" "unat ?o \<le> unat (bp_size b)"
    "unat (bp_base b) + unat (bp_size b) \<le> 2 ^ 64" "8 dvd unat ?o" "bp_offset b \<le> bp_high_water b"
    using inv by (simp_all add: bump_inv_def)
  have sum: "unat (?o + ?a) = unat ?o + unat ?a"
    using a(3) sz(2) lim(1,2) by (intro unat_add_nowrap) simp
  have size: "unat (ucast (bp_size b) :: u32) = unat (bp_size b)"
    using lim(1) by (simp add: unsigned_ucast_eq take_bit_nat_eq_self)
  have cmp: "?o + ?a > ucast (bp_size b) \<longleftrightarrow> unat (bp_size b) < unat ?o + unat ?a"
    by (simp add: word_less_nat_alt size sum)
  show ?thesis
  proof (cases "unat (bp_size b) < unat ?o + unat ?a")
    case True
    then show ?thesis using sz(1) cmp a(1) by (intro that(2)) (simp_all add: gmk_bump_alloc_def Let_def)
  next
    case False
    define b' where "b' = (if ?o + ?a > bp_high_water b
      then b\<lparr>bp_offset := ?o + ?a, bp_high_water := ?o + ?a\<rparr> else b\<lparr>bp_offset := ?o + ?a\<rparr>)"
    have e: "gmk_bump_alloc b sz = (bp_base b + ucast ?o, b')"
      using sz(1) cmp False by (simp add: gmk_bump_alloc_def Let_def b'_def)
    have f: "bp_base b' = bp_base b" "bp_size b' = bp_size b" "bp_offset b' = ?o + ?a"
      "bp_offset b' \<le> bp_high_water b'"
      by (auto simp: b'_def)
    have "8 dvd unat ?o + unat ?a" using lim(4) by (simp add: a(1) align8_nat_def)
    then have "bump_inv b'" using inv False sum f by (simp add: bump_inv_def)
    moreover have "unat (bp_base b + ucast ?o) = unat (bp_base b) + unat ?o"
    proof -
      have "0 < unat sz" using sz(1) by (simp add: unat_gt_0)
      then have "0 < unat ?a" using a(2) by linarith
      then show ?thesis
        using False lim(3) by (subst unat_add_nowrap) (simp_all add: unat_ucast_up)
    qed
    ultimately show ?thesis using e f sum False a(1) by (intro that(1) [of b']) simp_all
  qed
qed

text \<open>A run of allocations that fits: the addresses follow each other.\<close>

fun bump_many :: "u32 list \<Rightarrow> gmk_bump_t \<Rightarrow> addr list \<times> gmk_bump_t" where
  "bump_many [] b = ([], b)"
| "bump_many (sz # szs) b =
     (let (a, b1) = gmk_bump_alloc b sz; (as, b2) = bump_many szs b1 in (a # as, b2))"

fun bump_layout :: "nat \<Rightarrow> u32 list \<Rightarrow> nat list" where
  "bump_layout off [] = []"
| "bump_layout off (sz # szs) = off # bump_layout (off + align8_nat (unat sz)) szs"

lemma bump_many_layout:
  "bump_inv b \<Longrightarrow> \<forall>sz \<in> set szs. sz \<noteq> 0 \<and> unat sz < 2 ^ 31 - 7 \<Longrightarrow>
   unat (bp_offset b) + (\<Sum>sz \<leftarrow> szs. align8_nat (unat sz)) \<le> unat (bp_size b) \<Longrightarrow>
   bump_many szs b = (as, b') \<Longrightarrow>
   map unat as = bump_layout (unat (bp_base b) + unat (bp_offset b)) szs \<and> bump_inv b'
   \<and> unat (bp_offset b') = unat (bp_offset b) + (\<Sum>sz \<leftarrow> szs. align8_nat (unat sz))"
proof (induction szs arbitrary: b as b')
  case (Cons sz szs)
  obtain b1 where b1: "gmk_bump_alloc b sz = (bp_base b + ucast (bp_offset b), b1)" "bump_inv b1"
    "unat (bp_offset b1) = unat (bp_offset b) + align8_nat (unat sz)"
    "bp_base b1 = bp_base b" "bp_size b1 = bp_size b"
    "unat (bp_base b + ucast (bp_offset b)) = unat (bp_base b) + unat (bp_offset b)"
  proof (rule bump_alloc_cases [OF Cons.prems(1), of sz])
    assume "unat (bp_size b) < unat (bp_offset b) + align8_nat (unat sz)"
    then show ?thesis using Cons.prems(3) by simp
  qed (use Cons.prems(2) that in auto)
  obtain as1 where as1: "bump_many szs b1 = (as1, b')" "as = (bp_base b + ucast (bp_offset b)) # as1"
    using Cons.prems(4) b1(1) by (auto simp: Let_def split: prod.splits)
  then show ?case using Cons.IH [OF b1(2) _ _ as1(1)] Cons.prems(2,3) b1(3-6) by (simp add: add.assoc)
qed simp

text \<open>In such a layout no object reaches the next one.\<close>

lemma bump_layout_ge: "a \<in> set (bump_layout off szs) \<Longrightarrow> off \<le> a"
  by (induction szs arbitrary: off) fastforce+

lemma bump_layout_disjoint:
  "sorted_wrt (\<lambda>(a, sz) (a', sz'). a + unat sz \<le> a') (zip (bump_layout off szs) szs)"
proof (induction szs arbitrary: off)
  case (Cons sz szs)
  have "unat sz \<le> align8_nat (unat sz)" unfolding align8_nat_def by linarith
  then show ?case using Cons bump_layout_ge
    by (fastforce dest!: set_zip_leftD bump_layout_ge)
qed simp

section \<open>Beyond them\<close>

text \<open>A request close to \<open>2 ^ 32\<close> wraps the sum around: it succeeds and moves the offset back.\<close>

lemma bump_alloc_wraps:
  assumes "bp_offset b = 8" "bp_size b = 4096"
  shows "gmk_bump_alloc b 0xFFFFFFF8 = (bp_base b + 8, b\<lparr>bp_offset := 0\<rparr>)"
proof -
  have "align8 0xFFFFFFF8 = 0xFFFFFFF8" by (simp add: align8_def)
  moreover have "8 + 0xFFFFFFF8 = (0 :: u32)" by (simp add: word_eq_iff_unsigned)
  ultimately show ?thesis using assms by (simp only: gmk_bump_alloc_def Let_def) simp
qed

end
