(* ===== verification/Alloc.thy ===== *)
theory Alloc
  imports Alloc_Block Alloc_Bump Hal_Mem
begin

text \<open>
  The arena of \<open>src/alloc_arena.c\<close> and the unified allocator of \<open>src/alloc.c\<close>, with the
  reference-counted payloads.  The bytes of the arena that the allocator itself writes, the
  payload headers, are the map \<open>al_hdrs\<close> from header addresses; a read at an address where no
  header was written is undefined.
\<close>

section \<open>State and operations\<close>

record gmk_arena =
  ar_base :: addr
  ar_size :: u64

record gmk_payload_hdr =
  ph_refcount :: u32
  ph_size :: u32

record gmk_alloc_t =
  al_arena :: gmk_arena
  al_task_slab :: gmk_slab
  al_trace_slab :: gmk_slab
  al_block :: gmk_block
  al_bump :: gmk_bump_t
  al_total_alloc_bytes :: u64
  al_total_alloc_fails :: u64
  al_hdrs :: "addr \<rightharpoonup> gmk_payload_hdr"

definition zero_alloc :: gmk_alloc_t where
  "zero_alloc = \<lparr>al_arena = \<lparr>ar_base = 0, ar_size = 0\<rparr>, al_task_slab = zero_slab,
     al_trace_slab = zero_slab, al_block = zero_block, al_bump = zero_bump,
     al_total_alloc_bytes = 0, al_total_alloc_fails = 0, al_hdrs = Map.empty\<rparr>"

abbreviation (input) sizeof_payload_hdr :: u32 where "sizeof_payload_hdr \<equiv> 8"
abbreviation (input) task_bytes :: u32 where "task_bytes \<equiv> 48"
abbreviation (input) trace_ev_bytes :: u32 where "trace_ev_bytes \<equiv> 32"

definition gmk_arena_init :: "gmk_arena \<Rightarrow> u64 \<Rightarrow> hal \<Rightarrow> rc \<times> gmk_arena \<times> hal" where
  "gmk_arena_init a sz h =
     (if sz = 0 then (-1, a, h)
      else let (p, h') = gmk_hal_page_alloc sz GMK_CACHE_LINE h; a1 = a\<lparr>ar_base := p\<rparr>
           in if p = 0 then (-1, a1, h') else (0, a1\<lparr>ar_size := sz\<rparr>, h'))"

definition gmk_arena_destroy :: "gmk_arena \<Rightarrow> hal \<Rightarrow> gmk_arena \<times> hal" where
  "gmk_arena_destroy a h =
     (if ar_base a \<noteq> 0 then (a\<lparr>ar_base := 0, ar_size := 0\<rparr>, gmk_hal_page_free (ar_base a) (ar_size a) h)
      else (a, h))"

definition gmk_alloc_init :: "gmk_alloc_t \<Rightarrow> u64 \<Rightarrow> hal \<Rightarrow> rc \<times> gmk_alloc_t \<times> hal" where
  "gmk_alloc_init a arena_size h =
     (if arena_size < 4096 then (-1, a, h)
      else let (c, ar, h1) = gmk_arena_init (al_arena zero_alloc) arena_size h;
               a1 = zero_alloc\<lparr>al_arena := ar\<rparr>
           in if c \<noteq> 0 then (-1, a1, h1)
              else let task_size = (arena_size * 10) div 100;
                       trace_size = (arena_size * 2) div 100;
                       bump_size = (arena_size * 20) div 100;
                       block_size = arena_size - task_size - trace_size - bump_size;
                       task_mem = ar_base ar;
                       trace_mem = task_mem + task_size;
                       block_mem = trace_mem + trace_size;
                       bump_mem = block_mem + block_size;
                       fail = (\<lambda>a. let (ar', h') = gmk_arena_destroy (al_arena a) h1
                                   in (-1, a\<lparr>al_arena := ar'\<rparr>, h'));
                       (c1, ts) = gmk_slab_init (al_task_slab a1) task_mem task_size task_bytes;
                       a2 = a1\<lparr>al_task_slab := ts\<rparr>
                   in if c1 \<noteq> 0 then fail a2
                      else let (c2, tr) = gmk_slab_init (al_trace_slab a2) trace_mem trace_size trace_ev_bytes;
                               a3 = a2\<lparr>al_trace_slab := tr\<rparr>
                           in if c2 \<noteq> 0 then fail a3
                              else let (c3, bk) = gmk_block_init (al_block a3) block_mem block_size;
                                       a4 = a3\<lparr>al_block := bk\<rparr>
                                   in if c3 \<noteq> 0 then fail a4
                                      else let (c4, bp) = gmk_bump_init (al_bump a4) bump_mem bump_size;
                                               a5 = a4\<lparr>al_bump := bp\<rparr>
                                           in if c4 \<noteq> 0 then fail a5 else (0, a5, h1))"

definition gmk_alloc_destroy :: "gmk_alloc_t \<Rightarrow> hal \<Rightarrow> gmk_alloc_t \<times> hal" where
  "gmk_alloc_destroy a h =
     (let (ar, h') = gmk_arena_destroy (al_arena a) h
      in (a\<lparr>al_task_slab := gmk_slab_destroy (al_task_slab a),
            al_trace_slab := gmk_slab_destroy (al_trace_slab a),
            al_block := gmk_block_destroy (al_block a), al_arena := ar\<rparr>, h'))"

definition alloc_route :: "gmk_alloc_t \<Rightarrow> u32 \<Rightarrow> (addr \<times> gmk_alloc_t) exec" where
  "alloc_route a sz =
     (if sz \<le> task_bytes \<and> sz > 0
      then do { (p, a1) \<leftarrow>
                  (if sz = task_bytes
                   then do { (p, ts) \<leftarrow> gmk_slab_alloc (al_task_slab a);
                             Some (p, a\<lparr>al_task_slab := ts\<rparr>) }
                   else Some (0, a));
                if p = 0
                then do { (p', bk) \<leftarrow> gmk_block_alloc (al_block a1) sz; Some (p', a1\<lparr>al_block := bk\<rparr>) }
                else Some (p, a1) }
      else if sz \<le> GMK_BLOCK_MAX_SIZE
      then do { (p, bk) \<leftarrow> gmk_block_alloc (al_block a) sz; Some (p, a\<lparr>al_block := bk\<rparr>) }
      else Some (0, a))"

definition gmk_alloc :: "gmk_alloc_t \<Rightarrow> u32 \<Rightarrow> (addr \<times> gmk_alloc_t) exec" where
  "gmk_alloc a sz =
     (if sz = 0 then Some (0, a)
      else do { (p, a1) \<leftarrow> alloc_route a sz;
                Some (p, if p \<noteq> 0
                         then a1\<lparr>al_total_alloc_bytes := al_total_alloc_bytes a1 + ucast sz\<rparr>
                         else a1\<lparr>al_total_alloc_fails := al_total_alloc_fails a1 + 1\<rparr>) })"

definition gmk_free :: "gmk_alloc_t \<Rightarrow> addr \<Rightarrow> u32 \<Rightarrow> gmk_alloc_t exec" where
  "gmk_free a p sz =
     (if p = 0 \<or> sz = 0 then Some a
      else let task_base = sl_base (al_task_slab a);
               trace_base = sl_base (al_trace_slab a);
               block_base = bk_base (al_block a)
           in if p \<ge> task_base \<and> p < task_base + sl_total_size (al_task_slab a)
              then do { s \<leftarrow> gmk_slab_free (al_task_slab a) p; Some (a\<lparr>al_task_slab := s\<rparr>) }
              else if p \<ge> trace_base \<and> p < trace_base + sl_total_size (al_trace_slab a)
              then do { s \<leftarrow> gmk_slab_free (al_trace_slab a) p; Some (a\<lparr>al_trace_slab := s\<rparr>) }
              else if p \<ge> block_base \<and> p < block_base + bk_total_size (al_block a)
              then do { b \<leftarrow> gmk_block_free (al_block a) p sz; Some (a\<lparr>al_block := b\<rparr>) }
              else Some a)"

definition gmk_bump :: "gmk_alloc_t \<Rightarrow> u32 \<Rightarrow> addr \<times> gmk_alloc_t" where
  "gmk_bump a sz = (let (p, b) = gmk_bump_alloc (al_bump a) sz in (p, a\<lparr>al_bump := b\<rparr>))"

definition gmk_bump_reset_all :: "gmk_alloc_t \<Rightarrow> gmk_alloc_t" where
  "gmk_bump_reset_all a = a\<lparr>al_bump := gmk_bump_reset (al_bump a)\<rparr>"

definition gmk_payload_alloc :: "gmk_alloc_t \<Rightarrow> u32 \<Rightarrow> (addr \<times> gmk_alloc_t) exec" where
  "gmk_payload_alloc a sz =
     (if sz = 0 then Some (0, a)
      else do { (mem, a1) \<leftarrow> gmk_alloc a (sizeof_payload_hdr + sz);
                if mem = 0 then Some (0, a1)
                else Some (mem + ucast sizeof_payload_hdr,
                           a1\<lparr>al_hdrs := (al_hdrs a1)(mem \<mapsto> \<lparr>ph_refcount = 1, ph_size = sz\<rparr>)\<rparr>) })"

definition gmk_payload_retain :: "gmk_alloc_t \<Rightarrow> addr \<Rightarrow> gmk_alloc_t exec" where
  "gmk_payload_retain a payload =
     (if payload = 0 then Some a
      else do { hdr \<leftarrow> al_hdrs a (payload - ucast sizeof_payload_hdr);
                Some (a\<lparr>al_hdrs := (al_hdrs a)(payload - ucast sizeof_payload_hdr \<mapsto>
                          hdr\<lparr>ph_refcount := ph_refcount hdr + 1\<rparr>)\<rparr>) })"

definition gmk_payload_release :: "gmk_alloc_t \<Rightarrow> addr \<Rightarrow> (rc \<times> gmk_alloc_t) exec" where
  "gmk_payload_release a payload =
     (if payload = 0 then Some (0, a)
      else let at = payload - ucast sizeof_payload_hdr
           in do { hdr \<leftarrow> al_hdrs a at;
                   let old = ph_refcount hdr;
                       a1 = a\<lparr>al_hdrs := (al_hdrs a)(at \<mapsto> hdr\<lparr>ph_refcount := old - 1\<rparr>)\<rparr>
                   in if old = 1
                      then do { a2 \<leftarrow> gmk_free a1 at (sizeof_payload_hdr + ph_size hdr); Some (1, a2) }
                      else Some (0, a1) })"

section \<open>Invariant\<close>

definition alloc_inv :: "gmk_alloc_t \<Rightarrow> bool" where
  "alloc_inv a \<longleftrightarrow> slab_inv (al_task_slab a) \<and> unat (sl_obj_size (al_task_slab a)) = 48
     \<and> slab_inv (al_trace_slab a) \<and> block_inv (al_block a) \<and> bump_inv (al_bump a)
     \<and> ar_base (al_arena a) \<noteq> 0
     \<and> unat (ar_base (al_arena a)) + unat (ar_size (al_arena a)) \<le> 2 ^ 64
     \<and> unat (ar_base (al_arena a)) \<le> unat (sl_base (al_task_slab a))
     \<and> unat (sl_base (al_task_slab a)) + unat (sl_total_size (al_task_slab a))
         \<le> unat (sl_base (al_trace_slab a))
     \<and> unat (sl_base (al_trace_slab a)) + unat (sl_total_size (al_trace_slab a))
         \<le> unat (bk_base (al_block a))
     \<and> unat (bk_base (al_block a)) + unat (bk_total_size (al_block a)) \<le> unat (bp_base (al_bump a))
     \<and> unat (bp_base (al_bump a)) + unat (bp_size (al_bump a))
         \<le> unat (ar_base (al_arena a)) + unat (ar_size (al_arena a))
     \<and> 0 < unat (bp_size (al_bump a))"

text \<open>A live object is named by its class, \<open>None\<close> for the task slab and \<open>Some i\<close> for bin \<open>i\<close>, and
  its address.\<close>

definition obj_bytes :: "nat option \<Rightarrow> nat" where
  "obj_bytes k = (case k of None \<Rightarrow> 48 | Some i \<Rightarrow> 32 * 2 ^ i)"

definition alloc_live :: "gmk_alloc_t \<Rightarrow> (nat option \<times> addr) set" where
  "alloc_live a = Pair None ` slab.live (al_task_slab a)
     \<union> (\<lambda>(i, p). (Some i, p)) ` block_live (al_block a)"

text \<open>The sizes for which an object of a class is handed out.\<close>

definition class_of :: "nat option \<Rightarrow> u32 \<Rightarrow> bool" where
  "class_of k sz \<longleftrightarrow> (case k of None \<Rightarrow> sz = 48 | Some i \<Rightarrow> sz \<noteq> 0 \<and> i < 12 \<and> bin_index sz = int i)"


section \<open>Allocation and release\<close>

lemma alloc_invD:
  assumes "alloc_inv a"
  shows "slab_inv (al_task_slab a)" "slab_inv (al_trace_slab a)" "block_inv (al_block a)"
    "bump_inv (al_bump a)" "unat (sl_obj_size (al_task_slab a)) = 48"
  using assms by (simp_all add: alloc_inv_def)

lemma alloc_inv_task:
  assumes "alloc_inv a" "slab_inv s" "slab_frame s = slab_frame (al_task_slab a)"
  shows "alloc_inv (a\<lparr>al_task_slab := s\<rparr>)"
  using assms by (simp add: alloc_inv_def slab_frame_def)

lemma alloc_inv_block:
  assumes "alloc_inv a" "block_inv b" "bk_base b = bk_base (al_block a)"
    "bk_total_size b = bk_total_size (al_block a)"
  shows "alloc_inv (a\<lparr>al_block := b\<rparr>)"
  using assms by (simp add: alloc_inv_def)

lemma alloc_update [simp]:
  "alloc_inv (a\<lparr>al_total_alloc_bytes := n\<rparr>) = alloc_inv a"
  "alloc_inv (a\<lparr>al_total_alloc_fails := n\<rparr>) = alloc_inv a"
  "alloc_inv (a\<lparr>al_hdrs := m\<rparr>) = alloc_inv a"
  "alloc_live (a\<lparr>al_total_alloc_bytes := n\<rparr>) = alloc_live a"
  "alloc_live (a\<lparr>al_total_alloc_fails := n\<rparr>) = alloc_live a"
  "alloc_live (a\<lparr>al_hdrs := m\<rparr>) = alloc_live a"
  by (simp_all add: alloc_inv_def alloc_live_def)

text \<open>\<open>obj_added a k p a'\<close>: the allocation of a fresh object turned \<open>a\<close> into \<open>a'\<close>.\<close>

definition obj_added :: "gmk_alloc_t \<Rightarrow> nat option \<Rightarrow> addr \<Rightarrow> gmk_alloc_t \<Rightarrow> bool" where
  "obj_added a k p a' \<longleftrightarrow> p \<noteq> 0 \<and> alloc_inv a' \<and> (k, p) \<notin> alloc_live a
     \<and> alloc_live a' = insert (k, p) (alloc_live a) \<and> al_hdrs a' = al_hdrs a \<and> al_arena a' = al_arena a"

lemma class_of_bytes: "class_of k sz \<Longrightarrow> unat sz \<le> obj_bytes k"
proof (cases k)
  case (Some i)
  assume c: "class_of k sz"
  then have "sz \<noteq> 0" "bin_index sz = int i" using Some by (simp_all add: class_of_def)
  moreover from this have "unat sz \<le> 65536" using bin_index_large [of sz] by fastforce
  ultimately show ?thesis using bin_index_eq [of sz] Some by (auto simp: obj_bytes_def)
qed (simp add: class_of_def obj_bytes_def)

lemma route_block:
  assumes inv: "alloc_inv a"
  obtains (ok) k p a' where "do { (p, bk) \<leftarrow> gmk_block_alloc (al_block a) sz; Some (p, a\<lparr>al_block := bk\<rparr>) }
        = Some (p, a')" "obj_added a k p a'" "class_of k sz" "al_total_alloc_bytes a' = al_total_alloc_bytes a"
    | (null) "do { (p, bk) \<leftarrow> gmk_block_alloc (al_block a) sz; Some (p, a\<lparr>al_block := bk\<rparr>) } = Some (0, a)"
      "block_full (al_block a) sz"
proof (rule block_alloc_cases [OF alloc_invD(3) [OF inv], of sz])
  fix i p b assume b: "gmk_block_alloc (al_block a) sz = Some (p, b)" "p \<noteq> 0" "block_inv b" "sz \<noteq> 0"
    "i < 12" "bin_index sz = int i" "(i, p) \<notin> block_live (al_block a)"
    "block_live b = insert (i, p) (block_live (al_block a))" "bk_base b = bk_base (al_block a)"
    "bk_total_size b = bk_total_size (al_block a)"
  have "obj_added a (Some i) p (a\<lparr>al_block := b\<rparr>)"
    using b alloc_inv_block [OF inv b(3,9,10)] by (auto simp: obj_added_def alloc_live_def)
  then show ?thesis using b by (intro that(1) [of p "a\<lparr>al_block := b\<rparr>" "Some i"]) (simp_all add: class_of_def)
qed (use that(2) in simp)

text \<open>No class that may serve the size has a free slot.\<close>

definition alloc_exhausted :: "gmk_alloc_t \<Rightarrow> u32 \<Rightarrow> bool" where
  "alloc_exhausted a sz \<longleftrightarrow> block_full (al_block a) sz
     \<and> (sz = 48 \<longrightarrow> slab_free_slots (al_task_slab a) = [])"

lemma gmk_alloc_cases:
  assumes inv: "alloc_inv a"
  obtains (ok) k p a' where "gmk_alloc a sz = Some (p, a')" "obj_added a k p a'" "class_of k sz"
      "al_total_alloc_bytes a' = al_total_alloc_bytes a + ucast sz"
    | (null) "gmk_alloc a sz = Some (0, a\<lparr>al_total_alloc_fails := al_total_alloc_fails a + 1\<rparr>)" "sz \<noteq> 0"
      "alloc_exhausted a sz"
    | (zero) "gmk_alloc a sz = Some (0, a)" "sz = 0"
proof -
  let ?blk = "do { (p, bk) \<leftarrow> gmk_block_alloc (al_block a) sz; Some (p, a\<lparr>al_block := bk\<rparr>) }"
  note out = that
  have added: "obj_added a k p (a'\<lparr>al_total_alloc_bytes := n\<rparr>)" if "obj_added a k p a'" for k p a' n
    using that by (simp add: obj_added_def)
  have blk: ?thesis if sz: "sz \<noteq> 0" and route: "alloc_route a sz = ?blk"
    and ts: "sz = 48 \<longrightarrow> slab_free_slots (al_task_slab a) = []"
  proof (rule route_block [OF inv, of sz])
    fix k p a' assume "?blk = Some (p, a')" "obj_added a k p a'" "class_of k sz"
      "al_total_alloc_bytes a' = al_total_alloc_bytes a"
    then show ?thesis using sz route added
      by (intro out(1) [of p "a'\<lparr>al_total_alloc_bytes := al_total_alloc_bytes a' + ucast sz\<rparr>" k])
        (simp_all add: gmk_alloc_def obj_added_def)
  next
    assume "?blk = Some (0, a)" "block_full (al_block a) sz"
    then show ?thesis using sz route ts by (intro out(2)) (simp_all add: gmk_alloc_def alloc_exhausted_def)
  qed
  consider "sz = 0" | "sz = 48" | "sz \<noteq> 0" "sz \<noteq> 48" "sz \<le> 65536" | "\<not> sz \<le> 65536" by fastforce
  then show ?thesis
  proof cases
    case 1
    then show ?thesis by (intro that(3)) (simp_all add: gmk_alloc_def)
  next
    case 2
    show ?thesis
    proof (rule slab.alloc_cases [OF alloc_invD(1) [OF inv]])
      fix p s assume p: "gmk_slab_alloc (al_task_slab a) = Some (p, s)" "p \<noteq> 0" "slab_inv s"
        "p \<notin> slab.live (al_task_slab a)" "slab.live s = insert p (slab.live (al_task_slab a))"
        "slab_frame s = slab_frame (al_task_slab a)"
      have "obj_added a None p (a\<lparr>al_task_slab := s\<rparr>)"
        using p alloc_inv_task [OF inv p(3,6)] by (auto simp: obj_added_def alloc_live_def)
      moreover have "alloc_route a sz = Some (p, a\<lparr>al_task_slab := s\<rparr>)"
        using p(1,2) 2 by (simp add: alloc_route_def)
      ultimately show ?thesis using 2 p(2) added
        by (intro out(1) [of p "a\<lparr>al_task_slab := s, al_total_alloc_bytes := al_total_alloc_bytes a + 48\<rparr>" None])
          (simp_all add: gmk_alloc_def class_of_def)
    next
      assume e: "gmk_slab_alloc (al_task_slab a) = Some (0, al_task_slab a)"
        "set (slab_free_slots (al_task_slab a)) = {}"
      then have "alloc_route a sz = ?blk" using 2 by (simp add: alloc_route_def)
      then show ?thesis using 2 e by (intro blk) simp_all
    qed
  next
    case 3
    then have "alloc_route a sz = ?blk" by (simp add: alloc_route_def)
    then show ?thesis using 3 by (intro blk) simp_all
  next
    case 4
    then have "alloc_route a sz = Some (0, a)"
      by (simp add: alloc_route_def word_le_nat_alt)
    moreover have "bin_index sz = -1" using 4 by (intro bin_index_large) (simp add: word_le_nat_alt)
    ultimately show ?thesis using 4
      by (intro out(2)) (auto simp: gmk_alloc_def alloc_exhausted_def block_full_def)
  qed
qed

text \<open>The region test of \<open>gmk_free\<close> in terms of numbers.\<close>

lemma in_region_iff:
  assumes "unat b + unat n < 2 ^ 64"
  shows "(b :: u64) \<le> p \<and> p < b + n \<longleftrightarrow> unat b \<le> unat p \<and> unat p < unat b + unat n"
  using unat_add_nowrap [of b n] assms by (simp add: word_le_nat_alt word_less_nat_alt)

lemma alloc_regions:
  assumes "alloc_inv a"
  shows "unat (sl_base (al_task_slab a)) + unat (sl_total_size (al_task_slab a)) < 2 ^ 64"
    "unat (sl_base (al_trace_slab a)) + unat (sl_total_size (al_trace_slab a)) < 2 ^ 64"
    "unat (bk_base (al_block a)) + unat (bk_total_size (al_block a)) < 2 ^ 64"
    "unat (sl_base (al_task_slab a)) + unat (sl_total_size (al_task_slab a)) \<le> unat (sl_base (al_trace_slab a))"
    "unat (sl_base (al_trace_slab a)) + unat (sl_total_size (al_trace_slab a)) \<le> unat (bk_base (al_block a))"
proof -
  have *: "unat (sl_base (al_task_slab a)) + unat (sl_total_size (al_task_slab a)) \<le> unat (sl_base (al_trace_slab a))"
    "unat (sl_base (al_trace_slab a)) + unat (sl_total_size (al_trace_slab a)) \<le> unat (bk_base (al_block a))"
    "unat (bk_base (al_block a)) + unat (bk_total_size (al_block a)) \<le> unat (bp_base (al_bump a))"
    "unat (bp_base (al_bump a)) < 2 ^ 64"
    using assms unat64_lt [of "bp_base (al_bump a)"] by (simp_all add: alloc_inv_def)
  then show "unat (sl_base (al_task_slab a)) + unat (sl_total_size (al_task_slab a)) < 2 ^ 64"
    "unat (sl_base (al_trace_slab a)) + unat (sl_total_size (al_trace_slab a)) < 2 ^ 64"
    "unat (bk_base (al_block a)) + unat (bk_total_size (al_block a)) < 2 ^ 64" by linarith+
  show "unat (sl_base (al_task_slab a)) + unat (sl_total_size (al_task_slab a)) \<le> unat (sl_base (al_trace_slab a))"
    "unat (sl_base (al_trace_slab a)) + unat (sl_total_size (al_trace_slab a)) \<le> unat (bk_base (al_block a))"
    by (fact *)+
qed

lemma alloc_live_extent:
  assumes inv: "alloc_inv a" and live: "(k, p) \<in> alloc_live a"
  shows "unat (ar_base (al_arena a)) \<le> unat p"
    "unat p + obj_bytes k \<le> unat (ar_base (al_arena a)) + unat (ar_size (al_arena a))"
    and "k = None \<Longrightarrow> unat (sl_base (al_task_slab a)) \<le> unat p
      \<and> unat p + obj_bytes k \<le> unat (sl_base (al_task_slab a)) + unat (sl_total_size (al_task_slab a))"
    and "k \<noteq> None \<Longrightarrow> unat (bk_base (al_block a)) \<le> unat p
      \<and> unat p + obj_bytes k \<le> unat (bk_base (al_block a)) + unat (bk_total_size (al_block a))"
proof -
  show n: "unat (sl_base (al_task_slab a)) \<le> unat p
      \<and> unat p + obj_bytes k \<le> unat (sl_base (al_task_slab a)) + unat (sl_total_size (al_task_slab a))"
    if "k = None"
    using that live slab_live_extent [OF alloc_invD(1) [OF inv], of p] alloc_invD(5) [OF inv]
    by (auto simp: alloc_live_def obj_bytes_def)
  show s: "unat (bk_base (al_block a)) \<le> unat p
      \<and> unat p + obj_bytes k \<le> unat (bk_base (al_block a)) + unat (bk_total_size (al_block a))"
    if "k \<noteq> None"
    using that live block_live_extents(1,2) [OF alloc_invD(3) [OF inv]]
    by (auto simp: alloc_live_def obj_bytes_def)
  have "unat (ar_base (al_arena a)) \<le> unat (sl_base (al_task_slab a))"
    "unat (bk_base (al_block a)) + unat (bk_total_size (al_block a))
      \<le> unat (ar_base (al_arena a)) + unat (ar_size (al_arena a))"
    using inv by (auto simp: alloc_inv_def)
  then show "unat (ar_base (al_arena a)) \<le> unat p"
    "unat p + obj_bytes k \<le> unat (ar_base (al_arena a)) + unat (ar_size (al_arena a))"
    using n s alloc_regions(4,5) [OF inv] by (cases k; force)+
qed

text \<open>No two live objects share a byte.\<close>

lemma alloc_live_disjoint:
  assumes inv: "alloc_inv a" and p: "(k, p) \<in> alloc_live a" and q: "(l, q) \<in> alloc_live a"
    and ne: "(k, p) \<noteq> (l, q)"
  shows "extent p (obj_bytes k) \<inter> extent q (obj_bytes l) = {}"
proof (cases k; cases l)
  assume "k = None" "l = None"
  then show ?thesis
    using p q ne slab_live_disjoint [OF alloc_invD(1) [OF inv], of p q] alloc_invD(5) [OF inv]
    by (auto simp: alloc_live_def obj_bytes_def)
next
  fix j assume "k = None" "l = Some j"
  then show ?thesis
    using alloc_live_extent(3) [OF inv p] alloc_live_extent(4) [OF inv q] alloc_regions(4,5) [OF inv]
    by (auto simp: extent_def)
next
  fix i assume "k = Some i" "l = None"
  then show ?thesis
    using alloc_live_extent(4) [OF inv p] alloc_live_extent(3) [OF inv q] alloc_regions(4,5) [OF inv]
    by (auto simp: extent_def)
next
  fix i j assume "k = Some i" "l = Some j"
  then show ?thesis
    using p q ne block_live_extents(3) [OF alloc_invD(3) [OF inv], of i p j q]
    by (auto simp: alloc_live_def obj_bytes_def)
qed

lemma obj_bytes_pos: "0 < obj_bytes k"
  by (simp add: obj_bytes_def split: option.splits)

lemma free_live:
  assumes inv: "alloc_inv a" and live: "(k, p) \<in> alloc_live a" and sz: "class_of k sz"
  obtains a' where "gmk_free a p sz = Some a'" "alloc_inv a'" "alloc_live a' = alloc_live a - {(k, p)}"
    "al_hdrs a' = al_hdrs a"
proof -
  note ext = alloc_live_extent [OF inv live] and reg = alloc_regions [OF inv]
  have "0 < unat (ar_base (al_arena a))" using inv by (simp add: alloc_inv_def unat_gt_0)
  then have p0: "p \<noteq> 0" using ext(1) by auto
  have sz0: "sz \<noteq> 0" using sz by (auto simp: class_of_def split: option.splits)
  show ?thesis
  proof (cases k)
    case None
    have "p \<in> slab.live (al_task_slab a)" using live None by (auto simp: alloc_live_def)
    then obtain s where s: "gmk_slab_free (al_task_slab a) p = Some s" "slab_inv s"
      "slab.live s = slab.live (al_task_slab a) - {p}" "slab_frame s = slab_frame (al_task_slab a)"
      using slab.release_live [OF alloc_invD(1) [OF inv]] by blast
    have "sl_base (al_task_slab a) \<le> p \<and> p < sl_base (al_task_slab a) + sl_total_size (al_task_slab a)"
      using ext(3) [OF None] obj_bytes_pos [of k] by (simp add: in_region_iff [OF reg(1)])
    then have "gmk_free a p sz = Some (a\<lparr>al_task_slab := s\<rparr>)"
      using p0 sz0 s(1) by (simp add: gmk_free_def)
    moreover have "alloc_live (a\<lparr>al_task_slab := s\<rparr>) = alloc_live a - {(k, p)}"
      using s(3) None by (auto simp: alloc_live_def)
    ultimately show ?thesis using alloc_inv_task [OF inv s(2,4)]
      by (intro that [of "a\<lparr>al_task_slab := s\<rparr>"]) simp_all
  next
    case (Some i)
    have l: "(i, p) \<in> block_live (al_block a)" using live Some by (auto simp: alloc_live_def)
    have bi: "bin_index sz = int i" using sz Some by (simp add: class_of_def)
    obtain b where b: "gmk_block_free (al_block a) p sz = Some b" "block_inv b"
      "block_live b = block_live (al_block a) - {(i, p)}" "bk_base b = bk_base (al_block a)"
      "bk_total_size b = bk_total_size (al_block a)"
      using block_free_live [OF alloc_invD(3) [OF inv] l sz0 bi] by blast
    have e: "unat (bk_base (al_block a)) \<le> unat p"
      "unat p < unat (bk_base (al_block a)) + unat (bk_total_size (al_block a))"
      using ext(4) obj_bytes_pos [of k] Some by auto
    have "\<not> (sl_base (al_task_slab a) \<le> p \<and> p < sl_base (al_task_slab a) + sl_total_size (al_task_slab a))"
      "\<not> (sl_base (al_trace_slab a) \<le> p \<and> p < sl_base (al_trace_slab a) + sl_total_size (al_trace_slab a))"
      "bk_base (al_block a) \<le> p \<and> p < bk_base (al_block a) + bk_total_size (al_block a)"
      using e reg(4,5)
      by (simp_all only: in_region_iff [OF reg(1)] in_region_iff [OF reg(2)] in_region_iff [OF reg(3)]) linarith+
    then have "gmk_free a p sz = Some (a\<lparr>al_block := b\<rparr>)"
      using p0 sz0 b(1) by (auto simp: gmk_free_def Let_def)
    moreover have "alloc_live (a\<lparr>al_block := b\<rparr>) = alloc_live a - {(k, p)}"
      using b(3) Some by (auto simp: alloc_live_def)
    ultimately show ?thesis using alloc_inv_block [OF inv b(2,4,5)]
      by (intro that [of "a\<lparr>al_block := b\<rparr>"]) simp_all
  qed
qed


section \<open>Initialisation\<close>

lemma unat_percent:
  assumes "unat (n :: u64) < 2 ^ 33" "c \<le> 100" "unat m = c"
  shows "unat ((n * m) div 100) = unat n * c div 100"
proof -
  have "unat n * c < 2 ^ 64" using assms(1,2) by (intro order_le_less_trans [OF mult_le_mono2 [OF assms(2)]]) simp
  then have "unat (n * m) = unat n * c" using assms(3) by (subst unat_mult_nowrap) simp_all
  then show ?thesis by (simp add: unat_div)
qed

text \<open>The split of an arena of \<open>n\<close> bytes.\<close>

lemma arena_split:
  fixes n :: u64
  assumes "4096 \<le> unat n" "unat n < 2 ^ 33"
  defines "t \<equiv> (n * 10) div 100" and "r \<equiv> (n * 2) div 100" and "u \<equiv> (n * 20) div 100"
  defines "b \<equiv> n - t - r - u"
  shows "unat t + unat r + unat b + unat u = unat n" "52 \<le> unat t" "36 \<le> unat r" "0 < unat b"
    "0 < unat u" "unat u < 2 ^ 31"
proof -
  have e: "unat t = unat n * 10 div 100" "unat r = unat n * 2 div 100" "unat u = unat n * 20 div 100"
    unfolding t_def r_def u_def
    using unat_percent [OF assms(2), of 10 10] unat_percent [OF assms(2), of 2 2]
      unat_percent [OF assms(2), of 20 20] by simp_all
  have "unat t + unat r + unat u < unat n" using assms(1) unfolding e by linarith
  then have "t \<le> n" "r \<le> n - t" "u \<le> n - t - r" and "unat b = unat n - unat t - unat r - unat u"
    unfolding b_def by (simp_all add: word_le_nat_alt unat_sub)
  then show "unat t + unat r + unat b + unat u = unat n" "0 < unat b"
    using \<open>unat t + unat r + unat u < unat n\<close> by linarith+
  show "52 \<le> unat t" "36 \<le> unat r" "0 < unat u" using assms(1) unfolding e by linarith+
  have "unat n * 20 div 100 < 1717986919 + 1" using assms(2) by simp
  then show "unat u < 2 ^ 31" unfolding e by simp
qed

text \<open>The slabs, bins and bump region that initialisation carves out of an arena at \<open>p\<close>.\<close>

lemma slab_init_ok:
  assumes "mem \<noteq> 0" "unat mem + unat sz \<le> 2 ^ 64" "unat obj + 7 < 2 ^ 32" "unat sz < 2 ^ 33"
    "obj \<noteq> 0" "unat (align8 obj) + 4 \<le> unat sz"
  obtains s' where "gmk_slab_init s mem sz obj = (0, s')" "slab_inv s'" "slab.live s' = {}"
    "sl_base s' = mem" "sl_total_size s' = sz" "sl_obj_size s' = align8 obj"
proof -
  obtain c s' where i: "gmk_slab_init s mem sz obj = (c, s')" by fastforce
  show ?thesis
  proof (rule slab_init_cases [OF i assms(2-4)])
    assume "c = 0" "slab_inv s'" "slab_free_slots s' = [0..<unat (sl_capacity s')]" "sl_base s' = mem"
      "sl_total_size s' = sz" "sl_obj_size s' = align8 obj"
    then show ?thesis using i by (intro that [of s']) (auto simp: slab.live_def)
  qed (use assms in auto)
qed

lemma arena_init_cases:
  assumes "gmk_arena_init ar n h = (c, ar', h')" "n \<noteq> 0" "hal_owns h0 P h"
  obtains (ok) "c = 0" "ar_base ar' \<noteq> 0" "ar_size ar' = n" "hal_owns h0 (add_mset (ar_base ar') P) h'"
      "gmk_hal_page_alloc n 64 h = (ar_base ar', h')"
    | (fail) "c = -1" "hal_owns h0 P h'" "fst (gmk_hal_page_alloc n 64 h) = 0"
proof -
  obtain p h1 where p: "gmk_hal_page_alloc n 64 h = (p, h1)" by fastforce
  note o = hal_owns_page_alloc [OF assms(3) p]
  show ?thesis
  proof (cases "p = 0")
    case True
    then show ?thesis using assms(1,2) p o by (intro that(2)) (auto simp: gmk_arena_init_def)
  next
    case False
    then have "c = 0" "ar' = ar\<lparr>ar_base := p, ar_size := n\<rparr>" "h' = h1"
      using assms(1,2) p by (auto simp: gmk_arena_init_def)
    then show ?thesis using False o p by (intro that(1)) simp_all
  qed
qed

lemma alloc_init_cases:
  assumes n: "4096 \<le> unat n" "unat n < 2 ^ 33" and o: "hal_owns h0 P h" and space: "libc_in_space h"
  obtains (ok) a' h' where "gmk_alloc_init a n h = (0, a', h')" "alloc_inv a'" "alloc_live a' = {}"
      "ar_size (al_arena a') = n" "hal_owns h0 (add_mset (ar_base (al_arena a')) P) h'"
    | (fail) a' h' where "gmk_alloc_init a n h = (-1, a', h')" "hal_owns h0 P h'"
      "fst (gmk_hal_page_alloc n 64 h) = 0"
proof -
  have nz: "n \<noteq> 0" "\<not> n < 4096" using n(1) by (auto simp: word_less_nat_alt)
  obtain c ar h1 where ar: "gmk_arena_init (al_arena zero_alloc) n h = (c, ar, h1)"
    using prod_cases3 by blast
  show ?thesis
  proof (rule arena_init_cases [OF ar nz(1) o])
    assume "c = -1" "hal_owns h0 P h1" "fst (gmk_hal_page_alloc n 64 h) = 0"
    then show ?thesis using ar nz(2) that(2) by (simp add: gmk_alloc_init_def)
  next
    assume k: "c = 0" "ar_base ar \<noteq> 0" "ar_size ar = n" "hal_owns h0 (add_mset (ar_base ar) P) h1"
      "gmk_hal_page_alloc n 64 h = (ar_base ar, h1)"
    define p where "p = ar_base ar"
    define t where "t = (n * 10) div 100" define r where "r = (n * 2) div 100"
    define u where "u = (n * 20) div 100" define b where "b = n - t - r - u"
    note sp = arena_split [OF n, folded t_def r_def u_def, folded b_def]
    have fit: "unat p + unat n \<le> 2 ^ 64"
      using page_alloc_in_space [OF space k(5)] n(2) by (simp add: p_def)
    have a1: "unat (p + t) = unat p + unat t" using fit sp by (intro unat_add_nowrap) simp
    have a2: "unat (p + t + r) = unat p + unat t + unat r"
      using fit sp a1 by (subst unat_add_nowrap) simp_all
    have a3: "unat (p + t + r + b) = unat p + unat t + unat r + unat b"
      using fit sp a2 by (subst unat_add_nowrap) simp_all
    have p0: "p \<noteq> 0" using k(2) by (simp add: p_def)
    have pz: "0 < unat p" using k(2) by (simp add: p_def unat_gt_0)
    have nz': "p + t \<noteq> 0" "p + t + r \<noteq> 0" "p + t + r + b \<noteq> 0" using a1 a2 a3 pz by auto
    have b0: "b \<noteq> 0" using sp(4) by auto
    have al: "unat (align8 48) = 48" "unat (align8 32) = 32" by (simp_all add: align8_def)
    obtain ts where ts: "gmk_slab_init zero_slab p t 48 = (0, ts)" "slab_inv ts" "slab.live ts = {}"
      "sl_base ts = p" "sl_total_size ts = t" "sl_obj_size ts = align8 48"
      using slab_init_ok [of p t 48 zero_slab] fit sp n(2) p0 al by auto
    obtain tr where tr: "gmk_slab_init zero_slab (p + t) r 32 = (0, tr)" "slab_inv tr"
      "sl_base tr = p + t" "sl_total_size tr = r"
      using slab_init_ok [of "p + t" r 32 zero_slab] fit sp n(2) nz' a1 al by auto
    obtain bk where bk: "gmk_block_init zero_block (p + t + r) b = (0, bk)" "block_inv bk"
      "bk_base bk = p + t + r" "bk_total_size bk = b" "block_live bk = {}"
      using block_init_ok [of "p + t + r" b zero_block] fit sp n(2) nz' b0 a2 by auto
    define bp where "bp = zero_bump\<lparr>bp_base := p + t + r + b, bp_size := u, bp_high_water := 0, bp_offset := 0\<rparr>"
    have bp: "gmk_bump_init zero_bump (p + t + r + b) u = (0, bp)" "bump_inv bp"
      using nz' sp fit a3 by (auto simp: gmk_bump_init_def bp_def bump_inv_def)
    define a' where "a' = zero_alloc\<lparr>al_arena := ar, al_task_slab := ts, al_trace_slab := tr,
      al_block := bk, al_bump := bp\<rparr>"
    have z: "al_task_slab zero_alloc = zero_slab" "al_trace_slab zero_alloc = zero_slab"
      "al_block zero_alloc = zero_block" "al_bump zero_alloc = zero_bump" by (simp_all add: zero_alloc_def)
    have "gmk_alloc_init a n h = (0, a', h1)"
      using ar k(1) nz(2) ts(1) tr(1) bk(1) bp(1)
      by (simp add: gmk_alloc_init_def Let_def z p_def [symmetric] t_def [symmetric] r_def [symmetric]
          u_def [symmetric] b_def [symmetric] a'_def)
    moreover have "alloc_inv a'"
      using ts tr bk bp k fit sp a1 a2 a3 al unfolding alloc_inv_def
      by (simp add: a'_def p_def [symmetric]) (simp add: bp_def)
    moreover have "alloc_live a' = {}" using ts(3) bk(5) by (simp add: alloc_live_def a'_def)
    ultimately show ?thesis using k by (intro that(1) [of a' h1]) (simp_all add: a'_def)
  qed
qed

lemma arena_destroy_frees:
  "hal_owns h0 (add_mset (ar_base ar) P) h \<Longrightarrow> gmk_arena_destroy ar h = (ar', h') \<Longrightarrow> hal_owns h0 P h'"
  using hal_owns_nonzero [of h0 "add_mset (ar_base ar) P" h "ar_base ar"]
  by (auto simp: gmk_arena_destroy_def intro: hal_owns_page_free)

lemma alloc_destroy_frees:
  "hal_owns h0 (add_mset (ar_base (al_arena a)) P) h \<Longrightarrow> gmk_alloc_destroy a h = (a', h') \<Longrightarrow>
   hal_owns h0 P h'"
  by (auto simp: gmk_alloc_destroy_def Let_def split: prod.splits dest: arena_destroy_frees)

section \<open>Reference-counted payloads\<close>

text \<open>A payload at address \<open>q\<close> with \<open>n\<close> references to \<open>sz\<close> bytes: the object behind it is live and
  its header says so.\<close>

definition payload_at :: "gmk_alloc_t \<Rightarrow> nat option \<Rightarrow> addr \<Rightarrow> nat \<Rightarrow> u32 \<Rightarrow> bool" where
  "payload_at a k q n sz \<longleftrightarrow> q \<noteq> 0 \<and> 0 < n \<and> n < 2 ^ 32 \<and> (k, q - 8) \<in> alloc_live a
     \<and> class_of k (8 + sz) \<and> al_hdrs a (q - 8) = Some \<lparr>ph_refcount = of_nat n, ph_size = sz\<rparr>"

text \<open>The size stays below \<open>2 ^ 32 - 8\<close> so that the total size does not wrap around.\<close>

lemma payload_alloc_cases:
  assumes inv: "alloc_inv a" and sz: "sz \<noteq> 0" "unat sz < 2 ^ 32 - 8"
  obtains (ok) k q a' where "gmk_payload_alloc a sz = Some (q, a')" "alloc_inv a'" "payload_at a' k q 1 sz"
      "(k, q - 8) \<notin> alloc_live a" "alloc_live a' = insert (k, q - 8) (alloc_live a)"
      "unat sz + 8 \<le> obj_bytes k"
    | (null) a' where "gmk_payload_alloc a sz = Some (0, a')" "alloc_inv a'" "alloc_live a' = alloc_live a"
      "alloc_exhausted a (8 + sz)"
proof -
  have tot: "unat (8 + sz) = unat sz + 8" using sz(2) by (subst unat_add_nowrap) simp_all
  then have nz: "8 + sz \<noteq> 0" by auto
  show ?thesis
  proof (rule gmk_alloc_cases [OF inv, of "8 + sz"])
    fix k p a1 assume k: "gmk_alloc a (8 + sz) = Some (p, a1)" "obj_added a k p a1" "class_of k (8 + sz)"
    let ?a = "a1\<lparr>al_hdrs := (al_hdrs a1)(p \<mapsto> \<lparr>ph_refcount = 1, ph_size = sz\<rparr>)\<rparr>"
    have live: "(k, p) \<in> alloc_live a1" "alloc_inv a1" "p \<noteq> 0" using k(2) by (auto simp: obj_added_def)
    have b: "unat sz + 8 \<le> obj_bytes k" using class_of_bytes [OF k(3)] tot by simp
    have "unat p + obj_bytes k \<le> 2 ^ 64"
      using alloc_live_extent(2) [OF live(2,1)] live(2) by (auto simp: alloc_inv_def)
    moreover have "0 < unat sz" using sz(1) by (simp add: unat_gt_0)
    ultimately have "unat (p + 8) = unat p + 8" using b by (subst unat_add_nowrap) simp_all
    then have "p + 8 \<noteq> 0" by auto
    then have "payload_at ?a k (p + 8) 1 sz" using live(1) k(3) by (simp add: payload_at_def)
    then show ?thesis using k live sz(1) b
      by (intro that(1) [of "p + 8" ?a k]) (simp_all add: gmk_payload_alloc_def obj_added_def)
  next
    assume "gmk_alloc a (8 + sz) = Some (0, a\<lparr>al_total_alloc_fails := al_total_alloc_fails a + 1\<rparr>)"
      "alloc_exhausted a (8 + sz)"
    then show ?thesis using sz(1) inv
      by (intro that(2) [of "a\<lparr>al_total_alloc_fails := al_total_alloc_fails a + 1\<rparr>"])
        (simp_all add: gmk_payload_alloc_def)
  qed (use nz in simp)
qed

lemma payload_retain_at:
  assumes "payload_at a k q n sz" "Suc n < 2 ^ 32"
  obtains a' where "gmk_payload_retain a q = Some a'" "payload_at a' k q (Suc n) sz"
    "alloc_live a' = alloc_live a" "alloc_inv a' = alloc_inv a"
proof -
  let ?a = "a\<lparr>al_hdrs := (al_hdrs a)(q - 8 \<mapsto> \<lparr>ph_refcount = of_nat n + 1, ph_size = sz\<rparr>)\<rparr>"
  have "gmk_payload_retain a q = Some ?a"
    using assms(1) by (simp add: gmk_payload_retain_def payload_at_def)
  moreover have "payload_at ?a k q (Suc n) sz"
    using assms by (simp add: payload_at_def add.commute)
  ultimately show ?thesis by (intro that [of ?a]) simp_all
qed

text \<open>A release frees the object exactly when it drops the last reference.\<close>

lemma payload_release_at:
  assumes inv: "alloc_inv a" and p: "payload_at a k q n sz"
  obtains (last) a' where "n = 1" "gmk_payload_release a q = Some (1, a')" "alloc_inv a'"
      "alloc_live a' = alloc_live a - {(k, q - 8)}"
    | (kept) a' where "1 < n" "gmk_payload_release a q = Some (0, a')" "payload_at a' k q (n - 1) sz"
      "alloc_inv a'" "alloc_live a' = alloc_live a"
proof -
  have h: "al_hdrs a (q - 8) = Some \<lparr>ph_refcount = of_nat n, ph_size = sz\<rparr>" "q \<noteq> 0" "0 < n"
    "n < 2 ^ 32" "(k, q - 8) \<in> alloc_live a" "class_of k (8 + sz)"
    using p by (simp_all add: payload_at_def)
  have u: "unat (of_nat n :: u32) = n" using h(4) by (simp add: unat_of_nat_lt)
  have one: "(of_nat n :: u32) = 1 \<longleftrightarrow> n = 1" using u by (metis unat_1 of_nat_1)
  let ?a = "a\<lparr>al_hdrs := (al_hdrs a)(q - 8 \<mapsto> \<lparr>ph_refcount = of_nat n - 1, ph_size = sz\<rparr>)\<rparr>"
  show ?thesis
  proof (cases "n = 1")
    case True
    obtain a' where a': "gmk_free ?a (q - 8) (8 + sz) = Some a'" "alloc_inv a'"
      "alloc_live a' = alloc_live ?a - {(k, q - 8)}"
      using free_live [of ?a k "q - 8" "8 + sz"] inv h(5,6) by auto
    then have "gmk_payload_release a q = Some (1, a')"
      using h(1,2) one True by (simp add: gmk_payload_release_def Let_def)
    then show ?thesis using True a' by (intro that(1)) simp_all
  next
    case False
    then have "gmk_payload_release a q = Some (0, ?a)"
      using h(1,2) one by (simp add: gmk_payload_release_def Let_def)
    moreover have "payload_at ?a k q (n - 1) sz"
      using h False by (simp add: payload_at_def of_nat_diff)
    ultimately show ?thesis using False h(3) inv by (intro that(2) [of ?a]) simp_all
  qed
qed

text \<open>\<open>n\<close> retains and \<open>n + 1\<close> releases of a fresh payload: only the last release frees it.\<close>

fun payload_retains :: "nat \<Rightarrow> gmk_alloc_t \<Rightarrow> addr \<Rightarrow> gmk_alloc_t exec" where
  "payload_retains 0 a q = Some a"
| "payload_retains (Suc n) a q = do { a' \<leftarrow> gmk_payload_retain a q; payload_retains n a' q }"

fun payload_releases :: "nat \<Rightarrow> gmk_alloc_t \<Rightarrow> addr \<Rightarrow> (rc list \<times> gmk_alloc_t) exec" where
  "payload_releases 0 a q = Some ([], a)"
| "payload_releases (Suc n) a q =
     do { (c, a') \<leftarrow> gmk_payload_release a q; (cs, a'') \<leftarrow> payload_releases n a' q; Some (c # cs, a'') }"

lemma payload_retains_at:
  "payload_at a k q m sz \<Longrightarrow> m + n < 2 ^ 32 \<Longrightarrow> alloc_inv a \<Longrightarrow>
   \<exists>a'. payload_retains n a q = Some a' \<and> payload_at a' k q (m + n) sz
     \<and> alloc_live a' = alloc_live a \<and> alloc_inv a'"
proof (induction n arbitrary: a m)
  case (Suc n)
  then obtain a1 where a1: "gmk_payload_retain a q = Some a1" "payload_at a1 k q (Suc m) sz"
    "alloc_live a1 = alloc_live a" "alloc_inv a1"
    using payload_retain_at [OF Suc.prems(1)] by (metis add_Suc_right add_lessD1 add_Suc)
  then show ?case using Suc.IH [OF a1(2)] Suc.prems(2) by simp
qed simp

lemma payload_releases_at:
  "payload_at a k q (Suc n) sz \<Longrightarrow> alloc_inv a \<Longrightarrow>
   \<exists>a'. payload_releases (Suc n) a q = Some (replicate n 0 @ [1], a') \<and> alloc_inv a'
     \<and> alloc_live a' = alloc_live a - {(k, q - 8)}"
proof (induction n arbitrary: a)
  case 0
  then show ?case using payload_release_at [OF 0(2,1)] by fastforce
next
  case (Suc n)
  obtain a1 where a1: "gmk_payload_release a q = Some (0, a1)" "payload_at a1 k q (Suc n) sz"
    "alloc_inv a1" "alloc_live a1 = alloc_live a"
    by (rule payload_release_at [OF Suc.prems(2,1)]) (use that in auto)
  obtain a' where "payload_releases (Suc n) a1 q = Some (replicate n 0 @ [1], a')" "alloc_inv a'"
    "alloc_live a' = alloc_live a - {(k, q - 8)}"
    using Suc.IH [OF a1(2,3)] a1(4) by auto
  then show ?case using a1(1) by (subst payload_releases.simps(2)) (simp del: payload_releases.simps)
qed

text \<open>Operations on a payload leave the headers of the others alone.\<close>

lemma free_hdrs: "gmk_free a p sz = Some a' \<Longrightarrow> al_hdrs a' = al_hdrs a"
  by (auto simp: gmk_free_def Let_def bind_eq_Some_conv split: if_splits)

lemma payload_retains_hdrs:
  "payload_retains n a q = Some a' \<Longrightarrow> x \<noteq> q - 8 \<Longrightarrow> al_hdrs a' x = al_hdrs a x"
  by (induction n arbitrary: a)
    (auto simp: gmk_payload_retain_def bind_eq_Some_conv split: if_splits)

lemma payload_release_hdrs:
  "gmk_payload_release a q = Some (e, a') \<Longrightarrow> x \<noteq> q - 8 \<Longrightarrow> al_hdrs a' x = al_hdrs a x"
  by (auto simp: gmk_payload_release_def Let_def bind_eq_Some_conv split: if_splits dest: free_hdrs)

end
