(* ===== verification/Sample_States.thy ===== *)
theory Sample_States
  imports Sched Alloc
begin

text \<open>
  Small concrete states on which the theorems of the root theory are applied: rings of capacity 2
  as the init functions leave them, a scheduler with one worker, and a C library whose \<open>n\<close>-th
  answer, for the first 1024 requests of at most \<open>2 ^ 32\<close> bytes, is the address \<open>2 ^ 33 * (n + 1)\<close>.
\<close>

definition sample_hal :: hal where
  "sample_hal = \<lparr>hal_answer = \<lambda>n a s. if n < 1024 \<and> unat s \<le> 2 ^ 32
     then of_nat (2 ^ 33 * (n + 1)) else 0, hal_calls = 0, hal_live = []\<rparr>"

definition sample_spsc :: "'a \<Rightarrow> 'a gmk_ring_spsc" where
  "sample_spsc z = \<lparr>sp_head = 0, sp_tail = 0, sp_cap = 2, sp_mask = 1, sp_elem_size = 48,
     sp_ptr = 4096, sp_buf = [z, z]\<rparr>"

definition sample_mpmc :: "'a \<Rightarrow> 'a gmk_ring_mpmc" where
  "sample_mpmc z = \<lparr>mp_head = 0, mp_tail = 0, mp_cap = 2, mp_mask = 1, mp_elem_size = 48,
     mp_cell_size = cell_stride 48, mp_ptr = 4096, mp_buf = mpmc_cells 2 z\<rparr>"

definition sample_rq :: gmk_rq where
  "sample_rq = \<lparr>rq_queues = replicate 4 (sample_mpmc zero_task), rq_pop_counters = replicate 4 0\<rparr>"

definition sample_lq :: gmk_lq where
  "sample_lq = \<lparr>lq_ring = sample_spsc zero_task, lq_yield_watermark = 1, lq_cap = 2\<rparr>"

definition sample_evq :: gmk_evq where
  "sample_evq = \<lparr>evq_ptr = 4096, evq_heap = [zero_evq_entry, zero_evq_entry], evq_count = 0,
     evq_cap = 2, evq_next_seq = 0\<rparr>"

definition sample_sched :: gmk_sched where
  "sample_sched = \<lparr>sd_rq = sample_rq, sd_lqs_ptr = 4096, sd_lqs = [sample_lq], sd_evq = sample_evq,
     sd_overflow = sample_mpmc zero_task, sd_n_workers = 1, sd_next_seq = 0\<rparr>"

definition sample_slab :: gmk_slab where
  "sample_slab = \<lparr>sl_base = 4096, sl_total_size = 104, sl_obj_size = 48, sl_capacity = 2,
     sl_alloc_count = 0, sl_high_water = 0, sl_free_list_at = 4192, sl_free_list = [1, -1],
     sl_free_head = 0\<rparr>"

definition sample_bump :: gmk_bump_t where
  "sample_bump = \<lparr>bp_base = 4096, bp_size = 4096, bp_offset = 0, bp_high_water = 0\<rparr>"

definition sample_alloc :: gmk_alloc_t where
  "sample_alloc = fst (snd (gmk_alloc_init zero_alloc 8192 sample_hal))"

lemma power_of_two_2: "gmk_is_power_of_two 2"
  by (simp add: gmk_is_power_of_two_def)

lemma sample_spsc_inv: "spsc_inv (sample_spsc z)" "spsc_contents (sample_spsc z) = []"
  "spsc_capacity (sample_spsc z) = 2"
  by (simp_all add: spsc_inv_def sample_spsc_def spsc_contents_def spsc_capacity_def power_of_two_2)

lemma sample_mpmc_inv: "mpmc_inv (sample_mpmc z)" "mpmc_contents (sample_mpmc z) = []"
  "mpmc_capacity (sample_mpmc z) = 2"
proof -
  have "sample_mpmc z = (sample_mpmc z)\<lparr>mp_cap := 2, mp_mask := 2 - 1, mp_buf := mpmc_cells 2 z,
      mp_head := 0, mp_tail := 0\<rparr>"
    by (simp add: sample_mpmc_def)
  then show "mpmc_inv (sample_mpmc z)"
    by (subst \<open>sample_mpmc z = _\<close>) (rule mpmc_cells_inv, simp_all add: power_of_two_2)
qed (simp_all add: sample_mpmc_def mpmc_contents_def mpmc_capacity_def)

lemma sample_rq_inv: "rq_inv sample_rq" "rq_lists sample_rq = replicate 4 []"
  "rq_spent sample_rq = replicate 4 0" "rq_caps sample_rq = replicate 4 2"
  using sample_mpmc_inv [of zero_task]
  by (auto simp: sample_rq_def rq_inv_def rq_lists_def rq_spent_def rq_caps_def)

lemma sample_lq_inv: "lq_inv sample_lq" "lq_tasks sample_lq = []" "lq_capacity sample_lq = 2"
  using sample_spsc_inv [of zero_task]
  by (simp_all add: sample_lq_def lq_inv_def lq_tasks_def lq_capacity_def sample_spsc_def)

lemma sample_evq_inv: "evq_inv sample_evq" "evq_pending sample_evq = {#}"
  by (simp_all add: sample_evq_def evq_inv_def evq_pending_def heap_ok_def)

lemma sample_sched_inv: "sched_inv sample_sched"
  using sample_rq_inv sample_lq_inv sample_evq_inv sample_mpmc_inv [of zero_task]
  by (simp add: sample_sched_def sched_inv_def)

lemma sample_slab_inv: "slab_inv sample_slab" "slab_free_slots sample_slab = [0, 1]"
proof -
  have two: "unat (2 :: u32) = Suc (Suc 0)" by simp
  show fs: "slab_free_slots sample_slab = [0, 1]"
    unfolding slab_free_slots_def sample_slab_def gmk_slab.simps two by simp
  show "slab_inv sample_slab"
    unfolding slab_inv_def fs by (simp add: sample_slab_def)
qed

lemma sample_bump_inv: "bump_inv sample_bump"
  by (simp add: sample_bump_def bump_inv_def)

lemma sample_hal_space: "libc_in_space sample_hal"
proof -
  have "unat (of_nat (2 ^ 33 * (n + 1)) :: u64) + unat s \<le> 2 ^ 64"
    if "n < 1024" "unat s \<le> 2 ^ 32" for n and s :: u64
  proof -
    have "2 ^ 33 * (n + 1) < 2 ^ 64" using that by simp
    then have "unat (of_nat (2 ^ 33 * (n + 1)) :: u64) = 2 ^ 33 * (n + 1)" by (intro unat_of_nat_lt) simp
    then show ?thesis using that by (simp del: of_nat_mult of_nat_add)
  qed
  moreover have "unat s \<le> 2 ^ 64" for s :: u64 by (simp add: less_imp_le)
  ultimately show ?thesis by (auto simp: libc_in_space_def sample_hal_def simp del: of_nat_mult of_nat_add)
qed

lemma sample_alloc_init:
  "\<exists>h'. gmk_alloc_init zero_alloc 8192 sample_hal = (0, sample_alloc, h')"
  "alloc_inv sample_alloc" "alloc_live sample_alloc = {}"
proof -
  obtain a' h' where "gmk_alloc_init zero_alloc 8192 sample_hal = (0, a', h')" "alloc_inv a'"
    "alloc_live a' = {}"
  proof (rule alloc_init_cases [of 8192 sample_hal "{#}" sample_hal zero_alloc])
    assume "fst (gmk_hal_page_alloc 8192 64 sample_hal) = 0"
    then show thesis by (simp add: hal_defs sample_hal_def)
  qed (use sample_hal_space in auto)
  then show "\<exists>h'. gmk_alloc_init zero_alloc 8192 sample_hal = (0, sample_alloc, h')"
    "alloc_inv sample_alloc" "alloc_live sample_alloc = {}" by (simp_all add: sample_alloc_def)
qed

lemma sample_alloc_task_slots: "slab_free_slots (al_task_slab sample_alloc) \<noteq> []"
proof
  let ?s = "al_task_slab sample_alloc"
  assume "slab_free_slots ?s = []"
  moreover have "slab.live ?s = {}" using sample_alloc_init(3) by (simp add: alloc_live_def)
  moreover have "sl_capacity ?s \<noteq> 0"
    using alloc_invD(1) [OF sample_alloc_init(2)] by (simp add: slab_inv_def)
  ultimately show False by (simp add: slab.live_def lessThan_empty_iff unat_eq_0)
qed

lemma sample_alloc_48: "\<exists>p a. gmk_alloc sample_alloc 48 = Some (p, a) \<and> p \<noteq> 0"
proof (rule gmk_alloc_cases [OF sample_alloc_init(2), of 48])
  assume "alloc_exhausted sample_alloc 48"
  then show ?thesis using sample_alloc_task_slots by (simp add: alloc_exhausted_def)
qed (auto simp: obj_added_def)

end
