(* ===== verification/Queue_Properties.thy ===== *)
theory Queue_Properties
  imports Sample_States
begin

text \<open>
  The properties of the queues: the two rings, the ready queue, the event queue, and the enqueue
  and yield paths of the scheduler that is built from them.
\<close>

section \<open>The ready queue\<close>

text \<open>C1: Bounded waiting.  On a well-formed ready queue every schedule of pushes and pops returns,
  and the first \<open>k + 1\<close> tasks that wait at priority \<open>p\<close> are handed out, in their order, by any
  schedule with at least \<open>29 * (k + 1)\<close> pops, whatever is pushed in between.\<close>

theorem rq_bounded_waiting:
  assumes "rq_inv rq" "p < 4" "k < length (rq_lists rq ! p)" "29 * (k + 1) \<le> rq_pops os"
  shows "\<exists>ts rq'. rq_run os rq = Some (ts, rq') \<and> rq_inv rq'
    \<and> take (Suc k) (filter (\<lambda>t. task_prio t = p) ts) = take (Suc k) (rq_lists rq ! p)"
proof -
  obtain ts rq' where r: "rq_run os rq = Some (ts, rq')" "rq_inv rq'"
    using rq_run_returns [OF assms(1)] by blast
  have "wrr_wait p (rq_spent rq) + 29 * k < rq_pops os"
    using wrr_wait_le [OF assms(2), of "rq_spent rq"] assms(4) by simp
  from rq_run_prefix [OF assms(1-3) this r(1)] r show ?thesis by blast
qed

theorem rq_bounded_waiting_witness:
  "\<exists>rq ts rq'. gmk_rq_push sample_rq zero_task = Some (0, rq)
     \<and> rq_run (replicate 29 RqPop) rq = Some (ts, rq') \<and> rq_inv rq'
     \<and> take (Suc 0) (filter (\<lambda>t. task_prio t = task_prio zero_task) ts) = [zero_task]"
proof (rule rq_push_cases [OF sample_rq_inv(1), of zero_task])
  fix rq assume rq: "gmk_rq_push sample_rq zero_task = Some (0, rq)" "rq_inv rq"
    "rq_lists rq = (rq_lists sample_rq)[task_prio zero_task :=
       rq_lists sample_rq ! task_prio zero_task @ [zero_task]]"
  have "rq_lists rq ! task_prio zero_task = [zero_task]" using rq(3) sample_rq_inv(2) by simp
  with rq_bounded_waiting [of rq "task_prio zero_task" 0 "replicate 29 RqPop"] rq show ?thesis
    by (simp add: rq_pops_def)
qed (simp add: sample_rq_inv)

text \<open>C9: Weighted round robin.  A pop of a well-formed ready queue returns, keeps the invariant and
  the capacities, and hands out what the abstract scheduler \<open>wrr_pop\<close> hands out: the oldest task of
  the first non-empty priority that has not used up its weight 8, 4, 2 or 1, or, when there is
  none, the oldest task of the first non-empty priority after all counters are reset.\<close>

theorem rq_pop_is_wrr:
  assumes "rq_inv rq"
  shows "\<exists>t rq'. gmk_rq_pop rq = Some (t, rq') \<and> rq_inv rq' \<and> rq_caps rq' = rq_caps rq
    \<and> (t, rq_lists rq', rq_spent rq') = wrr_pop (rq_lists rq) (rq_spent rq)"
  by (rule rq_pop_refines_wrr [OF assms]) blast

theorem rq_pop_is_wrr_witness:
  "\<exists>t rq'. gmk_rq_pop sample_rq = Some (t, rq') \<and> rq_inv rq' \<and> rq_caps rq' = rq_caps sample_rq
    \<and> (t, rq_lists rq', rq_spent rq') = wrr_pop (rq_lists sample_rq) (rq_spent sample_rq)"
  by (rule rq_pop_is_wrr [OF sample_rq_inv(1)])

section \<open>The event queue\<close>

text \<open>C13: Draining the event queue.  Up to \<open>n\<close> pops at tick \<open>tick\<close> return; they hand out due tasks
  only, in ascending key order, as many as are due (at most \<open>n\<close>); what stays behind is the rest and
  has no smaller key.\<close>

theorem evq_drain_in_order:
  assumes "evq_inv q"
  shows "\<exists>es q'. evq.drain n tick q = Some (map ee_task es, q') \<and> evq_inv q'
    \<and> evq_pending q = mset es + evq_pending q' \<and> sorted (map ee_key es)
    \<and> (\<forall>e \<in> set es. evq_due tick e \<and> (\<forall>y \<in># evq_pending q'. ee_key e \<le> ee_key y))
    \<and> length es = min n (size (filter_mset (evq_due tick) (evq_pending q)))"
  by (rule evq.drain_spec [OF assms])

theorem evq_drain_in_order_witness:
  "\<exists>es q'. evq.drain 256 7 sample_evq = Some (map ee_task es, q') \<and> evq_inv q'
    \<and> evq_pending sample_evq = mset es + evq_pending q' \<and> sorted (map ee_key es)
    \<and> (\<forall>e \<in> set es. evq_due 7 e \<and> (\<forall>y \<in># evq_pending q'. ee_key e \<le> ee_key y))
    \<and> length es = min 256 (size (filter_mset (evq_due 7) (evq_pending sample_evq)))"
  by (rule evq_drain_in_order [OF sample_evq_inv(1)])

text \<open>Pushing an event.  With room the push returns 0 and adds exactly the task, stamped with the
  next sequence number and keyed by tick, priority and that number; a full queue refuses it and
  stays as it is.\<close>

theorem evq_push_adds:
  assumes "evq_inv q"
  shows "if evq_count q < evq_cap q
    then \<exists>q'. gmk_evq_push q t = Some (0, q') \<and> evq_inv q' \<and> evq_next_seq q' = evq_next_seq q + 1
      \<and> evq_pending q' = add_mset (evq_entry t (evq_next_seq q)) (evq_pending q)
    else gmk_evq_push q t = Some (-1, q)"
proof (cases "evq_count q < evq_cap q")
  case True
  from evq_push_room [OF assms True, where t = t] True show ?thesis by auto
qed (simp add: evq_push_full)

theorem evq_push_adds_witness:
  "\<exists>q'. gmk_evq_push sample_evq zero_task = Some (0, q') \<and> evq_inv q'
     \<and> evq_pending q' = {#evq_entry zero_task 0#}"
proof -
  have "evq_count sample_evq < evq_cap sample_evq" "evq_next_seq sample_evq = 0"
    by (simp_all add: sample_evq_def)
  then show ?thesis using evq_push_adds [OF sample_evq_inv(1), of zero_task] sample_evq_inv(2) by auto
qed

text \<open>Event order.  Below 65536 pushes the keys order the tasks by tick, then priority, then
  arrival.\<close>

theorem evq_key_order:
  assumes "unat s < 2 ^ 16" "unat s' < 2 ^ 16"
  shows "evq_key t s < evq_key t' s' \<longleftrightarrow>
    task_tick t < task_tick t' \<or> task_tick t = task_tick t'
      \<and> (task_prio t < task_prio t' \<or> task_prio t = task_prio t' \<and> unat s < unat s')"
  by (rule evq_key_less_iff [OF assms])

theorem evq_key_order_witness: "evq_key zero_task 4 < evq_key zero_task 5"
  using evq_key_order [of 4 5 zero_task zero_task] by simp

section \<open>The rings\<close>

text \<open>C22: The multi-producer ring as a queue.  On a well-formed ring, whatever its free-running
  32-bit counters are, any list of elements that fits is accepted, and popping as many elements as
  are queued returns what was queued before, then the list, in order, and leaves the ring empty.\<close>

theorem mpmc_fifo:
  assumes "mpmc_inv r" "length (mpmc_contents r) + length xs \<le> mpmc_capacity r"
  shows "\<exists>r1 r2. mpmc.push_all r xs = Some r1
    \<and> mpmc.pop_n (length (mpmc_contents r) + length xs) r1 = Some (mpmc_contents r @ xs, r2)
    \<and> mpmc_inv r2 \<and> mpmc_contents r2 = []"
  by (rule mpmc.fifo_roundtrip [OF assms])

theorem mpmc_fifo_witness:
  "\<exists>r1 r2. mpmc.push_all (sample_mpmc (0 :: nat)) [5, 7] = Some r1
    \<and> mpmc.pop_n 2 r1 = Some ([5, 7], r2) \<and> mpmc_inv r2 \<and> mpmc_contents r2 = []"
  using mpmc_fifo [of "sample_mpmc 0" "[5, 7 :: nat]"] sample_mpmc_inv [of "0 :: nat"]
  by (simp del: length_mpmc_contents mpmc.push_all.simps mpmc.pop_n.simps flip: numeral_2_eq_2)

text \<open>The single-producer ring as a queue: the same round trip.\<close>

theorem spsc_fifo:
  assumes "spsc_inv r" "length (spsc_contents r) + length xs \<le> spsc_capacity r"
  shows "\<exists>r1 r2. spsc.push_all r xs = Some r1
    \<and> spsc.pop_n (length (spsc_contents r) + length xs) r1 = Some (spsc_contents r @ xs, r2)
    \<and> spsc_inv r2 \<and> spsc_contents r2 = []"
  by (rule spsc.fifo_roundtrip [OF assms])

theorem spsc_fifo_witness:
  "\<exists>r1 r2. spsc.push_all (sample_spsc (0 :: nat)) [5, 7] = Some r1
    \<and> spsc.pop_n 2 r1 = Some ([5, 7], r2) \<and> spsc_inv r2 \<and> spsc_contents r2 = []"
  using spsc_fifo [of "sample_spsc 0" "[5, 7 :: nat]"] sample_spsc_inv [of "0 :: nat"]
  by (simp del: length_spsc_contents spsc.push_all.simps spsc.pop_n.simps flip: numeral_2_eq_2)



text \<open>Event order past 262144 pushes.  The sequence number is not cut to its 16 bits: of two
  tasks of the same tick, any one among the first 65536 pushes is before the one with sequence
  number 262144, also when the latter has the highest priority and the former the lowest.\<close>

theorem evq_key_overrun:
  assumes "tk_meta0 t = tk_meta0 t'" "unat s < 2 ^ 16"
  shows "evq_key t s < evq_key t' 0x40000"
  by (rule evq_key_seq_overrun [OF assms])

theorem evq_key_overrun_witness:
  "task_prio zero_task < task_prio (zero_task\<lparr>tk_flags := 3\<rparr>)
   \<and> evq_key (zero_task\<lparr>tk_flags := 3\<rparr>) 5 < evq_key zero_task 0x40000"
  using evq_key_overrun [of "zero_task\<lparr>tk_flags := 3\<rparr>" zero_task 5]
  by (simp add: zero_task_def task_prio_def GMK_PRIORITY_def)

section \<open>The scheduler\<close>

text \<open>C18: Where an enqueued task goes.  An enqueue returns; the task gets the next sequence number
  and is appended to the local queue of the worker when that is below its watermark, else to the
  ready queue of its priority, and when that is full the call is refused with -1 and every queue
  keeps its tasks.\<close>

theorem enqueue_routes:
  assumes "sched_inv s" "w < 2 ^ 31"
  shows "\<exists>c s'. gmk_enqueue s t w = Some (c, s', t\<lparr>tk_seq := sd_next_seq s\<rparr>)
    \<and> sched_inv s' \<and> sd_next_seq s' = sd_next_seq s + 1
    \<and> (let t1 = t\<lparr>tk_seq := sd_next_seq s\<rparr>; ls = map lq_tasks (sd_lqs s); rs = rq_lists (sd_rq s)
       in if goes_local s w
          then c = 0 \<and> map lq_tasks (sd_lqs s') = ls[nat w := ls ! nat w @ [t1]] \<and> sd_rq s' = sd_rq s
          else sd_lqs s' = sd_lqs s \<and>
            (if length (rs ! task_prio t) < rq_caps (sd_rq s) ! task_prio t
             then c = 0 \<and> rq_lists (sd_rq s') = rs[task_prio t := rs ! task_prio t @ [t1]]
             else c = -1 \<and> sd_rq s' = sd_rq s))
    \<and> sd_evq s' = sd_evq s \<and> sd_overflow s' = sd_overflow s"
  using enqueue_outcome [OF assms] by (simp add: Let_def)

theorem enqueue_routes_witness:
  "\<exists>s'. gmk_enqueue sample_sched zero_task 0 = Some (0, s', zero_task) \<and> sched_inv s'
     \<and> map lq_tasks (sd_lqs s') = [[zero_task]]"
proof -
  have g: "goes_local sample_sched 0" and n: "sd_next_seq sample_sched = 0"
    and l: "map lq_tasks (sd_lqs sample_sched) = [[]]"
    using sample_lq_inv by (simp_all add: goes_local_def sample_sched_def sample_lq_def lq_tasks_def)
  have z: "zero_task\<lparr>tk_seq := 0\<rparr> = zero_task" by (simp add: zero_task_def)
  show ?thesis using enqueue_routes [OF sample_sched_inv, of 0 zero_task] g n l z
    by (auto simp: Let_def)
qed

text \<open>Conservation.  An enqueue adds the task exactly once to the tasks that wait to be
  executed when it returns 0, and adds nothing otherwise.\<close>

theorem enqueue_conservation:
  assumes "sched_inv s" "w < 2 ^ 31" "gmk_enqueue s t w = Some (c, s', t')"
  shows "sched_inv s' \<and> (c = 0 \<or> c = -1) \<and> t' = t\<lparr>tk_seq := sd_next_seq s\<rparr>
    \<and> sched_ready s' = (if c = 0 then add_mset t' (sched_ready s) else sched_ready s)"
  by (rule enqueue_conserves [OF assms(1,2), of t]) (use assms(3) in simp)

theorem enqueue_conservation_witness:
  "\<exists>c s' t'. gmk_enqueue sample_sched zero_task (-1) = Some (c, s', t') \<and> sched_inv s'
     \<and> sched_ready s' = (if c = 0 then add_mset t' (sched_ready sample_sched) else sched_ready sample_sched)"
proof -
  obtain c s' t' where e: "gmk_enqueue sample_sched zero_task (-1) = Some (c, s', t')"
    by (rule enqueue_conserves [OF sample_sched_inv, of "-1" zero_task]) simp
  from enqueue_conservation [OF sample_sched_inv _ e] e show ?thesis by auto
qed

text \<open>C23: Yielding.  A yield counts itself in the task; past the limit it is refused with -10; else
  the task is appended to the worker's local queue when that has room (the watermark does not
  apply), else to the overflow bucket, and when that is full the call returns -9.\<close>

theorem yield_outcomes:
  fixes t defines "t1 \<equiv> t\<lparr>tk_yield_count := tk_yield_count t + 1\<rparr>"
  assumes "sched_inv s" "w < 2 ^ 31"
  shows "\<exists>c s'. gmk_yield s t w m = Some (c, s', t1) \<and> sched_inv s' \<and> sd_rq s' = sd_rq s
    \<and> (let ls = map lq_tasks (sd_lqs s); os = mpmc_contents (sd_overflow s)
       in if yield_limit m < ucast (tk_yield_count t1) then c = -10 \<and> s' = s
          else if lq_has_room s w
          then c = 0 \<and> map lq_tasks (sd_lqs s') = ls[nat w := ls ! nat w @ [t1]]
               \<and> sd_overflow s' = sd_overflow s
          else if length os < mpmc_capacity (sd_overflow s)
          then c = 0 \<and> mpmc_contents (sd_overflow s') = os @ [t1] \<and> sd_lqs s' = sd_lqs s
          else c = -9 \<and> s' = s)"
  unfolding Let_def t1_def by (rule yield_outcome [OF assms(2,3)])

theorem yield_outcomes_witness:
  "gmk_yield sample_sched (zero_task\<lparr>tk_yield_count := 7\<rparr>) 0 7
     = Some (-10, sample_sched, zero_task\<lparr>tk_yield_count := 8\<rparr>)"
  using yield_outcomes [OF sample_sched_inv, of 0 "zero_task\<lparr>tk_yield_count := 7\<rparr>" 7]
  by (simp add: yield_limit_def Let_def)

text \<open>The scheduler's memory.  Initialisation returns; on success the scheduler is well formed
  and empty and owns exactly the blocks that its queues point to, on failure it owns none;
  destroying a scheduler gives back exactly what it owns.\<close>

theorem sched_memory:
  assumes "n \<noteq> 0" "n \<le> 32"
  shows "(\<exists>s' h'. gmk_sched_init s n h = Some (0, s', h') \<and> sched_inv s' \<and> sd_n_workers s' = n
            \<and> sched_ready s' = {#} \<and> evq_pending (sd_evq s') = {#}
            \<and> hal_blocks h' = sched_blocks s' + hal_blocks h
            \<and> (\<exists>s'' h''. gmk_sched_destroy s' h' = Some (s'', h'') \<and> hal_blocks h'' = hal_blocks h))
       \<or> (\<exists>s' h'. gmk_sched_init s n h = Some (-1, s', h') \<and> hal_blocks h' = hal_blocks h)"
  by (rule sched_lifecycle [OF assms])

theorem sched_memory_witness:
  "(\<exists>s' h'. gmk_sched_init zero_sched 4 sample_hal = Some (0, s', h') \<and> sched_inv s' \<and> sd_n_workers s' = 4
            \<and> sched_ready s' = {#} \<and> evq_pending (sd_evq s') = {#}
            \<and> hal_blocks h' = sched_blocks s' + hal_blocks sample_hal
            \<and> (\<exists>s'' h''. gmk_sched_destroy s' h' = Some (s'', h'') \<and> hal_blocks h'' = hal_blocks sample_hal))
   \<or> (\<exists>s' h'. gmk_sched_init zero_sched 4 sample_hal = Some (-1, s', h')
            \<and> hal_blocks h' = hal_blocks sample_hal)"
  by (rule sched_memory) simp_all

end
