(* ===== verification/Alloc_Properties.thy ===== *)
theory Alloc_Properties
  imports Sample_States
begin

text \<open>
  The properties of the memory system: the slab, block and bump allocators, the arena that they
  share, and the reference-counted payloads.
\<close>

section \<open>Allocation and release\<close>

text \<open>C11: Allocation.  \<open>gmk_alloc\<close> returns and keeps the allocator well formed.  A non-null result is
  a new object of a size class that holds the request; it lies in the arena and overlaps no other
  live object.  The result is null only for size 0 or when no class that may serve the size has a
  free slot, and then the live objects are unchanged.\<close>

theorem alloc_fresh_object:
  assumes "alloc_inv a"
  shows "\<exists>p a'. gmk_alloc a sz = Some (p, a') \<and> alloc_inv a' \<and> al_arena a' = al_arena a
    \<and> (if p = 0 then alloc_live a' = alloc_live a \<and> (sz = 0 \<or> alloc_exhausted a sz)
       else \<exists>k. unat sz \<le> obj_bytes k \<and> (k, p) \<notin> alloc_live a
              \<and> alloc_live a' = insert (k, p) (alloc_live a)
              \<and> unat (ar_base (al_arena a)) \<le> unat p
              \<and> unat p + obj_bytes k \<le> unat (ar_base (al_arena a)) + unat (ar_size (al_arena a))
              \<and> (\<forall>(l, q) \<in> alloc_live a. extent p (obj_bytes k) \<inter> extent q (obj_bytes l) = {}))"
proof (rule gmk_alloc_cases [OF assms, of sz])
  fix k p a' assume a: "gmk_alloc a sz = Some (p, a')" "obj_added a k p a'" "class_of k sz"
  from a(2) have o: "p \<noteq> 0" "alloc_inv a'" "(k, p) \<notin> alloc_live a"
    "alloc_live a' = insert (k, p) (alloc_live a)" "al_arena a' = al_arena a"
    by (simp_all add: obj_added_def)
  have l: "(k, p) \<in> alloc_live a'" using o(4) by simp
  have "extent p (obj_bytes k) \<inter> extent q (obj_bytes l) = {}" if "(l, q) \<in> alloc_live a" for l q
    using that o by (intro alloc_live_disjoint [OF o(2) l]) auto
  then show ?thesis
    using a(1) o class_of_bytes [OF a(3)] alloc_live_extent(1,2) [OF o(2) l]
    by (intro exI [of _ p] exI [of _ a']) (auto intro!: exI [of _ k])
qed (use assms in auto)

theorem alloc_fresh_object_witness:
  "\<exists>p a'. gmk_alloc sample_alloc 40 = Some (p, a') \<and> alloc_inv a'
    \<and> (p = 0 \<longrightarrow> alloc_exhausted sample_alloc 40)
    \<and> (p \<noteq> 0 \<longrightarrow> (\<exists>k. 40 \<le> obj_bytes k \<and> alloc_live a' = {(k, p)}))"
proof -
  have "unat (40 :: u32) = 40" by simp
  then show ?thesis
    using alloc_fresh_object [OF sample_alloc_init(2), of 40] sample_alloc_init(3)
    by (fastforce split: if_splits)
qed

text \<open>Release.  \<open>gmk_free\<close> of a live object, with a size of the object's class, removes exactly
  that object and keeps the allocator well formed.\<close>

theorem free_removes:
  assumes "alloc_inv a" "(k, p) \<in> alloc_live a" "class_of k sz"
  shows "\<exists>a'. gmk_free a p sz = Some a' \<and> alloc_inv a' \<and> alloc_live a' = alloc_live a - {(k, p)}"
  by (rule free_live [OF assms]) blast

theorem free_removes_witness:
  "\<exists>p a' a''. gmk_alloc sample_alloc 48 = Some (p, a') \<and> p \<noteq> 0
     \<and> gmk_free a' p 48 = Some a'' \<and> alloc_inv a'' \<and> alloc_live a'' = {}"
proof (rule gmk_alloc_cases [OF sample_alloc_init(2), of 48])
  fix k p a' assume a: "gmk_alloc sample_alloc 48 = Some (p, a')" "obj_added sample_alloc k p a'" "class_of k 48"
  then have o: "p \<noteq> 0" "alloc_inv a'" "alloc_live a' = {(k, p)}"
    using sample_alloc_init(3) by (simp_all add: obj_added_def)
  with free_removes [OF o(2) _ a(3), of p] a(1) show ?thesis by auto
next
  assume "alloc_exhausted sample_alloc 48"
  then show ?thesis using sample_alloc_task_slots by (simp add: alloc_exhausted_def)
qed simp

text \<open>C19: The life of a payload.  A payload that was allocated and then retained \<open>n\<close> times survives
  \<open>n\<close> releases, which return 0; the next release returns 1, and the allocator then has the live
  objects that it had before the payload was allocated.\<close>

theorem payload_lifecycle:
  assumes "alloc_inv a" "sz \<noteq> 0" "unat sz < 2 ^ 32 - 8" "Suc n < 2 ^ 32"
    "gmk_payload_alloc a sz = Some (q, a1)" "q \<noteq> 0"
  shows "\<exists>a2 a3. payload_retains n a1 q = Some a2 \<and> alloc_live a2 = alloc_live a1
    \<and> payload_releases (Suc n) a2 q = Some (replicate n 0 @ [1], a3)
    \<and> alloc_inv a3 \<and> alloc_live a3 = alloc_live a"
proof (rule payload_alloc_cases [OF assms(1-3)])
  fix k q' a' assume p: "gmk_payload_alloc a sz = Some (q', a')" "alloc_inv a'" "payload_at a' k q' 1 sz"
    "(k, q' - 8) \<notin> alloc_live a" "alloc_live a' = insert (k, q' - 8) (alloc_live a)"
  have e: "q' = q" "a' = a1" using p(1) assms(5) by simp_all
  obtain a2 where a2: "payload_retains n a1 q = Some a2" "payload_at a2 k q (Suc n) sz"
    "alloc_live a2 = alloc_live a1" "alloc_inv a2"
    using payload_retains_at [of a1 k q 1 sz n] p e assms(4) by auto
  obtain a3 where "payload_releases (Suc n) a2 q = Some (replicate n 0 @ [1], a3)" "alloc_inv a3"
    "alloc_live a3 = alloc_live a2 - {(k, q - 8)}"
    using payload_releases_at [OF a2(2,4)] by blast
  with a2 p e show ?thesis by auto
qed (use assms(5,6) in simp)

theorem payload_lifecycle_witness:
  "\<exists>q a1 a2 a3. gmk_payload_alloc sample_alloc 40 = Some (q, a1) \<and> q \<noteq> 0
     \<and> payload_retains 2 a1 q = Some a2 \<and> payload_releases 3 a2 q = Some ([0, 0, 1], a3)
     \<and> alloc_live a3 = {}"
proof (rule payload_alloc_cases [OF sample_alloc_init(2), of 40])
  fix k q a1 assume a: "gmk_payload_alloc sample_alloc 40 = Some (q, a1)" "payload_at a1 k q 1 40"
  then have "q \<noteq> 0" by (simp add: payload_at_def)
  then obtain a2 a3 where "payload_retains 2 a1 q = Some a2"
    "payload_releases (Suc 2) a2 q = Some (replicate 2 0 @ [1], a3)" "alloc_live a3 = {}"
    using payload_lifecycle [OF sample_alloc_init(2) _ _ _ a(1), of 2] sample_alloc_init(3) by auto
  moreover have "Suc 2 = 3" "replicate 2 0 @ [1] = [0, 0, 1 :: int]" by (simp_all add: numeral_2_eq_2)
  ultimately show ?thesis using a(1) \<open>q \<noteq> 0\<close> by metis
next
  fix a1 assume "alloc_exhausted sample_alloc (8 + 40)"
  then show ?thesis using sample_alloc_task_slots by (simp add: alloc_exhausted_def)
qed simp_all

section \<open>The parts\<close>

text \<open>A slab hands out distinct slots.  Allocating \<open>n\<close> objects, as long as \<open>n\<close> slots are free,
  yields \<open>n\<close> different non-null addresses, none of which was live, and makes exactly these live.\<close>

theorem slab_alloc_distinct:
  assumes "slab_inv s" "n \<le> length (slab_free_slots s)"
  shows "\<exists>as s'. slab.alloc_many n s = Some (as, s') \<and> slab_inv s' \<and> length as = n \<and> distinct as
    \<and> 0 \<notin> set as \<and> set as \<inter> slab.live s = {} \<and> slab.live s' = set as \<union> slab.live s"
proof -
  have "n \<le> card (set (slab_free_slots s))"
    using assms(2) slab_inv_chain(2) [OF assms(1)] by (simp add: distinct_card)
  from slab.alloc_many_fresh [OF assms(1) this] show ?thesis by blast
qed

theorem slab_alloc_distinct_witness:
  "\<exists>as s'. slab.alloc_many 2 sample_slab = Some (as, s') \<and> slab_inv s' \<and> length as = 2 \<and> distinct as
    \<and> 0 \<notin> set as \<and> set as \<inter> slab.live sample_slab = {} \<and> slab.live s' = set as \<union> slab.live sample_slab"
  by (rule slab_alloc_distinct) (simp_all add: sample_slab_inv)

text \<open>A slab reuses the slot that was freed last.  Freeing a live slot and allocating again
  returns the same address, with the same live slots as before.\<close>

theorem slab_lifo:
  assumes "slab_inv s" "i < unat (sl_capacity s)" "i \<notin> set (slab_free_slots s)"
  shows "\<exists>s1 s2. gmk_slab_free s (slab_slot_addr s i) = Some s1
    \<and> gmk_slab_alloc s1 = Some (slab_slot_addr s i, s2) \<and> slab_inv s2
    \<and> slab_free_slots s2 = slab_free_slots s"
  by (rule slab_free_alloc [OF assms])

theorem slab_lifo_witness:
  "\<exists>s a s1 s2. gmk_slab_alloc sample_slab = Some (a, s) \<and> gmk_slab_free s a = Some s1
     \<and> gmk_slab_alloc s1 = Some (a, s2) \<and> slab_inv s2 \<and> slab_free_slots s2 = [1]"
proof (rule slab_alloc_some [OF sample_slab_inv])
  fix s assume s: "gmk_slab_alloc sample_slab = Some (slab_slot_addr sample_slab 0, s)" "slab_inv s"
    "slab_free_slots s = [1]" "slab_frame s = slab_frame sample_slab"
  have "slab_slot_addr s 0 = slab_slot_addr sample_slab 0" "0 < unat (sl_capacity s)"
    using s(4) by (simp_all add: slab_frame_def slab_slot_addr_def slab_addr_def sample_slab_def)
  with slab_lifo [OF s(2), of 0] s show ?thesis by auto
qed

text \<open>Size classes.  For a size from 1 to 65536 the block allocator takes the smallest of its
  twelve bins whose objects hold the size; larger sizes have no bin.\<close>

theorem bin_index_least:
  "sz \<noteq> 0 \<longrightarrow> (if unat sz \<le> 65536
     then \<exists>i < 12. bin_index sz = int i \<and> unat sz \<le> unat (bin_obj_size i)
            \<and> (\<forall>j < i. unat (bin_obj_size j) < unat sz)
     else bin_index sz = -1)"
proof (cases "sz \<noteq> 0 \<and> unat sz \<le> 65536")
  case True
  then obtain i where i: "i < 12" "bin_index sz = int i" "unat sz \<le> 32 * 2 ^ i"
    "\<And>j. unat sz \<le> 32 * 2 ^ j \<Longrightarrow> i \<le> j"
    using bin_index_eq [of sz] by metis
  have "unat (bin_obj_size j) < unat sz" if "j < i" for j
    using i(4) [of j] that i(1) by (simp add: unat_bin_obj_size not_le [symmetric]) (meson leD)
  then show ?thesis using i True by (auto simp: unat_bin_obj_size intro!: exI [of _ i])
qed (auto simp: bin_index_large)

theorem bin_index_least_witness: "\<exists>i < 12. bin_index 100 = int i \<and> 100 \<le> unat (bin_obj_size i)"
  using bin_index_least [of 100] by auto

text \<open>Bump allocation.  A list of requests that fits is laid out one after the other in the
  region: the addresses are those of the layout, and the requested ranges do not overlap.\<close>

theorem bump_sequence:
  assumes "bump_inv b" "\<forall>sz \<in> set szs. sz \<noteq> 0 \<and> unat sz < 2 ^ 31 - 7"
    "unat (bp_offset b) + (\<Sum>sz \<leftarrow> szs. align8_nat (unat sz)) \<le> unat (bp_size b)"
  shows "\<exists>as b'. bump_many szs b = (as, b') \<and> bump_inv b'
    \<and> map unat as = bump_layout (unat (bp_base b) + unat (bp_offset b)) szs
    \<and> sorted_wrt (\<lambda>(a, sz) (a', sz'). a + unat sz \<le> a') (zip (map unat as) szs)"
proof -
  obtain as b' where m: "bump_many szs b = (as, b')" by fastforce
  from bump_many_layout [OF assms m] m bump_layout_disjoint show ?thesis by auto
qed

theorem bump_sequence_witness:
  "\<exists>as b'. bump_many [10, 24] sample_bump = (as, b') \<and> map unat as = [4096, 4112]"
  using bump_sequence [OF sample_bump_inv, of "[10, 24]"]
  by (auto simp: sample_bump_def align8_nat_def)

text \<open>Bump allocation past the 32-bit limit.  The offset check compares 32-bit sums: with 8 bytes
  in use of a region of 4096, a request of 4294967288 bytes is granted, and the offset goes back to
  0, so that the next request gets memory that is in use.\<close>

theorem bump_overflow:
  assumes "bp_offset b = 8" "bp_size b = 4096"
  shows "gmk_bump_alloc b 0xFFFFFFF8 = (bp_base b + 8, b\<lparr>bp_offset := 0\<rparr>)"
  by (rule bump_alloc_wraps [OF assms])

theorem bump_overflow_witness:
  "gmk_bump_alloc (sample_bump\<lparr>bp_offset := 8\<rparr>) 0xFFFFFFF8 = (4104, sample_bump)"
  using bump_overflow [of "sample_bump\<lparr>bp_offset := 8\<rparr>"] by (simp add: sample_bump_def)

text \<open>The allocator's memory.  For an arena size from 4096 to below \<open>2 ^ 33\<close>, on a C library whose
  blocks lie in the address space, initialisation yields a well-formed allocator without live
  objects that owns exactly the arena, unless the arena cannot be allocated, and then it owns
  nothing; destroying the allocator gives the arena back.\<close>

theorem alloc_memory:
  assumes "4096 \<le> unat n" "unat n < 2 ^ 33" "libc_in_space h"
  shows "(\<exists>a' h'. gmk_alloc_init a n h = (0, a', h') \<and> alloc_inv a' \<and> alloc_live a' = {}
            \<and> hal_blocks h' = add_mset (ar_base (al_arena a')) (hal_blocks h)
            \<and> (\<exists>a'' h''. gmk_alloc_destroy a' h' = (a'', h'') \<and> hal_blocks h'' = hal_blocks h))
       \<or> (\<exists>a' h'. gmk_alloc_init a n h = (-1, a', h') \<and> hal_blocks h' = hal_blocks h
            \<and> fst (gmk_hal_page_alloc n 64 h) = 0)"
proof (rule alloc_init_cases [OF assms(1,2) hal_owns_refl assms(3), of a])
  fix a' h' assume i: "gmk_alloc_init a n h = (0, a', h')" "alloc_inv a'" "alloc_live a' = {}"
    "hal_owns h {#ar_base (al_arena a')#} h'"
  obtain a'' h'' where d: "gmk_alloc_destroy a' h' = (a'', h'')" by fastforce
  from alloc_destroy_frees [OF i(4) d] i d show ?thesis by (auto simp: hal_owns_def)
qed (auto simp: hal_owns_empty)

theorem alloc_memory_witness:
  "\<exists>a' h'. gmk_alloc_init zero_alloc 8192 sample_hal = (0, a', h') \<and> alloc_inv a' \<and> alloc_live a' = {}
     \<and> hal_blocks h' = {#ar_base (al_arena a')#}"
proof -
  have "fst (gmk_hal_page_alloc 8192 64 sample_hal) \<noteq> 0" "hal_blocks sample_hal = {#}"
    by (simp_all add: hal_defs sample_hal_def hal_blocks_def)
  then show ?thesis using alloc_memory [of 8192 sample_hal zero_alloc] sample_hal_space by auto
qed

text \<open>Rounding up to a power of two.  Up to \<open>2 ^ 31\<close> the result is the least power of two that is
  not below the argument.\<close>

theorem next_pow2_least:
  assumes "unat x \<le> 2 ^ 31"
  shows "\<exists>k \<le> 31. gmk_next_pow2 x = 2 ^ k \<and> unat x \<le> 2 ^ k \<and> (\<forall>j < k. 2 ^ j < unat x)"
proof -
  obtain k where "k \<le> 31" "gmk_next_pow2 x = 2 ^ k" "unat x \<le> 2 ^ k" "\<And>j. unat x \<le> 2 ^ j \<Longrightarrow> k \<le> j"
    by (rule gmk_next_pow2_least [OF assms]) blast
  then show ?thesis by (meson leD le_less_linear)
qed

theorem next_pow2_least_witness: "\<exists>k \<le> 31. gmk_next_pow2 100 = 2 ^ k \<and> unat (100 :: u32) \<le> 2 ^ k
    \<and> (\<forall>j < k. 2 ^ j < unat (100 :: u32))"
  by (rule next_pow2_least) simp

end
