(* ===== verification/Trace.thy ===== *)
theory Trace
  imports Complex_Main Ggmk_Types Ring_Spsc Owned_Array
begin

text \<open>
  The trace of \<open>src/trace.c\<close>: one event ring per tenant, a level filter, and sampling with an
  xorshift generator.  The time-stamp counter that \<open>gmk_tsc\<close> reads is a parameter of the state:
  \<open>tr_tsc n\<close> is the value of its \<open>n\<close>-th read, and \<open>tr_tsc_reads\<close> counts the reads.
\<close>

section \<open>State and operations\<close>

abbreviation (input) GMK_TRACE_RING_CAP :: u32 where "GMK_TRACE_RING_CAP \<equiv> 4096"

abbreviation (input) GMK_TRACE_OFF :: u32 where "GMK_TRACE_OFF \<equiv> 0"
abbreviation (input) GMK_TRACE_ERROR :: u32 where "GMK_TRACE_ERROR \<equiv> 1"
abbreviation (input) GMK_TRACE_WARN :: u32 where "GMK_TRACE_WARN \<equiv> 2"
abbreviation (input) GMK_TRACE_INFO :: u32 where "GMK_TRACE_INFO \<equiv> 3"
abbreviation (input) GMK_TRACE_ALL :: u32 where "GMK_TRACE_ALL \<equiv> 4"

abbreviation (input) GMK_EV_TASK_START :: u32 where "GMK_EV_TASK_START \<equiv> 0x0001"
abbreviation (input) GMK_EV_TASK_END :: u32 where "GMK_EV_TASK_END \<equiv> 0x0002"
abbreviation (input) GMK_EV_CHAN_FULL :: u32 where "GMK_EV_CHAN_FULL \<equiv> 0x0011"
abbreviation (input) GMK_EV_CHAN_DROP :: u32 where "GMK_EV_CHAN_DROP \<equiv> 0x0012"
abbreviation (input) GMK_EV_CHAN_DRAIN :: u32 where "GMK_EV_CHAN_DRAIN \<equiv> 0x0013"
abbreviation (input) GMK_EV_CHAN_OPEN :: u32 where "GMK_EV_CHAN_OPEN \<equiv> 0x0014"
abbreviation (input) GMK_EV_CHAN_CLOSE :: u32 where "GMK_EV_CHAN_CLOSE \<equiv> 0x0015"
abbreviation (input) GMK_EV_WORKER_PARK :: u32 where "GMK_EV_WORKER_PARK \<equiv> 0x0021"
abbreviation (input) GMK_EV_POISON :: u32 where "GMK_EV_POISON \<equiv> 0x0032"
abbreviation (input) GMK_EV_BOOT :: u32 where "GMK_EV_BOOT \<equiv> 0x0040"
abbreviation (input) GMK_EV_HALT :: u32 where "GMK_EV_HALT \<equiv> 0x0041"

record gmk_trace =
  tr_rings :: "gmk_trace_ev gmk_ring_spsc list"
  tr_level :: u32
  tr_sample_threshold :: u32
  tr_prng_state :: u32
  tr_n_tenants :: u32
  tr_total_events :: u64
  tr_dropped_events :: u64
  tr_tsc :: "nat \<Rightarrow> u64"
  tr_tsc_reads :: nat

definition prng_next :: "u32 \<Rightarrow> u32" where
  "prng_next x =
     (let x1 = x XOR push_bit 13 x; x2 = x1 XOR drop_bit 17 x1 in x2 XOR push_bit 5 x2)"

definition ev_level :: "u32 \<Rightarrow> u32" where
  "ev_level ev_type =
     (if ev_type \<in> {0x0003, 0x0006, 0x0030, 0x0031, 0x0032} then GMK_TRACE_ERROR
      else if ev_type \<in> {0x0011, 0x0012, 0x0020} then GMK_TRACE_WARN
      else if ev_type \<in> {0x0001, 0x0002, 0x0004, 0x0005, 0x0010, 0x0013, 0x0014, 0x0015,
                         0x0021, 0x0022, 0x0040, 0x0041} then GMK_TRACE_INFO
      else GMK_TRACE_ALL)"

definition zero_trace :: "(nat \<Rightarrow> u64) \<Rightarrow> gmk_trace" where
  "zero_trace tsc = \<lparr>tr_rings = replicate (unat GMK_MAX_TENANTS) zero_ring_spsc,
     tr_level = 0, tr_sample_threshold = 0, tr_prng_state = 0, tr_n_tenants = 0,
     tr_total_events = 0, tr_dropped_events = 0, tr_tsc = tsc, tr_tsc_reads = 0\<rparr>"

definition gmk_trace_init :: "gmk_trace \<Rightarrow> u32 \<Rightarrow> hal \<Rightarrow> (rc \<times> gmk_trace \<times> hal) exec" where
  "gmk_trace_init t n_tenants h =
     (if n_tenants = 0 \<or> n_tenants > GMK_MAX_TENANTS then Some (-1, t, h)
      else let t1 = (zero_trace (tr_tsc t))\<lparr>tr_tsc_reads := tr_tsc_reads t, tr_level := GMK_TRACE_WARN,
                      tr_sample_threshold := -1, tr_prng_state := 0xDEADBEEF, tr_n_tenants := n_tenants\<rparr>
           in do { (c, rs, h') \<leftarrow>
                     init_each (\<lambda>r. gmk_ring_spsc_init r zero_trace_ev GMK_TRACE_RING_CAP sizeof_gmk_trace_ev)
                       gmk_ring_spsc_destroy [0..<unat n_tenants] (tr_rings t1) h;
                   Some (c, t1\<lparr>tr_rings := rs\<rparr>, h') })"

definition gmk_trace_destroy :: "gmk_trace \<Rightarrow> hal \<Rightarrow> (gmk_trace \<times> hal) exec" where
  "gmk_trace_destroy t h =
     do { (rs, h') \<leftarrow> destroy_each gmk_ring_spsc_destroy [0..<unat (tr_n_tenants t)] (tr_rings t) h;
          Some (t\<lparr>tr_rings := rs\<rparr>, h') }"

definition trace_emit :: "gmk_trace \<Rightarrow> u16 \<Rightarrow> u32 \<Rightarrow> u16 \<Rightarrow> u32 \<Rightarrow> u32 \<Rightarrow> gmk_trace exec" where
  "trace_emit t tenant ev_type task_type arg0 arg1 =
     (if ucast tenant \<ge> tr_n_tenants t then Some t
      else let ev = \<lparr>te_tsc = tr_tsc t (tr_tsc_reads t), te_ev_type = ev_type, te_tenant = tenant,
                     te_type = task_type, te_arg0 = arg0, te_arg1 = arg1, te_pad = 0\<rparr>;
               t1 = t\<lparr>tr_tsc_reads := Suc (tr_tsc_reads t)\<rparr>
           in do { r \<leftarrow> arr_get (tr_rings t1) (unat tenant);
                   (c, r') \<leftarrow> gmk_ring_spsc_push r ev;
                   let t2 = t1\<lparr>tr_rings := (tr_rings t1)[unat tenant := r']\<rparr>
                   in Some (if c = 0 then t2\<lparr>tr_total_events := tr_total_events t2 + 1\<rparr>
                            else t2\<lparr>tr_dropped_events := tr_dropped_events t2 + 1\<rparr>) })"

definition gmk_trace_write :: "gmk_trace \<Rightarrow> u16 \<Rightarrow> u32 \<Rightarrow> u16 \<Rightarrow> u32 \<Rightarrow> u32 \<Rightarrow> gmk_trace exec" where
  "gmk_trace_write t tenant ev_type task_type arg0 arg1 =
     (if ev_level ev_type > tr_level t then Some t
      else if tr_level t = GMK_TRACE_ALL \<and> tr_sample_threshold t < -1
      then let r = prng_next (tr_prng_state t); t1 = t\<lparr>tr_prng_state := r\<rparr>
           in if r > tr_sample_threshold t1 then Some t1
              else trace_emit t1 tenant ev_type task_type arg0 arg1
      else trace_emit t tenant ev_type task_type arg0 arg1)"

definition gmk_trace_write_force ::
  "gmk_trace \<Rightarrow> u16 \<Rightarrow> u32 \<Rightarrow> u16 \<Rightarrow> u32 \<Rightarrow> u32 \<Rightarrow> gmk_trace exec" where
  "gmk_trace_write_force t tenant ev_type task_type arg0 arg1 =
     trace_emit t tenant ev_type task_type arg0 arg1"

definition gmk_trace_read :: "gmk_trace \<Rightarrow> u16 \<Rightarrow> (gmk_trace_ev option \<times> gmk_trace) exec" where
  "gmk_trace_read t tenant =
     (if ucast tenant \<ge> tr_n_tenants t then Some (None, t)
      else do { r \<leftarrow> arr_get (tr_rings t) (unat tenant);
                (ev, r') \<leftarrow> gmk_ring_spsc_pop r;
                Some (ev, t\<lparr>tr_rings := (tr_rings t)[unat tenant := r']\<rparr>) })"

definition gmk_trace_set_level :: "gmk_trace \<Rightarrow> u32 \<Rightarrow> gmk_trace" where
  "gmk_trace_set_level t level = t\<lparr>tr_level := level\<rparr>"

text \<open>The rate is a real number; \<open>rnd\<close> is the rounding of the double-precision product.\<close>

definition gmk_trace_set_sample_rate :: "(real \<Rightarrow> real) \<Rightarrow> gmk_trace \<Rightarrow> real \<Rightarrow> gmk_trace" where
  "gmk_trace_set_sample_rate rnd t rate =
     t\<lparr>tr_sample_threshold :=
        (if rate \<le> 0 then 0 else if rate \<ge> 1 then -1 else of_int \<lfloor>rnd (rate * 4294967295)\<rfloor>)\<rparr>"

definition gmk_trace_total :: "gmk_trace \<Rightarrow> u64" where
  "gmk_trace_total t = tr_total_events t"

definition gmk_trace_dropped :: "gmk_trace \<Rightarrow> u64" where
  "gmk_trace_dropped t = tr_dropped_events t"


section \<open>Invariant and behaviour\<close>

definition trace_inv :: "gmk_trace \<Rightarrow> bool" where
  "trace_inv t \<longleftrightarrow> length (tr_rings t) = 16 \<and> tr_n_tenants t \<le> 16
     \<and> (\<forall>i < unat (tr_n_tenants t). spsc_inv (tr_rings t ! i))"

definition trace_events :: "gmk_trace \<Rightarrow> nat \<Rightarrow> gmk_trace_ev list" where
  "trace_events t i = spsc_contents (tr_rings t ! i)"

definition trace_blocks :: "gmk_trace \<Rightarrow> addr multiset" where
  "trace_blocks t = mset (map (\<lambda>j. map sp_ptr (tr_rings t) ! j) [0..<unat (tr_n_tenants t)])"

interpretation trace_ring: owned_element
  "\<lambda>r. gmk_ring_spsc_init r zero_trace_ev 4096 32" gmk_ring_spsc_destroy sp_ptr
  "\<lambda>r. spsc_inv r \<and> spsc_contents r = []"
proof unfold_locales
  fix r r' :: "gmk_trace_ev gmk_ring_spsc" and h h' h0 c P
  show "c = 0 \<and> (spsc_inv r' \<and> spsc_contents r' = []) \<and> hal_owns h0 (add_mset (sp_ptr r') P) h'
      \<or> c = -1 \<and> hal_owns h0 P h'"
    if "gmk_ring_spsc_init r zero_trace_ev 4096 32 h = (c, r', h')" "hal_owns h0 P h"
    by (rule spsc_init_cases [OF that]) auto
qed (use hal_owns_spsc_destroy in blast)

lemma trace_init_cases:
  assumes "n \<noteq> 0" "n \<le> 16" "hal_owns h0 P h"
  obtains (ok) t' h' where "gmk_trace_init t n h = Some (0, t', h')" "trace_inv t'"
      "tr_n_tenants t' = n" "tr_level t' = GMK_TRACE_WARN" "hal_owns h0 (trace_blocks t' + P) h'"
      "\<And>i. i < unat n \<Longrightarrow> trace_events t' i = []"
    | (fail) t' h' where "gmk_trace_init t n h = Some (-1, t', h')" "hal_owns h0 P h'"
proof -
  let ?t = "(zero_trace (tr_tsc t))\<lparr>tr_tsc_reads := tr_tsc_reads t, tr_level := 2,
      tr_sample_threshold := -1, tr_prng_state := 0xDEADBEEF, tr_n_tenants := n\<rparr>"
  have n16: "unat n \<le> 16" using assms(2) by (simp add: word_le_nat_alt)
  have step: "gmk_trace_init t n h = do { (c, rs, h') \<leftarrow>
      init_each (\<lambda>r. gmk_ring_spsc_init r zero_trace_ev 4096 32) gmk_ring_spsc_destroy [0..<unat n] (tr_rings ?t) h;
      Some (c, ?t\<lparr>tr_rings := rs\<rparr>, h') }"
    using assms(1) leD [OF assms(2)] by (simp add: gmk_trace_init_def Let_def)
  have "length (tr_rings ?t) = 16" by (simp add: zero_trace_def)
  with trace_ring.init_each_cases [of 0 "unat n" "tr_rings ?t" h0 P h] n16 assms(3) step show ?thesis
    by (auto simp: trace_inv_def trace_blocks_def trace_events_def word_le_nat_alt intro: that)
qed

lemma trace_destroy_frees:
  assumes "trace_inv t" "hal_owns h0 (trace_blocks t + P) h"
  shows "\<exists>t' h'. gmk_trace_destroy t h = Some (t', h') \<and> hal_owns h0 P h'"
  using trace_ring.destroy_all_frees [of h0 "tr_rings t" "unat (tr_n_tenants t)" P h] assms
  by (auto simp: gmk_trace_destroy_def trace_inv_def trace_blocks_def word_le_nat_alt)

lemma trace_inv_ring:
  assumes "trace_inv t" "(ucast (tenant :: u16) :: u32) < tr_n_tenants t"
  shows "unat tenant < unat (tr_n_tenants t)" "unat tenant < length (tr_rings t)"
    "spsc_inv (tr_rings t ! unat tenant)"
proof -
  have lt: "unat (ucast tenant :: u32) < unat (tr_n_tenants t)" "unat (tr_n_tenants t) \<le> 16"
    using assms by (simp_all add: word_less_nat_alt trace_inv_def word_le_nat_alt)
  then show *: "unat tenant < unat (tr_n_tenants t)" by (simp add: unat_ucast_up)
  show "unat tenant < length (tr_rings t)" "spsc_inv (tr_rings t ! unat tenant)"
    using assms(1) * lt(2) by (simp_all add: trace_inv_def)
qed

lemma trace_inv_update:
  assumes "trace_inv t" "i < length (tr_rings t)" "spsc_inv r" "tr_rings t' = (tr_rings t)[i := r]"
    "tr_n_tenants t' = tr_n_tenants t"
  shows "trace_inv t'"
  using assms by (simp add: trace_inv_def nth_list_update)

lemma trace_blocks_update:
  "sp_ptr r = sp_ptr (tr_rings t ! i) \<Longrightarrow> i < length (tr_rings t) \<Longrightarrow>
   tr_rings t' = (tr_rings t)[i := r] \<Longrightarrow> tr_n_tenants t' = tr_n_tenants t \<Longrightarrow>
   trace_blocks t' = trace_blocks t"
proof -
  assume a: "sp_ptr r = sp_ptr (tr_rings t ! i)" "i < length (tr_rings t)"
    "tr_rings t' = (tr_rings t)[i := r]" "tr_n_tenants t' = tr_n_tenants t"
  then have "map sp_ptr (tr_rings t') = map sp_ptr (tr_rings t)"
    by (simp add: map_update list_update_same_conv)
  then show ?thesis using a(4) by (simp only: trace_blocks_def)
qed

text \<open>The event that is written, with the counter value that is read for it.\<close>

definition trace_event :: "gmk_trace \<Rightarrow> u16 \<Rightarrow> u32 \<Rightarrow> u16 \<Rightarrow> u32 \<Rightarrow> u32 \<Rightarrow> gmk_trace_ev" where
  "trace_event t tenant ev ty a0 a1 = \<lparr>te_tsc = tr_tsc t (tr_tsc_reads t), te_ev_type = ev,
     te_tenant = tenant, te_type = ty, te_arg0 = a0, te_arg1 = a1, te_pad = 0\<rparr>"

definition trace_kept :: "gmk_trace \<Rightarrow> gmk_trace \<Rightarrow> bool" where
  "trace_kept t t' \<longleftrightarrow> trace_inv t' \<and> trace_blocks t' = trace_blocks t \<and> tr_n_tenants t' = tr_n_tenants t
     \<and> tr_level t' = tr_level t \<and> tr_sample_threshold t' = tr_sample_threshold t"

text \<open>An emitted event is appended to its tenant's ring and counted; if the ring is full it is
  counted as dropped; for an unknown tenant nothing happens.\<close>

lemma trace_emit_cases:
  assumes inv: "trace_inv t"
  obtains (out) "\<not> (ucast tenant :: u32) < tr_n_tenants t" "trace_emit t tenant ev ty a0 a1 = Some t"
    | (room) t' where "(ucast tenant :: u32) < tr_n_tenants t" "trace_emit t tenant ev ty a0 a1 = Some t'"
      "trace_kept t t'" "tr_total_events t' = tr_total_events t + 1"
      "tr_dropped_events t' = tr_dropped_events t"
      "\<And>i. i < 16 \<Longrightarrow> trace_events t' i =
         (if i = unat tenant then trace_events t i @ [trace_event t tenant ev ty a0 a1] else trace_events t i)"
      "length (trace_events t (unat tenant)) < spsc_capacity (tr_rings t ! unat tenant)"
    | (full) t' where "(ucast tenant :: u32) < tr_n_tenants t" "trace_emit t tenant ev ty a0 a1 = Some t'"
      "trace_kept t t'" "tr_dropped_events t' = tr_dropped_events t + 1"
      "tr_total_events t' = tr_total_events t" "\<And>i. trace_events t' i = trace_events t i"
      "length (trace_events t (unat tenant)) = spsc_capacity (tr_rings t ! unat tenant)"
proof (cases "(ucast tenant :: u32) < tr_n_tenants t")
  case False
  then show ?thesis by (intro that(1)) (simp_all add: trace_emit_def not_less)
next
  case True
  note ring = trace_inv_ring [OF inv True]
  let ?r = "tr_rings t ! unat tenant" and ?e = "trace_event t tenant ev ty a0 a1"
  let ?t1 = "t\<lparr>tr_tsc_reads := Suc (tr_tsc_reads t)\<rparr>"
  have step: "trace_emit t tenant ev ty a0 a1 = do { (c, r') \<leftarrow> gmk_ring_spsc_push ?r ?e;
      Some (if c = 0 then ?t1\<lparr>tr_rings := (tr_rings t)[unat tenant := r'], tr_total_events := tr_total_events t + 1\<rparr>
            else ?t1\<lparr>tr_rings := (tr_rings t)[unat tenant := r'], tr_dropped_events := tr_dropped_events t + 1\<rparr>) }"
    using leD [of "tr_n_tenants t" "ucast tenant"] True ring(2)
    by (auto simp: trace_emit_def Let_def exec_simps trace_event_def cong: if_cong)
  show ?thesis
  proof (rule spsc.push_cases [OF ring(3), of ?e])
    fix r' assume r: "gmk_ring_spsc_push ?r ?e = Some (0, r')" "spsc_inv r'"
      "spsc_contents r' = spsc_contents ?r @ [?e]" "length (spsc_contents ?r) < spsc_capacity ?r"
    let ?t' = "?t1\<lparr>tr_rings := (tr_rings t)[unat tenant := r'], tr_total_events := tr_total_events t + 1\<rparr>"
    have "trace_kept t ?t'"
      using trace_inv_update [OF inv ring(2) r(2), of ?t'] trace_blocks_update [OF spsc_push_ptr [OF r(1)] ring(2), of ?t']
      by (simp add: trace_kept_def)
    then show ?thesis using True step r ring(2)
      by (intro that(2) [of ?t']) (simp_all add: trace_events_def nth_list_update)
  next
    assume r: "gmk_ring_spsc_push ?r ?e = Some (- 1, ?r)" "length (spsc_contents ?r) = spsc_capacity ?r"
    let ?t' = "?t1\<lparr>tr_dropped_events := tr_dropped_events t + 1\<rparr>"
    have "?t1\<lparr>tr_rings := (tr_rings t)[unat tenant := ?r], tr_dropped_events := tr_dropped_events t + 1\<rparr> = ?t'"
      by (cases t) simp
    moreover have "trace_kept t ?t'" using inv by (simp add: trace_kept_def trace_inv_def trace_blocks_def)
    ultimately show ?thesis using True step r
      by (intro that(3) [of ?t']) (simp_all add: trace_events_def)
  qed
qed

lemma trace_kept_refl: "trace_inv t \<Longrightarrow> trace_kept t t"
  by (simp add: trace_kept_def)

lemma trace_emit_kept: "trace_inv t \<Longrightarrow> \<exists>t'. trace_emit t tenant ev ty a0 a1 = Some t' \<and> trace_kept t t'"
  by (rule trace_emit_cases [of t tenant ev ty a0 a1]) (auto simp: trace_kept_refl)

lemma trace_kept_prng: "trace_kept (t\<lparr>tr_prng_state := s\<rparr>) t' = trace_kept t t'"
  "trace_inv (t\<lparr>tr_prng_state := s\<rparr>) = trace_inv t"
  by (simp_all add: trace_kept_def trace_inv_def trace_blocks_def)

lemma trace_write_kept:
  assumes "trace_inv t"
  shows "\<exists>t'. gmk_trace_write t tenant ev ty a0 a1 = Some t' \<and> trace_kept t t'"
proof -
  have "trace_kept t (t\<lparr>tr_prng_state := s\<rparr>)" for s
    using assms by (simp add: trace_kept_def trace_inv_def trace_blocks_def)
  then show ?thesis
    using assms trace_emit_kept [of t tenant ev ty a0 a1]
      trace_emit_kept [of "t\<lparr>tr_prng_state := prng_next (tr_prng_state t)\<rparr>" tenant ev ty a0 a1]
    by (auto simp: gmk_trace_write_def Let_def trace_kept_refl trace_kept_prng)
qed

lemma trace_write_force_kept:
  "trace_inv t \<Longrightarrow> \<exists>t'. gmk_trace_write_force t tenant ev ty a0 a1 = Some t' \<and> trace_kept t t'"
  by (simp add: gmk_trace_write_force_def trace_emit_kept)

text \<open>What an event that passes the filters leaves behind, and one that does not.\<close>

definition trace_took :: "gmk_trace \<Rightarrow> u16 \<Rightarrow> u32 \<Rightarrow> u16 \<Rightarrow> u32 \<Rightarrow> u32 \<Rightarrow> bool \<Rightarrow> gmk_trace \<Rightarrow> bool" where
  "trace_took t tenant ev ty a0 a1 passes t' \<longleftrightarrow> trace_inv t' \<and>
     (let room = length (trace_events t (unat tenant)) < spsc_capacity (tr_rings t ! unat tenant)
      in tr_total_events t' = tr_total_events t + (if passes \<and> room then 1 else 0)
       \<and> tr_dropped_events t' = tr_dropped_events t + (if passes \<and> \<not> room then 1 else 0)
       \<and> (\<forall>i < 16. trace_events t' i = trace_events t i @
            (if passes \<and> room \<and> i = unat tenant then [trace_event t tenant ev ty a0 a1] else [])))"

lemma trace_emit_took:
  assumes "trace_inv t" "(ucast tenant :: u32) < tr_n_tenants t"
  shows "\<exists>t'. trace_emit t tenant ev ty a0 a1 = Some t' \<and> trace_took t tenant ev ty a0 a1 True t'"
  by (rule trace_emit_cases [OF assms(1), of tenant ev ty a0 a1])
    (use assms in \<open>auto simp: trace_took_def trace_kept_def Let_def\<close>)

lemma trace_took_prng:
  "trace_took (t\<lparr>tr_prng_state := s\<rparr>) tenant ev ty a0 a1 p t' = trace_took t tenant ev ty a0 a1 p t'"
  by (simp add: trace_took_def trace_events_def trace_event_def)

lemma trace_took_none: "trace_inv t \<Longrightarrow> trace_took t tenant ev ty a0 a1 False (t\<lparr>tr_prng_state := s\<rparr>)"
  by (simp add: trace_took_def trace_events_def trace_kept_prng Let_def)

lemma trace_write_took:
  assumes inv: "trace_inv t" and n: "(ucast tenant :: u32) < tr_n_tenants t"
  defines "sampled \<equiv> tr_level t = GMK_TRACE_ALL \<and> tr_sample_threshold t < -1"
  shows "\<exists>t'. gmk_trace_write t tenant ev ty a0 a1 = Some t'
    \<and> trace_took t tenant ev ty a0 a1
        (ev_level ev \<le> tr_level t \<and> \<not> (sampled \<and> tr_sample_threshold t < prng_next (tr_prng_state t))) t'"
proof -
  let ?r = "prng_next (tr_prng_state t)"
  let ?t1 = "t\<lparr>tr_prng_state := ?r\<rparr>"
  have t1: "trace_inv ?t1" "(ucast tenant :: u32) < tr_n_tenants ?t1" using inv n by (simp_all add: trace_kept_prng)
  obtain t' where e: "trace_emit t tenant ev ty a0 a1 = Some t'" "trace_took t tenant ev ty a0 a1 True t'"
    using trace_emit_took [OF inv n] by blast
  obtain t'' where f: "trace_emit ?t1 tenant ev ty a0 a1 = Some t''" "trace_took t tenant ev ty a0 a1 True t''"
    using trace_emit_took [OF t1, of ev ty a0 a1] by (auto simp: trace_took_prng)
  have same: "trace_took t tenant ev ty a0 a1 False t" using trace_took_none [OF inv, of _ _ _ _ _ "tr_prng_state t"] by simp
  consider "tr_level t < ev_level ev" | "\<not> tr_level t < ev_level ev" sampled "tr_sample_threshold t < ?r"
    | "\<not> tr_level t < ev_level ev" sampled "\<not> tr_sample_threshold t < ?r" | "\<not> tr_level t < ev_level ev" "\<not> sampled" by blast
  then show ?thesis
  proof cases
    case 1
    then have "\<not> ev_level ev \<le> tr_level t" by (simp add: not_le)
    then show ?thesis using 1 same by (simp add: gmk_trace_write_def)
  next
    case 2
    then have "gmk_trace_write t tenant ev ty a0 a1 = Some ?t1"
      by (simp add: gmk_trace_write_def sampled_def Let_def)
    then show ?thesis using 2 trace_took_none [OF inv] by auto
  next
    case 3
    then have "gmk_trace_write t tenant ev ty a0 a1 = Some t''"
      using f(1) by (simp add: gmk_trace_write_def sampled_def Let_def)
    then show ?thesis using 3 f(2) by (auto simp: not_less)
  next
    case 4
    then have "gmk_trace_write t tenant ev ty a0 a1 = Some t'"
      using e(1) by (auto simp: gmk_trace_write_def sampled_def)
    then show ?thesis using 4 e(2) by (auto simp: not_less)
  qed
qed

end
