(* ===== verification/Metrics.thy ===== *)
theory Metrics
  imports Ggmk_Types
begin

text \<open>The counters of \<open>src/metrics.c\<close>: one global array and one array per tenant.\<close>

abbreviation (input) GMK_METRIC_COUNT :: nat where "GMK_METRIC_COUNT \<equiv> 16"

abbreviation (input) GMK_METRIC_TASKS_ENQUEUED :: u32 where "GMK_METRIC_TASKS_ENQUEUED \<equiv> 0"
abbreviation (input) GMK_METRIC_TASKS_DEQUEUED :: u32 where "GMK_METRIC_TASKS_DEQUEUED \<equiv> 1"
abbreviation (input) GMK_METRIC_TASKS_DISPATCHED :: u32 where "GMK_METRIC_TASKS_DISPATCHED \<equiv> 2"
abbreviation (input) GMK_METRIC_TASKS_FAILED :: u32 where "GMK_METRIC_TASKS_FAILED \<equiv> 3"
abbreviation (input) GMK_METRIC_TASKS_RETRIED :: u32 where "GMK_METRIC_TASKS_RETRIED \<equiv> 4"
abbreviation (input) GMK_METRIC_CHAN_EMITS :: u32 where "GMK_METRIC_CHAN_EMITS \<equiv> 8"
abbreviation (input) GMK_METRIC_CHAN_DROPS :: u32 where "GMK_METRIC_CHAN_DROPS \<equiv> 9"
abbreviation (input) GMK_METRIC_CHAN_FULL_COUNT :: u32 where "GMK_METRIC_CHAN_FULL_COUNT \<equiv> 10"
abbreviation (input) GMK_METRIC_WORKER_PARKS :: u32 where "GMK_METRIC_WORKER_PARKS \<equiv> 11"
abbreviation (input) GMK_METRIC_WORKER_WAKES :: u32 where "GMK_METRIC_WORKER_WAKES \<equiv> 12"

record gmk_metrics =
  mt_global :: "u64 list"
  mt_per_tenant :: "u64 list list"
  mt_n_tenants :: u32

definition zero_metrics :: gmk_metrics where
  "zero_metrics = \<lparr>mt_global = replicate GMK_METRIC_COUNT 0,
     mt_per_tenant = replicate (unat GMK_MAX_TENANTS) (replicate GMK_METRIC_COUNT 0), mt_n_tenants = 0\<rparr>"

definition gmk_metrics_init :: "gmk_metrics \<Rightarrow> u32 \<Rightarrow> rc \<times> gmk_metrics" where
  "gmk_metrics_init m n_tenants =
     (if n_tenants = 0 \<or> n_tenants > GMK_MAX_TENANTS then (-1, m)
      else (0, zero_metrics\<lparr>mt_n_tenants := n_tenants\<rparr>))"

definition gmk_metrics_destroy :: "gmk_metrics \<Rightarrow> gmk_metrics" where
  "gmk_metrics_destroy m = m"

definition gmk_metric_inc :: "gmk_metrics \<Rightarrow> u16 \<Rightarrow> u32 \<Rightarrow> u64 \<Rightarrow> gmk_metrics exec" where
  "gmk_metric_inc m tenant metric_id delta =
     (if metric_id \<ge> of_nat GMK_METRIC_COUNT then Some m
      else do { g \<leftarrow> arr_get (mt_global m) (unat metric_id);
                let m1 = m\<lparr>mt_global := (mt_global m)[unat metric_id := g + delta]\<rparr>
                in if ucast tenant < mt_n_tenants m1
                   then do { row \<leftarrow> arr_get (mt_per_tenant m1) (unat tenant);
                             c \<leftarrow> arr_get row (unat metric_id);
                             Some (m1\<lparr>mt_per_tenant :=
                               (mt_per_tenant m1)[unat tenant := row[unat metric_id := c + delta]]\<rparr>) }
                   else Some m1 })"

definition gmk_metric_get :: "gmk_metrics \<Rightarrow> u32 \<Rightarrow> u64 exec" where
  "gmk_metric_get m metric_id =
     (if metric_id \<ge> of_nat GMK_METRIC_COUNT then Some 0 else arr_get (mt_global m) (unat metric_id))"

definition gmk_metric_get_tenant :: "gmk_metrics \<Rightarrow> u16 \<Rightarrow> u32 \<Rightarrow> u64 exec" where
  "gmk_metric_get_tenant m tenant metric_id =
     (if metric_id \<ge> of_nat GMK_METRIC_COUNT \<or> ucast tenant \<ge> mt_n_tenants m then Some 0
      else do { row \<leftarrow> arr_get (mt_per_tenant m) (unat tenant); arr_get row (unat metric_id) })"

definition gmk_metrics_reset :: "gmk_metrics \<Rightarrow> gmk_metrics" where
  "gmk_metrics_reset m =
     m\<lparr>mt_global := map (\<lambda>_. 0) (mt_global m),
       mt_per_tenant := map (\<lambda>t. if t < unat (mt_n_tenants m) then map (\<lambda>_. 0) (mt_per_tenant m ! t)
                                 else mt_per_tenant m ! t) [0..<length (mt_per_tenant m)]\<rparr>"

section \<open>Invariant and behaviour\<close>

definition metrics_inv :: "gmk_metrics \<Rightarrow> bool" where
  "metrics_inv m \<longleftrightarrow> length (mt_global m) = 16 \<and> length (mt_per_tenant m) = 16
     \<and> (\<forall>row \<in> set (mt_per_tenant m). length row = 16) \<and> mt_n_tenants m \<le> 16"

lemma metrics_init_inv: "gmk_metrics_init m n = (0, m') \<Longrightarrow> metrics_inv m' \<and> mt_n_tenants m' = n"
  by (auto simp: gmk_metrics_init_def metrics_inv_def zero_metrics_def split: if_splits)

lemma metrics_row:
  assumes "metrics_inv m" "(ucast (tenant :: u16) :: u32) < mt_n_tenants m"
  shows "unat tenant < length (mt_per_tenant m)" "length (mt_per_tenant m ! unat tenant) = 16"
proof -
  have "unat (ucast tenant :: u32) < unat (mt_n_tenants m)" "unat (mt_n_tenants m) \<le> 16"
    using assms by (simp_all add: word_less_nat_alt metrics_inv_def word_le_nat_alt)
  then show "unat tenant < length (mt_per_tenant m)"
    using assms(1) by (simp add: unat_ucast_up metrics_inv_def)
  then show "length (mt_per_tenant m ! unat tenant) = 16" using assms(1) by (simp add: metrics_inv_def)
qed

lemma metric_inc_ok:
  assumes inv: "metrics_inv m"
  shows "\<exists>m'. gmk_metric_inc m tenant i d = Some m' \<and> metrics_inv m' \<and> mt_n_tenants m' = mt_n_tenants m
    \<and> (\<forall>j. gmk_metric_get m' j =
         (if j = i \<and> i < 16 then map_option (\<lambda>v. v + d) (gmk_metric_get m j) else gmk_metric_get m j))
    \<and> (\<forall>t j. gmk_metric_get_tenant m' t j =
         (if t = tenant \<and> j = i \<and> i < 16 \<and> (ucast tenant :: u32) < mt_n_tenants m
          then map_option (\<lambda>v. v + d) (gmk_metric_get_tenant m t j) else gmk_metric_get_tenant m t j))"
proof (cases "16 \<le> i")
  case True
  then show ?thesis using inv by (simp add: gmk_metric_inc_def not_le [symmetric])
next
  case False
  have lt: "i < 16" using False by (simp add: not_le)
  have i: "unat i < 16" using False by (simp add: word_le_nat_alt)
  have len: "length (mt_global m) = 16" "length (mt_per_tenant m) = 16" using inv by (simp_all add: metrics_inv_def)
  let ?m1 = "m\<lparr>mt_global := (mt_global m)[unat i := mt_global m ! unat i + d]\<rparr>"
  have get1: "gmk_metric_get ?m1 k =
      (if k = i \<and> i < 16 then map_option (\<lambda>v. v + d) (gmk_metric_get m k) else gmk_metric_get m k)" for k
  proof (cases "k = i")
    case True
    then show ?thesis using i len(1) False lt by (simp add: gmk_metric_get_def arr_get_def)
  next
    case ne: False
    then have "unat i \<noteq> unat k" by (simp add: word_unat_eq_iff)
    then show ?thesis using ne by (simp add: gmk_metric_get_def arr_get_def)
  qed
  show ?thesis
  proof (cases "(ucast tenant :: u32) < mt_n_tenants m")
    case True
    note row = metrics_row [OF inv True]
    define m' where "m' = ?m1\<lparr>mt_per_tenant := (mt_per_tenant m)[unat tenant :=
      (mt_per_tenant m ! unat tenant)[unat i := mt_per_tenant m ! unat tenant ! unat i + d]]\<rparr>"
    have e: "gmk_metric_inc m tenant i d = Some m'"
      using False i len row True by (simp add: gmk_metric_inc_def exec_simps m'_def)
    have "metrics_inv m'"
      using inv row set_update_subset_insert
      by (fastforce simp: metrics_inv_def m'_def dest!: set_update_subset_insert [THEN subsetD])
    moreover have "gmk_metric_get m' k = gmk_metric_get ?m1 k" for k
      by (simp add: gmk_metric_get_def m'_def)
    moreover have "gmk_metric_get_tenant m' t k =
        (if t = tenant \<and> k = i then map_option (\<lambda>v. v + d) (gmk_metric_get_tenant m t k)
         else gmk_metric_get_tenant m t k)" for t k
    proof (cases "t = tenant")
      case t: True
      show ?thesis
      proof (cases "k = i")
        case True
        then show ?thesis using t False i row leD [of "mt_n_tenants m" "ucast tenant"] \<open>ucast tenant < mt_n_tenants m\<close>
          by (auto simp: gmk_metric_get_tenant_def m'_def arr_get_def)
      next
        case ne: False
        then have "unat i \<noteq> unat k" by (simp add: word_unat_eq_iff)
        then show ?thesis using t ne row by (simp add: gmk_metric_get_tenant_def m'_def arr_get_def)
      qed
    next
      case ne: False
      then have "unat tenant \<noteq> unat t" by (simp add: word_unat_eq_iff)
      then show ?thesis using ne by (simp add: gmk_metric_get_tenant_def m'_def arr_get_def)
    qed
    ultimately show ?thesis using e get1 False True
      by (intro exI [of _ m']) (simp add: m'_def lt)
  next
    case out: False
    have "gmk_metric_inc m tenant i d = Some ?m1"
      using False i len out by (simp add: gmk_metric_inc_def exec_simps)
    moreover have "gmk_metric_get_tenant ?m1 t k = gmk_metric_get_tenant m t k" for t k
      by (simp add: gmk_metric_get_tenant_def)
    moreover have "metrics_inv ?m1" using inv by (simp add: metrics_inv_def)
    ultimately show ?thesis using get1 out by simp
  qed
qed

end
