(* ===== verification/Chan.thy ===== *)
theory Chan
  imports Sched Alloc Trace Metrics
begin

text \<open>
  The channel registry of \<open>src/chan.c\<close>.  The scheduler, allocator, trace and metrics that the
  registry points to are the record \<open>kstore\<close>; the flags \<open>cr_alloc\<close>, \<open>cr_trace\<close> and \<open>cr_metrics\<close> say
  whether the registry's pointer is not \<open>NULL\<close>.  The per-channel locks have no effect on a
  sequence of operations and are left out.
\<close>

section \<open>State\<close>

record kstore =
  ks_sched :: gmk_sched
  ks_alloc :: gmk_alloc_t
  ks_trace :: gmk_trace
  ks_metrics :: gmk_metrics

record gmk_chan_sub =
  cs_module_id :: u32
  cs_worker_id :: int
  cs_active :: bool

record gmk_chan_entry =
  ch_name :: string
  ch_id :: u32
  ch_mode :: u32
  ch_guarantee :: u32
  ch_msg_type :: u32
  ch_ring :: "gmk_task gmk_ring_mpmc"
  ch_ring_cap :: u32
  ch_subs :: "gmk_chan_sub list"
  ch_n_subs :: u32
  ch_open :: bool
  ch_emit_count :: u64
  ch_drop_count :: u64

record gmk_chan_reg =
  cr_channels :: "gmk_chan_entry list"
  cr_n_channels :: u32
  cr_alloc :: bool
  cr_trace :: bool
  cr_metrics :: bool

abbreviation (input) GMK_CHAN_SYS_DROPPED :: u32 where "GMK_CHAN_SYS_DROPPED \<equiv> 1"

definition zero_sub :: gmk_chan_sub where
  "zero_sub = \<lparr>cs_module_id = 0, cs_worker_id = 0, cs_active = False\<rparr>"

definition zero_chan :: gmk_chan_entry where
  "zero_chan = \<lparr>ch_name = replicate GMK_MAX_CHAN_NAME (CHR 0x00), ch_id = 0, ch_mode = 0,
     ch_guarantee = 0, ch_msg_type = 0, ch_ring = zero_ring_mpmc, ch_ring_cap = 0,
     ch_subs = replicate (unat GMK_MAX_CHAN_SUBS) zero_sub, ch_n_subs = 0, ch_open = False,
     ch_emit_count = 0, ch_drop_count = 0\<rparr>"

section \<open>C strings\<close>

text \<open>A C string argument is the list of its characters before the terminator; an array of
  characters is a list that may contain the terminator.  Behind the end of the list there is a
  terminator.\<close>

definition c_char :: "string \<Rightarrow> nat \<Rightarrow> char" where
  "c_char s i = (if i < length s then s ! i else CHR 0x00)"

fun c_strlen_upto :: "nat \<Rightarrow> string \<Rightarrow> nat" where
  "c_strlen_upto 0 s = 0"
| "c_strlen_upto (Suc n) s = (case s of [] \<Rightarrow> 0 | c # cs \<Rightarrow> if c = CHR 0x00 then 0 else Suc (c_strlen_upto n cs))"

text \<open>\<open>strncpy\<close> copies at most \<open>n\<close> characters and fills up with terminators.\<close>

definition c_strncpy :: "string \<Rightarrow> string \<Rightarrow> nat \<Rightarrow> string" where
  "c_strncpy dst src n =
     (let k = c_strlen_upto n src in take k src @ replicate (n - k) (CHR 0x00) @ drop n dst)"

text \<open>\<open>strncmp(a, b, n) == 0\<close>\<close>

fun c_strneq_from :: "nat \<Rightarrow> string \<Rightarrow> string \<Rightarrow> nat \<Rightarrow> bool" where
  "c_strneq_from i a b 0 \<longleftrightarrow> True"
| "c_strneq_from i a b (Suc n) \<longleftrightarrow>
     c_char a i = c_char b i \<and> (c_char a i = CHR 0x00 \<or> c_strneq_from (Suc i) a b n)"

abbreviation c_strneq :: "string \<Rightarrow> string \<Rightarrow> nat \<Rightarrow> bool" where
  "c_strneq \<equiv> c_strneq_from 0"

section \<open>Registry\<close>

definition chan_trace :: "gmk_chan_reg \<Rightarrow> kstore \<Rightarrow> u16 \<Rightarrow> u32 \<Rightarrow> u16 \<Rightarrow> u32 \<Rightarrow> u32 \<Rightarrow> kstore exec" where
  "chan_trace cr st tenant ev ty a0 a1 =
     (if cr_trace cr
      then do { t \<leftarrow> gmk_trace_write (ks_trace st) tenant ev ty a0 a1; Some (st\<lparr>ks_trace := t\<rparr>) }
      else Some st)"

definition chan_metric :: "gmk_chan_reg \<Rightarrow> kstore \<Rightarrow> u16 \<Rightarrow> u32 \<Rightarrow> kstore exec" where
  "chan_metric cr st tenant metric_id =
     (if cr_metrics cr
      then do { m \<leftarrow> gmk_metric_inc (ks_metrics st) tenant metric_id 1; Some (st\<lparr>ks_metrics := m\<rparr>) }
      else Some st)"

definition chan_upd :: "gmk_chan_reg \<Rightarrow> u32 \<Rightarrow> (gmk_chan_entry \<Rightarrow> gmk_chan_entry) \<Rightarrow> gmk_chan_reg exec" where
  "chan_upd cr i f =
     do { ch \<leftarrow> arr_get (cr_channels cr) (unat i);
          Some (cr\<lparr>cr_channels := (cr_channels cr)[unat i := f ch]\<rparr>) }"

definition gmk_chan_reg_init :: "bool \<Rightarrow> bool \<Rightarrow> bool \<Rightarrow> hal \<Rightarrow> rc \<times> gmk_chan_reg \<times> hal" where
  "gmk_chan_reg_init has_alloc has_trace has_metrics h =
     (let ch0 = zero_chan\<lparr>ch_name := c_strncpy (ch_name zero_chan) ''sys.direct'' (GMK_MAX_CHAN_NAME - 1),
                          ch_id := 0, ch_open := False\<rparr>;
          ch1 = zero_chan\<lparr>ch_id := 1, ch_mode := GMK_CHAN_FANOUT, ch_guarantee := GMK_CHAN_LOSSY,
                          ch_open := True,
                          ch_name := c_strncpy (ch_name zero_chan) ''sys.dropped'' (GMK_MAX_CHAN_NAME - 1),
                          ch_emit_count := 0, ch_drop_count := 0\<rparr>;
          (c, r, h') = gmk_ring_mpmc_init (ch_ring ch1) zero_task GMK_CHAN_DEFAULT_SLOTS sizeof_gmk_task h;
          rest = replicate (unat GMK_MAX_CHANNELS - 2) zero_chan;
          cr = (\<lambda>ch1 n. \<lparr>cr_channels = ch0 # ch1 # rest, cr_n_channels = n, cr_alloc = has_alloc,
                         cr_trace = has_trace, cr_metrics = has_metrics\<rparr>)
      in if c \<noteq> 0 then (-1, cr (ch1\<lparr>ch_ring := r\<rparr>) 0, h')
         else (0, cr (ch1\<lparr>ch_ring := r, ch_ring_cap := GMK_CHAN_DEFAULT_SLOTS\<rparr>) 2, h'))"

fun chan_destroy_rings :: "nat list \<Rightarrow> gmk_chan_entry list \<Rightarrow> hal \<Rightarrow> (gmk_chan_entry list \<times> hal) exec" where
  "chan_destroy_rings [] chs h = Some (chs, h)"
| "chan_destroy_rings (i # is) chs h =
     do { ch \<leftarrow> arr_get chs i;
          if ch_open ch \<or> ch_ring_cap ch > 0
          then let (r, h') = gmk_ring_mpmc_destroy (ch_ring ch) h
               in chan_destroy_rings is (chs[i := ch\<lparr>ch_ring := r\<rparr>]) h'
          else chan_destroy_rings is chs h }"

definition gmk_chan_reg_destroy :: "gmk_chan_reg \<Rightarrow> hal \<Rightarrow> (gmk_chan_reg \<times> hal) exec" where
  "gmk_chan_reg_destroy cr h =
     do { (chs, h') \<leftarrow> chan_destroy_rings [0..<unat (cr_n_channels cr)] (cr_channels cr) h;
          Some (cr\<lparr>cr_channels := chs\<rparr>, h') }"

section \<open>Open, find, subscribe, close\<close>

text \<open>The first open channel of the name among the first \<open>n\<close>.\<close>

fun chan_lookup :: "nat list \<Rightarrow> gmk_chan_entry list \<Rightarrow> string \<Rightarrow> nat option exec" where
  "chan_lookup [] chs name = Some None"
| "chan_lookup (i # is) chs name =
     do { ch \<leftarrow> arr_get chs i;
          if ch_open ch \<and> c_strneq (ch_name ch) name GMK_MAX_CHAN_NAME then Some (Some i)
          else chan_lookup is chs name }"

definition gmk_chan_find :: "gmk_chan_reg \<Rightarrow> string \<Rightarrow> rc exec" where
  "gmk_chan_find cr name =
     do { r \<leftarrow> chan_lookup [0..<unat (cr_n_channels cr)] (cr_channels cr) name;
          Some (case r of None \<Rightarrow> -1 | Some i \<Rightarrow> int i) }"

definition gmk_chan_open ::
  "gmk_chan_reg \<Rightarrow> string \<Rightarrow> u32 \<Rightarrow> u32 \<Rightarrow> u32 \<Rightarrow> u32 \<Rightarrow> kstore \<Rightarrow> hal
    \<Rightarrow> (rc \<times> gmk_chan_reg \<times> kstore \<times> hal) exec" where
  "gmk_chan_open cr name mode guarantee msg_type slots st h =
     (if cr_n_channels cr \<ge> GMK_MAX_CHANNELS then Some (GMK_FAIL GMK_ERR_FULL, cr, st, h)
      else do { dup \<leftarrow> chan_lookup [0..<unat (cr_n_channels cr)] (cr_channels cr) name;
                if dup \<noteq> None then Some (GMK_FAIL GMK_ERR_EXISTS, cr, st, h)
                else let slots1 = (if slots = 0 then GMK_CHAN_DEFAULT_SLOTS else slots);
                         slots2 = (if gmk_is_power_of_two slots1 then slots1 else gmk_next_pow2 slots1);
                         id = cr_n_channels cr
                     in do { ch \<leftarrow> arr_get (cr_channels cr) (unat id);
                             let ch1 = ch\<lparr>ch_name := (c_strncpy (ch_name ch) name (GMK_MAX_CHAN_NAME - 1))
                                                        [GMK_MAX_CHAN_NAME - 1 := CHR 0x00],
                                          ch_id := id, ch_mode := mode, ch_guarantee := guarantee,
                                          ch_msg_type := msg_type, ch_n_subs := 0, ch_ring_cap := slots2,
                                          ch_open := True, ch_emit_count := 0, ch_drop_count := 0\<rparr>;
                                 (c, r, h') = gmk_ring_mpmc_init (ch_ring ch1) zero_task slots2 sizeof_gmk_task h;
                                 cr1 = cr\<lparr>cr_channels := (cr_channels cr)[unat id := ch1\<lparr>ch_ring := r\<rparr>]\<rparr>
                             in if c \<noteq> 0 then Some (GMK_FAIL GMK_ERR_NOMEM, cr1, st, h')
                                else let cr2 = cr1\<lparr>cr_n_channels := cr_n_channels cr1 + 1\<rparr>
                                     in do { st' \<leftarrow> chan_trace cr2 st 0 GMK_EV_CHAN_OPEN 0 id mode;
                                             Some (uint id, cr2, st', h') } } })"

definition gmk_chan_sub_op ::
  "gmk_chan_reg \<Rightarrow> u32 \<Rightarrow> u32 \<Rightarrow> int \<Rightarrow> (rc \<times> gmk_chan_reg) exec" where
  "gmk_chan_sub_op cr chan_id module_id worker_id =
     (if chan_id \<ge> cr_n_channels cr then Some (GMK_FAIL GMK_ERR_INVALID, cr)
      else do { ch \<leftarrow> arr_get (cr_channels cr) (unat chan_id);
                if \<not> ch_open ch then Some (GMK_CHAN_CLOSED, cr)
                else if ch_mode ch = GMK_CHAN_P2P \<and> ch_n_subs ch \<ge> 1 then Some (GMK_CHAN_ALREADY_BOUND, cr)
                else if ch_n_subs ch \<ge> GMK_MAX_CHAN_SUBS then Some (GMK_FAIL GMK_ERR_FULL, cr)
                else do { subs \<leftarrow> arr_set (ch_subs ch) (unat (ch_n_subs ch))
                            \<lparr>cs_module_id = module_id, cs_worker_id = worker_id, cs_active = True\<rparr>;
                          cr' \<leftarrow> chan_upd cr chan_id
                            (\<lambda>ch. ch\<lparr>ch_subs := subs, ch_n_subs := ch_n_subs ch + 1\<rparr>);
                          Some (GMK_OK, cr') } })"

definition gmk_chan_close :: "gmk_chan_reg \<Rightarrow> u32 \<Rightarrow> kstore \<Rightarrow> (rc \<times> gmk_chan_reg \<times> kstore) exec" where
  "gmk_chan_close cr chan_id st =
     (if chan_id \<ge> cr_n_channels cr then Some (GMK_FAIL GMK_ERR_INVALID, cr, st)
      else if chan_id \<le> GMK_CHAN_SYS_DROPPED then Some (GMK_FAIL GMK_ERR_INVALID, cr, st)
      else do { cr' \<leftarrow> chan_upd cr chan_id (\<lambda>ch. ch\<lparr>ch_open := False\<rparr>);
                st' \<leftarrow> chan_trace cr' st 0 GMK_EV_CHAN_CLOSE 0 chan_id 0;
                Some (GMK_OK, cr', st') })"

section \<open>Drain\<close>

definition route_to_dead_letter :: "gmk_chan_reg \<Rightarrow> gmk_task \<Rightarrow> gmk_chan_reg exec" where
  "route_to_dead_letter cr task =
     do { ch \<leftarrow> arr_get (cr_channels cr) (unat GMK_CHAN_SYS_DROPPED);
          if ch_open ch
          then do { (_, r) \<leftarrow> gmk_ring_mpmc_push (ch_ring ch) task;
                    chan_upd cr GMK_CHAN_SYS_DROPPED (\<lambda>ch. ch\<lparr>ch_ring := r\<rparr>) }
          else Some cr }"

text \<open>\<open>gmk_payload_release(cr->alloc, ...)\<close>; with a \<open>NULL\<close> allocator only the count changes.\<close>

definition chan_release :: "gmk_chan_reg \<Rightarrow> kstore \<Rightarrow> addr \<Rightarrow> kstore exec" where
  "chan_release cr st payload =
     (if cr_alloc cr
      then do { (_, a) \<leftarrow> gmk_payload_release (ks_alloc st) payload; Some (st\<lparr>ks_alloc := a\<rparr>) }
      else if payload = 0 then Some st
      else do { hdr \<leftarrow> al_hdrs (ks_alloc st) (payload - 8);
                Some (st\<lparr>ks_alloc := (ks_alloc st)\<lparr>al_hdrs := (al_hdrs (ks_alloc st))(payload - 8 \<mapsto>
                           hdr\<lparr>ph_refcount := ph_refcount hdr - 1\<rparr>)\<rparr>\<rparr>) })"

definition drain_p2p ::
  "gmk_chan_reg \<Rightarrow> u32 \<Rightarrow> gmk_chan_sub list \<Rightarrow> gmk_task \<Rightarrow> kstore \<Rightarrow> (gmk_chan_reg \<times> kstore) exec" where
  "drain_p2p cr chan_id snap task st =
     do { sub \<leftarrow> arr_get snap 0;
          if cs_active sub
          then do { (c, s, task') \<leftarrow> gmk_enqueue (ks_sched st) task (cs_worker_id sub);
                    let st1 = st\<lparr>ks_sched := s\<rparr>
                    in if c \<noteq> 0
                       then do { cr1 \<leftarrow> route_to_dead_letter cr task';
                                 cr2 \<leftarrow> chan_upd cr1 chan_id (\<lambda>ch. ch\<lparr>ch_drop_count := ch_drop_count ch + 1\<rparr>);
                                 Some (cr2, st1) }
                       else Some (cr, st1) }
          else Some (cr, st) }"

text \<open>The loop over the subscribers of a fan-out channel; \<open>i\<close> is the index of the next one.\<close>

fun fanout_copies ::
  "gmk_chan_reg \<Rightarrow> u32 \<Rightarrow> gmk_task \<Rightarrow> bool \<Rightarrow> nat \<Rightarrow> gmk_chan_sub list \<Rightarrow> kstore
    \<Rightarrow> (gmk_chan_reg \<times> kstore) exec" where
  "fanout_copies cr chan_id task has_rc i [] st = Some (cr, st)"
| "fanout_copies cr chan_id task has_rc i (sub # subs) st =
     (if \<not> cs_active sub then fanout_copies cr chan_id task has_rc (Suc i) subs st
      else do { (c, s, copy) \<leftarrow> gmk_enqueue (ks_sched st) task (cs_worker_id sub);
                let st1 = st\<lparr>ks_sched := s\<rparr>
                in if c \<noteq> 0
                   then do { ch \<leftarrow> arr_get (cr_channels cr) (unat chan_id);
                             (cr2, st2) \<leftarrow>
                               (if ch_guarantee ch = GMK_CHAN_LOSSY
                                then do { cr1 \<leftarrow> chan_upd cr chan_id
                                            (\<lambda>ch. ch\<lparr>ch_drop_count := ch_drop_count ch + 1\<rparr>);
                                          st2 \<leftarrow> chan_trace cr1 st1 (tk_tenant task) GMK_EV_CHAN_DROP
                                            (ucast (tk_type task)) chan_id (of_nat i);
                                          st3 \<leftarrow> chan_metric cr1 st2 (tk_tenant task) GMK_METRIC_CHAN_DROPS;
                                          Some (cr1, st3) }
                                else do { cr1 \<leftarrow> route_to_dead_letter cr copy; Some (cr1, st1) });
                             st4 \<leftarrow> (if has_rc then chan_release cr2 st2 (tk_payload_ptr copy) else Some st2);
                             fanout_copies cr2 chan_id task has_rc (Suc i) subs st4 }
                   else fanout_copies cr chan_id task has_rc (Suc i) subs st1 })"

definition drain_fanout ::
  "gmk_chan_reg \<Rightarrow> u32 \<Rightarrow> gmk_chan_sub list \<Rightarrow> gmk_task \<Rightarrow> kstore \<Rightarrow> (gmk_chan_reg \<times> kstore) exec" where
  "drain_fanout cr chan_id snap task st =
     (let has_rc = (tk_flags task AND GMK_TF_PAYLOAD_RC \<noteq> 0 \<and> tk_payload_ptr task \<noteq> 0);
          n_active = length (filter cs_active snap)
      in do { a \<leftarrow> (if has_rc \<and> n_active > 1
                    then payload_retains (n_active - 1) (ks_alloc st) (tk_payload_ptr task)
                    else Some (ks_alloc st));
              fanout_copies cr chan_id task has_rc 0 snap (st\<lparr>ks_alloc := a\<rparr>) })"

partial_function (option) drain_loop ::
  "u32 \<Rightarrow> gmk_chan_sub list \<Rightarrow> u32 \<Rightarrow> u32 \<Rightarrow> gmk_chan_reg \<Rightarrow> kstore
    \<Rightarrow> (u32 \<times> gmk_chan_reg \<times> kstore) exec" where
  "drain_loop chan_id snap limit drained cr st =
     (if drained < limit
      then do { ch \<leftarrow> arr_get (cr_channels cr) (unat chan_id);
                (t, r) \<leftarrow> gmk_ring_mpmc_pop (ch_ring ch);
                cr1 \<leftarrow> chan_upd cr chan_id (\<lambda>ch. ch\<lparr>ch_ring := r\<rparr>);
                case t of
                  None \<Rightarrow> Some (drained, cr1, st)
                | Some task \<Rightarrow>
                    do { (cr2, st2) \<leftarrow>
                           (if ch_mode ch = GMK_CHAN_P2P then drain_p2p cr1 chan_id snap task st
                            else drain_fanout cr1 chan_id snap task st);
                         drain_loop chan_id snap limit (drained + 1) cr2 st2 } }
      else Some (drained, cr, st))"

definition gmk_chan_drain ::
  "gmk_chan_reg \<Rightarrow> u32 \<Rightarrow> u32 \<Rightarrow> kstore \<Rightarrow> (rc \<times> gmk_chan_reg \<times> kstore) exec" where
  "gmk_chan_drain cr chan_id limit st =
     (if chan_id \<ge> cr_n_channels cr then Some (0, cr, st)
      else do { ch \<leftarrow> arr_get (cr_channels cr) (unat chan_id);
                let n_subs = ch_n_subs ch; snap = take (unat n_subs) (ch_subs ch)
                in if n_subs = 0 then Some (0, cr, st)
                   else do { (drained, cr1, st1) \<leftarrow>
                               drain_loop chan_id snap (if limit = 0 then -1 else limit) 0 cr st;
                             st2 \<leftarrow> (if drained > 0
                                     then chan_trace cr1 st1 0 GMK_EV_CHAN_DRAIN 0 chan_id drained
                                     else Some st1);
                             Some (sint drained, cr1, st2) } })"

section \<open>Emit\<close>

text \<open>The refusal path: the trace event and the counter.\<close>

definition emit_full ::
  "gmk_chan_reg \<Rightarrow> u32 \<Rightarrow> gmk_task \<Rightarrow> kstore \<Rightarrow> (rc \<times> gmk_chan_reg \<times> kstore \<times> gmk_task) exec" where
  "emit_full cr chan_id task st =
     do { st1 \<leftarrow> chan_trace cr st (tk_tenant task) GMK_EV_CHAN_FULL (ucast (tk_type task)) chan_id 0;
          st2 \<leftarrow> chan_metric cr st1 (tk_tenant task) GMK_METRIC_CHAN_FULL_COUNT;
          Some (GMK_CHAN_FULL, cr, st2, task) }"

text \<open>The counters of an accepted message.\<close>

definition emit_ok ::
  "gmk_chan_reg \<Rightarrow> u32 \<Rightarrow> gmk_task \<Rightarrow> kstore \<Rightarrow> (gmk_chan_reg \<times> kstore) exec" where
  "emit_ok cr chan_id task st =
     do { cr1 \<leftarrow> chan_upd cr chan_id (\<lambda>ch. ch\<lparr>ch_emit_count := ch_emit_count ch + 1\<rparr>);
          st1 \<leftarrow> chan_metric cr1 st (tk_tenant task) GMK_METRIC_CHAN_EMITS;
          Some (cr1, st1) }"

definition emit_buffered ::
  "gmk_chan_reg \<Rightarrow> u32 \<Rightarrow> gmk_chan_entry \<Rightarrow> gmk_task \<Rightarrow> kstore
    \<Rightarrow> (rc \<times> gmk_chan_reg \<times> kstore \<times> gmk_task) exec" where
  "emit_buffered cr chan_id ch task st =
     do { (c, r) \<leftarrow> gmk_ring_mpmc_push (ch_ring ch) task;
          cr1 \<leftarrow> chan_upd cr chan_id (\<lambda>ch. ch\<lparr>ch_ring := r\<rparr>);
          if c \<noteq> 0 then emit_full cr1 chan_id task st
          else do { (cr2, st2) \<leftarrow> emit_ok cr1 chan_id task st;
                    (cr3, st3) \<leftarrow>
                      (if ch_mode ch = GMK_CHAN_P2P \<and> ch_n_subs ch > 0
                       then do { (_, cr', st') \<leftarrow> gmk_chan_drain cr2 chan_id 1 st2; Some (cr', st') }
                       else Some (cr2, st2));
                    Some (GMK_OK, cr3, st3, task) } }"

definition gmk_chan_emit ::
  "gmk_chan_reg \<Rightarrow> u32 \<Rightarrow> gmk_task \<Rightarrow> kstore \<Rightarrow> (rc \<times> gmk_chan_reg \<times> kstore \<times> gmk_task) exec" where
  "gmk_chan_emit cr chan_id task st =
     (if chan_id \<ge> cr_n_channels cr then Some (GMK_FAIL GMK_ERR_INVALID, cr, st, task)
      else do { ch \<leftarrow> arr_get (cr_channels cr) (unat chan_id);
                if \<not> ch_open ch then Some (GMK_CHAN_CLOSED, cr, st, task)
                else let task1 = task\<lparr>tk_channel := chan_id, tk_flags := tk_flags task OR GMK_TF_CHANNEL_MSG\<rparr>;
                         count = gmk_ring_mpmc_count (ch_ring ch);
                         reserve_threshold = ch_ring_cap ch
                           - (ch_ring_cap ch * GMK_CHAN_PRIORITY_RESERVE_PCT div 100)
                     in if count \<ge> reserve_threshold \<and> GMK_PRIORITY (tk_flags task1) \<noteq> GMK_PRIO_CRITICAL
                        then emit_full cr chan_id task1 st
                        else if ch_mode ch = GMK_CHAN_P2P \<and> ch_n_subs ch = 1
                        then do { sub \<leftarrow> arr_get (ch_subs ch) 0;
                                  if cs_active sub
                                  then do { (c, s, task2) \<leftarrow> gmk_enqueue (ks_sched st) task1 (cs_worker_id sub);
                                            let st1 = st\<lparr>ks_sched := s\<rparr>
                                            in if c = 0
                                               then do { (cr', st') \<leftarrow> emit_ok cr chan_id task2 st1;
                                                         Some (GMK_OK, cr', st', task2) }
                                               else emit_buffered cr chan_id ch task2 st1 }
                                  else emit_buffered cr chan_id ch task1 st }
                        else emit_buffered cr chan_id ch task1 st })"

end
