(* ===== verification/Chan_Laws.thy ===== *)
theory Chan_Laws
  imports Chan
begin

text \<open>
  The invariant of the channel registry and the laws of its operations: names, subscriptions,
  memory, emission and draining.
\<close>

section \<open>Names\<close>

text \<open>A name without terminators inside; the characters up to the first terminator of an array.\<close>

definition c_name :: "string \<Rightarrow> bool" where
  "c_name s \<longleftrightarrow> CHR 0x00 \<notin> set s"

lemma c_strlen_upto_name: "c_name s \<Longrightarrow> c_strlen_upto n s = min n (length s)"
  by (induction n arbitrary: s) (auto simp: c_name_def split: list.splits)

text \<open>The contents of the name field after the copy.\<close>

definition name_field :: "string \<Rightarrow> string" where
  "name_field s = take 63 s @ replicate (64 - min 63 (length s)) (CHR 0x00)"

lemma chan_name_copy:
  assumes "c_name s" "length dst = 64"
  shows "(c_strncpy dst s 63)[63 := CHR 0x00] = name_field s"
proof (rule nth_equalityI)
  have l: "length (c_strncpy dst s 63) = 64"
    using assms by (simp add: c_strncpy_def Let_def c_strlen_upto_name)
  show "length ((c_strncpy dst s 63)[63 := CHR 0x00]) = length (name_field s)"
    using l by (simp add: name_field_def)
  fix i assume "i < length ((c_strncpy dst s 63)[63 := CHR 0x00])"
  then have i: "i < 64" using l by simp
  have "c_strncpy dst s 63 ! i = name_field s ! i" if "i < 63"
    using assms i that
    by (auto simp: c_strncpy_def Let_def c_strlen_upto_name name_field_def nth_append min_def)
  moreover have "name_field s ! 63 = CHR 0x00"
    by (auto simp: name_field_def nth_append min_def)
  ultimately show "(c_strncpy dst s 63)[63 := CHR 0x00] ! i = name_field s ! i"
    using i l by (cases "i = 63") (auto simp: nth_list_update)
qed

lemma length_name_field [simp]: "length (name_field s) = 64"
  by (simp add: name_field_def)

lemma name_field_end [simp]: "name_field s ! 63 = CHR 0x00"
  by (auto simp: name_field_def nth_append)

lemma c_char_name_field: "c_char (name_field s) i = (if i < 63 then c_char s i else CHR 0x00)"
  by (auto simp: c_char_def name_field_def nth_append min_def)

lemma c_char_take: "c_char (take n s) i = (if i < n then c_char s i else CHR 0x00)"
  by (auto simp: c_char_def)

lemma c_char_beyond: "length s \<le> i \<Longrightarrow> c_char s i = CHR 0x00"
  by (simp add: c_char_def)

lemma c_strneq_same:
  "(\<And>j. i \<le> j \<Longrightarrow> j < i + n \<Longrightarrow> c_char a j = c_char b j) \<Longrightarrow> c_strneq_from i a b n"
  by (induction n arbitrary: i) auto

lemma c_strneq_differ:
  "c_strneq_from i a b n \<Longrightarrow> i \<le> j \<Longrightarrow> j < i + n \<Longrightarrow> c_char a j \<noteq> c_char b j \<Longrightarrow>
   \<exists>l. i \<le> l \<and> l < j \<and> c_char a l = CHR 0x00 \<and> c_char b l = CHR 0x00"
proof (induction n arbitrary: i)
  case (Suc n)
  then have ij: "i < j" and e: "c_char a i = c_char b i" by (auto simp: le_less)
  show ?case
  proof (cases "c_char a i = CHR 0x00")
    case True
    then show ?thesis using ij e by (intro exI [of _ i]) simp
  next
    case False
    then obtain l where "Suc i \<le> l" "l < j" "c_char a l = CHR 0x00" "c_char b l = CHR 0x00"
      using Suc.prems Suc.IH [of "Suc i"] ij by auto
    then show ?thesis by (intro exI [of _ l]) simp
  qed
qed simp

text \<open>A field matches the name that was copied into it exactly when the name has fewer than 64
  characters.\<close>

lemma name_field_matches: "length s < 64 \<Longrightarrow> c_strneq (name_field s) s 64"
  by (rule c_strneq_same) (simp add: c_char_name_field c_char_beyond)

lemma terminated_not_long:
  assumes "c_name s" "64 \<le> length s" "f ! 63 = CHR 0x00"
  shows "\<not> c_strneq f s 64"
proof
  assume m: "c_strneq f s 64"
  have s: "c_char s j \<noteq> CHR 0x00" if "j < 64" for j
    using assms(1,2) that by (auto simp: c_char_def c_name_def) (metis less_le_trans nth_mem)
  have "c_char f 63 = CHR 0x00" using assms(3) by (simp add: c_char_def)
  with c_strneq_differ [OF m, of 63] s [of 63] obtain l where "l < 63" "c_char s l = CHR 0x00" by auto
  then show False using s [of l] by simp
qed

lemma c_strneq_iff:
  assumes "c_name s" "length s < 64" "c_name f"
  shows "c_strneq (name_field f) s 64 \<longleftrightarrow> take 63 f = s"
proof
  assume m: "c_strneq (name_field f) s 64"
  have ch: "c_char (name_field f) j = c_char (take 63 f) j" for j
    by (simp add: c_char_name_field c_char_take)
  have nz: "c_char x j = CHR 0x00 \<longleftrightarrow> length x \<le> j" if "c_name x" for x j
    using that by (auto simp: c_char_def c_name_def in_set_conv_nth)
  have nf: "c_name (take 63 f)" using assms(3) by (auto simp: c_name_def dest: in_set_takeD)
  have eq: "c_char (take 63 f) j = c_char s j" if "j \<le> min (length (take 63 f)) (length s)" for j
  proof (rule ccontr)
    assume "c_char (take 63 f) j \<noteq> c_char s j"
    with c_strneq_differ [OF m, of j] that assms(2) obtain l where "l < j" "c_char s l = CHR 0x00"
      by (auto simp: ch)
    then show False using nz [OF assms(1), of l] that by simp
  qed
  have len: "length (take 63 f) = length s"
  proof (cases "length (take 63 f) \<le> length s")
    case True
    then have "c_char s (length (take 63 f)) = CHR 0x00"
      using eq [of "length (take 63 f)"] c_char_beyond [of "take 63 f" "length (take 63 f)"] by (simp only: min.absorb1 le_refl)
    then show ?thesis using nz [OF assms(1)] True by (metis antisym)
  next
    case False
    then have "c_char (take 63 f) (length s) = CHR 0x00"
      using eq [of "length s"] c_char_beyond [of s "length s"] by (simp only: min.absorb2 not_le less_imp_le le_refl)
    then show ?thesis using nz [OF nf] False by metis
  qed
  show "take 63 f = s"
  proof (rule nth_equalityI [OF len])
    fix i assume "i < length (take 63 f)"
    then have "c_char (take 63 f) i = c_char s i" using eq [of i] len
      by (simp only: min.idem less_imp_le)
    moreover have "i < length s" "i < length (take 63 f)" using \<open>i < length (take 63 f)\<close> len
      by (simp_all only:)
    ultimately show "take 63 f ! i = s ! i" by (simp only: c_char_def if_True)
  qed
next
  assume "take 63 f = s"
  then have "name_field f = name_field s" by (auto simp: name_field_def min_def)
  then show "c_strneq (name_field f) s 64" using name_field_matches [OF assms(2)] by simp
qed

section \<open>Invariant\<close>

text \<open>The entries below \<open>n_channels\<close> are in use.  Entry 0 is never open; entry 1 is the dead-letter
  channel.  A ring has at least two cells.\<close>

definition chan_ok :: "bool \<Rightarrow> nat \<Rightarrow> gmk_chan_entry \<Rightarrow> bool" where
  "chan_ok used i ch \<longleftrightarrow> length (ch_name ch) = 64 \<and> ch_name ch ! 63 = CHR 0x00 \<and> length (ch_subs ch) = 32
     \<and> (used \<longrightarrow> unat (ch_n_subs ch) \<le> 32
        \<and> (\<forall>j < unat (ch_n_subs ch). cs_active (ch_subs ch ! j) \<and> cs_worker_id (ch_subs ch ! j) < 2 ^ 31)
        \<and> (ch_mode ch = GMK_CHAN_P2P \<longrightarrow> unat (ch_n_subs ch) \<le> 1)
        \<and> (i \<noteq> 0 \<longrightarrow> mpmc_inv (ch_ring ch) \<and> ch_ring_cap ch = mp_cap (ch_ring ch)))
     \<and> (i = 0 \<longrightarrow> \<not> ch_open ch \<and> ch_ring_cap ch = 0 \<and> ch_n_subs ch = 0)
     \<and> (i = 1 \<longrightarrow> ch_open ch \<and> ch_mode ch = GMK_CHAN_FANOUT \<and> ch_guarantee ch = GMK_CHAN_LOSSY)"

definition chan_inv :: "gmk_chan_reg \<Rightarrow> bool" where
  "chan_inv cr \<longleftrightarrow> length (cr_channels cr) = 256 \<and> 2 \<le> unat (cr_n_channels cr)
     \<and> unat (cr_n_channels cr) \<le> 256
     \<and> (\<forall>i < 256. chan_ok (i < unat (cr_n_channels cr)) i (cr_channels cr ! i))"

abbreviation chan_at :: "gmk_chan_reg \<Rightarrow> u32 \<Rightarrow> gmk_chan_entry" where
  "chan_at cr c \<equiv> cr_channels cr ! unat c"

text \<open>The messages that a channel buffers.\<close>

definition chan_queue :: "gmk_chan_reg \<Rightarrow> u32 \<Rightarrow> gmk_task list" where
  "chan_queue cr c = mpmc_contents (ch_ring (chan_at cr c))"

lemma chan_inv_entry:
  assumes "chan_inv cr" "c < cr_n_channels cr"
  shows "unat c < 256" "unat c < length (cr_channels cr)" "chan_ok True (unat c) (chan_at cr c)"
    "arr_get (cr_channels cr) (unat c) = Some (chan_at cr c)"
proof -
  have i: "unat c < unat (cr_n_channels cr)" using assms(2) by (simp add: word_less_nat_alt)
  then show "unat c < 256" using assms(1) by (simp add: chan_inv_def)
  then show l: "unat c < length (cr_channels cr)" and "chan_ok True (unat c) (chan_at cr c)"
    using assms(1) i unfolding chan_inv_def by fastforce+
  then show "arr_get (cr_channels cr) (unat c) = Some (chan_at cr c)" by (simp add: exec_simps)
qed

lemma chan_upd_eq:
  assumes "chan_inv cr" "c < cr_n_channels cr"
  shows "chan_upd cr c f = Some (cr\<lparr>cr_channels := (cr_channels cr)[unat c := f (chan_at cr c)]\<rparr>)"
  using chan_inv_entry(4) [OF assms] by (simp add: chan_upd_def)

lemma chan_inv_update:
  assumes "chan_inv cr" "c < cr_n_channels cr" "chan_ok True (unat c) ch"
  shows "chan_inv (cr\<lparr>cr_channels := (cr_channels cr)[unat c := ch]\<rparr>)"
  using assms by (auto simp: chan_inv_def nth_list_update word_less_nat_alt)

lemma chan_ok_counts [simp]:
  "chan_ok u i (ch\<lparr>ch_emit_count := n\<rparr>) = chan_ok u i ch"
  "chan_ok u i (ch\<lparr>ch_drop_count := n\<rparr>) = chan_ok u i ch"
  by (simp_all add: chan_ok_def)

lemma chan_ok_ring:
  "chan_ok u i ch \<Longrightarrow> mpmc_inv r \<Longrightarrow> mpmc_capacity r = mpmc_capacity (ch_ring ch) \<Longrightarrow> i \<noteq> 0 \<Longrightarrow> u \<Longrightarrow>
   chan_ok u i (ch\<lparr>ch_ring := r\<rparr>)"
  by (simp add: chan_ok_def mpmc_capacity_def word_unat_eq_iff)

section \<open>The store\<close>

text \<open>What tracing and counting leave of the store.\<close>

definition obs_inv :: "kstore \<Rightarrow> bool" where
  "obs_inv st \<longleftrightarrow> trace_inv (ks_trace st) \<and> metrics_inv (ks_metrics st)"

definition obs_step :: "kstore \<Rightarrow> kstore \<Rightarrow> bool" where
  "obs_step st st' \<longleftrightarrow> obs_inv st' \<and> ks_sched st' = ks_sched st \<and> ks_alloc st' = ks_alloc st
     \<and> trace_kept (ks_trace st) (ks_trace st')"

lemma obs_step_refl: "obs_inv st \<Longrightarrow> obs_step st st"
  by (simp add: obs_step_def obs_inv_def trace_kept_def)

lemma obs_step_trans: "obs_step st st' \<Longrightarrow> obs_step st' st'' \<Longrightarrow> obs_step st st''"
  by (auto simp: obs_step_def trace_kept_def)

lemma obs_step_inv: "obs_step st st' \<Longrightarrow> obs_inv st'"
  by (simp add: obs_step_def)

lemma obs_inv_update [simp]:
  "obs_inv (st\<lparr>ks_sched := s\<rparr>) = obs_inv st" "obs_inv (st\<lparr>ks_alloc := a\<rparr>) = obs_inv st"
  by (simp_all add: obs_inv_def)

lemma chan_trace_step:
  assumes "obs_inv st"
  obtains st' where "chan_trace cr st tenant ev ty a0 a1 = Some st'" "obs_step st st'"
proof (cases "cr_trace cr")
  case True
  obtain t where "gmk_trace_write (ks_trace st) tenant ev ty a0 a1 = Some t" "trace_kept (ks_trace st) t"
    using trace_write_kept [of "ks_trace st" tenant ev ty a0 a1] assms by (auto simp: obs_inv_def)
  then show ?thesis using True assms
    by (intro that [of "st\<lparr>ks_trace := t\<rparr>"])
      (simp_all add: chan_trace_def obs_step_def obs_inv_def trace_kept_def)
next
  case False
  then show ?thesis using assms by (intro that [of st]) (simp_all add: chan_trace_def obs_step_refl)
qed

lemma chan_metric_step:
  assumes "obs_inv st"
  obtains st' where "chan_metric cr st tenant metric = Some st'" "obs_step st st'"
proof (cases "cr_metrics cr")
  case True
  obtain m where "gmk_metric_inc (ks_metrics st) tenant metric 1 = Some m" "metrics_inv m"
    using metric_inc_ok [of "ks_metrics st" tenant metric 1] assms by (auto simp: obs_inv_def)
  then show ?thesis using True assms
    by (intro that [of "st\<lparr>ks_metrics := m\<rparr>"])
      (simp_all add: chan_metric_def obs_step_def obs_inv_def trace_kept_def)
next
  case False
  then show ?thesis using assms by (intro that [of st]) (simp_all add: chan_metric_def obs_step_refl)
qed

section \<open>Lookup\<close>

definition chan_named :: "gmk_chan_reg \<Rightarrow> nat \<Rightarrow> string \<Rightarrow> bool" where
  "chan_named cr i name \<longleftrightarrow> i < unat (cr_n_channels cr) \<and> ch_open (cr_channels cr ! i)
     \<and> c_strneq (ch_name (cr_channels cr ! i)) name 64"

lemma chan_lookup_find:
  "\<forall>i \<in> set is. i < length chs \<Longrightarrow>
   chan_lookup is chs name =
     Some (List.find (\<lambda>i. ch_open (chs ! i) \<and> c_strneq (ch_name (chs ! i)) name 64) is)"
  by (induction "is") (auto simp: exec_simps)

lemma chan_lookup_eq:
  assumes "chan_inv cr"
  shows "chan_lookup [0..<unat (cr_n_channels cr)] (cr_channels cr) name =
    Some (List.find (\<lambda>i. chan_named cr i name) [0..<unat (cr_n_channels cr)])"
proof -
  have "List.find (\<lambda>i. ch_open (cr_channels cr ! i) \<and> c_strneq (ch_name (cr_channels cr ! i)) name 64)
      [0..<unat (cr_n_channels cr)] = List.find (\<lambda>i. chan_named cr i name) [0..<unat (cr_n_channels cr)]"
    by (rule find_cong) (auto simp: chan_named_def)
  then show ?thesis using assms by (subst chan_lookup_find) (auto simp: chan_inv_def)
qed

lemma find_upt_least:
  assumes "i < n" "P i" "\<And>j. j < i \<Longrightarrow> \<not> P j"
  shows "List.find P [0..<n] = Some i"
  using assms by (subst find_Some_iff) auto

lemma chan_find_cases:
  assumes "chan_inv cr"
  obtains (found) i where "gmk_chan_find cr name = Some (int i)" "chan_named cr i name"
      "\<And>j. j < i \<Longrightarrow> \<not> chan_named cr j name"
    | (none) "gmk_chan_find cr name = Some (-1)" "\<And>i. \<not> chan_named cr i name"
proof (cases "List.find (\<lambda>i. chan_named cr i name) [0..<unat (cr_n_channels cr)]")
  case None
  then have "gmk_chan_find cr name = Some (-1)" using chan_lookup_eq [OF assms] by (simp add: gmk_chan_find_def)
  moreover have "\<not> chan_named cr i name" for i
    using None by (auto simp: find_None_iff chan_named_def)
  ultimately show ?thesis by (rule that(2))
next
  case (Some i)
  then have "chan_named cr i name" "\<And>j. j < i \<Longrightarrow> \<not> chan_named cr j name"
    by (auto simp: find_Some_iff)
  then show ?thesis using Some chan_lookup_eq [OF assms]
    by (intro that(1) [of i]) (auto simp: gmk_chan_find_def)
qed

section \<open>Open\<close>

definition chan_slots :: "u32 \<Rightarrow> u32" where
  "chan_slots slots = (let s = (if slots = 0 then GMK_CHAN_DEFAULT_SLOTS else slots)
     in if gmk_is_power_of_two s then s else gmk_next_pow2 s)"

text \<open>The heap blocks of the rings.\<close>

definition chan_blocks :: "gmk_chan_reg \<Rightarrow> addr multiset" where
  "chan_blocks cr = mset (map (\<lambda>i. mp_ptr (ch_ring (cr_channels cr ! i))) [1..<unat (cr_n_channels cr)])"

text \<open>A request for one slot gives a ring of one cell, on which the ring operations do not behave
  as a queue; every other request gives a ring of at least two cells or fails.\<close>

lemma chan_slots_ge2:
  assumes "slots \<noteq> 1" "gmk_is_power_of_two (chan_slots slots)"
  shows "2 \<le> chan_slots slots"
proof -
  have one: "gmk_is_power_of_two 1" "gmk_is_power_of_two 1024" by (simp_all add: gmk_is_power_of_two_def)
  have "chan_slots slots \<noteq> 1"
  proof (cases "slots = 0 \<or> gmk_is_power_of_two slots")
    case True
    then show ?thesis using assms(1) one by (auto simp: chan_slots_def Let_def)
  next
    case False
    then have big: "2 \<le> unat slots" using assms(1) one
      by (metis One_nat_def less_2_cases not_le unat_1 unat_eq_zero word_unat_eq_iff)
    show ?thesis
    proof (cases "unat slots \<le> 2 ^ 31")
      case True
      obtain k where "gmk_next_pow2 slots = 2 ^ k" "unat slots \<le> 2 ^ k" "k \<le> 31"
        by (rule gmk_next_pow2_least [OF True])
      moreover from this(3) have "unat (2 ^ k :: u32) = 2 ^ k" by (intro unat_pow2) simp
      ultimately have "2 \<le> unat (chan_slots slots)" using False big by (simp add: chan_slots_def Let_def)
      then show ?thesis by auto
    next
      case False
      then show ?thesis using gmk_next_pow2_wraps [of slots] \<open>\<not> (slots = 0 \<or> _)\<close>
        by (simp add: chan_slots_def)
    qed
  qed
  moreover have "chan_slots slots \<noteq> 0" using assms(2) by (auto simp: gmk_is_power_of_two_def)
  ultimately have "unat (chan_slots slots) \<noteq> 1" "unat (chan_slots slots) \<noteq> 0"
    by (simp_all add: word_unat_eq_iff)
  then show ?thesis by (simp add: word_le_nat_alt)
qed

text \<open>The entry that an open writes, before its ring exists.\<close>

definition opened :: "string \<Rightarrow> u32 \<Rightarrow> u32 \<Rightarrow> u32 \<Rightarrow> u32 \<Rightarrow> u32 \<Rightarrow> gmk_chan_entry \<Rightarrow> gmk_chan_entry" where
  "opened name c mode guarantee msg_type slots ch =
     ch\<lparr>ch_name := name_field name, ch_id := c, ch_mode := mode, ch_guarantee := guarantee,
        ch_msg_type := msg_type, ch_n_subs := 0, ch_ring_cap := chan_slots slots, ch_open := True,
        ch_emit_count := 0, ch_drop_count := 0\<rparr>"

lemma chan_open_eq:
  fixes mode guarantee msg_type slots
  assumes inv: "chan_inv cr" and name: "c_name name" and room: "cr_n_channels cr < 256"
    and new: "\<And>i. \<not> chan_named cr i name"
  defines "ch \<equiv> opened name (cr_n_channels cr) mode guarantee msg_type slots (chan_at cr (cr_n_channels cr))"
  shows "gmk_chan_open cr name mode guarantee msg_type slots st h =
    (let n = cr_n_channels cr;
         (e, r, h') = gmk_ring_mpmc_init (ch_ring ch) zero_task (chan_slots slots) 48 h;
         cr1 = cr\<lparr>cr_channels := (cr_channels cr)[unat n := ch\<lparr>ch_ring := r\<rparr>]\<rparr>
     in if e \<noteq> 0 then Some (-1, cr1, st, h')
        else do { st' \<leftarrow> chan_trace (cr1\<lparr>cr_n_channels := n + 1\<rparr>) st 0 GMK_EV_CHAN_OPEN 0 n mode;
                  Some (uint n, cr1\<lparr>cr_n_channels := n + 1\<rparr>, st', h') })"
proof -
  have n: "unat (cr_n_channels cr) < 256" using room by (simp add: word_less_nat_alt)
  have len: "length (cr_channels cr) = 256" and ok: "length (ch_name (chan_at cr (cr_n_channels cr))) = 64"
    using inv n by (auto simp: chan_inv_def chan_ok_def)
  have "List.find (\<lambda>i. chan_named cr i name) [0..<unat (cr_n_channels cr)] = None"
    using new by (simp add: find_None_iff)
  then have look: "chan_lookup [0..<unat (cr_n_channels cr)] (cr_channels cr) name = Some None"
    using chan_lookup_eq [OF inv, of name] by simp
  have full: "\<not> 256 \<le> cr_n_channels cr" using room by simp
  have s: "(if gmk_is_power_of_two (if slots = 0 then 1024 else slots) then if slots = 0 then 1024 else slots
      else gmk_next_pow2 (if slots = 0 then 1024 else slots)) = chan_slots slots"
    by (simp add: chan_slots_def Let_def)
  have g: "arr_get (cr_channels cr) (unat (cr_n_channels cr)) = Some (chan_at cr (cr_n_channels cr))"
    using n len by (simp add: exec_simps)
  have c: "(c_strncpy (ch_name (chan_at cr (cr_n_channels cr))) name (64 - 1))[64 - 1 := CHR 0x00] = name_field name"
    using chan_name_copy [OF name ok] by simp
  show ?thesis
    unfolding gmk_chan_open_def Let_def s look Option.bind.bind_lunit g c ch_def opened_def
    using full by (simp split: prod.split)
qed

lemma chan_inv_fresh:
  assumes inv: "chan_inv cr" and n: "unat (cr_n_channels cr) < 256"
    and r: "mpmc_inv r" "mp_cap r = chan_slots slots"
  shows "chan_inv (cr\<lparr>cr_channels := (cr_channels cr)[unat (cr_n_channels cr) :=
      (opened name (cr_n_channels cr) mode g ty slots (chan_at cr (cr_n_channels cr)))\<lparr>ch_ring := r\<rparr>],
      cr_n_channels := cr_n_channels cr + 1\<rparr>)"
proof -
  have n': "unat (cr_n_channels cr + 1) = Suc (unat (cr_n_channels cr))"
    using n by (subst unat_add_nowrap) simp_all
  have "chan_ok True (unat (cr_n_channels cr))
      ((opened name (cr_n_channels cr) mode g ty slots (chan_at cr (cr_n_channels cr)))\<lparr>ch_ring := r\<rparr>)"
    using inv n r by (auto simp: chan_inv_def chan_ok_def opened_def)
  then show ?thesis using inv n n'
    by (auto simp: chan_inv_def nth_list_update less_Suc_eq)
qed

lemma chan_open_cases:
  assumes inv: "chan_inv cr" and name: "c_name name" and slots: "slots \<noteq> 1"
    and obs: "obs_inv st" and o: "hal_owns h0 (chan_blocks cr + P) h"
  obtains (full) "cr_n_channels cr = 256" "gmk_chan_open cr name mode g ty slots st h = Some (-2, cr, st, h)"
    | (exists) i where "cr_n_channels cr < 256" "chan_named cr i name"
      "gmk_chan_open cr name mode g ty slots st h = Some (-6, cr, st, h)"
    | (nomem) cr' h' where "cr_n_channels cr < 256" "\<And>i. \<not> chan_named cr i name"
      "gmk_chan_open cr name mode g ty slots st h = Some (-1, cr', st, h')" "chan_inv cr'"
      "cr_n_channels cr' = cr_n_channels cr"
      "take (unat (cr_n_channels cr)) (cr_channels cr') = take (unat (cr_n_channels cr)) (cr_channels cr)"
      "hal_owns h0 (chan_blocks cr' + P) h'"
    | (ok) r st' h' cr' where "cr_n_channels cr < 256" "\<And>i. \<not> chan_named cr i name"
      "gmk_chan_open cr name mode g ty slots st h = Some (int (unat (cr_n_channels cr)), cr', st', h')"
      "chan_inv cr'" "cr_n_channels cr' = cr_n_channels cr + 1"
      "cr_channels cr' = (cr_channels cr)[unat (cr_n_channels cr) :=
         (opened name (cr_n_channels cr) mode g ty slots (chan_at cr (cr_n_channels cr)))\<lparr>ch_ring := r\<rparr>]"
      "mpmc_contents r = []" "mp_cap r = chan_slots slots" "obs_step st st'"
      "hal_owns h0 (chan_blocks cr' + P) h'"
proof -
  let ?n = "cr_n_channels cr"
  note out = that
  have len: "length (cr_channels cr) = 256" "unat ?n \<le> 256" "2 \<le> unat ?n" using inv by (simp_all add: chan_inv_def)
  consider "?n = 256" | i where "?n < 256" "chan_named cr i name" | "?n < 256" "\<And>i. \<not> chan_named cr i name"
    using len(2) by (auto simp: word_less_nat_alt word_unat_eq_iff le_less)
  then show ?thesis
  proof cases
    case 1
    then show ?thesis by (intro that(1)) (simp_all add: gmk_chan_open_def)
  next
    case (2 i)
    have "\<not> 256 \<le> ?n" using 2(1) by simp
    moreover have "List.find (\<lambda>i. chan_named cr i name) [0..<unat ?n] \<noteq> None"
      using 2(2) by (auto simp: find_None_iff chan_named_def)
    ultimately show ?thesis using 2 chan_lookup_eq [OF inv, of name]
      by (intro that(2) [of i]) (auto simp: gmk_chan_open_def)
  next
    case 3
    have n: "unat ?n < 256" using 3(1) by (simp add: word_less_nat_alt)
    define ch where "ch = opened name ?n mode g ty slots (chan_at cr ?n)"
    obtain e r h' where i: "gmk_ring_mpmc_init (ch_ring ch) zero_task (chan_slots slots) 48 h = (e, r, h')"
      using prod_cases3 by blast
    let ?cr1 = "cr\<lparr>cr_channels := (cr_channels cr)[unat ?n := ch\<lparr>ch_ring := r\<rparr>]\<rparr>"
    note eq = chan_open_eq [OF inv name 3, where mode = mode and guarantee = g and msg_type = ty
        and slots = slots and st = st and h = h, folded ch_def, unfolded i]
    have fail: ?thesis if f: "e = -1" "hal_owns h0 (chan_blocks cr + P) h'"
    proof (rule out(3) [of ?cr1 h'])
      show "chan_inv ?cr1" using inv n len(3)
        by (auto simp: chan_inv_def nth_list_update chan_ok_def ch_def opened_def)
      have "chan_blocks ?cr1 = chan_blocks cr"
        unfolding chan_blocks_def by (rule arg_cong [of _ _ mset]) simp
      then show "hal_owns h0 (chan_blocks ?cr1 + P) h'" using f(2) by (simp only:)
    qed (use 3 eq f(1) in simp_all)
    show ?thesis
    proof (cases "2 \<le> chan_slots slots")
      case True
      show ?thesis
      proof (rule mpmc_init_cases [OF i o True])
        assume k: "e = 0" "mpmc_inv r" "mpmc_contents r = []" "mp_cap r = chan_slots slots"
          "hal_owns h0 (add_mset (mp_ptr r) (chan_blocks cr + P)) h'"
        let ?cr2 = "?cr1\<lparr>cr_n_channels := ?n + 1\<rparr>"
        have n': "unat (?n + 1) = Suc (unat ?n)" using n by (subst unat_add_nowrap) simp_all
        obtain st' where st': "chan_trace ?cr2 st 0 GMK_EV_CHAN_OPEN 0 ?n mode = Some st'" "obs_step st st'"
          by (rule chan_trace_step [OF obs])
        have "map (\<lambda>i. mp_ptr (ch_ring (cr_channels ?cr2 ! i))) [1..<unat (?n + 1)] =
            map (\<lambda>i. mp_ptr (ch_ring (cr_channels cr ! i))) [1..<unat ?n] @ [mp_ptr r]"
          using n len n' by simp
        then have "chan_blocks ?cr2 = mset (map (\<lambda>i. mp_ptr (ch_ring (cr_channels cr ! i))) [1..<unat ?n] @ [mp_ptr r])"
          unfolding chan_blocks_def by simp
        then have "chan_blocks ?cr2 = add_mset (mp_ptr r) (chan_blocks cr)" by (simp add: chan_blocks_def)
        then have own: "hal_owns h0 (chan_blocks ?cr2 + P) h'" using k(5) by simp
        have inv2: "chan_inv ?cr2"
          using chan_inv_fresh [OF inv n k(2,4), where name = name and mode = mode and g = g and ty = ty]
          by (simp add: ch_def)
        have "gmk_chan_open cr name mode g ty slots st h = Some (uint ?n, ?cr2, st', h')"
          using eq k(1) st'(1) by (simp add: Let_def)
        then show ?thesis
          by (intro that(4) [OF 3 _ inv2 _ _ k(3,4) st'(2) own]) (simp_all add: ch_def)
      qed (use fail in simp)
    next
      case False
      then have "e = -1" "h' = h" using i chan_slots_ge2 [OF slots]
        by (auto simp: gmk_ring_mpmc_init_def split: if_splits)
      then show ?thesis using fail o by simp
    qed
  qed
qed

text \<open>A channel that was opened is found under its name, if that has fewer than 64 characters.\<close>

lemma chan_find_opened:
  assumes inv: "chan_inv cr'" and n: "cr_n_channels cr < 256" "unat (cr_n_channels cr') = Suc (unat (cr_n_channels cr))"
    and chs: "cr_channels cr' = (cr_channels cr)[unat (cr_n_channels cr) := ch]" "unat (cr_n_channels cr) < length (cr_channels cr)"
    and ch: "ch_open ch" "ch_name ch = name_field name" and new: "\<And>i. \<not> chan_named cr i name"
    and len: "length name < 64"
  shows "gmk_chan_find cr' name = Some (int (unat (cr_n_channels cr)))"
proof -
  let ?n = "unat (cr_n_channels cr)"
  have "chan_named cr' ?n name"
    using n(2) chs ch name_field_matches [OF len] by (simp add: chan_named_def)
  moreover have "\<not> chan_named cr' j name" if "j < ?n" for j
    using new [of j] that n(2) chs by (auto simp: chan_named_def)
  ultimately show ?thesis
    by (metis chan_find_cases [OF inv] linorder_neqE_nat)
qed

section \<open>Subscribe and close\<close>

lemma chan_sub_cases:
  assumes inv: "chan_inv cr" and w: "w < 2 ^ 31"
  obtains (invalid) "cr_n_channels cr \<le> c" "gmk_chan_sub_op cr c m w = Some (-4, cr)"
    | (closed) "c < cr_n_channels cr" "\<not> ch_open (chan_at cr c)" "gmk_chan_sub_op cr c m w = Some (-7, cr)"
    | (bound) "c < cr_n_channels cr" "ch_open (chan_at cr c)" "ch_mode (chan_at cr c) = GMK_CHAN_P2P"
      "unat (ch_n_subs (chan_at cr c)) = 1" "gmk_chan_sub_op cr c m w = Some (-12, cr)"
    | (full) "c < cr_n_channels cr" "ch_open (chan_at cr c)" "unat (ch_n_subs (chan_at cr c)) = 32"
      "gmk_chan_sub_op cr c m w = Some (-2, cr)"
    | (ok) ch' where "c < cr_n_channels cr" "ch_open (chan_at cr c)"
      "ch_mode (chan_at cr c) = GMK_CHAN_P2P \<longrightarrow> ch_n_subs (chan_at cr c) = 0"
      "gmk_chan_sub_op cr c m w = Some (0, cr\<lparr>cr_channels := (cr_channels cr)[unat c := ch']\<rparr>)"
      "chan_inv (cr\<lparr>cr_channels := (cr_channels cr)[unat c := ch']\<rparr>)"
      "unat (ch_n_subs ch') = Suc (unat (ch_n_subs (chan_at cr c)))"
      "take (unat (ch_n_subs ch')) (ch_subs ch') = take (unat (ch_n_subs (chan_at cr c))) (ch_subs (chan_at cr c))
         @ [\<lparr>cs_module_id = m, cs_worker_id = w, cs_active = True\<rparr>]"
      "ch_ring ch' = ch_ring (chan_at cr c)"
proof (cases "c < cr_n_channels cr")
  case False
  then show ?thesis by (intro that(1)) (simp_all add: gmk_chan_sub_op_def not_less)
next
  case c: True
  let ?ch = "chan_at cr c"
  have nc: "\<not> cr_n_channels cr \<le> c" using c by simp
  note e = chan_inv_entry [OF inv c]
  from e(3) have s: "unat (ch_n_subs ?ch) \<le> 32" "length (ch_subs ?ch) = 32"
    "ch_mode ?ch = GMK_CHAN_P2P \<Longrightarrow> unat (ch_n_subs ?ch) \<le> 1" by (auto simp: chan_ok_def)
  consider "\<not> ch_open ?ch" | "ch_open ?ch" "ch_mode ?ch = 1 \<and> 1 \<le> ch_n_subs ?ch"
    | "ch_open ?ch" "\<not> (ch_mode ?ch = 1 \<and> 1 \<le> ch_n_subs ?ch)" "32 \<le> ch_n_subs ?ch"
    | "ch_open ?ch" "\<not> (ch_mode ?ch = 1 \<and> 1 \<le> ch_n_subs ?ch)" "\<not> 32 \<le> ch_n_subs ?ch" by blast
  then show ?thesis
  proof cases
    case 1
    then show ?thesis using c nc e(4) by (intro that(2)) (simp_all add: gmk_chan_sub_op_def)
  next
    case 2
    then show ?thesis using c nc e(4) s(3)
      by (intro that(3)) (simp_all add: gmk_chan_sub_op_def word_le_nat_alt)
  next
    case 3
    then have "unat (ch_n_subs ?ch) = 32" using s(1) by (simp add: word_le_nat_alt)
    then show ?thesis using 3 c nc e(4) by (intro that(4)) (auto simp: gmk_chan_sub_op_def)
  next
    case 4
    let ?s = "\<lparr>cs_module_id = m, cs_worker_id = w, cs_active = True\<rparr>"
    let ?ch' = "?ch\<lparr>ch_subs := (ch_subs ?ch)[unat (ch_n_subs ?ch) := ?s], ch_n_subs := ch_n_subs ?ch + 1\<rparr>"
    have l: "unat (ch_n_subs ?ch) < 32" using 4(3) by (simp add: word_le_nat_alt)
    have n: "unat (ch_n_subs ?ch + 1) = Suc (unat (ch_n_subs ?ch))"
      using l by (subst unat_add_nowrap) simp_all
    have p: "ch_mode ?ch = 1 \<longrightarrow> ch_n_subs ?ch = 0" using 4(2) by (auto simp: word_le_nat_alt Suc_le_eq unat_gt_0)
    have c0: "unat c \<noteq> 0" using e(3) 4(1) unfolding chan_ok_def by blast
    then have ok: "chan_ok True (unat c) ?ch'"
      using e(3) n l w p unfolding chan_ok_def by (auto simp: nth_list_update less_Suc_eq)
    have t: "take (Suc (unat (ch_n_subs ?ch))) ((ch_subs ?ch)[unat (ch_n_subs ?ch) := ?s])
        = take (unat (ch_n_subs ?ch)) (ch_subs ?ch) @ [?s]"
      using l s(2) by (simp add: take_Suc_conv_app_nth)
    have op: "gmk_chan_sub_op cr c m w = Some (0, cr\<lparr>cr_channels := (cr_channels cr)[unat c := ?ch']\<rparr>)"
      using nc e(4) 4 l s(2) chan_upd_eq [OF inv c]
      by (simp add: gmk_chan_sub_op_def exec_simps)
    show ?thesis
      by (rule that(5) [OF c 4(1) p op chan_inv_update [OF inv c ok]]) (simp_all add: n t)
  qed
qed

lemma chan_close_cases:
  assumes inv: "chan_inv cr" and obs: "obs_inv st"
  obtains (invalid) "cr_n_channels cr \<le> c \<or> c \<le> 1" "gmk_chan_close cr c st = Some (-4, cr, st)"
    | (ok) cr' st' where "c < cr_n_channels cr" "1 < c" "gmk_chan_close cr c st = Some (0, cr', st')"
      "cr' = cr\<lparr>cr_channels := (cr_channels cr)[unat c := (chan_at cr c)\<lparr>ch_open := False\<rparr>]\<rparr>"
      "chan_inv cr'" "obs_step st st'"
proof (cases "c < cr_n_channels cr \<and> 1 < c")
  case False
  then show ?thesis by (intro that(1)) (auto simp: gmk_chan_close_def not_less)
next
  case True
  then have c: "c < cr_n_channels cr" "1 < c" "\<not> cr_n_channels cr \<le> c" "\<not> c \<le> 1" by auto
  let ?cr = "cr\<lparr>cr_channels := (cr_channels cr)[unat c := (chan_at cr c)\<lparr>ch_open := False\<rparr>]\<rparr>"
  obtain st' where st': "chan_trace ?cr st 0 GMK_EV_CHAN_CLOSE 0 c 0 = Some st'" "obs_step st st'"
    by (rule chan_trace_step [OF obs])
  have "chan_ok True (unat c) ((chan_at cr c)\<lparr>ch_open := False\<rparr>)"
    using chan_inv_entry(3) [OF inv c(1)] c(2) by (auto simp: chan_ok_def word_less_nat_alt)
  then show ?thesis using c st' chan_upd_eq [OF inv c(1)] chan_inv_update [OF inv c(1)]
    by (intro that(2) [of ?cr st']) (simp_all add: gmk_chan_close_def)
qed

section \<open>Memory\<close>

lemma length_c_strncpy: "n \<le> length dst \<Longrightarrow> c_name s \<Longrightarrow> length (c_strncpy dst s n) = length dst"
  by (simp add: c_strncpy_def Let_def c_strlen_upto_name)

lemma c_strncpy_end: "n < length dst \<Longrightarrow> c_name s \<Longrightarrow> c_strncpy dst s n ! n = dst ! n"
  by (simp add: c_strncpy_def Let_def c_strlen_upto_name nth_append)

lemma chan_reg_init_cases:
  assumes o: "hal_owns h0 P h"
  obtains (ok) cr h' where "gmk_chan_reg_init a t m h = (0, cr, h')" "chan_inv cr" "cr_n_channels cr = 2"
      "chan_queue cr 1 = []" "cr_alloc cr = a" "cr_trace cr = t" "cr_metrics cr = m"
      "hal_owns h0 (chan_blocks cr + P) h'"
    | (fail) cr h' where "gmk_chan_reg_init a t m h = (-1, cr, h')" "hal_owns h0 P h'"
proof -
  obtain e r h' where i: "gmk_ring_mpmc_init (ch_ring zero_chan) zero_task 1024 48 h = (e, r, h')"
    using prod_cases3 by blast
  show ?thesis
  proof (rule mpmc_init_cases [OF i o])
    assume "e = -1" "hal_owns h0 P h'"
    then show ?thesis using i by (intro that(2)) (simp_all add: gmk_chan_reg_init_def Let_def)
  next
    assume k: "e = 0" "mpmc_inv r" "mpmc_contents r = []" "mp_cap r = 1024"
      "hal_owns h0 (add_mset (mp_ptr r) P) h'"
    define cr where "cr = fst (snd (gmk_chan_reg_init a t m h))"
    have c: "gmk_chan_reg_init a t m h = (0, cr, h')" "cr_n_channels cr = 2"
      "cr_channels cr =
        zero_chan\<lparr>ch_name := c_strncpy (ch_name zero_chan) ''sys.direct'' 63, ch_id := 0, ch_open := False\<rparr>
        # zero_chan\<lparr>ch_id := 1, ch_mode := 2, ch_guarantee := 0, ch_open := True,
            ch_name := c_strncpy (ch_name zero_chan) ''sys.dropped'' 63, ch_emit_count := 0, ch_drop_count := 0,
            ch_ring := r, ch_ring_cap := 1024\<rparr>
        # replicate 254 zero_chan"
      "cr_alloc cr = a" "cr_trace cr = t" "cr_metrics cr = m"
      using i k(1) by (simp_all add: cr_def gmk_chan_reg_init_def Let_def)
    have z: "length (ch_name zero_chan) = 64" "length (ch_subs zero_chan) = 32" "ch_n_subs zero_chan = 0"
      "ch_ring_cap zero_chan = 0" "ch_name zero_chan ! 63 = CHR 0x00"
      by (simp_all add: zero_chan_def)
    have nm: "length (c_strncpy (ch_name zero_chan) ''sys.direct'' 63) = 64"
      "length (c_strncpy (ch_name zero_chan) ''sys.dropped'' 63) = 64"
      "c_strncpy (ch_name zero_chan) ''sys.direct'' 63 ! 63 = CHR 0x00"
      "c_strncpy (ch_name zero_chan) ''sys.dropped'' 63 ! 63 = CHR 0x00"
      using z by (simp_all add: length_c_strncpy c_strncpy_end c_name_def)
    have "chan_ok (i < 2) i (cr_channels cr ! i)" if "i < 256" for i
    proof -
      consider "i = 0" | "i = 1" | j where "i = Suc (Suc j)" by (metis One_nat_def not0_implies_Suc)
      then show ?thesis
        using that z nm k by cases (auto simp: chan_ok_def c(3))
    qed
    then have "chan_inv cr" using c by (simp add: chan_inv_def)
    moreover have u: "[1..<unat (2 :: u32)] = [1]" by (simp add: upt_rec)
    have "chan_blocks cr = {#mp_ptr r#}" unfolding chan_blocks_def c(2,3) u by simp
    ultimately show ?thesis using c k by (intro that(1) [of cr h']) (simp_all add: chan_queue_def)
  qed simp
qed

lemma chan_destroy_rings_frees:
  "distinct is \<Longrightarrow> \<forall>i \<in> set is. i < length chs \<and> (i \<noteq> 0 \<longleftrightarrow> ch_open (chs ! i) \<or> ch_ring_cap (chs ! i) > 0) \<Longrightarrow>
   hal_owns h0 (mset (map (\<lambda>i. mp_ptr (ch_ring (chs ! i))) (filter (\<lambda>i. i \<noteq> 0) is)) + P) h \<Longrightarrow>
   \<exists>chs' h'. chan_destroy_rings is chs h = Some (chs', h') \<and> hal_owns h0 P h'"
proof (induction "is" arbitrary: chs h)
  case (Cons i "is")
  show ?case
  proof (cases "i = 0")
    case True
    then show ?thesis using Cons by (simp add: exec_simps)
  next
    case False
    obtain r h1 where d: "gmk_ring_mpmc_destroy (ch_ring (chs ! i)) h = (r, h1)" by fastforce
    let ?chs = "chs[i := (chs ! i)\<lparr>ch_ring := r\<rparr>]"
    have keep: "?chs ! j = chs ! j" if "j \<in> set is" for j
      using that Cons.prems(1) by (cases "j = i") simp_all
    then have "map (\<lambda>i. mp_ptr (ch_ring (?chs ! i))) (filter (\<lambda>i. i \<noteq> 0) is) =
        map (\<lambda>i. mp_ptr (ch_ring (chs ! i))) (filter (\<lambda>i. i \<noteq> 0) is)" by (intro map_cong) auto
    moreover have "hal_owns h0 (mset (map (\<lambda>i. mp_ptr (ch_ring (chs ! i))) (filter (\<lambda>i. i \<noteq> 0) is)) + P) h1"
      using hal_owns_mpmc_destroy [OF _ d] Cons.prems(3) False by simp
    ultimately have "hal_owns h0 (mset (map (\<lambda>i. mp_ptr (ch_ring (?chs ! i))) (filter (\<lambda>i. i \<noteq> 0) is)) + P) h1"
      by (simp only:)
    moreover have "\<forall>j \<in> set is. j < length ?chs \<and> (j \<noteq> 0 \<longleftrightarrow> ch_open (?chs ! j) \<or> ch_ring_cap (?chs ! j) > 0)"
      using Cons.prems(2) keep by auto
    moreover have "distinct is" using Cons.prems(1) by simp
    moreover have "arr_get chs i = Some (chs ! i)" "ch_open (chs ! i) \<or> ch_ring_cap (chs ! i) > 0"
      using Cons.prems(2) False by (auto simp: exec_simps)
    ultimately show ?thesis using Cons.IH [of ?chs h1] d by simp
  qed
qed simp

lemma filter_upt_nonzero: "filter (\<lambda>i. i \<noteq> 0) [0..<n] = [1..<n]"
  by (cases n) (auto simp: upt_rec [of 0] intro!: filter_True)

lemma chan_reg_destroy_frees:
  assumes inv: "chan_inv cr" and o: "hal_owns h0 (chan_blocks cr + P) h"
  shows "\<exists>cr' h'. gmk_chan_reg_destroy cr h = Some (cr', h') \<and> hal_owns h0 P h'"
proof -
  let ?n = "unat (cr_n_channels cr)"
  have "i \<noteq> 0 \<longleftrightarrow> ch_open (cr_channels cr ! i) \<or> 0 < ch_ring_cap (cr_channels cr ! i)" if "i < ?n" for i
  proof -
    have "i < 256" using inv that by (simp add: chan_inv_def)
    then have "chan_ok (i < ?n) i (cr_channels cr ! i)" using inv by (simp add: chan_inv_def)
    then have "chan_ok True i (cr_channels cr ! i)" using that by simp
    then show ?thesis
      by (cases "i = 0") (auto simp: chan_ok_def mpmc_inv_def word_less_nat_alt word_le_nat_alt)
  qed
  then have "\<forall>i \<in> set [0..<?n]. i < length (cr_channels cr)
      \<and> (i \<noteq> 0 \<longleftrightarrow> ch_open (cr_channels cr ! i) \<or> ch_ring_cap (cr_channels cr ! i) > 0)"
    using inv by (simp add: chan_inv_def)
  from chan_destroy_rings_frees [OF distinct_upt this, of h0 P h] o show ?thesis
    unfolding filter_upt_nonzero chan_blocks_def by (auto simp: gmk_chan_reg_destroy_def)
qed

end
