(* ===== verification/Chan_Flow.thy ===== *)
theory Chan_Flow
  imports Chan_Laws
begin

text \<open>
  How messages travel through a channel: the dead-letter channel, the delivery of one message to
  the subscriber of a point-to-point channel or to all subscribers of a fan-out channel with the
  reference count of its payload, the drain loop, and emission.
\<close>

section \<open>States\<close>

definition ks_inv :: "kstore \<Rightarrow> bool" where
  "ks_inv st \<longleftrightarrow> sched_inv (ks_sched st) \<and> obs_inv st"

lemma ks_inv_obs_step: "ks_inv st \<Longrightarrow> obs_step st st' \<Longrightarrow> ks_inv st'"
  by (simp add: ks_inv_def obs_step_def)

lemma ks_invD: "ks_inv st \<Longrightarrow> obs_inv st" "ks_inv st \<Longrightarrow> sched_inv (ks_sched st)"
  by (simp_all add: ks_inv_def)

lemma ks_inv_update [simp]:
  "ks_inv (st\<lparr>ks_alloc := a\<rparr>) = ks_inv st"
  "ks_inv st \<Longrightarrow> sched_inv s \<Longrightarrow> ks_inv (st\<lparr>ks_sched := s\<rparr>)"
  by (simp_all add: ks_inv_def)

text \<open>What the delivery of messages of channel \<open>c\<close> keeps of the registry: everything but the counters
  and the buffer of the dead-letter channel, and of that one, too, when it is drained itself.\<close>

definition chan_kept :: "u32 \<Rightarrow> gmk_chan_reg \<Rightarrow> gmk_chan_reg \<Rightarrow> bool" where
  "chan_kept c cr cr' \<longleftrightarrow> chan_inv cr' \<and> cr_n_channels cr' = cr_n_channels cr
     \<and> cr_alloc cr' = cr_alloc cr \<and> cr_trace cr' = cr_trace cr \<and> cr_metrics cr' = cr_metrics cr
     \<and> chan_blocks cr' = chan_blocks cr
     \<and> (\<forall>i < unat (cr_n_channels cr).
          ch_mode (cr_channels cr' ! i) = ch_mode (cr_channels cr ! i)
          \<and> ch_guarantee (cr_channels cr' ! i) = ch_guarantee (cr_channels cr ! i)
          \<and> ch_subs (cr_channels cr' ! i) = ch_subs (cr_channels cr ! i)
          \<and> ch_n_subs (cr_channels cr' ! i) = ch_n_subs (cr_channels cr ! i)
          \<and> ch_open (cr_channels cr' ! i) = ch_open (cr_channels cr ! i)
          \<and> ch_ring_cap (cr_channels cr' ! i) = ch_ring_cap (cr_channels cr ! i)
          \<and> (i \<noteq> 1 \<or> c = 1 \<longrightarrow> ch_ring (cr_channels cr' ! i) = ch_ring (cr_channels cr ! i)))"

lemma chan_kept_refl: "chan_inv cr \<Longrightarrow> chan_kept c cr cr"
  by (simp add: chan_kept_def)

lemma chan_kept_trans: "chan_kept c cr cr' \<Longrightarrow> chan_kept c cr' cr'' \<Longrightarrow> chan_kept c cr cr''"
  unfolding chan_kept_def by metis

lemma chan_kept_entry:
  assumes "chan_kept c cr cr'" "c < cr_n_channels cr"
  shows "chan_inv cr'" "c < cr_n_channels cr'" "ch_mode (chan_at cr' c) = ch_mode (chan_at cr c)"
    "ch_guarantee (chan_at cr' c) = ch_guarantee (chan_at cr c)"
    "ch_subs (chan_at cr' c) = ch_subs (chan_at cr c)" "ch_n_subs (chan_at cr' c) = ch_n_subs (chan_at cr c)"
    "ch_ring (chan_at cr' c) = ch_ring (chan_at cr c)" "cr_alloc cr' = cr_alloc cr"
    "chan_queue cr' c = chan_queue cr c"
proof -
  have "unat c \<noteq> 1 \<or> c = 1" by (auto simp: word_unat_eq_iff)
  then show "chan_inv cr'" "c < cr_n_channels cr'" "ch_mode (chan_at cr' c) = ch_mode (chan_at cr c)"
    "ch_guarantee (chan_at cr' c) = ch_guarantee (chan_at cr c)"
    "ch_subs (chan_at cr' c) = ch_subs (chan_at cr c)" "ch_n_subs (chan_at cr' c) = ch_n_subs (chan_at cr c)"
    "ch_ring (chan_at cr' c) = ch_ring (chan_at cr c)" "cr_alloc cr' = cr_alloc cr"
    "chan_queue cr' c = chan_queue cr c"
    using assms by (auto simp: chan_kept_def word_less_nat_alt chan_queue_def)
qed

lemma chan_blocks_update:
  assumes "mp_ptr (ch_ring ch) = mp_ptr (ch_ring (chan_at cr c))"
  shows "chan_blocks (cr\<lparr>cr_channels := (cr_channels cr)[unat c := ch]\<rparr>) = chan_blocks cr"
  unfolding chan_blocks_def
proof (rule arg_cong [of _ _ mset], rule map_cong)
  fix i assume "i \<in> set [1..<unat (cr_n_channels cr)]"
  show "mp_ptr (ch_ring (cr_channels (cr\<lparr>cr_channels := (cr_channels cr)[unat c := ch]\<rparr>) ! i))
      = mp_ptr (ch_ring (cr_channels cr ! i))"
    using assms by (cases "i = unat c"; cases "unat c < length (cr_channels cr)") (simp_all add: list_update_beyond)
qed simp

lemma chan_kept_count:
  assumes "chan_inv cr" "c < cr_n_channels cr"
  obtains cr' where "chan_upd cr c (\<lambda>ch. ch\<lparr>ch_drop_count := ch_drop_count ch + 1\<rparr>) = Some cr'"
    "chan_kept c cr cr'" "ch_drop_count (chan_at cr' c) = ch_drop_count (chan_at cr c) + 1"
    "chan_queue cr' 1 = chan_queue cr 1" "mpmc_capacity (ch_ring (chan_at cr' 1)) = mpmc_capacity (ch_ring (chan_at cr 1))"
proof -
  let ?ch = "(chan_at cr c)\<lparr>ch_drop_count := ch_drop_count (chan_at cr c) + 1\<rparr>"
  let ?cr = "cr\<lparr>cr_channels := (cr_channels cr)[unat c := ?ch]\<rparr>"
  note e = chan_inv_entry [OF assms]
  have "chan_kept c cr ?cr"
    using chan_inv_update [OF assms, of ?ch] e chan_blocks_update [of ?ch cr c]
    by (auto simp: chan_kept_def nth_list_update)
  then show ?thesis using e(2) chan_upd_eq [OF assms]
    by (intro that [of ?cr]) (auto simp: chan_queue_def nth_list_update)
qed

section \<open>The dead-letter channel\<close>

lemma dead_entry:
  assumes "chan_inv cr"
  shows "1 < cr_n_channels cr" "ch_open (chan_at cr 1)" "mpmc_inv (ch_ring (chan_at cr 1))"
    "ch_mode (chan_at cr 1) = GMK_CHAN_FANOUT" "ch_guarantee (chan_at cr 1) = GMK_CHAN_LOSSY"
proof -
  show c: "1 < cr_n_channels cr" using assms by (simp add: chan_inv_def word_less_nat_alt)
  from chan_inv_entry(3) [OF assms c] show "ch_open (chan_at cr 1)" "mpmc_inv (ch_ring (chan_at cr 1))"
    "ch_mode (chan_at cr 1) = GMK_CHAN_FANOUT" "ch_guarantee (chan_at cr 1) = GMK_CHAN_LOSSY"
    by (simp_all add: chan_ok_def)
qed

definition dead_room :: "gmk_chan_reg \<Rightarrow> nat" where
  "dead_room cr = mpmc_capacity (ch_ring (chan_at cr 1)) - length (chan_queue cr 1)"

lemma route_dead:
  assumes inv: "chan_inv cr" and c: "c \<noteq> 1"
  obtains cr' where "route_to_dead_letter cr t = Some cr'" "chan_kept c cr cr'"
    "chan_queue cr' 1 = chan_queue cr 1 @ take (dead_room cr) [t]"
    "mpmc_capacity (ch_ring (chan_at cr' 1)) = mpmc_capacity (ch_ring (chan_at cr 1))"
    "unat c < 256 \<Longrightarrow> chan_at cr' c = chan_at cr c"
proof -
  note d = dead_entry [OF inv]
  note e = chan_inv_entry [OF inv d(1)]
  obtain x r where p: "gmk_ring_mpmc_push (ch_ring (chan_at cr 1)) t = Some (x, r)" "mpmc_inv r"
    "mpmc_contents r = mpmc_contents (ch_ring (chan_at cr 1)) @ take (dead_room cr) [t]"
    "mpmc_capacity r = mpmc_capacity (ch_ring (chan_at cr 1))"
  proof (rule mpmc.push_cases [OF d(3), of t])
    fix q' assume "gmk_ring_mpmc_push (ch_ring (chan_at cr 1)) t = Some (0, q')" "mpmc_inv q'"
      "mpmc_contents q' = mpmc_contents (ch_ring (chan_at cr 1)) @ [t]"
      "mpmc_capacity q' = mpmc_capacity (ch_ring (chan_at cr 1))"
      "length (mpmc_contents (ch_ring (chan_at cr 1))) < mpmc_capacity (ch_ring (chan_at cr 1))"
    moreover from this(5) obtain k where "dead_room cr = Suc k"
      by (metis Suc_diff_Suc chan_queue_def dead_room_def)
    ultimately show thesis by (intro that [of 0 q']) simp_all
  next
    assume "gmk_ring_mpmc_push (ch_ring (chan_at cr 1)) t = Some (- 1, ch_ring (chan_at cr 1))"
      "length (mpmc_contents (ch_ring (chan_at cr 1))) = mpmc_capacity (ch_ring (chan_at cr 1))"
    moreover from this(2) have "dead_room cr = 0" by (simp add: dead_room_def chan_queue_def)
    ultimately show thesis using d(3) by (intro that [of "-1" "ch_ring (chan_at cr 1)"]) simp_all
  qed
  let ?ch = "(chan_at cr 1)\<lparr>ch_ring := r\<rparr>"
  let ?cr = "cr\<lparr>cr_channels := (cr_channels cr)[unat (1 :: u32) := ?ch]\<rparr>"
  have ok: "chan_ok True (unat (1 :: u32)) ?ch" using e(3) p by (intro chan_ok_ring) simp_all
  have blk: "chan_blocks ?cr = chan_blocks cr"
    using mpmc_push_ptr [OF p(1)] by (intro chan_blocks_update) simp
  have "chan_kept c cr ?cr"
    using chan_inv_update [OF inv d(1) ok] blk c e(2) by (auto simp: chan_kept_def nth_list_update)
  moreover have "route_to_dead_letter cr t = Some ?cr"
    using e(4) d(2) p(1) chan_upd_eq [OF inv d(1)] by (simp add: route_to_dead_letter_def)
  moreover have "unat c \<noteq> 1" using c by (auto simp: word_unat_eq_iff)
  ultimately show ?thesis using e(2) p by (intro that [of ?cr]) (auto simp: chan_queue_def)
qed

section \<open>Delivery of one message\<close>

text \<open>Enqueueing stamps a sequence number; apart from that the task is unchanged.\<close>

definition unstamped :: "gmk_task \<Rightarrow> gmk_task" where
  "unstamped t = t\<lparr>tk_seq := 0\<rparr>"

lemma unstamped_stamp [simp]: "unstamped (t\<lparr>tk_seq := n\<rparr>) = unstamped t"
  by (simp add: unstamped_def)

text \<open>The subscriber gets the message, or it goes to the dead-letter channel and is counted.\<close>

lemma drain_p2p_cases:
  assumes inv: "chan_inv cr" and c: "c < cr_n_channels cr" "c \<noteq> 1" and ks: "ks_inv st"
    and snap: "snap = sub # snap'" "cs_active sub" "cs_worker_id sub < 2 ^ 31"
  obtains (taken) st' t' where "drain_p2p cr c snap t st = Some (cr, st')" "ks_inv st'"
      "unstamped t' = unstamped t" "sched_ready (ks_sched st') = add_mset t' (sched_ready (ks_sched st))"
      "ks_alloc st' = ks_alloc st" "obs_inv st'"
    | (dead) cr' st' t' where "drain_p2p cr c snap t st = Some (cr', st')" "ks_inv st'"
      "unstamped t' = unstamped t" "sched_ready (ks_sched st') = sched_ready (ks_sched st)"
      "ks_alloc st' = ks_alloc st" "chan_kept c cr cr'"
      "chan_queue cr' 1 = chan_queue cr 1 @ take (dead_room cr) [t']"
      "mpmc_capacity (ch_ring (chan_at cr' 1)) = mpmc_capacity (ch_ring (chan_at cr 1))"
      "ch_drop_count (chan_at cr' c) = ch_drop_count (chan_at cr c) + 1"
proof -
  have sub: "arr_get snap 0 = Some sub" using snap(1) by (simp add: exec_simps)
  have si: "sched_inv (ks_sched st)" and ob: "obs_inv st" using ks by (simp_all add: ks_inv_def)
  show ?thesis
  proof (rule enqueue_conserves [OF si snap(3), of t])
    fix e s' assume e: "gmk_enqueue (ks_sched st) t (cs_worker_id sub)
        = Some (e, s', t\<lparr>tk_seq := sd_next_seq (ks_sched st)\<rparr>)" "sched_inv s'" "e = 0 \<or> e = -1"
      "sched_ready s' = (if e = 0 then add_mset (t\<lparr>tk_seq := sd_next_seq (ks_sched st)\<rparr>)
         (sched_ready (ks_sched st)) else sched_ready (ks_sched st))"
    let ?t = "t\<lparr>tk_seq := sd_next_seq (ks_sched st)\<rparr>" and ?st = "st\<lparr>ks_sched := s'\<rparr>"
    show ?thesis
    proof (cases "e = 0")
      case True
      then show ?thesis using e sub snap(2) ks ob
        by (intro that(1) [of ?st ?t]) (simp_all add: drain_p2p_def)
    next
      case False
      obtain cr1 where r: "route_to_dead_letter cr ?t = Some cr1" "chan_kept c cr cr1"
        "chan_queue cr1 1 = chan_queue cr 1 @ take (dead_room cr) [?t]"
        "mpmc_capacity (ch_ring (chan_at cr1 1)) = mpmc_capacity (ch_ring (chan_at cr 1))"
        "chan_at cr1 c = chan_at cr c"
        using route_dead [OF inv c(2)] chan_inv_entry(1) [OF inv c(1)] by metis
      obtain cr2 where u: "chan_upd cr1 c (\<lambda>ch. ch\<lparr>ch_drop_count := ch_drop_count ch + 1\<rparr>) = Some cr2"
        "chan_kept c cr1 cr2" "ch_drop_count (chan_at cr2 c) = ch_drop_count (chan_at cr1 c) + 1"
        "chan_queue cr2 1 = chan_queue cr1 1"
        "mpmc_capacity (ch_ring (chan_at cr2 1)) = mpmc_capacity (ch_ring (chan_at cr1 1))"
        by (rule chan_kept_count [OF chan_kept_entry(1,2) [OF r(2) c(1)]])
      show ?thesis using e sub snap(2) ks False r u chan_kept_trans [OF r(2) u(2)]
        by (intro that(2) [of cr2 ?st ?t]) (simp_all add: drain_p2p_def)
    qed
  qed
qed

text \<open>The allocator while \<open>n\<close> references to the payload \<open>q\<close> are held; \<open>L\<close> are the other live
  objects and \<open>H\<close> their headers.\<close>

definition held :: "(addr \<rightharpoonup> gmk_payload_hdr) \<Rightarrow> (nat option \<times> addr) set \<Rightarrow> nat option \<Rightarrow> addr \<Rightarrow> u32 \<Rightarrow> nat \<Rightarrow> gmk_alloc_t \<Rightarrow> bool" where
  "held H L k q sz n a \<longleftrightarrow> alloc_inv a \<and> (k, q - 8) \<notin> L \<and> (\<forall>x. x \<noteq> q - 8 \<longrightarrow> al_hdrs a x = H x)
     \<and> (if n = 0 then alloc_live a = L
        else payload_at a k q n sz \<and> alloc_live a = insert (k, q - 8) L)"

lemma held_release:
  assumes "held H L k q sz (Suc n) a"
  obtains e a' where "gmk_payload_release a q = Some (e, a')" "held H L k q sz n a'"
proof -
  have a: "alloc_inv a" "payload_at a k q (Suc n) sz" "alloc_live a = insert (k, q - 8) L" "(k, q - 8) \<notin> L"
    using assms by (simp_all add: held_def)
  have h: "\<forall>x. x \<noteq> q - 8 \<longrightarrow> al_hdrs a x = H x" using assms by (simp add: held_def)
  show ?thesis
    by (rule payload_release_at [OF a(1,2)])
      (use a h that payload_release_hdrs [of a q] in \<open>auto simp: held_def\<close>)
qed

lemma held_retains:
  assumes "held H L k q sz m a" "0 < m" "m + n < 2 ^ 32"
  obtains a' where "payload_retains n a q = Some a'" "held H L k q sz (m + n) a'"
proof -
  have a: "alloc_inv a" "payload_at a k q m sz" using assms(1,2) by (simp_all add: held_def)
  from payload_retains_at [OF a(2) assms(3) a(1)] obtain a' where "payload_retains n a q = Some a'"
    "payload_at a' k q (m + n) sz" "alloc_live a' = alloc_live a" "alloc_inv a'" by blast
  then show ?thesis using assms(1,2) payload_retains_hdrs [of n a q a'] by (intro that [of a']) (simp_all add: held_def)
qed

definition rc_state ::
  "bool \<Rightarrow> (addr \<rightharpoonup> gmk_payload_hdr) \<Rightarrow> (nat option \<times> addr) set \<Rightarrow> nat option \<Rightarrow> addr \<Rightarrow> u32 \<Rightarrow> gmk_alloc_t \<Rightarrow> nat \<Rightarrow> gmk_alloc_t \<Rightarrow> bool" where
  "rc_state rc H L k q sz a0 n a \<longleftrightarrow> (if rc then held H L k q sz n a else a = a0)"

text \<open>The copy that a subscriber's queue refuses: counted and traced on a lossy channel, else routed to
  the dead-letter channel.\<close>

lemma fanout_refused:
  assumes inv: "chan_inv cr" and c: "c < cr_n_channels cr" and obs: "obs_inv st"
  obtains cr' st' where
    "(if ch_guarantee (chan_at cr c) = GMK_CHAN_LOSSY
      then do { cr1 \<leftarrow> chan_upd cr c (\<lambda>ch. ch\<lparr>ch_drop_count := ch_drop_count ch + 1\<rparr>);
                st2 \<leftarrow> chan_trace cr1 st tn GMK_EV_CHAN_DROP ty c i;
                st3 \<leftarrow> chan_metric cr1 st2 tn GMK_METRIC_CHAN_DROPS;
                Some (cr1, st3) }
      else do { cr1 \<leftarrow> route_to_dead_letter cr t; Some (cr1, st) }) = Some (cr', st')"
    "chan_kept c cr cr'" "obs_step st st'"
proof (cases "ch_guarantee (chan_at cr c) = GMK_CHAN_LOSSY")
  case True
  obtain cr1 where u: "chan_upd cr c (\<lambda>ch. ch\<lparr>ch_drop_count := ch_drop_count ch + 1\<rparr>) = Some cr1"
    "chan_kept c cr cr1" by (rule chan_kept_count [OF inv c])
  obtain st2 where s2: "chan_trace cr1 st tn GMK_EV_CHAN_DROP ty c i = Some st2" "obs_step st st2"
    by (rule chan_trace_step [OF obs])
  obtain st3 where s3: "chan_metric cr1 st2 tn GMK_METRIC_CHAN_DROPS = Some st3" "obs_step st2 st3"
    by (rule chan_metric_step [OF obs_step_inv [OF s2(2)]])
  show ?thesis using True u s2 s3 obs_step_trans [OF s2(2) s3(2)] by (intro that [of cr1 st3]) simp_all
next
  case False
  then have "c \<noteq> 1" using dead_entry(5) [OF inv] by auto
  then obtain cr1 where "route_to_dead_letter cr t = Some cr1" "chan_kept c cr cr1"
    by (rule route_dead [OF inv])
  then show ?thesis using False obs_step_refl [OF obs] by (intro that [of cr1 st]) simp_all
qed

lemma fanout_release:
  assumes "rc_state rc H L k q sz a0 (Suc n) (ks_alloc st)" "rc \<longrightarrow> cr_alloc cr" "ks_inv st"
  obtains st' where "(if rc then chan_release cr st q else Some st) = Some st'" "ks_inv st'"
    "ks_sched st' = ks_sched st" "rc_state rc H L k q sz a0 n (ks_alloc st')"
proof (cases rc)
  case True
  then have "held H L k q sz (Suc n) (ks_alloc st)" using assms(1) by (simp add: rc_state_def)
  then obtain e a' where "gmk_payload_release (ks_alloc st) q = Some (e, a')" "held H L k q sz n a'"
    by (rule held_release)
  then show ?thesis using True assms(2,3)
    by (intro that [of "st\<lparr>ks_alloc := a'\<rparr>"]) (simp_all add: chan_release_def rc_state_def)
next
  case False
  then show ?thesis using assms by (intro that [of st]) (simp_all add: rc_state_def)
qed

lemma fanout_copies_spec:
  assumes "chan_inv cr" "c < cr_n_channels cr" "ks_inv st" "\<forall>s \<in> set subs. cs_worker_id s < 2 ^ 31"
    "rc \<longrightarrow> cr_alloc cr" "rc_state rc H L k (tk_payload_ptr t) sz a0 (p + length (filter cs_active subs)) (ks_alloc st)"
  shows "\<exists>cr' st' copies. fanout_copies cr c t rc i subs st = Some (cr', st') \<and> chan_kept c cr cr' \<and> ks_inv st'
    \<and> sched_ready (ks_sched st') = sched_ready (ks_sched st) + mset copies
    \<and> (\<forall>t' \<in> set copies. unstamped t' = unstamped t) \<and> length copies \<le> length (filter cs_active subs)
    \<and> rc_state rc H L k (tk_payload_ptr t) sz a0 (p + length copies) (ks_alloc st')"
  using assms
proof (induction subs arbitrary: cr st i p)
  case Nil
  then show ?case by (intro exI [of _ cr] exI [of _ st] exI [of _ "[]"]) (simp add: chan_kept_refl)
next
  case (Cons s subs)
  note inv = Cons.prems(1) and c = Cons.prems(2) and ks = Cons.prems(3)
  have w: "cs_worker_id s < 2 ^ 31" "\<forall>s \<in> set subs. cs_worker_id s < 2 ^ 31" using Cons.prems(4) by auto
  have si: "sched_inv (ks_sched st)" and ob: "obs_inv st" using ks by (simp_all add: ks_inv_def)
  show ?case
  proof (cases "cs_active s")
    case False
    then show ?thesis using Cons.IH [OF inv c ks w(2) Cons.prems(5), of p "Suc i"] Cons.prems(6) by simp
  next
    case True
    let ?t = "t\<lparr>tk_seq := sd_next_seq (ks_sched st)\<rparr>"
    obtain e s' where e: "gmk_enqueue (ks_sched st) t (cs_worker_id s) = Some (e, s', ?t)" "sched_inv s'"
      "e = 0 \<or> e = -1" "sched_ready s' = (if e = 0 then add_mset ?t (sched_ready (ks_sched st))
         else sched_ready (ks_sched st))"
      by (rule enqueue_conserves [OF si w(1), of t])
    let ?st = "st\<lparr>ks_sched := s'\<rparr>"
    have ks1: "ks_inv ?st" and ob1: "obs_inv ?st" using ks e(2) ob by simp_all
    show ?thesis
    proof (cases "e = 0")
      case ok: True
      have "rc_state rc H L k (tk_payload_ptr t) sz a0 (Suc p + length (filter cs_active subs)) (ks_alloc ?st)"
        using Cons.prems(6) True by simp
      from Cons.IH [OF inv c ks1 w(2) Cons.prems(5) this, of "Suc i"] obtain cr' st' copies where
        r: "fanout_copies cr c t rc (Suc i) subs ?st = Some (cr', st')" "chan_kept c cr cr'" "ks_inv st'"
        "sched_ready (ks_sched st') = sched_ready s' + mset copies" "\<forall>t' \<in> set copies. unstamped t' = unstamped t"
        "length copies \<le> length (filter cs_active subs)"
        "rc_state rc H L k (tk_payload_ptr t) sz a0 (Suc p + length copies) (ks_alloc st')" by auto
      then show ?thesis using True ok e
        by (intro exI [of _ cr'] exI [of _ st'] exI [of _ "?t # copies"]) simp
    next
      case full: False
      obtain cr2 st2 where f: "(if ch_guarantee (chan_at cr c) = GMK_CHAN_LOSSY
          then do { cr1 \<leftarrow> chan_upd cr c (\<lambda>ch. ch\<lparr>ch_drop_count := ch_drop_count ch + 1\<rparr>);
                    st2 \<leftarrow> chan_trace cr1 ?st (tk_tenant t) GMK_EV_CHAN_DROP (ucast (tk_type t)) c (of_nat i);
                    st3 \<leftarrow> chan_metric cr1 st2 (tk_tenant t) GMK_METRIC_CHAN_DROPS;
                    Some (cr1, st3) }
          else do { cr1 \<leftarrow> route_to_dead_letter cr ?t; Some (cr1, ?st) }) = Some (cr2, st2)"
        "chan_kept c cr cr2" "obs_step ?st st2"
        by (rule fanout_refused [OF inv c ob1])
      note kept = chan_kept_entry [OF f(2) c]
      have st2: "ks_inv st2" "ks_alloc st2 = ks_alloc st" "ks_sched st2 = s'"
        using ks_inv_obs_step [OF ks1 f(3)] f(3) by (simp_all add: obs_step_def)
      have "rc_state rc H L k (tk_payload_ptr t) sz a0 (Suc (p + length (filter cs_active subs))) (ks_alloc st2)"
        using Cons.prems(6) True st2(2) by simp
      moreover have al: "rc \<longrightarrow> cr_alloc cr2" using Cons.prems(5) kept(8) by simp
      ultimately obtain st4 where g: "(if rc then chan_release cr2 st2 (tk_payload_ptr t) else Some st2) = Some st4"
        "ks_inv st4" "ks_sched st4 = ks_sched st2"
        "rc_state rc H L k (tk_payload_ptr t) sz a0 (p + length (filter cs_active subs)) (ks_alloc st4)"
        using fanout_release st2(1) by blast
      from Cons.IH [OF kept(1,2) g(2) w(2) al g(4), of "Suc i"] obtain cr' st' copies where
        r: "fanout_copies cr2 c t rc (Suc i) subs st4 = Some (cr', st')" "chan_kept c cr2 cr'" "ks_inv st'"
        "sched_ready (ks_sched st') = sched_ready (ks_sched st4) + mset copies"
        "\<forall>t' \<in> set copies. unstamped t' = unstamped t" "length copies \<le> length (filter cs_active subs)"
        "rc_state rc H L k (tk_payload_ptr t) sz a0 (p + length copies) (ks_alloc st')" by auto
      have "fanout_copies cr c t rc i (s # subs) st = Some (cr', st')"
        using True full e(1) chan_inv_entry(4) [OF inv c] f(1) g(1) r(1) by (cases rc) (simp_all add: Let_def)
      then show ?thesis using r e(4) full chan_kept_trans [OF f(2) r(2)] g(3) st2(3) True
        by (intro exI [of _ cr'] exI [of _ st'] exI [of _ copies]) simp
    qed
  qed
qed

text \<open>The subscribers of a channel in use, as the drain loop sees them.\<close>

definition good_snap :: "gmk_chan_sub list \<Rightarrow> bool" where
  "good_snap snap \<longleftrightarrow> snap \<noteq> [] \<and> length snap \<le> 32 \<and> (\<forall>s \<in> set snap. cs_active s \<and> cs_worker_id s < 2 ^ 31)"

definition has_rc :: "gmk_task \<Rightarrow> bool" where
  "has_rc t \<longleftrightarrow> tk_flags t AND GMK_TF_PAYLOAD_RC \<noteq> 0 \<and> tk_payload_ptr t \<noteq> 0"

text \<open>A message of a fan-out channel: as many copies are queued as references to its payload are held
  afterwards.\<close>

lemma drain_fanout_spec:
  assumes inv: "chan_inv cr" and c: "c < cr_n_channels cr" and ks: "ks_inv st" and snap: "good_snap snap"
    and al: "has_rc t \<longrightarrow> cr_alloc cr"
    and rc: "rc_state (has_rc t) H L k (tk_payload_ptr t) sz (ks_alloc st) 1 (ks_alloc st)"
  shows "\<exists>cr' st' copies. drain_fanout cr c snap t st = Some (cr', st') \<and> chan_kept c cr cr' \<and> ks_inv st'
    \<and> sched_ready (ks_sched st') = sched_ready (ks_sched st) + mset copies
    \<and> (\<forall>t' \<in> set copies. unstamped t' = unstamped t) \<and> length copies \<le> length snap
    \<and> rc_state (has_rc t) H L k (tk_payload_ptr t) sz (ks_alloc st) (length copies) (ks_alloc st')"
proof -
  let ?n = "length (filter cs_active snap)"
  have n: "?n = length snap" "0 < ?n" "?n \<le> 32" using snap by (auto simp: good_snap_def)
  have w: "\<forall>s \<in> set snap. cs_worker_id s < 2 ^ 31" using snap by (simp add: good_snap_def)
  obtain a where a: "(if has_rc t \<and> ?n > 1 then payload_retains (?n - 1) (ks_alloc st) (tk_payload_ptr t)
      else Some (ks_alloc st)) = Some a"
    "rc_state (has_rc t) H L k (tk_payload_ptr t) sz (ks_alloc st) (0 + ?n) a"
  proof (cases "has_rc t \<and> ?n > 1")
    case True
    then have "held H L k (tk_payload_ptr t) sz 1 (ks_alloc st)" using rc by (simp add: rc_state_def)
    then obtain a where "payload_retains (?n - 1) (ks_alloc st) (tk_payload_ptr t) = Some a"
      "held H L k (tk_payload_ptr t) sz (1 + (?n - 1)) a"
      by (rule held_retains [where n = "?n - 1"]) (use n in simp_all)
    then show ?thesis using True n(2) by (intro that [of a]) (simp_all add: rc_state_def)
  next
    case False
    then have "has_rc t \<longrightarrow> ?n = 1" using n(2) by linarith
    then show ?thesis using rc False by (intro that [of "ks_alloc st"]) (auto simp: rc_state_def)
  qed
  have ks': "ks_inv (st\<lparr>ks_alloc := a\<rparr>)" using ks by simp
  have "rc_state (has_rc t) H L k (tk_payload_ptr t) sz (ks_alloc st) (0 + ?n) (ks_alloc (st\<lparr>ks_alloc := a\<rparr>))"
    using a(2) by simp
  from fanout_copies_spec [OF inv c ks' w al this, of 0] obtain cr' st' copies where
    "fanout_copies cr c t (has_rc t) 0 snap (st\<lparr>ks_alloc := a\<rparr>) = Some (cr', st')" "chan_kept c cr cr'" "ks_inv st'"
    "sched_ready (ks_sched st') = sched_ready (ks_sched st) + mset copies"
    "\<forall>t' \<in> set copies. unstamped t' = unstamped t" "length copies \<le> length (filter cs_active snap)"
    "rc_state (has_rc t) H L k (tk_payload_ptr t) sz (ks_alloc st) (length copies) (ks_alloc st')" by auto
  moreover from this(1) have "drain_fanout cr c snap t st = Some (cr', st')"
    using a(1) unfolding drain_fanout_def has_rc_def [symmetric] Let_def by simp
  ultimately show ?thesis using n(1) by auto
qed

section \<open>The drain loop\<close>

lemma chan_snap:
  assumes "chan_inv cr" "c < cr_n_channels cr" "ch_n_subs (chan_at cr c) \<noteq> 0"
  shows "good_snap (take (unat (ch_n_subs (chan_at cr c))) (ch_subs (chan_at cr c)))"
proof -
  let ?ch = "chan_at cr c"
  have ok: "length (ch_subs ?ch) = 32" "unat (ch_n_subs ?ch) \<le> 32"
    "\<forall>j < unat (ch_n_subs ?ch). cs_active (ch_subs ?ch ! j) \<and> cs_worker_id (ch_subs ?ch ! j) < 2 ^ 31"
    using chan_inv_entry(3) [OF assms(1,2)] by (simp_all add: chan_ok_def)
  moreover have "0 < unat (ch_n_subs ?ch)" using assms(3) by (simp add: unat_gt_0)
  ultimately show ?thesis by (auto simp: good_snap_def in_set_conv_nth)
qed

text \<open>Taking the oldest message out of the buffer.\<close>

lemma chan_pop_cases:
  assumes inv: "chan_inv cr" and c: "c < cr_n_channels cr" "c \<noteq> 0"
  obtains (some) t r cr' where "gmk_ring_mpmc_pop (ch_ring (chan_at cr c)) = Some (Some t, r)"
      "chan_upd cr c (\<lambda>ch. ch\<lparr>ch_ring := r\<rparr>) = Some cr'" "chan_inv cr'" "chan_queue cr c = t # chan_queue cr' c"
      "cr' = cr\<lparr>cr_channels := (cr_channels cr)[unat c := (chan_at cr c)\<lparr>ch_ring := r\<rparr>]\<rparr>"
      "chan_blocks cr' = chan_blocks cr" "mpmc_capacity r = mpmc_capacity (ch_ring (chan_at cr c))"
    | (none) "gmk_ring_mpmc_pop (ch_ring (chan_at cr c)) = Some (None, ch_ring (chan_at cr c))"
      "chan_upd cr c (\<lambda>ch. ch\<lparr>ch_ring := ch_ring (chan_at cr c)\<rparr>) = Some cr" "chan_queue cr c = []"
proof -
  note e = chan_inv_entry [OF inv c(1)]
  have c0: "unat c \<noteq> 0" using c(2) by (simp add: unat_eq_zero)
  then have m: "mpmc_inv (ch_ring (chan_at cr c))" using e(3) by (simp add: chan_ok_def)
  show ?thesis
  proof (rule mpmc.pop_cases [OF m])
    fix t r assume p: "gmk_ring_mpmc_pop (ch_ring (chan_at cr c)) = Some (Some t, r)" "mpmc_inv r"
      "mpmc_contents (ch_ring (chan_at cr c)) = t # mpmc_contents r"
      "mpmc_capacity r = mpmc_capacity (ch_ring (chan_at cr c))"
    have ok: "chan_ok True (unat c) ((chan_at cr c)\<lparr>ch_ring := r\<rparr>)"
      using e(3) p c0 by (intro chan_ok_ring) simp_all
    let ?cr = "cr\<lparr>cr_channels := (cr_channels cr)[unat c := (chan_at cr c)\<lparr>ch_ring := r\<rparr>]\<rparr>"
    have "chan_blocks ?cr = chan_blocks cr" using mpmc_pop_ptr [OF p(1)] by (intro chan_blocks_update) simp
    then show ?thesis using p chan_upd_eq [OF inv c(1)] chan_inv_update [OF inv c(1) ok] e(2)
      by (intro that(1) [of t r ?cr]) (simp_all add: chan_queue_def)
  next
    assume p: "gmk_ring_mpmc_pop (ch_ring (chan_at cr c)) = Some (None, ch_ring (chan_at cr c))"
      "mpmc_contents (ch_ring (chan_at cr c)) = []"
    have "cr\<lparr>cr_channels := (cr_channels cr)[unat c := chan_at cr c]\<rparr> = cr" by simp
    then show ?thesis using p chan_upd_eq [OF inv c(1)] by (intro that(2)) (simp_all add: chan_queue_def)
  qed
qed

text \<open>The loop, for an invariant \<open>I ts cr st\<close> of the messages \<open>ts\<close> that are still buffered, that the
  removal of a message from the buffer does not affect and that the delivery of a message keeps.\<close>

definition chan_deliver ::
  "u32 \<Rightarrow> gmk_chan_sub list \<Rightarrow> gmk_task \<Rightarrow> gmk_chan_reg \<Rightarrow> kstore \<Rightarrow> (gmk_chan_reg \<times> kstore) exec" where
  "chan_deliver c snap t cr st =
     (if ch_mode (chan_at cr c) = GMK_CHAN_P2P then drain_p2p cr c snap t st else drain_fanout cr c snap t st)"

locale chan_drain =
  fixes c :: u32 and snap :: "gmk_chan_sub list" and I :: "gmk_task list \<Rightarrow> gmk_chan_reg \<Rightarrow> kstore \<Rightarrow> bool"
  assumes c: "I ts cr st \<Longrightarrow> c \<noteq> 0"
    and pop: "I ts cr st \<Longrightarrow> chan_inv cr \<Longrightarrow> c < cr_n_channels cr \<Longrightarrow>
      I ts (cr\<lparr>cr_channels := (cr_channels cr)[unat c := (chan_at cr c)\<lparr>ch_ring := r\<rparr>]\<rparr>) st"
    and deliver: "I (t # ts) cr st \<Longrightarrow> chan_inv cr \<Longrightarrow> c < cr_n_channels cr \<Longrightarrow>
      \<exists>cr' st'. chan_deliver c snap t cr st = Some (cr', st') \<and> chan_kept c cr cr' \<and> I ts cr' st'"
begin

lemma drain_loop_ok:
  "chan_inv cr \<Longrightarrow> c < cr_n_channels cr \<Longrightarrow> I (chan_queue cr c) cr st \<Longrightarrow> drained \<le> limit \<Longrightarrow>
   m = min (unat limit - unat drained) (length (chan_queue cr c)) \<Longrightarrow>
   \<exists>cr' st'. drain_loop c snap limit drained cr st = Some (drained + of_nat m, cr', st') \<and> chan_inv cr'
     \<and> cr_n_channels cr' = cr_n_channels cr \<and> chan_blocks cr' = chan_blocks cr
     \<and> chan_queue cr' c = drop m (chan_queue cr c) \<and> I (chan_queue cr' c) cr' st'"
proof (induction m arbitrary: cr st drained)
  case 0
  note e = chan_inv_entry(4) [OF 0(1,2)]
  show ?case
  proof (cases "drained < limit")
    case False
    then show ?thesis using 0 by (subst drain_loop.simps) simp
  next
    case True
    then have q: "chan_queue cr c = []" using 0(5) by (auto simp: word_less_nat_alt min_def split: if_splits)
    have "gmk_ring_mpmc_pop (ch_ring (chan_at cr c)) = Some (None, ch_ring (chan_at cr c))
        \<and> chan_upd cr c (\<lambda>ch. ch\<lparr>ch_ring := ch_ring (chan_at cr c)\<rparr>) = Some cr"
      by (rule chan_pop_cases [OF 0(1,2) c [OF 0(3)]]) (use q in simp_all)
    then show ?thesis using True e 0 q by (subst drain_loop.simps) simp
  qed
next
  case (Suc m)
  have lt: "drained < limit" using Suc.prems(5) by (auto simp: word_less_nat_alt)
  have "unat limit \<le> 4294967295" using unat32_lt [of limit] by linarith
  then have d1: "unat (drained + 1) = Suc (unat drained)"
    using lt by (subst unat_add_nowrap) (simp_all add: word_less_nat_alt)
  show ?case
  proof (rule chan_pop_cases [OF Suc.prems(1,2) c [OF Suc.prems(3)]])
    fix t r cr1 assume p: "gmk_ring_mpmc_pop (ch_ring (chan_at cr c)) = Some (Some t, r)"
      "chan_upd cr c (\<lambda>ch. ch\<lparr>ch_ring := r\<rparr>) = Some cr1" "chan_inv cr1" "chan_queue cr c = t # chan_queue cr1 c"
      "cr1 = cr\<lparr>cr_channels := (cr_channels cr)[unat c := (chan_at cr c)\<lparr>ch_ring := r\<rparr>]\<rparr>"
      "chan_blocks cr1 = chan_blocks cr"
    have c1: "c < cr_n_channels cr1" "cr_n_channels cr1 = cr_n_channels cr" using p(5) Suc.prems(2) by simp_all
    have "I (t # chan_queue cr1 c) cr1 st"
      using pop [OF Suc.prems(3,1,2), of r] p(4,5) by simp
    then obtain cr2 st2 where d: "chan_deliver c snap t cr1 st = Some (cr2, st2)" "chan_kept c cr1 cr2"
      "I (chan_queue cr1 c) cr2 st2"
      using deliver p(3) c1(1) by blast
    note k = chan_kept_entry [OF d(2) c1(1)]
    have le: "drained + 1 \<le> limit" using lt d1 by (simp add: word_le_nat_alt word_less_nat_alt)
    have mode: "ch_mode (chan_at cr1 c) = ch_mode (chan_at cr c)"
      using p(5) chan_inv_entry(2) [OF Suc.prems(1,2)] by simp
    have m: "m = min (unat limit - unat (drained + 1)) (length (chan_queue cr2 c))"
      using Suc.prems(5) p(4) k(9) d1 by simp
    have "I (chan_queue cr2 c) cr2 st2" using d(3) k(9) by simp
    from Suc.IH [OF k(1,2) this le m] obtain cr' st' where
      "drain_loop c snap limit (drained + 1) cr2 st2 = Some (drained + 1 + of_nat m, cr', st')" "chan_inv cr'"
      "cr_n_channels cr' = cr_n_channels cr2" "chan_blocks cr' = chan_blocks cr2"
      "chan_queue cr' c = drop m (chan_queue cr2 c)" "I (chan_queue cr' c) cr' st'" by blast
    moreover have "drain_loop c snap limit drained cr st = drain_loop c snap limit (drained + 1) cr2 st2"
      using lt chan_inv_entry(4) [OF Suc.prems(1,2)] p(1,2) d(1) mode
      by (subst drain_loop.simps) (simp add: chan_deliver_def split: if_splits)
    ultimately show ?thesis using k(9) p(4,6) c1(2) d(2) by (simp add: chan_kept_def algebra_simps)
  next
    assume "chan_queue cr c = []"
    then show ?thesis using Suc.prems(5) by simp
  qed
qed

end

section \<open>Draining a point-to-point channel\<close>

text \<open>The messages delivered so far, stamped, each with whether the subscriber's queue took it.\<close>

definition p2p_state ::
  "u32 \<Rightarrow> gmk_chan_sub list \<Rightarrow> gmk_chan_reg \<Rightarrow> kstore \<Rightarrow> gmk_task list \<Rightarrow> gmk_chan_reg \<Rightarrow> kstore \<Rightarrow> bool" where
  "p2p_state c snap cr0 st0 ts cr st \<longleftrightarrow> c \<noteq> 0 \<and> c \<noteq> 1 \<and> good_snap snap
     \<and> ch_mode (chan_at cr c) = GMK_CHAN_P2P \<and> ks_inv st \<and> ks_alloc st = ks_alloc st0
     \<and> mpmc_capacity (ch_ring (chan_at cr 1)) = mpmc_capacity (ch_ring (chan_at cr0 1))
     \<and> (\<exists>fs. map unstamped (chan_queue cr0 c) = map (unstamped \<circ> fst) fs @ map unstamped ts
         \<and> sched_ready (ks_sched st) = sched_ready (ks_sched st0) + mset (map fst (filter snd fs))
         \<and> chan_queue cr 1 = chan_queue cr0 1 @ take (dead_room cr0) (map fst (filter (Not \<circ> snd) fs))
         \<and> ch_drop_count (chan_at cr c) = ch_drop_count (chan_at cr0 c) + of_nat (length (filter (Not \<circ> snd) fs)))"

lemma p2p_deliver:
  assumes I: "p2p_state c snap cr0 st0 (t # ts) cr st" and inv: "chan_inv cr" and c: "c < cr_n_channels cr"
  shows "\<exists>cr' st'. chan_deliver c snap t cr st = Some (cr', st') \<and> chan_kept c cr cr'
    \<and> p2p_state c snap cr0 st0 ts cr' st'"
proof -
  from I obtain fs where s: "c \<noteq> 0" "c \<noteq> 1" "good_snap snap" "ch_mode (chan_at cr c) = GMK_CHAN_P2P" "ks_inv st"
    "ks_alloc st = ks_alloc st0"
    "mpmc_capacity (ch_ring (chan_at cr 1)) = mpmc_capacity (ch_ring (chan_at cr0 1))"
    and f: "map unstamped (chan_queue cr0 c) = map (unstamped \<circ> fst) fs @ map unstamped (t # ts)"
      "sched_ready (ks_sched st) = sched_ready (ks_sched st0) + mset (map fst (filter snd fs))"
      "chan_queue cr 1 = chan_queue cr0 1 @ take (dead_room cr0) (map fst (filter (Not \<circ> snd) fs))"
      "ch_drop_count (chan_at cr c) = ch_drop_count (chan_at cr0 c) + of_nat (length (filter (Not \<circ> snd) fs))"
    unfolding p2p_state_def by blast
  from s(3) obtain sub snap' where sn: "snap = sub # snap'" "cs_active sub" "cs_worker_id sub < 2 ^ 31"
    by (cases snap) (auto simp: good_snap_def)
  have dv: "chan_deliver c snap t cr st = drain_p2p cr c snap t st" using s(4) by (simp add: chan_deliver_def)
  show ?thesis
  proof (rule drain_p2p_cases [OF inv c s(2,5) sn, of t])
    fix st' t' assume d: "drain_p2p cr c snap t st = Some (cr, st')" "ks_inv st'" "unstamped t' = unstamped t"
      "sched_ready (ks_sched st') = add_mset t' (sched_ready (ks_sched st))" "ks_alloc st' = ks_alloc st"
    have "p2p_state c snap cr0 st0 ts cr st'"
      unfolding p2p_state_def using s d f by (intro conjI exI [of _ "fs @ [(t', True)]"]) simp_all
    then show ?thesis using dv d(1) chan_kept_refl [OF inv] by auto
  next
    fix cr' st' t' assume d: "drain_p2p cr c snap t st = Some (cr', st')" "ks_inv st'" "unstamped t' = unstamped t"
      "sched_ready (ks_sched st') = sched_ready (ks_sched st)" "ks_alloc st' = ks_alloc st" "chan_kept c cr cr'"
      "chan_queue cr' 1 = chan_queue cr 1 @ take (dead_room cr) [t']"
      "mpmc_capacity (ch_ring (chan_at cr' 1)) = mpmc_capacity (ch_ring (chan_at cr 1))"
      "ch_drop_count (chan_at cr' c) = ch_drop_count (chan_at cr c) + 1"
    have room: "dead_room cr = dead_room cr0 - length (filter (Not \<circ> snd) fs)"
      using f(3) s(7) by (simp add: dead_room_def)
    have q: "chan_queue cr' 1 = chan_queue cr0 1 @
        take (dead_room cr0) (map fst (filter (Not \<circ> snd) (fs @ [(t', False)])))"
      using d(7) f(3) room by (simp add: take_map)
    have mode: "ch_mode (chan_at cr' c) = GMK_CHAN_P2P" using chan_kept_entry(3) [OF d(6) c] s(4) by simp
    have "p2p_state c snap cr0 st0 ts cr' st'"
      unfolding p2p_state_def using s d f q mode by (intro conjI exI [of _ "fs @ [(t', False)]"]) simp_all
    then show ?thesis using dv d(1,6) by auto
  qed
qed

interpretation p2p: chan_drain c snap "p2p_state c snap cr0 st0" for c snap cr0 st0
proof unfold_locales
  fix ts cr st r
  assume I: "p2p_state c snap cr0 st0 ts cr st" and inv: "chan_inv cr" and c: "c < cr_n_channels cr"
  have "unat c \<noteq> 1" using I by (auto simp: p2p_state_def word_unat_eq_iff)
  then show "p2p_state c snap cr0 st0 ts
      (cr\<lparr>cr_channels := (cr_channels cr)[unat c := (chan_at cr c)\<lparr>ch_ring := r\<rparr>]\<rparr>) st"
    using I chan_inv_entry(2) [OF inv c] by (simp add: p2p_state_def chan_queue_def)
next
  fix ts cr st assume "p2p_state c snap cr0 st0 ts cr st"
  then show "c \<noteq> 0" by (simp add: p2p_state_def)
qed (rule p2p_deliver)

section \<open>Draining a fan-out channel\<close>

text \<open>The payload at \<open>q\<close>, of class \<open>K q\<close> and size \<open>Z q\<close>, has exactly \<open>n\<close> references; with none it is not
  live.  \<open>refs cs q\<close> counts the queued copies \<open>cs\<close> that refer to \<open>q\<close>.\<close>

definition ref_is ::
  "gmk_alloc_t \<Rightarrow> (addr \<Rightarrow> nat option) \<Rightarrow> (addr \<Rightarrow> u32) \<Rightarrow> addr \<Rightarrow> nat \<Rightarrow> bool" where
  "ref_is a K Z q n \<longleftrightarrow> (if n = 0 then (K q, q - 8) \<notin> alloc_live a else payload_at a (K q) q n (Z q))"

definition refs :: "gmk_task list \<Rightarrow> addr \<Rightarrow> nat" where
  "refs cs q = length (filter (\<lambda>x. has_rc x \<and> tk_payload_ptr x = q) cs)"

lemma unstamped_eqD: "unstamped t = unstamped t' \<Longrightarrow> has_rc t = has_rc t' \<and> tk_payload_ptr t = tk_payload_ptr t'"
proof -
  assume e: "unstamped t = unstamped t'"
  have "tk_flags (unstamped t) = tk_flags t" "tk_payload_ptr (unstamped t) = tk_payload_ptr t"
    "tk_flags (unstamped t') = tk_flags t'" "tk_payload_ptr (unstamped t') = tk_payload_ptr t'"
    by (simp_all add: unstamped_def)
  then show ?thesis using e by (simp add: has_rc_def)
qed

lemma refs_append [simp]: "refs (cs @ ds) q = refs cs q + refs ds q"
  by (simp add: refs_def)

lemma refs_copies:
  assumes "\<forall>x \<in> set cs. unstamped x = unstamped t"
  shows "refs cs q = (if has_rc t \<and> tk_payload_ptr t = q then length cs else 0)"
  using assms by (induction cs) (auto simp: refs_def dest: unstamped_eqD)

lemma refs_other: "\<forall>x \<in> set cs. has_rc x \<longrightarrow> tk_payload_ptr x \<noteq> q \<Longrightarrow> refs cs q = 0"
  by (auto simp: refs_def filter_empty_conv)

lemma held_ref_is:
  assumes h: "held (al_hdrs a) (alloc_live a - {(K q, q - 8)}) (K q) q (Z q) m a'"
  shows "ref_is a' K Z q m" "q' \<noteq> q \<Longrightarrow> ref_is a K Z q' n \<Longrightarrow> ref_is a' K Z q' n"
proof -
  show "ref_is a' K Z q m" using h by (simp add: held_def ref_is_def)
  assume ne: "q' \<noteq> q" and r: "ref_is a K Z q' n"
  have "q' - 8 \<noteq> q - 8" using ne by simp
  then have "al_hdrs a' (q' - 8) = al_hdrs a (q' - 8)"
    and "(x, q' - 8) \<in> alloc_live a' \<longleftrightarrow> (x, q' - 8) \<in> alloc_live a" for x
    using h by (auto simp: held_def split: if_splits)
  then show "ref_is a' K Z q' n" using r by (cases "n = 0") (simp_all add: ref_is_def payload_at_def)
qed

text \<open>Of the messages \<open>ds\<close> delivered so far the copies \<open>cs\<close> have been queued.\<close>

definition fan_state ::
  "u32 \<Rightarrow> gmk_chan_sub list \<Rightarrow> (addr \<Rightarrow> nat option) \<Rightarrow> (addr \<Rightarrow> u32) \<Rightarrow> gmk_task list \<Rightarrow> kstore
    \<Rightarrow> gmk_task list \<Rightarrow> gmk_chan_reg \<Rightarrow> kstore \<Rightarrow> bool" where
  "fan_state c snap K Z q0 st0 ts cr st \<longleftrightarrow> c \<noteq> 0 \<and> good_snap snap
     \<and> ch_mode (chan_at cr c) \<noteq> GMK_CHAN_P2P \<and> ks_inv st \<and> cr_alloc cr \<and> alloc_inv (ks_alloc st)
     \<and> distinct (map tk_payload_ptr (filter has_rc q0))
     \<and> (\<exists>ds cs. q0 = ds @ ts \<and> sched_ready (ks_sched st) = sched_ready (ks_sched st0) + mset cs
         \<and> (\<forall>x \<in> set cs. \<exists>t \<in> set ds. unstamped x = unstamped t) \<and> length cs \<le> length ds * length snap
         \<and> (\<forall>t \<in> set ts. has_rc t \<longrightarrow> ref_is (ks_alloc st) K Z (tk_payload_ptr t) 1)
         \<and> (\<forall>t \<in> set ds. has_rc t \<longrightarrow>
              ref_is (ks_alloc st) K Z (tk_payload_ptr t) (refs cs (tk_payload_ptr t))))"

lemma distinct_ptr_ne:
  "distinct (map tk_payload_ptr (filter has_rc (ds @ t # ts))) \<Longrightarrow> has_rc t \<Longrightarrow> x \<in> set ds \<union> set ts \<Longrightarrow>
   has_rc x \<Longrightarrow> tk_payload_ptr x \<noteq> tk_payload_ptr t"
  by (auto simp: image_iff)

lemma fan_deliver:
  assumes I: "fan_state c snap K Z q0 st0 (t # ts) cr st" and inv: "chan_inv cr" and c: "c < cr_n_channels cr"
  shows "\<exists>cr' st'. chan_deliver c snap t cr st = Some (cr', st') \<and> chan_kept c cr cr'
    \<and> fan_state c snap K Z q0 st0 ts cr' st'"
proof -
  let ?a = "ks_alloc st" and ?q = "tk_payload_ptr t"
  from I obtain ds cs where s: "c \<noteq> 0" "good_snap snap" "ch_mode (chan_at cr c) \<noteq> GMK_CHAN_P2P" "ks_inv st"
    "cr_alloc cr" "alloc_inv ?a" "distinct (map tk_payload_ptr (filter has_rc q0))"
    and d: "q0 = ds @ t # ts" "sched_ready (ks_sched st) = sched_ready (ks_sched st0) + mset cs"
      "\<forall>x \<in> set cs. \<exists>t \<in> set ds. unstamped x = unstamped t" "length cs \<le> length ds * length snap"
      "\<forall>x \<in> set (t # ts). has_rc x \<longrightarrow> ref_is ?a K Z (tk_payload_ptr x) 1"
      "\<forall>x \<in> set ds. has_rc x \<longrightarrow> ref_is ?a K Z (tk_payload_ptr x) (refs cs (tk_payload_ptr x))"
    unfolding fan_state_def by blast
  let ?L = "alloc_live ?a - {(K ?q, ?q - 8)}"
  have "rc_state (has_rc t) (al_hdrs ?a) ?L (K ?q) ?q (Z ?q) ?a 1 ?a"
    using d(5) s(6) by (auto simp: rc_state_def held_def ref_is_def payload_at_def)
  from drain_fanout_spec [OF inv c s(4,2) _ this] s(5) obtain cr' st' new where
    f: "drain_fanout cr c snap t st = Some (cr', st')" "chan_kept c cr cr'" "ks_inv st'"
      "sched_ready (ks_sched st') = sched_ready (ks_sched st) + mset new"
      "\<forall>t' \<in> set new. unstamped t' = unstamped t" "length new \<le> length snap"
      "rc_state (has_rc t) (al_hdrs ?a) ?L (K ?q) ?q (Z ?q) ?a (length new) (ks_alloc st')" by blast
  note k = chan_kept_entry [OF f(2) c]
  have ai: "alloc_inv (ks_alloc st')" using f(7) s(6) by (auto simp: rc_state_def held_def split: if_splits)
  have other: "ref_is (ks_alloc st') K Z q' n" if "ref_is ?a K Z q' n" "has_rc t \<longrightarrow> q' \<noteq> ?q" for q' n
    using f(7) that held_ref_is(2) [where K = K and Z = Z] by (cases "has_rc t") (auto simp: rc_state_def)
  have ne: "tk_payload_ptr x \<noteq> ?q" if "has_rc t" "x \<in> set ds \<union> set ts" "has_rc x" for x
    using distinct_ptr_ne that s(7) d(1) by blast
  have rn: "refs new (tk_payload_ptr x) = 0" if "x \<in> set ds \<union> set ts" "has_rc x" for x
    using refs_copies [OF f(5), of "tk_payload_ptr x"] ne [of x] that by auto
  have old: "refs cs ?q = 0" if "has_rc t"
  proof (rule refs_other, intro ballI impI)
    fix x assume x: "x \<in> set cs" "has_rc x"
    then obtain y where "y \<in> set ds" "unstamped x = unstamped y" using d(3) by blast
    then show "tk_payload_ptr x \<noteq> ?q" using ne [of y] unstamped_eqD [of x y] that x by auto
  qed
  have self: "ref_is (ks_alloc st') K Z ?q (refs (cs @ new) ?q)" if "has_rc t"
    using f(7) old refs_copies [OF f(5), of ?q] that held_ref_is(1) [where K = K and Z = Z]
    by (auto simp: rc_state_def)
  have E: "\<exists>ds cs. q0 = ds @ ts \<and> sched_ready (ks_sched st') = sched_ready (ks_sched st0) + mset cs
      \<and> (\<forall>x \<in> set cs. \<exists>t \<in> set ds. unstamped x = unstamped t) \<and> length cs \<le> length ds * length snap
      \<and> (\<forall>t \<in> set ts. has_rc t \<longrightarrow> ref_is (ks_alloc st') K Z (tk_payload_ptr t) 1)
      \<and> (\<forall>t \<in> set ds. has_rc t \<longrightarrow>
           ref_is (ks_alloc st') K Z (tk_payload_ptr t) (refs cs (tk_payload_ptr t)))"
  proof (rule exI [of _ "ds @ [t]"], rule exI [of _ "cs @ new"], intro conjI)
    show "\<forall>x \<in> set (cs @ new). \<exists>y \<in> set (ds @ [t]). unstamped x = unstamped y" using d(3) f(5) by auto
    show "length (cs @ new) \<le> length (ds @ [t]) * length snap" using d(4) f(6) by simp
    show "\<forall>x \<in> set ts. has_rc x \<longrightarrow> ref_is (ks_alloc st') K Z (tk_payload_ptr x) 1"
      using d(5) other ne by auto
    show "\<forall>x \<in> set (ds @ [t]). has_rc x \<longrightarrow>
        ref_is (ks_alloc st') K Z (tk_payload_ptr x) (refs (cs @ new) (tk_payload_ptr x))"
      using d(6) other ne rn self by auto
  qed (use d(1,2) f(4) in simp_all)
  have "ch_mode (chan_at cr' c) \<noteq> GMK_CHAN_P2P" "cr_alloc cr'" using k s(3,5) by simp_all
  with E s(1,2,7) f(3) ai have "fan_state c snap K Z q0 st0 ts cr' st'" unfolding fan_state_def by blast
  then show ?thesis using f(1,2) s(3) by (auto simp: chan_deliver_def)
qed

interpretation fan: chan_drain c snap "fan_state c snap K Z q0 st0" for c snap K Z q0 st0
proof unfold_locales
  fix ts cr st r
  assume I: "fan_state c snap K Z q0 st0 ts cr st" and inv: "chan_inv cr" and c: "c < cr_n_channels cr"
  then show "fan_state c snap K Z q0 st0 ts
      (cr\<lparr>cr_channels := (cr_channels cr)[unat c := (chan_at cr c)\<lparr>ch_ring := r\<rparr>]\<rparr>) st"
    using chan_inv_entry(2) [OF inv c] by (simp add: fan_state_def)
next
  fix ts cr st assume "fan_state c snap K Z q0 st0 ts cr st"
  then show "c \<noteq> 0" by (simp add: fan_state_def)
qed (rule fan_deliver)

section \<open>Drain\<close>

definition drain_limit :: "u32 \<Rightarrow> u32" where
  "drain_limit limit = (if limit = 0 then -1 else limit)"

definition chan_snapshot :: "gmk_chan_reg \<Rightarrow> u32 \<Rightarrow> gmk_chan_sub list" where
  "chan_snapshot cr c = take (unat (ch_n_subs (chan_at cr c))) (ch_subs (chan_at cr c))"

lemma chan_snapshot_length:
  "chan_inv cr \<Longrightarrow> c < cr_n_channels cr \<Longrightarrow> length (chan_snapshot cr c) = unat (ch_n_subs (chan_at cr c))"
  using chan_inv_entry(3) [of cr c] by (simp add: chan_snapshot_def chan_ok_def)

lemma chan_subs_nonzero:
  assumes "chan_inv cr" "c < cr_n_channels cr" "ch_n_subs (chan_at cr c) \<noteq> 0"
  shows "c \<noteq> 0" "good_snap (chan_snapshot cr c)"
  using chan_inv_entry(3) [OF assms(1,2)] chan_snap [OF assms] assms(3)
  by (auto simp: chan_ok_def chan_snapshot_def)

lemma chan_drain_returns:
  assumes inv: "chan_inv cr" and c: "c < cr_n_channels cr" and n: "ch_n_subs (chan_at cr c) \<noteq> 0"
    and loop: "drain_loop c (chan_snapshot cr c) (drain_limit limit) 0 cr st = Some (of_nat m, cr', st')"
    and obs: "obs_inv st'" and m: "m < 2 ^ 31"
  obtains st'' where "gmk_chan_drain cr c limit st = Some (int m, cr', st'')" "obs_step st' st''"
proof -
  obtain st2 where t: "(if (0 :: u32) < of_nat m then chan_trace cr' st' 0 GMK_EV_CHAN_DRAIN 0 c (of_nat m)
      else Some st') = Some st2" "obs_step st' st2"
  proof (cases "(0 :: u32) < of_nat m")
    case True
    obtain st2 where "chan_trace cr' st' 0 GMK_EV_CHAN_DRAIN 0 c (of_nat m) = Some st2" "obs_step st' st2"
      by (rule chan_trace_step [OF obs])
    then show ?thesis using True by (intro that [of st2]) simp_all
  qed (use that obs_step_refl [OF obs] in simp)
  have "sint (of_nat m :: u32) = int m" using m by (rule sint_of_nat_small)
  moreover have "\<not> cr_n_channels cr \<le> c" using c by simp
  ultimately have "gmk_chan_drain cr c limit st = Some (int m, cr', st2)"
    using chan_inv_entry(4) [OF inv c] n loop t(1)
    by (simp add: gmk_chan_drain_def Let_def chan_snapshot_def drain_limit_def)
  then show ?thesis using t(2) by (rule that)
qed

lemma chan_queue_bound:
  assumes "chan_inv cr" "c < cr_n_channels cr" "c \<noteq> 0"
  shows "length (chan_queue cr c) \<le> unat (ch_ring_cap (chan_at cr c))"
proof -
  have "mpmc_inv (ch_ring (chan_at cr c))" "ch_ring_cap (chan_at cr c) = mp_cap (ch_ring (chan_at cr c))"
    using chan_inv_entry(3) [OF assms(1,2)] assms(3) by (auto simp: chan_ok_def unat_eq_zero)
  then show ?thesis using mpmc.contents_bound by (simp add: chan_queue_def mpmc_capacity_def del: length_mpmc_contents)
qed

lemma chan_drain_p2p:
  fixes limit :: u32
  assumes inv: "chan_inv cr" and c: "c < cr_n_channels cr" and mode: "ch_mode (chan_at cr c) = GMK_CHAN_P2P"
    and n: "ch_n_subs (chan_at cr c) \<noteq> 0" and ks: "ks_inv st" and cap: "unat (ch_ring_cap (chan_at cr c)) < 2 ^ 31"
  defines "m \<equiv> min (unat (drain_limit limit)) (length (chan_queue cr c))"
  shows "\<exists>cr' st' fs. gmk_chan_drain cr c limit st = Some (int m, cr', st') \<and> chan_inv cr' \<and> ks_inv st'
    \<and> cr_n_channels cr' = cr_n_channels cr \<and> chan_blocks cr' = chan_blocks cr \<and> ks_alloc st' = ks_alloc st
    \<and> chan_queue cr' c = drop m (chan_queue cr c)
    \<and> map unstamped (take m (chan_queue cr c)) = map (unstamped \<circ> fst) fs
    \<and> sched_ready (ks_sched st') = sched_ready (ks_sched st) + mset (map fst (filter snd fs))
    \<and> chan_queue cr' 1 = chan_queue cr 1 @ take (dead_room cr) (map fst (filter (Not \<circ> snd) fs))
    \<and> ch_drop_count (chan_at cr' c) = ch_drop_count (chan_at cr c) + of_nat (length (filter (Not \<circ> snd) fs))"
proof -
  let ?snap = "chan_snapshot cr c"
  note sn = chan_subs_nonzero [OF inv c n]
  have c1: "c \<noteq> 1" using mode dead_entry(4) [OF inv] by auto
  have bound: "m < 2 ^ 31" using chan_queue_bound [OF inv c sn(1)] cap by (simp add: m_def)
  have I: "p2p_state c ?snap cr st (chan_queue cr c) cr st"
    unfolding p2p_state_def using sn c1 mode ks by (intro conjI exI [of _ "[]"]) simp_all
  have lim: "(0 :: u32) \<le> drain_limit limit" by simp
  have m: "m = min (unat (drain_limit limit) - unat (0 :: u32)) (length (chan_queue cr c))" by (simp add: m_def)
  from p2p.drain_loop_ok [OF inv c I lim m] obtain cr' st' where
    l: "drain_loop c ?snap (drain_limit limit) 0 cr st = Some (of_nat m, cr', st')" "chan_inv cr'"
      "cr_n_channels cr' = cr_n_channels cr" "chan_blocks cr' = chan_blocks cr"
      "chan_queue cr' c = drop m (chan_queue cr c)" "p2p_state c ?snap cr st (chan_queue cr' c) cr' st'" by auto
  then obtain fs where ks': "ks_inv st'" "ks_alloc st' = ks_alloc st"
    and f: "map unstamped (chan_queue cr c) = map (unstamped \<circ> fst) fs @ map unstamped (chan_queue cr' c)"
      "sched_ready (ks_sched st') = sched_ready (ks_sched st) + mset (map fst (filter snd fs))"
      "chan_queue cr' 1 = chan_queue cr 1 @ take (dead_room cr) (map fst (filter (Not \<circ> snd) fs))"
      "ch_drop_count (chan_at cr' c) = ch_drop_count (chan_at cr c) + of_nat (length (filter (Not \<circ> snd) fs))"
    unfolding p2p_state_def by blast
  have "map unstamped (take m (chan_queue cr c)) @ map unstamped (drop m (chan_queue cr c))
      = map (unstamped \<circ> fst) fs @ map unstamped (drop m (chan_queue cr c))"
    using f(1) l(5) by (simp flip: map_append)
  then have t: "map unstamped (take m (chan_queue cr c)) = map (unstamped \<circ> fst) fs" by simp
  obtain st'' where "gmk_chan_drain cr c limit st = Some (int m, cr', st'')" "obs_step st' st''"
    by (rule chan_drain_returns [OF inv c n l(1) _ bound]) (use ks' in \<open>simp add: ks_inv_def\<close>)
  then show ?thesis using l f t ks' ks_inv_obs_step [OF ks'(1)]
    by (intro exI [of _ cr'] exI [of _ st''] exI [of _ fs]) (auto simp: obs_step_def)
qed

lemma chan_drain_fanout:
  fixes limit :: u32
  assumes inv: "chan_inv cr" and c: "c < cr_n_channels cr" and mode: "ch_mode (chan_at cr c) \<noteq> GMK_CHAN_P2P"
    and n: "ch_n_subs (chan_at cr c) \<noteq> 0" and ks: "ks_inv st" and cap: "unat (ch_ring_cap (chan_at cr c)) < 2 ^ 31"
    and al: "cr_alloc cr" "alloc_inv (ks_alloc st)" and ptrs: "distinct (map tk_payload_ptr (filter has_rc (chan_queue cr c)))"
    and rc: "\<forall>t \<in> set (chan_queue cr c). has_rc t \<longrightarrow> ref_is (ks_alloc st) K Z (tk_payload_ptr t) 1"
  defines "m \<equiv> min (unat (drain_limit limit)) (length (chan_queue cr c))"
  shows "\<exists>cr' st' cs. gmk_chan_drain cr c limit st = Some (int m, cr', st') \<and> chan_inv cr' \<and> ks_inv st'
    \<and> alloc_inv (ks_alloc st') \<and> chan_blocks cr' = chan_blocks cr
    \<and> chan_queue cr' c = drop m (chan_queue cr c)
    \<and> sched_ready (ks_sched st') = sched_ready (ks_sched st) + mset cs
    \<and> (\<forall>x \<in> set cs. \<exists>t \<in> set (take m (chan_queue cr c)). unstamped x = unstamped t)
    \<and> length cs \<le> m * unat (ch_n_subs (chan_at cr c))
    \<and> (\<forall>t \<in> set (take m (chan_queue cr c)). has_rc t \<longrightarrow>
         ref_is (ks_alloc st') K Z (tk_payload_ptr t) (refs cs (tk_payload_ptr t)))
    \<and> (\<forall>t \<in> set (drop m (chan_queue cr c)). has_rc t \<longrightarrow> ref_is (ks_alloc st') K Z (tk_payload_ptr t) 1)"
proof -
  let ?snap = "chan_snapshot cr c" and ?q = "chan_queue cr c"
  note sn = chan_subs_nonzero [OF inv c n]
  have bound: "m < 2 ^ 31" using chan_queue_bound [OF inv c sn(1)] cap by (simp add: m_def)
  have I: "fan_state c ?snap K Z ?q st ?q cr st"
    unfolding fan_state_def using sn mode ks al ptrs rc
    by (intro conjI exI [of _ "[] :: gmk_task list"]) simp_all
  have lim: "(0 :: u32) \<le> drain_limit limit" by simp
  have m: "m = min (unat (drain_limit limit) - unat (0 :: u32)) (length ?q)" by (simp add: m_def)
  from fan.drain_loop_ok [OF inv c I lim m] obtain cr' st' where
    l: "drain_loop c ?snap (drain_limit limit) 0 cr st = Some (of_nat m, cr', st')" "chan_inv cr'"
      "chan_blocks cr' = chan_blocks cr" "chan_queue cr' c = drop m ?q"
      "fan_state c ?snap K Z ?q st (chan_queue cr' c) cr' st'" by auto
  then obtain ds cs where ks': "ks_inv st'" "alloc_inv (ks_alloc st')"
    and f: "?q = ds @ drop m ?q" "sched_ready (ks_sched st') = sched_ready (ks_sched st) + mset cs"
      "\<forall>x \<in> set cs. \<exists>t \<in> set ds. unstamped x = unstamped t" "length cs \<le> length ds * length ?snap"
      "\<forall>t \<in> set (drop m ?q). has_rc t \<longrightarrow> ref_is (ks_alloc st') K Z (tk_payload_ptr t) 1"
      "\<forall>t \<in> set ds. has_rc t \<longrightarrow> ref_is (ks_alloc st') K Z (tk_payload_ptr t) (refs cs (tk_payload_ptr t))"
    unfolding fan_state_def by metis
  have ds: "ds = take m ?q" using f(1) append_take_drop_id [of m ?q] by (metis append_same_eq)
  have "length ds = m" "length ?snap \<le> unat (ch_n_subs (chan_at cr c))"
    unfolding ds by (simp_all add: m_def chan_snapshot_def)
  then have len: "length cs \<le> m * unat (ch_n_subs (chan_at cr c))"
    using f(4) by (metis le_trans mult_le_mono2)
  obtain st'' where "gmk_chan_drain cr c limit st = Some (int m, cr', st'')" "obs_step st' st''"
    by (rule chan_drain_returns [OF inv c n l(1) _ bound]) (use ks' in \<open>simp add: ks_inv_def\<close>)
  then show ?thesis using l f ds len ks' ks_inv_obs_step [OF ks'(1)]
    by (intro exI [of _ cr'] exI [of _ st''] exI [of _ cs]) (auto simp: obs_step_def)
qed

end
