(* ===== verification/Chan_Emit.thy ===== *)
theory Chan_Emit
  imports Chan_Flow
begin

text \<open>
  Emission: the refusal above the reserve threshold, the direct hand-over to the subscriber of a
  point-to-point channel, and the buffered path.
\<close>

definition reserve_threshold :: "u32 \<Rightarrow> u32" where
  "reserve_threshold cap = cap - (cap * GMK_CHAN_PRIORITY_RESERVE_PCT div 100)"

definition emitted :: "u32 \<Rightarrow> gmk_task \<Rightarrow> gmk_task" where
  "emitted c t = t\<lparr>tk_channel := c, tk_flags := tk_flags t OR GMK_TF_CHANNEL_MSG\<rparr>"

lemma emitted_prio [simp]: "task_prio (emitted c t) = task_prio t"
  by (simp add: emitted_def task_prio_def GMK_PRIORITY_or_channel_msg)

definition emit_busy :: "gmk_chan_reg \<Rightarrow> u32 \<Rightarrow> gmk_task \<Rightarrow> bool" where
  "emit_busy cr c t \<longleftrightarrow> unat (reserve_threshold (ch_ring_cap (chan_at cr c))) \<le> length (chan_queue cr c)
     \<and> task_prio t \<noteq> 0"

lemma emit_full_step:
  assumes "obs_inv st"
  obtains st' where "emit_full cr c t st = Some (-2, cr, st', t)" "obs_step st st'"
proof -
  obtain st1 where 1: "chan_trace cr st (tk_tenant t) GMK_EV_CHAN_FULL (ucast (tk_type t)) c 0 = Some st1"
    "obs_step st st1" by (rule chan_trace_step [OF assms])
  obtain st2 where 2: "chan_metric cr st1 (tk_tenant t) GMK_METRIC_CHAN_FULL_COUNT = Some st2" "obs_step st1 st2"
    by (rule chan_metric_step [OF obs_step_inv [OF 1(2)]])
  show ?thesis using 1 2 obs_step_trans [OF 1(2) 2(2)] by (intro that [of st2]) (simp_all add: emit_full_def)
qed

text \<open>The registry after an accepted message, with the ring \<open>r\<close>.\<close>

definition counted :: "gmk_chan_reg \<Rightarrow> u32 \<Rightarrow> gmk_task gmk_ring_mpmc \<Rightarrow> gmk_chan_reg" where
  "counted cr c r = cr\<lparr>cr_channels := (cr_channels cr)[unat c :=
     (chan_at cr c)\<lparr>ch_ring := r, ch_emit_count := ch_emit_count (chan_at cr c) + 1\<rparr>]\<rparr>"

lemma emit_ok_step:
  assumes inv: "chan_inv cr" and c: "c < cr_n_channels cr" and obs: "obs_inv st"
  obtains st' where "emit_ok cr c t st = Some (counted cr c (ch_ring (chan_at cr c)), st')" "obs_step st st'"
proof -
  have u: "chan_upd cr c (\<lambda>ch. ch\<lparr>ch_emit_count := ch_emit_count ch + 1\<rparr>) =
      Some (counted cr c (ch_ring (chan_at cr c)))"
    using chan_upd_eq [OF inv c] by (simp add: counted_def)
  obtain st' where "chan_metric (counted cr c (ch_ring (chan_at cr c))) st (tk_tenant t) GMK_METRIC_CHAN_EMITS
      = Some st'" "obs_step st st'"
    by (rule chan_metric_step [OF obs])
  then show ?thesis using u by (intro that [of st']) (simp_all add: emit_ok_def)
qed

lemma counted_props:
  assumes inv: "chan_inv cr" and c: "c < cr_n_channels cr" "c \<noteq> 0" and r: "mpmc_inv r"
    "mpmc_capacity r = mpmc_capacity (ch_ring (chan_at cr c))"
  shows "chan_inv (counted cr c r)" "cr_n_channels (counted cr c r) = cr_n_channels cr"
    "chan_queue (counted cr c r) c = mpmc_contents r"
    "ch_mode (chan_at (counted cr c r) c) = ch_mode (chan_at cr c)"
    "ch_n_subs (chan_at (counted cr c r) c) = ch_n_subs (chan_at cr c)"
    "ch_ring_cap (chan_at (counted cr c r) c) = ch_ring_cap (chan_at cr c)"
    "ch_drop_count (chan_at (counted cr c r) c) = ch_drop_count (chan_at cr c)"
    "ch_emit_count (chan_at (counted cr c r) c) = ch_emit_count (chan_at cr c) + 1"
    "c' \<noteq> c \<Longrightarrow> chan_at (counted cr c r) c' = chan_at cr c'"
proof -
  note e = chan_inv_entry [OF inv c(1)]
  have "unat c \<noteq> 0" using c(2) by (simp add: unat_eq_zero)
  then have "chan_ok True (unat c) ((chan_at cr c)\<lparr>ch_ring := r, ch_emit_count := ch_emit_count (chan_at cr c) + 1\<rparr>)"
    using chan_ok_ring [OF e(3) r] by simp
  then show "chan_inv (counted cr c r)" unfolding counted_def by (rule chan_inv_update [OF inv c(1)])
  show "c' \<noteq> c \<Longrightarrow> chan_at (counted cr c r) c' = chan_at cr c'"
    by (simp add: counted_def word_unat_eq_iff)
qed (use chan_inv_entry(2) [OF inv c(1)] in \<open>simp_all add: counted_def chan_queue_def\<close>)

text \<open>A message that no subscriber takes at once: refused when the ring is full, else buffered.\<close>

lemma chan_push_cases:
  assumes inv: "chan_inv cr" and c: "c < cr_n_channels cr" "c \<noteq> 0"
  obtains (room) r where "gmk_ring_mpmc_push (ch_ring (chan_at cr c)) t = Some (0, r)" "mpmc_inv r"
      "mpmc_contents r = chan_queue cr c @ [t]" "mpmc_capacity r = mpmc_capacity (ch_ring (chan_at cr c))"
      "length (chan_queue cr c) < unat (ch_ring_cap (chan_at cr c))"
    | (full) "gmk_ring_mpmc_push (ch_ring (chan_at cr c)) t = Some (-1, ch_ring (chan_at cr c))"
      "length (chan_queue cr c) = unat (ch_ring_cap (chan_at cr c))"
proof -
  have m: "mpmc_inv (ch_ring (chan_at cr c))" "ch_ring_cap (chan_at cr c) = mp_cap (ch_ring (chan_at cr c))"
    using chan_inv_entry(3) [OF inv c(1)] c(2) by (auto simp: chan_ok_def unat_eq_zero)
  show ?thesis
    by (rule mpmc.push_cases [OF m(1), of t])
      (use m(2) that in \<open>simp_all add: chan_queue_def mpmc_capacity_def del: length_mpmc_contents\<close>)
qed

lemma emit_buffered_cases:
  assumes inv: "chan_inv cr" and c: "c < cr_n_channels cr" "c \<noteq> 0" and ks: "ks_inv st"
    and cap: "unat (ch_ring_cap (chan_at cr c)) < 2 ^ 31"
  obtains (full) st' where "emit_buffered cr c (chan_at cr c) t st = Some (-2, cr, st', t)" "obs_step st st'"
      "length (chan_queue cr c) = unat (ch_ring_cap (chan_at cr c))"
    | (kept) r st' where "emit_buffered cr c (chan_at cr c) t st = Some (0, counted cr c r, st', t)" "obs_step st st'"
      "mpmc_inv r" "mpmc_contents r = chan_queue cr c @ [t]"
      "mpmc_capacity r = mpmc_capacity (ch_ring (chan_at cr c))"
      "length (chan_queue cr c) < unat (ch_ring_cap (chan_at cr c))"
      "\<not> (ch_mode (chan_at cr c) = GMK_CHAN_P2P \<and> ch_n_subs (chan_at cr c) \<noteq> 0)"
    | (drained) r st1 k cr' st' where "emit_buffered cr c (chan_at cr c) t st = Some (0, cr', st', t)"
      "mpmc_inv r" "mpmc_contents r = chan_queue cr c @ [t]" "obs_step st st1"
      "mpmc_capacity r = mpmc_capacity (ch_ring (chan_at cr c))"
      "length (chan_queue cr c) < unat (ch_ring_cap (chan_at cr c))"
      "ch_mode (chan_at cr c) = GMK_CHAN_P2P" "ch_n_subs (chan_at cr c) \<noteq> 0"
      "gmk_chan_drain (counted cr c r) c 1 st1 = Some (k, cr', st')"
proof (rule chan_push_cases [OF inv c, of t])
  assume f: "gmk_ring_mpmc_push (ch_ring (chan_at cr c)) t = Some (-1, ch_ring (chan_at cr c))"
    "length (chan_queue cr c) = unat (ch_ring_cap (chan_at cr c))"
  obtain st' where e: "emit_full cr c t st = Some (-2, cr, st', t)" "obs_step st st'"
    by (rule emit_full_step [OF ks_invD(1) [OF ks]])
  have "cr\<lparr>cr_channels := (cr_channels cr)[unat c := chan_at cr c]\<rparr> = cr" by simp
  then show ?thesis using f e chan_upd_eq [OF inv c(1)]
    by (intro that(1) [of st']) (simp_all add: emit_buffered_def)
next
  fix r assume r: "gmk_ring_mpmc_push (ch_ring (chan_at cr c)) t = Some (0, r)" "mpmc_inv r"
    "mpmc_contents r = chan_queue cr c @ [t]" "mpmc_capacity r = mpmc_capacity (ch_ring (chan_at cr c))"
    "length (chan_queue cr c) < unat (ch_ring_cap (chan_at cr c))"
  let ?cr1 = "cr\<lparr>cr_channels := (cr_channels cr)[unat c := (chan_at cr c)\<lparr>ch_ring := r\<rparr>]\<rparr>"
  note e = chan_inv_entry [OF inv c(1)]
  have c0: "unat c \<noteq> 0" using c(2) by (simp add: unat_eq_zero)
  have inv1: "chan_inv ?cr1" by (rule chan_inv_update [OF inv c(1) chan_ok_ring [OF e(3) r(2,4) c0]]) simp
  obtain st1 where o: "emit_ok ?cr1 c t st = Some (counted ?cr1 c (ch_ring (chan_at ?cr1 c)), st1)" "obs_step st st1"
    by (rule emit_ok_step [OF inv1 _ ks_invD(1) [OF ks], where c = c and t = t]) (use c in \<open>simp_all\<close>)
  have cn: "counted ?cr1 c (ch_ring (chan_at ?cr1 c)) = counted cr c r" using e(2) by (simp add: counted_def)
  note cp = counted_props [OF inv c r(2,4)]
  show ?thesis
  proof (cases "ch_mode (chan_at cr c) = GMK_CHAN_P2P \<and> ch_n_subs (chan_at cr c) \<noteq> 0")
    case False
    then have "\<not> (ch_mode (chan_at cr c) = 1 \<and> 0 < ch_n_subs (chan_at cr c))" by auto
    then have "emit_buffered cr c (chan_at cr c) t st = Some (0, counted cr c r, st1, t)"
      using r(1) o(1) cn chan_upd_eq [OF inv c(1)] by (auto simp: emit_buffered_def)
    then show ?thesis using o(2) r(2-5) False by (rule that(2))
  next
    case True
    have ks1: "ks_inv st1" by (rule ks_inv_obs_step [OF ks o(2)])
    obtain k cr' st' where d: "gmk_chan_drain (counted cr c r) c 1 st1 = Some (k, cr', st')"
      using chan_drain_p2p [OF cp(1) _ _ _ ks1, of c 1] c(1) cp True cap by auto
    have "0 < ch_n_subs (chan_at cr c)" using True by (simp add: word_gt_0)
    then have "emit_buffered cr c (chan_at cr c) t st = Some (0, cr', st', t)"
      using r(1) o(1) cn chan_upd_eq [OF inv c(1)] True d by (simp add: emit_buffered_def)
    then show ?thesis using True d by (intro that(3) [OF _ r(2,3) o(2) r(4,5)]) simp_all
  qed
qed

text \<open>When the scheduler takes a task for worker \<open>w\<close>.\<close>

definition sched_takes :: "gmk_sched \<Rightarrow> gmk_task \<Rightarrow> int \<Rightarrow> bool" where
  "sched_takes s t w \<longleftrightarrow> goes_local s w \<or> length (rq_lists (sd_rq s) ! task_prio t) < rq_caps (sd_rq s) ! task_prio t"

lemma enqueue_takes:
  assumes inv: "sched_inv s" and w: "w < 2 ^ 31"
  obtains (taken) s' where "sched_takes s t w" "gmk_enqueue s t w = Some (0, s', t\<lparr>tk_seq := sd_next_seq s\<rparr>)"
      "sched_inv s'" "sched_ready s' = add_mset (t\<lparr>tk_seq := sd_next_seq s\<rparr>) (sched_ready s)"
    | (refused) s' where "\<not> sched_takes s t w" "gmk_enqueue s t w = Some (-1, s', t\<lparr>tk_seq := sd_next_seq s\<rparr>)"
      "sched_inv s'" "sched_ready s' = sched_ready s"
proof -
  obtain e s' where e: "gmk_enqueue s t w = Some (e, s', t\<lparr>tk_seq := sd_next_seq s\<rparr>)" "sched_inv s'"
    "sched_ready s' = (if e = 0 then add_mset (t\<lparr>tk_seq := sd_next_seq s\<rparr>) (sched_ready s) else sched_ready s)"
    by (rule enqueue_conserves [OF inv w, of t])
  have "e = 0 \<and> sched_takes s t w \<or> e = -1 \<and> \<not> sched_takes s t w"
    using enqueue_outcome [OF inv w, of t] e(1) by (auto simp: sched_takes_def split: if_splits)
  then show ?thesis using that(1) [of s'] that(2) [of s'] e by auto
qed

lemma chan_p2p_sub:
  assumes inv: "chan_inv cr" and c: "c < cr_n_channels cr" and m: "ch_mode (chan_at cr c) = GMK_CHAN_P2P"
    and n: "ch_n_subs (chan_at cr c) \<noteq> 0"
  shows "ch_n_subs (chan_at cr c) = 1" "arr_get (ch_subs (chan_at cr c)) 0 = Some (ch_subs (chan_at cr c) ! 0)"
    "cs_active (ch_subs (chan_at cr c) ! 0)" "cs_worker_id (ch_subs (chan_at cr c) ! 0) < 2 ^ 31"
proof -
  have ok: "chan_ok True (unat c) (chan_at cr c)" by (rule chan_inv_entry(3) [OF inv c])
  then have "unat (ch_n_subs (chan_at cr c)) \<le> 1" using m by (simp add: chan_ok_def)
  moreover have "unat (ch_n_subs (chan_at cr c)) \<noteq> 0" using n by (simp add: unat_eq_zero)
  ultimately have one: "unat (ch_n_subs (chan_at cr c)) = 1" by linarith
  then show "ch_n_subs (chan_at cr c) = 1" by (metis unsigned_1 word_unat_eq_iff)
  show "arr_get (ch_subs (chan_at cr c)) 0 = Some (ch_subs (chan_at cr c) ! 0)"
    "cs_active (ch_subs (chan_at cr c) ! 0)" "cs_worker_id (ch_subs (chan_at cr c) ! 0) < 2 ^ 31"
    using ok one by (simp_all add: chan_ok_def exec_simps)
qed

text \<open>A message that is buffered: what the registry and the scheduler hold afterwards.  On a bound
  point-to-point channel the oldest message of the buffer moves on, to the scheduler or to the
  dead-letter channel.\<close>

definition buffered_fate :: "gmk_chan_reg \<Rightarrow> kstore \<Rightarrow> u32 \<Rightarrow> gmk_task \<Rightarrow> gmk_chan_reg \<Rightarrow> kstore \<Rightarrow> bool" where
  "buffered_fate cr st c t cr' st' \<longleftrightarrow>
     (if ch_mode (chan_at cr c) = GMK_CHAN_P2P \<and> ch_n_subs (chan_at cr c) \<noteq> 0
      then chan_queue cr' c = tl (chan_queue cr c @ [t])
         \<and> (\<exists>x. unstamped x = unstamped (hd (chan_queue cr c @ [t]))
              \<and> (sched_ready (ks_sched st') = add_mset x (sched_ready (ks_sched st))
                   \<and> chan_queue cr' 1 = chan_queue cr 1
                 \<or> sched_ready (ks_sched st') = sched_ready (ks_sched st)
                   \<and> chan_queue cr' 1 = chan_queue cr 1 @ take (dead_room cr) [x]
                   \<and> ch_drop_count (chan_at cr' c) = ch_drop_count (chan_at cr c) + 1))
      else chan_queue cr' c = chan_queue cr c @ [t] \<and> sched_ready (ks_sched st') = sched_ready (ks_sched st))"

lemma drain_one_fate:
  assumes inv: "chan_inv cr" and c: "c < cr_n_channels cr" "c \<noteq> 0" and ks: "ks_inv st1"
    and cap: "unat (ch_ring_cap (chan_at cr c)) < 2 ^ 31"
    and p: "ch_mode (chan_at cr c) = GMK_CHAN_P2P" "ch_n_subs (chan_at cr c) \<noteq> 0"
    and r: "mpmc_inv r" "mpmc_contents r = chan_queue cr c @ [t]"
      "mpmc_capacity r = mpmc_capacity (ch_ring (chan_at cr c))"
    and st: "ks_sched st1 = ks_sched st" "ks_alloc st1 = ks_alloc st"
    and d: "gmk_chan_drain (counted cr c r) c 1 st1 = Some (k, cr', st')"
  shows "chan_inv cr'" "ks_inv st'" "ks_alloc st' = ks_alloc st" "buffered_fate cr st c t cr' st'"
proof -
  note cp = counted_props [OF inv c r(1,3)]
  have c1: "c \<noteq> 1" using p(1) dead_entry(4) [OF inv] by auto
  have one: "min (unat (drain_limit 1)) (length (chan_queue (counted cr c r) c)) = 1"
    by (simp add: drain_limit_def cp(3) r(2))
  have at1: "chan_at (counted cr c r) 1 = chan_at cr 1" using cp(9) [of 1] c1 by auto
  have qc: "chan_queue (counted cr c r) c = chan_queue cr c @ [t]" using cp(3) r(2) by (rule trans)
  have q1: "chan_queue (counted cr c r) 1 = chan_queue cr 1" "dead_room (counted cr c r) = dead_room cr"
    using at1 by (simp_all add: chan_queue_def dead_room_def del: length_mpmc_contents)
  have "\<exists>cr' st' fs. gmk_chan_drain (counted cr c r) c 1 st1 = Some (int 1, cr', st') \<and> chan_inv cr' \<and> ks_inv st'
    \<and> cr_n_channels cr' = cr_n_channels (counted cr c r) \<and> chan_blocks cr' = chan_blocks (counted cr c r)
    \<and> ks_alloc st' = ks_alloc st1 \<and> chan_queue cr' c = drop 1 (chan_queue cr c @ [t])
    \<and> map unstamped (take 1 (chan_queue cr c @ [t])) = map (unstamped \<circ> fst) fs
    \<and> sched_ready (ks_sched st') = sched_ready (ks_sched st1) + mset (map fst (filter snd fs))
    \<and> chan_queue cr' 1 = chan_queue cr 1 @ take (dead_room cr) (map fst (filter (Not \<circ> snd) fs))
    \<and> ch_drop_count (chan_at cr' c) = ch_drop_count (chan_at cr c) + of_nat (length (filter (Not \<circ> snd) fs))"
    using chan_drain_p2p [of "counted cr c r" c st1 1, unfolded one] cp(1,2,4-7) c p ks cap qc q1 by simp
  then obtain fs where f: "chan_inv cr'" "ks_inv st'" "ks_alloc st' = ks_alloc st"
    "chan_queue cr' c = drop 1 (chan_queue cr c @ [t])"
    "map unstamped (take 1 (chan_queue cr c @ [t])) = map (unstamped \<circ> fst) fs"
    "sched_ready (ks_sched st') = sched_ready (ks_sched st) + mset (map fst (filter snd fs))"
    "chan_queue cr' 1 = chan_queue cr 1 @ take (dead_room cr) (map fst (filter (Not \<circ> snd) fs))"
    "ch_drop_count (chan_at cr' c) = ch_drop_count (chan_at cr c) + of_nat (length (filter (Not \<circ> snd) fs))"
    using d st by auto
  show "chan_inv cr'" "ks_inv st'" "ks_alloc st' = ks_alloc st" by fact+
  obtain x b where x: "fs = [(x, b)]" "unstamped x = unstamped (hd (chan_queue cr c @ [t]))"
    using f(5) by (cases fs; cases "chan_queue cr c") auto
  have "drop 1 (chan_queue cr c @ [t]) = tl (chan_queue cr c @ [t])" by (simp only: drop_Suc One_nat_def drop0)
  with f(4) have "chan_queue cr' c = tl (chan_queue cr c @ [t])" by simp
  then show "buffered_fate cr st c t cr' st'"
    using x f(6-8) p by (cases b) (auto simp: buffered_fate_def simp del: tl_append)
qed

lemma emit_buffered_fate:
  assumes inv: "chan_inv cr" and c: "c < cr_n_channels cr" "c \<noteq> 0" and ks: "ks_inv st"
    and cap: "unat (ch_ring_cap (chan_at cr c)) < 2 ^ 31"
  shows "\<exists>rc cr' st'. emit_buffered cr c (chan_at cr c) t st = Some (rc, cr', st', t)
    \<and> chan_inv cr' \<and> ks_inv st' \<and> ks_alloc st' = ks_alloc st
    \<and> (if length (chan_queue cr c) = unat (ch_ring_cap (chan_at cr c))
       then rc = -2 \<and> cr' = cr \<and> sched_ready (ks_sched st') = sched_ready (ks_sched st)
       else rc = 0 \<and> buffered_fate cr st c t cr' st')"
proof (rule emit_buffered_cases [OF inv c ks cap, of t])
  fix st' assume "emit_buffered cr c (chan_at cr c) t st = Some (-2, cr, st', t)" "obs_step st st'"
    "length (chan_queue cr c) = unat (ch_ring_cap (chan_at cr c))"
  then show ?thesis using inv ks_inv_obs_step [OF ks] by (auto simp: obs_step_def)
next
  fix r st' assume a: "emit_buffered cr c (chan_at cr c) t st = Some (0, counted cr c r, st', t)" "obs_step st st'"
    "mpmc_inv r" "mpmc_contents r = chan_queue cr c @ [t]"
    "mpmc_capacity r = mpmc_capacity (ch_ring (chan_at cr c))"
    "length (chan_queue cr c) < unat (ch_ring_cap (chan_at cr c))"
    "\<not> (ch_mode (chan_at cr c) = GMK_CHAN_P2P \<and> ch_n_subs (chan_at cr c) \<noteq> 0)"
  have "buffered_fate cr st c t (counted cr c r) st'"
    using a(2,4,7) counted_props(3) [OF inv c a(3,5)] by (auto simp: buffered_fate_def obs_step_def)
  then show ?thesis using a(1,2,6) counted_props(1) [OF inv c a(3,5)] ks_inv_obs_step [OF ks]
    by (auto simp: obs_step_def)
next
  fix r st1 k cr' st' assume a: "emit_buffered cr c (chan_at cr c) t st = Some (0, cr', st', t)"
    "mpmc_inv r" "mpmc_contents r = chan_queue cr c @ [t]" "obs_step st st1"
    "mpmc_capacity r = mpmc_capacity (ch_ring (chan_at cr c))"
    "length (chan_queue cr c) < unat (ch_ring_cap (chan_at cr c))"
    "ch_mode (chan_at cr c) = GMK_CHAN_P2P" "ch_n_subs (chan_at cr c) \<noteq> 0"
    "gmk_chan_drain (counted cr c r) c 1 st1 = Some (k, cr', st')"
  have "ks_sched st1 = ks_sched st" "ks_alloc st1 = ks_alloc st" using a(4) by (simp_all add: obs_step_def)
  from drain_one_fate [OF inv c ks_inv_obs_step [OF ks a(4)] cap a(7,8,2,3,5) this a(9)]
  show ?thesis using a(1,6) by auto
qed

text \<open>The fate of a message emitted on channel \<open>c\<close>; \<open>w\<close> is the worker of the first subscriber.\<close>

definition emit_fate ::
  "gmk_chan_reg \<Rightarrow> kstore \<Rightarrow> u32 \<Rightarrow> gmk_task \<Rightarrow> rc \<Rightarrow> gmk_chan_reg \<Rightarrow> kstore \<Rightarrow> gmk_task \<Rightarrow> bool" where
  "emit_fate cr st c t rc cr' st' t' \<longleftrightarrow>
     (if cr_n_channels cr \<le> c then rc = -4 \<and> cr' = cr \<and> st' = st \<and> t' = t
      else if \<not> ch_open (chan_at cr c) then rc = -7 \<and> cr' = cr \<and> st' = st \<and> t' = t
      else unstamped t' = unstamped (emitted c t) \<and>
        (if emit_busy cr c t
         then rc = -2 \<and> cr' = cr \<and> sched_ready (ks_sched st') = sched_ready (ks_sched st)
         else if ch_mode (chan_at cr c) = GMK_CHAN_P2P \<and> ch_n_subs (chan_at cr c) \<noteq> 0
           \<and> sched_takes (ks_sched st) t (cs_worker_id (ch_subs (chan_at cr c) ! 0))
         then rc = 0 \<and> sched_ready (ks_sched st') = add_mset t' (sched_ready (ks_sched st))
           \<and> (\<forall>c'. chan_queue cr' c' = chan_queue cr c')
         else if length (chan_queue cr c) = unat (ch_ring_cap (chan_at cr c))
         then rc = -2 \<and> cr' = cr \<and> sched_ready (ks_sched st') = sched_ready (ks_sched st)
         else rc = 0 \<and> buffered_fate cr st c t' cr' st'))"

lemma sched_takes_emitted [simp]: "sched_takes s (emitted c t) w = sched_takes s t w"
  by (simp add: sched_takes_def)

lemma chan_queue_counted [simp]:
  "c < cr_n_channels cr \<Longrightarrow> chan_inv cr \<Longrightarrow> chan_queue (counted cr c (ch_ring (chan_at cr c))) c' = chan_queue cr c'"
  using chan_inv_entry(2) [of cr c]
  by (cases "unat c' = unat c") (simp_all add: counted_def chan_queue_def del: word_unat_eq_iff)

lemma emit_guard:
  assumes inv: "chan_inv cr" and c: "c < cr_n_channels cr" "c \<noteq> 0"
  shows "gmk_ring_mpmc_count (ch_ring (chan_at cr c)) \<ge> ch_ring_cap (chan_at cr c)
      - (ch_ring_cap (chan_at cr c) * GMK_CHAN_PRIORITY_RESERVE_PCT div 100)
    \<and> GMK_PRIORITY (tk_flags (emitted c t)) \<noteq> GMK_PRIO_CRITICAL \<longleftrightarrow> emit_busy cr c t"
proof -
  have "mpmc_inv (ch_ring (chan_at cr c))"
    using chan_inv_entry(3) [OF inv c(1)] c(2) by (auto simp: chan_ok_def unat_eq_zero)
  from mpmc.count_contents [OF this]
  have "unat (gmk_ring_mpmc_count (ch_ring (chan_at cr c))) = length (chan_queue cr c)"
    by (simp add: chan_queue_def del: length_mpmc_contents)
  moreover have "GMK_PRIORITY (tk_flags (emitted c t)) \<noteq> GMK_PRIO_CRITICAL \<longleftrightarrow> task_prio t \<noteq> 0"
    using emitted_prio [of c t] by (simp add: task_prio_def word_unat_eq_iff)
  ultimately show ?thesis by (simp add: emit_busy_def reserve_threshold_def word_le_nat_alt)
qed

text \<open>Emission on an open channel.\<close>

lemma chan_emit_open:
  assumes inv: "chan_inv cr" and c: "c < cr_n_channels cr" and op: "ch_open (chan_at cr c)"
  defines "w \<equiv> cs_worker_id (ch_subs (chan_at cr c) ! 0)"
  shows "gmk_chan_emit cr c t st =
    (if emit_busy cr c t then emit_full cr c (emitted c t) st
     else if ch_mode (chan_at cr c) = GMK_CHAN_P2P \<and> ch_n_subs (chan_at cr c) \<noteq> 0
     then do { (e, s, t2) \<leftarrow> gmk_enqueue (ks_sched st) (emitted c t) w;
               if e = 0 then do { (cr', st') \<leftarrow> emit_ok cr c t2 (st\<lparr>ks_sched := s\<rparr>); Some (0, cr', st', t2) }
               else emit_buffered cr c (chan_at cr c) t2 (st\<lparr>ks_sched := s\<rparr>) }
     else emit_buffered cr c (chan_at cr c) (emitted c t) st)"
proof -
  note e = chan_inv_entry [OF inv c]
  have c0: "c \<noteq> 0" using e(3) op by (auto simp: chan_ok_def)
  have le: "\<not> cr_n_channels cr \<le> c" using c by (simp add: not_le)
  note g = emit_guard [OF inv c c0, of t]
  show ?thesis
  proof (cases "ch_mode (chan_at cr c) = GMK_CHAN_P2P \<and> ch_n_subs (chan_at cr c) \<noteq> 0")
    case True
    note p = chan_p2p_sub [OF inv c conjunct1 [OF True] conjunct2 [OF True]]
    show ?thesis unfolding gmk_chan_emit_def emitted_def [symmetric] Let_def
      using e(4) op le True p(1-3) g by (cases "emit_busy cr c t") (auto simp: w_def)
  next
    case False
    then have "\<not> (ch_mode (chan_at cr c) = GMK_CHAN_P2P \<and> ch_n_subs (chan_at cr c) = 1)" by auto
    then show ?thesis unfolding gmk_chan_emit_def emitted_def [symmetric] Let_def
      using e(4) op le False g by (cases "emit_busy cr c t") auto
  qed
qed

lemma chan_emit_spec:
  assumes inv: "chan_inv cr" and ks: "ks_inv st"
    and cap: "c < cr_n_channels cr \<Longrightarrow> unat (ch_ring_cap (chan_at cr c)) < 2 ^ 31"
  shows "\<exists>rc cr' st' t'. gmk_chan_emit cr c t st = Some (rc, cr', st', t') \<and> chan_inv cr' \<and> ks_inv st'
    \<and> ks_alloc st' = ks_alloc st \<and> emit_fate cr st c t rc cr' st' t'"
proof (cases "c < cr_n_channels cr \<and> ch_open (chan_at cr c)")
  case False
  then show ?thesis using inv ks chan_inv_entry(4) [OF inv, of c]
    by (cases "c < cr_n_channels cr") (auto simp: gmk_chan_emit_def emit_fate_def dest: leD)
next
  case True
  then have c: "c < cr_n_channels cr" "c \<noteq> 0" and op: "ch_open (chan_at cr c)"
    using chan_inv_entry(3) [OF inv, of c] by (auto simp: chan_ok_def)
  have le: "\<not> cr_n_channels cr \<le> c" using c(1) by (simp add: not_le)
  note eq = chan_emit_open [OF inv c(1) op, of t st] and fate = emit_fate_def [of cr st c t]
  let ?w = "cs_worker_id (ch_subs (chan_at cr c) ! 0)" and ?p = "ch_mode (chan_at cr c) = GMK_CHAN_P2P \<and> ch_n_subs (chan_at cr c) \<noteq> 0"
  consider (busy) "emit_busy cr c t" | (p2p) "\<not> emit_busy cr c t" ?p | (other) "\<not> emit_busy cr c t" "\<not> ?p" by blast
  then show ?thesis
  proof cases
    case busy
    obtain st' where "emit_full cr c (emitted c t) st = Some (-2, cr, st', emitted c t)" "obs_step st st'"
      by (rule emit_full_step [OF ks_invD(1) [OF ks]])
    then show ?thesis using busy eq op le inv ks_inv_obs_step [OF ks] by (auto simp: fate obs_step_def)
  next
    case other
    let ?t = "emitted c t" and ?full = "length (chan_queue cr c) = unat (ch_ring_cap (chan_at cr c))"
    obtain rc cr' st' where b: "emit_buffered cr c (chan_at cr c) ?t st = Some (rc, cr', st', ?t)" "chan_inv cr'"
      "ks_inv st'" "ks_alloc st' = ks_alloc st"
      "if ?full then rc = -2 \<and> cr' = cr \<and> sched_ready (ks_sched st') = sched_ready (ks_sched st)
       else rc = 0 \<and> buffered_fate cr st c ?t cr' st'"
      using emit_buffered_fate [OF inv c ks cap [OF c(1)], of ?t] by auto
    have "emit_fate cr st c t rc cr' st' ?t" unfolding fate using b(5) other op le by auto
    then show ?thesis using b eq other by (intro exI [of _ rc]) auto
  next
    case p2p
    note p = chan_p2p_sub [OF inv c(1) conjunct1 [OF p2p(2)] conjunct2 [OF p2p(2)]]
    show ?thesis
    proof (rule enqueue_takes [OF ks_invD(2) [OF ks] p(4), of "emitted c t"])
      let ?t = "(emitted c t)\<lparr>tk_seq := sd_next_seq (ks_sched st)\<rparr>"
      fix s' assume s: "sched_takes (ks_sched st) (emitted c t) ?w" "gmk_enqueue (ks_sched st) (emitted c t) ?w = Some (0, s', ?t)"
        "sched_inv s'" "sched_ready s' = add_mset ?t (sched_ready (ks_sched st))"
      have ob: "obs_inv (st\<lparr>ks_sched := s'\<rparr>)" using ks_invD(1) [OF ks_inv_update(2) [OF ks s(3)]] .
      obtain st' where o: "emit_ok cr c ?t (st\<lparr>ks_sched := s'\<rparr>) = Some (counted cr c (ch_ring (chan_at cr c)), st')"
        "obs_step (st\<lparr>ks_sched := s'\<rparr>) st'" by (rule emit_ok_step [OF inv c(1) ob])
      have "mpmc_inv (ch_ring (chan_at cr c))"
        using chan_inv_entry(3) [OF inv c(1)] c(2) by (auto simp: chan_ok_def unat_eq_zero)
      then show ?thesis using s o eq op le p2p inv c counted_props(1) [OF inv c]
          ks_inv_obs_step [OF ks_inv_update(2) [OF ks s(3)] o(2)]
        by (auto simp: fate obs_step_def)
    next
      let ?t = "(emitted c t)\<lparr>tk_seq := sd_next_seq (ks_sched st)\<rparr>"
      fix s' assume s: "\<not> sched_takes (ks_sched st) (emitted c t) ?w" "gmk_enqueue (ks_sched st) (emitted c t) ?w = Some (-1, s', ?t)"
        "sched_inv s'" "sched_ready s' = sched_ready (ks_sched st)"
      have "buffered_fate cr (st\<lparr>ks_sched := s'\<rparr>) c ?t = buffered_fate cr st c ?t"
        by (intro ext) (simp add: buffered_fate_def s(4))
      with emit_buffered_fate [OF inv c ks_inv_update(2) [OF ks s(3)] cap [OF c(1)], of ?t]
      obtain rc cr' st' where b: "emit_buffered cr c (chan_at cr c) ?t (st\<lparr>ks_sched := s'\<rparr>) = Some (rc, cr', st', ?t)"
        "chan_inv cr'" "ks_inv st'" "ks_alloc st' = ks_alloc st"
        "if length (chan_queue cr c) = unat (ch_ring_cap (chan_at cr c))
         then rc = -2 \<and> cr' = cr \<and> sched_ready (ks_sched st') = sched_ready (ks_sched st)
         else rc = 0 \<and> buffered_fate cr st c ?t cr' st'"
        using s(4) by (auto split: if_splits)
      have "emit_fate cr st c t rc cr' st' ?t" unfolding fate using b(5) p2p s(1) op le by auto
      then show ?thesis using b eq p2p s(2) by (intro exI [of _ rc]) auto
    qed
  qed
qed

end
