(* ===== verification/Sample_Channels.thy ===== *)
theory Sample_Channels
  imports Sample_States Chan_Emit
begin

text \<open>
  Concrete channel registries and stores: a registry with one bound point-to-point channel and one
  fan-out channel with two subscribers, each of which buffers the message \<open>t\<close>.
\<close>

definition sample_one :: "gmk_task \<Rightarrow> gmk_task gmk_ring_mpmc" where
  "sample_one t = snd (the (gmk_ring_mpmc_push (sample_mpmc zero_task) t))"

definition sample_sub :: "int \<Rightarrow> gmk_chan_sub" where
  "sample_sub w = \<lparr>cs_module_id = 1, cs_worker_id = w, cs_active = True\<rparr>"

definition sample_chan :: "u32 \<Rightarrow> gmk_task gmk_ring_mpmc \<Rightarrow> gmk_chan_sub list \<Rightarrow> gmk_chan_entry" where
  "sample_chan mode r subs = zero_chan\<lparr>ch_mode := mode, ch_guarantee := GMK_CHAN_LOSSY, ch_ring := r,
     ch_ring_cap := 2, ch_open := True, ch_n_subs := of_nat (length subs),
     ch_subs := subs @ replicate (32 - length subs) zero_sub\<rparr>"

definition sample_reg :: "gmk_task \<Rightarrow> gmk_chan_reg" where
  "sample_reg t = \<lparr>cr_channels = zero_chan # sample_chan GMK_CHAN_FANOUT (sample_mpmc zero_task) []
       # sample_chan GMK_CHAN_P2P (sample_one t) [sample_sub 0]
       # sample_chan GMK_CHAN_FANOUT (sample_one t) [sample_sub 0, sample_sub (-1)] # replicate 252 zero_chan,
     cr_n_channels = 4, cr_alloc = True, cr_trace = True, cr_metrics = True\<rparr>"

definition sample_trace :: gmk_trace where
  "sample_trace = (zero_trace (\<lambda>n. of_nat n))\<lparr>tr_rings := replicate 16 (sample_spsc zero_trace_ev),
     tr_n_tenants := 1, tr_level := GMK_TRACE_ALL, tr_sample_threshold := -1\<rparr>"

definition sample_metrics :: gmk_metrics where
  "sample_metrics = zero_metrics\<lparr>mt_n_tenants := 1\<rparr>"

definition sample_store :: "gmk_alloc_t \<Rightarrow> kstore" where
  "sample_store a = \<lparr>ks_sched = sample_sched, ks_alloc = a, ks_trace = sample_trace, ks_metrics = sample_metrics\<rparr>"

lemma sample_one_inv: "mpmc_inv (sample_one t)" "mpmc_contents (sample_one t) = [t]" "mp_cap (sample_one t) = 2"
proof -
  obtain r where r: "gmk_ring_mpmc_push (sample_mpmc zero_task) t = Some (0, r)" "mpmc_inv r"
    "mpmc_contents r = [t]" "mpmc_capacity r = 2"
    by (rule mpmc.push_cases [OF sample_mpmc_inv(1) [of zero_task], of t])
      (auto simp: sample_mpmc_inv simp del: length_mpmc_contents)
  then show "mpmc_inv (sample_one t)" "mpmc_contents (sample_one t) = [t]"
    by (simp_all add: sample_one_def)
  have "unat (mp_cap (sample_one t)) = unat (2 :: u32)" using r by (simp add: sample_one_def mpmc_capacity_def)
  then show "mp_cap (sample_one t) = 2" by (simp only: word_unat_eq_iff)
qed

lemma sample_reg_at [simp]:
  "cr_n_channels (sample_reg t) = 4" "cr_alloc (sample_reg t)" "cr_trace (sample_reg t)" "cr_metrics (sample_reg t)"
  "cr_channels (sample_reg t) ! 1 = sample_chan GMK_CHAN_FANOUT (sample_mpmc zero_task) []"
  "cr_channels (sample_reg t) ! 2 = sample_chan GMK_CHAN_P2P (sample_one t) [sample_sub 0]"
  "cr_channels (sample_reg t) ! 3 = sample_chan GMK_CHAN_FANOUT (sample_one t) [sample_sub 0, sample_sub (-1)]"
  by (simp_all add: sample_reg_def numeral_eq_Suc)

lemma sample_chan_sel [simp]:
  "ch_mode (sample_chan m r ss) = m" "ch_guarantee (sample_chan m r ss) = GMK_CHAN_LOSSY"
  "ch_ring (sample_chan m r ss) = r" "ch_ring_cap (sample_chan m r ss) = 2" "ch_open (sample_chan m r ss)"
  "ch_n_subs (sample_chan m r ss) = of_nat (length ss)"
  "ch_subs (sample_chan m r ss) = ss @ replicate (32 - length ss) zero_sub"
  "ch_drop_count (sample_chan m r ss) = 0" "ch_emit_count (sample_chan m r ss) = 0"
  "ch_name (sample_chan m r ss) = replicate 64 (CHR 0x00)"
  by (simp_all add: sample_chan_def zero_chan_def)

lemma zero_chan_ok: "chan_ok False i zero_chan" if "i \<noteq> 1"
  using that by (simp add: chan_ok_def zero_chan_def)

lemma sample_chan_ok:
  assumes "mpmc_inv r" "mp_cap r = 2" "length ss \<le> 2" "m = GMK_CHAN_P2P \<longrightarrow> length ss \<le> 1"
    "\<forall>s \<in> set ss. cs_active s \<and> cs_worker_id s < 2 ^ 31" "i \<noteq> 0" "i = 1 \<longrightarrow> m = GMK_CHAN_FANOUT"
  shows "chan_ok True i (sample_chan m r ss)"
proof -
  have "unat (of_nat (length ss) :: u32) = length ss" using assms(3) by (intro unat_of_nat_lt) simp
  moreover have "cs_active ((ss @ zs) ! j) \<and> cs_worker_id ((ss @ zs) ! j) < 2 ^ 31" if "j < length ss" for j zs
    using that assms(5) by (simp add: nth_append)
  ultimately show ?thesis using assms(1-4,6,7) by (simp add: chan_ok_def)
qed

lemma sample_reg_inv: "chan_inv (sample_reg t)"
proof -
  have "chan_ok (i < 4) i (cr_channels (sample_reg t) ! i)" if "i < 256" for i
  proof -
    have "i = 0 \<or> i = 1 \<or> i = 2 \<or> i = 3 \<or> i = Suc (Suc (Suc (Suc (i - 4)))) \<and> i - 4 < 252"
      using that by linarith
    then consider "i = 0" | "i = 1" | "i = 2" | "i = 3" | j where "i = Suc (Suc (Suc (Suc j)))" "j < 252" by metis
    then show ?thesis
    proof cases
      case 1
      then show ?thesis by (simp add: sample_reg_def chan_ok_def zero_chan_def)
    next
      case (5 j)
      then show ?thesis using zero_chan_ok [of i] by (simp add: sample_reg_def)
    qed (auto intro!: sample_chan_ok simp: sample_mpmc_inv sample_one_inv sample_sub_def simp flip: One_nat_def,
      simp add: sample_mpmc_def)
  qed
  then show ?thesis by (simp add: chan_inv_def sample_reg_def)
qed

lemma sample_reg_queue: "chan_queue (sample_reg t) 1 = []" "chan_queue (sample_reg t) 2 = [t]"
  "chan_queue (sample_reg t) 3 = [t]"
  using sample_mpmc_inv(2) [of zero_task] sample_one_inv(2) [of t]
  by (simp_all add: chan_queue_def del: One_nat_def)

lemma sample_store_sel [simp]: "ks_sched (sample_store a) = sample_sched" "ks_alloc (sample_store a) = a"
  by (simp_all add: sample_store_def)

lemma sample_store_inv: "ks_inv (sample_store a)" "obs_inv (sample_store a)"
proof -
  have "trace_inv sample_trace" using sample_spsc_inv(1) [of zero_trace_ev]
    by (simp add: trace_inv_def sample_trace_def)
  moreover have "metrics_inv sample_metrics" by (simp add: metrics_inv_def sample_metrics_def zero_metrics_def)
  ultimately show "obs_inv (sample_store a)" by (simp add: obs_inv_def sample_store_def)
  then show "ks_inv (sample_store a)" using sample_sched_inv by (simp add: ks_inv_def)
qed

text \<open>A C library from which the three rings of the registry have been allocated.\<close>

definition sample_reg_hal :: hal where
  "sample_reg_hal = sample_hal\<lparr>hal_live := [(4096, 128), (4096, 128), (4096, 128)]\<rparr>"

lemma sample_reg_owns: "hal_owns sample_hal (chan_blocks (sample_reg t)) sample_reg_hal"
proof -
  have u: "[1..<unat (4 :: u32)] = [1, 2, 3]" by (simp add: upt_rec)
  have "gmk_ring_mpmc_push (sample_mpmc zero_task) t = Some (fst (the (gmk_ring_mpmc_push (sample_mpmc zero_task) t)), sample_one t)"
    by (rule mpmc.push_cases [OF sample_mpmc_inv(1) [of zero_task], of t]) (simp_all add: sample_one_def)
  from mpmc_push_ptr [OF this] have "mp_ptr (sample_one t) = 4096" by (simp add: sample_mpmc_def)
  then have "chan_blocks (sample_reg t) = {#4096, 4096, 4096#}"
    unfolding chan_blocks_def sample_reg_at u by (simp add: sample_mpmc_def del: One_nat_def)
  then show ?thesis by (simp add: hal_owns_def hal_blocks_def sample_reg_hal_def sample_hal_def)
qed

end
