(* ===== verification/Chan_Properties.thy ===== *)
theory Chan_Properties
  imports Sample_Channels
begin

text \<open>
  The properties of the channels: the fate of an emitted message, the delivery of buffered messages
  to one or to all subscribers, the names, the subscribers and the memory of the registry.
\<close>

section \<open>Messages\<close>



section \<open>Delivery\<close>

text \<open>C16: Draining a point-to-point channel.  \<open>gmk_chan_drain\<close> takes the oldest messages of the buffer,
  at most \<open>limit\<close> of them (all of them for limit 0), and leaves the others in order.  Every message
  taken goes to exactly one place: to the scheduler, or to the dead-letter channel as long as that
  has room, and the drop counter counts exactly the latter.\<close>

theorem chan_drain_p2p_conserves:
  fixes limit :: u32
  assumes "chan_inv cr" "c < cr_n_channels cr" "ch_mode (chan_at cr c) = GMK_CHAN_P2P"
    "ch_n_subs (chan_at cr c) \<noteq> 0" "ks_inv st" "unat (ch_ring_cap (chan_at cr c)) < 2 ^ 31"
    "m = min (unat (drain_limit limit)) (length (chan_queue cr c))"
  shows "\<exists>cr' st' fs. gmk_chan_drain cr c limit st = Some (int m, cr', st') \<and> chan_inv cr' \<and> ks_inv st'
    \<and> chan_queue cr' c = drop m (chan_queue cr c)
    \<and> map unstamped (take m (chan_queue cr c)) = map (unstamped \<circ> fst) fs
    \<and> sched_ready (ks_sched st') = sched_ready (ks_sched st) + mset (map fst (filter snd fs))
    \<and> chan_queue cr' 1 = chan_queue cr 1 @ take (dead_room cr) (map fst (filter (Not \<circ> snd) fs))
    \<and> ch_drop_count (chan_at cr' c) = ch_drop_count (chan_at cr c) + of_nat (length (filter (Not \<circ> snd) fs))"
  using chan_drain_p2p [OF assms(1-6), of limit] unfolding assms(7) by blast

theorem chan_drain_p2p_conserves_witness:
  "\<exists>cr' st' x b. gmk_chan_drain (sample_reg zero_task) 2 0 (sample_store sample_alloc) = Some (1, cr', st')
    \<and> chan_queue cr' 2 = [] \<and> unstamped x = zero_task
    \<and> sched_ready (ks_sched st') + mset (chan_queue cr' 1) = add_mset x (sched_ready sample_sched)
    \<and> ch_drop_count (chan_at cr' 2) = (if b then 0 else 1)"
proof -
  let ?cr = "sample_reg zero_task" and ?st = "sample_store sample_alloc"
  have m: "1 = min (unat (drain_limit 0)) (length (chan_queue ?cr 2))"
    by (simp add: sample_reg_queue drain_limit_def unsigned_minus_1_eq_mask mask_eq_exp_minus_1)
  have room: "dead_room ?cr = 2" using sample_reg_queue(1) sample_mpmc_inv(3) [of zero_task]
    by (simp add: dead_room_def del: One_nat_def length_mpmc_contents)
  obtain cr' st' fs where d: "gmk_chan_drain ?cr 2 0 ?st = Some (int 1, cr', st')"
    "chan_queue cr' 2 = drop 1 (chan_queue ?cr 2)"
    "map unstamped (take 1 (chan_queue ?cr 2)) = map (unstamped \<circ> fst) fs"
    "sched_ready (ks_sched st') = sched_ready (ks_sched ?st) + mset (map fst (filter snd fs))"
    "chan_queue cr' 1 = chan_queue ?cr 1 @ take (dead_room ?cr) (map fst (filter (Not \<circ> snd) fs))"
    "ch_drop_count (chan_at cr' 2) = ch_drop_count (chan_at ?cr 2) + of_nat (length (filter (Not \<circ> snd) fs))"
    using chan_drain_p2p_conserves [OF sample_reg_inv _ _ _ sample_store_inv(1) _ m, of sample_alloc] by auto
  note d = d [unfolded sample_reg_queue room]
  obtain x b where "fs = [(x, b)]" "unstamped x = unstamped zero_task" using d(3) by (cases fs) auto
  moreover have "unstamped zero_task = zero_task" by (simp add: unstamped_def zero_task_def)
  ultimately show ?thesis using d by (intro exI [of _ cr'] exI [of _ st'] exI [of _ x] exI [of _ b]) auto
qed



section \<open>Names, subscribers and memory\<close>

text \<open>Opening a channel.  \<open>gmk_chan_open\<close> returns the index of a new, empty channel; a name of fewer
  than 64 characters is then found there.  It fails when the registry is full (-2), when an open
  channel has the name (-6) or when there is no memory (-1), and then no channel is added.  The
  blocks that the C library has handed out are accounted for in every case.\<close>

theorem chan_open_find:
  assumes "chan_inv cr" "c_name name" "slots \<noteq> 1" "obs_inv st" "hal_owns h0 (chan_blocks cr + P) h"
  shows "\<exists>rc cr' st' h'. gmk_chan_open cr name mode g ty slots st h = Some (rc, cr', st', h')
    \<and> chan_inv cr' \<and> hal_owns h0 (chan_blocks cr' + P) h' \<and> obs_inv st'
    \<and> (if rc < 0
       then cr_n_channels cr' = cr_n_channels cr
         \<and> (rc = -2 \<and> cr_n_channels cr = 256 \<or> rc = -6 \<and> (\<exists>i. chan_named cr i name) \<or> rc = -1)
       else rc = int (unat (cr_n_channels cr)) \<and> cr_n_channels cr' = cr_n_channels cr + 1
         \<and> chan_queue cr' (cr_n_channels cr) = []
         \<and> ch_mode (chan_at cr' (cr_n_channels cr)) = mode
         \<and> (length name < 64 \<longrightarrow> gmk_chan_find cr' name = Some rc))"
proof (rule chan_open_cases [OF assms, of mode g ty])
  fix r st' h' cr' assume n: "cr_n_channels cr < 256" and new: "\<And>i. \<not> chan_named cr i name"
    and o: "gmk_chan_open cr name mode g ty slots st h = Some (int (unat (cr_n_channels cr)), cr', st', h')"
      "chan_inv cr'" "cr_n_channels cr' = cr_n_channels cr + 1"
      "cr_channels cr' = (cr_channels cr)[unat (cr_n_channels cr) :=
         (opened name (cr_n_channels cr) mode g ty slots (chan_at cr (cr_n_channels cr)))\<lparr>ch_ring := r\<rparr>]"
      "mpmc_contents r = []" "obs_step st st'" "hal_owns h0 (chan_blocks cr' + P) h'"
  have len: "unat (cr_n_channels cr) < length (cr_channels cr)"
    using assms(1) n by (simp add: chan_inv_def word_less_nat_alt)
  have s: "unat (cr_n_channels cr') = Suc (unat (cr_n_channels cr))"
    using o(3) n by (simp add: unat_word_ariths word_less_nat_alt)
  have "length name < 64 \<longrightarrow> gmk_chan_find cr' name = Some (int (unat (cr_n_channels cr)))"
    by (intro impI chan_find_opened [OF o(2) n s o(4) len _ _ new]) (simp_all add: opened_def)
  then show ?thesis using o len by (intro exI [of _ "int (unat (cr_n_channels cr))"])
    (auto simp: chan_queue_def opened_def obs_step_def)
qed (use assms in auto)

theorem chan_open_find_witness:
  "\<exists>rc cr' st' h'. gmk_chan_open (sample_reg zero_task) ''log'' GMK_CHAN_P2P GMK_CHAN_LOSSY 7 16 (sample_store sample_alloc)
      sample_reg_hal = Some (rc, cr', st', h')
    \<and> (rc < 0 \<longrightarrow> rc = -1 \<or> rc = -6 \<and> (\<exists>i. chan_named (sample_reg zero_task) i ''log''))
    \<and> (0 \<le> rc \<longrightarrow> rc = 4 \<and> gmk_chan_find cr' ''log'' = Some 4)"
proof -
  have "c_name ''log''" "(16 :: u32) \<noteq> 1" by (simp_all add: c_name_def)
  moreover have "hal_owns sample_hal (chan_blocks (sample_reg zero_task) + {#}) sample_reg_hal"
    using sample_reg_owns by simp
  ultimately obtain rc cr' st' h' where "gmk_chan_open (sample_reg zero_task) ''log'' GMK_CHAN_P2P GMK_CHAN_LOSSY 7 16
      (sample_store sample_alloc) sample_reg_hal = Some (rc, cr', st', h')"
    "if rc < 0
       then cr_n_channels cr' = 4
         \<and> (rc = -2 \<and> (4 :: u32) = 256 \<or> rc = -6 \<and> (\<exists>i. chan_named (sample_reg zero_task) i ''log'') \<or> rc = -1)
       else rc = int (unat (4 :: u32)) \<and> (length ''log'' < 64 \<longrightarrow> gmk_chan_find cr' ''log'' = Some rc)"
    using chan_open_find [OF sample_reg_inv _ _ sample_store_inv(2), of "''log''" 16 sample_hal zero_task "{#}" sample_reg_hal
      GMK_CHAN_P2P GMK_CHAN_LOSSY 7 sample_alloc] by (fastforce split: if_splits)
  then show ?thesis by (intro exI [of _ rc] exI [of _ cr'] exI [of _ st'] exI [of _ h']) (auto split: if_splits)
qed

text \<open>A name of 64 characters or more is never found, whatever channels are open: the name stored in
  an entry is cut to 63 characters, the comparison looks at 64.  A second \<open>gmk_chan_open\<close> of such a
  name does not report the first one.\<close>

theorem chan_long_name_unknown:
  assumes "chan_inv cr" "c_name name" "64 \<le> length name" "cr_n_channels cr < 256"
  shows "gmk_chan_find cr name = Some (-1) \<and> (\<forall>cr' st' h'.
    gmk_chan_open cr name mode g ty slots st h \<noteq> Some (GMK_FAIL GMK_ERR_EXISTS, cr', st', h'))"
proof -
  have none: "\<not> chan_named cr i name" for i
  proof (cases "i < unat (cr_n_channels cr)")
    case True
    then have "ch_name (cr_channels cr ! i) ! 63 = CHR 0x00" using assms(1) by (auto simp: chan_inv_def chan_ok_def)
    from terminated_not_long [OF assms(2,3) this] show ?thesis by (simp add: chan_named_def)
  qed (simp add: chan_named_def)
  have uint_not6: "uint (cr_n_channels cr) \<noteq> -6" by (metis uint_ge_0 neg_0_le_iff_le not_numeral_le_zero)
  have "gmk_chan_find cr name = Some (-1)" by (rule chan_find_cases [OF assms(1), of name]) (use none in auto)
  moreover have "gmk_chan_open cr name mode g ty slots st h \<noteq> Some (GMK_FAIL GMK_ERR_EXISTS, cr', st', h')" for cr' st' h'
    unfolding chan_open_eq [OF assms(1,2,4) none] using uint_not6
    by (auto simp: Let_def bind_eq_Some_conv split: prod.splits if_splits)
  ultimately show ?thesis by simp
qed

theorem chan_long_name_unknown_witness:
  "gmk_chan_find (sample_reg zero_task) (replicate 64 (CHR ''a'')) = Some (-1)"
  using chan_long_name_unknown [OF sample_reg_inv, of "replicate 64 (CHR ''a'')" zero_task] by (simp add: c_name_def)

text \<open>Subscribing.  \<open>gmk_chan_sub\<close> refuses a missing channel (-4), a closed one (-7), a second
  subscriber of a point-to-point channel (-12) and a 33rd subscriber (-2), and changes nothing then;
  otherwise the subscriber is appended to the subscribers and nothing else changes.\<close>

theorem chan_sub_outcome:
  assumes "chan_inv cr" "w < 2 ^ 31"
  shows "\<exists>rc cr'. gmk_chan_sub_op cr c m w = Some (rc, cr') \<and> chan_inv cr'
    \<and> (if cr_n_channels cr \<le> c then rc = -4 \<and> cr' = cr
       else if \<not> ch_open (chan_at cr c) then rc = -7 \<and> cr' = cr
       else if ch_mode (chan_at cr c) = GMK_CHAN_P2P \<and> chan_snapshot cr c \<noteq> [] then rc = -12 \<and> cr' = cr
       else if length (chan_snapshot cr c) = 32 then rc = -2 \<and> cr' = cr
       else rc = 0 \<and> chan_snapshot cr' c = chan_snapshot cr c @
              [\<lparr>cs_module_id = m, cs_worker_id = w, cs_active = True\<rparr>]
            \<and> (\<forall>i. i \<noteq> unat c \<longrightarrow> cr_channels cr' ! i = cr_channels cr ! i)
            \<and> chan_queue cr' c = chan_queue cr c)"
proof (rule chan_sub_cases [OF assms, of c m])
  assume "cr_n_channels cr \<le> c" "gmk_chan_sub_op cr c m w = Some (-4, cr)"
  then show ?thesis using assms by simp
next
  assume a: "c < cr_n_channels cr" "\<not> ch_open (chan_at cr c)" "gmk_chan_sub_op cr c m w = Some (-7, cr)"
  then show ?thesis using assms by (auto simp: not_le)
next
  assume a: "c < cr_n_channels cr" "ch_open (chan_at cr c)" "ch_mode (chan_at cr c) = GMK_CHAN_P2P"
    "unat (ch_n_subs (chan_at cr c)) = 1" "gmk_chan_sub_op cr c m w = Some (-12, cr)"
  have "length (chan_snapshot cr c) = 1" using a(4) chan_snapshot_length [OF assms(1) a(1)] by simp
  then have "chan_snapshot cr c \<noteq> []" by auto
  then show ?thesis using a assms by (auto simp: not_le)
next
  assume a: "c < cr_n_channels cr" "ch_open (chan_at cr c)" "unat (ch_n_subs (chan_at cr c)) = 32"
    "gmk_chan_sub_op cr c m w = Some (-2, cr)"
  have "ch_mode (chan_at cr c) \<noteq> GMK_CHAN_P2P"
    using a(3) chan_inv_entry(3) [OF assms(1) a(1)] by (auto simp: chan_ok_def)
  then show ?thesis using a assms chan_snapshot_length [OF assms(1) a(1)] by (auto simp: not_le)
next
  fix ch' assume a: "c < cr_n_channels cr" "ch_open (chan_at cr c)"
    "ch_mode (chan_at cr c) = GMK_CHAN_P2P \<longrightarrow> ch_n_subs (chan_at cr c) = 0"
    "gmk_chan_sub_op cr c m w = Some (0, cr\<lparr>cr_channels := (cr_channels cr)[unat c := ch']\<rparr>)"
    "chan_inv (cr\<lparr>cr_channels := (cr_channels cr)[unat c := ch']\<rparr>)"
    "unat (ch_n_subs ch') = Suc (unat (ch_n_subs (chan_at cr c)))"
    "take (unat (ch_n_subs ch')) (ch_subs ch') = take (unat (ch_n_subs (chan_at cr c))) (ch_subs (chan_at cr c))
       @ [\<lparr>cs_module_id = m, cs_worker_id = w, cs_active = True\<rparr>]"
    "ch_ring ch' = ch_ring (chan_at cr c)"
  let ?cr = "cr\<lparr>cr_channels := (cr_channels cr)[unat c := ch']\<rparr>"
  have l: "unat c < length (cr_channels cr)" by (rule chan_inv_entry(2) [OF assms(1) a(1)])
  have "unat (ch_n_subs ch') \<le> 32" using chan_inv_entry(3) [OF a(5), of c] a(1) l by (simp add: chan_ok_def)
  then have n: "length (chan_snapshot cr c) < 32" using a(6) chan_snapshot_length [OF assms(1) a(1)] by simp
  have p: "\<not> (ch_mode (chan_at cr c) = GMK_CHAN_P2P \<and> chan_snapshot cr c \<noteq> [])"
    using a(3) by (auto simp: chan_snapshot_def)
  have "chan_snapshot ?cr c = chan_snapshot cr c @ [\<lparr>cs_module_id = m, cs_worker_id = w, cs_active = True\<rparr>]"
    using a(7) l by (simp add: chan_snapshot_def)
  moreover have "chan_queue ?cr c = chan_queue cr c" using a(8) l by (simp add: chan_queue_def)
  ultimately show ?thesis using a(1,2,4,5) n p by (auto simp: not_le)
qed

theorem chan_sub_outcome_witness:
  "gmk_chan_sub_op (sample_reg zero_task) 2 9 0 = Some (-12, sample_reg zero_task)
   \<and> (\<exists>cr'. gmk_chan_sub_op (sample_reg zero_task) 3 9 0 = Some (0, cr') \<and> length (chan_snapshot cr' 3) = 3)"
proof -
  have s: "chan_snapshot (sample_reg zero_task) 2 = [sample_sub 0]"
    "chan_snapshot (sample_reg zero_task) 3 = [sample_sub 0, sample_sub (-1)]" by (simp_all add: chan_snapshot_def)
  show ?thesis
    using chan_sub_outcome [OF sample_reg_inv, of 0 zero_task 2 9] chan_sub_outcome [OF sample_reg_inv, of 0 zero_task 3 9] s
    by auto
qed

text \<open>A sequence of requests to open channels; a request that fails is skipped.\<close>

fun chan_open_all ::
  "(string \<times> u32 \<times> u32 \<times> u32 \<times> u32) list \<Rightarrow> gmk_chan_reg \<Rightarrow> kstore \<Rightarrow> hal \<Rightarrow> (gmk_chan_reg \<times> kstore \<times> hal) exec" where
  "chan_open_all [] cr st h = Some (cr, st, h)"
| "chan_open_all ((name, mode, g, ty, slots) # rs) cr st h =
     do { (_, cr', st', h') \<leftarrow> gmk_chan_open cr name mode g ty slots st h; chan_open_all rs cr' st' h' }"

lemma chan_open_keeps:
  assumes "chan_inv cr" "c_name name" "slots \<noteq> 1" "obs_inv st" "hal_owns h0 (chan_blocks cr + P) h"
  shows "\<exists>rc cr' st' h'. gmk_chan_open cr name mode g ty slots st h = Some (rc, cr', st', h')
    \<and> chan_inv cr' \<and> obs_inv st' \<and> hal_owns h0 (chan_blocks cr' + P) h'"
  by (rule chan_open_cases [OF assms, of mode g ty]) (use assms in \<open>auto dest: obs_step_inv\<close>)

lemma chan_open_all_owns:
  "chan_inv cr \<Longrightarrow> obs_inv st \<Longrightarrow> hal_owns h0 (chan_blocks cr) h \<Longrightarrow>
   \<forall>(name, _, _, _, slots) \<in> set rs. c_name name \<and> slots \<noteq> 1 \<Longrightarrow>
   \<exists>cr' st' h'. chan_open_all rs cr st h = Some (cr', st', h') \<and> chan_inv cr' \<and> obs_inv st'
     \<and> hal_owns h0 (chan_blocks cr') h'"
proof (induction rs arbitrary: cr st h)
  case (Cons r rs)
  obtain name mode g ty slots where r: "r = (name, mode, g, ty, slots)" by (cases r) auto
  have "c_name name" "slots \<noteq> 1" "hal_owns h0 (chan_blocks cr + {#}) h" using Cons.prems r by auto
  from chan_open_keeps [OF Cons.prems(1) this(1,2) Cons.prems(2) this(3), of mode g ty]
  obtain rc cr' st' h' where "gmk_chan_open cr name mode g ty slots st h = Some (rc, cr', st', h')" "chan_inv cr'"
    "obs_inv st'" "hal_owns h0 (chan_blocks cr') h'" by auto
  then show ?case using Cons.IH [of cr' st' h'] Cons.prems(4) r by auto
qed auto

text \<open>The registry leaks nothing.  After \<open>gmk_chan_reg_init\<close> has succeeded, any sequence of requests
  to open channels, successful or not, followed by \<open>gmk_chan_reg_destroy\<close> returns every block to the
  C library; after a failed initialisation nothing is left either.\<close>

theorem chan_registry_leak_free:
  assumes "obs_inv st" "\<forall>(name, _, _, _, slots) \<in> set rs. c_name name \<and> slots \<noteq> 1"
    "gmk_chan_reg_init a t m h = (rc, cr, h1)"
  shows "if rc \<noteq> 0 then hal_blocks h1 = hal_blocks h
    else \<exists>cr2 st2 h2 cr3 h3. chan_open_all rs cr st h1 = Some (cr2, st2, h2)
      \<and> gmk_chan_reg_destroy cr2 h2 = Some (cr3, h3) \<and> hal_blocks h3 = hal_blocks h"
proof (rule chan_reg_init_cases [OF hal_owns_refl, of a t m h])
  fix cr' h' assume i: "gmk_chan_reg_init a t m h = (0, cr', h')" "chan_inv cr'" "hal_owns h (chan_blocks cr' + {#}) h'"
  then have e: "rc = 0" "cr' = cr" "h' = h1" using assms(3) by simp_all
  obtain cr2 st2 h2 where o: "chan_open_all rs cr st h1 = Some (cr2, st2, h2)" "chan_inv cr2"
    "hal_owns h (chan_blocks cr2 + {#}) h2"
    using chan_open_all_owns [OF _ assms(1) _ assms(2), of cr h h1] i e by auto
  from chan_reg_destroy_frees [OF o(2,3)] show ?thesis using o(1) e by (auto simp: hal_owns_empty)
qed (use assms(3) in \<open>auto simp: hal_owns_empty\<close>)

theorem chan_registry_leak_free_witness:
  "\<exists>rc cr h1. gmk_chan_reg_init True True True sample_hal = (rc, cr, h1)
    \<and> (if rc \<noteq> 0 then hal_blocks h1 = {#}
       else \<exists>cr2 st2 h2 cr3 h3. chan_open_all [(''log'', 1, 0, 7, 16), (''log'', 2, 0, 7, 0)] cr (sample_store sample_alloc) h1
          = Some (cr2, st2, h2) \<and> gmk_chan_reg_destroy cr2 h2 = Some (cr3, h3) \<and> hal_blocks h3 = {#})"
proof -
  obtain rc cr h1 where i: "gmk_chan_reg_init True True True sample_hal = (rc, cr, h1)" by (metis prod_cases3)
  moreover have "hal_blocks sample_hal = {#}" by (simp add: hal_blocks_def sample_hal_def)
  ultimately show ?thesis
    using chan_registry_leak_free [OF sample_store_inv(2) _ i, of "[(''log'', 1, 0, 7, 16), (''log'', 2, 0, 7, 0)]" sample_alloc]
    by (auto simp: c_name_def simp del: chan_open_all.simps split: if_splits)
qed

end
