(* ===== verification/Kernel_State.thy ===== *)
theory Kernel_State
  imports Chan
begin

text \<open>
  The state of a kernel, \<open>struct gmk_kernel\<close> of \<open>include/ggmk/boot.h\<close>, with the module registry of
  \<open>include/ggmk/module.h\<close> and the worker pool of \<open>include/ggmk/worker.h\<close>.  The C library's heap
  is the field \<open>kn_hal\<close>, and \<open>kn_signals\<close> lists the workers whose condition variable has been
  signalled, the latest first.

  A handler or a module callback is an address.  What the code behind an address does is the
  parameter \<open>run\<close> of type \<open>callbacks\<close> of the definitions that call it: it gets the context and
  the kernel and yields the return code, the context and the kernel that it leaves behind, or
  \<open>None\<close> when it does not return.
\<close>

record gmk_module_reg =
  mr_dispatch :: "addr list"
  mr_handler_names :: "string list"
  mr_max_yields :: "u32 list"
  mr_fail_counts :: "u32 list"
  mr_poisoned :: "bool list"
  mr_modules :: "gmk_module option list"
  mr_n_modules :: u32
  mr_n_handlers :: u32
  mr_trace :: bool

record gmk_worker =
  wk_id :: u32
  wk_trace :: bool
  wk_metrics :: bool
  wk_running :: bool
  wk_parked :: bool
  wk_tasks_dispatched :: u64
  wk_tick :: u32

record gmk_worker_pool =
  pl_ptr :: addr
  pl_workers :: "gmk_worker list"
  pl_n_workers :: u32

record gmk_boot_cfg =
  cf_arena_size :: u64
  cf_n_workers :: u32
  cf_n_tenants :: u32

record gmk_kernel =
  kn_store :: kstore
  kn_chan :: gmk_chan_reg
  kn_modules :: gmk_module_reg
  kn_pool :: gmk_worker_pool
  kn_cfg :: gmk_boot_cfg
  kn_running :: bool
  kn_tick :: u32
  kn_signals :: "nat list"
  kn_hal :: hal

type_synonym callbacks = "addr \<Rightarrow> gmk_ctx \<Rightarrow> gmk_kernel \<Rightarrow> (rc \<times> gmk_ctx \<times> gmk_kernel) exec"

definition zero_module_reg :: gmk_module_reg where
  "zero_module_reg = \<lparr>mr_dispatch = replicate (unat GMK_MAX_HANDLERS) 0,
     mr_handler_names = replicate (unat GMK_MAX_HANDLERS) [],
     mr_max_yields = replicate (unat GMK_MAX_HANDLERS) 0,
     mr_fail_counts = replicate (unat GMK_MAX_HANDLERS) 0,
     mr_poisoned = replicate (unat GMK_MAX_HANDLERS) False,
     mr_modules = replicate (unat GMK_MAX_MODULES) None, mr_n_modules = 0, mr_n_handlers = 0,
     mr_trace = False\<rparr>"

definition zero_worker :: gmk_worker where
  "zero_worker = \<lparr>wk_id = 0, wk_trace = False, wk_metrics = False, wk_running = False,
     wk_parked = False, wk_tasks_dispatched = 0, wk_tick = 0\<rparr>"

definition zero_pool :: gmk_worker_pool where
  "zero_pool = \<lparr>pl_ptr = 0, pl_workers = [], pl_n_workers = 0\<rparr>"

text \<open>Updates of the parts of the store that a kernel embeds.\<close>

definition kn_upd_sched :: "gmk_sched \<Rightarrow> gmk_kernel \<Rightarrow> gmk_kernel" where
  "kn_upd_sched s k = k\<lparr>kn_store := (kn_store k)\<lparr>ks_sched := s\<rparr>\<rparr>"

definition kn_metric :: "gmk_kernel \<Rightarrow> u16 \<Rightarrow> u32 \<Rightarrow> gmk_kernel exec" where
  "kn_metric k tenant metric_id =
     do { m \<leftarrow> gmk_metric_inc (ks_metrics (kn_store k)) tenant metric_id 1;
          Some (k\<lparr>kn_store := (kn_store k)\<lparr>ks_metrics := m\<rparr>\<rparr>) }"

definition kn_trace :: "gmk_kernel \<Rightarrow> u16 \<Rightarrow> u32 \<Rightarrow> u16 \<Rightarrow> u32 \<Rightarrow> u32 \<Rightarrow> gmk_kernel exec" where
  "kn_trace k tenant ev ty a0 a1 =
     do { t \<leftarrow> gmk_trace_write (ks_trace (kn_store k)) tenant ev ty a0 a1;
          Some (k\<lparr>kn_store := (kn_store k)\<lparr>ks_trace := t\<rparr>\<rparr>) }"

definition kn_trace_force :: "gmk_kernel \<Rightarrow> u16 \<Rightarrow> u32 \<Rightarrow> u16 \<Rightarrow> u32 \<Rightarrow> u32 \<Rightarrow> gmk_kernel exec" where
  "kn_trace_force k tenant ev ty a0 a1 =
     do { t \<leftarrow> gmk_trace_write_force (ks_trace (kn_store k)) tenant ev ty a0 a1;
          Some (k\<lparr>kn_store := (kn_store k)\<lparr>ks_trace := t\<rparr>\<rparr>) }"

end
