(* ===== verification/Module_Reg.thy ===== *)
theory Module_Reg
  imports Kernel_State
begin

text \<open>
  The module registry of \<open>src/module.c\<close>: registration into the dispatch table, dispatch of a task
  to its handler, and the poisoning of a handler type after repeated failures.
\<close>

section \<open>Operations\<close>

definition gmk_module_reg_init :: "bool \<Rightarrow> gmk_module_reg" where
  "gmk_module_reg_init has_trace = zero_module_reg\<lparr>mr_trace := has_trace\<rparr>"

definition gmk_module_reg_destroy :: "gmk_module_reg \<Rightarrow> gmk_module_reg" where
  "gmk_module_reg_destroy mr = mr"

text \<open>The loop over the handlers of a module; an error leaves the earlier handlers registered.\<close>

fun register_handlers :: "nat list \<Rightarrow> gmk_module \<Rightarrow> gmk_module_reg \<Rightarrow> (rc \<times> gmk_module_reg) exec" where
  "register_handlers [] md mr = Some (0, mr)"
| "register_handlers (i # is) md mr =
     do { h \<leftarrow> arr_get (md_handlers md) i;
          if hr_type h \<ge> GMK_MAX_HANDLERS then Some (GMK_FAIL GMK_ERR_INVALID, mr)
          else do { d \<leftarrow> arr_get (mr_dispatch mr) (unat (hr_type h));
                    if d \<noteq> 0 then Some (GMK_FAIL GMK_ERR_EXISTS, mr)
                    else let ty = unat (hr_type h)
                         in do { ds \<leftarrow> arr_set (mr_dispatch mr) ty (hr_fn h);
                                 ns \<leftarrow> arr_set (mr_handler_names mr) ty (hr_name h);
                                 ys \<leftarrow> arr_set (mr_max_yields mr) ty
                                   (if hr_max_yields h > 0 then hr_max_yields h else GMK_DEFAULT_MAX_YIELDS);
                                 register_handlers is md
                                   (mr\<lparr>mr_dispatch := ds, mr_handler_names := ns, mr_max_yields := ys,
                                       mr_n_handlers := mr_n_handlers mr + 1\<rparr>) } } }"

definition gmk_module_register :: "gmk_module_reg \<Rightarrow> gmk_module \<Rightarrow> (rc \<times> gmk_module_reg) exec" where
  "gmk_module_register mr md =
     (if mr_n_modules mr \<ge> GMK_MAX_MODULES then Some (GMK_FAIL GMK_ERR_FULL, mr)
      else do { (c, mr1) \<leftarrow> register_handlers [0..<unat (md_n_handlers md)] md mr;
                if c \<noteq> 0 then Some (c, mr1)
                else do { ms \<leftarrow> arr_set (mr_modules mr1) (unat (mr_n_modules mr1)) (Some md);
                          Some (0, mr1\<lparr>mr_modules := ms, mr_n_modules := mr_n_modules mr1 + 1\<rparr>) } })"

text \<open>The registry is read again before every callback, since a callback may change it.\<close>

definition module_at :: "gmk_kernel \<Rightarrow> nat \<Rightarrow> gmk_module exec" where
  "module_at k i = do { m \<leftarrow> arr_get (mr_modules (kn_modules k)) i; m }"

partial_function (option) module_init_from ::
  "callbacks \<Rightarrow> u32 \<Rightarrow> gmk_ctx \<Rightarrow> gmk_kernel \<Rightarrow> (rc \<times> gmk_kernel) exec" where
  "module_init_from run i ctx k =
     (if i < mr_n_modules (kn_modules k)
      then do { m \<leftarrow> module_at k (unat i);
                if md_init m \<noteq> 0
                then do { (c, ctx', k') \<leftarrow> run (md_init m) ctx k;
                          if c \<noteq> GMK_OK then Some (c, k') else module_init_from run (i + 1) ctx' k' }
                else module_init_from run (i + 1) ctx k }
      else Some (0, k))"

definition gmk_module_init_all :: "callbacks \<Rightarrow> gmk_ctx \<Rightarrow> gmk_kernel \<Rightarrow> (rc \<times> gmk_kernel) exec" where
  "gmk_module_init_all run ctx k = module_init_from run 0 ctx k"

text \<open>Finalisation runs in reverse order, from the number of modules at its start.\<close>

fun module_fini_down :: "callbacks \<Rightarrow> nat \<Rightarrow> gmk_ctx \<Rightarrow> gmk_kernel \<Rightarrow> gmk_kernel exec" where
  "module_fini_down run 0 ctx k = Some k"
| "module_fini_down run (Suc i) ctx k =
     do { m \<leftarrow> module_at k i;
          if md_fini m \<noteq> 0
          then do { (_, ctx', k') \<leftarrow> run (md_fini m) ctx k; module_fini_down run i ctx' k' }
          else module_fini_down run i ctx k }"

definition gmk_module_fini_all :: "callbacks \<Rightarrow> gmk_ctx \<Rightarrow> gmk_kernel \<Rightarrow> gmk_kernel exec" where
  "gmk_module_fini_all run ctx k = module_fini_down run (unat (mr_n_modules (kn_modules k))) ctx k"

definition module_trace :: "gmk_kernel \<Rightarrow> u16 \<Rightarrow> u32 \<Rightarrow> u16 \<Rightarrow> u32 \<Rightarrow> u32 \<Rightarrow> gmk_kernel exec" where
  "module_trace k tenant ev ty a0 a1 =
     (if mr_trace (kn_modules k) then kn_trace k tenant ev ty a0 a1 else Some k)"

definition gmk_module_dispatch :: "callbacks \<Rightarrow> gmk_ctx \<Rightarrow> gmk_kernel \<Rightarrow> (rc \<times> gmk_ctx \<times> gmk_kernel) exec" where
  "gmk_module_dispatch run ctx k =
     (case cx_task ctx of
        None \<Rightarrow> Some (GMK_FAIL GMK_ERR_INVALID, ctx, k)
      | Some task \<Rightarrow>
          let type = tk_type task
          in if type \<ge> GMK_MAX_HANDLERS then Some (GMK_FAIL GMK_ERR_NOT_FOUND, ctx, k)
             else do { fn \<leftarrow> arr_get (mr_dispatch (kn_modules k)) (unat type);
                       if fn = 0 then Some (GMK_FAIL GMK_ERR_NOT_FOUND, ctx, k)
                       else do { bad \<leftarrow> arr_get (mr_poisoned (kn_modules k)) (unat type);
                                 if bad
                                 then do { k1 \<leftarrow> module_trace k (tk_tenant task) GMK_EV_POISON (ucast type) type 0;
                                           Some (GMK_FAIL GMK_ERR_POISONED, ctx, k1) }
                                 else do { k1 \<leftarrow> module_trace k (tk_tenant task) GMK_EV_TASK_START
                                                  (ucast type) (tk_seq task) 0;
                                           (c, ctx', k2) \<leftarrow> run fn ctx k1;
                                           task' \<leftarrow> cx_task ctx';
                                           k3 \<leftarrow> module_trace k2 (tk_tenant task') GMK_EV_TASK_END
                                                  (ucast type) (tk_seq task') (of_int c);
                                           Some (c, ctx', k3) } } })"

definition gmk_module_record_fail :: "u32 \<Rightarrow> gmk_kernel \<Rightarrow> gmk_kernel exec" where
  "gmk_module_record_fail type k =
     (if type \<ge> GMK_MAX_HANDLERS then Some k
      else let mr = kn_modules k
           in do { old \<leftarrow> arr_get (mr_fail_counts mr) (unat type);
                   bad \<leftarrow> arr_get (mr_poisoned mr) (unat type);
                   let count = old + 1;
                       mr1 = mr\<lparr>mr_fail_counts := (mr_fail_counts mr)[unat type := count]\<rparr>
                   in if count \<ge> GMK_POISON_THRESHOLD \<and> \<not> bad
                      then module_trace
                             (k\<lparr>kn_modules := mr1\<lparr>mr_poisoned := (mr_poisoned mr1)[unat type := True]\<rparr>\<rparr>)
                             0 GMK_EV_POISON (ucast type) type count
                      else Some (k\<lparr>kn_modules := mr1\<rparr>) })"

definition gmk_module_is_poisoned :: "gmk_module_reg \<Rightarrow> u32 \<Rightarrow> bool exec" where
  "gmk_module_is_poisoned mr type =
     (if type \<ge> GMK_MAX_HANDLERS then Some False else arr_get (mr_poisoned mr) (unat type))"

definition gmk_module_reset_poison :: "gmk_module_reg \<Rightarrow> u32 \<Rightarrow> gmk_module_reg exec" where
  "gmk_module_reset_poison mr type =
     (if type \<ge> GMK_MAX_HANDLERS then Some mr
      else do { ps \<leftarrow> arr_set (mr_poisoned mr) (unat type) False;
                cs \<leftarrow> arr_set (mr_fail_counts mr) (unat type) 0;
                Some (mr\<lparr>mr_poisoned := ps, mr_fail_counts := cs\<rparr>) })"

end
