(* ===== verification/Worker.thy ===== *)
theory Worker
  imports Module_Reg
begin

text \<open>
  The workers of \<open>src/worker.c\<close>.  A round of the worker loop is \<open>worker_round\<close>; the loop itself is a
  partial function, since a worker runs until another thread clears its \<open>running\<close> flag.  What the
  other threads do while the worker waits in its \<open>n\<close>-th park is the parameter \<open>env n\<close>.
\<close>

section \<open>Dispatch\<close>

definition worker_at :: "gmk_kernel \<Rightarrow> nat \<Rightarrow> gmk_worker exec" where
  "worker_at k i = arr_get (pl_workers (kn_pool k)) i"

definition upd_worker :: "nat \<Rightarrow> (gmk_worker \<Rightarrow> gmk_worker) \<Rightarrow> gmk_kernel \<Rightarrow> gmk_kernel" where
  "upd_worker i f k =
     k\<lparr>kn_pool := (kn_pool k)\<lparr>pl_workers :=
        (pl_workers (kn_pool k))[i := f (pl_workers (kn_pool k) ! i)]\<rparr>\<rparr>"

definition worker_metric :: "gmk_worker \<Rightarrow> gmk_kernel \<Rightarrow> u16 \<Rightarrow> u32 \<Rightarrow> gmk_kernel exec" where
  "worker_metric w k tenant metric_id = (if wk_metrics w then kn_metric k tenant metric_id else Some k)"

definition release_payload :: "gmk_task \<Rightarrow> gmk_kernel \<Rightarrow> gmk_kernel exec" where
  "release_payload task k =
     (if tk_flags task AND GMK_TF_PAYLOAD_RC \<noteq> 0 \<and> tk_payload_ptr task \<noteq> 0
      then do { (_, a) \<leftarrow> gmk_payload_release (ks_alloc (kn_store k)) (tk_payload_ptr task);
                Some (k\<lparr>kn_store := (kn_store k)\<lparr>ks_alloc := a\<rparr>\<rparr>) }
      else Some k)"

definition worker_dispatch_task :: "callbacks \<Rightarrow> nat \<Rightarrow> gmk_task \<Rightarrow> gmk_kernel \<Rightarrow> gmk_kernel exec" where
  "worker_dispatch_task run i task k =
     do { w \<leftarrow> worker_at k i;
          k1 \<leftarrow> worker_metric w k (tk_tenant task) GMK_METRIC_TASKS_DISPATCHED;
          (c, ctx', k2) \<leftarrow> gmk_module_dispatch run
             \<lparr>cx_task = Some task, cx_worker_id = wk_id w, cx_tick = wk_tick w\<rparr> k1;
          task' \<leftarrow> cx_task ctx';
          if c = GMK_OK
          then release_payload task'
                 (upd_worker i (\<lambda>w. w\<lparr>wk_tasks_dispatched := wk_tasks_dispatched w + 1\<rparr>) k2)
          else if c = GMK_RETRY
          then do { (_, s, task'') \<leftarrow> gmk_enqueue (ks_sched (kn_store k2)) task' (-1);
                    worker_metric w (kn_upd_sched s k2) (tk_tenant task'') GMK_METRIC_TASKS_RETRIED }
          else do { k3 \<leftarrow> gmk_module_record_fail (tk_type task') k2;
                    k4 \<leftarrow> release_payload task' k3;
                    worker_metric w k4 (tk_tenant task') GMK_METRIC_TASKS_FAILED } }"

section \<open>The loop\<close>

text \<open>Steps 1 to 3: the first queue that has a task; \<open>None\<close> when all three are empty.\<close>

definition worker_pick :: "nat \<Rightarrow> gmk_kernel \<Rightarrow> (gmk_task option \<times> gmk_kernel) exec" where
  "worker_pick i k =
     do { w \<leftarrow> worker_at k i;
          lq \<leftarrow> arr_get (sd_lqs (ks_sched (kn_store k))) (unat (wk_id w));
          (t1, lq') \<leftarrow> gmk_lq_pop lq;
          let s1 = (ks_sched (kn_store k))\<lparr>sd_lqs := (sd_lqs (ks_sched (kn_store k)))[unat (wk_id w) := lq']\<rparr>
          in case t1 of
               Some t \<Rightarrow> Some (Some t, kn_upd_sched s1 k)
             | None \<Rightarrow>
                 do { (t2, ov) \<leftarrow> gmk_ring_mpmc_pop (sd_overflow s1);
                      let s2 = s1\<lparr>sd_overflow := ov\<rparr>
                      in case t2 of
                           Some t \<Rightarrow> Some (Some t, kn_upd_sched s2 k)
                         | None \<Rightarrow>
                             do { (t3, rq) \<leftarrow> gmk_rq_pop (sd_rq s2);
                                  Some (t3, kn_upd_sched (s2\<lparr>sd_rq := rq\<rparr>) k) } } }"

text \<open>Step 4: move due events to the queues, at most \<open>n\<close>; the result counts them.\<close>

fun worker_drain_evq :: "nat \<Rightarrow> u32 \<Rightarrow> int \<Rightarrow> gmk_sched \<Rightarrow> (nat \<times> gmk_sched) exec" where
  "worker_drain_evq 0 tick wid s = Some (0, s)"
| "worker_drain_evq (Suc n) tick wid s =
     do { (t, evq) \<leftarrow> gmk_evq_pop_due (sd_evq s) tick;
          let s1 = s\<lparr>sd_evq := evq\<rparr>
          in case t of
               None \<Rightarrow> Some (0, s1)
             | Some task \<Rightarrow>
                 do { (_, s2, _) \<leftarrow> gmk_enqueue s1 task wid;
                      (m, s3) \<leftarrow> worker_drain_evq n tick wid s2;
                      Some (Suc m, s3) } }"

text \<open>Step 5: park.  \<open>env\<close> is applied while the worker waits.\<close>

definition worker_park :: "nat \<Rightarrow> (gmk_kernel \<Rightarrow> gmk_kernel) \<Rightarrow> gmk_kernel \<Rightarrow> gmk_kernel exec" where
  "worker_park i env k =
     do { w \<leftarrow> worker_at k i;
          k1 \<leftarrow> worker_metric w (upd_worker i (\<lambda>w. w\<lparr>wk_parked := True\<rparr>) k) 0 GMK_METRIC_WORKER_PARKS;
          k2 \<leftarrow> (if wk_trace w then kn_trace k1 0 GMK_EV_WORKER_PARK 0 (wk_id w) 0 else Some k1);
          w2 \<leftarrow> worker_at k2 i;
          let k3 = (if wk_running w2 then env k2 else k2)
          in worker_metric w (upd_worker i (\<lambda>w. w\<lparr>wk_parked := False\<rparr>) k3) 0 GMK_METRIC_WORKER_WAKES }"

definition worker_round ::
  "callbacks \<Rightarrow> nat \<Rightarrow> (gmk_kernel \<Rightarrow> gmk_kernel) \<Rightarrow> gmk_kernel \<Rightarrow> (bool \<times> gmk_kernel) exec" where
  "worker_round run i env k =
     do { w \<leftarrow> worker_at k i;
          (t, k1) \<leftarrow> worker_pick i k;
          case t of
            Some task \<Rightarrow>
              do { k2 \<leftarrow> worker_metric w k1 (tk_tenant task) GMK_METRIC_TASKS_DEQUEUED;
                   k3 \<leftarrow> worker_dispatch_task run i task k2;
                   Some (True, k3) }
          | None \<Rightarrow>
              do { (m, s) \<leftarrow> worker_drain_evq GMK_EVQ_DRAIN_LIMIT (wk_tick w) (sint (wk_id w))
                              (ks_sched (kn_store k1));
                   let k2 = kn_upd_sched s k1
                   in if m > 0 then Some (True, k2)
                      else do { k3 \<leftarrow> worker_park i env k2; Some (False, k3) } } }"

partial_function (option) gmk_worker_loop ::
  "callbacks \<Rightarrow> nat \<Rightarrow> (nat \<Rightarrow> gmk_kernel \<Rightarrow> gmk_kernel) \<Rightarrow> nat \<Rightarrow> gmk_kernel \<Rightarrow> gmk_kernel exec" where
  "gmk_worker_loop run i env n k =
     do { w \<leftarrow> worker_at k i;
          if wk_running w
          then do { (got, k') \<leftarrow> worker_round run i (env n) k;
                    gmk_worker_loop run i env (if got then n else Suc n) k' }
          else Some k }"

section \<open>The pool\<close>

abbreviation (input) sizeof_gmk_worker :: u64 where "sizeof_gmk_worker \<equiv> 184"

definition init_worker :: "bool \<Rightarrow> bool \<Rightarrow> nat \<Rightarrow> gmk_worker" where
  "init_worker has_trace has_metrics i =
     zero_worker\<lparr>wk_id := of_nat i, wk_trace := has_trace, wk_metrics := has_metrics, wk_running := False,
                 wk_parked := False, wk_tasks_dispatched := 0, wk_tick := 0\<rparr>"

definition gmk_worker_pool_init ::
  "gmk_worker_pool \<Rightarrow> u32 \<Rightarrow> bool \<Rightarrow> bool \<Rightarrow> hal \<Rightarrow> rc \<times> gmk_worker_pool \<times> hal" where
  "gmk_worker_pool_init pool n_workers has_trace has_metrics h =
     (if n_workers = 0 then (-1, pool, h)
      else let (p, h') = gmk_hal_calloc (ucast n_workers) sizeof_gmk_worker h; pool1 = pool\<lparr>pl_ptr := p\<rparr>
           in if p = 0 then (-1, pool1, h')
              else (0, pool1\<lparr>pl_n_workers := n_workers,
                             pl_workers := map (init_worker has_trace has_metrics) [0..<unat n_workers]\<rparr>, h'))"

text \<open>Waking a parked worker signals its condition variable.\<close>

definition gmk_worker_wake :: "nat \<Rightarrow> gmk_kernel \<Rightarrow> gmk_kernel" where
  "gmk_worker_wake i k =
     (if wk_parked (pl_workers (kn_pool k) ! i) then k\<lparr>kn_signals := i # kn_signals k\<rparr> else k)"

definition gmk_worker_wake_all :: "gmk_kernel \<Rightarrow> gmk_kernel" where
  "gmk_worker_wake_all k = fold gmk_worker_wake [0..<unat (pl_n_workers (kn_pool k))] k"

text \<open>\<open>create i\<close> is what the creation of the \<open>i\<close>-th thread returns.  On a failure the workers that
  were started are stopped and joined.\<close>

fun pool_start_from :: "(nat \<Rightarrow> rc) \<Rightarrow> nat list \<Rightarrow> gmk_kernel \<Rightarrow> rc \<times> gmk_kernel" where
  "pool_start_from create [] k = (0, k)"
| "pool_start_from create (i # is) k =
     (let k1 = upd_worker i (\<lambda>w. w\<lparr>wk_running := True\<rparr>) k
      in if create i \<noteq> 0
         then (-1, fold (\<lambda>j k. gmk_worker_wake j (upd_worker j (\<lambda>w. w\<lparr>wk_running := False\<rparr>) k)) [0..<i] k1)
         else pool_start_from create is k1)"

definition gmk_worker_pool_start :: "(nat \<Rightarrow> rc) \<Rightarrow> gmk_kernel \<Rightarrow> rc \<times> gmk_kernel" where
  "gmk_worker_pool_start create k = pool_start_from create [0..<unat (pl_n_workers (kn_pool k))] k"

definition gmk_worker_pool_stop :: "gmk_kernel \<Rightarrow> gmk_kernel" where
  "gmk_worker_pool_stop k =
     gmk_worker_wake_all (fold (\<lambda>i. upd_worker i (\<lambda>w. w\<lparr>wk_running := False\<rparr>))
                           [0..<unat (pl_n_workers (kn_pool k))] k)"

definition gmk_worker_pool_destroy :: "gmk_kernel \<Rightarrow> gmk_kernel" where
  "gmk_worker_pool_destroy k =
     (if pl_ptr (kn_pool k) \<noteq> 0
      then k\<lparr>kn_pool := (kn_pool k)\<lparr>pl_ptr := 0, pl_workers := []\<rparr>,
             kn_hal := gmk_hal_free (pl_ptr (kn_pool k)) (kn_hal k)\<rparr>
      else k)"

end
