(* ===== verification/Boot.thy ===== *)
theory Boot
  imports Worker
begin

text \<open>
  Booting, halting and driving a kernel, \<open>src/boot.c\<close>.  \<open>run\<close> interprets the callbacks of the
  modules and \<open>create\<close> the creation of threads.
\<close>

section \<open>Operations\<close>

abbreviation (input) GMK_DEFAULT_ARENA_SIZE :: u64 where "GMK_DEFAULT_ARENA_SIZE \<equiv> 67108864"
abbreviation (input) GMK_DEFAULT_WORKERS :: u32 where "GMK_DEFAULT_WORKERS \<equiv> 4"
abbreviation (input) GMK_DEFAULT_TENANTS :: u32 where "GMK_DEFAULT_TENANTS \<equiv> 1"

definition boot_config :: "gmk_boot_cfg option \<Rightarrow> gmk_boot_cfg" where
  "boot_config cfg =
     (let c = (case cfg of Some c \<Rightarrow> c
               | None \<Rightarrow> \<lparr>cf_arena_size = GMK_DEFAULT_ARENA_SIZE, cf_n_workers = GMK_DEFAULT_WORKERS,
                          cf_n_tenants = GMK_DEFAULT_TENANTS\<rparr>);
          c1 = (if cf_arena_size c = 0 then c\<lparr>cf_arena_size := GMK_DEFAULT_ARENA_SIZE\<rparr> else c);
          c2 = (if cf_n_workers c1 = 0 then c1\<lparr>cf_n_workers := GMK_DEFAULT_WORKERS\<rparr> else c1)
      in if cf_n_tenants c2 = 0 then c2\<lparr>cf_n_tenants := GMK_DEFAULT_TENANTS\<rparr> else c2)"

text \<open>The kernel after \<open>gmk_hal_memset(k, 0, sizeof(*k))\<close>; \<open>tsc\<close> are the reads of the time-stamp
  counter and \<open>h\<close> is the heap.\<close>

definition zero_chan_reg :: gmk_chan_reg where
  "zero_chan_reg = \<lparr>cr_channels = replicate (unat GMK_MAX_CHANNELS) zero_chan, cr_n_channels = 0,
     cr_alloc = False, cr_trace = False, cr_metrics = False\<rparr>"

definition zero_kernel :: "(nat \<Rightarrow> u64) \<Rightarrow> hal \<Rightarrow> gmk_kernel" where
  "zero_kernel tsc h = \<lparr>
     kn_store = \<lparr>ks_sched = zero_sched, ks_alloc = zero_alloc, ks_trace = zero_trace tsc,
                 ks_metrics = zero_metrics\<rparr>,
     kn_chan = zero_chan_reg, kn_modules = zero_module_reg, kn_pool = zero_pool,
     kn_cfg = \<lparr>cf_arena_size = 0, cf_n_workers = 0, cf_n_tenants = 0\<rparr>,
     kn_running = False, kn_tick = 0, kn_signals = [], kn_hal = h\<rparr>"

definition boot_ctx :: gmk_ctx where
  "boot_ctx = \<lparr>cx_task = None, cx_worker_id = -1, cx_tick = 0\<rparr>"

text \<open>The clean-up labels of \<open>gmk_boot\<close>; each falls through to the next.\<close>

definition fail_trace :: "gmk_kernel \<Rightarrow> (rc \<times> gmk_kernel) exec" where
  "fail_trace k =
     (let (a, h) = gmk_alloc_destroy (ks_alloc (kn_store k)) (kn_hal k)
      in Some (-1, k\<lparr>kn_store := (kn_store k)\<lparr>ks_alloc := a\<rparr>, kn_hal := h\<rparr>))"

definition fail_metrics :: "gmk_kernel \<Rightarrow> (rc \<times> gmk_kernel) exec" where
  "fail_metrics k =
     do { (t, h) \<leftarrow> gmk_trace_destroy (ks_trace (kn_store k)) (kn_hal k);
          fail_trace (k\<lparr>kn_store := (kn_store k)\<lparr>ks_trace := t\<rparr>, kn_hal := h\<rparr>) }"

definition fail_sched :: "gmk_kernel \<Rightarrow> (rc \<times> gmk_kernel) exec" where
  "fail_sched k =
     fail_metrics (k\<lparr>kn_store := (kn_store k)\<lparr>ks_metrics := gmk_metrics_destroy (ks_metrics (kn_store k))\<rparr>\<rparr>)"

definition fail_chan :: "gmk_kernel \<Rightarrow> (rc \<times> gmk_kernel) exec" where
  "fail_chan k =
     do { (s, h) \<leftarrow> gmk_sched_destroy (ks_sched (kn_store k)) (kn_hal k);
          fail_sched (k\<lparr>kn_store := (kn_store k)\<lparr>ks_sched := s\<rparr>, kn_hal := h\<rparr>) }"

definition fail_mod :: "gmk_kernel \<Rightarrow> (rc \<times> gmk_kernel) exec" where
  "fail_mod k =
     do { (cr, h) \<leftarrow> gmk_chan_reg_destroy (kn_chan k) (kn_hal k);
          fail_chan (k\<lparr>kn_chan := cr, kn_hal := h\<rparr>) }"

definition fail_init :: "gmk_kernel \<Rightarrow> (rc \<times> gmk_kernel) exec" where
  "fail_init k = fail_mod (k\<lparr>kn_modules := gmk_module_reg_destroy (kn_modules k)\<rparr>)"

definition fail_pool :: "callbacks \<Rightarrow> gmk_kernel \<Rightarrow> (rc \<times> gmk_kernel) exec" where
  "fail_pool run k = do { k1 \<leftarrow> gmk_module_fini_all run boot_ctx k; fail_init k1 }"

definition fail_start :: "callbacks \<Rightarrow> gmk_kernel \<Rightarrow> (rc \<times> gmk_kernel) exec" where
  "fail_start run k = fail_pool run (gmk_worker_pool_destroy k)"

text \<open>Step 7: register the modules of the array; \<open>None\<close> is a \<open>NULL\<close> entry.\<close>

fun boot_register :: "gmk_module option list \<Rightarrow> gmk_module_reg \<Rightarrow> (rc \<times> gmk_module_reg) exec" where
  "boot_register [] mr = Some (0, mr)"
| "boot_register (m # ms) mr =
     (case m of
        None \<Rightarrow> boot_register ms mr
      | Some md \<Rightarrow> do { (c, mr') \<leftarrow> gmk_module_register mr md;
                        if c \<noteq> 0 then Some (c, mr') else boot_register ms mr' })"

text \<open>Steps 7 to 10.\<close>

definition boot_modules ::
  "callbacks \<Rightarrow> (nat \<Rightarrow> rc) \<Rightarrow> gmk_module option list \<Rightarrow> gmk_kernel \<Rightarrow> (rc \<times> gmk_kernel) exec" where
  "boot_modules run create mods k =
     do { (c, mr) \<leftarrow> boot_register mods (kn_modules k);
          let k1 = k\<lparr>kn_modules := mr\<rparr>
          in if c \<noteq> 0 then fail_init k1
             else do { (c2, k2) \<leftarrow> gmk_module_init_all run boot_ctx k1;
                       if c2 \<noteq> 0 then fail_init k2
                       else let (c3, pool, h) = gmk_worker_pool_init (kn_pool k2) (cf_n_workers (kn_cfg k2))
                                                  True True (kn_hal k2);
                                k3 = k2\<lparr>kn_pool := pool, kn_hal := h\<rparr>
                            in if c3 \<noteq> 0 then fail_pool run k3
                               else let (c4, k4) = gmk_worker_pool_start create k3
                                    in if c4 \<noteq> 0 then fail_start run k4
                                       else do { k5 \<leftarrow> kn_trace_force (k4\<lparr>kn_running := True\<rparr>) 0 GMK_EV_BOOT 0
                                                        (cf_n_workers (kn_cfg k4))
                                                        (ucast (drop_bit 20 (cf_arena_size (kn_cfg k4))));
                                                 Some (0, k5) } } }"

definition gmk_boot ::
  "callbacks \<Rightarrow> (nat \<Rightarrow> rc) \<Rightarrow> (nat \<Rightarrow> u64) \<Rightarrow> gmk_boot_cfg option \<Rightarrow> gmk_module option list \<Rightarrow> hal
    \<Rightarrow> (rc \<times> gmk_kernel) exec" where
  "gmk_boot run create tsc cfg mods h =
     (let c = boot_config cfg;
          k0 = (zero_kernel tsc h)\<lparr>kn_cfg := c\<rparr>;
          (c1, a, h1) = gmk_alloc_init (ks_alloc (kn_store k0)) (cf_arena_size c) h;
          k1 = k0\<lparr>kn_store := (kn_store k0)\<lparr>ks_alloc := a\<rparr>, kn_hal := h1\<rparr>
      in if c1 \<noteq> 0 then Some (-1, k1)
         else do { (c2, t, h2) \<leftarrow> gmk_trace_init (ks_trace (kn_store k1)) (cf_n_tenants c) h1;
                   let k2 = k1\<lparr>kn_store := (kn_store k1)\<lparr>ks_trace := t\<rparr>, kn_hal := h2\<rparr>
                   in if c2 \<noteq> 0 then fail_trace k2
                      else let (c3, m) = gmk_metrics_init (ks_metrics (kn_store k2)) (cf_n_tenants c);
                               k3 = k2\<lparr>kn_store := (kn_store k2)\<lparr>ks_metrics := m\<rparr>\<rparr>
                           in if c3 \<noteq> 0 then fail_metrics k3
                              else do { (c4, s, h4) \<leftarrow> gmk_sched_init (ks_sched (kn_store k3)) (cf_n_workers c) h2;
                                        let k4 = k3\<lparr>kn_store := (kn_store k3)\<lparr>ks_sched := s\<rparr>, kn_hal := h4\<rparr>
                                        in if c4 \<noteq> 0 then fail_sched k4
                                           else let (c5, cr, h5) = gmk_chan_reg_init True True True h4;
                                                    k5 = k4\<lparr>kn_chan := cr, kn_hal := h5\<rparr>
                                                in if c5 \<noteq> 0 then fail_chan k5
                                                   else boot_modules run create mods
                                                          (k5\<lparr>kn_modules := gmk_module_reg_init True\<rparr>) } })"

definition gmk_halt :: "callbacks \<Rightarrow> gmk_kernel \<Rightarrow> gmk_kernel exec" where
  "gmk_halt run k =
     do { k1 \<leftarrow> kn_trace_force (k\<lparr>kn_running := False\<rparr>) 0 GMK_EV_HALT 0 0 0;
          k2 \<leftarrow> gmk_module_fini_all run boot_ctx (gmk_worker_pool_destroy (gmk_worker_pool_stop k1));
          let k3 = k2\<lparr>kn_modules := gmk_module_reg_destroy (kn_modules k2)\<rparr>
          in do { (_, k4) \<leftarrow> fail_mod k3; Some k4 } }"

text \<open>\<open>fail_mod\<close> and its successors destroy the channels, the scheduler, the metrics, the trace and
  the allocator, in the order in which \<open>gmk_halt\<close> does.\<close>

fun wake_first_parked :: "nat list \<Rightarrow> gmk_kernel \<Rightarrow> gmk_kernel" where
  "wake_first_parked [] k = k"
| "wake_first_parked (i # is) k =
     (if wk_parked (pl_workers (kn_pool k) ! i) then gmk_worker_wake i k else wake_first_parked is k)"

definition gmk_submit :: "gmk_kernel \<Rightarrow> gmk_task \<Rightarrow> (rc \<times> gmk_kernel \<times> gmk_task) exec" where
  "gmk_submit k task =
     (if \<not> kn_running k then Some (GMK_FAIL GMK_ERR_CLOSED, k, task)
      else do { (c, s, task') \<leftarrow> gmk_enqueue (ks_sched (kn_store k)) task (-1);
                let k1 = kn_upd_sched s k
                in if c = 0
                   then do { k2 \<leftarrow> kn_metric k1 (tk_tenant task') GMK_METRIC_TASKS_ENQUEUED;
                             Some (0, wake_first_parked [0..<unat (pl_n_workers (kn_pool k2))] k2, task') }
                   else Some (c, k1, task') })"

definition gmk_tick_advance :: "gmk_kernel \<Rightarrow> gmk_kernel" where
  "gmk_tick_advance k =
     (let tick = kn_tick k + 1
      in fold (\<lambda>i. upd_worker i (\<lambda>w. w\<lparr>wk_tick := tick\<rparr>)) [0..<unat (pl_n_workers (kn_pool k))]
           (k\<lparr>kn_tick := tick\<rparr>))"

end
