(* ===== verification/Module_Laws.thy ===== *)
theory Module_Laws
  imports Module_Reg Chan_Laws
begin

text \<open>
  The laws of the module registry: registration, poisoning and dispatch.
\<close>

section \<open>Invariants\<close>

definition module_inv :: "gmk_module_reg \<Rightarrow> bool" where
  "module_inv mr \<longleftrightarrow> length (mr_dispatch mr) = 256 \<and> length (mr_handler_names mr) = 256
     \<and> length (mr_max_yields mr) = 256 \<and> length (mr_fail_counts mr) = 256 \<and> length (mr_poisoned mr) = 256
     \<and> length (mr_modules mr) = 64 \<and> mr_n_modules mr \<le> 64
     \<and> (\<forall>i < unat (mr_n_modules mr). mr_modules mr ! i \<noteq> None)"

lemma module_reg_init_inv: "module_inv (gmk_module_reg_init t)"
  by (simp add: module_inv_def gmk_module_reg_init_def zero_module_reg_def)

abbreviation obs :: "gmk_kernel \<Rightarrow> kstore \<Rightarrow> gmk_kernel" where
  "obs k st \<equiv> k\<lparr>kn_store := st\<rparr>"

text \<open>Tracing and counting on a kernel change only the store, and there only trace and metrics.\<close>

lemma kn_trace_step:
  assumes "obs_inv (kn_store k)"
  obtains st where "kn_trace k tenant ev ty a0 a1 = Some (obs k st)" "obs_step (kn_store k) st"
proof -
  obtain t where "gmk_trace_write (ks_trace (kn_store k)) tenant ev ty a0 a1 = Some t" "trace_kept (ks_trace (kn_store k)) t"
    using trace_write_kept [of "ks_trace (kn_store k)" tenant ev ty a0 a1] assms by (auto simp: obs_inv_def)
  then show ?thesis using assms
    by (intro that [of "(kn_store k)\<lparr>ks_trace := t\<rparr>"])
      (simp_all add: kn_trace_def obs_step_def obs_inv_def trace_kept_def)
qed

lemma kn_trace_force_step:
  assumes "obs_inv (kn_store k)"
  obtains st where "kn_trace_force k tenant ev ty a0 a1 = Some (obs k st)" "obs_step (kn_store k) st"
proof -
  obtain t where "gmk_trace_write_force (ks_trace (kn_store k)) tenant ev ty a0 a1 = Some t"
    "trace_kept (ks_trace (kn_store k)) t"
    using trace_write_force_kept [of "ks_trace (kn_store k)" tenant ev ty a0 a1] assms by (auto simp: obs_inv_def)
  then show ?thesis using assms
    by (intro that [of "(kn_store k)\<lparr>ks_trace := t\<rparr>"])
      (simp_all add: kn_trace_force_def obs_step_def obs_inv_def trace_kept_def)
qed

lemma kn_metric_step:
  assumes "obs_inv (kn_store k)"
  obtains st where "kn_metric k tenant metric = Some (obs k st)" "obs_step (kn_store k) st"
proof -
  obtain m where "gmk_metric_inc (ks_metrics (kn_store k)) tenant metric 1 = Some m" "metrics_inv m"
    using metric_inc_ok [of "ks_metrics (kn_store k)" tenant metric 1] assms by (auto simp: obs_inv_def)
  then show ?thesis using assms
    by (intro that [of "(kn_store k)\<lparr>ks_metrics := m\<rparr>"])
      (simp_all add: kn_metric_def obs_step_def obs_inv_def trace_kept_def)
qed

lemma obs_same [simp]: "obs k (kn_store k) = k"
  by simp

lemma module_trace_step:
  assumes "obs_inv (kn_store k)"
  obtains st where "module_trace k tenant ev ty a0 a1 = Some (obs k st)" "obs_step (kn_store k) st"
proof (cases "mr_trace (kn_modules k)")
  case True
  then show ?thesis using kn_trace_step [OF assms] that by (metis module_trace_def)
next
  case False
  then show ?thesis using that [of "kn_store k"] obs_step_refl [OF assms] by (simp add: module_trace_def)
qed

section \<open>Poisoning\<close>

lemma record_fail_eq:
  assumes inv: "module_inv (kn_modules k)" and obs: "obs_inv (kn_store k)" and ty: "ty < 256"
  defines "mr \<equiv> kn_modules k" and "i \<equiv> unat ty"
  defines "n \<equiv> mr_fail_counts (kn_modules k) ! unat ty + 1"
  shows "\<exists>st. gmk_module_record_fail ty k = Some (obs (k\<lparr>kn_modules := mr
      \<lparr>mr_fail_counts := (mr_fail_counts mr)[i := n],
       mr_poisoned := (mr_poisoned mr)[i := mr_poisoned mr ! i \<or> 16 \<le> n]\<rparr>\<rparr>) st) \<and> obs_step (kn_store k) st"
proof -
  have i: "i < 256" using ty by (simp add: i_def word_less_nat_alt)
  have g: "arr_get (mr_fail_counts mr) i = Some (mr_fail_counts mr ! i)"
    "arr_get (mr_poisoned mr) i = Some (mr_poisoned mr ! i)"
    using inv i by (simp_all add: module_inv_def mr_def exec_simps)
  have le: "\<not> 256 \<le> ty" using ty by simp
  let ?b = "mr_poisoned mr ! i"
  show ?thesis
  proof (cases "16 \<le> n \<and> \<not> ?b")
    case True
    let ?k = "k\<lparr>kn_modules := mr\<lparr>mr_fail_counts := (mr_fail_counts mr)[i := n], mr_poisoned := (mr_poisoned mr)[i := True]\<rparr>\<rparr>"
    obtain st where "module_trace ?k 0 GMK_EV_POISON (ucast ty) ty n = Some (obs ?k st)" "obs_step (kn_store ?k) st"
      by (rule module_trace_step [of ?k]) (use obs in simp_all)
    then show ?thesis using g le True
      by (auto simp: gmk_module_record_fail_def Let_def mr_def i_def n_def)
  next
    case False
    then have "(?b \<or> 16 \<le> n) = ?b" by auto
    then have "(mr_poisoned mr)[i := ?b \<or> 16 \<le> n] = mr_poisoned mr" by (simp only: list_update_id)
    then have "gmk_module_record_fail ty k = Some (obs (k\<lparr>kn_modules := mr
      \<lparr>mr_fail_counts := (mr_fail_counts mr)[i := n],
       mr_poisoned := (mr_poisoned mr)[i := mr_poisoned mr ! i \<or> 16 \<le> n]\<rparr>\<rparr>) (kn_store k))"
      using g le False by (auto simp: gmk_module_record_fail_def Let_def mr_def i_def n_def)
    then show ?thesis using obs_step_refl [OF obs] by blast
  qed
qed

text \<open>\<open>n\<close> recorded failures of a type.\<close>

fun record_fails :: "nat \<Rightarrow> u32 \<Rightarrow> gmk_kernel \<Rightarrow> gmk_kernel exec" where
  "record_fails 0 ty k = Some k"
| "record_fails (Suc n) ty k = do { k' \<leftarrow> record_fails n ty k; gmk_module_record_fail ty k' }"

lemma record_fails_state:
  assumes inv: "module_inv (kn_modules k)" and obs: "obs_inv (kn_store k)" and ty: "ty < 256"
    and z: "mr_fail_counts (kn_modules k) ! unat ty = 0" "\<not> mr_poisoned (kn_modules k) ! unat ty"
    and n: "n < 2 ^ 32"
  shows "\<exists>st. record_fails n ty k = Some (obs (k\<lparr>kn_modules := (kn_modules k)
      \<lparr>mr_fail_counts := (mr_fail_counts (kn_modules k))[unat ty := of_nat n],
       mr_poisoned := (mr_poisoned (kn_modules k))[unat ty := 16 \<le> n]\<rparr>\<rparr>) st) \<and> obs_step (kn_store k) st"
  using n
proof (induction n)
  case 0
  have "(mr_fail_counts (kn_modules k))[unat ty := 0] = mr_fail_counts (kn_modules k)"
    "(mr_poisoned (kn_modules k))[unat ty := False] = mr_poisoned (kn_modules k)"
    using list_update_id [of "mr_fail_counts (kn_modules k)" "unat ty"] list_update_id [of "mr_poisoned (kn_modules k)" "unat ty"] z
    by auto
  then show ?case using obs_step_refl [OF obs] by (intro exI [of _ "kn_store k"]) simp
next
  case (Suc n)
  let ?mr = "\<lambda>n. (kn_modules k)\<lparr>mr_fail_counts := (mr_fail_counts (kn_modules k))[unat ty := of_nat n],
       mr_poisoned := (mr_poisoned (kn_modules k))[unat ty := 16 \<le> n]\<rparr>"
  obtain st where s: "record_fails n ty k = Some (obs (k\<lparr>kn_modules := ?mr n\<rparr>) st)" "obs_step (kn_store k) st"
    using Suc by auto
  have i: "unat ty < 256" using ty by (simp add: word_less_nat_alt)
  have len: "length (mr_fail_counts (kn_modules k)) = 256" "length (mr_poisoned (kn_modules k)) = 256"
    using inv by (simp_all add: module_inv_def)
  have inv': "module_inv (?mr n)" using inv by (simp add: module_inv_def)
  have le: "(16 :: u32) \<le> of_nat n + 1 \<longleftrightarrow> 16 \<le> Suc n"
  proof -
    have "unat (of_nat n + 1 :: u32) = Suc n" using Suc.prems by (simp add: unat_word_ariths unat_of_nat_lt)
    then show ?thesis by (simp add: word_le_nat_alt)
  qed
  obtain st' where "gmk_module_record_fail ty (obs (k\<lparr>kn_modules := ?mr n\<rparr>) st) = Some (obs (k\<lparr>kn_modules := ?mr (Suc n)\<rparr>) st')"
    "obs_step st st'"
    using record_fail_eq [of "obs (k\<lparr>kn_modules := ?mr n\<rparr>) st" ty] inv' obs_step_inv [OF s(2)] ty i len le
    by (auto simp: add.commute)
  then show ?case using s obs_step_trans [OF s(2)] by auto
qed

section \<open>Registration\<close>

text \<open>The specification: a list of handlers can be registered when their types are in range, different
  and free; then the table maps each type to its handler.\<close>

definition can_register :: "gmk_handler_reg list \<Rightarrow> gmk_module_reg \<Rightarrow> bool" where
  "can_register hs mr \<longleftrightarrow> distinct (map hr_type hs)
     \<and> (\<forall>h \<in> set hs. hr_type h < 256 \<and> mr_dispatch mr ! unat (hr_type h) = 0)"

definition table_with :: "gmk_handler_reg list \<Rightarrow> addr list \<Rightarrow> nat \<Rightarrow> addr" where
  "table_with hs d i = (case find (\<lambda>h. unat (hr_type h) = i) hs of Some h \<Rightarrow> hr_fn h | None \<Rightarrow> d ! i)"

definition same_modules :: "gmk_module_reg \<Rightarrow> gmk_module_reg \<Rightarrow> bool" where
  "same_modules mr mr' \<longleftrightarrow> mr_modules mr' = mr_modules mr \<and> mr_n_modules mr' = mr_n_modules mr
     \<and> mr_fail_counts mr' = mr_fail_counts mr \<and> mr_poisoned mr' = mr_poisoned mr \<and> mr_trace mr' = mr_trace mr"

lemma register_handlers_spec:
  assumes "module_inv mr" "\<forall>i \<in> set is. i < length (md_handlers md)" "\<forall>h \<in> set (md_handlers md). hr_fn h \<noteq> 0"
  defines "hs \<equiv> map ((!) (md_handlers md)) is"
  shows "\<exists>c mr'. register_handlers is md mr = Some (c, mr') \<and> module_inv mr' \<and> same_modules mr mr'
    \<and> (c = 0 \<longleftrightarrow> can_register hs mr) \<and> (c = 0 \<or> c = -4 \<or> c = -6)
    \<and> (c = 0 \<longrightarrow> (\<forall>i < 256. mr_dispatch mr' ! i = table_with hs (mr_dispatch mr) i)
         \<and> mr_n_handlers mr' = mr_n_handlers mr + of_nat (length hs))"
  using assms(1,2) unfolding hs_def
proof (induction "is" arbitrary: mr)
  case Nil
  then show ?case by (auto simp: can_register_def table_with_def same_modules_def)
next
  case (Cons i js)
  let ?h = "md_handlers md ! i" and ?hs = "map ((!) (md_handlers md)) js"
  have i: "i < length (md_handlers md)" using Cons.prems by simp
  then have fn: "hr_fn ?h \<noteq> 0" using assms(3) by simp
  have g: "arr_get (md_handlers md) i = Some ?h" using i by (simp add: exec_simps)
  note dn = Cons.prems(1) [unfolded module_inv_def]
  show ?case
  proof (cases "hr_type ?h < 256")
    case False
    then show ?thesis using g Cons.prems(1) by (auto simp: can_register_def same_modules_def)
  next
    case True
    then have le: "\<not> 256 \<le> hr_type ?h" and ty: "unat (hr_type ?h) < 256" by (simp_all add: word_less_nat_alt word_le_nat_alt)
    have gd: "arr_get (mr_dispatch mr) (unat (hr_type ?h)) = Some (mr_dispatch mr ! unat (hr_type ?h))"
      using dn ty by (simp add: exec_simps)
    show ?thesis
    proof (cases "mr_dispatch mr ! unat (hr_type ?h) = 0")
      case False
      then show ?thesis using g gd le Cons.prems(1) by (auto simp: can_register_def same_modules_def)
    next
      case free: True
      let ?mr = "mr\<lparr>mr_dispatch := (mr_dispatch mr)[unat (hr_type ?h) := hr_fn ?h],
        mr_handler_names := (mr_handler_names mr)[unat (hr_type ?h) := hr_name ?h],
        mr_max_yields := (mr_max_yields mr)[unat (hr_type ?h) :=
          (if hr_max_yields ?h > 0 then hr_max_yields ?h else GMK_DEFAULT_MAX_YIELDS)],
        mr_n_handlers := mr_n_handlers mr + 1\<rparr>"
      have eq: "register_handlers (i # js) md mr = register_handlers js md ?mr"
        using g gd le free dn ty by (simp add: exec_simps Let_def)
      have inv': "module_inv ?mr" using Cons.prems(1) by (simp add: module_inv_def)
      have can: "can_register ?hs ?mr \<longleftrightarrow> can_register (?h # ?hs) mr"
        using free fn ty True dn unfolding can_register_def
        by (auto simp: nth_list_update word_unat_eq_iff split: if_splits)
      obtain c mr' where r: "register_handlers js md ?mr = Some (c, mr')" "module_inv mr'" "same_modules ?mr mr'"
        "c = 0 \<longleftrightarrow> can_register ?hs ?mr" "c = 0 \<or> c = -4 \<or> c = -6"
        "c = 0 \<longrightarrow> (\<forall>i < 256. mr_dispatch mr' ! i = table_with ?hs (mr_dispatch ?mr) i)
           \<and> mr_n_handlers mr' = mr_n_handlers ?mr + of_nat (length ?hs)"
        using Cons.IH [OF inv'] Cons.prems(2) by auto
      have tab: "table_with ?hs (mr_dispatch ?mr) j = table_with (?h # ?hs) (mr_dispatch mr) j" if "c = 0" "j < 256" for j
      proof -
        have "distinct (map hr_type (?h # ?hs))" using that(1) r(4) can unfolding can_register_def by blast
        then have "hr_type ?h \<notin> hr_type ` set ?hs" by (simp add: image_image)
        then have "\<forall>h \<in> set ?hs. hr_type h \<noteq> hr_type ?h" by (metis imageI)
        then have "find (\<lambda>h. unat (hr_type h) = unat (hr_type ?h)) ?hs = None"
          by (auto simp: find_None_iff word_unat_eq_iff)
        then show ?thesis using dn ty that(2) by (cases "j = unat (hr_type ?h)") (auto simp: table_with_def split: option.splits)
      qed
      show ?thesis unfolding eq
        by (rule exI [of _ c], rule exI [of _ mr']) (use r can tab in \<open>auto simp: same_modules_def\<close>)
    qed
  qed
qed

lemma module_register_spec:
  assumes "module_inv mr" "md_n_handlers md = of_nat (length (md_handlers md))" "length (md_handlers md) < 2 ^ 32"
    "\<forall>h \<in> set (md_handlers md). hr_fn h \<noteq> 0"
  shows "\<exists>c mr'. gmk_module_register mr md = Some (c, mr') \<and> module_inv mr'
    \<and> (if mr_n_modules mr = 64 then c = -2 \<and> mr' = mr
       else if can_register (md_handlers md) mr
       then c = 0 \<and> mr_n_modules mr' = mr_n_modules mr + 1
         \<and> mr_modules mr' = (mr_modules mr)[unat (mr_n_modules mr) := Some md]
         \<and> mr_poisoned mr' = mr_poisoned mr \<and> mr_fail_counts mr' = mr_fail_counts mr
         \<and> (\<forall>i < 256. mr_dispatch mr' ! i = table_with (md_handlers md) (mr_dispatch mr) i)
       else (c = -4 \<or> c = -6) \<and> mr_modules mr' = mr_modules mr \<and> mr_n_modules mr' = mr_n_modules mr)"
proof (cases "mr_n_modules mr = 64")
  case True
  then show ?thesis using assms(1) by (simp add: gmk_module_register_def)
next
  case False
  then have n: "mr_n_modules mr < 64" using assms(1) by (simp add: module_inv_def order.strict_iff_order)
  then have le: "\<not> 64 \<le> mr_n_modules mr" and u: "unat (mr_n_modules mr) < 64" by (simp_all add: word_less_nat_alt word_le_nat_alt)
  have len: "unat (md_n_handlers md) = length (md_handlers md)" using assms(2,3) by (simp add: unat_of_nat_lt)
  have all: "map ((!) (md_handlers md)) [0..<length (md_handlers md)] = md_handlers md" by (rule map_nth)
  obtain c mr' where r: "register_handlers [0..<unat (md_n_handlers md)] md mr = Some (c, mr')" "module_inv mr'"
    "same_modules mr mr'" "c = 0 \<longleftrightarrow> can_register (md_handlers md) mr" "c = 0 \<or> c = -4 \<or> c = -6"
    "c = 0 \<longrightarrow> (\<forall>i < 256. mr_dispatch mr' ! i = table_with (md_handlers md) (mr_dispatch mr) i)"
    using register_handlers_spec [OF assms(1) _ assms(4), of "[0..<length (md_handlers md)]"] unfolding len all by auto
  show ?thesis
  proof (cases "c = 0")
    case True
    let ?mr = "mr'\<lparr>mr_modules := (mr_modules mr)[unat (mr_n_modules mr) := Some md], mr_n_modules := mr_n_modules mr + 1\<rparr>"
    have su: "unat (mr_n_modules mr + 1) = Suc (unat (mr_n_modules mr))" using u by (simp add: unat_word_ariths)
    then have "mr_n_modules mr + 1 \<le> 64" using u by (simp add: word_le_nat_alt)
    then have inv: "module_inv ?mr" using r(2,3) su u assms(1)
      by (auto simp: module_inv_def same_modules_def nth_list_update less_Suc_eq)
    have "length (mr_modules mr) = 64" using assms(1) by (simp add: module_inv_def)
    then have "gmk_module_register mr md = Some (0, ?mr)"
      using r(1,3) True le u by (auto simp: gmk_module_register_def same_modules_def exec_simps)
    then show ?thesis using inv r(3,4,6) True False by (auto simp: same_modules_def)
  next
    case no: False
    then have "gmk_module_register mr md = Some (c, mr')" using r(1) le by (simp add: gmk_module_register_def)
    then show ?thesis using r(2-5) no False by (auto simp: same_modules_def)
  qed
qed

section \<open>Dispatch\<close>

lemma dispatch_cases:
  assumes inv: "module_inv (kn_modules k)" and obs: "obs_inv (kn_store k)" and t: "cx_task ctx = Some t"
  defines "ty \<equiv> tk_type t"
  obtains (none) "256 \<le> ty \<or> mr_dispatch (kn_modules k) ! unat ty = 0"
      "gmk_module_dispatch run ctx k = Some (-5, ctx, k)"
    | (poisoned) st where "ty < 256" "mr_dispatch (kn_modules k) ! unat ty \<noteq> 0" "mr_poisoned (kn_modules k) ! unat ty"
      "gmk_module_dispatch run ctx k = Some (-8, ctx, obs k st)" "obs_step (kn_store k) st"
    | (run) st where "ty < 256" "mr_dispatch (kn_modules k) ! unat ty \<noteq> 0" "\<not> mr_poisoned (kn_modules k) ! unat ty"
      "obs_step (kn_store k) st"
      "gmk_module_dispatch run ctx k =
         do { (c, ctx', k2) \<leftarrow> run (mr_dispatch (kn_modules k) ! unat ty) ctx (obs k st);
              task' \<leftarrow> cx_task ctx';
              k3 \<leftarrow> module_trace k2 (tk_tenant task') GMK_EV_TASK_END (ucast ty) (tk_seq task') (of_int c);
              Some (c, ctx', k3) }"
proof (cases "ty < 256")
  case False
  then have "256 \<le> ty" by simp
  then show ?thesis using t by (intro that(1)) (simp_all add: gmk_module_dispatch_def Let_def ty_def)
next
  case True
  then have le: "\<not> 256 \<le> ty" and u: "unat ty < 256" by (simp_all add: word_less_nat_alt word_le_nat_alt)
  have g: "arr_get (mr_dispatch (kn_modules k)) (unat ty) = Some (mr_dispatch (kn_modules k) ! unat ty)"
    "arr_get (mr_poisoned (kn_modules k)) (unat ty) = Some (mr_poisoned (kn_modules k) ! unat ty)"
    using inv u by (simp_all add: module_inv_def exec_simps)
  show ?thesis
  proof (cases "mr_dispatch (kn_modules k) ! unat ty = 0")
    case True
    then show ?thesis using t g le by (intro that(1)) (simp_all add: gmk_module_dispatch_def Let_def ty_def)
  next
    case fn: False
    show ?thesis
    proof (cases "mr_poisoned (kn_modules k) ! unat ty")
      case p: True
      obtain st where "module_trace k (tk_tenant t) GMK_EV_POISON (ucast ty) ty 0 = Some (obs k st)" "obs_step (kn_store k) st"
        by (rule module_trace_step [OF obs])
      then show ?thesis using t g le fn p True
        by (intro that(2) [of st]) (simp_all add: gmk_module_dispatch_def Let_def ty_def)
    next
      case p: False
      obtain st where "module_trace k (tk_tenant t) GMK_EV_TASK_START (ucast ty) (tk_seq t) 0 = Some (obs k st)"
        "obs_step (kn_store k) st"
        by (rule module_trace_step [OF obs])
      then show ?thesis using t g le fn p True
        by (intro that(3) [of st]) (simp_all add: gmk_module_dispatch_def Let_def ty_def)
    qed
  qed
qed

end
