(* ===== verification/Worker_Laws.thy ===== *)
theory Worker_Laws
  imports Worker Module_Laws Chan_Emit
begin

text \<open>
  The laws of the workers: which task a worker takes, when it parks, and what becomes of a task that
  has been dispatched.
\<close>

section \<open>Picking a task\<close>

lemma wrr_pop_removes:
  assumes "wrr_pop ls cs = (r, ls', cs')" "length ls = 4"
  shows "case r of Some t \<Rightarrow> (\<Sum>l \<leftarrow> ls. mset l) = add_mset t (\<Sum>l \<leftarrow> ls'. mset l)
    | None \<Rightarrow> ls' = ls \<and> (\<forall>l \<in> set ls. l = [])"
proof -
  have served: "(\<Sum>l \<leftarrow> ls. mset l) = add_mset (hd (ls ! p)) (\<Sum>l \<leftarrow> ls[p := tl (ls ! p)]. mset l)"
    if "p < 4" "ls ! p \<noteq> []" for p
  proof -
    have "mset (ls ! p) = add_mset (hd (ls ! p)) (mset (tl (ls ! p)))" using that(2) by (cases "ls ! p") auto
    then have "(\<Sum>l \<leftarrow> (ls[p := tl (ls ! p)])[p := ls ! p]. mset l)
        = add_mset (hd (ls ! p)) (\<Sum>l \<leftarrow> ls[p := tl (ls ! p)]. mset l)"
      using that(1) assms(2) sum_list_update_snoc [of p "ls[p := tl (ls ! p)]" id "ls ! p" "hd (ls ! p)"] by simp
    then show ?thesis by simp
  qed
  have none: "l = []" if n: "wrr_pick (\<lambda>p. True) ls = None" and l: "l \<in> set ls" for l
  proof -
    obtain p where "p < 4" "l = ls ! p" using l assms(2) by (auto simp: in_set_conv_nth)
    then show ?thesis using wrr_pick_NoneD [OF n] by simp
  qed
  show ?thesis using assms(1) unfolding wrr_pop_def
    by (auto split: option.splits dest!: wrr_pick_SomeD intro: served none)
qed

definition worker_next :: "gmk_sched \<Rightarrow> nat \<Rightarrow> gmk_task option" where
  "worker_next s i =
     (case lq_tasks (sd_lqs s ! i) of t # _ \<Rightarrow> Some t
      | [] \<Rightarrow> (case mpmc_contents (sd_overflow s) of t # _ \<Rightarrow> Some t
               | [] \<Rightarrow> fst (wrr_pop (rq_lists (sd_rq s)) (rq_spent (sd_rq s)))))"

text \<open>The tasks within reach of worker \<open>i\<close>.\<close>

definition within_reach :: "gmk_sched \<Rightarrow> nat \<Rightarrow> gmk_task multiset" where
  "within_reach s i = mset (lq_tasks (sd_lqs s ! i)) + mset (mpmc_contents (sd_overflow s))
     + (\<Sum>l \<leftarrow> rq_lists (sd_rq s). mset l)"

text \<open>The scheduler after worker \<open>i\<close> has picked \<open>r\<close>.\<close>

definition picked :: "gmk_sched \<Rightarrow> nat \<Rightarrow> gmk_task option \<Rightarrow> gmk_sched \<Rightarrow> bool" where
  "picked s i r s' \<longleftrightarrow> sched_inv s' \<and> sd_evq s' = sd_evq s \<and> sd_n_workers s' = sd_n_workers s
     \<and> sd_next_seq s' = sd_next_seq s \<and> r = worker_next s i
     \<and> (\<forall>j. j \<noteq> i \<longrightarrow> sd_lqs s' ! j = sd_lqs s ! j)
     \<and> (case r of Some t \<Rightarrow> sched_ready s = add_mset t (sched_ready s') \<and> within_reach s i = add_mset t (within_reach s' i)
        | None \<Rightarrow> sched_ready s' = sched_ready s \<and> lq_tasks (sd_lqs s ! i) = [] \<and> mpmc_contents (sd_overflow s) = []
            \<and> (\<forall>l \<in> set (rq_lists (sd_rq s)). l = []) \<and> sd_lqs s' = sd_lqs s \<and> sd_overflow s' = sd_overflow s
            \<and> rq_lists (sd_rq s') = rq_lists (sd_rq s))"

lemma sched_ready_pop_local:
  assumes "i < length (sd_lqs s)" "lq_tasks (sd_lqs s ! i) = t # lq_tasks lq"
  shows "sched_ready s = add_mset t (sched_ready (s\<lparr>sd_lqs := (sd_lqs s)[i := lq]\<rparr>))"
proof -
  have "(\<Sum>x \<leftarrow> ((sd_lqs s)[i := lq])[i := sd_lqs s ! i]. mset (lq_tasks x))
      = add_mset t (\<Sum>x \<leftarrow> (sd_lqs s)[i := lq]. mset (lq_tasks x))"
    using assms by (intro sum_list_update_snoc) simp_all
  then show ?thesis by (simp add: sched_ready_def)
qed

lemma worker_pick_ok:
  assumes inv: "sched_inv (ks_sched (kn_store k))" and w: "worker_at k i = Some w" "wk_id w = of_nat i"
    and i: "i < unat (sd_n_workers (ks_sched (kn_store k)))"
  shows "\<exists>r s'. worker_pick i k = Some (r, kn_upd_sched s' k) \<and> picked (ks_sched (kn_store k)) i r s'"
proof -
  let ?s = "ks_sched (kn_store k)"
  have u: "unat (wk_id w) = i"
    using w(2) less_trans [OF i unat32_lt] by (simp add: unat_of_nat_lt)
  note lq = sched_inv_lq [OF inv i]
  have g: "arr_get (sd_lqs ?s) (unat (wk_id w)) = Some (sd_lqs ?s ! i)" using lq(2) by (simp add: u exec_simps)
  have ov: "mpmc_inv (sd_overflow ?s)" "rq_inv (sd_rq ?s)" using inv by (simp_all add: sched_inv_def)
  show ?thesis
  proof (rule lqy.pop_cases [OF lq(1)])
    fix t lq' assume p: "gmk_lq_pop (sd_lqs ?s ! i) = Some (Some t, lq')" "lq_inv lq'"
      "lq_tasks (sd_lqs ?s ! i) = t # lq_tasks lq'"
    let ?s' = "?s\<lparr>sd_lqs := (sd_lqs ?s)[i := lq']\<rparr>"
    have "picked ?s i (Some t) ?s'"
      using sched_inv_update_lq [OF inv p(2)] sched_ready_pop_local [OF lq(2) p(3)] p(3) lq(2)
      by (simp add: picked_def worker_next_def within_reach_def)
    then show ?thesis using w(1) g p(1) by (auto simp: worker_pick_def Let_def u)
  next
    assume p: "gmk_lq_pop (sd_lqs ?s ! i) = Some (None, sd_lqs ?s ! i)" "lq_tasks (sd_lqs ?s ! i) = []"
    have same: "?s\<lparr>sd_lqs := (sd_lqs ?s)[i := sd_lqs ?s ! i]\<rparr> = ?s" by simp
    show ?thesis
    proof (rule mpmc.pop_cases [OF ov(1)])
      fix t o' assume q: "gmk_ring_mpmc_pop (sd_overflow ?s) = Some (Some t, o')" "mpmc_inv o'"
        "mpmc_contents (sd_overflow ?s) = t # mpmc_contents o'"
      have "picked ?s i (Some t) (?s\<lparr>sd_overflow := o'\<rparr>)"
        using inv q(2,3) p(2) by (simp add: picked_def worker_next_def sched_ready_def within_reach_def)
      then show ?thesis using w(1) g p(1) q(1) by (auto simp: worker_pick_def Let_def u same)
    next
      assume q: "gmk_ring_mpmc_pop (sd_overflow ?s) = Some (None, sd_overflow ?s)" "mpmc_contents (sd_overflow ?s) = []"
      obtain r rq where r: "gmk_rq_pop (sd_rq ?s) = Some (r, rq)" "rq_inv rq"
        "(r, rq_lists rq, rq_spent rq) = wrr_pop (rq_lists (sd_rq ?s)) (rq_spent (sd_rq ?s))"
        by (rule rq_pop_refines_wrr [OF ov(2)])
      have l4: "length (rq_lists (sd_rq ?s)) = 4" using ov(2) by (simp add: rq_inv_def rq_lists_def)
      have nx: "worker_next ?s i = r" using p(2) q(2) r(3) by (metis fst_conv list.case(1) worker_next_def)
      have "picked ?s i r (?s\<lparr>sd_rq := rq\<rparr>)"
        using inv r(2) p(2) q(2) nx wrr_pop_removes [OF r(3) [symmetric] l4]
        by (auto simp: picked_def sched_ready_def within_reach_def split: option.splits)
      then show ?thesis using w(1) g p(1) q(1) r(1) by (auto simp: worker_pick_def Let_def u same)
    qed
  qed
qed

lemma within_reach_empty:
  "within_reach s i = {#} \<longleftrightarrow> lq_tasks (sd_lqs s ! i) = [] \<and> mpmc_contents (sd_overflow s) = []
     \<and> (\<forall>l \<in> set (rq_lists (sd_rq s)). l = [])"
proof -
  have "(\<Sum>l \<leftarrow> ls. mset l) = {#} \<longleftrightarrow> (\<forall>l \<in> set ls. l = [])" for ls :: "gmk_task list list" by (induction ls) auto
  then show ?thesis by (auto simp: within_reach_def)
qed

lemma picked_None: "picked s i None s' \<Longrightarrow> within_reach s i = {#}"
  by (simp add: picked_def within_reach_empty)

section \<open>Due events\<close>

definition evq_tasks :: "gmk_sched \<Rightarrow> gmk_task multiset" where
  "evq_tasks s = image_mset (unstamped \<circ> ee_task) (evq_pending (sd_evq s))"

text \<open>Moving due events: each task taken from the event queue is enqueued, or, when the ready queue of
  its priority is full, is gone.  \<open>fs\<close> lists them with their fate.\<close>

lemma worker_drain_evq_ok:
  assumes "sched_inv s" "wid < 2 ^ 31"
  shows "\<exists>m s' fs. worker_drain_evq n tick wid s = Some (m, s') \<and> sched_inv s' \<and> length fs = m \<and> m \<le> n
    \<and> sd_n_workers s' = sd_n_workers s
    \<and> sched_ready s' = sched_ready s + mset (map fst (filter snd fs))
    \<and> evq_tasks s = evq_tasks s' + mset (map (unstamped \<circ> fst) fs)
    \<and> (m < n \<longrightarrow> (\<forall>e \<in># evq_pending (sd_evq s'). \<not> evq_due tick e))"
  using assms(1)
proof (induction n arbitrary: s)
  case 0
  then show ?case by (auto intro!: exI [of _ "[] :: (gmk_task \<times> bool) list"])
next
  case (Suc n)
  have ei: "evq_inv (sd_evq s)" using Suc.prems by (simp add: sched_inv_def)
  show ?case
  proof (cases "\<exists>x \<in># evq_pending (sd_evq s). evq_due tick x")
    case False
    then have "gmk_evq_pop_due (sd_evq s) tick = Some (None, sd_evq s)" using evq.pop_not_due [OF ei] by auto
    then show ?thesis using False Suc.prems by (auto intro!: exI [of _ "[] :: (gmk_task \<times> bool) list"])
  next
    case True
    then obtain e q' where e: "gmk_evq_pop_due (sd_evq s) tick = Some (Some (ee_task e), q')" "evq_inv q'"
      "e \<in># evq_pending (sd_evq s)" "evq_pending q' = evq_pending (sd_evq s) - {#e#}"
      using evq.pop_due [OF ei] by metis
    let ?s1 = "s\<lparr>sd_evq := q'\<rparr>" and ?t = "(ee_task e)\<lparr>tk_seq := sd_next_seq s\<rparr>"
    have s1: "sched_inv ?s1" "sched_ready ?s1 = sched_ready s" using Suc.prems e(2) by (simp_all add: sched_ready_def)
    obtain c s2 where q: "gmk_enqueue ?s1 (ee_task e) wid = Some (c, s2, ?t)" "sched_inv s2"
      "sched_ready s2 = (if c = 0 then add_mset ?t (sched_ready s) else sched_ready s)" "sd_evq s2 = q'"
      "sd_n_workers s2 = sd_n_workers s"
      by (rule enqueue_conserves [OF s1(1) assms(2), of "ee_task e"]) (simp add: s1(2))
    obtain m s' fs where d: "worker_drain_evq n tick wid s2 = Some (m, s')" "sched_inv s'" "length fs = m" "m \<le> n"
      "sd_n_workers s' = sd_n_workers s2"
      "sched_ready s' = sched_ready s2 + mset (map fst (filter snd fs))"
      "evq_tasks s2 = evq_tasks s' + mset (map (unstamped \<circ> fst) fs)"
      "m < n \<longrightarrow> (\<forall>e \<in># evq_pending (sd_evq s'). \<not> evq_due tick e)"
      using Suc.IH [OF q(2)] by metis
    have "evq_tasks s = add_mset (unstamped ?t) (evq_tasks s2)"
      using e(3,4) q(4) by (auto simp: evq_tasks_def dest!: multi_member_split)
    then show ?thesis using e(1) q d
      by (intro exI [of _ "Suc m"] exI [of _ s'] exI [of _ "(?t, c = 0) # fs"]) (simp add: comp_def)
  qed
qed

section \<open>Dispatch\<close>

definition wk_kernel :: "nat \<Rightarrow> gmk_kernel \<Rightarrow> bool" where
  "wk_kernel i k \<longleftrightarrow> ks_inv (kn_store k) \<and> module_inv (kn_modules k)
     \<and> i < length (pl_workers (kn_pool k)) \<and> wk_id (pl_workers (kn_pool k) ! i) = of_nat i
     \<and> i < unat (sd_n_workers (ks_sched (kn_store k)))"

lemma wk_kernelD:
  assumes "wk_kernel i k"
  shows "worker_at k i = Some (pl_workers (kn_pool k) ! i)" "obs_inv (kn_store k)" "sched_inv (ks_sched (kn_store k))"
    "module_inv (kn_modules k)" "i < unat (sd_n_workers (ks_sched (kn_store k)))" "ks_inv (kn_store k)"
    "wk_id (pl_workers (kn_pool k) ! i) = of_nat i"
  using assms by (simp_all add: wk_kernel_def worker_at_def exec_simps ks_inv_def)

lemma wk_kernel_obs: "wk_kernel i k \<Longrightarrow> obs_step (kn_store k) st \<Longrightarrow> wk_kernel i (obs k st)"
  by (auto simp: wk_kernel_def obs_step_def ks_inv_def)

lemma wk_kernel_upd_worker:
  "wk_kernel i k \<Longrightarrow> (\<And>w. wk_id (f w) = wk_id w) \<Longrightarrow> wk_kernel i (upd_worker j f k)"
  by (cases "i = j") (auto simp: wk_kernel_def upd_worker_def)

lemma kn_upd_sched_sel [simp]: "ks_sched (kn_store (kn_upd_sched s k)) = s" "kn_modules (kn_upd_sched s k) = kn_modules k"
  "kn_pool (kn_upd_sched s k) = kn_pool k" "kn_hal (kn_upd_sched s k) = kn_hal k" "kn_chan (kn_upd_sched s k) = kn_chan k"
  "ks_alloc (kn_store (kn_upd_sched s k)) = ks_alloc (kn_store k)"
  by (simp_all add: kn_upd_sched_def)

lemma upd_worker_sel [simp]: "kn_store (upd_worker j f k) = kn_store k" "kn_modules (upd_worker j f k) = kn_modules k"
  "kn_hal (upd_worker j f k) = kn_hal k" "kn_chan (upd_worker j f k) = kn_chan k"
  by (simp_all add: upd_worker_def)

lemma wk_kernel_upd_sched:
  "wk_kernel i k \<Longrightarrow> sched_inv s \<Longrightarrow> sd_n_workers s = sd_n_workers (ks_sched (kn_store k)) \<Longrightarrow>
   wk_kernel i (kn_upd_sched s k)"
  by (auto simp: wk_kernel_def kn_upd_sched_def)

lemma worker_metric_step:
  assumes "wk_kernel i k"
  obtains st where "worker_metric w k tenant metric = Some (obs k st)" "obs_step (kn_store k) st" "wk_kernel i (obs k st)"
proof (cases "wk_metrics w")
  case True
  obtain st where "kn_metric k tenant metric = Some (obs k st)" "obs_step (kn_store k) st"
    by (rule kn_metric_step [OF wk_kernelD(2) [OF assms]])
  then show ?thesis using True wk_kernel_obs [OF assms] by (intro that [of st]) (simp_all add: worker_metric_def)
next
  case False
  then show ?thesis using assms obs_step_refl [OF wk_kernelD(2) [OF assms]]
    by (intro that [of "kn_store k"]) (simp_all add: worker_metric_def)
qed

lemma release_plain: "\<not> has_rc t \<Longrightarrow> release_payload t k = Some k"
  by (auto simp: release_payload_def has_rc_def)

lemma record_fail_kept:
  assumes "wk_kernel i k"
  shows "\<exists>k'. gmk_module_record_fail ty k = Some k' \<and> wk_kernel i k' \<and> ks_sched (kn_store k') = ks_sched (kn_store k)
    \<and> ks_alloc (kn_store k') = ks_alloc (kn_store k)"
proof (cases "ty < 256")
  case True
  from record_fail_eq [OF wk_kernelD(4,2) [OF assms] True] obtain st k' where
    "gmk_module_record_fail ty k = Some (obs k' st)" "obs_step (kn_store k) st" "module_inv (kn_modules k')"
    "kn_store k' = kn_store k" "kn_pool k' = kn_pool k"
    using wk_kernelD(4) [OF assms] by (force simp: module_inv_def)
  then show ?thesis using assms by (auto simp: wk_kernel_def obs_step_def ks_inv_def)
next
  case False
  then have "256 \<le> ty" by simp
  then show ?thesis using assms by (simp add: gmk_module_record_fail_def)
qed

text \<open>Handlers that leave the kernel alone; \<open>ret\<close> says what they return.\<close>

definition quiet :: "(addr \<Rightarrow> gmk_ctx \<Rightarrow> rc) \<Rightarrow> callbacks" where
  "quiet ret = (\<lambda>fn ctx k. Some (ret fn ctx, ctx, k))"

lemma dispatch_quiet:
  assumes k: "wk_kernel i k" and t: "cx_task ctx = Some t" and ret: "\<And>fn ctx. ret fn ctx \<noteq> GMK_RETRY"
  shows "\<exists>c st. gmk_module_dispatch (quiet ret) ctx k = Some (c, ctx, obs k st) \<and> obs_step (kn_store k) st
    \<and> c \<noteq> GMK_RETRY"
proof (rule dispatch_cases [OF wk_kernelD(4,2) [OF k] t, of "quiet ret"])
  assume "gmk_module_dispatch (quiet ret) ctx k = Some (-5, ctx, k)"
  then show ?thesis using obs_step_refl [OF wk_kernelD(2) [OF k]]
    by (intro exI [of _ "-5"] exI [of _ "kn_store k"]) simp
next
  fix st assume "gmk_module_dispatch (quiet ret) ctx k = Some (-8, ctx, obs k st)" "obs_step (kn_store k) st"
  then show ?thesis by (intro exI [of _ "-8"] exI [of _ st]) simp
next
  fix st assume o: "obs_step (kn_store k) st" and e: "gmk_module_dispatch (quiet ret) ctx k =
         do { (c, ctx', k2) \<leftarrow> quiet ret (mr_dispatch (kn_modules k) ! unat (tk_type t)) ctx (obs k st);
              task' \<leftarrow> cx_task ctx';
              k3 \<leftarrow> module_trace k2 (tk_tenant task') GMK_EV_TASK_END (ucast (tk_type t)) (tk_seq task') (of_int c);
              Some (c, ctx', k3) }"
  let ?c = "ret (mr_dispatch (kn_modules k) ! unat (tk_type t)) ctx"
  have ob: "obs_inv (kn_store (obs k st))" using o by (simp add: obs_step_def)
  obtain st' where "module_trace (obs k st) (tk_tenant t) GMK_EV_TASK_END (ucast (tk_type t)) (tk_seq t) (of_int ?c)
      = Some (obs (obs k st) st')" "obs_step (kn_store (obs k st)) st'"
    by (rule module_trace_step [OF ob])
  then show ?thesis using e t obs_step_trans [OF o, of st'] ret
    by (intro exI [of _ ?c] exI [of _ st']) (simp add: quiet_def)
qed

lemma worker_dispatch_quiet:
  assumes k: "wk_kernel i k" and t: "\<not> has_rc t" and ret: "\<And>fn ctx. ret fn ctx \<noteq> GMK_RETRY"
  shows "\<exists>k'. worker_dispatch_task (quiet ret) i t k = Some k' \<and> wk_kernel i k'
    \<and> ks_sched (kn_store k') = ks_sched (kn_store k)"
proof -
  let ?w = "pl_workers (kn_pool k) ! i"
  obtain st1 where m: "worker_metric ?w k (tk_tenant t) GMK_METRIC_TASKS_DISPATCHED = Some (obs k st1)"
    "obs_step (kn_store k) st1" "wk_kernel i (obs k st1)" by (rule worker_metric_step [OF k])
  let ?ctx = "\<lparr>cx_task = Some t, cx_worker_id = wk_id ?w, cx_tick = wk_tick ?w\<rparr>"
  obtain c st2 where d: "gmk_module_dispatch (quiet ret) ?ctx (obs k st1) = Some (c, ?ctx, obs k st2)"
    "obs_step st1 st2" "c \<noteq> GMK_RETRY"
    using dispatch_quiet [OF m(3), of ?ctx t ret] ret by auto
  have k2: "wk_kernel i (obs k st2)" "ks_sched st2 = ks_sched (kn_store k)"
    using wk_kernel_obs [OF k obs_step_trans [OF m(2) d(2)]] m(2) d(2) by (simp_all add: obs_step_def)
  show ?thesis
  proof (cases "c = GMK_OK")
    case True
    then have "worker_dispatch_task (quiet ret) i t k
        = Some (upd_worker i (\<lambda>w. w\<lparr>wk_tasks_dispatched := wk_tasks_dispatched w + 1\<rparr>) (obs k st2))"
      using wk_kernelD(1) [OF k] m(1) d(1) release_plain [OF t] by (simp add: worker_dispatch_task_def)
    then show ?thesis using k2 by (auto intro!: wk_kernel_upd_worker)
  next
    case False
    obtain k3 where r: "gmk_module_record_fail (tk_type t) (obs k st2) = Some k3" "wk_kernel i k3"
      "ks_sched (kn_store k3) = ks_sched st2" using record_fail_kept [OF k2(1)] by auto
    obtain st4 where "worker_metric ?w k3 (tk_tenant t) GMK_METRIC_TASKS_FAILED = Some (obs k3 st4)"
      "obs_step (kn_store k3) st4" "wk_kernel i (obs k3 st4)" by (rule worker_metric_step [OF r(2)])
    then show ?thesis
      using wk_kernelD(1) [OF k] m(1) d(1,3) release_plain [OF t] r False k2
      by (intro exI [of _ "obs k3 st4"]) (simp add: worker_dispatch_task_def obs_step_def)
  qed
qed

section \<open>Rounds\<close>

text \<open>A round that finds a task.\<close>

lemma worker_round_busy:
  assumes k: "wk_kernel i k" and ret: "\<And>fn ctx. ret fn ctx \<noteq> GMK_RETRY"
    and ne: "within_reach (ks_sched (kn_store k)) i \<noteq> {#}"
    and rc: "\<forall>t \<in># within_reach (ks_sched (kn_store k)) i. \<not> has_rc t"
  shows "\<exists>t k'. worker_next (ks_sched (kn_store k)) i = Some t \<and> worker_round (quiet ret) i env k = Some (True, k')
    \<and> wk_kernel i k' \<and> picked (ks_sched (kn_store k)) i (Some t) (ks_sched (kn_store k'))"
proof -
  let ?s = "ks_sched (kn_store k)" and ?w = "pl_workers (kn_pool k) ! i"
  obtain r s' where p: "worker_pick i k = Some (r, kn_upd_sched s' k)" "picked ?s i r s'"
    using worker_pick_ok [OF wk_kernelD(3,1,7,5) [OF k]] by blast
  then obtain t where r: "r = Some t" using ne picked_None by (cases r) auto
  have t: "\<not> has_rc t" "sched_inv s'" "sd_n_workers s' = sd_n_workers ?s" "worker_next ?s i = Some t"
    using p(2) rc r by (auto simp: picked_def)
  note k1 = wk_kernel_upd_sched [OF k t(2,3)]
  obtain st where m: "worker_metric ?w (kn_upd_sched s' k) (tk_tenant t) GMK_METRIC_TASKS_DEQUEUED
      = Some (obs (kn_upd_sched s' k) st)" "obs_step (kn_store (kn_upd_sched s' k)) st" "wk_kernel i (obs (kn_upd_sched s' k) st)"
    by (rule worker_metric_step [OF k1])
  obtain k' where d: "worker_dispatch_task (quiet ret) i t (obs (kn_upd_sched s' k) st) = Some k'" "wk_kernel i k'"
    "ks_sched (kn_store k') = s'"
    using worker_dispatch_quiet [OF m(3) t(1), of ret] ret m(2) by (auto simp: obs_step_def)
  then have "worker_round (quiet ret) i env k = Some (True, k')"
    using wk_kernelD(1) [OF k] p(1) m(1) r by (simp add: worker_round_def)
  then show ?thesis using d p(2) r t(4) by auto
qed

fun worker_rounds :: "callbacks \<Rightarrow> nat \<Rightarrow> nat \<Rightarrow> gmk_kernel \<Rightarrow> gmk_kernel exec" where
  "worker_rounds run i 0 k = Some k"
| "worker_rounds run i (Suc n) k = do { (_, k') \<leftarrow> worker_round run i id k; worker_rounds run i n k' }"

lemma worker_rounds_clear:
  assumes "wk_kernel i k" "\<And>fn ctx. ret fn ctx \<noteq> GMK_RETRY"
    "\<forall>t \<in># within_reach (ks_sched (kn_store k)) i. \<not> has_rc t" "n = size (within_reach (ks_sched (kn_store k)) i)"
  shows "\<exists>k'. worker_rounds (quiet ret) i n k = Some k' \<and> wk_kernel i k'
    \<and> within_reach (ks_sched (kn_store k')) i = {#}
    \<and> sched_ready (ks_sched (kn_store k)) = sched_ready (ks_sched (kn_store k')) + within_reach (ks_sched (kn_store k)) i
    \<and> sd_evq (ks_sched (kn_store k')) = sd_evq (ks_sched (kn_store k))"
  using assms
proof (induction n arbitrary: k)
  case 0
  then show ?case by (auto simp: eq_commute [of "{#}"])
next
  case (Suc n)
  have ne: "within_reach (ks_sched (kn_store k)) i \<noteq> {#}" using Suc.prems(4) by auto
  obtain t k1 where r: "worker_round (quiet ret) i id k = Some (True, k1)" "wk_kernel i k1"
    "picked (ks_sched (kn_store k)) i (Some t) (ks_sched (kn_store k1))"
    using worker_round_busy [of i k ret id] Suc.prems(1-3) ne by auto
  then have w: "within_reach (ks_sched (kn_store k)) i = add_mset t (within_reach (ks_sched (kn_store k1)) i)"
    "sched_ready (ks_sched (kn_store k)) = add_mset t (sched_ready (ks_sched (kn_store k1)))"
    "sd_evq (ks_sched (kn_store k1)) = sd_evq (ks_sched (kn_store k))"
    by (simp_all add: picked_def)
  obtain k' where "worker_rounds (quiet ret) i n k1 = Some k'" "wk_kernel i k'"
    "within_reach (ks_sched (kn_store k')) i = {#}"
    "sched_ready (ks_sched (kn_store k1)) = sched_ready (ks_sched (kn_store k')) + within_reach (ks_sched (kn_store k1)) i"
    "sd_evq (ks_sched (kn_store k')) = sd_evq (ks_sched (kn_store k1))"
    using Suc.IH [OF r(2)] Suc.prems(2-4) w by auto
  then show ?case using r(1) w by auto
qed

text \<open>A round without a task within reach: due events are moved, and only when there is none the worker
  parks.\<close>

lemma worker_round_idle:
  assumes k: "wk_kernel i k" and e: "within_reach (ks_sched (kn_store k)) i = {#}"
  defines "tick \<equiv> wk_tick (pl_workers (kn_pool k) ! i)" and "evs \<equiv> evq_pending (sd_evq (ks_sched (kn_store k)))"
  obtains (moved) m s' where "\<exists>x \<in># evs. evq_due tick x" "0 < m" "m \<le> 256"
      "worker_round run i env k = Some (True, kn_upd_sched s' k)" "sched_inv s'"
      "m < 256 \<longrightarrow> (\<forall>x \<in># evq_pending (sd_evq s'). \<not> evq_due tick x)"
      "\<exists>fs. length fs = m \<and> sched_ready s' = sched_ready (ks_sched (kn_store k)) + mset (map fst (filter snd fs))
         \<and> evq_tasks (ks_sched (kn_store k)) = evq_tasks s' + mset (map (unstamped \<circ> fst) fs)"
    | (park) k2 where "\<forall>x \<in># evs. \<not> evq_due tick x" "wk_kernel i k2"
      "sched_ready (ks_sched (kn_store k2)) = sched_ready (ks_sched (kn_store k))"
      "worker_round run i env k = do { k3 \<leftarrow> worker_park i env k2; Some (False, k3) }"
proof -
  let ?s = "ks_sched (kn_store k)" and ?w = "pl_workers (kn_pool k) ! i"
  obtain r s1 where p: "worker_pick i k = Some (r, kn_upd_sched s1 k)" "picked ?s i r s1"
    using worker_pick_ok [OF wk_kernelD(3,1,7,5) [OF k]] by blast
  then have r: "r = None" using e by (cases r) (simp_all add: picked_def)
  have s1: "sched_inv s1" "sd_n_workers s1 = sd_n_workers ?s" "sd_evq s1 = sd_evq ?s" "sched_ready s1 = sched_ready ?s"
    using p(2) r by (simp_all add: picked_def)
  have wid: "sint (wk_id ?w) < 2 ^ 31" using sint_lt [of "wk_id ?w"] by simp
  obtain m s' fs where d: "worker_drain_evq 256 tick (sint (wk_id ?w)) s1 = Some (m, s')" "sched_inv s'" "length fs = m"
    "m \<le> 256" "sd_n_workers s' = sd_n_workers s1" "sched_ready s' = sched_ready s1 + mset (map fst (filter snd fs))"
    "evq_tasks s1 = evq_tasks s' + mset (map (unstamped \<circ> fst) fs)"
    "m < 256 \<longrightarrow> (\<forall>x \<in># evq_pending (sd_evq s'). \<not> evq_due tick x)"
    using worker_drain_evq_ok [OF s1(1) wid] by blast
  have et: "evq_tasks s1 = evq_tasks ?s" using s1(3) by (simp add: evq_tasks_def)
  have up: "kn_upd_sched s' (kn_upd_sched s1 k) = kn_upd_sched s' k" by (simp add: kn_upd_sched_def)
  have "worker_drain_evq (Suc 255) tick (sint (wk_id ?w)) s1 = Some (m, s')" using d(1) by simp
  note d1 = this [unfolded worker_drain_evq.simps(2)]
  have due: "m = 0 \<longleftrightarrow> (\<forall>x \<in># evs. \<not> evq_due tick x)"
  proof
    assume z: "m = 0"
    then have "size (evq_tasks s1) = size (evq_tasks s')" using d(3,7) by simp
    show "\<forall>x \<in># evs. \<not> evq_due tick x"
    proof (rule ccontr)
      assume "\<not> ?thesis"
      then obtain x where "x \<in># evq_pending (sd_evq s1)" "evq_due tick x" using s1(3) by (auto simp: evs_def)
      then obtain e q where "gmk_evq_pop_due (sd_evq s1) tick = Some (Some e, q)"
        using evq.pop_due [of "sd_evq s1"] s1(1) by (fastforce simp: sched_inv_def)
      then show False using d1 z by (auto simp: bind_eq_Some_conv)
    qed
  next
    assume "\<forall>x \<in># evs. \<not> evq_due tick x"
    then have "gmk_evq_pop_due (sd_evq s1) tick = Some (None, sd_evq s1)"
      using evq.pop_not_due [of "sd_evq s1"] s1(1,3) by (auto simp: sched_inv_def evs_def)
    then show "m = 0" using d1 by auto
  qed
  show ?thesis
  proof (cases "m = 0")
    case True
    let ?k2 = "kn_upd_sched s' (kn_upd_sched s1 k)"
    have "worker_round run i env k = do { k3 \<leftarrow> worker_park i env ?k2; Some (False, k3) }"
      using wk_kernelD(1) [OF k] p(1) r d(1) True by (simp add: worker_round_def tick_def Let_def)
    moreover have "wk_kernel i ?k2" unfolding up
      by (rule wk_kernel_upd_sched [OF k d(2)]) (simp add: d(5) s1(2))
    ultimately show ?thesis using True due d(3,6) s1(4) by (intro that(2) [of ?k2]) simp_all
  next
    case False
    then have "worker_round run i env k = Some (True, kn_upd_sched s' k)"
      using wk_kernelD(1) [OF k] p(1) r d(1) up by (simp add: worker_round_def tick_def Let_def)
    moreover have "\<exists>x \<in># evs. evq_due tick x" using False due by blast
    ultimately show ?thesis using False d s1(4) et by (intro that(1) [of m s']) auto
  qed
qed

text \<open>A handler that asks for a retry: the task goes back to the ready queue, if that has room.\<close>

lemma worker_dispatch_retry:
  assumes k: "wk_kernel i k" and ty: "tk_type t < 256" "mr_dispatch (kn_modules k) ! unat (tk_type t) \<noteq> 0"
    "\<not> mr_poisoned (kn_modules k) ! unat (tk_type t)"
  defines "s \<equiv> ks_sched (kn_store k)"
  shows "\<exists>k'. worker_dispatch_task (quiet (\<lambda>_ _. GMK_RETRY)) i t k = Some k' \<and> wk_kernel i k'
    \<and> sched_ready (ks_sched (kn_store k')) = (if sched_takes s t (-1)
         then add_mset (t\<lparr>tk_seq := sd_next_seq s\<rparr>) (sched_ready s) else sched_ready s)"
proof -
  let ?w = "pl_workers (kn_pool k) ! i" and ?run = "quiet (\<lambda>_ _. GMK_RETRY)"
  obtain st1 where m: "worker_metric ?w k (tk_tenant t) GMK_METRIC_TASKS_DISPATCHED = Some (obs k st1)"
    "obs_step (kn_store k) st1" "wk_kernel i (obs k st1)" by (rule worker_metric_step [OF k])
  let ?ctx = "\<lparr>cx_task = Some t, cx_worker_id = wk_id ?w, cx_tick = wk_tick ?w\<rparr>"
  obtain st2 where d: "gmk_module_dispatch ?run ?ctx (obs k st1) = Some (GMK_RETRY, ?ctx, obs k st2)" "obs_step st1 st2"
  proof (rule dispatch_cases [OF wk_kernelD(4,2) [OF m(3)], of ?ctx t ?run])
    fix st assume o: "obs_step (kn_store (obs k st1)) st" and e: "gmk_module_dispatch ?run ?ctx (obs k st1) =
         do { (c, ctx', k2) \<leftarrow> ?run (mr_dispatch (kn_modules (obs k st1)) ! unat (tk_type t)) ?ctx (obs (obs k st1) st);
              task' \<leftarrow> cx_task ctx';
              k3 \<leftarrow> module_trace k2 (tk_tenant task') GMK_EV_TASK_END (ucast (tk_type t)) (tk_seq task') (of_int c);
              Some (c, ctx', k3) }"
    have ob: "obs_inv (kn_store (obs k st))" using o by (simp add: obs_step_def)
    obtain st' where "module_trace (obs k st) (tk_tenant t) GMK_EV_TASK_END (ucast (tk_type t)) (tk_seq t) (of_int GMK_RETRY)
        = Some (obs (obs k st) st')" "obs_step (kn_store (obs k st)) st'" by (rule module_trace_step [OF ob])
    then show thesis using e o obs_step_trans [of st1 st st'] by (intro that [of st']) (simp_all add: quiet_def)
  qed (use ty in \<open>auto simp: word_le_nat_alt word_less_nat_alt\<close>)
  have k2: "wk_kernel i (obs k st2)" "ks_sched st2 = s"
    using wk_kernel_obs [OF k obs_step_trans [OF m(2) d(2)]] m(2) d(2) by (simp_all add: obs_step_def s_def)
  have si: "sched_inv s" using wk_kernelD(3) [OF k] by (simp add: s_def)
  obtain e s' where q: "gmk_enqueue s t (-1) = Some (e, s', t\<lparr>tk_seq := sd_next_seq s\<rparr>)" "sched_inv s'"
    "sched_ready s' = (if sched_takes s t (-1) then add_mset (t\<lparr>tk_seq := sd_next_seq s\<rparr>) (sched_ready s) else sched_ready s)"
    by (rule enqueue_takes [OF si, of "-1" t]) auto
  have n: "sd_n_workers s' = sd_n_workers s" using enqueue_conserves [OF si, of "-1" t] q(1) by fastforce
  have k3: "wk_kernel i (kn_upd_sched s' (obs k st2))"
    by (rule wk_kernel_upd_sched [OF k2(1) q(2)]) (use n k2(2) in simp)
  obtain st3 where "worker_metric ?w (kn_upd_sched s' (obs k st2)) (tk_tenant t) GMK_METRIC_TASKS_RETRIED
      = Some (obs (kn_upd_sched s' (obs k st2)) st3)" "obs_step (kn_store (kn_upd_sched s' (obs k st2))) st3"
      "wk_kernel i (obs (kn_upd_sched s' (obs k st2)) st3)"
    by (rule worker_metric_step [OF k3])
  then show ?thesis using wk_kernelD(1) [OF k] m(1) d(1) k2(2) q
    by (intro exI [of _ "obs (kn_upd_sched s' (obs k st2)) st3"]) (simp add: worker_dispatch_task_def obs_step_def)
qed

end
