(* ===== verification/Boot_Laws.thy ===== *)
theory Boot_Laws
  imports Boot Worker_Laws
begin

text \<open>
  Booting and halting: what a well-formed kernel is, what is relied on of the modules' callbacks, and
  that every exit of \<open>gmk_boot\<close> and \<open>gmk_halt\<close> gives back what has been allocated.
\<close>

section \<open>Well-formed kernels\<close>

definition kernel_blocks :: "gmk_kernel \<Rightarrow> addr multiset" where
  "kernel_blocks k = chan_blocks (kn_chan k) + (sched_blocks (ks_sched (kn_store k)) + (trace_blocks (ks_trace (kn_store k))
     + add_mset (ar_base (al_arena (ks_alloc (kn_store k)))) (if pl_ptr (kn_pool k) = 0 then {#} else {#pl_ptr (kn_pool k)#})))"

definition kernel_wf :: "hal \<Rightarrow> gmk_kernel \<Rightarrow> bool" where
  "kernel_wf h0 k \<longleftrightarrow> alloc_inv (ks_alloc (kn_store k)) \<and> trace_inv (ks_trace (kn_store k))
     \<and> metrics_inv (ks_metrics (kn_store k)) \<and> sched_inv (ks_sched (kn_store k)) \<and> chan_inv (kn_chan k)
     \<and> module_inv (kn_modules k) \<and> hal_owns h0 (kernel_blocks k) (kn_hal k)"

text \<open>What is relied on of a module's callback: it returns and leaves a well-formed kernel, with the same
  modules, workers and configuration.\<close>

definition good_callbacks :: "hal \<Rightarrow> callbacks \<Rightarrow> bool" where
  "good_callbacks h0 run \<longleftrightarrow> (\<forall>fn ctx k. kernel_wf h0 k \<longrightarrow> (\<exists>c ctx' k'. run fn ctx k = Some (c, ctx', k')
     \<and> kernel_wf h0 k' \<and> kn_pool k' = kn_pool k \<and> kn_cfg k' = kn_cfg k
     \<and> mr_n_modules (kn_modules k') = mr_n_modules (kn_modules k)))"

lemma quiet_good: "good_callbacks h0 (quiet ret)"
  by (simp add: good_callbacks_def quiet_def)

lemma kernel_wf_obs:
  "kernel_wf h0 k \<Longrightarrow> obs_step (kn_store k) st \<Longrightarrow> kernel_wf h0 (obs k st)"
  by (auto simp: kernel_wf_def obs_step_def obs_inv_def trace_kept_def kernel_blocks_def)

lemma kernel_wf_obs_inv: "kernel_wf h0 k \<Longrightarrow> obs_inv (kn_store k)"
  by (simp add: kernel_wf_def obs_inv_def)

section \<open>Clean-up\<close>

lemma fail_trace_frees:
  "hal_owns h0 (add_mset (ar_base (al_arena (ks_alloc (kn_store k)))) P) (kn_hal k) \<Longrightarrow>
   \<exists>k'. fail_trace k = Some (-1, k') \<and> hal_owns h0 P (kn_hal k')"
  using alloc_destroy_frees by (fastforce simp: fail_trace_def split: prod.splits)

lemma fail_metrics_frees:
  assumes "trace_inv (ks_trace (kn_store k))"
    "hal_owns h0 (trace_blocks (ks_trace (kn_store k)) + add_mset (ar_base (al_arena (ks_alloc (kn_store k)))) P) (kn_hal k)"
  shows "\<exists>k'. fail_metrics k = Some (-1, k') \<and> hal_owns h0 P (kn_hal k')"
proof -
  obtain t h where "gmk_trace_destroy (ks_trace (kn_store k)) (kn_hal k) = Some (t, h)"
    "hal_owns h0 (add_mset (ar_base (al_arena (ks_alloc (kn_store k)))) P) h"
    using trace_destroy_frees [OF assms] by blast
  then show ?thesis
    using fail_trace_frees [of h0 "k\<lparr>kn_store := (kn_store k)\<lparr>ks_trace := t\<rparr>, kn_hal := h\<rparr>" P]
    by (simp add: fail_metrics_def)
qed

lemma fail_sched_frees:
  assumes "trace_inv (ks_trace (kn_store k))"
    "hal_owns h0 (trace_blocks (ks_trace (kn_store k)) + add_mset (ar_base (al_arena (ks_alloc (kn_store k)))) P) (kn_hal k)"
  shows "\<exists>k'. fail_sched k = Some (-1, k') \<and> hal_owns h0 P (kn_hal k')"
  unfolding fail_sched_def by (rule fail_metrics_frees) (use assms in simp_all)

lemma fail_chan_frees:
  assumes "sched_inv (ks_sched (kn_store k))" "trace_inv (ks_trace (kn_store k))"
    "hal_owns h0 (sched_blocks (ks_sched (kn_store k)) + (trace_blocks (ks_trace (kn_store k))
       + add_mset (ar_base (al_arena (ks_alloc (kn_store k)))) P)) (kn_hal k)"
  shows "\<exists>k'. fail_chan k = Some (-1, k') \<and> hal_owns h0 P (kn_hal k')"
proof -
  obtain s h where "gmk_sched_destroy (ks_sched (kn_store k)) (kn_hal k) = Some (s, h)"
    "hal_owns h0 (trace_blocks (ks_trace (kn_store k)) + add_mset (ar_base (al_arena (ks_alloc (kn_store k)))) P) h"
    using sched_destroy_frees [OF assms(1,3)] by blast
  then show ?thesis
    using fail_sched_frees [of "k\<lparr>kn_store := (kn_store k)\<lparr>ks_sched := s\<rparr>, kn_hal := h\<rparr>" h0 P] assms(2)
    by (simp add: fail_chan_def)
qed

text \<open>From \<open>fail_mod\<close> on everything is given back but the worker pool.\<close>

lemma fail_mod_frees:
  assumes wf: "kernel_wf h0 k" and p: "pl_ptr (kn_pool k) = 0"
  shows "\<exists>k'. fail_mod k = Some (-1, k') \<and> hal_blocks (kn_hal k') = hal_blocks h0"
proof -
  let ?P = "sched_blocks (ks_sched (kn_store k)) + (trace_blocks (ks_trace (kn_store k))
    + add_mset (ar_base (al_arena (ks_alloc (kn_store k)))) {#})"
  have o: "hal_owns h0 (chan_blocks (kn_chan k) + ?P) (kn_hal k)" and c: "chan_inv (kn_chan k)"
    using wf p by (simp_all add: kernel_wf_def kernel_blocks_def)
  obtain cr h where "gmk_chan_reg_destroy (kn_chan k) (kn_hal k) = Some (cr, h)" "hal_owns h0 ?P h"
    using chan_reg_destroy_frees [OF c o] by blast
  then show ?thesis
    using fail_chan_frees [of "k\<lparr>kn_chan := cr, kn_hal := h\<rparr>" h0 "{#}"] wf
    by (auto simp: fail_mod_def kernel_wf_def hal_owns_empty)
qed

lemma kernel_wf_modules [simp]:
  "kernel_wf h0 k \<Longrightarrow> module_inv mr \<Longrightarrow> kernel_wf h0 (k\<lparr>kn_modules := mr\<rparr>)"
proof -
  have "kernel_blocks (k\<lparr>kn_modules := mr\<rparr>) = kernel_blocks k" by (simp add: kernel_blocks_def)
  then show "kernel_wf h0 k \<Longrightarrow> module_inv mr \<Longrightarrow> kernel_wf h0 (k\<lparr>kn_modules := mr\<rparr>)" by (simp add: kernel_wf_def)
qed

lemma fail_init_frees:
  assumes "kernel_wf h0 k" "pl_ptr (kn_pool k) = 0"
  shows "\<exists>k'. fail_init k = Some (-1, k') \<and> hal_blocks (kn_hal k') = hal_blocks h0"
proof -
  have "gmk_module_reg_destroy (kn_modules k) = kn_modules k" by (simp add: gmk_module_reg_destroy_def)
  then show ?thesis using fail_mod_frees [OF assms] by (simp add: fail_init_def)
qed

section \<open>Callbacks\<close>

lemma module_at_ok:
  "module_inv (kn_modules k) \<Longrightarrow> i < unat (mr_n_modules (kn_modules k)) \<Longrightarrow> \<exists>m. module_at k i = Some m"
proof -
  assume a: "module_inv (kn_modules k)" "i < unat (mr_n_modules (kn_modules k))"
  then have "i < 64" "length (mr_modules (kn_modules k)) = 64" by (auto simp: module_inv_def word_le_nat_alt)
  moreover obtain m where "mr_modules (kn_modules k) ! i = Some m" using a by (auto simp: module_inv_def)
  ultimately show ?thesis by (simp add: module_at_def exec_simps)
qed

lemma good_callbacksD:
  assumes "good_callbacks h0 run" "kernel_wf h0 k"
  obtains c ctx' k' where "run fn ctx k = Some (c, ctx', k')" "kernel_wf h0 k'" "kn_pool k' = kn_pool k"
    "kn_cfg k' = kn_cfg k" "mr_n_modules (kn_modules k') = mr_n_modules (kn_modules k)"
  using assms unfolding good_callbacks_def by blast

lemma module_init_from_ok:
  assumes good: "good_callbacks h0 run"
  shows "kernel_wf h0 k \<Longrightarrow> i \<le> mr_n_modules (kn_modules k) \<Longrightarrow>
    \<exists>c k'. module_init_from run i ctx k = Some (c, k') \<and> kernel_wf h0 k' \<and> kn_pool k' = kn_pool k \<and> kn_cfg k' = kn_cfg k"
proof (induction "unat (mr_n_modules (kn_modules k) - i)" arbitrary: i ctx k rule: less_induct)
  case less
  show ?case
  proof (cases "i < mr_n_modules (kn_modules k)")
    case False
    then show ?thesis using less.prems by (subst module_init_from.simps) auto
  next
    case True
    have le: "i + 1 \<le> mr_n_modules (kn_modules k)" using True by (simp add: inc_le)
    have dec: "unat (mr_n_modules (kn_modules k) - (i + 1)) < unat (mr_n_modules (kn_modules k) - i)"
    proof -
      have "unat i < 64" using True less.prems(1) by (auto simp: kernel_wf_def module_inv_def word_less_nat_alt word_le_nat_alt)
      then have "unat (i + 1) = unat i + 1" by (simp add: unat_word_ariths)
      then show ?thesis using True unat_sub [OF le] unat_sub [OF less.prems(2)] by (simp add: word_less_nat_alt)
    qed
    obtain m where m: "module_at k (unat i) = Some m"
      using module_at_ok [of k "unat i"] less.prems True by (auto simp: kernel_wf_def word_less_nat_alt)
    show ?thesis
    proof (cases "md_init m = 0")
      case z: True
      then show ?thesis using less.hyps [OF dec less.prems(1) le, of ctx] m True by (subst module_init_from.simps) auto
    next
      case nz: False
      obtain c ctx' k' where r: "run (md_init m) ctx k = Some (c, ctx', k')" "kernel_wf h0 k'" "kn_pool k' = kn_pool k"
        "kn_cfg k' = kn_cfg k" "mr_n_modules (kn_modules k') = mr_n_modules (kn_modules k)"
        by (rule good_callbacksD [OF good less.prems(1)])
      show ?thesis
      proof (cases "c = 0")
        case True
        then show ?thesis
          using less.hyps [of k' "i + 1" ctx'] dec le r m nz \<open>i < mr_n_modules (kn_modules k)\<close>
          by (subst module_init_from.simps) auto
      next
        case False
        then show ?thesis using r m nz True by (subst module_init_from.simps) auto
      qed
    qed
  qed
qed

lemma module_fini_down_ok:
  assumes good: "good_callbacks h0 run"
  shows "kernel_wf h0 k \<Longrightarrow> n \<le> unat (mr_n_modules (kn_modules k)) \<Longrightarrow>
    \<exists>k'. module_fini_down run n ctx k = Some k' \<and> kernel_wf h0 k' \<and> kn_pool k' = kn_pool k"
proof (induction n arbitrary: ctx k)
  case (Suc n)
  obtain m where m: "module_at k n = Some m"
    using module_at_ok [of k n] Suc.prems by (auto simp: kernel_wf_def)
  obtain c ctx' k' where "run (md_fini m) ctx k = Some (c, ctx', k')" "kernel_wf h0 k'" "kn_pool k' = kn_pool k"
      "mr_n_modules (kn_modules k') = mr_n_modules (kn_modules k)"
    by (rule good_callbacksD [OF good Suc.prems(1)])
  then show ?case using Suc.IH [of k ctx] Suc.IH [of k' ctx'] Suc.prems m by auto
qed simp

lemma module_fini_all_ok:
  assumes "good_callbacks h0 run" "kernel_wf h0 k"
  shows "\<exists>k'. gmk_module_fini_all run ctx k = Some k' \<and> kernel_wf h0 k' \<and> kn_pool k' = kn_pool k"
  unfolding gmk_module_fini_all_def by (rule module_fini_down_ok [OF assms]) simp

section \<open>The worker pool\<close>

lemma kernel_wf_upd_worker [simp]: "kernel_wf h0 (upd_worker i f k) = kernel_wf h0 k"
  by (simp add: kernel_wf_def kernel_blocks_def upd_worker_def)

lemma kernel_wf_signals [simp]: "kernel_wf h0 (gmk_worker_wake i k) = kernel_wf h0 k"
  by (simp add: kernel_wf_def kernel_blocks_def gmk_worker_wake_def)

lemma kernel_wf_fold: "(\<And>i k. kernel_wf h0 (f i k) = kernel_wf h0 k) \<Longrightarrow> kernel_wf h0 (fold f is k) = kernel_wf h0 k"
  by (induction "is" arbitrary: k) auto

lemma pool_start_wf: "pool_start_from create is k = (c, k') \<Longrightarrow> kernel_wf h0 k' = kernel_wf h0 k"
  by (induction "is" arbitrary: k) (auto simp: Let_def kernel_wf_fold split: if_splits)

lemma pool_stop_wf: "kernel_wf h0 (gmk_worker_pool_stop k) = kernel_wf h0 k"
  by (simp add: gmk_worker_pool_stop_def gmk_worker_wake_all_def kernel_wf_fold)

lemma pool_destroy_wf:
  assumes "kernel_wf h0 k"
  shows "kernel_wf h0 (gmk_worker_pool_destroy k)" "pl_ptr (kn_pool (gmk_worker_pool_destroy k)) = 0"
proof -
  show "pl_ptr (kn_pool (gmk_worker_pool_destroy k)) = 0" by (simp add: gmk_worker_pool_destroy_def)
  show "kernel_wf h0 (gmk_worker_pool_destroy k)"
  proof (cases "pl_ptr (kn_pool k) = 0")
    case False
    let ?k = "gmk_worker_pool_destroy k"
    have "kernel_blocks k = add_mset (pl_ptr (kn_pool k)) (kernel_blocks ?k)"
      using False by (simp add: kernel_blocks_def gmk_worker_pool_destroy_def)
    then have "hal_owns h0 (kernel_blocks ?k) (kn_hal ?k)"
      using assms False hal_owns_free [of h0 "pl_ptr (kn_pool k)" "kernel_blocks ?k" "kn_hal k"]
      by (simp add: kernel_wf_def gmk_worker_pool_destroy_def)
    then show ?thesis using assms by (simp add: kernel_wf_def gmk_worker_pool_destroy_def)
  qed (use assms in \<open>simp add: gmk_worker_pool_destroy_def\<close>)
qed

lemma pool_init_wf:
  assumes wf: "kernel_wf h0 k" and z: "pl_ptr (kn_pool k) = 0"
    and i: "gmk_worker_pool_init (kn_pool k) n t m (kn_hal k) = (c, pool, h)"
  shows "kernel_wf h0 (k\<lparr>kn_pool := pool, kn_hal := h\<rparr>)" "c \<noteq> 0 \<Longrightarrow> pl_ptr pool = 0"
proof -
  obtain p h' where a: "gmk_hal_calloc (ucast n) sizeof_gmk_worker (kn_hal k) = (p, h')"
    using prod.exhaust by blast
  have o: "hal_owns h0 (if p = 0 then kernel_blocks k else add_mset p (kernel_blocks k)) h'"
    using wf hal_owns_calloc [OF _ a, of h0 "kernel_blocks k"] by (simp add: kernel_wf_def)
  have e: "h = kn_hal k \<and> pool = kn_pool k \<and> c \<noteq> 0 \<or> h = h' \<and> pl_ptr pool = p \<and> (c \<noteq> 0 \<longrightarrow> p = 0)"
    using i a unfolding gmk_worker_pool_init_def by (auto simp: Let_def split: if_splits)
  then show "c \<noteq> 0 \<Longrightarrow> pl_ptr pool = 0" using z by auto
  let ?k = "k\<lparr>kn_pool := pool, kn_hal := h\<rparr>"
  have "kernel_blocks ?k = (if pl_ptr pool = 0 then kernel_blocks k else add_mset (pl_ptr pool) (kernel_blocks k))"
    using z by (simp add: kernel_blocks_def)
  then have "hal_owns h0 (kernel_blocks ?k) h" using e o wf z by (auto simp: kernel_wf_def)
  then show "kernel_wf h0 ?k" using wf by (simp add: kernel_wf_def)
qed

section \<open>Boot and halt\<close>

lemma kernel_wf_running [simp]: "kernel_wf h0 (k\<lparr>kn_running := b\<rparr>) = kernel_wf h0 k"
proof -
  have "kernel_blocks (k\<lparr>kn_running := b\<rparr>) = kernel_blocks k" by (simp add: kernel_blocks_def)
  then show ?thesis by (simp add: kernel_wf_def)
qed

lemma halt_frees:
  assumes good: "good_callbacks h0 run" and wf: "kernel_wf h0 k"
  shows "\<exists>k'. gmk_halt run k = Some k' \<and> hal_blocks (kn_hal k') = hal_blocks h0"
proof -
  have wf': "kernel_wf h0 (k\<lparr>kn_running := False\<rparr>)" using wf by simp
  obtain st where t: "kn_trace_force (k\<lparr>kn_running := False\<rparr>) 0 GMK_EV_HALT 0 0 0 = Some (obs (k\<lparr>kn_running := False\<rparr>) st)"
    "obs_step (kn_store (k\<lparr>kn_running := False\<rparr>)) st"
    by (rule kn_trace_force_step [OF kernel_wf_obs_inv [OF wf']])
  let ?k1 = "obs (k\<lparr>kn_running := False\<rparr>) st"
  have "kernel_wf h0 (gmk_worker_pool_stop ?k1)" using kernel_wf_obs [OF wf' t(2)] by (simp add: pool_stop_wf)
  note d = pool_destroy_wf [OF this]
  obtain k2 where f: "gmk_module_fini_all run boot_ctx (gmk_worker_pool_destroy (gmk_worker_pool_stop ?k1)) = Some k2"
    "kernel_wf h0 k2" "pl_ptr (kn_pool k2) = 0"
    using module_fini_all_ok [OF good d(1), of boot_ctx] d(2) by auto
  have r: "gmk_module_reg_destroy (kn_modules k2) = kn_modules k2" by (simp add: gmk_module_reg_destroy_def)
  obtain k3 where "fail_mod k2 = Some (-1, k3)" "hal_blocks (kn_hal k3) = hal_blocks h0"
    using fail_mod_frees [OF f(2,3)] by blast
  then show ?thesis using t(1) f(1) r by (simp add: gmk_halt_def Let_def)
qed

lemma fail_pool_frees:
  assumes "good_callbacks h0 run" "kernel_wf h0 k" "pl_ptr (kn_pool k) = 0"
  shows "\<exists>k'. fail_pool run k = Some (-1, k') \<and> hal_blocks (kn_hal k') = hal_blocks h0"
proof -
  obtain k1 where "gmk_module_fini_all run boot_ctx k = Some k1" "kernel_wf h0 k1" "pl_ptr (kn_pool k1) = 0"
    using module_fini_all_ok [OF assms(1,2), of boot_ctx] assms(3) by auto
  then show ?thesis using fail_init_frees [of h0 k1] by (simp add: fail_pool_def)
qed

text \<open>A module whose handler array has the length that it states and no null handler.\<close>

definition module_ok :: "gmk_module \<Rightarrow> bool" where
  "module_ok md \<longleftrightarrow> md_n_handlers md = of_nat (length (md_handlers md)) \<and> length (md_handlers md) < 2 ^ 32
     \<and> (\<forall>h \<in> set (md_handlers md). hr_fn h \<noteq> 0)"

lemma boot_register_inv:
  "module_inv mr \<Longrightarrow> \<forall>md. Some md \<in> set mods \<longrightarrow> module_ok md \<Longrightarrow>
   \<exists>c mr'. boot_register mods mr = Some (c, mr') \<and> module_inv mr'"
proof (induction mods arbitrary: mr)
  case (Cons m mods)
  show ?case
  proof (cases m)
    case None
    then show ?thesis using Cons by simp
  next
    case (Some md)
    then have "module_ok md" using Cons.prems(2) by simp
    then obtain c mr' where "gmk_module_register mr md = Some (c, mr')" "module_inv mr'"
      using module_register_spec [OF Cons.prems(1), of md] by (auto simp: module_ok_def)
    then show ?thesis using Some Cons.IH [of mr'] Cons.prems by auto
  qed
qed simp

text \<open>The outcome of booting: nothing is left allocated, or the kernel is well formed and runs.\<close>

definition booted :: "hal \<Rightarrow> rc \<Rightarrow> gmk_kernel \<Rightarrow> bool" where
  "booted h0 c k \<longleftrightarrow> (if c \<noteq> 0 then hal_blocks (kn_hal k) = hal_blocks h0 else kernel_wf h0 k \<and> kn_running k)"

definition boot_result :: "hal \<Rightarrow> (rc \<times> gmk_kernel) exec \<Rightarrow> bool" where
  "boot_result h0 x \<longleftrightarrow> (\<exists>c k. x = Some (c, k) \<and> booted h0 c k)"

lemma boot_failed: "\<exists>k'. x = Some (-1, k') \<and> hal_blocks (kn_hal k') = hal_blocks h0 \<Longrightarrow> boot_result h0 x"
  unfolding boot_result_def booted_def by (metis neg_equal_0_iff_equal zero_neq_one)

lemmas boot_exits =
  fail_trace_frees [where P = "{#}", unfolded hal_owns_empty, THEN boot_failed]
  fail_metrics_frees [where P = "{#}", unfolded hal_owns_empty, THEN boot_failed]
  fail_sched_frees [where P = "{#}", unfolded hal_owns_empty, THEN boot_failed]
  fail_chan_frees [where P = "{#}", unfolded hal_owns_empty, THEN boot_failed]
  fail_init_frees [THEN boot_failed] fail_pool_frees [THEN boot_failed]

lemma boot_modules_ok:
  assumes good: "good_callbacks h0 run" and wf: "kernel_wf h0 k" and z: "pl_ptr (kn_pool k) = 0"
    and mods: "\<forall>md. Some md \<in> set mods \<longrightarrow> module_ok md"
  shows "boot_result h0 (boot_modules run create mods k)"
proof -
  obtain c mr where r: "boot_register mods (kn_modules k) = Some (c, mr)" "module_inv mr"
    using boot_register_inv [OF _ mods, of "kn_modules k"] wf by (auto simp: kernel_wf_def)
  let ?k1 = "k\<lparr>kn_modules := mr\<rparr>"
  have w1: "kernel_wf h0 ?k1" using wf r(2) by simp
  obtain c2 k2 where i: "gmk_module_init_all run boot_ctx ?k1 = Some (c2, k2)" "kernel_wf h0 k2" "kn_pool k2 = kn_pool k"
    using module_init_from_ok [OF good w1, of 0 boot_ctx] by (auto simp: gmk_module_init_all_def)
  obtain c3 pool h where p: "gmk_worker_pool_init (kn_pool k2) (cf_n_workers (kn_cfg k2)) True True (kn_hal k2) = (c3, pool, h)"
    by (metis prod_cases3)
  let ?k3 = "k2\<lparr>kn_pool := pool, kn_hal := h\<rparr>"
  have w3: "kernel_wf h0 ?k3" "c3 \<noteq> 0 \<Longrightarrow> pl_ptr pool = 0" using pool_init_wf [OF i(2) _ p] i(3) z by auto
  obtain c4 k4 where s: "gmk_worker_pool_start create ?k3 = (c4, k4)" by fastforce
  have w4: "kernel_wf h0 k4" using pool_start_wf s w3(1) unfolding gmk_worker_pool_start_def by blast
  obtain st where t: "kn_trace_force (k4\<lparr>kn_running := True\<rparr>) 0 GMK_EV_BOOT 0 (cf_n_workers (kn_cfg k4))
      (ucast (drop_bit 20 (cf_arena_size (kn_cfg k4)))) = Some (obs (k4\<lparr>kn_running := True\<rparr>) st)"
    "obs_step (kn_store (k4\<lparr>kn_running := True\<rparr>)) st"
    by (rule kn_trace_force_step [of "k4\<lparr>kn_running := True\<rparr>"]) (use kernel_wf_obs_inv [OF w4] in simp_all)
  have w5: "kernel_wf h0 (obs (k4\<lparr>kn_running := True\<rparr>) st)" using kernel_wf_obs [OF _ t(2)] w4 by simp
  consider "c \<noteq> 0" | "c = 0" "c2 \<noteq> 0" | "c = 0" "c2 = 0" "c3 \<noteq> 0" | "c = 0" "c2 = 0" "c3 = 0" "c4 \<noteq> 0"
    | "c = 0" "c2 = 0" "c3 = 0" "c4 = 0" by blast
  then show ?thesis
  proof cases
    case 1
    then have "boot_modules run create mods k = fail_init ?k1" using r(1) by (simp add: boot_modules_def)
    then show ?thesis using boot_exits(5) [OF w1] z by simp
  next
    case 2
    then have "boot_modules run create mods k = fail_init k2" using r(1) i(1) by (simp add: boot_modules_def)
    then show ?thesis using boot_exits(5) [OF i(2)] i(3) z by simp
  next
    case 3
    then have "boot_modules run create mods k = fail_pool run ?k3" using r(1) i(1) p by (simp add: boot_modules_def)
    then show ?thesis using boot_exits(6) [OF good w3(1)] w3(2) 3(3) by simp
  next
    case 4
    then have "boot_modules run create mods k = fail_start run k4" using r(1) i(1) p s by (simp add: boot_modules_def)
    then show ?thesis using boot_exits(6) [OF good pool_destroy_wf [OF w4]] by (simp add: fail_start_def)
  next
    case 5
    then have "boot_modules run create mods k = Some (0, obs (k4\<lparr>kn_running := True\<rparr>) st)"
      using r(1) i(1) p s t(1) by (simp add: boot_modules_def)
    then show ?thesis using w5 by (simp add: boot_result_def booted_def)
  qed
qed

lemma trace_init_large:
  "n = 0 \<or> 16 < n \<Longrightarrow> gmk_trace_init t n h = Some (-1, t, h)"
  by (auto simp: gmk_trace_init_def)

lemma sched_init_large: "n = 0 \<or> 32 < n \<Longrightarrow> gmk_sched_init s n h = Some (-1, s, h)"
  by (auto simp: gmk_sched_init_def)

lemma boot_sched_init:
  assumes "n \<noteq> 0" "hal_owns h0 P h"
  shows "\<exists>c s' h'. gmk_sched_init s n h = Some (c, s', h') \<and> (c \<noteq> 0 \<longrightarrow> hal_owns h0 P h')
    \<and> (c = 0 \<longrightarrow> sched_inv s' \<and> hal_owns h0 (sched_blocks s' + P) h')"
proof (cases "n \<le> 32")
  case True
  show ?thesis by (rule sched_init_cases [OF assms(2,1) True, of s]) auto
next
  case False
  then have "gmk_sched_init s n h = Some (-1, s, h)" by (intro sched_init_large) auto
  then show ?thesis using assms(2) by simp
qed

lemma boot_metrics_init:
  assumes "n \<noteq> 0" "n \<le> 16"
  shows "\<exists>m'. gmk_metrics_init m n = (0, m') \<and> metrics_inv m'"
proof -
  have "\<not> 16 < n" using assms(2) by simp
  then show ?thesis using assms(1) metrics_init_inv [of m n] by (simp add: gmk_metrics_init_def)
qed

lemma boot_config_nonzero: "cf_n_workers (boot_config cfg) \<noteq> 0" "cf_n_tenants (boot_config cfg) \<noteq> 0"
  "cf_arena_size (boot_config cfg) \<noteq> 0"
  by (auto simp: boot_config_def Let_def)

text \<open>Booting, step by step.\<close>

lemma boot_ok:
  assumes good: "good_callbacks h run" and mods: "\<forall>md. Some md \<in> set mods \<longrightarrow> module_ok md" and space: "libc_in_space h"
    and size: "4096 \<le> unat (cf_arena_size (boot_config cfg))" "unat (cf_arena_size (boot_config cfg)) < 2 ^ 33"
  shows "boot_result h (gmk_boot run create tsc cfg mods h)"
proof -
  let ?c = "boot_config cfg"
  let ?k0 = "(zero_kernel tsc h)\<lparr>kn_cfg := ?c\<rparr>"
  note nz = boot_config_nonzero [of cfg] and b = gmk_boot_def [of run create tsc cfg mods h]
  show ?thesis
  proof (rule alloc_init_cases [OF size hal_owns_refl space, of "ks_alloc (kn_store ?k0)"])
    fix a h1 assume "gmk_alloc_init (ks_alloc (kn_store ?k0)) (cf_arena_size ?c) h = (-1, a, h1)" "hal_owns h {#} h1"
    then show ?thesis by (intro boot_failed) (auto simp: b Let_def hal_owns_empty)
  next
    fix a h1 assume a: "gmk_alloc_init (ks_alloc (kn_store ?k0)) (cf_arena_size ?c) h = (0, a, h1)" "alloc_inv a"
      "hal_owns h (add_mset (ar_base (al_arena a)) {#}) h1"
    let ?k1 = "?k0\<lparr>kn_store := (kn_store ?k0)\<lparr>ks_alloc := a\<rparr>, kn_hal := h1\<rparr>"
    obtain c2 t h2 where t: "gmk_trace_init (ks_trace (kn_store ?k1)) (cf_n_tenants ?c) h1 = Some (c2, t, h2)"
      "c2 \<noteq> 0 \<Longrightarrow> hal_owns h (add_mset (ar_base (al_arena a)) {#}) h2"
      "c2 = 0 \<Longrightarrow> cf_n_tenants ?c \<le> 16 \<and> trace_inv t \<and> hal_owns h (trace_blocks t + add_mset (ar_base (al_arena a)) {#}) h2"
    proof (cases "cf_n_tenants ?c \<le> 16")
      case True
      then show thesis by (rule trace_init_cases [OF nz(2) _ a(3), of "ks_trace (kn_store ?k1)"]) (use True that in auto)
    next
      case False
      then have "gmk_trace_init (ks_trace (kn_store ?k1)) (cf_n_tenants ?c) h1 = Some (-1, ks_trace (kn_store ?k1), h1)"
        by (intro trace_init_large) auto
      then show thesis using a(3) that by simp
    qed
    let ?k2 = "?k1\<lparr>kn_store := (kn_store ?k1)\<lparr>ks_trace := t\<rparr>, kn_hal := h2\<rparr>"
    show ?thesis
    proof (cases "c2 = 0")
      case False
      then have "gmk_boot run create tsc cfg mods h = fail_trace ?k2" using a(1) t(1) by (simp add: b Let_def)
      then show ?thesis using boot_exits(1) [of h ?k2] t(2) False by simp
    next
      case c2: True
      note t3 = t(3) [OF c2]
      obtain m where m: "gmk_metrics_init (ks_metrics (kn_store ?k2)) (cf_n_tenants ?c) = (0, m)" "metrics_inv m"
        using boot_metrics_init [OF nz(2) conjunct1 [OF t3]] by blast
      let ?k3 = "?k2\<lparr>kn_store := (kn_store ?k2)\<lparr>ks_metrics := m\<rparr>\<rparr>"
      let ?P = "trace_blocks t + add_mset (ar_base (al_arena a)) {#}"
      obtain c4 s h4 where s: "gmk_sched_init (ks_sched (kn_store ?k3)) (cf_n_workers ?c) h2 = Some (c4, s, h4)"
        "c4 \<noteq> 0 \<longrightarrow> hal_owns h ?P h4" "c4 = 0 \<longrightarrow> sched_inv s \<and> hal_owns h (sched_blocks s + ?P) h4"
        using boot_sched_init [OF nz(1) conjunct2 [OF conjunct2 [OF t3]], of "ks_sched (kn_store ?k3)"] by blast
      let ?k4 = "?k3\<lparr>kn_store := (kn_store ?k3)\<lparr>ks_sched := s\<rparr>, kn_hal := h4\<rparr>"
      show ?thesis
      proof (cases "c4 = 0")
        case False
        then have "gmk_boot run create tsc cfg mods h = fail_sched ?k4" using a(1) t(1) c2 m(1) s(1) by (simp add: b Let_def)
        then show ?thesis using boot_exits(3) [of ?k4 h] t3 s(2) False by simp
      next
        case c4: True
        note s3 = mp [OF s(3) c4]
        obtain c5 cr h5 where r: "gmk_chan_reg_init True True True h4 = (c5, cr, h5)"
          "c5 \<noteq> 0 \<Longrightarrow> hal_owns h (sched_blocks s + ?P) h5"
          "c5 = 0 \<Longrightarrow> chan_inv cr \<and> hal_owns h (chan_blocks cr + (sched_blocks s + ?P)) h5"
          by (rule chan_reg_init_cases [OF conjunct2 [OF s3], of True True True]) auto
        let ?k5 = "?k4\<lparr>kn_chan := cr, kn_hal := h5\<rparr>"
        show ?thesis
        proof (cases "c5 = 0")
          case False
          then have "gmk_boot run create tsc cfg mods h = fail_chan ?k5"
            using a(1) t(1) c2 m(1) s(1) c4 r(1) by (simp add: b Let_def)
          then show ?thesis using boot_exits(4) [of ?k5 h] t3 s3 r(2) False by simp
        next
          case c5: True
          let ?k6 = "?k5\<lparr>kn_modules := gmk_module_reg_init True\<rparr>"
          have e: "gmk_boot run create tsc cfg mods h = boot_modules run create mods ?k6"
            using a(1) t(1) c2 m(1) s(1) c4 r(1) c5 by (simp add: b Let_def)
          have p: "pl_ptr (kn_pool ?k6) = 0" by (simp add: zero_kernel_def zero_pool_def)
          then have "kernel_wf h ?k6" using a(2) t3 m(2) s3 r(3) [OF c5] module_reg_init_inv
            by (simp add: kernel_wf_def kernel_blocks_def)
          then show ?thesis unfolding e by (rule boot_modules_ok [OF good _ p mods])
        qed
      qed
    qed
  qed
qed

end
