(* ===== verification/Kernel_Properties.thy ===== *)
theory Kernel_Properties
  imports Boot_Laws Sample_Channels
begin

text \<open>
  The properties of the kernel: modules and their handlers, workers, booting and halting, and the
  submission of tasks.
\<close>

section \<open>Sample kernels\<close>

definition sample_modules :: gmk_module_reg where
  "sample_modules = zero_module_reg\<lparr>mr_dispatch := (mr_dispatch zero_module_reg)[7 := 0x1000]\<rparr>"

definition sample_handler :: "u32 \<Rightarrow> gmk_handler_reg" where
  "sample_handler ty = \<lparr>hr_type = ty, hr_fn = 0x1000, hr_name = ''h'', hr_flags = 0, hr_max_yields = 0\<rparr>"

definition sample_kernel :: "gmk_sched \<Rightarrow> gmk_kernel" where
  "sample_kernel s = \<lparr>kn_store = (sample_store sample_alloc)\<lparr>ks_sched := s\<rparr>, kn_chan = sample_reg zero_task,
     kn_modules = sample_modules, kn_pool = \<lparr>pl_ptr = 0, pl_workers = [init_worker True True 0], pl_n_workers = 1\<rparr>,
     kn_cfg = \<lparr>cf_arena_size = 8192, cf_n_workers = 1, cf_n_tenants = 1\<rparr>, kn_running = True, kn_tick = 0,
     kn_signals = [], kn_hal = sample_hal\<rparr>"

lemma sample_modules_inv: "module_inv sample_modules" "mr_dispatch sample_modules ! 7 = 0x1000"
  "mr_fail_counts sample_modules ! 7 = 0" "\<not> mr_poisoned sample_modules ! 7" "mr_dispatch sample_modules ! 9 = 0"
  by (simp_all add: module_inv_def sample_modules_def zero_module_reg_def)

lemma sample_kernel_inv:
  assumes "sched_inv s" "sd_n_workers s = 1"
  shows "wk_kernel 0 (sample_kernel s)" "obs_inv (kn_store (sample_kernel s))" "ks_sched (kn_store (sample_kernel s)) = s"
    "kn_modules (sample_kernel s) = sample_modules"
proof -
  show "obs_inv (kn_store (sample_kernel s))" using sample_store_inv(2) by (simp add: sample_kernel_def)
  show "wk_kernel 0 (sample_kernel s)" using sample_store_inv(1) [of sample_alloc] assms sample_modules_inv(1)
    by (simp add: wk_kernel_def sample_kernel_def init_worker_def zero_worker_def)
qed (simp_all add: sample_kernel_def)

section \<open>Modules\<close>

text \<open>C21: Poisoning.  A handler type that has failed \<open>n\<close> times since it was clean is poisoned exactly when
  \<open>n\<close> is at least 16, no other type is affected, and from then on a task of the type is refused with
  the poison error without its handler being run, whatever the handler would do.  Resetting the type
  clears it.\<close>

theorem poison_after_sixteen:
  assumes "module_inv (kn_modules k)" "obs_inv (kn_store k)" "ty < 256" "mr_fail_counts (kn_modules k) ! unat ty = 0"
    "\<not> mr_poisoned (kn_modules k) ! unat ty" "mr_dispatch (kn_modules k) ! unat ty \<noteq> 0" "n < 2 ^ 32"
    "cx_task ctx = Some t" "tk_type t = ty"
  shows "\<exists>k' mr. record_fails n ty k = Some k' \<and> gmk_module_is_poisoned (kn_modules k') ty = Some (16 \<le> n)
    \<and> (\<forall>ty'. ty' \<noteq> ty \<longrightarrow> gmk_module_is_poisoned (kn_modules k') ty' = gmk_module_is_poisoned (kn_modules k) ty')
    \<and> (16 \<le> n \<longrightarrow> (\<forall>run. \<exists>k''. gmk_module_dispatch run ctx k' = Some (GMK_FAIL GMK_ERR_POISONED, ctx, k'')
         \<and> kn_modules k'' = kn_modules k' \<and> ks_sched (kn_store k'') = ks_sched (kn_store k)))
    \<and> gmk_module_reset_poison (kn_modules k') ty = Some mr \<and> gmk_module_is_poisoned mr ty = Some False
    \<and> mr_fail_counts mr ! unat ty = 0"
proof -
  let ?mr = "(kn_modules k)\<lparr>mr_fail_counts := (mr_fail_counts (kn_modules k))[unat ty := of_nat n],
       mr_poisoned := (mr_poisoned (kn_modules k))[unat ty := 16 \<le> n]\<rparr>"
  obtain st where r: "record_fails n ty k = Some (obs (k\<lparr>kn_modules := ?mr\<rparr>) st)" "obs_step (kn_store k) st"
    using record_fails_state [OF assms(1-5,7)] by blast
  let ?k = "obs (k\<lparr>kn_modules := ?mr\<rparr>) st"
  have i: "unat ty < 256" "\<not> 256 \<le> ty" using assms(3) by (simp_all add: word_less_nat_alt word_le_nat_alt)
  have len: "length (mr_poisoned (kn_modules k)) = 256" "length (mr_fail_counts (kn_modules k)) = 256"
    using assms(1) by (simp_all add: module_inv_def)
  have inv: "module_inv (kn_modules ?k)" "obs_inv (kn_store ?k)"
    using assms(1) obs_step_inv [OF r(2)] by (simp_all add: module_inv_def)
  have 1: "gmk_module_is_poisoned (kn_modules ?k) ty = Some (16 \<le> n)"
    using i len by (simp add: gmk_module_is_poisoned_def exec_simps)
  have 2: "gmk_module_is_poisoned (kn_modules ?k) ty' = gmk_module_is_poisoned (kn_modules k) ty'" if "ty' \<noteq> ty" for ty'
    using that by (simp add: gmk_module_is_poisoned_def arr_get_def word_unat_eq_iff)
  have 3: "\<exists>k''. gmk_module_dispatch run ctx ?k = Some (GMK_FAIL GMK_ERR_POISONED, ctx, k'')
     \<and> kn_modules k'' = kn_modules ?k \<and> ks_sched (kn_store k'') = ks_sched (kn_store k)" if "16 \<le> n" for run
    by (rule dispatch_cases [OF inv assms(8), of run]) (use that i len assms(6,9) r(2) in \<open>auto simp: obs_step_def\<close>)
  let ?mr' = "?mr\<lparr>mr_poisoned := (mr_poisoned ?mr)[unat ty := False], mr_fail_counts := (mr_fail_counts ?mr)[unat ty := 0]\<rparr>"
  have 4: "gmk_module_reset_poison (kn_modules ?k) ty = Some ?mr'" "gmk_module_is_poisoned ?mr' ty = Some False"
    "mr_fail_counts ?mr' ! unat ty = 0"
    using i len by (simp_all add: gmk_module_reset_poison_def gmk_module_is_poisoned_def exec_simps)
  show ?thesis by (rule exI [of _ ?k], rule exI [of _ ?mr']) (use r(1) 1 2 3 4 in blast)
qed

theorem poison_after_sixteen_witness:
  "\<exists>k' k''. record_fails 16 7 (sample_kernel sample_sched) = Some k'
    \<and> gmk_module_dispatch (\<lambda>_ _ _. None) \<lparr>cx_task = Some (zero_task\<lparr>tk_type := 7\<rparr>), cx_worker_id = 0, cx_tick = 0\<rparr> k'
      = Some (-8, \<lparr>cx_task = Some (zero_task\<lparr>tk_type := 7\<rparr>), cx_worker_id = 0, cx_tick = 0\<rparr>, k'')"
proof -
  let ?ctx = "\<lparr>cx_task = Some (zero_task\<lparr>tk_type := 7\<rparr>), cx_worker_id = 0, cx_tick = 0\<rparr>"
  have s: "sched_inv sample_sched" "sd_n_workers sample_sched = 1" by (simp_all add: sample_sched_inv, simp add: sample_sched_def)
  note k = sample_kernel_inv [OF s]
  show ?thesis
    using poison_after_sixteen [of "sample_kernel sample_sched" 7 16 ?ctx "zero_task\<lparr>tk_type := 7\<rparr>"]
      sample_modules_inv k by (auto dest: spec [where x = "\<lambda>_ _ _. None"])
qed

text \<open>Registration.  \<open>gmk_module_register\<close> accepts a module exactly when fewer than 64 modules are
  registered and its handlers' types are below 256, pairwise different and free; then the dispatch
  table gets exactly the module's handlers and keeps the rest.  Otherwise an error is returned and
  no module is added.\<close>

theorem module_register_outcome:
  assumes "module_inv mr" "module_ok md"
  shows "\<exists>c mr'. gmk_module_register mr md = Some (c, mr') \<and> module_inv mr'
    \<and> (if mr_n_modules mr = 64 then c = -2 \<and> mr' = mr
       else if can_register (md_handlers md) mr
       then c = 0 \<and> mr_n_modules mr' = mr_n_modules mr + 1
         \<and> mr_modules mr' = (mr_modules mr)[unat (mr_n_modules mr) := Some md]
         \<and> mr_poisoned mr' = mr_poisoned mr \<and> mr_fail_counts mr' = mr_fail_counts mr
         \<and> (\<forall>i < 256. mr_dispatch mr' ! i = table_with (md_handlers md) (mr_dispatch mr) i)
       else (c = -4 \<or> c = -6) \<and> mr_modules mr' = mr_modules mr \<and> mr_n_modules mr' = mr_n_modules mr)"
  using module_register_spec [OF assms(1)] assms(2) by (simp add: module_ok_def)

definition sample_module :: "u32 list \<Rightarrow> gmk_module" where
  "sample_module tys = \<lparr>md_name = ''m'', md_version = 1, md_handlers = map sample_handler tys,
     md_n_handlers = of_nat (length tys), md_channels = [], md_n_channels = 0, md_init = 0, md_fini = 0\<rparr>"

theorem module_register_outcome_witness:
  "(\<exists>mr'. gmk_module_register sample_modules (sample_module [9, 10]) = Some (0, mr')
      \<and> mr_dispatch mr' ! 9 = 0x1000 \<and> mr_dispatch mr' ! 7 = 0x1000)
   \<and> (\<exists>c mr'. gmk_module_register sample_modules (sample_module [9, 7]) = Some (c, mr') \<and> c \<noteq> 0)"
proof -
  have ok: "module_ok (sample_module tys)" if "length tys < 2 ^ 32" for tys
    using that by (simp add: module_ok_def sample_module_def sample_handler_def)
  have n: "mr_n_modules sample_modules \<noteq> 64" by (simp add: sample_modules_def zero_module_reg_def)
  have c: "can_register (md_handlers (sample_module [9, 10])) sample_modules"
    "\<not> can_register (md_handlers (sample_module [9, 7])) sample_modules"
    by (simp_all add: can_register_def sample_module_def sample_handler_def sample_modules_def zero_module_reg_def)
  have t: "table_with (md_handlers (sample_module [9, 10])) (mr_dispatch sample_modules) 9 = 0x1000"
    "table_with (md_handlers (sample_module [9, 10])) (mr_dispatch sample_modules) 7 = 0x1000"
    using sample_modules_inv(2) by (simp_all add: table_with_def sample_module_def sample_handler_def)
  have "\<exists>mr'. gmk_module_register sample_modules (sample_module [9, 10]) = Some (0, mr')
      \<and> mr_dispatch mr' ! 9 = 0x1000 \<and> mr_dispatch mr' ! 7 = 0x1000"
    using module_register_outcome [OF sample_modules_inv(1) ok, of "[9, 10]"] n c(1) t by auto
  moreover have "\<exists>c mr'. gmk_module_register sample_modules (sample_module [9, 7]) = Some (c, mr') \<and> c \<noteq> 0"
    using module_register_outcome [OF sample_modules_inv(1) ok, of "[9, 7]"] n c(2) by auto
  ultimately show ?thesis by blast
qed

section \<open>Workers\<close>

definition sample_busy :: gmk_sched where
  "sample_busy = sample_sched\<lparr>sd_overflow := sample_one zero_task\<rparr>"

lemma sample_busy_inv: "sched_inv sample_busy" "sd_n_workers sample_busy = 1" "within_reach sample_busy 0 = {#zero_task#}"
proof -
  show "sched_inv sample_busy" using sample_sched_inv sample_one_inv(1) by (simp add: sample_busy_def)
  show "sd_n_workers sample_busy = 1" by (simp add: sample_busy_def sample_sched_def)
  show "within_reach sample_busy 0 = {#zero_task#}"
    using sample_lq_inv(2) sample_rq_inv(2) sample_one_inv(2) [of zero_task]
    by (simp add: within_reach_def sample_busy_def sample_sched_def numeral_eq_Suc)
qed

lemma sample_sched_ok: "sched_inv sample_sched" "sd_n_workers sample_sched = 1" "within_reach sample_sched 0 = {#}"
  "evq_pending (sd_evq sample_sched) = {#}"
proof -
  show "sched_inv sample_sched" by (rule sample_sched_inv)
  show "sd_n_workers sample_sched = 1" "evq_pending (sd_evq sample_sched) = {#}"
    using sample_evq_inv(2) by (simp_all add: sample_sched_def)
  show "within_reach sample_sched 0 = {#}"
    using sample_lq_inv(2) sample_rq_inv(2) sample_mpmc_inv(2) [of zero_task]
    by (simp add: within_reach_def sample_sched_def numeral_eq_Suc)
qed



text \<open>C20: A worker parks only when it is idle.  Whatever the handlers do, a round that ends in the park
  has found no task within reach and no event that is due; a task within reach is taken in the order
  own queue, overflow queue, weighted ready queue.\<close>

theorem worker_parks_idle:
  assumes "wk_kernel i k" "worker_round run i env k = Some (got, k')"
  shows "(got = False \<longrightarrow> within_reach (ks_sched (kn_store k)) i = {#}
      \<and> (\<forall>e \<in># evq_pending (sd_evq (ks_sched (kn_store k))). \<not> evq_due (wk_tick (pl_workers (kn_pool k) ! i)) e))
    \<and> (\<exists>s'. worker_pick i k = Some (worker_next (ks_sched (kn_store k)) i, kn_upd_sched s' k))"
proof -
  obtain r s' where p: "worker_pick i k = Some (r, kn_upd_sched s' k)" "picked (ks_sched (kn_store k)) i r s'"
    using worker_pick_ok [OF wk_kernelD(3,1,7,5) [OF assms(1)]] by blast
  have n: "r = worker_next (ks_sched (kn_store k)) i" using p(2) by (simp add: picked_def)
  have "within_reach (ks_sched (kn_store k)) i = {#}
      \<and> (\<forall>e \<in># evq_pending (sd_evq (ks_sched (kn_store k))). \<not> evq_due (wk_tick (pl_workers (kn_pool k) ! i)) e)" if "got = False"
  proof -
    have "r = None" using assms(2) that p(1) wk_kernelD(1) [OF assms(1)]
      by (auto simp: worker_round_def bind_eq_Some_conv split: option.splits)
    then have e: "within_reach (ks_sched (kn_store k)) i = {#}" using p(2) picked_None by blast
    then show ?thesis by (rule worker_round_idle [OF assms(1), of run env]) (use assms(2) that e in auto)
  qed
  then show ?thesis using p(1) n by blast
qed

theorem worker_parks_idle_witness:
  "\<exists>k'. worker_round (quiet (\<lambda>_ _. GMK_OK)) 0 id (sample_kernel sample_busy) = Some (True, k')
    \<and> (\<exists>s'. worker_pick 0 (sample_kernel sample_busy) = Some (Some zero_task, kn_upd_sched s' (sample_kernel sample_busy)))"
proof -
  note k = sample_kernel_inv [OF sample_busy_inv(1,2)]
  have "\<not> has_rc zero_task" by (simp add: has_rc_def zero_task_def)
  then obtain k' where r: "worker_round (quiet (\<lambda>_ _. GMK_OK)) 0 id (sample_kernel sample_busy) = Some (True, k')"
    using worker_round_busy [OF k(1), of "\<lambda>_ _. GMK_OK" id] k(3) sample_busy_inv(3) by auto
  have "worker_next sample_busy 0 = Some zero_task"
    using sample_lq_inv(2) sample_one_inv(2) [of zero_task] by (simp add: worker_next_def sample_busy_def sample_sched_def)
  then show ?thesis using worker_parks_idle [OF k(1) r] k(3) r by auto
qed

definition sample_timer :: gmk_sched where
  "sample_timer = sample_sched\<lparr>sd_evq := sample_evq\<lparr>evq_count := 1\<rparr>\<rparr>"

lemma sample_timer_ok: "sched_inv sample_timer" "sd_n_workers sample_timer = 1" "within_reach sample_timer 0 = {#}"
  "evq_pending (sd_evq sample_timer) = {#zero_evq_entry#}" "evq_due 0 zero_evq_entry"
proof -
  have "evq_inv (sample_evq\<lparr>evq_count := 1\<rparr>)"
    by (simp add: sample_evq_def evq_inv_def heap_ok_def evq_pending_def evq_key_def zero_evq_entry_def zero_task_def GMK_PRIORITY_def)
  then show "sched_inv sample_timer" using sample_sched_inv by (simp add: sample_timer_def)
  show "sd_n_workers sample_timer = 1" "within_reach sample_timer 0 = {#}"
    using sample_sched_ok(2,3) by (simp_all add: sample_timer_def within_reach_def)
  show "evq_pending (sd_evq sample_timer) = {#zero_evq_entry#}" "evq_due 0 zero_evq_entry"
    by (simp_all add: sample_timer_def sample_evq_def evq_pending_def evq_due_def evq_entry_tick_def zero_evq_entry_def)
qed

text \<open>Due events.  A worker with no task within reach takes due events out of the event queue, at most
  256 in a round and all of them when there are fewer.  Each task taken is queued for execution, or,
  when the scheduler refuses it, is dropped: \<open>fs\<close> lists the tasks with what became of them.\<close>

theorem worker_moves_due_events:
  assumes "wk_kernel i k" "within_reach (ks_sched (kn_store k)) i = {#}"
    "e \<in># evq_pending (sd_evq (ks_sched (kn_store k)))" "evq_due (wk_tick (pl_workers (kn_pool k) ! i)) e"
  shows "\<exists>s' fs. worker_round run i env k = Some (True, kn_upd_sched s' k) \<and> sched_inv s'
    \<and> 0 < length fs \<and> length fs \<le> 256
    \<and> (length fs < 256 \<longrightarrow> (\<forall>x \<in># evq_pending (sd_evq s'). \<not> evq_due (wk_tick (pl_workers (kn_pool k) ! i)) x))
    \<and> evq_tasks (ks_sched (kn_store k)) = evq_tasks s' + mset (map (unstamped \<circ> fst) fs)
    \<and> sched_ready s' = sched_ready (ks_sched (kn_store k)) + mset (map fst (filter snd fs))"
  by (rule worker_round_idle [OF assms(1,2), of run env]) (use assms(3,4) in blast)+

theorem worker_moves_due_events_witness:
  "\<exists>s' fs. worker_round (\<lambda>_ _ _. None) 0 id (sample_kernel sample_timer) = Some (True, kn_upd_sched s' (sample_kernel sample_timer))
    \<and> 0 < length fs \<and> {#zero_task#} = evq_tasks s' + mset (map (unstamped \<circ> fst) fs)
    \<and> sched_ready s' = sched_ready sample_timer + mset (map fst (filter snd fs))"
proof -
  note k = sample_kernel_inv [OF sample_timer_ok(1,2)]
  have "evq_tasks sample_timer = {#zero_task#}"
    using sample_timer_ok(4) by (simp add: evq_tasks_def zero_evq_entry_def unstamped_def zero_task_def)
  moreover have "wk_tick (pl_workers (kn_pool (sample_kernel sample_timer)) ! 0) = 0"
    by (simp add: sample_kernel_def init_worker_def zero_worker_def)
  ultimately show ?thesis
    using worker_moves_due_events [OF k(1), of zero_evq_entry "\<lambda>_ _ _. None" id] k(3) sample_timer_ok(3-5) by fastforce
qed



section \<open>The kernel\<close>



lemma wake_first_parked_eq:
  "wake_first_parked is k = (case find (\<lambda>i. wk_parked (pl_workers (kn_pool k) ! i)) is of
     None \<Rightarrow> k | Some i \<Rightarrow> k\<lparr>kn_signals := i # kn_signals k\<rparr>)"
  by (induction "is") (auto simp: gmk_worker_wake_def)

text \<open>Submission.  \<open>gmk_submit\<close> refuses a task when the kernel is not running and changes nothing then.
  Otherwise the task, with its sequence number, is added to the ready queue of its priority and the
  first parked worker, if there is one, is signalled; when that queue is full, the task is refused,
  the queues stay as they are and no worker is signalled.\<close>

theorem submit_outcome:
  assumes "ks_inv (kn_store k)"
  shows "\<exists>c k' t'. gmk_submit k t = Some (c, k', t') \<and>
    (if \<not> kn_running k then c = -7 \<and> k' = k \<and> t' = t
     else unstamped t' = unstamped t \<and> ks_inv (kn_store k') \<and>
       (if length (rq_lists (sd_rq (ks_sched (kn_store k))) ! task_prio t)
             < rq_caps (sd_rq (ks_sched (kn_store k))) ! task_prio t
        then c = 0 \<and> sched_ready (ks_sched (kn_store k')) = add_mset t' (sched_ready (ks_sched (kn_store k)))
          \<and> kn_signals k' = (case find (\<lambda>i. wk_parked (pl_workers (kn_pool k) ! i)) [0..<unat (pl_n_workers (kn_pool k))] of
               None \<Rightarrow> kn_signals k | Some i \<Rightarrow> i # kn_signals k)
        else c = -1 \<and> sched_ready (ks_sched (kn_store k')) = sched_ready (ks_sched (kn_store k))
          \<and> kn_signals k' = kn_signals k))"
proof (cases "kn_running k")
  case False
  then show ?thesis by (simp add: gmk_submit_def)
next
  case True
  let ?s = "ks_sched (kn_store k)"
  let ?room = "length (rq_lists (sd_rq ?s) ! task_prio t) < rq_caps (sd_rq ?s) ! task_prio t"
  have takes: "sched_takes ?s t (-1) \<longleftrightarrow> ?room" by (simp add: sched_takes_def goes_local_def)
  show ?thesis
  proof (rule enqueue_takes [OF ks_invD(2) [OF assms], of "-1" t])
    fix s' assume q: "sched_takes ?s t (-1)" "gmk_enqueue ?s t (-1) = Some (0, s', t\<lparr>tk_seq := sd_next_seq ?s\<rparr>)"
      "sched_inv s'" "sched_ready s' = add_mset (t\<lparr>tk_seq := sd_next_seq ?s\<rparr>) (sched_ready ?s)"
    let ?k1 = "kn_upd_sched s' k" and ?t = "t\<lparr>tk_seq := sd_next_seq ?s\<rparr>"
    have k1: "ks_inv (kn_store ?k1)" using assms q(3) by (simp add: kn_upd_sched_def)
    obtain st where m: "kn_metric ?k1 (tk_tenant ?t) GMK_METRIC_TASKS_ENQUEUED = Some (obs ?k1 st)" "obs_step (kn_store ?k1) st"
      by (rule kn_metric_step [OF ks_invD(1) [OF k1]])
    have "gmk_submit k t = Some (0, wake_first_parked [0..<unat (pl_n_workers (kn_pool k))] (obs ?k1 st), ?t)"
      using True q(2) m(1) by (simp add: gmk_submit_def Let_def)
    moreover have "ks_inv st" "ks_sched st = s'" using ks_inv_obs_step [OF k1 m(2)] m(2) by (simp_all add: obs_step_def)
    moreover have "kn_signals ?k1 = kn_signals k" by (simp add: kn_upd_sched_def)
    ultimately show ?thesis using True q takes by (auto simp: wake_first_parked_eq split: option.splits)
  next
    fix s' assume q: "\<not> sched_takes ?s t (-1)" "gmk_enqueue ?s t (-1) = Some (-1, s', t\<lparr>tk_seq := sd_next_seq ?s\<rparr>)"
      "sched_inv s'" "sched_ready s' = sched_ready ?s"
    have "ks_inv (kn_store (kn_upd_sched s' k))" "kn_signals (kn_upd_sched s' k) = kn_signals k"
      using assms q(3) by (simp_all add: kn_upd_sched_def)
    then show ?thesis using True q takes by (simp add: gmk_submit_def Let_def)
  qed simp
qed

theorem submit_outcome_witness:
  "\<exists>k' t'. gmk_submit (sample_kernel sample_sched) zero_task = Some (0, k', t')
    \<and> sched_ready (ks_sched (kn_store k')) = add_mset t' (sched_ready sample_sched) \<and> kn_signals k' = []"
proof -
  note k = sample_kernel_inv [OF sample_sched_ok(1,2)]
  have "rq_lists (sd_rq sample_sched) ! task_prio zero_task = []" "rq_caps (sd_rq sample_sched) ! task_prio zero_task = 2"
    using sample_rq_inv(2,4) task_prio_less_4 [of zero_task] by (simp_all add: sample_sched_def)
  moreover have "kn_running (sample_kernel sample_sched)" "kn_signals (sample_kernel sample_sched) = []"
    "find (\<lambda>i. wk_parked (pl_workers (kn_pool (sample_kernel sample_sched)) ! i))
       [0..<unat (pl_n_workers (kn_pool (sample_kernel sample_sched)))] = None"
    by (simp_all add: sample_kernel_def init_worker_def)
  ultimately show ?thesis using submit_outcome [OF wk_kernelD(6) [OF k(1)], of zero_task] k(3) by auto
qed

section \<open>Trace\<close>

text \<open>Trace records.  \<open>gmk_trace_write\<close> writes nothing when the event's level is above the trace level or
  the sampling generator rejects it.  An event of a known tenant is appended to that tenant's ring, or,
  when the ring is full, is counted as dropped; no other tenant's ring changes, and the two counters
  together count the events that passed the filters.\<close>

theorem trace_write_outcome:
  assumes "trace_inv t" "(ucast tenant :: u32) < tr_n_tenants t"
  shows "\<exists>t'. gmk_trace_write t tenant ev ty a0 a1 = Some t' \<and> trace_inv t' \<and>
    (let sampled = tr_level t = GMK_TRACE_ALL \<and> tr_sample_threshold t < -1;
         passes = ev_level ev \<le> tr_level t \<and> \<not> (sampled \<and> tr_sample_threshold t < prng_next (tr_prng_state t));
         room = length (trace_events t (unat tenant)) < spsc_capacity (tr_rings t ! unat tenant)
     in tr_total_events t' = tr_total_events t + (if passes \<and> room then 1 else 0)
      \<and> tr_dropped_events t' = tr_dropped_events t + (if passes \<and> \<not> room then 1 else 0)
      \<and> (\<forall>i < 16. trace_events t' i = trace_events t i @
           (if passes \<and> room \<and> i = unat tenant then [trace_event t tenant ev ty a0 a1] else [])))"
  using trace_write_took [OF assms, of ev ty a0 a1] unfolding trace_took_def Let_def by blast

theorem trace_write_outcome_witness:
  "\<exists>t'. gmk_trace_write sample_trace 0 GMK_EV_CHAN_FULL 7 1 2 = Some t' \<and> tr_total_events t' = 1 \<and> tr_dropped_events t' = 0
    \<and> trace_events t' 0 = [trace_event sample_trace 0 GMK_EV_CHAN_FULL 7 1 2]"
proof -
  have i: "trace_inv sample_trace" using sample_store_inv(2) [of sample_alloc] by (simp add: obs_inv_def sample_store_def)
  have n: "(ucast (0 :: u16) :: u32) < tr_n_tenants sample_trace" by (simp add: sample_trace_def)
  have "tr_rings sample_trace ! 0 = sample_spsc zero_trace_ev" by (simp add: sample_trace_def)
  then have "trace_events sample_trace 0 = []" "spsc_capacity (tr_rings sample_trace ! 0) = 2"
    using sample_spsc_inv(2,3) by (simp_all add: trace_events_def)
  moreover have "tr_level sample_trace = GMK_TRACE_ALL" "tr_sample_threshold sample_trace = -1"
    "tr_total_events sample_trace = 0" "tr_dropped_events sample_trace = 0"
    by (simp_all add: sample_trace_def zero_trace_def)
  ultimately show ?thesis
    using trace_write_outcome [OF i n, of GMK_EV_CHAN_FULL 7 1 2] by (fastforce simp: ev_level_def Let_def)
qed

end
