(* ===== verification/X86_Memops.thy ===== *)
theory X86_Memops
  imports Chan_Laws
begin

text \<open>
  The freestanding memory and string routines of \<open>arch/x86_64/memops.c\<close> (and their inline twins
  in \<open>include/ggmk/arch/string.h\<close>), over a byte memory.  Pointers are 64-bit words and advance
  with wrap-around; a length is a \<open>size_t\<close>, whose loop is a recursion on its value.

  The lemmas give each routine's effect as an equation between memories, and connect
  \<open>strncpy\<close> and \<open>strncmp\<close> with the functions on lists that the channel theory uses.
\<close>

type_synonym bytes = "addr \<Rightarrow> u8"

section \<open>The routines\<close>

fun memset_loop :: "nat \<Rightarrow> addr \<Rightarrow> u8 \<Rightarrow> bytes \<Rightarrow> bytes" where
  "memset_loop 0 d val m = m"
| "memset_loop (Suc n) d val m = memset_loop n (d + 1) val (m(d := val))"

definition memset :: "addr \<Rightarrow> int \<Rightarrow> u64 \<Rightarrow> bytes \<Rightarrow> addr \<times> bytes" where
  "memset dst c n m = (dst, memset_loop (unat n) dst (of_int c) m)"

fun copy_up :: "nat \<Rightarrow> addr \<Rightarrow> addr \<Rightarrow> bytes \<Rightarrow> bytes" where
  "copy_up 0 d s m = m"
| "copy_up (Suc n) d s m = copy_up n (d + 1) (s + 1) (m(d := m s))"

fun copy_down :: "nat \<Rightarrow> addr \<Rightarrow> addr \<Rightarrow> bytes \<Rightarrow> bytes" where
  "copy_down 0 d s m = m"
| "copy_down (Suc n) d s m = copy_down n (d - 1) (s - 1) (m(d - 1 := m (s - 1)))"

definition memcpy :: "addr \<Rightarrow> addr \<Rightarrow> u64 \<Rightarrow> bytes \<Rightarrow> addr \<times> bytes" where
  "memcpy dst src n m = (dst, copy_up (unat n) dst src m)"

definition memmove :: "addr \<Rightarrow> addr \<Rightarrow> u64 \<Rightarrow> bytes \<Rightarrow> addr \<times> bytes" where
  "memmove dst src n m =
     (if dst < src then (dst, copy_up (unat n) dst src m)
      else (dst, copy_down (unat n) (dst + n) (src + n) m))"

fun memcmp_loop :: "nat \<Rightarrow> addr \<Rightarrow> addr \<Rightarrow> bytes \<Rightarrow> int" where
  "memcmp_loop 0 a b m = 0"
| "memcmp_loop (Suc n) a b m =
     (if m a \<noteq> m b then uint (m a) - uint (m b) else memcmp_loop n (a + 1) (b + 1) m)"

definition memcmp :: "addr \<Rightarrow> addr \<Rightarrow> u64 \<Rightarrow> bytes \<Rightarrow> int" where
  "memcmp s1 s2 n m = memcmp_loop (unat n) s1 s2 m"

text \<open>The two loops of \<open>strncpy\<close>; the second starts at the index at which the first stopped.\<close>

fun strncpy_pad :: "nat \<Rightarrow> addr \<Rightarrow> bytes \<Rightarrow> bytes" where
  "strncpy_pad 0 d m = m"
| "strncpy_pad (Suc n) d m = strncpy_pad n (d + 1) (m(d := 0))"

fun strncpy_loop :: "nat \<Rightarrow> addr \<Rightarrow> addr \<Rightarrow> bytes \<Rightarrow> bytes" where
  "strncpy_loop 0 d s m = m"
| "strncpy_loop (Suc n) d s m =
     (if m s \<noteq> 0 then strncpy_loop n (d + 1) (s + 1) (m(d := m s)) else strncpy_pad (Suc n) d m)"

definition strncpy :: "addr \<Rightarrow> addr \<Rightarrow> u64 \<Rightarrow> bytes \<Rightarrow> addr \<times> bytes" where
  "strncpy dst src n m = (dst, strncpy_loop (unat n) dst src m)"

fun strncmp_loop :: "nat \<Rightarrow> addr \<Rightarrow> addr \<Rightarrow> bytes \<Rightarrow> int" where
  "strncmp_loop 0 a b m = 0"
| "strncmp_loop (Suc n) a b m =
     (if m a \<noteq> m b then uint (m a) - uint (m b)
      else if m a = 0 then 0 else strncmp_loop n (a + 1) (b + 1) m)"

definition strncmp :: "addr \<Rightarrow> addr \<Rightarrow> u64 \<Rightarrow> bytes \<Rightarrow> int" where
  "strncmp a b n m = strncmp_loop (unat n) a b m"

section \<open>Regions\<close>

text \<open>\<open>byte_range a n\<close> is the set of the \<open>n\<close> addresses from \<open>a\<close> on, with wrap-around.\<close>

definition byte_range :: "addr \<Rightarrow> nat \<Rightarrow> addr set" where
  "byte_range a n = {x. unat (x - a) < n}"

definition get_bytes :: "bytes \<Rightarrow> addr \<Rightarrow> nat \<Rightarrow> u8 list" where
  "get_bytes m a n = map (\<lambda>i. m (a + of_nat i)) [0..<n]"

definition put_bytes :: "addr \<Rightarrow> u8 list \<Rightarrow> bytes \<Rightarrow> bytes" where
  "put_bytes a bs m = (\<lambda>x. if unat (x - a) < length bs then bs ! unat (x - a) else m x)"

lemma length_get_bytes [simp]: "length (get_bytes m a n) = n"
  by (simp add: get_bytes_def)

lemma nth_get_bytes [simp]: "i < n \<Longrightarrow> get_bytes m a n ! i = m (a + of_nat i)"
  by (simp add: get_bytes_def)

lemma put_bytes_get_bytes:
  "put_bytes d (get_bytes m s n) m = (\<lambda>x. if x \<in> byte_range d n then m (s + (x - d)) else m x)"
  by (auto simp: put_bytes_def byte_range_def)

lemma byte_range_Suc_low: "n < 2 ^ 64 \<Longrightarrow> byte_range a (Suc n) = insert a (byte_range (a + 1) n)"
proof (intro set_eqI)
  fix x assume n: "n < 2 ^ 64"
  show "x \<in> byte_range a (Suc n) \<longleftrightarrow> x \<in> insert a (byte_range (a + 1) n)"
  proof (cases "x = a")
    case False
    then have "unat (x - (a + 1)) = unat (x - a) - 1" "0 < unat (x - a)"
      by (simp_all add: unat_sub_sub1 unat_gt_0)
    then show ?thesis using False by (auto simp: byte_range_def)
  qed (simp add: byte_range_def)
qed

lemma byte_range_Suc_high: "n < 2 ^ 64 \<Longrightarrow> byte_range a (Suc n) = insert (a + of_nat n) (byte_range a n)"
proof (intro set_eqI)
  fix x assume n: "n < 2 ^ 64"
  have "unat (x - a) = n \<longleftrightarrow> x - a = of_nat n"
    using n by (auto simp: unat_of_nat_lt)
  then have "unat (x - a) = n \<longleftrightarrow> x = a + of_nat n" by (simp add: algebra_simps)
  then show "x \<in> byte_range a (Suc n) \<longleftrightarrow> x \<in> insert (a + of_nat n) (byte_range a n)"
    by (auto simp: byte_range_def less_Suc_eq)
qed

lemma byte_range_0 [simp]: "byte_range a 0 = {}"
  by (simp add: byte_range_def)

lemma unat64_le [simp]: "unat (x :: u64) \<le> 18446744073709551616"
  by (rule less_imp_le) simp

section \<open>Filling and copying\<close>

lemma memset_loop_eq:
  "n \<le> 2 ^ 64 \<Longrightarrow> memset_loop n d v m = (\<lambda>x. if x \<in> byte_range d n then v else m x)"
proof (induction n arbitrary: d m)
  case (Suc n)
  then show ?case by (auto simp: byte_range_Suc_low)
qed simp

lemma strncpy_pad_eq: "strncpy_pad n d m = memset_loop n d 0 m"
  by (induction n arbitrary: d m) simp_all

lemma copy_up_eq:
  "n \<le> 2 ^ 64 \<Longrightarrow> d = s \<or> n \<le> unat (d - s) \<Longrightarrow>
   copy_up n d s m = (\<lambda>x. if x \<in> byte_range d n then m (s + (x - d)) else m x)"
proof (induction n arbitrary: d s m)
  case (Suc n)
  have IH: "copy_up n (d + 1) (s + 1) m' =
      (\<lambda>x. if x \<in> byte_range (d + 1) n then m' (s + (x - d)) else m' x)" for m'
    using Suc.IH [of "d + 1" "s + 1" m'] Suc.prems by (auto simp: algebra_simps)
  have keep: "(m(d := m s)) (s + (x - d)) = m (s + (x - d))" if "x \<in> byte_range d (Suc n)" for x
  proof (cases "d = s")
    case False
    then have "unat (x - d) < unat (d - s)" using Suc.prems that by (auto simp: byte_range_def)
    then have "x - d \<noteq> d - s" by auto
    then have "s + (x - d) \<noteq> d" by (metis add_diff_cancel_left')
    then show ?thesis by simp
  qed simp
  show ?case using Suc.prems keep by (auto simp: IH byte_range_Suc_low)
qed simp

lemma copy_down_eq:
  "n \<le> 2 ^ 64 \<Longrightarrow> d = s \<or> n \<le> unat (s - d) \<Longrightarrow>
   copy_down n (d + of_nat n) (s + of_nat n) m =
     (\<lambda>x. if x \<in> byte_range d n then m (s + (x - d)) else m x)"
proof (induction n arbitrary: m)
  case (Suc n)
  have IH: "copy_down n (d + of_nat n) (s + of_nat n) m' =
      (\<lambda>x. if x \<in> byte_range d n then m' (s + (x - d)) else m' x)" for m'
    using Suc.IH [of m'] Suc.prems by auto
  let ?m = "m(d + of_nat n := m (s + of_nat n))"
  have keep: "?m (s + (x - d)) = m (s + (x - d))" if x: "x \<in> byte_range d n" for x
  proof (cases "d = s")
    case True
    then have "x \<noteq> d + of_nat n"
      using x Suc.prems(1) by (auto simp: byte_range_def unat_of_nat_lt)
    then show ?thesis using True by simp
  next
    case False
    then have n: "n < unat (s - d)" using Suc.prems by auto
    have "s + (x - d) \<noteq> d + of_nat n"
    proof
      assume "s + (x - d) = d + of_nat n"
      then have e: "s - d = of_nat n - (x - d)" by (simp add: algebra_simps)
      have "x - d \<le> of_nat n"
        using x Suc.prems(1) by (simp add: byte_range_def word_le_nat_alt unat_of_nat_lt)
      then have "unat (s - d) \<le> n" unfolding e using Suc.prems(1) by (simp add: unat_sub unat_of_nat_lt)
      then show False using n by simp
    qed
    then show ?thesis by simp
  qed
  have step: "copy_down (Suc n) (d + of_nat (Suc n)) (s + of_nat (Suc n)) m =
      copy_down n (d + of_nat n) (s + of_nat n) ?m" by (simp add: algebra_simps)
  have "byte_range d (Suc n) = insert (d + of_nat n) (byte_range d n)"
    using Suc.prems(1) by (intro byte_range_Suc_high) simp
  then show ?case unfolding step IH using keep by (auto simp: algebra_simps)
qed simp

lemma copy_up_put: "n \<le> 2 ^ 64 \<Longrightarrow> d = s \<or> n \<le> unat (d - s) \<Longrightarrow>
    copy_up n d s m = put_bytes d (get_bytes m s n) m"
  by (simp add: copy_up_eq put_bytes_get_bytes)

lemma copy_down_put: "n \<le> 2 ^ 64 \<Longrightarrow> d = s \<or> n \<le> unat (s - d) \<Longrightarrow>
    copy_down n (d + of_nat n) (s + of_nat n) m = put_bytes d (get_bytes m s n) m"
  by (simp add: copy_down_eq put_bytes_get_bytes)

lemma unat_sub_wrap:
  assumes "unat x < unat y" shows "unat (x - y :: u64) = 2 ^ 64 + unat x - unat y"
proof -
  have "unat (x - y) = (2 ^ 64 + unat x - unat y) mod 2 ^ 64"
    using assms by (simp add: unat_sub_if' word_le_nat_alt)
  then show ?thesis using assms by simp
qed

text \<open>\<open>memmove\<close> is right for overlapping regions too.\<close>

lemma memmove_put:
  assumes "unat src + unat n \<le> 2 ^ 64" "unat dst + unat n \<le> 2 ^ 64"
  shows "memmove dst src n m = (dst, put_bytes dst (get_bytes m src (unat n)) m)"
proof (cases "dst < src")
  case True
  then have "unat dst < unat src" by (simp add: word_less_nat_alt)
  then have "unat n \<le> unat (dst - src)" using assms(1) by (simp add: unat_sub_wrap)
  then have "copy_up (unat n) dst src m = put_bytes dst (get_bytes m src (unat n)) m"
    by (intro copy_up_put) simp_all
  then show ?thesis using True by (simp add: memmove_def)
next
  case False
  have "dst = src \<or> unat n \<le> unat (src - dst)"
  proof (cases "dst = src")
    case ne: False
    then have "unat src < unat dst" using False by (auto simp: word_less_nat_alt word_unat_eq_iff)
    then have "unat n \<le> unat (src - dst)" using assms(2) by (simp add: unat_sub_wrap)
    then show ?thesis ..
  qed simp
  then have "copy_down (unat n) (dst + of_nat (unat n)) (src + of_nat (unat n)) m =
      put_bytes dst (get_bytes m src (unat n)) m"
    by (intro copy_down_put) simp_all
  then show ?thesis using False by (simp add: memmove_def)
qed

section \<open>Strings\<close>

text \<open>A string in memory as the channel theory sees it: the characters at \<open>n\<close> addresses.\<close>

definition byte_char :: "u8 \<Rightarrow> char" where
  "byte_char x = char_of (unat x)"

definition mem_string :: "bytes \<Rightarrow> addr \<Rightarrow> nat \<Rightarrow> string" where
  "mem_string m a n = map byte_char (get_bytes m a n)"

lemma length_mem_string [simp]: "length (mem_string m a n) = n"
  by (simp add: mem_string_def)

lemma unat_byte_lt: "unat (x :: u8) < 256"
  using unsigned_less [of x] by simp

lemma byte_char_eq [simp]: "byte_char x = byte_char y \<longleftrightarrow> x = y"
  using unat_byte_lt [of x] unat_byte_lt [of y] by (simp add: byte_char_def char_of_eq_iff take_bit_eq_mod word_unat_eq_iff)

lemma byte_char_zero: "byte_char 0 = CHR 0x00"
  by (simp add: byte_char_def char_of_def)

lemma byte_char_0 [simp]: "byte_char x = CHR 0x00 \<longleftrightarrow> x = 0"
  by (simp only: byte_char_eq flip: byte_char_zero)

lemma c_char_mem_string:
  "i < n \<Longrightarrow> c_char (mem_string m a n) i = byte_char (m (a + of_nat i))"
  by (simp add: c_char_def mem_string_def)

lemma strncmp_loop_from:
  "i + k \<le> n \<Longrightarrow>
   strncmp_loop k (a + of_nat i) (b + of_nat i) m = 0 \<longleftrightarrow>
   c_strneq_from i (mem_string m a n) (mem_string m b n) k"
proof (induction k arbitrary: i)
  case (Suc k)
  have "uint (m (a + of_nat i)) - uint (m (b + of_nat i)) = 0 \<longleftrightarrow> m (a + of_nat i) = m (b + of_nat i)"
    by (simp add: word_uint_eq_iff)
  then show ?case using Suc.IH [of "Suc i"] Suc.prems
    by (simp add: c_char_mem_string add.assoc add.commute [of 1])
qed simp

lemma strncmp_eq_0_iff:
  "strncmp a b n m = 0 \<longleftrightarrow> c_strneq (mem_string m a (unat n)) (mem_string m b (unat n)) (unat n)"
  using strncmp_loop_from [of 0 "unat n" "unat n" a b m] by (simp add: strncmp_def)

subsection \<open>Copying a string\<close>

text \<open>What \<open>strncpy\<close> writes, as a function of the bytes it may read.\<close>

fun strncpy_bytes :: "u8 list \<Rightarrow> u8 list" where
  "strncpy_bytes [] = []"
| "strncpy_bytes (b # bs) = (if b \<noteq> 0 then b # strncpy_bytes bs else replicate (Suc (length bs)) 0)"

lemma length_strncpy_bytes [simp]: "length (strncpy_bytes bs) = length bs"
  by (induction bs) simp_all

lemma get_bytes_Suc: "get_bytes m a (Suc n) = m a # get_bytes m (a + 1) n"
  by (rule nth_equalityI) (auto simp: nth_Cons' algebra_simps)

lemma get_bytes_upd: "d \<notin> byte_range a n \<Longrightarrow> n \<le> 2 ^ 64 \<Longrightarrow> get_bytes (m(d := v)) a n = get_bytes m a n"
  by (rule nth_equalityI) (auto simp: byte_range_def unat_of_nat_lt)

lemma put_bytes_Cons:
  assumes "length bs < 2 ^ 64"
  shows "put_bytes d (b # bs) m = put_bytes (d + 1) bs (m(d := b))"
proof
  fix x
  show "put_bytes d (b # bs) m x = put_bytes (d + 1) bs (m(d := b)) x"
  proof (cases "x = d")
    case True
    have "unat (- 1 :: u64) = 2 ^ 64 - 1" by (simp add: unsigned_minus_1_eq_mask mask_eq_exp_minus_1)
    then have "\<not> unat (x - (d + 1)) < length bs" using assms True by simp
    then show ?thesis using True by (simp add: put_bytes_def)
  next
    case False
    then have "unat (x - d) = Suc (unat (x - (d + 1)))"
      by (simp add: unat_sub_sub1 unat_gt_0)
    then show ?thesis using False by (simp add: put_bytes_def)
  qed
qed

lemma put_bytes_Nil [simp]: "put_bytes d [] m = m"
  by (simp add: put_bytes_def)

lemma memset_loop_put: "n \<le> 2 ^ 64 \<Longrightarrow> memset_loop n d v m = put_bytes d (replicate n v) m"
  by (auto simp: memset_loop_eq put_bytes_def byte_range_def)

lemma strncpy_loop_put:
  "n \<le> 2 ^ 64 \<Longrightarrow> byte_range d n \<inter> byte_range s n = {} \<Longrightarrow>
   strncpy_loop n d s m = put_bytes d (strncpy_bytes (get_bytes m s n)) m"
proof (induction n arbitrary: d s m)
  case (Suc n)
  have low: "byte_range d (Suc n) = insert d (byte_range (d + 1) n)" "byte_range s (Suc n) = insert s (byte_range (s + 1) n)"
    using Suc.prems(1) by (simp_all add: byte_range_Suc_low)
  have "get_bytes (m(d := m s)) (s + 1) n = get_bytes m (s + 1) n"
    using Suc.prems low by (intro get_bytes_upd) auto
  moreover have "strncpy_loop n (d + 1) (s + 1) (m(d := m s)) =
      put_bytes (d + 1) (strncpy_bytes (get_bytes (m(d := m s)) (s + 1) n)) (m(d := m s))"
    using Suc.prems low by (intro Suc.IH) auto
  ultimately show ?case
    using Suc.prems(1) memset_loop_put [of "Suc n" d 0 m]
    by (simp add: get_bytes_Suc put_bytes_Cons strncpy_pad_eq)
qed (simp add: get_bytes_def)

lemma c_strncpy_Cons:
  "length dst = Suc n \<Longrightarrow> c_strncpy dst (c # cs) (Suc n) =
    (if c = CHR 0x00 then replicate (Suc n) (CHR 0x00) else c # c_strncpy (tl dst) cs n)"
  by (cases dst) (simp_all add: c_strncpy_def Let_def)

lemma strncpy_bytes_chars:
  "length dst = length bs \<Longrightarrow>
   map byte_char (strncpy_bytes bs) = c_strncpy dst (map byte_char bs) (length bs)"
proof (induction bs arbitrary: dst)
  case Nil
  then show ?case by (simp add: c_strncpy_def)
next
  case (Cons b bs)
  have "map byte_char (replicate k 0) = replicate k (CHR 0x00)" for k
    by (simp add: map_replicate_const byte_char_zero)
  then show ?case using Cons.IH [of "tl dst"] Cons.prems by (simp add: c_strncpy_Cons)
qed

lemma get_bytes_put_bytes: "length bs \<le> 2 ^ 64 \<Longrightarrow> get_bytes (put_bytes d bs m) d (length bs) = bs"
  by (rule nth_equalityI) (auto simp: put_bytes_def unat_of_nat_lt)

text \<open>On disjoint regions \<open>strncpy\<close> leaves at its destination what the list function says and
  changes nothing else.\<close>

lemma strncpy_string:
  assumes "byte_range dst (unat n) \<inter> byte_range src (unat n) = {}" "strncpy dst src n m = (p, m')"
  shows "p = dst"
    and "mem_string m' dst (unat n) =
      c_strncpy (mem_string m dst (unat n)) (mem_string m src (unat n)) (unat n)"
    and "x \<notin> byte_range dst (unat n) \<Longrightarrow> m' x = m x"
proof -
  let ?bs = "strncpy_bytes (get_bytes m src (unat n))"
  have m': "m' = put_bytes dst ?bs m"
    using assms strncpy_loop_put [of "unat n" dst src m] by (auto simp: strncpy_def)
  show "p = dst" using assms(2) by (simp add: strncpy_def)
  show "x \<notin> byte_range dst (unat n) \<Longrightarrow> m' x = m x" by (simp add: m' put_bytes_def byte_range_def)
  have "get_bytes m' dst (unat n) = ?bs"
    using get_bytes_put_bytes [of ?bs dst m] by (simp add: m')
  then show "mem_string m' dst (unat n) =
      c_strncpy (mem_string m dst (unat n)) (mem_string m src (unat n)) (unat n)"
    using strncpy_bytes_chars [of "mem_string m dst (unat n)" "get_bytes m src (unat n)"]
    by (simp add: mem_string_def)
qed

end
