(* ===== verification/X86_Pmm.thy ===== *)
theory X86_Pmm
  imports Ggmk_Prelude
begin

text \<open>
  The physical page allocator \<open>arch/x86_64/pmm.c\<close>: a bitmap with one bit per 4 KB page (set means
  in use), first-fit search for contiguous pages, and the search for the longest free run that
  the boot code uses.  A \<open>for\<close> loop whose bounds are fixed when it starts is a recursion on the
  number of its iterations; the loop that frees a memory-map entry adds the page size to an
  address and is a partial function.

  The lemmas describe the bitmap as a predicate on page numbers, give each operation's result
  in terms of it, and show that \<open>free_pages\<close> counts the clear bits.
\<close>

section \<open>State\<close>

abbreviation (input) PMM_PAGE_SIZE :: u64 where "PMM_PAGE_SIZE \<equiv> 4096"
abbreviation (input) MAX_PAGES :: u64 where "MAX_PAGES \<equiv> 1048576"
abbreviation (input) LIMINE_MEMMAP_USABLE :: u64 where "LIMINE_MEMMAP_USABLE \<equiv> 0"

record limine_memmap_entry =
  me_base :: u64
  me_length :: u64
  me_type :: u64

record pmm =
  pm_bitmap :: "u64 list"
  pm_total_pages :: u64
  pm_usable_pages :: u64
  pm_free_pages :: u64
  pm_highest_addr :: u64

text \<open>The static variables before \<open>pmm_init\<close>.\<close>

definition pmm_static :: pmm where
  "pmm_static = \<lparr>pm_bitmap = replicate 16384 0, pm_total_pages = 0, pm_usable_pages = 0,
     pm_free_pages = 0, pm_highest_addr = 0\<rparr>"

section \<open>The bitmap\<close>

definition bitmap_set :: "u64 \<Rightarrow> u64 list \<Rightarrow> u64 list exec" where
  "bitmap_set page b =
     Option.bind (arr_get b (unat (page div 64))) (\<lambda>w.
       arr_set b (unat (page div 64)) (w OR push_bit (unat (page mod 64)) 1))"

definition bitmap_clear :: "u64 \<Rightarrow> u64 list \<Rightarrow> u64 list exec" where
  "bitmap_clear page b =
     Option.bind (arr_get b (unat (page div 64))) (\<lambda>w.
       arr_set b (unat (page div 64)) (w AND NOT (push_bit (unat (page mod 64)) 1)))"

definition bitmap_test :: "u64 \<Rightarrow> u64 list \<Rightarrow> bool exec" where
  "bitmap_test page b =
     Option.bind (arr_get b (unat (page div 64))) (\<lambda>w.
       Some (drop_bit (unat (page mod 64)) w AND 1 \<noteq> 0))"

section \<open>Initialisation\<close>

definition pmm_highest :: "limine_memmap_entry list \<Rightarrow> u64" where
  "pmm_highest es =
     fold (\<lambda>e h. let tp = me_base e + me_length e in if tp > h then tp else h) es 0"

fun bitmap_fill :: "nat \<Rightarrow> nat \<Rightarrow> u64 list \<Rightarrow> u64 list exec" where
  "bitmap_fill 0 i b = Some b"
| "bitmap_fill (Suc n) i b = Option.bind (arr_set b i (- 1)) (bitmap_fill n (Suc i))"

partial_function (option) pmm_free_range :: "u64 \<Rightarrow> u64 \<Rightarrow> pmm \<Rightarrow> pmm exec" where
  "pmm_free_range a tp p =
     (if a < tp then
        let page = a div PMM_PAGE_SIZE in
        if page < pm_total_pages p then
          Option.bind (bitmap_clear page (pm_bitmap p)) (\<lambda>b.
            pmm_free_range (a + PMM_PAGE_SIZE) tp (p\<lparr>pm_bitmap := b, pm_free_pages := pm_free_pages p + 1\<rparr>))
        else pmm_free_range (a + PMM_PAGE_SIZE) tp p
      else Some p)"

definition pmm_entry_base :: "limine_memmap_entry \<Rightarrow> u64" where
  "pmm_entry_base e = (me_base e + PMM_PAGE_SIZE - 1) AND NOT (PMM_PAGE_SIZE - 1)"

definition pmm_entry_top :: "limine_memmap_entry \<Rightarrow> u64" where
  "pmm_entry_top e = (me_base e + me_length e) AND NOT (PMM_PAGE_SIZE - 1)"

fun pmm_free_entries :: "limine_memmap_entry list \<Rightarrow> pmm \<Rightarrow> pmm exec" where
  "pmm_free_entries [] p = Some p"
| "pmm_free_entries (e # es) p =
     (if me_type e \<noteq> LIMINE_MEMMAP_USABLE then pmm_free_entries es p
      else Option.bind (pmm_free_range (pmm_entry_base e) (pmm_entry_top e) p) (pmm_free_entries es))"

definition pmm_init :: "limine_memmap_entry list option \<Rightarrow> pmm \<Rightarrow> pmm exec" where
  "pmm_init memmap_resp p =
     (case memmap_resp of None \<Rightarrow> Some p
      | Some es \<Rightarrow>
          let highest = pmm_highest es;
              total0 = highest div PMM_PAGE_SIZE;
              total = (if total0 > MAX_PAGES then MAX_PAGES else total0)
          in Option.bind (bitmap_fill (unat (total div 64 + 1)) 0 (pm_bitmap p)) (\<lambda>b.
             Option.bind (pmm_free_entries es (p\<lparr>pm_highest_addr := highest, pm_total_pages := total,
                 pm_bitmap := b, pm_free_pages := 0\<rparr>)) (\<lambda>p1.
             Some (p1\<lparr>pm_usable_pages := pm_free_pages p1\<rparr>))))"

section \<open>Allocation\<close>

fun bitmap_set_range :: "nat \<Rightarrow> u64 \<Rightarrow> u64 list \<Rightarrow> u64 list exec" where
  "bitmap_set_range 0 j b = Some b"
| "bitmap_set_range (Suc n) j b = Option.bind (bitmap_set j b) (bitmap_set_range n (j + 1))"

definition pmm_mark :: "u64 \<Rightarrow> u64 \<Rightarrow> pmm \<Rightarrow> (u64 \<times> pmm) exec" where
  "pmm_mark start cnt p =
     Option.bind (bitmap_set_range (unat (start + cnt) - unat start) start (pm_bitmap p)) (\<lambda>b.
       Some (start * PMM_PAGE_SIZE, p\<lparr>pm_bitmap := b, pm_free_pages := pm_free_pages p - cnt\<rparr>))"

fun pmm_scan :: "nat \<Rightarrow> u64 \<Rightarrow> u64 \<Rightarrow> u64 \<Rightarrow> u64 \<Rightarrow> pmm \<Rightarrow> (u64 \<times> pmm) exec" where
  "pmm_scan 0 i run start cnt p = Some (0, p)"
| "pmm_scan (Suc n) i run start cnt p =
     Option.bind (bitmap_test i (pm_bitmap p)) (\<lambda>used.
       if used then pmm_scan n (i + 1) 0 start cnt p
       else
         let start1 = (if run = 0 then i else start); run1 = run + 1
         in if run1 = cnt then pmm_mark start1 cnt p
            else pmm_scan n (i + 1) run1 start1 cnt p)"

definition pmm_alloc_pages :: "u64 \<Rightarrow> pmm \<Rightarrow> (u64 \<times> pmm) exec" where
  "pmm_alloc_pages cnt p =
     (if cnt = 0 \<or> pm_free_pages p < cnt then Some (0, p)
      else pmm_scan (unat (pm_total_pages p)) 0 0 0 cnt p)"

fun pmm_free_loop :: "nat \<Rightarrow> u64 \<Rightarrow> pmm \<Rightarrow> pmm exec" where
  "pmm_free_loop 0 i p = Some p"
| "pmm_free_loop (Suc n) i p =
     Option.bind (bitmap_test i (pm_bitmap p)) (\<lambda>used.
       if used then
         Option.bind (bitmap_clear i (pm_bitmap p)) (\<lambda>b.
           pmm_free_loop n (i + 1) (p\<lparr>pm_bitmap := b, pm_free_pages := pm_free_pages p + 1\<rparr>))
       else pmm_free_loop n (i + 1) p)"

text \<open>The loop runs while \<open>i < start + cnt\<close> (the sum may wrap around) and \<open>i < total_pages\<close>.\<close>

definition pmm_free_pages :: "u64 \<Rightarrow> u64 \<Rightarrow> pmm \<Rightarrow> pmm exec" where
  "pmm_free_pages a cnt p =
     (let start = a div PMM_PAGE_SIZE
      in pmm_free_loop (min (unat (start + cnt)) (unat (pm_total_pages p)) - unat start) start p)"

definition pmm_free_count :: "pmm \<Rightarrow> u64" where "pmm_free_count p = pm_free_pages p"
definition pmm_total_count :: "pmm \<Rightarrow> u64" where "pmm_total_count p = pm_total_pages p"
definition pmm_usable_count :: "pmm \<Rightarrow> u64" where "pmm_usable_count p = pm_usable_pages p"

text \<open>The longest run so far is \<open>(best_start, best_len)\<close>.\<close>

fun pmm_longest :: "nat \<Rightarrow> u64 \<Rightarrow> u64 \<Rightarrow> u64 \<Rightarrow> u64 \<Rightarrow> u64 \<Rightarrow> u64 list \<Rightarrow> (u64 \<times> u64) exec" where
  "pmm_longest 0 i run start best_start best_len b =
     Some (if run > best_len then (start, run) else (best_start, best_len))"
| "pmm_longest (Suc n) i run start best_start best_len b =
     Option.bind (bitmap_test i b) (\<lambda>used.
       if used then
         (if run > best_len then pmm_longest n (i + 1) 0 start start run b
          else pmm_longest n (i + 1) 0 start best_start best_len b)
       else pmm_longest n (i + 1) (run + 1) (if run = 0 then i else start) best_start best_len b)"

text \<open>The result is the address with the value that is stored in \<open>out_size\<close>, if any.\<close>

definition pmm_find_contiguous :: "u64 \<Rightarrow> pmm \<Rightarrow> (u64 \<times> u64 option) exec" where
  "pmm_find_contiguous min_size p =
     (let min_pages = (min_size + PMM_PAGE_SIZE - 1) div PMM_PAGE_SIZE
      in Option.bind (pmm_longest (unat (pm_total_pages p)) 0 0 0 0 0 (pm_bitmap p)) (\<lambda>(best_start, best_len).
           Some (if best_len < min_pages then (0, None)
                 else (best_start * PMM_PAGE_SIZE, Some (best_len * PMM_PAGE_SIZE)))))"

section \<open>Pages\<close>

lemma of_nat64_eq_iff:
  assumes "m < 2 ^ 64" "n < 2 ^ 64" shows "(of_nat m :: u64) = of_nat n \<longleftrightarrow> m = n"
proof
  assume "(of_nat m :: u64) = of_nat n"
  then have "unat (of_nat m :: u64) = unat (of_nat n :: u64)" by (rule arg_cong)
  then show "m = n" using assms by (simp add: unat_of_nat_lt)
qed simp

text \<open>The bitmap as a predicate on page numbers.\<close>

definition page_used :: "u64 list \<Rightarrow> nat \<Rightarrow> bool" where
  "page_used b i \<longleftrightarrow> bit (b ! (i div 64)) (i mod 64)"

lemma unat_page:
  "i < 2 ^ 64 \<Longrightarrow> unat (of_nat i div 64 :: u64) = i div 64 \<and> unat (of_nat i mod 64 :: u64) = i mod 64"
  by (simp add: unat_div unat_mod unat_of_nat_lt)

lemma bitmap_test_nat:
  assumes "i < 64 * length b" "i < 2 ^ 64"
  shows "bitmap_test (of_nat i) b = Some (page_used b i)"
proof -
  have "drop_bit k w AND 1 \<noteq> 0 \<longleftrightarrow> bit w k" for k and w :: u64
    by (simp add: and_one_eq bit_iff_odd_drop_bit odd_iff_mod_2_eq_one)
  then show ?thesis using assms
    by (simp add: bitmap_test_def unat_page arr_get_Some page_used_def)
qed

lemma page_used_set:
  assumes "i < 64 * length b" "j < 64 * length b" "bit w' (i mod 64) = v"
    and "\<And>k. k \<noteq> i mod 64 \<Longrightarrow> k < 64 \<Longrightarrow> bit w' k = bit (b ! (i div 64)) k"
  shows "page_used (b[i div 64 := w']) j = (if j = i then v else page_used b j)"
proof (cases "j div 64 = i div 64")
  case True
  then have "j = i \<longleftrightarrow> j mod 64 = i mod 64" by (metis div_mult_mod_eq)
  then show ?thesis using assms True by (simp add: page_used_def)
next
  case False
  then show ?thesis by (auto simp: page_used_def)
qed

lemma bitmap_set_nat:
  assumes "i < 64 * length b" "i < 2 ^ 64"
  obtains b' where "bitmap_set (of_nat i) b = Some b'" "length b' = length b"
    "\<And>j. j < 64 * length b \<Longrightarrow> page_used b' j = (j = i \<or> page_used b j)"
proof -
  let ?w = "b ! (i div 64) OR push_bit (i mod 64) 1"
  have "bitmap_set (of_nat i) b = Some (b[i div 64 := ?w])"
    using assms by (simp add: bitmap_set_def unat_page arr_get_Some arr_set_Some)
  moreover have "page_used (b[i div 64 := ?w]) j = (j = i \<or> page_used b j)" if "j < 64 * length b" for j
    using page_used_set [OF assms(1) that, of ?w True] by (auto simp: bit_simps)
  ultimately show ?thesis by (intro that [of "b[i div 64 := ?w]"]) simp_all
qed

lemma bitmap_clear_nat:
  assumes "i < 64 * length b" "i < 2 ^ 64"
  obtains b' where "bitmap_clear (of_nat i) b = Some b'" "length b' = length b"
    "\<And>j. j < 64 * length b \<Longrightarrow> page_used b' j = (j \<noteq> i \<and> page_used b j)"
proof -
  let ?w = "b ! (i div 64) AND NOT (push_bit (i mod 64) 1)"
  have "bitmap_clear (of_nat i) b = Some (b[i div 64 := ?w])"
    using assms by (simp add: bitmap_clear_def unat_page arr_get_Some arr_set_Some)
  moreover have "page_used (b[i div 64 := ?w]) j = (j \<noteq> i \<and> page_used b j)" if "j < 64 * length b" for j
    using page_used_set [OF assms(1) that, of ?w False] by (auto simp: bit_simps)
  ultimately show ?thesis by (intro that [of "b[i div 64 := ?w]"]) simp_all
qed

section \<open>Invariant\<close>

definition free_set :: "pmm \<Rightarrow> nat set" where
  "free_set p = {i. i < unat (pm_total_pages p) \<and> \<not> page_used (pm_bitmap p) i}"

definition pmm_ok :: "pmm \<Rightarrow> bool" where
  "pmm_ok p \<longleftrightarrow> length (pm_bitmap p) = 16384 \<and> unat (pm_total_pages p) \<le> 2 ^ 20 \<and>
     unat (pm_free_pages p) = card (free_set p)"

lemma finite_free_set [simp]: "finite (free_set p)"
  by (simp add: free_set_def)

lemma card_free_set_le: "card (free_set p) \<le> unat (pm_total_pages p)"
  using card_mono [of "{..<unat (pm_total_pages p)}" "free_set p"] by (auto simp: free_set_def)

lemma pmm_page_in:
  "pmm_ok p \<Longrightarrow> i < unat (pm_total_pages p) \<Longrightarrow> i < 64 * length (pm_bitmap p) \<and> i < 2 ^ 64"
  by (simp add: pmm_ok_def)

text \<open>\<open>fits p c s\<close>: the \<open>c\<close> pages from \<open>s\<close> on are free pages of the machine.\<close>

definition fits :: "pmm \<Rightarrow> nat \<Rightarrow> nat \<Rightarrow> bool" where
  "fits p c s \<longleftrightarrow> {s..<s + c} \<subseteq> free_set p"

lemma fits_free: "fits p c s \<Longrightarrow> s \<le> i \<Longrightarrow> i < s + c \<Longrightarrow> i \<in> free_set p"
  by (auto simp: fits_def)

lemma fits_le_card: "fits p c s \<Longrightarrow> c \<le> card (free_set p)"
  using card_mono [of "free_set p" "{s..<s + c}"] by (simp add: fits_def)

text \<open>\<open>repaged U p p'\<close>: the allocator \<open>p'\<close> has the set \<open>U\<close> of free pages and else agrees with \<open>p\<close>.\<close>

definition repaged :: "nat set \<Rightarrow> pmm \<Rightarrow> pmm \<Rightarrow> bool" where
  "repaged F p p' \<longleftrightarrow> pmm_ok p' \<and> free_set p' = F \<and> pm_total_pages p' = pm_total_pages p \<and>
     pm_usable_pages p' = pm_usable_pages p \<and> pm_highest_addr p' = pm_highest_addr p"

lemma bitmap_set_range_nat:
  "s + n \<le> 64 * length b \<Longrightarrow> s + n \<le> 2 ^ 64 \<Longrightarrow>
   \<exists>b'. bitmap_set_range n (of_nat s) b = Some b' \<and> length b' = length b \<and>
     (\<forall>j < 64 * length b. page_used b' j \<longleftrightarrow> s \<le> j \<and> j < s + n \<or> page_used b j)"
proof (induction n arbitrary: s b)
  case (Suc n)
  obtain b1 where b1: "bitmap_set (of_nat s) b = Some b1" "length b1 = length b"
    "\<And>j. j < 64 * length b \<Longrightarrow> page_used b1 j = (j = s \<or> page_used b j)"
    using bitmap_set_nat [of s b] Suc.prems by auto
  obtain b2 where "bitmap_set_range n (of_nat (Suc s)) b1 = Some b2" "length b2 = length b1"
    "\<forall>j < 64 * length b1. page_used b2 j \<longleftrightarrow> Suc s \<le> j \<and> j < Suc s + n \<or> page_used b1 j"
    using Suc.IH [of "Suc s" b1] Suc.prems b1(2) by auto
  then show ?case using b1 by (intro exI [of _ b2]) (auto simp: algebra_simps)
qed auto

lemma pmm_mark_fits:
  assumes ok: "pmm_ok p" and f: "fits p c s" and c: "0 < c"
  shows "\<exists>p'. pmm_mark (of_nat s) (of_nat c) p = Some (of_nat s * 4096, p') \<and>
    repaged (free_set p - {s..<s + c}) p p'"
proof -
  have top: "s + c \<le> unat (pm_total_pages p)"
    using fits_free [OF f, of "s + c - 1"] c by (simp add: free_set_def) linarith
  then have le: "s + c \<le> 64 * length (pm_bitmap p)" "s + c \<le> 2 ^ 20" using ok by (auto simp: pmm_ok_def)
  have c64: "unat (of_nat s :: u64) = s" "unat (of_nat c :: u64) = c"
    "unat (of_nat s + of_nat c :: u64) = s + c"
    using le(2) unat_of_nat_lt [of "s + c", where 'a = 64] by (simp_all add: unat_of_nat_lt)
  obtain b' where b': "bitmap_set_range c (of_nat s) (pm_bitmap p) = Some b'" "length b' = 16384"
    "\<forall>j < 64 * length (pm_bitmap p). page_used b' j \<longleftrightarrow> s \<le> j \<and> j < s + c \<or> page_used (pm_bitmap p) j"
    using bitmap_set_range_nat [of s c "pm_bitmap p"] le ok by (auto simp: pmm_ok_def)
  let ?p = "p\<lparr>pm_bitmap := b', pm_free_pages := pm_free_pages p - of_nat c\<rparr>"
  have fs: "free_set ?p = free_set p - {s..<s + c}"
    using b'(3) ok by (auto simp: free_set_def pmm_ok_def)
  have "card (free_set ?p) = card (free_set p) - c"
    using f by (simp add: fs card_Diff_subset fits_def)
  moreover have "unat (pm_free_pages p - of_nat c) = card (free_set p) - c"
    using fits_le_card [OF f] ok c64(2)
    by (simp add: unat_sub word_le_nat_alt pmm_ok_def)
  ultimately have "repaged (free_set p - {s..<s + c}) p ?p"
    using ok b'(2) fs by (simp add: repaged_def pmm_ok_def)
  then show ?thesis using b'(1) c64 by (intro exI [of _ ?p]) (simp add: pmm_mark_def)
qed

text \<open>The scan at page \<open>i\<close> with a run of \<open>r\<close> free pages behind it: no earlier place fits.\<close>

lemma pmm_scan_spec:
  assumes "pmm_ok p" "i + n = unat (pm_total_pages p)" "r \<le> i" "r < c" "c \<le> 2 ^ 20"
    and "{i - r..<i} \<subseteq> free_set p" "\<And>s. fits p c s \<Longrightarrow> i - r \<le> s" "0 < r \<Longrightarrow> start = of_nat (i - r)"
  shows "pmm_scan n (of_nat i) (of_nat r) start (of_nat c) p =
    (if \<exists>s. fits p c s then pmm_mark (of_nat (LEAST s. fits p c s)) (of_nat c) p else Some (0, p))"
  using assms
proof (induction n arbitrary: i r start)
  case 0
  have "\<not> fits p c s" for s
  proof
    assume f: "fits p c s"
    then have "s + c - 1 < i" using fits_free [OF f, of "s + c - 1"] 0 by (auto simp: free_set_def)
    then show False using 0(7) [OF f] 0 by simp
  qed
  then show ?case by simp
next
  case (Suc n)
  have i: "i < unat (pm_total_pages p)" using Suc.prems(2) by simp
  have t: "bitmap_test (of_nat i) (pm_bitmap p) = Some (page_used (pm_bitmap p) i)"
    using pmm_page_in [OF Suc.prems(1) i] by (simp add: bitmap_test_nat)
  show ?case
  proof (cases "page_used (pm_bitmap p) i")
    case True
    have "Suc i \<le> s" if f: "fits p c s" for s
    proof (rule ccontr)
      assume "\<not> Suc i \<le> s"
      moreover have "i < s + c" using Suc.prems(3,4,7) f by fastforce
      ultimately have "i \<in> free_set p" using fits_free [OF f, of i] by simp
      then show False using True by (simp add: free_set_def)
    qed
    then have "pmm_scan n (of_nat (Suc i)) (of_nat 0) start (of_nat c) p =
      (if \<exists>s. fits p c s then pmm_mark (of_nat (LEAST s. fits p c s)) (of_nat c) p else Some (0, p))"
      using Suc.prems by (intro Suc.IH) auto
    then show ?thesis using t True by (simp add: add.commute)
  next
    case False
    have fi: "{Suc i - Suc r..<Suc i} \<subseteq> free_set p"
    proof
      fix x assume "x \<in> {Suc i - Suc r..<Suc i}"
      then have "x = i \<or> x \<in> {i - r..<i}" by auto
      then show "x \<in> free_set p" using Suc.prems(6) False i by (auto simp: free_set_def)
    qed
    have r0: "(of_nat r :: u64) = 0 \<longleftrightarrow> r = 0"
      using of_nat64_eq_iff [of r 0] Suc.prems(4,5) by simp
    define start1 :: u64 where "start1 = (if of_nat r = (0 :: u64) then of_nat i else start)"
    have s1: "start1 = of_nat (i - r)" using Suc.prems(8) r0 by (simp add: start1_def)
    have rc: "(of_nat r + 1 :: u64) = of_nat c \<longleftrightarrow> Suc r = c"
      using of_nat64_eq_iff [of "Suc r" c] Suc.prems(4,5) by (simp add: add.commute)
    have step: "pmm_scan (Suc n) (of_nat i) (of_nat r) start (of_nat c) p =
      (if Suc r = c then pmm_mark start1 (of_nat c) p
       else pmm_scan n (of_nat (Suc i)) (of_nat (Suc r)) start1 (of_nat c) p)"
      using t False rc by (simp add: Let_def start1_def add.commute)
    show ?thesis
    proof (cases "Suc r = c")
      case True
      then have "{i - r..<i - r + c} = {Suc i - Suc r..<Suc i}" using Suc.prems(3) by auto
      then have f: "fits p c (i - r)" using fi by (simp only: fits_def)
      then have "(LEAST s. fits p c s) = i - r" using Suc.prems(7) by (intro Least_equality) auto
      then show ?thesis using step True f s1 by auto
    next
      case False
      then show ?thesis unfolding step using Suc.prems fi s1 Suc.IH [of "Suc i" "Suc r" start1] by auto
    qed
  qed
qed

section \<open>What the operations do\<close>

lemma pmm_alloc_eq:
  assumes "pmm_ok p"
  shows "pmm_alloc_pages cnt p =
    (if cnt \<noteq> 0 \<and> (\<exists>s. fits p (unat cnt) s) then pmm_mark (of_nat (LEAST s. fits p (unat cnt) s)) cnt p
     else Some (0, p))"
proof (cases "cnt = 0 \<or> pm_free_pages p < cnt")
  case True
  have "\<not> fits p (unat cnt) s" if "cnt \<noteq> 0" for s
    using True that fits_le_card [of p "unat cnt" s] assms by (auto simp: word_less_nat_alt pmm_ok_def)
  then show ?thesis using True by (auto simp: pmm_alloc_pages_def)
next
  case False
  then have c: "0 < unat cnt" "unat cnt \<le> 2 ^ 20"
    using assms card_free_set_le [of p] by (auto simp: word_less_nat_alt pmm_ok_def unat_gt_0)
  have "pmm_scan (unat (pm_total_pages p)) (of_nat 0) (of_nat 0) 0 (of_nat (unat cnt)) p =
    (if \<exists>s. fits p (unat cnt) s then pmm_mark (of_nat (LEAST s. fits p (unat cnt) s)) (of_nat (unat cnt)) p
     else Some (0, p))"
    using assms c by (intro pmm_scan_spec) auto
  then show ?thesis using False by (auto simp: pmm_alloc_pages_def)
qed

lemma pmm_alloc_fails:
  "pmm_ok p \<Longrightarrow> cnt = 0 \<or> (\<forall>s. \<not> fits p (unat cnt) s) \<Longrightarrow> pmm_alloc_pages cnt p = Some (0, p)"
  by (auto simp: pmm_alloc_eq)

lemma pmm_alloc_fits:
  assumes "pmm_ok p" "cnt \<noteq> 0" "fits p (unat cnt) s"
  shows "\<exists>s0 p'. s0 = (LEAST s. fits p (unat cnt) s) \<and>
    pmm_alloc_pages cnt p = Some (of_nat s0 * 4096, p') \<and> fits p (unat cnt) s0 \<and>
    repaged (free_set p - {s0..<s0 + unat cnt}) p p'"
proof -
  have f: "fits p (unat cnt) (LEAST s. fits p (unat cnt) s)" using assms(3) by (rule LeastI)
  then show ?thesis
    using pmm_mark_fits [OF assms(1) f] assms by (auto simp: pmm_alloc_eq unat_gt_0)
qed

lemma repaged_fits: "repaged F p p' \<Longrightarrow> fits p' c s \<longleftrightarrow> {s..<s + c} \<subseteq> F"
  by (simp add: repaged_def fits_def)

lemma pmm_clear_page:
  assumes ok: "pmm_ok p" and i: "i < unat (pm_total_pages p)" "i \<notin> free_set p"
  shows "\<exists>b. bitmap_clear (of_nat i) (pm_bitmap p) = Some b \<and>
    repaged (insert i (free_set p)) p (p\<lparr>pm_bitmap := b, pm_free_pages := pm_free_pages p + 1\<rparr>)"
proof -
  obtain b where b: "bitmap_clear (of_nat i) (pm_bitmap p) = Some b" "length b = length (pm_bitmap p)"
    "\<And>j. j < 64 * length (pm_bitmap p) \<Longrightarrow> page_used b j = (j \<noteq> i \<and> page_used (pm_bitmap p) j)"
    using bitmap_clear_nat [of i "pm_bitmap p"] pmm_page_in [OF ok i(1)] by blast
  let ?p = "p\<lparr>pm_bitmap := b, pm_free_pages := pm_free_pages p + 1\<rparr>"
  have fs: "free_set ?p = insert i (free_set p)"
    using b(3) i ok by (auto simp: free_set_def pmm_ok_def)
  have "unat (pm_free_pages p + 1) = unat (pm_free_pages p) + 1"
    using ok card_free_set_le [of p] by (intro unat_Suc_nowrap) (simp add: pmm_ok_def)
  then show ?thesis using b(1,2) fs i(2) ok by (auto simp: repaged_def pmm_ok_def)
qed

lemma repaged_trans: "repaged F p p1 \<Longrightarrow> repaged G p1 p2 \<Longrightarrow> repaged G p p2"
  by (simp add: repaged_def)

lemma repaged_ok: "repaged F p p' \<Longrightarrow> pmm_ok p'" "repaged F p p' \<Longrightarrow> free_set p' = F"
  "repaged F p p' \<Longrightarrow> pm_total_pages p' = pm_total_pages p"
  by (simp_all add: repaged_def)

lemma repaged_refl: "pmm_ok p \<Longrightarrow> repaged (free_set p) p p"
  by (simp add: repaged_def)

lemma pmm_free_loop_spec:
  "pmm_ok p \<Longrightarrow> s + n \<le> unat (pm_total_pages p) \<Longrightarrow>
   \<exists>p'. pmm_free_loop n (of_nat s) p = Some p' \<and> repaged (free_set p \<union> {s..<s + n}) p p'"
proof (induction n arbitrary: s p)
  case 0
  then show ?case by (simp add: repaged_refl)
next
  case (Suc n)
  have s: "s < unat (pm_total_pages p)" using Suc.prems by simp
  have t: "bitmap_test (of_nat s) (pm_bitmap p) = Some (s \<notin> free_set p)"
    using pmm_page_in [OF Suc.prems(1) s] s by (simp add: bitmap_test_nat free_set_def)
  have split: "{s..<s + Suc n} = insert s {Suc s..<Suc s + n}" by auto
  show ?case
  proof (cases "s \<in> free_set p")
    case True
    then have e: "free_set p \<union> {s..<s + Suc n} = free_set p \<union> {Suc s..<Suc s + n}" unfolding split by auto
    show ?thesis unfolding e using Suc.IH [of p "Suc s"] Suc.prems t True by (simp add: add.commute)
  next
    case False
    obtain b where b: "bitmap_clear (of_nat s) (pm_bitmap p) = Some b"
      "repaged (insert s (free_set p)) p (p\<lparr>pm_bitmap := b, pm_free_pages := pm_free_pages p + 1\<rparr>)"
      using pmm_clear_page [OF Suc.prems(1) s False] by auto
    let ?p = "p\<lparr>pm_bitmap := b, pm_free_pages := pm_free_pages p + 1\<rparr>"
    obtain p' where "pmm_free_loop n (of_nat (Suc s)) ?p = Some p'"
      "repaged (free_set ?p \<union> {Suc s..<Suc s + n}) ?p p'"
      using Suc.IH [of ?p "Suc s"] repaged_ok [OF b(2)] Suc.prems(2) by auto
    moreover have "free_set ?p \<union> {Suc s..<Suc s + n} = free_set p \<union> {s..<s + Suc n}"
      unfolding split repaged_ok(2) [OF b(2)] by auto
    ultimately have "pmm_free_loop (Suc n) (of_nat s) p = Some p'" "repaged (free_set p \<union> {s..<s + Suc n}) p p'"
      using b t False repaged_trans [OF b(2), of "free_set p \<union> {s..<s + Suc n}" p'] by (simp_all add: add.commute)
    then show ?thesis by blast
  qed
qed

lemma pmm_free_spec:
  assumes "pmm_ok p" "unat a div 4096 + unat cnt < 2 ^ 64"
  shows "\<exists>p'. pmm_free_pages a cnt p = Some p' \<and>
    repaged (free_set p \<union> {i. unat a div 4096 \<le> i \<and> i < unat a div 4096 + unat cnt \<and> i < unat (pm_total_pages p)}) p p'"
proof -
  let ?s = "unat a div 4096" and ?t = "unat (pm_total_pages p)"
  let ?n = "min (?s + unat cnt) ?t - ?s"
  have s: "unat (a div 4096) = ?s" by (simp add: unat_div)
  have top: "unat (a div 4096 + cnt) = ?s + unat cnt" using assms(2) s by (simp add: unat_add_nowrap)
  have f: "pmm_free_pages a cnt p = pmm_free_loop ?n (of_nat ?s) p"
    by (simp add: pmm_free_pages_def Let_def s top flip: s)
  show ?thesis
  proof (cases "?s \<le> ?t")
    case True
    have e: "{i. ?s \<le> i \<and> i < ?s + unat cnt \<and> i < ?t} = {?s..<?s + ?n}" using True by auto
    have "?s + ?n \<le> ?t" using True by auto
    then show ?thesis unfolding f e using pmm_free_loop_spec [OF assms(1)] by blast
  next
    case False
    then have e: "{i. ?s \<le> i \<and> i < ?s + unat cnt \<and> i < ?t} = {}" and n: "?n = 0" by auto
    show ?thesis unfolding f e n using repaged_refl [OF assms(1)] by simp
  qed
qed

section \<open>The longest free run\<close>

lemma fits_inside: "fits p c s \<Longrightarrow> 0 < c \<Longrightarrow> s + c \<le> unat (pm_total_pages p)"
  using fits_free [of p c s "s + c - 1"] by (simp add: free_set_def) linarith

lemma pmm_longest_spec:
  assumes "pmm_ok p" "i + n = unat (pm_total_pages p)" "r \<le> i" "bl \<le> unat (pm_total_pages p)"
    and "{i - r..<i} \<subseteq> free_set p" "i - r = 0 \<or> i - r - 1 \<notin> free_set p" "0 < r \<Longrightarrow> start = of_nat (i - r)"
    and "fits p bl bs" "\<And>c s. fits p c s \<Longrightarrow> s + c \<le> i \<Longrightarrow> c \<le> bl \<or> i - r \<le> s"
  shows "\<exists>s l. pmm_longest n (of_nat i) (of_nat r) start (of_nat bs) (of_nat bl) (pm_bitmap p) =
      Some (of_nat s, of_nat l) \<and> fits p l s \<and> (\<forall>c s'. fits p c s' \<longrightarrow> c \<le> l)"
  using assms
proof (induction n arbitrary: i r start bs bl)
  case 0
  have max: "c \<le> bl \<or> c \<le> r" if f: "fits p c s" for c s
    using 0(9) [OF f] fits_inside [OF f] 0(2) by (cases "c = 0") auto
  have cmp: "(of_nat bl < (of_nat r :: u64)) = (bl < r)"
    using 0 by (simp add: word_less_nat_alt unat_of_nat_lt pmm_ok_def)
  show ?case
  proof (cases "bl < r")
    case True
    then have "fits p r (i - r)" using 0(3,5) by (simp add: fits_def)
    then show ?thesis using True max 0(7) cmp
      by (intro exI [of _ "i - r"] exI [of _ r]) force
  next
    case False
    then show ?thesis using max 0(8) cmp by (intro exI [of _ bs] exI [of _ bl]) force
  qed
next
  case (Suc n)
  have i: "i < unat (pm_total_pages p)" using Suc.prems(2) by simp
  have t: "bitmap_test (of_nat i) (pm_bitmap p) = Some (i \<notin> free_set p)"
    using pmm_page_in [OF Suc.prems(1) i] i by (simp add: bitmap_test_nat free_set_def)
  have lim: "r < 2 ^ 64" "bl < 2 ^ 64" using Suc.prems(1-4) by (auto simp: pmm_ok_def)
  have cmp: "(of_nat bl < (of_nat r :: u64)) = (bl < r)"
    using lim by (simp add: word_less_nat_alt unat_of_nat_lt)
  show ?case
  proof (cases "i \<in> free_set p")
    case False
    have max: "c \<le> max bl r \<or> Suc i \<le> s" if f: "fits p c s" and le: "s + c \<le> Suc i" for c s
    proof (cases "s + c \<le> i")
      case True
      then show ?thesis using Suc.prems(9) [OF f] by auto
    next
      case no: False
      then have "i \<notin> {s..<s + c}" using fits_free [OF f, of i] False by auto
      then show ?thesis using no le by auto
    qed
    have "fits p r (i - r)" using Suc.prems(3,5) by (simp add: fits_def)
    then have "\<exists>s l. pmm_longest n (of_nat (Suc i)) (of_nat 0) start (of_nat (if bl < r then i - r else bs))
        (of_nat (max bl r)) (pm_bitmap p) = Some (of_nat s, of_nat l) \<and> fits p l s \<and>
        (\<forall>c s'. fits p c s' \<longrightarrow> c \<le> l)"
      using Suc.prems False max by (intro Suc.IH) (auto simp: max_def)
    moreover have "pmm_longest (Suc n) (of_nat i) (of_nat r) start (of_nat bs) (of_nat bl) (pm_bitmap p) =
      pmm_longest n (of_nat (Suc i)) (of_nat 0) start (of_nat (if bl < r then i - r else bs))
        (of_nat (max bl r)) (pm_bitmap p)"
      using t False cmp Suc.prems(7) by (simp add: max_def add.commute)
    ultimately show ?thesis by simp
  next
    case True
    have run: "{Suc i - Suc r..<Suc i} \<subseteq> free_set p"
    proof
      fix x assume "x \<in> {Suc i - Suc r..<Suc i}"
      then have "x = i \<or> x \<in> {i - r..<i}" by auto
      then show "x \<in> free_set p" using Suc.prems(5) True by auto
    qed
    have max: "c \<le> bl \<or> Suc i - Suc r \<le> s" if f: "fits p c s" and le: "s + c \<le> Suc i" for c s
    proof (cases "s + c \<le> i")
      case no: False
      have "i - r - 1 \<in> free_set p" if "s < i - r"
        using that no by (intro fits_free [OF f]) linarith+
      then have "i - r = 0 \<or> \<not> s < i - r" using Suc.prems(6) by auto
      then show ?thesis by auto
    qed (use Suc.prems(9) [OF f] in auto)
    have r0: "(of_nat r :: u64) = 0 \<longleftrightarrow> r = 0"
      using of_nat64_eq_iff [of r 0] lim by simp
    have "\<exists>s l. pmm_longest n (of_nat (Suc i)) (of_nat (Suc r)) (if r = 0 then of_nat i else start)
        (of_nat bs) (of_nat bl) (pm_bitmap p) = Some (of_nat s, of_nat l) \<and> fits p l s \<and>
        (\<forall>c s'. fits p c s' \<longrightarrow> c \<le> l)"
      using Suc.prems run max by (intro Suc.IH) auto
    then show ?thesis using t True r0 by (simp add: add.commute)
  qed
qed

lemma pmm_find_spec:
  assumes "pmm_ok p"
  shows "\<exists>s l. fits p l s \<and> (\<forall>c s'. fits p c s' \<longrightarrow> c \<le> l) \<and>
    pmm_find_contiguous min_size p =
      Some (if of_nat l < (min_size + 4095) div 4096 then (0, None)
            else (of_nat s * 4096, Some (of_nat l * 4096)))"
proof -
  obtain s l where "pmm_longest (unat (pm_total_pages p)) (of_nat 0) (of_nat 0) 0 (of_nat 0) (of_nat 0) (pm_bitmap p) =
      Some (of_nat s, of_nat l)" "fits p l s" "\<forall>c s'. fits p c s' \<longrightarrow> c \<le> l"
    using pmm_longest_spec [OF assms, of 0 "unat (pm_total_pages p)" 0 0 0 0] by (auto simp: fits_def)
  then have "fits p l s \<and> (\<forall>c s'. fits p c s' \<longrightarrow> c \<le> l) \<and>
    pmm_find_contiguous min_size p =
      Some (if of_nat l < (min_size + 4095) div 4096 then (0, None)
            else (of_nat s * 4096, Some (of_nat l * 4096)))"
    by (simp add: pmm_find_contiguous_def Let_def add.commute)
  then show ?thesis by blast
qed


section \<open>Initialisation\<close>

lemma bitmap_fill_Some:
  "i + n \<le> length b \<Longrightarrow>
   \<exists>b'. bitmap_fill n i b = Some b' \<and> length b' = length b \<and>
     (\<forall>k < length b. b' ! k = (if i \<le> k \<and> k < i + n then - 1 else b ! k))"
proof (induction n arbitrary: i b)
  case (Suc n)
  then obtain b' where b': "bitmap_fill n (Suc i) (b[i := - 1]) = Some b'" "length b' = length b"
    "\<forall>k < length b. b' ! k = (if Suc i \<le> k \<and> k < Suc i + n then - 1 else b[i := - 1] ! k)"
    using Suc.IH [of "Suc i" "b[i := - 1]"] by auto
  have "b' ! k = (if i \<le> k \<and> k < i + Suc n then - 1 else b ! k)" if "k < length b" for k
    using b'(3) that by (cases "k = i") auto
  then show ?case using b' Suc.prems by (simp add: arr_set_Some)
qed auto

lemma bitmap_fill_None: "i \<le> length b \<Longrightarrow> length b < i + n \<Longrightarrow> bitmap_fill n i b = None"
proof (induction n arbitrary: i b)
  case (Suc n)
  then show ?case using Suc.IH [of "Suc i" "b[i := - 1]"] by (cases "i < length b") (auto simp: arr_set_def)
qed simp

text \<open>The pages of a memory-map entry: those that lie inside it as a whole.\<close>

definition entry_pages :: "limine_memmap_entry \<Rightarrow> nat set" where
  "entry_pages e =
     {i. unat (me_base e) \<le> 4096 * i \<and> 4096 * Suc i \<le> unat (me_base e) + unat (me_length e)}"

definition entry_in_space :: "limine_memmap_entry \<Rightarrow> bool" where
  "entry_in_space e \<longleftrightarrow> unat (me_base e) + unat (me_length e) + 4095 < 2 ^ 64"

lemma pmm_free_range_spec:
  assumes "pmm_ok p" "4096 * i < 2 ^ 64" "4096 * j < 2 ^ 64" "{i..<j} \<inter> free_set p = {}"
  shows "\<exists>p'. pmm_free_range (of_nat (4096 * i)) (of_nat (4096 * j)) p = Some p' \<and>
    repaged (free_set p \<union> ({i..<j} \<inter> {..<unat (pm_total_pages p)})) p p'"
  using assms
proof (induction "j - i" arbitrary: i p)
  case 0
  then have "\<not> of_nat (4096 * i) < (of_nat (4096 * j) :: u64)"
    by (simp add: word_less_nat_alt unat_of_nat_lt del: of_nat_mult)
  then show ?case using 0 repaged_refl by (subst pmm_free_range.simps) auto
next
  case (Suc n)
  let ?t = "unat (pm_total_pages p)"
  have ij: "i < j" "n = j - Suc i" using Suc.hyps(2) by auto
  have lt: "of_nat (4096 * i) < (of_nat (4096 * j) :: u64)"
    using ij(1) Suc.prems(3) by (simp add: word_less_nat_alt unat_of_nat_lt del: of_nat_mult)
  have page: "of_nat (4096 * i) div 4096 = (of_nat i :: u64)"
    using ij(1) Suc.prems(3) by (simp add: word_unat_eq_iff unat_div unat_of_nat_lt del: of_nat_mult)
  have nxt: "of_nat (4096 * i) + 4096 = (of_nat (4096 * Suc i) :: u64)" by simp
  have cmp: "of_nat i < pm_total_pages p \<longleftrightarrow> i < ?t"
    using ij(1) Suc.prems(3) by (simp add: word_less_nat_alt unat_of_nat_lt)
  have iv: "{i..<j} = insert i {Suc i..<j}" using ij(1) by auto
  show ?case
  proof (cases "i < ?t")
    case True
    have "i \<notin> free_set p" using Suc.prems(4) ij(1) by auto
    then obtain b where b: "bitmap_clear (of_nat i) (pm_bitmap p) = Some b"
      "repaged (insert i (free_set p)) p (p\<lparr>pm_bitmap := b, pm_free_pages := pm_free_pages p + 1\<rparr>)"
      using pmm_clear_page [OF Suc.prems(1) True] by auto
    let ?p = "p\<lparr>pm_bitmap := b, pm_free_pages := pm_free_pages p + 1\<rparr>"
    obtain p' where p': "pmm_free_range (of_nat (4096 * Suc i)) (of_nat (4096 * j)) ?p = Some p'"
      "repaged (free_set ?p \<union> ({Suc i..<j} \<inter> {..<?t})) ?p p'"
    proof -
      have "{Suc i..<j} \<inter> free_set ?p = {}" unfolding repaged_ok(2) [OF b(2)] using Suc.prems(4) iv by auto
      then show ?thesis using that Suc.hyps(1) [OF ij(2), of ?p] Suc.prems(3) ij(1) repaged_ok [OF b(2)] by auto
    qed
    have e: "free_set ?p \<union> ({Suc i..<j} \<inter> {..<?t}) = free_set p \<union> ({i..<j} \<inter> {..<?t})"
      unfolding repaged_ok(2) [OF b(2)] iv using True by auto
    have "pmm_free_range (of_nat (4096 * i)) (of_nat (4096 * j)) p = Some p'"
      by (subst pmm_free_range.simps) (simp only: lt page cmp True b(1) nxt p'(1) Let_def if_True Option.bind.simps)
    then show ?thesis using repaged_trans [OF b(2)] p'(2) unfolding e by blast
  next
    case False
    have e: "{Suc i..<j} \<inter> {..<?t} = {i..<j} \<inter> {..<?t}" unfolding iv using False by auto
    have "pmm_free_range (of_nat (4096 * i)) (of_nat (4096 * j)) p =
        pmm_free_range (of_nat (4096 * Suc i)) (of_nat (4096 * j)) p"
      by (subst pmm_free_range.simps) (simp only: lt page cmp False nxt Let_def if_True if_False)
    then show ?thesis using Suc.hyps(1) [OF ij(2), of p] Suc.prems ij(1) unfolding e iv by auto
  qed
qed

lemma of_nat_unat_id: "of_nat (unat (x :: u64)) = x"
  by simp

lemma unat_and_not_4095: "unat ((x :: u64) AND NOT 4095) = 4096 * (unat x div 4096)"
proof -
  have m: "unat (x AND 4095) = unat x mod 4096" using unat_and_mask [of x 12] by simp
  have "unat (x AND NOT 4095) = unat x - unat x mod 4096"
    unfolding and_not_mask_sub m [symmetric] by (rule unat_sub) (rule word_and_le2)
  then show ?thesis by (simp add: minus_mod_eq_mult_div)
qed

lemma entry_bounds:
  assumes "entry_in_space e"
  shows "pmm_entry_base e = of_nat (4096 * ((unat (me_base e) + 4095) div 4096))" (is ?B)
    and "pmm_entry_top e = of_nat (4096 * ((unat (me_base e) + unat (me_length e)) div 4096))" (is ?T)
    and "entry_pages e = {(unat (me_base e) + 4095) div 4096..<(unat (me_base e) + unat (me_length e)) div 4096}"
proof -
  have u: "unat (me_base e + 4095) = unat (me_base e) + 4095"
    "unat (me_base e + me_length e) = unat (me_base e) + unat (me_length e)"
    using assms by (simp_all add: entry_in_space_def unat_add_nowrap)
  have m: "me_base e + 4096 - 1 = me_base e + 4095" "4096 - 1 = (4095 :: u64)" by simp_all
  have "unat (pmm_entry_base e) = 4096 * ((unat (me_base e) + 4095) div 4096)"
    unfolding pmm_entry_base_def m unat_and_not_4095 u(1) ..
  then show ?B by (metis of_nat_unat_id)
  have "unat (pmm_entry_top e) = 4096 * ((unat (me_base e) + unat (me_length e)) div 4096)"
    unfolding pmm_entry_top_def m unat_and_not_4095 u(2) ..
  then show ?T by (metis of_nat_unat_id)
  show "entry_pages e = {(unat (me_base e) + 4095) div 4096..<(unat (me_base e) + unat (me_length e)) div 4096}"
    by (auto simp: entry_pages_def)
qed

definition usable_entries :: "limine_memmap_entry list \<Rightarrow> limine_memmap_entry list" where
  "usable_entries es = filter (\<lambda>e. me_type e = LIMINE_MEMMAP_USABLE) es"

text \<open>What the boot loader promises about its memory map: entries lie inside the address space
  and usable entries do not share pages.\<close>

definition memmap_ok :: "limine_memmap_entry list \<Rightarrow> bool" where
  "memmap_ok es \<longleftrightarrow> (\<forall>e \<in> set es. entry_in_space e) \<and>
     sorted_wrt (\<lambda>e e'. entry_pages e \<inter> entry_pages e' = {}) (usable_entries es)"

definition memmap_pages :: "limine_memmap_entry list \<Rightarrow> nat set" where
  "memmap_pages es = (\<Union>e \<in> set (usable_entries es). entry_pages e)"

lemma pmm_free_entries_spec:
  "pmm_ok p \<Longrightarrow> memmap_ok es \<Longrightarrow> memmap_pages es \<inter> free_set p = {} \<Longrightarrow>
   \<exists>p'. pmm_free_entries es p = Some p' \<and>
     repaged (free_set p \<union> (memmap_pages es \<inter> {..<unat (pm_total_pages p)})) p p'"
proof (induction es arbitrary: p)
  case Nil
  then show ?case by (simp add: memmap_pages_def usable_entries_def repaged_refl)
next
  case (Cons e es)
  have es: "memmap_ok es" using Cons.prems(2) by (auto simp: memmap_ok_def usable_entries_def split: if_splits)
  show ?case
  proof (cases "me_type e = 0")
    case False
    then have "memmap_pages (e # es) = memmap_pages es" by (simp add: memmap_pages_def usable_entries_def)
    then show ?thesis using Cons.IH [OF Cons.prems(1) es] Cons.prems(3) False by simp
  next
    case True
    let ?t = "unat (pm_total_pages p)"
    have e: "entry_in_space e" "memmap_pages (e # es) = entry_pages e \<union> memmap_pages es"
      "entry_pages e \<inter> memmap_pages es = {}"
      using Cons.prems(2) True by (auto simp: memmap_ok_def memmap_pages_def usable_entries_def)
    have lim: "4096 * ((unat (me_base e) + 4095) div 4096) < 2 ^ 64"
      "4096 * ((unat (me_base e) + unat (me_length e)) div 4096) < 2 ^ 64"
      using e(1) times_div_less_eq_dividend [of 4096 "unat (me_base e) + 4095"]
        times_div_less_eq_dividend [of 4096 "unat (me_base e) + unat (me_length e)"]
      by (simp_all only: entry_in_space_def)
    have dj: "entry_pages e \<inter> free_set p = {}" using Cons.prems(3) e(2) by auto
    obtain p1 where p1: "pmm_free_range (pmm_entry_base e) (pmm_entry_top e) p = Some p1"
      "repaged (free_set p \<union> (entry_pages e \<inter> {..<?t})) p p1"
      using pmm_free_range_spec [OF Cons.prems(1) lim] dj unfolding entry_bounds [OF e(1)] by blast
    note r = repaged_ok [OF p1(2)]
    have "memmap_pages es \<inter> free_set p1 = {}" unfolding r(2) using Cons.prems(3) e(2,3) by auto
    then obtain p2 where p2: "pmm_free_entries es p1 = Some p2"
      "repaged (free_set p1 \<union> (memmap_pages es \<inter> {..<?t})) p1 p2"
      using Cons.IH [OF r(1) es] r(3) by auto
    have "free_set p1 \<union> (memmap_pages es \<inter> {..<?t}) = free_set p \<union> (memmap_pages (e # es) \<inter> {..<?t})"
      unfolding r(2) e(2) by auto
    then show ?thesis using p1 p2 True repaged_trans [OF p1(2) p2(2)] by simp
  qed
qed

lemma pmm_init_small:
  assumes "memmap_ok es" "length (pm_bitmap p) = 16384" "unat (pmm_highest es) < 2 ^ 32"
  shows "\<exists>p'. pmm_init (Some es) p = Some p' \<and> pmm_ok p' \<and>
    pm_total_pages p' = pmm_highest es div 4096 \<and> pm_highest_addr p' = pmm_highest es \<and>
    free_set p' = memmap_pages es \<inter> {..<unat (pmm_highest es) div 4096} \<and>
    pm_usable_pages p' = pm_free_pages p'"
proof -
  let ?t = "pmm_highest es div 4096"
  have t: "unat ?t = unat (pmm_highest es) div 4096" by (simp add: unat_div)
  then have lt: "unat ?t < 2 ^ 20" using assms(3) by auto
  have n: "unat (?t div 64 + 1) = unat ?t div 64 + 1"
    using lt by (subst unat_Suc_nowrap) (simp_all add: unat_div)
  have "\<not> ?t > 1048576" using lt by (simp add: word_less_nat_alt)
  moreover obtain b where b: "bitmap_fill (unat (?t div 64 + 1)) 0 (pm_bitmap p) = Some b" "length b = 16384"
    "\<forall>k < 16384. k < unat ?t div 64 + 1 \<longrightarrow> b ! k = - 1"
  proof -
    have "0 + (unat ?t div 64 + 1) \<le> length (pm_bitmap p)" using assms(2) lt by auto
    from bitmap_fill_Some [OF this] show ?thesis using that n assms(2) by auto
  qed
  let ?p = "p\<lparr>pm_highest_addr := pmm_highest es, pm_total_pages := ?t, pm_bitmap := b, pm_free_pages := 0\<rparr>"
  have "page_used b i" if "i < unat ?t" for i
  proof -
    have "i div 64 < unat ?t div 64 + 1" using that by (simp add: div_le_mono le_imp_less_Suc)
    moreover have "i div 64 < 16384" using that lt by auto
    ultimately show ?thesis using b(3) by (simp add: page_used_def)
  qed
  then have fs: "free_set ?p = {}" by (auto simp: free_set_def)
  then have "pmm_ok ?p" using b(2) lt by (simp add: pmm_ok_def)
  then obtain p' where "pmm_free_entries es ?p = Some p'"
    "repaged (free_set ?p \<union> (memmap_pages es \<inter> {..<unat ?t})) ?p p'"
    using pmm_free_entries_spec [of ?p es] assms(1) fs by auto
  ultimately show ?thesis using b(1) fs t
    by (auto simp: pmm_init_def Let_def repaged_def pmm_ok_def free_set_def)
qed

text \<open>From 4 GB on, the loop that fills the bitmap writes behind its end.\<close>

lemma pmm_init_overrun:
  assumes "length (pm_bitmap p) = 16384" "2 ^ 32 \<le> unat (pmm_highest es)"
  shows "pmm_init (Some es) p = None"
proof -
  let ?t = "pmm_highest es div 4096"
  have "2 ^ 20 \<le> unat ?t" using assms(2) by (simp add: unat_div)
  then have t: "(if ?t > 1048576 then 1048576 else ?t) = 1048576"
    by (auto simp: word_less_nat_alt word_unat_eq_iff)
  have "bitmap_fill 16385 0 (pm_bitmap p) = None" by (rule bitmap_fill_None) (simp_all add: assms(1))
  then show ?thesis unfolding pmm_init_def Let_def t by (simp add: Let_def t)
qed

end
