(* ===== verification/X86_Spinlock.thy ===== *)
theory X86_Spinlock
  imports Ggmk_Prelude
begin

text \<open>
  The ticket spinlock of \<open>include/ggmk/arch/spinlock.h\<close>, which the bare-metal HAL uses for every
  lock (\<open>hal/x86_baremetal/lock.c\<close>).  The atomic accesses of \<open>gmk_spinlock_acquire\<close> and
  \<open>gmk_spinlock_release\<close> are separate operations, and an inductive step relation interleaves
  the operations of any number of processors.

  The lock refines a FIFO queue of processors: the processor that holds the lock is the head of
  the queue.  Mutual exclusion and the order of service follow, as long as there are fewer than
  \<open>2 ^ 32\<close> processors, so that no two tickets that are out at the same time are equal.
\<close>

section \<open>The lock\<close>

record gmk_spinlock =
  sl_next :: u32
  sl_serving :: u32

definition gmk_spinlock_init :: gmk_spinlock where
  "gmk_spinlock_init = \<lparr>sl_next = 0, sl_serving = 0\<rparr>"

text \<open>\<open>gmk_spinlock_acquire\<close>: draw a ticket, then test until it is served.\<close>

definition spinlock_draw :: "gmk_spinlock \<Rightarrow> u32 \<times> gmk_spinlock" where
  "spinlock_draw l = (sl_next l, l\<lparr>sl_next := sl_next l + 1\<rparr>)"

definition spinlock_served :: "u32 \<Rightarrow> gmk_spinlock \<Rightarrow> bool" where
  "spinlock_served ticket l \<longleftrightarrow> sl_serving l = ticket"

text \<open>\<open>gmk_spinlock_release\<close>: a load and a store.\<close>

definition spinlock_load :: "gmk_spinlock \<Rightarrow> u32" where
  "spinlock_load l = sl_serving l"

definition spinlock_store :: "u32 \<Rightarrow> gmk_spinlock \<Rightarrow> gmk_spinlock" where
  "spinlock_store current l = l\<lparr>sl_serving := current + 1\<rparr>"

text \<open>The functions as one processor runs them when no other processor interferes.  The spin
  loop then either ends at its first test or never.\<close>

definition gmk_spinlock_acquire :: "gmk_spinlock \<Rightarrow> gmk_spinlock exec" where
  "gmk_spinlock_acquire l =
     (let (ticket, l1) = spinlock_draw l in if spinlock_served ticket l1 then Some l1 else None)"

definition gmk_spinlock_release :: "gmk_spinlock \<Rightarrow> gmk_spinlock" where
  "gmk_spinlock_release l = spinlock_store (spinlock_load l) l"

definition gmk_spinlock_destroy :: "gmk_spinlock \<Rightarrow> gmk_spinlock" where
  "gmk_spinlock_destroy l = l"

lemmas spinlock_defs = gmk_spinlock_init_def spinlock_draw_def spinlock_served_def
  spinlock_load_def spinlock_store_def

section \<open>Processors\<close>

text \<open>Where a processor is in the code of the lock.\<close>

datatype lock_pc = Outside | Spinning u32 | Holding | Releasing u32

type_synonym cpus = "nat \<Rightarrow> lock_pc"

text \<open>\<open>lock_step n e\<close> is one atomic access by one of the processors below \<open>n\<close>.  The label \<open>e\<close> tells
  whether a processor joins those that want the lock, or leaves them, or neither.\<close>

datatype lock_event = Join nat | Leave nat | Stay

inductive lock_step ::
  "nat \<Rightarrow> lock_event \<Rightarrow> gmk_spinlock \<times> cpus \<Rightarrow> gmk_spinlock \<times> cpus \<Rightarrow> bool" for n where
  step_draw: "i < n \<Longrightarrow> pc i = Outside \<Longrightarrow> spinlock_draw l = (t, l') \<Longrightarrow>
    lock_step n (Join i) (l, pc) (l', pc(i := Spinning t))"
| step_spin: "i < n \<Longrightarrow> pc i = Spinning t \<Longrightarrow> \<not> spinlock_served t l \<Longrightarrow>
    lock_step n Stay (l, pc) (l, pc)"
| step_enter: "i < n \<Longrightarrow> pc i = Spinning t \<Longrightarrow> spinlock_served t l \<Longrightarrow>
    lock_step n Stay (l, pc) (l, pc(i := Holding))"
| step_load: "i < n \<Longrightarrow> pc i = Holding \<Longrightarrow>
    lock_step n Stay (l, pc) (l, pc(i := Releasing (spinlock_load l)))"
| step_store: "i < n \<Longrightarrow> pc i = Releasing c \<Longrightarrow>
    lock_step n (Leave i) (l, pc) (spinlock_store c l, pc(i := Outside))"

text \<open>A run with the list of its labels.\<close>

inductive lock_run ::
  "nat \<Rightarrow> gmk_spinlock \<times> cpus \<Rightarrow> lock_event list \<Rightarrow> gmk_spinlock \<times> cpus \<Rightarrow> bool" for n where
  run_nil: "lock_run n s [] s"
| run_snoc: "lock_run n s es s' \<Longrightarrow> lock_step n e s' s'' \<Longrightarrow> lock_run n s (es @ [e]) s''"

definition lock_start :: "gmk_spinlock \<times> cpus" where
  "lock_start = (gmk_spinlock_init, \<lambda>_. Outside)"

text \<open>The specification: a queue of processors.  Its head has the lock or is the next to get it;
  only the head leaves.\<close>

fun queue_event :: "nat list \<Rightarrow> lock_event \<Rightarrow> nat list option" where
  "queue_event q (Join i) = (if i \<in> set q then None else Some (q @ [i]))"
| "queue_event q (Leave i) = (case q of [] \<Rightarrow> None | j # q' \<Rightarrow> if i = j then Some q' else None)"
| "queue_event q Stay = Some q"

fun queue_events :: "nat list \<Rightarrow> lock_event list \<Rightarrow> nat list option" where
  "queue_events q [] = Some q"
| "queue_events q (e # es) = Option.bind (queue_event q e) (\<lambda>q'. queue_events q' es)"

lemma queue_events_snoc:
  "queue_events q (es @ [e]) = Option.bind (queue_events q es) (\<lambda>q'. queue_event q' e)"
  by (induction es arbitrary: q) (auto split: bind_split)

section \<open>The queue behind the counters\<close>

definition at_head :: "u32 \<Rightarrow> lock_pc \<Rightarrow> bool" where
  "at_head t p \<longleftrightarrow> p = Spinning t \<or> p = Holding \<or> p = Releasing t"

text \<open>\<open>lock_queue n q l pc\<close>: the processors in \<open>q\<close>, in this order, have drawn the tickets from
  \<open>serving\<close> up to \<open>next\<close>, and all the others are outside.\<close>

definition lock_queue :: "nat \<Rightarrow> nat list \<Rightarrow> gmk_spinlock \<Rightarrow> cpus \<Rightarrow> bool" where
  "lock_queue n q l pc \<longleftrightarrow>
     distinct q \<and> set q \<subseteq> {..<n} \<and> sl_next l = sl_serving l + of_nat (length q) \<and>
     (\<forall>i. i \<notin> set q \<longrightarrow> pc i = Outside) \<and>
     (\<forall>k < length q. if k = 0 then at_head (sl_serving l) (pc (q ! k))
                     else pc (q ! k) = Spinning (sl_serving l + of_nat k))"

lemma lock_queue_length: "lock_queue n q l pc \<Longrightarrow> length q \<le> n"
  unfolding lock_queue_def by (metis card_lessThan card_mono distinct_card finite_lessThan)

lemma lock_queue_head:
  "lock_queue n (i # q) l pc \<Longrightarrow> at_head (sl_serving l) (pc i)"
  by (auto simp: lock_queue_def)

lemma lock_queue_tail:
  assumes "lock_queue n (i # q) l pc" "j \<in> set q"
  obtains k where "k < length q" "q ! k = j" "pc j = Spinning (sl_serving l + of_nat (Suc k))"
proof -
  obtain k where "k < length q" "q ! k = j" using assms(2) by (auto simp: in_set_conv_nth)
  moreover from this assms(1) have "pc j = Spinning (sl_serving l + of_nat (Suc k))"
    unfolding lock_queue_def by (auto dest!: spec [of _ "Suc k"])
  ultimately show ?thesis by (rule that)
qed

lemma lock_queue_nth:
  assumes "lock_queue n q l pc" "i \<in> set q"
  shows "at_head (sl_serving l) (pc i) \<or> (\<exists>k. pc i = Spinning k)"
proof -
  obtain k where "k < length q" "q ! k = i" using assms(2) by (auto simp: in_set_conv_nth)
  then show ?thesis using assms(1) by (cases "k = 0") (auto simp: lock_queue_def)
qed

lemma lock_queue_outside: "lock_queue n q l pc \<Longrightarrow> i \<in> set q \<longleftrightarrow> pc i \<noteq> Outside"
  using lock_queue_nth [of n q l pc i] by (auto simp: lock_queue_def at_head_def)

lemma lock_queue_releasing: "lock_queue n q l pc \<Longrightarrow> pc i = Releasing c \<Longrightarrow> c = sl_serving l"
  using lock_queue_nth [of n q l pc i] lock_queue_outside [of n q l pc i] by (auto simp: at_head_def)

lemma lock_queue_start: "lock_queue n [] (fst lock_start) (snd lock_start)"
  by (simp add: lock_start_def lock_queue_def spinlock_defs)

text \<open>A processor that is past its test, or whose ticket is being served, is the head.\<close>

lemma lock_queue_is_head:
  assumes q: "lock_queue n q l pc" and n: "n < 2 ^ 32" and i: "at_head (sl_serving l) (pc i)"
  shows "\<exists>q'. q = i # q'"
proof (cases q)
  case Nil
  then show ?thesis using q i by (auto simp: lock_queue_def at_head_def)
next
  case (Cons j q')
  have "i = j"
  proof (rule ccontr)
    assume "i \<noteq> j"
    moreover have "i \<in> set q" using q i by (auto simp: lock_queue_def at_head_def)
    ultimately have "i \<in> set q'" using Cons by simp
    then obtain k where k: "k < length q'" "pc i = Spinning (sl_serving l + of_nat (Suc k))"
      using q Cons by (metis lock_queue_tail)
    then have "(of_nat (Suc k) :: u32) = 0" using i by (simp add: at_head_def)
    moreover have "Suc k < 2 ^ 32" using lock_queue_length [OF q] n k(1) Cons by simp
    ultimately show False using unat_of_nat_lt [of "Suc k", where 'a = 32] by simp
  qed
  then show ?thesis using Cons by simp
qed

section \<open>Simulation\<close>

lemma lock_queue_draw:
  assumes q: "lock_queue n q l pc" and i: "i < n" "pc i = Outside" and d: "spinlock_draw l = (t, l')"
  shows "lock_queue n (q @ [i]) l' (pc(i := Spinning t))"
proof -
  have out: "i \<notin> set q" using lock_queue_outside [OF q] i(2) by simp
  have pc: "(pc(i := Spinning t)) (q ! k) = pc (q ! k)" if "k < length q" for k
    using out that by (auto simp: in_set_conv_nth)
  have "if k = 0 then at_head (sl_serving l') ((pc(i := Spinning t)) ((q @ [i]) ! k))
        else (pc(i := Spinning t)) ((q @ [i]) ! k) = Spinning (sl_serving l' + of_nat k)"
    if "k < length (q @ [i])" for k
  proof (cases "k < length q")
    case True
    then have e: "(pc(i := Spinning t)) ((q @ [i]) ! k) = pc (q ! k)" by (simp only: nth_append pc if_True)
    show ?thesis unfolding e using q d True by (auto simp: lock_queue_def spinlock_draw_def)
  next
    case False
    then have "k = length q" using that by simp
    then show ?thesis using q d by (auto simp: lock_queue_def spinlock_draw_def at_head_def)
  qed
  note place = this
  show ?thesis unfolding lock_queue_def
    by (intro conjI allI impI place) (use q i d out in \<open>auto simp: lock_queue_def spinlock_draw_def\<close>)
qed

lemma lock_queue_move:
  assumes "lock_queue n (i # q) l pc" "at_head (sl_serving l) p"
  shows "lock_queue n (i # q) l (pc(i := p))"
  unfolding lock_queue_def
proof (intro conjI allI impI)
  fix k assume k: "k < length (i # q)"
  show "if k = 0 then at_head (sl_serving l) ((pc(i := p)) ((i # q) ! k))
        else (pc(i := p)) ((i # q) ! k) = Spinning (sl_serving l + of_nat k)"
  proof (cases k)
    case (Suc k')
    then have "(i # q) ! k \<noteq> i" using assms(1) k by (auto simp: lock_queue_def)
    then show ?thesis using assms(1) k Suc by (auto simp: lock_queue_def)
  qed (use assms(2) in simp)
qed (use assms(1) in \<open>auto simp: lock_queue_def\<close>)

lemma lock_queue_store:
  assumes "lock_queue n (i # q) l pc"
  shows "lock_queue n q (spinlock_store (sl_serving l) l) (pc(i := Outside))"
  unfolding lock_queue_def
proof (intro conjI allI impI)
  fix k assume k: "k < length q"
  then have "q ! k \<noteq> i" using assms by (auto simp: lock_queue_def)
  moreover have "pc (q ! k) = Spinning (sl_serving l + of_nat (Suc k))"
    using assms k unfolding lock_queue_def by (auto dest!: spec [of _ "Suc k"])
  ultimately show "if k = 0 then at_head (sl_serving (spinlock_store (sl_serving l) l)) ((pc(i := Outside)) (q ! k))
        else (pc(i := Outside)) (q ! k) = Spinning (sl_serving (spinlock_store (sl_serving l) l) + of_nat k)"
    by (cases k) (simp_all add: at_head_def spinlock_store_def algebra_simps)
qed (use assms in \<open>auto simp: lock_queue_def spinlock_store_def\<close>)

text \<open>Every step of the lock is a step of the queue.\<close>

lemma lock_step_simulates:
  assumes n: "n < 2 ^ 32" and q: "lock_queue n q (fst s) (snd s)" and st: "lock_step n e s s'"
  shows "\<exists>q'. queue_event q e = Some q' \<and> lock_queue n q' (fst s') (snd s')"
  using st
proof cases
  case (step_draw i pc l t l')
  then show ?thesis using q lock_queue_draw [of n q l pc i t l'] lock_queue_outside [of n q l pc i] by auto
next
  case (step_spin i pc t l)
  then show ?thesis using q by simp
next
  case (step_enter i pc t l)
  then have "at_head (sl_serving l) (pc i)" by (simp add: at_head_def spinlock_served_def)
  then obtain q' where q': "q = i # q'" using lock_queue_is_head [of n q l pc i] n q step_enter(2) by auto
  then show ?thesis using step_enter q q' lock_queue_move [of n i q' l pc Holding] by (simp add: at_head_def)
next
  case (step_load i pc l)
  then have "at_head (sl_serving l) (pc i)" by (simp add: at_head_def)
  then obtain q' where q': "q = i # q'" using lock_queue_is_head [of n q l pc i] n q step_load(2) by auto
  then show ?thesis using step_load q lock_queue_move [of n i q' l pc]
    by (simp add: at_head_def spinlock_load_def)
next
  case (step_store i pc c l)
  then have "c = sl_serving l" using q lock_queue_releasing [of n q l pc i c] n by simp
  then have "at_head (sl_serving l) (pc i)" using step_store by (simp add: at_head_def)
  then obtain q' where q': "q = i # q'" using lock_queue_is_head [of n q l pc i] n q step_store(2) by auto
  then show ?thesis using step_store q lock_queue_store [of n i q' l pc] \<open>c = sl_serving l\<close> by simp
qed

lemma lock_run_simulates:
  assumes "lock_run n s es s'" "n < 2 ^ 32" "lock_queue n q (fst s) (snd s)"
  shows "\<exists>q'. queue_events q es = Some q' \<and> lock_queue n q' (fst s') (snd s')"
  using assms
proof (induction rule: lock_run.induct)
  case (run_snoc s es s' e s'')
  then obtain q1 where "queue_events q es = Some q1" "lock_queue n q1 (fst s') (snd s')" by auto
  then show ?case using lock_step_simulates [OF \<open>n < 2 ^ 32\<close> _ run_snoc.hyps(2)]
    by (auto simp: queue_events_snoc)
qed simp

lemmas lock_run_queue = lock_run_simulates [OF _ _ lock_queue_start]

text \<open>Only the head of the queue is past its test.\<close>

lemma lock_queue_inside:
  assumes "lock_queue n q l pc" "n < 2 ^ 32" "pc i = Holding \<or> pc i = Releasing c"
  shows "\<exists>q'. q = i # q'"
proof (rule lock_queue_is_head [OF assms(1,2)])
  show "at_head (sl_serving l) (pc i)"
    using assms(3) lock_queue_releasing [OF assms(1)] by (auto simp: at_head_def)
qed

text \<open>The number of processors before a waiting one falls by one with every release, whatever the
  others do.\<close>

definition leaves :: "lock_event list \<Rightarrow> nat" where
  "leaves es = length (filter (\<lambda>e. case e of Leave _ \<Rightarrow> True | _ \<Rightarrow> False) es)"

lemma leaves_simps [simp]:
  "leaves [] = 0" "leaves (Join i # es) = leaves es" "leaves (Stay # es) = leaves es"
  "leaves (Leave i # es) = Suc (leaves es)"
  by (simp_all add: leaves_def)

lemma queue_events_position:
  "queue_events q es = Some q' \<Longrightarrow> k < length q \<Longrightarrow> leaves es \<le> k \<Longrightarrow>
   k - leaves es < length q' \<and> q' ! (k - leaves es) = q ! k"
proof (induction es arbitrary: q k)
  case (Cons e es)
  then obtain q1 where q1: "queue_event q e = Some q1" "queue_events q1 es = Some q'"
    by (auto split: bind_splits)
  show ?case
  proof (cases e)
    case (Join i)
    then show ?thesis using Cons.IH [OF q1(2), of k] Cons.prems q1(1) by (auto simp: nth_append split: if_splits)
  next
    case (Leave i)
    then show ?thesis using Cons.IH [OF q1(2), of "k - 1"] Cons.prems q1(1)
      by (cases k) (auto split: list.splits if_splits)
  next
    case Stay
    then show ?thesis using Cons.IH [OF q1(2), of k] Cons.prems q1(1) by simp
  qed
qed simp

text \<open>The position of a waiting processor is the distance of its ticket from the one served.\<close>

lemma lock_queue_position:
  assumes q: "lock_queue n q l pc" and n: "n < 2 ^ 32" and i: "pc i = Spinning t"
  shows "unat (t - sl_serving l) < length q \<and> q ! unat (t - sl_serving l) = i"
proof -
  have "i \<in> set q" using lock_queue_outside [OF q] i by simp
  then obtain k where k: "k < length q" "q ! k = i" by (auto simp: in_set_conv_nth)
  then have "t = sl_serving l + of_nat k" using q i by (cases "k = 0") (auto simp: lock_queue_def at_head_def)
  moreover have "k < 2 ^ 32" using k(1) lock_queue_length [OF q] n by simp
  ultimately have "unat (t - sl_serving l) = k" by (simp add: unat_of_nat_lt)
  then show ?thesis using k by simp
qed

lemma lock_queue_ticket:
  assumes "lock_queue n q l pc" "k < length q" "0 < k"
  shows "pc (q ! k) = Spinning (sl_serving l + of_nat k)"
  using assms by (auto simp: lock_queue_def)

text \<open>The head is never stuck.\<close>

lemma lock_queue_progress:
  assumes "lock_queue n (i # q) l pc"
  shows "\<exists>e s'. lock_step n e (l, pc) s' \<and> snd s' i \<noteq> pc i"
proof -
  have i: "i < n" using assms by (simp add: lock_queue_def)
  consider "pc i = Spinning (sl_serving l)" | "pc i = Holding" | "pc i = Releasing (sl_serving l)"
    using lock_queue_head [OF assms] by (auto simp: at_head_def)
  then show ?thesis
  proof cases
    case 1
    have "lock_step n Stay (l, pc) (l, pc(i := Holding))"
      using i 1 by (rule step_enter) (simp add: spinlock_served_def)
    then show ?thesis using 1 by (intro exI [of _ Stay] exI [of _ "(l, pc(i := Holding))"]) simp
  next
    case 2
    show ?thesis using step_load [of i n pc l] i 2 by (auto intro!: exI)
  next
    case 3
    show ?thesis using step_store [of i n pc "sl_serving l" l] i 3 by (auto intro!: exI)
  qed
qed

text \<open>The ticket that is served counts the releases.\<close>

lemma lock_step_serving:
  assumes "n < 2 ^ 32" "lock_queue n q (fst s) (snd s)" "lock_step n e s s'"
  shows "sl_serving (fst s') = sl_serving (fst s) + of_nat (leaves [e])"
  using assms(3)
proof cases
  case (step_store i pc c l)
  then show ?thesis using lock_queue_releasing [of n q l pc i c] assms(2) by (simp add: spinlock_store_def)
qed (auto simp: spinlock_draw_def)

lemma leaves_append [simp]: "leaves (es @ es') = leaves es + leaves es'"
  by (simp add: leaves_def)

lemma lock_run_serving:
  assumes "lock_run n s es s'" "n < 2 ^ 32" "lock_queue n q (fst s) (snd s)"
  shows "sl_serving (fst s') = sl_serving (fst s) + of_nat (leaves es)"
  using assms
proof (induction rule: lock_run.induct)
  case (run_snoc s es s' e s'')
  obtain q1 where "lock_queue n q1 (fst s') (snd s')"
    using lock_run_simulates [OF run_snoc.hyps(1) run_snoc.prems] by auto
  then show ?case using lock_step_serving [OF run_snoc.prems(1) _ run_snoc.hyps(2)] run_snoc by simp
qed simp

end
