(* ===== verification/X86_Hal.thy ===== *)
theory X86_Hal
  imports X86_Memops X86_Pmm X86_Spinlock
begin

text \<open>
  The boot-time bump allocator \<open>arch/x86_64/boot_alloc.c\<close>, the address helpers of
  \<open>arch/x86_64/mem.h\<close> and the bare-metal implementation of the HAL: memory
  (\<open>hal/x86_baremetal/mem.c\<close>), locks, threads and time.  The state is the bump allocator, the page
  allocator and the byte memory that both hand out.

  The lemmas show that what either allocator returns is zeroed, inside its pool and disjoint
  from what it returned before, and that freeing pages undoes their allocation.
\<close>

section \<open>Boot allocator\<close>

record boot_alloc =
  ba_base :: addr
  ba_size :: u64
  ba_offset :: u64

definition boot_alloc_init :: "addr \<Rightarrow> u64 \<Rightarrow> boot_alloc" where
  "boot_alloc_init base sz = \<lparr>ba_base = base, ba_size = sz, ba_offset = 0\<rparr>"

definition boot_aligned_alloc ::
  "u64 \<Rightarrow> u64 \<Rightarrow> boot_alloc \<Rightarrow> bytes \<Rightarrow> addr \<times> boot_alloc \<times> bytes" where
  "boot_aligned_alloc alignment sz ba m =
     (if ba_base ba = 0 \<or> sz = 0 then (0, ba, m)
      else
        let aligned = (ba_offset ba + alignment - 1) AND NOT (alignment - 1)
        in if aligned + sz > ba_size ba then (0, ba, m)
           else
             let ptr = ba_base ba + aligned
             in (ptr, ba\<lparr>ba_offset := aligned + sz\<rparr>, memset_loop (unat sz) ptr 0 m))"

definition boot_calloc :: "u64 \<Rightarrow> u64 \<Rightarrow> boot_alloc \<Rightarrow> bytes \<Rightarrow> addr \<times> boot_alloc \<times> bytes" where
  "boot_calloc cnt sz ba m = boot_aligned_alloc 8 (cnt * sz) ba m"

definition boot_free :: "addr \<Rightarrow> boot_alloc \<Rightarrow> boot_alloc" where
  "boot_free ptr ba = ba"

definition boot_alloc_used :: "boot_alloc \<Rightarrow> u64" where "boot_alloc_used ba = ba_offset ba"
definition boot_alloc_total :: "boot_alloc \<Rightarrow> u64" where "boot_alloc_total ba = ba_size ba"

section \<open>The HAL\<close>

text \<open>\<open>bm_hhdm\<close> is the offset at which physical memory is mapped.\<close>

record bare_metal =
  bm_hhdm :: u64
  bm_boot :: boot_alloc
  bm_pmm :: pmm
  bm_bytes :: bytes

definition phys_to_virt :: "bare_metal \<Rightarrow> u64 \<Rightarrow> addr" where
  "phys_to_virt s phys = phys + bm_hhdm s"

definition virt_to_phys :: "bare_metal \<Rightarrow> addr \<Rightarrow> u64" where
  "virt_to_phys s virt = virt - bm_hhdm s"

definition hal_pages :: "u64 \<Rightarrow> u64" where
  "hal_pages sz = (sz + PMM_PAGE_SIZE - 1) div PMM_PAGE_SIZE"

definition bm_hal_page_alloc :: "u64 \<Rightarrow> u64 \<Rightarrow> bare_metal \<Rightarrow> (addr \<times> bare_metal) exec" where
  "bm_hal_page_alloc sz align s =
     Option.bind (pmm_alloc_pages (hal_pages sz) (bm_pmm s)) (\<lambda>(phys, p).
       let s1 = s\<lparr>bm_pmm := p\<rparr> in
       if phys = 0 then Some (0, s1)
       else
         let (ptr, m) = memset (phys_to_virt s1 phys) 0 sz (bm_bytes s1)
         in Some (ptr, s1\<lparr>bm_bytes := m\<rparr>))"

definition bm_hal_page_free :: "addr \<Rightarrow> u64 \<Rightarrow> bare_metal \<Rightarrow> bare_metal exec" where
  "bm_hal_page_free ptr sz s =
     (if ptr = 0 then Some s
      else Option.bind (pmm_free_pages (virt_to_phys s ptr) (hal_pages sz) (bm_pmm s)) (\<lambda>p.
        Some (s\<lparr>bm_pmm := p\<rparr>)))"

definition bm_hal_calloc :: "u64 \<Rightarrow> u64 \<Rightarrow> bare_metal \<Rightarrow> addr \<times> bare_metal" where
  "bm_hal_calloc n sz s =
     (let (p, ba, m) = boot_calloc n sz (bm_boot s) (bm_bytes s)
      in (p, s\<lparr>bm_boot := ba, bm_bytes := m\<rparr>))"

definition bm_hal_free :: "addr \<Rightarrow> bare_metal \<Rightarrow> bare_metal" where
  "bm_hal_free ptr s = s\<lparr>bm_boot := boot_free ptr (bm_boot s)\<rparr>"

definition bm_hal_memset :: "addr \<Rightarrow> int \<Rightarrow> u64 \<Rightarrow> bare_metal \<Rightarrow> addr \<times> bare_metal" where
  "bm_hal_memset dst val n s = (let (p, m) = memset dst val n (bm_bytes s) in (p, s\<lparr>bm_bytes := m\<rparr>))"

definition bm_hal_memcpy :: "addr \<Rightarrow> addr \<Rightarrow> u64 \<Rightarrow> bare_metal \<Rightarrow> addr \<times> bare_metal" where
  "bm_hal_memcpy dst src n s = (let (p, m) = memcpy dst src n (bm_bytes s) in (p, s\<lparr>bm_bytes := m\<rparr>))"

text \<open>Locks are ticket spinlocks.\<close>

definition bm_hal_lock_init :: gmk_spinlock where "bm_hal_lock_init = gmk_spinlock_init"
definition bm_hal_lock_acquire :: "gmk_spinlock \<Rightarrow> gmk_spinlock exec" where
  "bm_hal_lock_acquire l = gmk_spinlock_acquire l"
definition bm_hal_lock_release :: "gmk_spinlock \<Rightarrow> gmk_spinlock" where
  "bm_hal_lock_release l = gmk_spinlock_release l"
definition bm_hal_lock_destroy :: "gmk_spinlock \<Rightarrow> gmk_spinlock" where
  "bm_hal_lock_destroy l = gmk_spinlock_destroy l"

text \<open>Creating and joining a thread does nothing: the processors already run.\<close>

definition bm_hal_thread_create :: rc where "bm_hal_thread_create = 0"
definition bm_hal_thread_join :: rc where "bm_hal_thread_join = 0"

definition bm_hal_now_ns :: "u64 \<Rightarrow> u64" where
  "bm_hal_now_ns timer_count = timer_count * 1000000"

section \<open>The boot allocator's blocks\<close>

text \<open>The alignment is a power of two, the pool lies inside the address space and the request
  does not make the arithmetic wrap around.\<close>

definition boot_alloc_ok :: "boot_alloc \<Rightarrow> bool" where
  "boot_alloc_ok ba \<longleftrightarrow> unat (ba_base ba) + unat (ba_size ba) < 2 ^ 64 \<and> ba_offset ba \<le> ba_size ba"

definition align_up :: "nat \<Rightarrow> nat \<Rightarrow> nat" where
  "align_up x a = (x + a - 1) div a * a"

lemma align_up_ge: "0 < a \<Longrightarrow> x \<le> align_up x a"
proof -
  assume a: "0 < a"
  have "x + a - 1 = (x + a - 1) div a * a + (x + a - 1) mod a" by simp
  moreover have "(x + a - 1) mod a < a" using a by simp
  ultimately show ?thesis unfolding align_up_def using a by linarith
qed

lemma unat_align_up:
  assumes "k < 64" "unat x + 2 ^ k < 2 ^ 64"
  shows "unat ((x + 2 ^ k - 1) AND NOT (2 ^ k - 1 :: u64)) = align_up (unat x) (2 ^ k)"
proof -
  let ?y = "x + 2 ^ k - 1"
  have k: "unat (2 ^ k :: u64) = 2 ^ k" using assms(1) by (simp add: unat_pow2)
  have s: "unat (x + 2 ^ k) = unat x + 2 ^ k" using assms(2) k by (simp add: unat_add_nowrap)
  have y: "unat ?y = unat x + 2 ^ k - 1"
  proof -
    have "(1 :: u64) \<le> x + 2 ^ k" using s one_le_power [of "2 :: nat" k] by (simp add: word_le_nat_alt trans_le_add2)
    then show ?thesis using s by (simp add: unat_sub)
  qed
  have "unat (?y AND NOT (2 ^ k - 1)) = unat ?y - unat ?y mod 2 ^ k"
    unfolding and_not_mask_sub unat_and_mask [symmetric] by (rule unat_sub) (rule word_and_le2)
  then show ?thesis using y by (simp add: align_up_def minus_mod_eq_div_mult)
qed

lemma boot_aligned_alloc_eq:
  assumes "k < 64" "unat (ba_offset ba) + 2 ^ k + unat sz < 2 ^ 64" "ba_base ba \<noteq> 0" "sz \<noteq> 0"
  defines "a \<equiv> align_up (unat (ba_offset ba)) (2 ^ k)"
  shows "boot_aligned_alloc (2 ^ k) sz ba m =
    (if a + unat sz \<le> unat (ba_size ba)
     then (ba_base ba + of_nat a, ba\<lparr>ba_offset := of_nat (a + unat sz)\<rparr>,
           put_bytes (ba_base ba + of_nat a) (replicate (unat sz) 0) m)
     else (0, ba, m))"
proof -
  let ?al = "(ba_offset ba + 2 ^ k - 1) AND NOT (2 ^ k - 1 :: u64)"
  have al: "unat ?al = a" using assms(1,2) by (simp add: a_def unat_align_up)
  then have ala: "?al = of_nat a" by (metis of_nat_unat_id)
  have "a \<le> unat (ba_offset ba) + 2 ^ k - 1"
    by (simp add: a_def align_up_def div_times_less_eq_dividend)
  then have sum: "unat (?al + sz) = a + unat sz" using al assms(2) by (subst unat_add_nowrap) simp_all
  then have "?al + sz = of_nat (a + unat sz)" by (metis of_nat_unat_id)
  then show ?thesis
    using assms(3,4) sum memset_loop_put [of "unat sz" "ba_base ba + of_nat a" 0 m]
    by (simp add: boot_aligned_alloc_def Let_def word_less_nat_alt not_less ala)
qed

section \<open>Pages through the HAL\<close>

lemma hal_pages_unat: "unat sz < 2 ^ 63 \<Longrightarrow> unat (hal_pages sz) = (unat sz + 4095) div 4096"
proof -
  assume s: "unat sz < 2 ^ 63"
  have "sz + 4096 - 1 = sz + 4095" by simp
  moreover have "unat (sz + 4095) = unat sz + 4095" using s by (simp add: unat_add_nowrap)
  ultimately show ?thesis by (simp only: hal_pages_def unat_div) simp
qed

lemma phys_virt [simp]: "virt_to_phys s (phys_to_virt s x) = x"
  by (simp add: virt_to_phys_def phys_to_virt_def)

text \<open>The byte address of a page of the machine.\<close>

lemma unat_page_addr: "s < 2 ^ 20 \<Longrightarrow> unat (of_nat s * 4096 :: u64) = 4096 * s"
  using unat_of_nat_lt [of "4096 * s", where 'a = 64] by (simp add: mult.commute)

lemma fits_page_less: "pmm_ok p \<Longrightarrow> fits p c s \<Longrightarrow> 0 < c \<Longrightarrow> s < 2 ^ 20"
  using fits_inside [of p c s] by (simp add: pmm_ok_def)

lemma bm_page_alloc_spec:
  assumes ok: "pmm_ok (bm_pmm s)" and z: "0 \<notin> free_set (bm_pmm s)" and sz: "sz \<noteq> 0" "unat sz < 2 ^ 63"
    and f: "fits (bm_pmm s) ((unat sz + 4095) div 4096) i"
  defines "n \<equiv> (unat sz + 4095) div 4096"
  shows "\<exists>j p'. bm_hal_page_alloc sz al s = Some (phys_to_virt s (of_nat j * 4096),
        s\<lparr>bm_pmm := p', bm_bytes := put_bytes (phys_to_virt s (of_nat j * 4096)) (replicate (unat sz) 0) (bm_bytes s)\<rparr>) \<and>
      0 < j \<and> fits (bm_pmm s) n j \<and> repaged (free_set (bm_pmm s) - {j..<j + n}) (bm_pmm s) p'"
proof -
  have n: "unat (hal_pages sz) = n" using sz(2) by (simp add: hal_pages_unat n_def)
  have "0 < unat sz" using sz(1) by (simp add: unat_gt_0)
  then have np: "0 < n" by (simp add: n_def div_greater_zero_iff)
  then have "hal_pages sz \<noteq> 0" using n by auto
  then obtain j p' where j: "pmm_alloc_pages (hal_pages sz) (bm_pmm s) = Some (of_nat j * 4096, p')"
    "fits (bm_pmm s) n j" "repaged (free_set (bm_pmm s) - {j..<j + n}) (bm_pmm s) p'"
    using pmm_alloc_fits [OF ok, of "hal_pages sz" i] f n n_def by auto
  have "0 < j" using j(2) z np by (cases j) (auto simp: fits_def)
  moreover have "unat (of_nat j * 4096 :: u64) = 4096 * j"
    using fits_page_less [OF ok j(2) np] by (rule unat_page_addr)
  ultimately have "of_nat j * 4096 \<noteq> (0 :: u64)" by (metis mult_is_0 not_gr_zero unat_0 zero_neq_numeral)
  then have "bm_hal_page_alloc sz al s = Some (phys_to_virt s (of_nat j * 4096),
        s\<lparr>bm_pmm := p', bm_bytes := put_bytes (phys_to_virt s (of_nat j * 4096)) (replicate (unat sz) 0) (bm_bytes s)\<rparr>)"
    using j(1) by (simp add: bm_hal_page_alloc_def memset_def memset_loop_put phys_to_virt_def)
  then show ?thesis using j \<open>0 < j\<close> by blast
qed

text \<open>Freeing the block restores the set of free pages.\<close>

lemma bm_page_free_spec:
  assumes ok: "pmm_ok (bm_pmm s)" and j: "0 < n" "j + n \<le> unat (pm_total_pages (bm_pmm s))"
    and sz: "unat sz < 2 ^ 63" "n = (unat sz + 4095) div 4096" and p: "phys_to_virt s (of_nat j * 4096) \<noteq> 0"
  shows "\<exists>p'. bm_hal_page_free (phys_to_virt s (of_nat j * 4096)) sz s = Some (s\<lparr>bm_pmm := p'\<rparr>) \<and>
    repaged (free_set (bm_pmm s) \<union> {j..<j + n}) (bm_pmm s) p'"
proof -
  have n: "unat (hal_pages sz) = n" using sz by (simp add: hal_pages_unat)
  have lt: "j + n \<le> 2 ^ 20" using j ok by (simp add: pmm_ok_def)
  then have u: "unat (of_nat j * 4096 :: u64) div 4096 = j" using j(1) by (simp add: unat_page_addr)
  have "{i. j \<le> i \<and> i < j + n \<and> i < unat (pm_total_pages (bm_pmm s))} = {j..<j + n}" using j by auto
  then obtain p' where "pmm_free_pages (of_nat j * 4096) (hal_pages sz) (bm_pmm s) = Some p'"
    "repaged (free_set (bm_pmm s) \<union> {j..<j + n}) (bm_pmm s) p'"
    using pmm_free_spec [OF ok, of "of_nat j * 4096" "hal_pages sz"] u n lt by auto
  then show ?thesis using p by (intro exI [of _ p']) (simp add: bm_hal_page_free_def)
qed

end
