(* ===== verification/X86_Paging.thy ===== *)
theory X86_Paging
  imports X86_Hal
begin

text \<open>
  Page-table manipulation, \<open>arch/x86_64/paging.c\<close>.  Physical memory that holds page tables is a
  memory of 64-bit words at their physical addresses; the code reaches it through the linear map
  (\<open>phys_to_virt\<close>), which is the identity on it.  \<open>pg_flushed\<close> records the addresses that
  \<open>paging_invlpg\<close> invalidates.  \<open>PANIC\<close> does not return and is \<open>None\<close>.

  The lemmas see the four-level tables as a finite tree: a path of table indices leads to at
  most one table, different paths lead to different tables, and no table lies in a free page.
  Mapping a page changes the translation of that page and of no other.
\<close>

section \<open>State and entries\<close>

record paging =
  pg_cr3 :: u64
  pg_mem :: "u64 \<Rightarrow> u64"
  pg_pmm :: pmm
  pg_flushed :: "u64 list"

abbreviation (input) PTE_PRESENT :: u64 where "PTE_PRESENT \<equiv> 1"
abbreviation (input) PTE_WRITABLE :: u64 where "PTE_WRITABLE \<equiv> 2"
abbreviation (input) PTE_PWT :: u64 where "PTE_PWT \<equiv> 8"
abbreviation (input) PTE_PCD :: u64 where "PTE_PCD \<equiv> 16"
abbreviation (input) PTE_PS :: u64 where "PTE_PS \<equiv> 128"

definition present :: "u64 \<Rightarrow> bool" where
  "present e \<longleftrightarrow> e AND PTE_PRESENT \<noteq> 0"

definition huge :: "u64 \<Rightarrow> bool" where
  "huge e \<longleftrightarrow> e AND PTE_PS \<noteq> 0"

definition table_of :: "u64 \<Rightarrow> u64" where
  "table_of e = e AND NOT 0xFFF"

text \<open>The address of entry \<open>i\<close> of the table at \<open>t\<close>.\<close>

definition slot :: "u64 \<Rightarrow> u64 \<Rightarrow> u64" where
  "slot t i = t + 8 * i"

definition pml4_idx :: "u64 \<Rightarrow> u64" where "pml4_idx v = drop_bit 39 v AND 0x1FF"
definition pdp_idx :: "u64 \<Rightarrow> u64" where "pdp_idx v = drop_bit 30 v AND 0x1FF"
definition pd_idx :: "u64 \<Rightarrow> u64" where "pd_idx v = drop_bit 21 v AND 0x1FF"
definition pt_idx :: "u64 \<Rightarrow> u64" where "pt_idx v = drop_bit 12 v AND 0x1FF"

section \<open>Operations\<close>

definition paging_read_cr3 :: "paging \<Rightarrow> u64" where
  "paging_read_cr3 st = pg_cr3 st"

definition paging_invlpg :: "u64 \<Rightarrow> paging \<Rightarrow> paging" where
  "paging_invlpg v st = st\<lparr>pg_flushed := v # pg_flushed st\<rparr>"

definition zero_table :: "u64 \<Rightarrow> (u64 \<Rightarrow> u64) \<Rightarrow> u64 \<Rightarrow> u64" where
  "zero_table t m = fold (\<lambda>i m. m(slot t (of_nat i) := 0)) [0..<512] m"

definition paging_alloc_table :: "paging \<Rightarrow> (u64 \<times> paging) exec" where
  "paging_alloc_table st =
     Option.bind (pmm_alloc_pages 1 (pg_pmm st)) (\<lambda>(phys, p).
       if phys = 0 then None
       else Some (phys, st\<lparr>pg_pmm := p, pg_mem := zero_table phys (pg_mem st)\<rparr>))"

text \<open>The step that each of the three upper levels takes: a missing table is allocated and its
  entry \<open>a\<close> set; the result is the table's address.\<close>

definition ensure_table :: "u64 \<Rightarrow> paging \<Rightarrow> (u64 \<times> paging) exec" where
  "ensure_table a st =
     (if \<not> present (pg_mem st a) then
        Option.bind (paging_alloc_table st) (\<lambda>(page, st1).
          let st2 = st1\<lparr>pg_mem := (pg_mem st1)(a := page OR PTE_PRESENT OR PTE_WRITABLE)\<rparr>
          in Some (table_of (pg_mem st2 a), st2))
      else Some (table_of (pg_mem st a), st))"

definition paging_map :: "u64 \<Rightarrow> u64 \<Rightarrow> u64 \<Rightarrow> paging \<Rightarrow> paging exec" where
  "paging_map virt_addr phys_addr flags st =
     (let pml4 = table_of (paging_read_cr3 st) in
      Option.bind (ensure_table (slot pml4 (pml4_idx virt_addr)) st) (\<lambda>(pdp, st1).
      let e3 = pg_mem st1 (slot pdp (pdp_idx virt_addr)) in
      if present e3 \<and> huge e3 then Some st1
      else Option.bind (ensure_table (slot pdp (pdp_idx virt_addr)) st1) (\<lambda>(pd, st2).
      let e2 = pg_mem st2 (slot pd (pd_idx virt_addr)) in
      if present e2 \<and> huge e2 then Some st2
      else Option.bind (ensure_table (slot pd (pd_idx virt_addr)) st2) (\<lambda>(pt, st3).
      Some (paging_invlpg virt_addr (st3\<lparr>pg_mem :=
        (pg_mem st3)(slot pt (pt_idx virt_addr) := (phys_addr AND NOT 0xFFF) OR flags)\<rparr>))))))"

definition paging_unmap :: "u64 \<Rightarrow> paging \<Rightarrow> u64 \<times> paging" where
  "paging_unmap virt_addr st =
     (let m = pg_mem st;
          pml4 = table_of (paging_read_cr3 st);
          e4 = m (slot pml4 (pml4_idx virt_addr))
      in if \<not> present e4 then (0, st) else
      let e3 = m (slot (table_of e4) (pdp_idx virt_addr))
      in if \<not> present e3 then (0, st) else if huge e3 then (0, st) else
      let e2 = m (slot (table_of e3) (pd_idx virt_addr))
      in if \<not> present e2 then (0, st) else if huge e2 then (0, st) else
      let a = slot (table_of e2) (pt_idx virt_addr)
      in if \<not> present (m a) then (0, st)
         else (table_of (m a), paging_invlpg virt_addr (st\<lparr>pg_mem := m(a := 0)\<rparr>)))"

text \<open>The walk's result is the depth with the four raw entries.\<close>

definition paging_walk :: "u64 \<Rightarrow> paging \<Rightarrow> int \<times> u64 \<times> u64 \<times> u64 \<times> u64" where
  "paging_walk virt st =
     (let m = pg_mem st;
          pml4 = table_of (paging_read_cr3 st);
          pml4e = m (slot pml4 (pml4_idx virt))
      in if \<not> present pml4e then (1, pml4e, 0, 0, 0) else
      let pdpe = m (slot (table_of pml4e) (pdp_idx virt))
      in if \<not> present pdpe then (2, pml4e, pdpe, 0, 0) else if huge pdpe then (2, pml4e, pdpe, 0, 0) else
      let pde = m (slot (table_of pdpe) (pd_idx virt))
      in if \<not> present pde then (3, pml4e, pdpe, pde, 0) else if huge pde then (3, pml4e, pdpe, pde, 0) else
      (4, pml4e, pdpe, pde, m (slot (table_of pde) (pt_idx virt))))"

partial_function (option) map_mmio_loop :: "u64 \<Rightarrow> u64 \<Rightarrow> u64 \<Rightarrow> paging \<Rightarrow> paging exec" where
  "map_mmio_loop hhdm a end_addr st =
     (if a < end_addr then
        Option.bind (paging_map (a + hhdm) a (PTE_PRESENT OR PTE_WRITABLE OR PTE_PCD OR PTE_PWT) st)
          (map_mmio_loop hhdm (a + 4096) end_addr)
      else Some st)"

definition map_mmio :: "u64 \<Rightarrow> u64 \<Rightarrow> u64 \<Rightarrow> paging \<Rightarrow> paging exec" where
  "map_mmio hhdm phys sz st =
     (let end_addr = (phys + sz + 0xFFF) AND NOT 0xFFF; start = phys AND NOT 0xFFF
      in map_mmio_loop hhdm start end_addr st)"

section \<open>Addresses of entries\<close>

definition aligned :: "u64 \<Rightarrow> bool" where
  "aligned t \<longleftrightarrow> unat t mod 4096 = 0"

lemma unat_table_of: "unat (table_of e) = 4096 * (unat e div 4096)"
  unfolding table_of_def by (rule unat_and_not_4095)

lemma aligned_table_of [simp]: "aligned (table_of e)"
  by (simp add: aligned_def unat_table_of)

lemma aligned_unat: "aligned t \<Longrightarrow> unat t = 4096 * (unat t div 4096)"
  unfolding aligned_def by (metis add.right_neutral mult_div_mod_eq)

lemma table_of_aligned: "aligned t \<Longrightarrow> table_of t = t"
  using aligned_unat [of t] unat_table_of [of t] by (simp only: word_unat_eq_iff)

lemma unat_slot:
  assumes "aligned t" "unat i < 512" shows "unat (slot t i) = unat t + 8 * unat i"
proof -
  obtain q where q: "unat t = 4096 * q" using aligned_unat [OF assms(1)] by blast
  moreover have "unat t < 18446744073709551616" by simp
  ultimately have "q < 4503599627370496" by (simp del: unat64_lt)
  then have t: "unat t + 4096 \<le> 18446744073709551616" using q by simp
  have i: "unat (8 * i) = 8 * unat i" using assms(2) by (simp add: unat_mult_nowrap)
  show ?thesis unfolding slot_def using t i assms(2) by (subst unat_add_nowrap) simp_all
qed

lemma slot_page: "aligned t \<Longrightarrow> unat i < 512 \<Longrightarrow> unat (slot t i) div 4096 = unat t div 4096"
proof -
  assume a: "aligned t" "unat i < 512"
  obtain q where "unat t = 4096 * q" using aligned_unat [OF a(1)] by blast
  then show ?thesis unfolding unat_slot [OF a] using a(2) by simp
qed

lemma slot_inj:
  assumes "aligned t" "aligned t'" "unat i < 512" "unat j < 512" "slot t i = slot t' j"
  shows "t = t'" "i = j"
proof -
  have "unat t div 4096 = unat t' div 4096" using slot_page assms by metis
  then show t: "t = t'" using aligned_unat assms(1,2) by (metis word_unat_eq_iff)
  have "unat (slot t i) = unat (slot t' j)" using assms(5) by simp
  then have "unat i = unat j" using unat_slot assms(1-4) t by simp
  then show "i = j" by (simp add: word_unat_eq_iff)
qed

lemma idx_less: "unat (drop_bit k v AND 0x1FF :: u64) < 512"
  using unat_and_mask [of "drop_bit k v" 9] by simp

lemmas idx_less_512 [simp] =
  idx_less [of 39, folded pml4_idx_def] idx_less [of 30, folded pdp_idx_def]
  idx_less [of 21, folded pd_idx_def] idx_less [of 12, folded pt_idx_def]

lemma fold_zero: "fold (\<lambda>i m. m(f i := 0)) xs m a = (if a \<in> f ` set xs then 0 else m a)"
  by (induction xs arbitrary: m) auto

lemma zero_table_in: "unat i < 512 \<Longrightarrow> zero_table t m (slot t i) = 0"
proof -
  assume "unat i < 512"
  then have "slot t i \<in> (\<lambda>k. slot t (of_nat k)) ` set [0..<512]"
    by (intro image_eqI [of _ _ "unat i"]) simp_all
  then show ?thesis by (simp only: zero_table_def fold_zero if_True)
qed

lemma zero_table_out:
  assumes "aligned t" "aligned t'" "t \<noteq> t'" "unat i < 512"
  shows "zero_table t m (slot t' i) = m (slot t' i)"
proof -
  have "slot t' i \<noteq> slot t (of_nat k)" if "k < 512" for k
    using slot_inj(1) [of t t' "of_nat k" i] assms that by (auto simp: unat_of_nat_lt)
  then have "slot t' i \<notin> (\<lambda>k. slot t (of_nat k)) ` set [0..<512]"
    unfolding image_iff by (metis atLeastLessThan_iff atLeastLessThan_upt)
  then show ?thesis by (simp only: zero_table_def fold_zero if_False)
qed

section \<open>The tree of tables\<close>

text \<open>A path lists the indices from the deepest level up to the root's; \<open>table st path\<close> is the table
  that it leads to.  The code does not look at the \<open>PS\<close> bit of the root's entries.\<close>

fun table :: "paging \<Rightarrow> u64 list \<Rightarrow> u64 option" where
  "table st [] = Some (table_of (pg_cr3 st))"
| "table st (i # is) =
     (case table st is of None \<Rightarrow> None
      | Some t \<Rightarrow>
          let e = pg_mem st (slot t i)
          in if present e \<and> (is = [] \<or> \<not> huge e) then Some (table_of e) else None)"

definition path_ok :: "u64 list \<Rightarrow> bool" where
  "path_ok is \<longleftrightarrow> length is \<le> 3 \<and> (\<forall>i \<in> set is. unat i < 512)"

text \<open>The invariant.\<close>

definition paging_wf :: "paging \<Rightarrow> bool" where
  "paging_wf st \<longleftrightarrow> pmm_ok (pg_pmm st) \<and> 0 \<notin> free_set (pg_pmm st) \<and>
     (\<forall>is t. path_ok is \<longrightarrow> table st is = Some t \<longrightarrow> unat t div 4096 \<notin> free_set (pg_pmm st)) \<and>
     (\<forall>is js t. path_ok is \<longrightarrow> path_ok js \<longrightarrow> table st is = Some t \<longrightarrow> table st js = Some t \<longrightarrow> is = js)"

lemma table_aligned: "table st is = Some t \<Longrightarrow> aligned t"
  by (cases "is") (auto split: option.splits if_splits simp: Let_def)

text \<open>The page-table entry that translates an address, if the tables lead to a present one.\<close>

definition vpath :: "u64 \<Rightarrow> u64 list" where
  "vpath v = [pd_idx v, pdp_idx v, pml4_idx v]"

definition leaf :: "paging \<Rightarrow> u64 \<Rightarrow> u64 option" where
  "leaf st v =
     (case table st (vpath v) of None \<Rightarrow> None
      | Some t \<Rightarrow> let e = pg_mem st (slot t (pt_idx v)) in if present e then Some e else None)"

lemma path_ok_Cons: "path_ok (i # is) \<longleftrightarrow> length is < 3 \<and> unat i < 512 \<and> path_ok is"
  by (auto simp: path_ok_def)

lemma path_ok_vpath [simp]: "path_ok (vpath v)"
  by (simp add: path_ok_def vpath_def)

lemma path_ok_vpath_parts [simp]:
  "path_ok []" "path_ok [pml4_idx v]" "path_ok [pdp_idx v, pml4_idx v]"
  "path_ok [pd_idx v, pdp_idx v, pml4_idx v]"
  by (simp_all add: path_ok_def)

section \<open>Entry bits\<close>

lemma mask_4095: "(0xFFF :: u64) = mask 12"
  by (simp add: mask_eq_exp_minus_1)

lemma bit_table_of: "bit (table_of e) n \<longleftrightarrow> 12 \<le> n \<and> bit e n"
  unfolding table_of_def mask_4095 using bit_imp_le_length [of e n] by (auto simp: bit_simps)

lemma present_bit: "present e \<longleftrightarrow> bit e 0"
  by (simp add: present_def and_one_eq bit_0 odd_iff_mod_2_eq_one)

lemma and_pow2: "(e :: u64) AND 2 ^ k = (if bit e k then 2 ^ k else 0)"
  by (rule bit_word_eqI) (auto simp: bit_simps)

lemma huge_bit: "huge e \<longleftrightarrow> bit e 7"
  using and_pow2 [of e 7] by (auto simp: huge_def)

lemma bit_aligned: "aligned t \<Longrightarrow> n < 12 \<Longrightarrow> \<not> bit t n"
  using bit_table_of [of t n] by (simp add: table_of_aligned)

lemma table_of_OR: "table_of (a OR b) = table_of a OR table_of b"
  by (rule bit_word_eqI) (auto simp: bit_table_of bit_simps)

lemma table_of_small: "unat f < 4096 \<Longrightarrow> table_of f = 0"
  by (simp add: word_unat_eq_iff unat_table_of)

lemma new_entry:
  assumes "aligned page"
  shows "present (page OR 1 OR 2)" "\<not> huge (page OR 1 OR 2)" "table_of (page OR 1 OR 2) = page"
proof -
  have "\<not> bit (1 :: u64) 7" "\<not> bit (2 :: u64) 7" by (simp_all add: bit_simps)
  then show "present (page OR 1 OR 2)" "\<not> huge (page OR 1 OR 2)"
    using bit_aligned [OF assms] by (simp_all add: present_bit huge_bit bit_simps)
  show "table_of (page OR 1 OR 2) = page"
    using assms by (simp add: table_of_OR table_of_small table_of_aligned)
qed

section \<open>Growing the tree\<close>

lemma paging_alloc_table_spec:
  assumes wf: "paging_wf st" and fr: "free_set (pg_pmm st) \<noteq> {}"
  shows "\<exists>page p'. paging_alloc_table st =
      Some (page, st\<lparr>pg_pmm := p', pg_mem := zero_table page (pg_mem st)\<rparr>) \<and>
    aligned page \<and> unat page div 4096 \<in> free_set (pg_pmm st) \<and>
    repaged (free_set (pg_pmm st) - {unat page div 4096}) (pg_pmm st) p'"
proof -
  let ?p = "pg_pmm st"
  have ok: "pmm_ok ?p" "0 \<notin> free_set ?p" using wf by (simp_all add: paging_wf_def)
  obtain i where "i \<in> free_set ?p" using fr by auto
  then have "fits ?p (unat (1 :: u64)) i" by (simp add: fits_def)
  then obtain j p' where j: "pmm_alloc_pages 1 ?p = Some (of_nat j * 4096, p')" "fits ?p 1 j"
    "repaged (free_set ?p - {j}) ?p p'"
    using pmm_alloc_fits [OF ok(1), of 1 i] by auto
  have jf: "j \<in> free_set ?p" using j(2) by (simp add: fits_def)
  have u: "unat (of_nat j * 4096 :: u64) = 4096 * j"
    using fits_page_less [OF ok(1) j(2)] by (simp add: unat_page_addr)
  have "j \<noteq> 0" using jf ok(2) by metis
  then have "of_nat j * 4096 \<noteq> (0 :: u64)" using u by (metis mult_is_0 unat_0 zero_neq_numeral)
  moreover have "aligned (of_nat j * 4096)" "unat (of_nat j * 4096 :: u64) div 4096 = j"
    by (simp_all add: aligned_def u)
  ultimately show ?thesis using j jf
    by (intro exI [of _ "of_nat j * 4096"] exI [of _ p']) (simp add: paging_alloc_table_def)
qed

text \<open>A fresh table hung into the tree.\<close>

definition grown :: "paging \<Rightarrow> paging \<Rightarrow> u64 \<Rightarrow> u64 \<Rightarrow> u64 \<Rightarrow> u64 list \<Rightarrow> bool" where
  "grown st st' t page i is \<longleftrightarrow>
     paging_wf st \<and> path_ok (i # is) \<and> table st is = Some t \<and> \<not> present (pg_mem st (slot t i)) \<and>
     aligned page \<and> unat page div 4096 \<in> free_set (pg_pmm st) \<and>
     repaged (free_set (pg_pmm st) - {unat page div 4096}) (pg_pmm st) (pg_pmm st') \<and>
     pg_cr3 st' = pg_cr3 st \<and> pg_mem st' = (zero_table page (pg_mem st))(slot t i := page OR 1 OR 2)"

lemma grownD:
  assumes "grown st st' t page i is"
  shows "paging_wf st" "path_ok is" "unat i < 512" "length is < 3" "path_ok (i # is)" "table st is = Some t"
    "\<not> present (pg_mem st (slot t i))" "aligned page" "unat page div 4096 \<in> free_set (pg_pmm st)"
    "repaged (free_set (pg_pmm st) - {unat page div 4096}) (pg_pmm st) (pg_pmm st')"
    "pg_cr3 st' = pg_cr3 st" "pg_mem st' = (zero_table page (pg_mem st))(slot t i := page OR 1 OR 2)"
  using assms by (auto simp: grown_def path_ok_Cons)

lemma paging_wf_inj:
  "paging_wf st \<Longrightarrow> path_ok is \<Longrightarrow> path_ok js \<Longrightarrow> table st is = Some t \<Longrightarrow> table st js = Some t \<Longrightarrow> is = js"
  unfolding paging_wf_def by blast

lemma paging_wf_used:
  "paging_wf st \<Longrightarrow> path_ok is \<Longrightarrow> table st is = Some t \<Longrightarrow> unat t div 4096 \<notin> free_set (pg_pmm st)"
  unfolding paging_wf_def by blast

lemma grown_not_page:
  "grown st st' t page i is \<Longrightarrow> path_ok js \<Longrightarrow> table st js = Some t' \<Longrightarrow> t' \<noteq> page"
  using paging_wf_used grownD(1,9) by blast

lemma grown_mem_page:
  assumes g: "grown st st' t page i is" and j: "unat j < 512"
  shows "pg_mem st' (slot page j) = 0"
proof -
  have "slot page j \<noteq> slot t i"
    using slot_inj(1) [of page t j i] grownD [OF g] table_aligned grown_not_page [OF g] j by blast
  then show ?thesis using j by (simp add: grownD(12) [OF g] zero_table_in)
qed

lemma grown_mem_old:
  assumes g: "grown st st' t page i is" and js: "path_ok js" "table st js = Some t'" and j: "unat j < 512"
  shows "pg_mem st' (slot t' j) = (if js = is \<and> j = i then page OR 1 OR 2 else pg_mem st (slot t' j))"
proof (cases "slot t' j = slot t i")
  case True
  note d = grownD [OF g]
  have "t' = t" "j = i" using slot_inj [OF table_aligned [OF js(2)] table_aligned [OF d(6)] j d(3) True] .
  moreover from this have "js = is" using paging_wf_inj [OF d(1) js(1) d(2)] js(2) d(6) by simp
  ultimately show ?thesis using True by (simp add: d(12))
next
  case False
  note d = grownD [OF g]
  have "\<not> (js = is \<and> j = i)" using False js(2) d(6) by auto
  moreover have "zero_table page (pg_mem st) (slot t' j) = pg_mem st (slot t' j)"
    using zero_table_out [OF d(8) table_aligned [OF js(2)] _ j] grown_not_page [OF g js] by metis
  ultimately show ?thesis using False by (auto simp: d(12))
qed

lemma grown_table_new: "grown st st' t page i is \<Longrightarrow> table st (i # is) = None"
  using grownD(6,7) by fastforce

lemma grown_table:
  assumes g: "grown st st' t page i is"
  shows "path_ok js \<Longrightarrow> table st' js = (if js = i # is then Some page else table st js)"
proof (induction js)
  case Nil
  then show ?case by (simp add: grownD(11) [OF g])
next
  case (Cons j ks)
  then have ks: "path_ok ks" "unat j < 512" by (simp_all add: path_ok_Cons)
  show ?case
  proof (cases "ks = i # is")
    case True
    then have "table st' ks = Some page" "table st ks = None"
      using Cons.IH ks(1) grown_table_new [OF g] by simp_all
    then show ?thesis using True grown_mem_page [OF g ks(2)] by (simp add: present_def)
  next
    case False
    then have e: "table st' ks = table st ks" using Cons.IH ks(1) by simp
    show ?thesis
    proof (cases "table st ks")
      case None
      then show ?thesis using e grownD(6) [OF g] by auto
    next
      case (Some t')
      then show ?thesis using e grown_mem_old [OF g ks(1) Some ks(2)] new_entry [OF grownD(8) [OF g]] by auto
    qed
  qed
qed

lemma grown_wf:
  assumes g: "grown st st' t page i is" shows "paging_wf st'"
  unfolding paging_wf_def
proof (intro conjI allI impI)
  note d = grownD [OF g] and r = repaged_ok [OF grownD(10) [OF g]]
  show "pmm_ok (pg_pmm st')" "0 \<notin> free_set (pg_pmm st')"
    using r d(1) by (auto simp: paging_wf_def)
  show "unat u div 4096 \<notin> free_set (pg_pmm st')" if "path_ok js" "table st' js = Some u" for js u
    using that paging_wf_used [OF d(1)] r(2) by (auto simp: grown_table [OF g] split: if_splits)
  show "js = ks" if "path_ok js" "path_ok ks" "table st' js = Some u" "table st' ks = Some u" for js ks u
  proof -
    have "table st js = Some u \<or> js = i # is \<and> u = page" "table st ks = Some u \<or> ks = i # is \<and> u = page"
      using that by (auto simp: grown_table [OF g] split: if_splits)
    then show ?thesis using that(1,2) paging_wf_inj [OF d(1)] grown_not_page [OF g] by blast
  qed
qed

lemma grown_leaf:
  assumes g: "grown st st' t page i is" shows "leaf st' v = leaf st v"
proof (cases "vpath v = i # is")
  case True
  then have "table st' (vpath v) = Some page" "table st (vpath v) = None"
    using grown_table [OF g path_ok_vpath, of v] grown_table_new [OF g] by (simp_all only: simp_thms if_True)
  then show ?thesis using grown_mem_page [OF g] by (simp add: leaf_def present_def)
next
  case False
  have "vpath v \<noteq> is" using grownD(4) [OF g] by (auto simp: vpath_def)
  then show ?thesis using False grown_table [OF g, of "vpath v"] grown_mem_old [OF g, of "vpath v" _ "pt_idx v"]
    by (simp add: leaf_def split: option.splits)
qed

text \<open>Whether the entry \<open>j\<close> of the table at a path maps a huge page.\<close>

definition huge_at :: "paging \<Rightarrow> u64 list \<Rightarrow> u64 \<Rightarrow> bool" where
  "huge_at st is j \<longleftrightarrow>
     (\<exists>t. table st is = Some t \<and> present (pg_mem st (slot t j)) \<and> huge (pg_mem st (slot t j)))"

lemma grown_huge_at:
  assumes g: "grown st st' t page i is" and js: "path_ok js" "unat j < 512"
  shows "huge_at st' js j = huge_at st js j"
proof (cases "js = i # is")
  case True
  then have "table st' js = Some page" "table st js = None"
    using grown_table [OF g js(1)] grown_table_new [OF g] by (simp_all only: simp_thms if_True)
  then show ?thesis using grown_mem_page [OF g js(2)] by (simp add: huge_at_def present_def)
next
  case False
  then have e: "table st' js = table st js" using grown_table [OF g js(1)] by simp
  show ?thesis
  proof (cases "table st js")
    case (Some t')
    then show ?thesis using e grown_mem_old [OF g js(1) Some js(2)] new_entry(2) [OF grownD(8) [OF g]] grownD(6,7) [OF g]
      by (auto simp: huge_at_def)
  qed (simp add: huge_at_def e)
qed

text \<open>The pages that hold tables; new ones come from the free pages, and a page that is no longer
  free holds a table.\<close>

definition table_pages :: "paging \<Rightarrow> nat set" where
  "table_pages st = {n. \<exists>is t. path_ok is \<and> table st is = Some t \<and> n = unat t div 4096}"

definition took_tables :: "paging \<Rightarrow> paging \<Rightarrow> bool" where
  "took_tables st st' \<longleftrightarrow>
     free_set (pg_pmm st') \<subseteq> free_set (pg_pmm st) \<and>
     table_pages st' = table_pages st \<union> (free_set (pg_pmm st) - free_set (pg_pmm st')) \<and>
     pm_total_pages (pg_pmm st') = pm_total_pages (pg_pmm st) \<and>
     (\<forall>u j. aligned u \<longrightarrow> unat j < 512 \<longrightarrow> unat u div 4096 \<notin> table_pages st \<union> free_set (pg_pmm st) \<longrightarrow>
        pg_mem st' (slot u j) = pg_mem st (slot u j))"

lemma took_tables_refl [simp]: "took_tables st st"
  by (simp add: took_tables_def)

lemma took_tables_trans:
  assumes "took_tables st st1" "took_tables st1 st2" shows "took_tables st st2"
proof -
  have "table_pages st1 \<union> free_set (pg_pmm st1) \<subseteq> table_pages st \<union> free_set (pg_pmm st)"
    using assms(1) by (auto simp: took_tables_def)
  then have "pg_mem st2 (slot u j) = pg_mem st (slot u j)"
    if "aligned u" "unat j < 512" "unat u div 4096 \<notin> table_pages st \<union> free_set (pg_pmm st)" for u j
  proof -
    have "unat u div 4096 \<notin> table_pages st1 \<union> free_set (pg_pmm st1)"
      using that(3) \<open>table_pages st1 \<union> free_set (pg_pmm st1) \<subseteq> _\<close> by blast
    then show ?thesis using that assms unfolding took_tables_def by simp
  qed
  then show ?thesis using assms unfolding took_tables_def by auto
qed

lemma grown_took_tables:
  assumes g: "grown st st' t page i is" shows "took_tables st st'"
proof -
  let ?n = "unat page div 4096"
  have fs: "free_set (pg_pmm st') = free_set (pg_pmm st) - {?n}" by (rule repaged_ok(2) [OF grownD(10) [OF g]])
  have "table_pages st' = insert ?n (table_pages st)"
  proof (intro set_eqI iffI)
    fix n assume "n \<in> table_pages st'"
    then obtain js u where "path_ok js" "table st' js = Some u" "n = unat u div 4096"
      by (auto simp: table_pages_def)
    then show "n \<in> insert ?n (table_pages st)"
      by (auto simp: grown_table [OF g] table_pages_def split: if_splits)
  next
    fix n assume n: "n \<in> insert ?n (table_pages st)"
    show "n \<in> table_pages st'"
    proof (cases "n = ?n")
      case True
      have "table st' (i # is) = Some page" using grown_table [OF g grownD(5) [OF g]] by (simp only: simp_thms if_True)
      then show ?thesis using True grownD(5) [OF g] unfolding table_pages_def by blast
    next
      case False
      then obtain js u where js: "path_ok js" "table st js = Some u" "n = unat u div 4096"
        using n by (auto simp: table_pages_def)
      then have "js \<noteq> i # is" using grown_table_new [OF g] by (metis option.distinct(1))
      then have "table st' js = Some u" using js grown_table [OF g js(1)] by simp
      then show ?thesis using js unfolding table_pages_def by blast
    qed
  qed
  moreover have "pm_total_pages (pg_pmm st') = pm_total_pages (pg_pmm st)"
    by (rule repaged_ok(3) [OF grownD(10) [OF g]])
  moreover have "pg_mem st' (slot u j) = pg_mem st (slot u j)"
    if "aligned u" "unat j < 512" "unat u div 4096 \<notin> table_pages st \<union> free_set (pg_pmm st)" for u j
  proof -
    have "unat t div 4096 \<in> table_pages st" using grownD(2,6) [OF g] by (auto simp: table_pages_def)
    then have "u \<noteq> t" "page \<noteq> u" using that(3) grownD(9) [OF g] by auto
    then show ?thesis
      using slot_inj(1) [OF that(1) table_aligned [OF grownD(6) [OF g]] that(2) grownD(3) [OF g]]
        zero_table_out [OF grownD(8) [OF g] that(1) _ that(2)] by (auto simp: grownD(12) [OF g])
  qed
  ultimately show ?thesis using fs grownD(9) [OF g] by (auto simp: took_tables_def)
qed

text \<open>What a step of \<open>paging_map\<close> down the tree keeps.\<close>

definition deepened :: "u64 list \<Rightarrow> paging \<Rightarrow> u64 \<Rightarrow> paging \<Rightarrow> bool" where
  "deepened js st t st' \<longleftrightarrow>
     paging_wf st' \<and> table st' js = Some t \<and>
     (\<forall>ks. path_ok ks \<longrightarrow> ks \<noteq> js \<longrightarrow> table st' ks = table st ks) \<and>
     (\<forall>v. leaf st' v = leaf st v) \<and>
     (\<forall>ks j. path_ok ks \<longrightarrow> unat j < 512 \<longrightarrow> huge_at st' ks j = huge_at st ks j) \<and>
     pg_cr3 st' = pg_cr3 st \<and> pg_flushed st' = pg_flushed st \<and>
     card (free_set (pg_pmm st)) \<le> Suc (card (free_set (pg_pmm st'))) \<and> took_tables st st'"

lemma ensure_table_spec:
  assumes wf: "paging_wf st" and p: "path_ok (i # is)" and t: "table st is = Some t"
    and nh: "is = [] \<or> \<not> huge_at st is i" and fr: "free_set (pg_pmm st) \<noteq> {}"
  shows "\<exists>t' st'. ensure_table (slot t i) st = Some (t', st') \<and> deepened (i # is) st t' st'"
proof (cases "present (pg_mem st (slot t i))")
  case True
  then have "table st (i # is) = Some (table_of (pg_mem st (slot t i)))"
    using t nh by (auto simp: huge_at_def)
  then show ?thesis using True wf by (auto simp: ensure_table_def deepened_def)
next
  case False
  obtain page p' where a: "paging_alloc_table st =
      Some (page, st\<lparr>pg_pmm := p', pg_mem := zero_table page (pg_mem st)\<rparr>)"
    "aligned page" "unat page div 4096 \<in> free_set (pg_pmm st)"
    "repaged (free_set (pg_pmm st) - {unat page div 4096}) (pg_pmm st) p'"
    using paging_alloc_table_spec [OF wf fr] by auto
  let ?st = "st\<lparr>pg_pmm := p', pg_mem := (zero_table page (pg_mem st))(slot t i := page OR 1 OR 2)\<rparr>"
  have g: "grown st ?st t page i is"
    using wf p t False a by (simp add: grown_def)
  have "ensure_table (slot t i) st = Some (page, ?st)"
    using False a(1) new_entry(3) [OF a(2)] by (simp add: ensure_table_def Let_def)
  moreover have "card (free_set (pg_pmm st)) \<le> Suc (card (free_set p'))"
    using repaged_ok(2) [OF a(4)] a(3) by (simp add: card_Diff_singleton)
  ultimately show ?thesis
    using grown_wf [OF g] grown_table [OF g] grown_leaf [OF g] grown_huge_at [OF g] grown_took_tables [OF g] p
    by (intro exI [of _ page] exI [of _ ?st]) (simp add: deepened_def del: table.simps)
qed

section \<open>Writing a leaf\<close>

text \<open>The number of a virtual page: bits 12 to 47 of the address.\<close>

definition vpn :: "u64 \<Rightarrow> u64" where
  "vpn v = take_bit 36 (drop_bit 12 v)"

lemma mask_511: "(0x1FF :: u64) = mask 9"
  by (simp add: mask_eq_exp_minus_1)

lemma bit_idx: "bit (drop_bit k v AND 0x1FF :: u64) n \<longleftrightarrow> n < 9 \<and> bit v (k + n)"
  unfolding mask_511 by (auto simp: bit_simps)

lemma vpn_eq_iff: "vpn v = vpn w \<longleftrightarrow> vpath v = vpath w \<and> pt_idx v = pt_idx w"
proof
  have bit: "bit (vpn u) n \<longleftrightarrow> n < 36 \<and> bit u (12 + n)" for u n by (auto simp: vpn_def bit_simps)
  assume "vpn v = vpn w"
  then have b: "bit v (12 + n) = bit w (12 + n)" if "n < 36" for n
    using that bit [of v n] bit [of w n] by simp
  have eq: "drop_bit k v AND 0x1FF = drop_bit k w AND 0x1FF" if "12 \<le> k" "k \<le> 39" for k
  proof (rule bit_word_eqI)
    fix n
    have "bit v (k + n) = bit w (k + n)" if "n < 9" using b [of "k - 12 + n"] that \<open>12 \<le> k\<close> \<open>k \<le> 39\<close> by simp
    then show "bit (drop_bit k v AND 0x1FF) n = bit (drop_bit k w AND 0x1FF) n" unfolding bit_idx by blast
  qed
  show "vpath v = vpath w \<and> pt_idx v = pt_idx w"
    by (simp add: vpath_def pd_idx_def pdp_idx_def pml4_idx_def pt_idx_def eq)
next
  assume "vpath v = vpath w \<and> pt_idx v = pt_idx w"
  then have e: "drop_bit k v AND 0x1FF = drop_bit k w AND 0x1FF" if "k \<in> {12, 21, 30, 39}" for k
    using that by (auto simp: vpath_def pd_idx_def pdp_idx_def pml4_idx_def pt_idx_def)
  have b: "bit v (k + n) = bit w (k + n)" if "k \<in> {12, 21, 30, 39}" "n < 9" for k n
    using e [OF that(1)] that(2) bit_idx [of k v n] bit_idx [of k w n] by metis
  show "vpn v = vpn w"
  proof (rule bit_word_eqI)
    fix n assume "n < LENGTH(64)"
    have "bit v (12 + n) = bit w (12 + n)" if "n < 36"
      using that b [of 12 n] b [of 21 "n - 9"] b [of 30 "n - 18"] b [of 39 "n - 27"]
      by (cases "n < 9"; cases "n < 18"; cases "n < 27") (auto simp: add.commute)
    then show "bit (vpn v) n = bit (vpn w) n" by (auto simp: vpn_def bit_simps)
  qed
qed

lemma store_leaf:
  fixes st v e t
  defines "st' \<equiv> st\<lparr>pg_mem := (pg_mem st)(slot t (pt_idx v) := e)\<rparr>"
  assumes wf: "paging_wf st" and t: "table st (vpath v) = Some t"
  shows "path_ok js \<Longrightarrow> table st' js = table st js"
    and "paging_wf st'"
    and "leaf st' v' = (if vpn v' = vpn v then if present e then Some e else None else leaf st v')"
proof -
  have mem: "pg_mem st' (slot u j) = pg_mem st (slot u j)"
    if "path_ok js" "table st js = Some u" "unat j < 512" "js \<noteq> vpath v \<or> j \<noteq> pt_idx v" for js u j
  proof -
    have "slot u j \<noteq> slot t (pt_idx v)"
    proof
      assume "slot u j = slot t (pt_idx v)"
      then have "u = t" "j = pt_idx v"
        using slot_inj [of u t j "pt_idx v"] table_aligned that t by auto
      then show False using paging_wf_inj [OF wf that(1) path_ok_vpath [of v]] that t by simp
    qed
    then show ?thesis by (simp add: st'_def)
  qed
  have tab: "path_ok js \<Longrightarrow> table st' js = table st js" for js
  proof (induction js)
    case Nil
    then show ?case by (simp add: st'_def)
  next
    case (Cons j ks)
    then have ks: "path_ok ks" "unat j < 512" "ks \<noteq> vpath v" by (auto simp: path_ok_Cons vpath_def)
    then show ?case using Cons.IH mem [OF ks(1) _ ks(2)] by (simp split: option.split)
  qed
  then show "path_ok js \<Longrightarrow> table st' js = table st js" .
  show "paging_wf st'" using wf tab unfolding paging_wf_def by (simp add: st'_def del: table.simps)
  show "leaf st' v' = (if vpn v' = vpn v then if present e then Some e else None else leaf st v')"
  proof (cases "vpn v' = vpn v")
    case True
    then have "vpath v' = vpath v" "pt_idx v' = pt_idx v" by (simp_all add: vpn_eq_iff)
    then show ?thesis using True tab [of "vpath v"] t by (simp add: leaf_def) (simp add: st'_def)
  next
    case False
    then show ?thesis using tab [of "vpath v'"] mem [of "vpath v'" _ "pt_idx v'"]
      by (auto simp: leaf_def vpn_eq_iff split: option.splits)
  qed
qed

lemma store_huge_at:
  assumes wf: "paging_wf st" and t: "table st (vpath v) = Some t" and js: "path_ok js" "length js < 3" "unat j < 512"
  shows "huge_at (st\<lparr>pg_mem := (pg_mem st)(slot t (pt_idx v) := e)\<rparr>) js j = huge_at st js j"
proof -
  let ?st = "st\<lparr>pg_mem := (pg_mem st)(slot t (pt_idx v) := e)\<rparr>"
  have "slot u j \<noteq> slot t (pt_idx v)" if u: "table st js = Some u" for u
  proof
    assume "slot u j = slot t (pt_idx v)"
    then have "u = t" using slot_inj(1) [of u t j "pt_idx v"] table_aligned u t js(3) by auto
    then have "js = vpath v" using paging_wf_inj [OF wf js(1) path_ok_vpath u] t by simp
    then show False using js(2) by (simp add: vpath_def)
  qed
  then show ?thesis using store_leaf(1) [OF wf t js(1), of e] by (auto simp: huge_at_def)
qed

lemma store_took_tables:
  assumes wf: "paging_wf st" and t: "table st (vpath v) = Some t"
  shows "took_tables st (st\<lparr>pg_mem := (pg_mem st)(slot t (pt_idx v) := e)\<rparr>)" (is "took_tables st ?st")
proof -
  have "table_pages ?st = table_pages st"
    using store_leaf(1) [OF wf t, of _ e] by (simp add: table_pages_def cong: conj_cong)
  moreover have "unat t div 4096 \<in> table_pages st"
    using t path_ok_vpath [of v] unfolding table_pages_def by blast
  then have "slot u j \<noteq> slot t (pt_idx v)"
    if "aligned u" "unat j < 512" "unat u div 4096 \<notin> table_pages st" for u j
    using slot_inj(1) [OF that(1) table_aligned [OF t] that(2), of "pt_idx v"] that(3) by auto
  ultimately show ?thesis by (auto simp: took_tables_def)
qed

section \<open>Mapping, unmapping and walking\<close>

definition in_huge_page :: "paging \<Rightarrow> u64 \<Rightarrow> bool" where
  "in_huge_page st v \<longleftrightarrow>
     huge_at st [pml4_idx v] (pdp_idx v) \<or> huge_at st [pdp_idx v, pml4_idx v] (pd_idx v)"

lemma deepenedD:
  assumes "deepened js st t st'"
  shows "paging_wf st'" "table st' js = Some t" "\<And>v. leaf st' v = leaf st v"
    "\<And>ks j. path_ok ks \<Longrightarrow> unat j < 512 \<Longrightarrow> huge_at st' ks j = huge_at st ks j"
    "pg_cr3 st' = pg_cr3 st" "pg_flushed st' = pg_flushed st"
    "card (free_set (pg_pmm st)) \<le> Suc (card (free_set (pg_pmm st')))" "took_tables st st'"
  using assms by (auto simp: deepened_def)

lemma invlpg_simps [simp]:
  "pg_mem (paging_invlpg v st) = pg_mem st" "pg_pmm (paging_invlpg v st) = pg_pmm st"
  "pg_cr3 (paging_invlpg v st) = pg_cr3 st" "pg_flushed (paging_invlpg v st) = v # pg_flushed st"
  by (simp_all add: paging_invlpg_def)

lemma table_invlpg [simp]: "table (paging_invlpg v st) js = table st js"
  by (induction js) (simp_all cong: option.case_cong)

lemma huge_invlpg [simp]: "in_huge_page (paging_invlpg v st) w = in_huge_page st w"
  by (simp add: in_huge_page_def huge_at_def del: table.simps)

lemma took_tables_invlpg [simp]: "took_tables st (paging_invlpg v st') = took_tables st st'"
  by (simp add: took_tables_def table_pages_def)

lemma leaf_invlpg [simp]: "leaf (paging_invlpg v st) w = leaf st w"
  by (simp add: leaf_def cong: option.case_cong)

lemma wf_invlpg [simp]: "paging_wf (paging_invlpg v st) = paging_wf st"
  by (simp add: paging_wf_def)

lemma card_free_pos: "0 < card (free_set p) \<Longrightarrow> free_set p \<noteq> {}"
  by auto

lemma not_huge_entry:
  "table st is = Some t \<Longrightarrow> \<not> huge_at st is j \<Longrightarrow>
   \<not> (present (pg_mem st (slot t j)) \<and> huge (pg_mem st (slot t j)))"
  by (simp add: huge_at_def)

lemma paging_map_spec:
  assumes wf: "paging_wf st" and fr: "3 \<le> card (free_set (pg_pmm st))" and nh: "\<not> in_huge_page st v"
  shows "\<exists>st'. paging_map v p f st = Some st' \<and> paging_wf st' \<and> pg_flushed st' = v # pg_flushed st \<and>
    (\<forall>w. leaf st' w =
      (if vpn w = vpn v then let e = table_of p OR f in if present e then Some e else None else leaf st w)) \<and>
    (\<forall>w. in_huge_page st' w = in_huge_page st w) \<and> took_tables st st' \<and>
    card (free_set (pg_pmm st)) \<le> 3 + card (free_set (pg_pmm st'))"
proof -
  let ?i4 = "pml4_idx v" and ?i3 = "pdp_idx v" and ?i2 = "pd_idx v"
  obtain t3 st1 where 1: "ensure_table (slot (table_of (pg_cr3 st)) ?i4) st = Some (t3, st1)"
    "deepened [?i4] st t3 st1"
    using ensure_table_spec [OF wf, of ?i4 "[]"] card_free_pos [of "pg_pmm st"] fr by auto
  note d1 = deepenedD [OF 1(2)]
  have h3: "\<not> huge_at st1 [?i4] ?i3" and h2: "\<not> huge_at st1 [?i3, ?i4] ?i2"
    using nh d1(4) by (auto simp: in_huge_page_def)
  have f1: "free_set (pg_pmm st1) \<noteq> {}" using fr d1(7) by (intro card_free_pos) linarith
  obtain t2 st2 where 2: "ensure_table (slot t3 ?i3) st1 = Some (t2, st2)" "deepened [?i3, ?i4] st1 t2 st2"
    using ensure_table_spec [OF d1(1) path_ok_vpath_parts(3) d1(2) _ f1] h3 by auto
  note d2 = deepenedD [OF 2(2)]
  have h2': "\<not> huge_at st2 [?i3, ?i4] ?i2" using h2 d2(4) by simp
  have f2: "free_set (pg_pmm st2) \<noteq> {}" using fr d1(7) d2(7) by (intro card_free_pos) linarith
  obtain t1 st3 where 3: "ensure_table (slot t2 ?i2) st2 = Some (t1, st3)" "deepened [?i2, ?i3, ?i4] st2 t1 st3"
    using ensure_table_spec [OF d2(1) path_ok_vpath_parts(4) d2(2) _ f2] h2' by auto
  note d3 = deepenedD [OF 3(2)]
  have tab: "table st3 (vpath v) = Some t1" using d3(2) by (simp only: vpath_def)
  let ?e = "table_of p OR f"
  let ?st = "st3\<lparr>pg_mem := (pg_mem st3)(slot t1 (pt_idx v) := ?e)\<rparr>"
  have map: "paging_map v p f st = Some (paging_invlpg v ?st)"
    unfolding paging_map_def Let_def paging_read_cr3_def 1(1) Option.bind.simps prod.case
      if_not_P [OF not_huge_entry [OF d1(2) h3]] 2(1)
      if_not_P [OF not_huge_entry [OF d2(2) h2']] 3(1)
    by (simp only: table_of_def)
  have "leaf ?st w = (if vpn w = vpn v then if present ?e then Some ?e else None else leaf st w)" for w
    using store_leaf(3) [OF d3(1) tab] d3(3) d2(3) d1(3) by simp
  moreover have "in_huge_page ?st w = in_huge_page st w" for w
    using store_huge_at [OF d3(1) tab, where e = ?e] d3(4) d2(4) d1(4) by (simp add: in_huge_page_def)
  moreover have "took_tables st ?st"
    by (rule took_tables_trans [OF took_tables_trans [OF took_tables_trans [OF d1(8) d2(8)] d3(8)]
          store_took_tables [OF d3(1) tab]])
  moreover have "card (free_set (pg_pmm st)) \<le> 3 + card (free_set (pg_pmm st3))"
    using d1(7) d2(7) d3(7) by linarith
  ultimately show ?thesis using map store_leaf(2) [OF d3(1) tab, of ?e] d1(6) d2(6) d3(6)
    by (simp add: Let_def)
qed

text \<open>Reading the tables the way the code does.\<close>

lemma leaf_eq:
  "leaf st v =
    (let m = pg_mem st; e4 = m (slot (table_of (pg_cr3 st)) (pml4_idx v)) in
     if \<not> present e4 then None else
     let e3 = m (slot (table_of e4) (pdp_idx v)) in
     if \<not> present e3 \<or> huge e3 then None else
     let e2 = m (slot (table_of e3) (pd_idx v)) in
     if \<not> present e2 \<or> huge e2 then None else
     let e1 = m (slot (table_of e2) (pt_idx v)) in if present e1 then Some e1 else None)"
  by (simp add: leaf_def vpath_def Let_def)

lemma paging_unmap_spec:
  assumes "paging_wf st" "paging_unmap v st = (phys, st')"
  shows "phys = (case leaf st v of None \<Rightarrow> 0 | Some e \<Rightarrow> table_of e)"
    and "paging_wf st'" "pg_pmm st' = pg_pmm st"
    and "leaf st' w = (if vpn w = vpn v then None else leaf st w)"
    and "pg_flushed st' = (if leaf st v = None then pg_flushed st else v # pg_flushed st)"
    and "table_pages st' = table_pages st" "leaf st v = None \<Longrightarrow> st' = st"
proof -
  have "phys = (case leaf st v of None \<Rightarrow> 0 | Some e \<Rightarrow> table_of e) \<and>
    paging_wf st' \<and> pg_pmm st' = pg_pmm st \<and>
    leaf st' w = (if vpn w = vpn v then None else leaf st w) \<and>
    pg_flushed st' = (if leaf st v = None then pg_flushed st else v # pg_flushed st) \<and>
    table_pages st' = table_pages st \<and> (leaf st v = None \<longrightarrow> st' = st)"
  proof (cases "leaf st v")
    case None
    have "leaf st w = None" if "vpn w = vpn v"
      using None that by (simp add: leaf_def vpn_eq_iff cong: option.case_cong)
    moreover have "paging_unmap v st = (0, st)"
      using None unfolding leaf_eq paging_unmap_def paging_read_cr3_def Let_def by (auto split: if_splits)
    ultimately show ?thesis using None assms by auto
  next
    case (Some e)
    then obtain t where t: "table st (vpath v) = Some t" "pg_mem st (slot t (pt_idx v)) = e" "present e"
      by (auto simp: leaf_def Let_def split: option.splits if_splits)
    let ?st = "st\<lparr>pg_mem := (pg_mem st)(slot t (pt_idx v) := 0)\<rparr>"
    have "paging_unmap v st = (table_of e, paging_invlpg v ?st)"
      using t by (auto simp: vpath_def paging_unmap_def paging_read_cr3_def Let_def split: if_splits)
    moreover have "table_pages (paging_invlpg v ?st) = table_pages st"
      using store_leaf(1) [OF assms(1) t(1), of _ 0] by (simp add: table_pages_def cong: conj_cong)
    ultimately show ?thesis using Some assms store_leaf(2,3) [OF assms(1) t(1), of 0] by (auto simp: present_def)
  qed
  then show "phys = (case leaf st v of None \<Rightarrow> 0 | Some e \<Rightarrow> table_of e)"
    "paging_wf st'" "pg_pmm st' = pg_pmm st"
    "leaf st' w = (if vpn w = vpn v then None else leaf st w)"
    "pg_flushed st' = (if leaf st v = None then pg_flushed st else v # pg_flushed st)"
    "table_pages st' = table_pages st" "leaf st v = None \<Longrightarrow> st' = st" by simp_all
qed

text \<open>The walk reaches depth 4 exactly where the tables lead to a last-level entry, which it
  returns; above that it stops at an entry that is missing or maps a huge page.\<close>

lemma paging_walk_leaf:
  assumes "paging_walk v st = (d, e4, e3, e2, e1)"
  shows "leaf st v = (if d = 4 \<and> present e1 then Some e1 else None)" "d \<in> {1, 2, 3, 4}"
  using assms by (auto simp: paging_walk_def leaf_eq paging_read_cr3_def Let_def split: if_splits)

section \<open>Taking a page for data\<close>

text \<open>The tree depends on the root and on the contents of its tables only.\<close>

lemma tree_cong:
  assumes cr3: "pg_cr3 st' = pg_cr3 st"
    and mem: "\<And>js u j. path_ok js \<Longrightarrow> table st js = Some u \<Longrightarrow> unat j < 512 \<Longrightarrow> pg_mem st' (slot u j) = pg_mem st (slot u j)"
  shows "path_ok js \<Longrightarrow> table st' js = table st js"
    and "leaf st' v = leaf st v" "in_huge_page st' v = in_huge_page st v" "table_pages st' = table_pages st"
proof -
  have tab: "path_ok js \<Longrightarrow> table st' js = table st js" for js
  proof (induction js)
    case Nil
    then show ?case by (simp add: cr3)
  next
    case (Cons j ks)
    then have ks: "path_ok ks" "unat j < 512" by (auto simp: path_ok_Cons)
    then show ?case using Cons.IH mem [OF ks(1) _ ks(2)] by (simp split: option.split)
  qed
  then show "path_ok js \<Longrightarrow> table st' js = table st js" .
  show "leaf st' v = leaf st v"
    using tab [of "vpath v"] mem [of "vpath v" _ "pt_idx v"] by (simp add: leaf_def split: option.split)
  show "table_pages st' = table_pages st" using tab by (simp add: table_pages_def cong: conj_cong)
  have "huge_at st' ks j = huge_at st ks j" if "path_ok ks" "unat j < 512" for ks j
    using tab [OF that(1)] mem [OF that(1) _ that(2)] by (auto simp: huge_at_def)
  then show "in_huge_page st' v = in_huge_page st v" by (simp add: in_huge_page_def)
qed

text \<open>A free page that is taken and zeroed leaves the tree as it is.\<close>

lemma claim_page:
  fixes st page p'
  defines "st' \<equiv> st\<lparr>pg_pmm := p', pg_mem := zero_table page (pg_mem st)\<rparr>"
  assumes wf: "paging_wf st" and pg: "aligned page" "unat page div 4096 \<in> free_set (pg_pmm st)"
    and r: "repaged (free_set (pg_pmm st) - {unat page div 4096}) (pg_pmm st) p'"
  shows "path_ok js \<Longrightarrow> table st' js = table st js"
    and "paging_wf st'" "leaf st' v = leaf st v" "in_huge_page st' v = in_huge_page st v"
    and "table_pages st' = table_pages st"
proof -
  have mem: "pg_mem st' (slot u j) = pg_mem st (slot u j)"
    if "path_ok js" "table st js = Some u" "unat j < 512" for js u j
  proof -
    have "page \<noteq> u" using paging_wf_used [OF wf that(1,2)] pg(2) by auto
    then show ?thesis using zero_table_out [OF pg(1) table_aligned [OF that(2)] _ that(3)] by (simp add: st'_def)
  qed
  have "pg_cr3 st' = pg_cr3 st" by (simp add: st'_def)
  note tree = tree_cong [OF this mem]
  show tab: "path_ok js \<Longrightarrow> table st' js = table st js" for js by (rule tree(1))
  show "leaf st' v = leaf st v" "in_huge_page st' v = in_huge_page st v" "table_pages st' = table_pages st"
    by (rule tree; assumption)+
  have "pg_pmm st' = p'" by (simp add: st'_def)
  then show "paging_wf st'" using wf repaged_ok [OF r] tab unfolding paging_wf_def by (auto simp del: table.simps)
qed

end
