(* ===== verification/X86_Vmm.thy ===== *)
theory X86_Vmm
  imports X86_Paging
begin

text \<open>
  The virtual memory manager \<open>arch/x86_64/vmm.c\<close>: the kernel heap, a bump allocator of virtual
  addresses whose pages are mapped when they are first touched, and TLB shootdown.  Zeroing a
  page byte by byte is zeroing its 512 words, and \<open>PANIC\<close> is \<open>None\<close>.

  A shootdown waits for the other processors.  \<open>vm_responders\<close> is the number of other processors
  that take the interrupt and run its handler; the wait ends only if there are enough of them.

  The lemmas show that \<open>kmalloc\<close> hands out disjoint aligned blocks, that demand paging gives the
  faulting page a zeroed frame that nothing else uses, and what \<open>kfree\<close> unmaps.
\<close>

section \<open>State\<close>

abbreviation (input) VMM_HEAP_BASE :: u64 where "VMM_HEAP_BASE \<equiv> 0xffffffff88000000"
abbreviation (input) VMM_HEAP_SIZE :: u64 where "VMM_HEAP_SIZE \<equiv> 134217728"
abbreviation (input) VMM_HEAP_END :: u64 where "VMM_HEAP_END \<equiv> 0xffffffff90000000"

record vmm =
  vm_paging :: paging
  vm_heap_next :: u64
  vm_heap_lock :: gmk_spinlock
  vm_tlb_addr :: u64
  vm_tlb_ack :: u32
  vm_total_cpus :: u32
  vm_responders :: nat
  vm_remote_flushed :: "u64 list"

definition vmm_init :: "vmm \<Rightarrow> vmm" where
  "vmm_init st = st\<lparr>vm_heap_next := VMM_HEAP_BASE, vm_heap_lock := gmk_spinlock_init,
     vm_total_cpus := 1, vm_tlb_addr := 0, vm_tlb_ack := 0\<rparr>"

definition vmm_set_cpu_count :: "u32 \<Rightarrow> vmm \<Rightarrow> vmm" where
  "vmm_set_cpu_count cnt st = st\<lparr>vm_total_cpus := cnt\<rparr>"

section \<open>TLB shootdown\<close>

definition vmm_tlb_shootdown_handler :: "vmm \<Rightarrow> vmm" where
  "vmm_tlb_shootdown_handler st =
     (let a = vm_tlb_addr st;
          st1 = (if a \<noteq> 0 then st\<lparr>vm_remote_flushed := a # vm_remote_flushed st\<rparr> else st)
      in st1\<lparr>vm_tlb_ack := vm_tlb_ack st1 + 1\<rparr>)"

definition vmm_tlb_shootdown :: "u64 \<Rightarrow> vmm \<Rightarrow> vmm exec" where
  "vmm_tlb_shootdown virt_addr st =
     (if vm_total_cpus st \<le> 1 then Some st
      else
        let st1 = st\<lparr>vm_tlb_addr := virt_addr, vm_tlb_ack := 0\<rparr>;
            st2 = (vmm_tlb_shootdown_handler ^^ vm_responders st1) st1;
            expected = vm_total_cpus st2 - 1
        in if vm_tlb_ack st2 < expected then None
           else Some (st2\<lparr>vm_tlb_addr := 0\<rparr>))"

section \<open>Mapping ranges\<close>

fun vmm_map_loop :: "nat \<Rightarrow> u64 \<Rightarrow> u64 \<Rightarrow> u64 \<Rightarrow> u64 \<Rightarrow> paging \<Rightarrow> paging exec" where
  "vmm_map_loop 0 i virt phys flags pg = Some pg"
| "vmm_map_loop (Suc n) i virt phys flags pg =
     Option.bind (paging_map (virt + push_bit 12 i) (phys + push_bit 12 i) flags pg)
       (vmm_map_loop n (i + 1) virt phys flags)"

definition vmm_map :: "u64 \<Rightarrow> u64 \<Rightarrow> u64 \<Rightarrow> vmm \<Rightarrow> (addr \<times> vmm) exec" where
  "vmm_map phys sz flags st =
     (if sz = 0 then Some (0, st)
      else
        let pages = drop_bit 12 (sz + 0xFFF);
            phys_aligned = phys AND NOT 0xFFF;
            virt = (vm_heap_next st + 0xFFF) AND NOT 0xFFF;
            st1 = st\<lparr>vm_heap_next := virt + push_bit 12 pages\<rparr>
        in if vm_heap_next st1 > VMM_HEAP_END then None
           else Option.bind (vmm_map_loop (unat pages) 0 virt phys_aligned flags (vm_paging st1)) (\<lambda>pg.
             Some (virt + (phys AND 0xFFF), st1\<lparr>vm_paging := pg\<rparr>)))"

text \<open>Unmapping a page and returning its frame; the result tells whether there was one.\<close>

definition unmap_page :: "u64 \<Rightarrow> vmm \<Rightarrow> (bool \<times> vmm) exec" where
  "unmap_page v st =
     (let (phys, pg) = paging_unmap v (vm_paging st) in
      if phys \<noteq> 0 then
        Option.bind (pmm_free_pages phys 1 (pg_pmm pg)) (\<lambda>p.
          Some (True, st\<lparr>vm_paging := pg\<lparr>pg_pmm := p\<rparr>\<rparr>))
      else Some (False, st\<lparr>vm_paging := pg\<rparr>))"

definition shoot_if_smp :: "u64 \<Rightarrow> vmm \<Rightarrow> vmm exec" where
  "shoot_if_smp v st = (if vm_total_cpus st > 1 then vmm_tlb_shootdown v st else Some st)"

fun vmm_unmap_loop :: "nat \<Rightarrow> u64 \<Rightarrow> u64 \<Rightarrow> vmm \<Rightarrow> vmm exec" where
  "vmm_unmap_loop 0 i a st = Some st"
| "vmm_unmap_loop (Suc n) i a st =
     Option.bind (unmap_page (a + push_bit 12 i) st) (\<lambda>(_, st1).
       Option.bind (shoot_if_smp (a + push_bit 12 i) st1) (vmm_unmap_loop n (i + 1) a))"

definition vmm_unmap :: "addr \<Rightarrow> u64 \<Rightarrow> vmm \<Rightarrow> vmm exec" where
  "vmm_unmap virt sz st =
     (if virt = 0 \<or> sz = 0 then Some st
      else
        let a = virt AND NOT 0xFFF; pages = drop_bit 12 (virt + sz - a + 0xFFF)
        in vmm_unmap_loop (unat pages) 0 a st)"

section \<open>The heap\<close>

definition kmalloc :: "u64 \<Rightarrow> vmm \<Rightarrow> (addr \<times> vmm) exec" where
  "kmalloc sz st =
     (if sz = 0 then Some (0, st)
      else
        let sz1 = (sz + 15) AND NOT 15;
            a = (vm_heap_next st + 15) AND NOT 15;
            st1 = st\<lparr>vm_heap_next := a + sz1\<rparr>
        in if vm_heap_next st1 > VMM_HEAP_END then None else Some (a, st1))"

text \<open>The loop of \<open>kfree\<close> runs over the pages from \<open>addr\<close> to \<open>end\<close>, both page-aligned.\<close>

fun kfree_loop :: "nat \<Rightarrow> u64 \<Rightarrow> vmm \<Rightarrow> vmm exec" where
  "kfree_loop 0 page st = Some st"
| "kfree_loop (Suc n) page st =
     Option.bind (unmap_page page st) (\<lambda>(mapped, st1).
       Option.bind (if mapped then shoot_if_smp page st1 else Some st1) (kfree_loop n (page + 4096)))"

definition kfree :: "addr \<Rightarrow> u64 \<Rightarrow> vmm \<Rightarrow> vmm exec" where
  "kfree ptr sz st =
     (if ptr = 0 \<or> sz = 0 then Some st
      else
        let a = ptr AND NOT 0xFFF; end_addr = (ptr + sz + 0xFFF) AND NOT 0xFFF
        in kfree_loop ((unat end_addr - unat a) div 4096) a st)"

definition vmm_demand_page :: "u64 \<Rightarrow> vmm \<Rightarrow> (rc \<times> vmm) exec" where
  "vmm_demand_page fault_addr st =
     (if fault_addr < VMM_HEAP_BASE \<or> fault_addr \<ge> VMM_HEAP_END then Some (- 1, st)
      else
        let page_virt = fault_addr AND NOT 0xFFF; pg = vm_paging st in
        Option.bind (pmm_alloc_pages 1 (pg_pmm pg)) (\<lambda>(phys, p).
          if phys = 0 then None
          else
            let pg1 = pg\<lparr>pg_pmm := p, pg_mem := zero_table phys (pg_mem pg)\<rparr>
            in Option.bind (paging_map page_virt phys (PTE_PRESENT OR PTE_WRITABLE) pg1) (\<lambda>pg2.
                 Some (0, st\<lparr>vm_paging := pg2\<rparr>))))"

definition vmm_get_heap_used :: "vmm \<Rightarrow> u64" where
  "vmm_get_heap_used st = vm_heap_next st - VMM_HEAP_BASE"

section \<open>Allocation\<close>

lemma unat_and_not_15: "unat ((x :: u64) AND NOT 15) = 16 * (unat x div 16)"
proof -
  have m: "unat (x AND 15) = unat x mod 16" using unat_and_mask [of x 4] by simp
  have "unat (x AND NOT 15) = unat x - unat x mod 16"
    unfolding and_not_mask_sub m [symmetric] by (rule unat_sub) (rule word_and_le2)
  then show ?thesis by (simp add: minus_mod_eq_mult_div)
qed

definition up16 :: "nat \<Rightarrow> nat" where
  "up16 n = 16 * ((n + 15) div 16)"

lemma up16_ge: "n \<le> up16 n" "up16 n < n + 16" "up16 n mod 16 = 0"
  unfolding up16_def by auto

lemma kmalloc_sum:
  fixes sz :: u64
  assumes "unat sz < 2 ^ 63" "vm_heap_next st \<le> VMM_HEAP_END"
  shows "unat ((vm_heap_next st + 15) AND NOT 15) = up16 (unat (vm_heap_next st))"
    and "unat ((sz + 15) AND NOT 15) = up16 (unat sz)"
proof -
  have h: "unat (vm_heap_next st) \<le> 18446744071830503424" using assms(2) by (simp add: word_le_nat_alt)
  have u: "unat (sz + 15) = unat sz + 15" "unat (vm_heap_next st + 15) = unat (vm_heap_next st) + 15"
    using unat_add_nowrap [of sz 15] unat_add_nowrap [of "vm_heap_next st" 15] assms(1) h by simp_all
  show "unat ((vm_heap_next st + 15) AND NOT 15) = up16 (unat (vm_heap_next st))"
    "unat ((sz + 15) AND NOT 15) = up16 (unat sz)"
    unfolding unat_and_not_15 u up16_def by simp_all
qed

lemma if_not_swap: "(if \<not> b then x else y) = (if b then y else x)"
  by simp

lemma kmalloc_eq:
  assumes "sz \<noteq> 0" "unat sz < 2 ^ 63" "vm_heap_next st \<le> VMM_HEAP_END"
  defines "a \<equiv> up16 (unat (vm_heap_next st))"
  assumes "a + up16 (unat sz) < 2 ^ 64"
  shows "kmalloc sz st =
    (if a + up16 (unat sz) \<le> unat VMM_HEAP_END
     then Some (of_nat a, st\<lparr>vm_heap_next := of_nat (a + up16 (unat sz))\<rparr>) else None)"
proof -
  let ?a = "(vm_heap_next st + 15) AND NOT 15" and ?s = "(sz + 15) AND NOT 15"
  note u = kmalloc_sum [OF assms(2,3)]
  have sum: "unat (?a + ?s) = a + up16 (unat sz)"
    using u assms(5) unfolding a_def by (subst unat_add_nowrap) simp_all
  then have w: "?a + ?s = of_nat (a + up16 (unat sz))" by (metis of_nat_unat_id)
  have wa: "?a = of_nat a" using u(1) unfolding a_def by (metis of_nat_unat_id)
  have c: "(?a + ?s > VMM_HEAP_END) = (\<not> a + up16 (unat sz) \<le> unat VMM_HEAP_END)"
    using sum by (simp add: word_less_nat_alt not_le)
  have "kmalloc sz st = (if ?a + ?s > VMM_HEAP_END then None else Some (?a, st\<lparr>vm_heap_next := ?a + ?s\<rparr>))"
    using assms(1) by (simp add: kmalloc_def Let_def)
  also have "\<dots> = (if a + up16 (unat sz) \<le> unat VMM_HEAP_END
      then Some (?a, st\<lparr>vm_heap_next := ?a + ?s\<rparr>) else None)"
    unfolding c by (rule if_not_swap)
  finally show ?thesis unfolding w unfolding wa .
qed

text \<open>A request that makes the end of the block wrap around passes the test.\<close>

lemma kmalloc_overrun:
  assumes "unat sz < 2 ^ 63" "vm_heap_next st \<le> VMM_HEAP_END" "sz \<noteq> 0"
    and "2 ^ 64 \<le> up16 (unat (vm_heap_next st)) + up16 (unat sz)"
  shows "\<exists>a st'. kmalloc sz st = Some (a, st') \<and> unat a = up16 (unat (vm_heap_next st)) \<and>
    unat (vm_heap_next st') < unat a"
proof -
  let ?a = "(vm_heap_next st + 15) AND NOT 15" and ?s = "(sz + 15) AND NOT 15"
  note u = kmalloc_sum [OF assms(1,2)]
  have s: "unat ?s < 2 ^ 63 + 16" using u(2) up16_ge(2) [of "unat sz"] assms(1) by linarith
  have a: "unat ?a < 2 ^ 64" by simp
  have "unat (?a + ?s) = (unat ?a + unat ?s) mod 2 ^ 64" by (simp add: unat_word_ariths)
  also have "\<dots> = unat ?a + unat ?s - 2 ^ 64"
    using assms(4) u s a by (subst mod_if) (auto simp: le_mod_geq)
  finally have e: "unat (?a + ?s) = unat ?a + unat ?s - 2 ^ 64" .
  have "(2 :: nat) ^ 63 + 16 \<le> 2 ^ 64" "2 ^ 64 \<le> unat ?a + unat ?s" using assms(4) u by simp_all
  then have lt: "unat (?a + ?s) < unat ?a" using e s by linarith
  have "unat (?a + ?s) < 2 ^ 63 + 16" using e s a by linarith
  then have "\<not> ?a + ?s > VMM_HEAP_END" by (simp add: word_less_nat_alt)
  then have "kmalloc sz st = Some (?a, st\<lparr>vm_heap_next := ?a + ?s\<rparr>)"
    using assms(3) by (simp add: kmalloc_def Let_def)
  then show ?thesis using lt u(1) by (intro exI [of _ ?a] exI [of _ "st\<lparr>vm_heap_next := ?a + ?s\<rparr>"]) simp
qed

section \<open>Shootdown\<close>

lemma handler_iter:
  "(vmm_tlb_shootdown_handler ^^ n) st =
   st\<lparr>vm_tlb_ack := vm_tlb_ack st + of_nat n,
      vm_remote_flushed := (if vm_tlb_addr st = 0 then [] else replicate n (vm_tlb_addr st)) @ vm_remote_flushed st\<rparr>"
proof (induction n)
  case (Suc n)
  then show ?case by (simp add: vmm_tlb_shootdown_handler_def Let_def)
qed simp

lemma vmm_tlb_shootdown_eq:
  assumes "1 < vm_total_cpus st" "vm_responders st < 2 ^ 32"
  shows "vmm_tlb_shootdown v st =
    (if vm_responders st < unat (vm_total_cpus st) - 1 then None
     else Some (st\<lparr>vm_tlb_addr := 0, vm_tlb_ack := of_nat (vm_responders st),
       vm_remote_flushed := (if v = 0 then [] else replicate (vm_responders st) v) @ vm_remote_flushed st\<rparr>))"
proof -
  have "unat (vm_total_cpus st - 1) = unat (vm_total_cpus st) - 1"
    using assms(1) by (subst unat_sub) (simp_all add: word_less_nat_alt word_le_nat_alt)
  then have c: "(of_nat (vm_responders st) < vm_total_cpus st - 1) = (vm_responders st < unat (vm_total_cpus st) - 1)"
    using assms(2) by (simp add: word_less_nat_alt unat_of_nat_lt)
  have "\<not> vm_total_cpus st \<le> 1" using assms(1) by (simp add: not_le)
  then show ?thesis by (simp add: vmm_tlb_shootdown_def handler_iter Let_def c)
qed

text \<open>All the other processors answer.\<close>

definition smp_ok :: "vmm \<Rightarrow> bool" where
  "smp_ok st \<longleftrightarrow> vm_responders st < 2 ^ 32 \<and> unat (vm_total_cpus st) \<le> Suc (vm_responders st)"

lemma shoot_if_smp_ok:
  assumes "smp_ok st"
  shows "\<exists>st'. shoot_if_smp v st = Some st' \<and> vm_paging st' = vm_paging st \<and> smp_ok st'"
  using assms vmm_tlb_shootdown_eq [of st v]
  by (auto simp: shoot_if_smp_def smp_ok_def)

section \<open>The heap's mappings\<close>

definition in_heap :: "u64 \<Rightarrow> bool" where
  "in_heap v \<longleftrightarrow> VMM_HEAP_BASE \<le> v \<and> v < VMM_HEAP_END"

definition frame :: "u64 \<Rightarrow> nat" where
  "frame e = unat e div 4096"

definition vmm_wf :: "vmm \<Rightarrow> bool" where
  "vmm_wf st \<longleftrightarrow> paging_wf (vm_paging st) \<and>
     (\<forall>v e. in_heap v \<longrightarrow> leaf (vm_paging st) v = Some e \<longrightarrow>
        0 < frame e \<and> frame e < unat (pm_total_pages (pg_pmm (vm_paging st))) \<and>
        frame e \<notin> free_set (pg_pmm (vm_paging st)) \<union> table_pages (vm_paging st)) \<and>
     (\<forall>v w e e'. in_heap v \<longrightarrow> in_heap w \<longrightarrow> leaf (vm_paging st) v = Some e \<longrightarrow>
        leaf (vm_paging st) w = Some e' \<longrightarrow> frame e = frame e' \<longrightarrow> vpn v = vpn w)"

lemma vpn_table_of [simp]: "vpn (table_of v) = vpn v"
  by (rule bit_word_eqI) (auto simp: vpn_def bit_simps bit_table_of)

lemma vpath_table_of [simp]: "vpath (table_of v) = vpath v" "pt_idx (table_of v) = pt_idx v"
  using vpn_table_of [of v] unfolding vpn_eq_iff by simp_all

lemma in_huge_page_table_of [simp]: "in_huge_page st (table_of v) = in_huge_page st v"
  using vpath_table_of(1) [of v] by (simp add: in_huge_page_def vpath_def)

lemma frame_OR_3: "aligned p \<Longrightarrow> frame (p OR 1 OR 2) = frame p"
proof -
  assume "aligned p"
  then have "unat (table_of (p OR 1 OR 2)) = unat p" by (simp only: new_entry(3))
  then show ?thesis unfolding unat_table_of frame_def by (metis nonzero_mult_div_cancel_left zero_neq_numeral)
qed

lemma demand_page_spec:
  fixes st v
  defines "pg \<equiv> vm_paging st"
  assumes wf: "vmm_wf st" and v: "in_heap v" "leaf pg v = None" "\<not> in_huge_page pg v"
    and fr: "4 \<le> card (free_set (pg_pmm pg))"
  shows "\<exists>st' phys. vmm_demand_page v st = Some (0, st') \<and> vmm_wf st' \<and> aligned phys \<and>
    frame phys \<in> free_set (pg_pmm pg) \<and> frame phys \<notin> free_set (pg_pmm (vm_paging st')) \<and>
    (\<forall>i. unat i < 512 \<longrightarrow> pg_mem (vm_paging st') (slot phys i) = 0) \<and>
    (\<forall>w. leaf (vm_paging st') w = (if vpn w = vpn v then Some (phys OR 1 OR 2) else leaf pg w)) \<and>
    (\<forall>w. in_huge_page (vm_paging st') w = in_huge_page pg w) \<and>
    card (free_set (pg_pmm pg)) \<le> 4 + card (free_set (pg_pmm (vm_paging st'))) \<and>
    st' = st\<lparr>vm_paging := vm_paging st'\<rparr> \<and>
    (\<forall>u j. aligned u \<longrightarrow> unat j < 512 \<longrightarrow> frame u \<notin> table_pages pg \<union> free_set (pg_pmm pg) \<longrightarrow>
       pg_mem (vm_paging st') (slot u j) = pg_mem pg (slot u j))"
proof -
  have pwf: "paging_wf pg" using wf by (simp add: vmm_wf_def pg_def)
  have "free_set (pg_pmm pg) \<noteq> {}" using fr by auto
  then obtain phys p' where a: "paging_alloc_table pg =
      Some (phys, pg\<lparr>pg_pmm := p', pg_mem := zero_table phys (pg_mem pg)\<rparr>)"
    "aligned phys" "frame phys \<in> free_set (pg_pmm pg)"
    "repaged (free_set (pg_pmm pg) - {frame phys}) (pg_pmm pg) p'"
    using paging_alloc_table_spec [OF pwf] unfolding frame_def by auto
  let ?pg1 = "pg\<lparr>pg_pmm := p', pg_mem := zero_table phys (pg_mem pg)\<rparr>"
  note c = claim_page [OF pwf a(2) a(3) [unfolded frame_def] a(4) [unfolded frame_def]]
  note r = repaged_ok [OF a(4)]
  have "card (free_set p') = card (free_set (pg_pmm pg)) - 1" using r(2) a(3) by simp
  then have fr1: "3 \<le> card (free_set (pg_pmm ?pg1))" using fr by simp
  have nh: "\<not> in_huge_page ?pg1 (table_of v)" using c(4) v(3) by simp
  have pr: "present (phys OR 1 OR 2)" by (rule new_entry(1) [OF a(2)])
  obtain pg2 where m: "paging_map (table_of v) phys (1 OR 2) ?pg1 = Some pg2" "paging_wf pg2"
    "\<forall>w. leaf pg2 w = (if vpn w = vpn v then Some (phys OR 1 OR 2) else leaf ?pg1 w)" "took_tables ?pg1 pg2"
    "\<forall>w. in_huge_page pg2 w = in_huge_page ?pg1 w" "card (free_set p') \<le> 3 + card (free_set (pg_pmm pg2))"
    using paging_map_spec [OF c(2) fr1 nh, of phys "1 OR 2"] pr table_of_aligned [OF a(2)]
    by (auto simp: Let_def simp del: or_numerals)
  have "pmm_alloc_pages 1 (pg_pmm pg) = Some (phys, p') \<and> phys \<noteq> 0"
  proof -
    obtain q where q: "pmm_alloc_pages 1 (pg_pmm pg) = Some (phys, q)" "phys \<noteq> 0"
      "pg\<lparr>pg_pmm := q, pg_mem := zero_table phys (pg_mem pg)\<rparr> = ?pg1"
      using a(1) by (auto simp: paging_alloc_table_def split: bind_splits if_splits)
    then have "q = p'" using arg_cong [OF q(3), of pg_pmm] by simp
    then show ?thesis using q by simp
  qed
  moreover have "v < VMM_HEAP_BASE \<or> v \<ge> VMM_HEAP_END \<longleftrightarrow> False" using v(1) by (auto simp: in_heap_def)
  ultimately have run: "vmm_demand_page v st = Some (0, st\<lparr>vm_paging := pg2\<rparr>)"
    using m(1) unfolding vmm_demand_page_def table_of_def pg_def Let_def by simp
  have "frame phys \<notin> table_pages pg" using pwf a(3) by (auto simp: table_pages_def paging_wf_def)
  then have nt: "frame phys \<notin> table_pages pg \<union> free_set p'" using r(2) by simp
  have t2: "free_set (pg_pmm pg2) \<subseteq> free_set p'" "table_pages pg2 = table_pages pg \<union> (free_set p' - free_set (pg_pmm pg2))"
    "pm_total_pages (pg_pmm pg2) = pm_total_pages (pg_pmm pg)"
    "\<And>i. unat i < 512 \<Longrightarrow> pg_mem pg2 (slot phys i) = zero_table phys (pg_mem pg) (slot phys i)"
    using m(4) c(5) r(3) nt a(2) by (auto simp: took_tables_def frame_def)
  have leaf2: "leaf pg2 w = (if vpn w = vpn v then Some (phys OR 1 OR 2) else leaf pg w)" for w
    using m(3) c(3) by simp
  have old: "0 < frame e \<and> frame e < unat (pm_total_pages (pg_pmm pg)) \<and> frame e \<notin> free_set (pg_pmm pg) \<union> table_pages pg"
    if "in_heap w" "leaf pg w = Some e" for w e
    using wf that unfolding vmm_wf_def pg_def by blast
  have inj: "vpn w = vpn w'" if "in_heap w" "in_heap w'" "leaf pg w = Some e" "leaf pg w' = Some e'" "frame e = frame e'" for w w' e e'
    using wf that unfolding vmm_wf_def pg_def by blast
  have fp: "0 < frame phys" "frame phys < unat (pm_total_pages (pg_pmm pg))"
    using a(3) pwf by (auto simp: paging_wf_def free_set_def intro: gr0I)
  have f3: "frame (phys OR 1 OR 2) = frame phys" by (rule frame_OR_3 [OF a(2)])
  have "vmm_wf (st\<lparr>vm_paging := pg2\<rparr>)"
    unfolding vmm_wf_def
  proof (intro conjI allI impI)
    show "paging_wf (vm_paging (st\<lparr>vm_paging := pg2\<rparr>))" using m(2) by simp
    fix w e assume w: "in_heap w" "leaf (vm_paging (st\<lparr>vm_paging := pg2\<rparr>)) w = Some e"
    then have e: "if vpn w = vpn v then e = phys OR 1 OR 2 else leaf pg w = Some e" using leaf2 [of w] by (auto split: if_splits)
    then show "0 < frame e" using old [OF w(1)] fp f3 by (auto split: if_splits)
    show "frame e < unat (pm_total_pages (pg_pmm (vm_paging (st\<lparr>vm_paging := pg2\<rparr>))))"
      using e old [OF w(1)] fp f3 t2(3) by (auto split: if_splits)
    show "frame e \<notin> free_set (pg_pmm (vm_paging (st\<lparr>vm_paging := pg2\<rparr>))) \<union> table_pages (vm_paging (st\<lparr>vm_paging := pg2\<rparr>))"
      using e old [OF w(1)] f3 nt t2(1,2) r(2) by (auto split: if_splits)
    fix w' e' assume w': "in_heap w'" "leaf (vm_paging (st\<lparr>vm_paging := pg2\<rparr>)) w' = Some e'" "frame e = frame e'"
    then have e': "if vpn w' = vpn v then e' = phys OR 1 OR 2 else leaf pg w' = Some e'" using leaf2 [of w'] by (auto split: if_splits)
    have out: "\<not> (leaf pg u = Some d \<and> frame d = frame phys)" if "in_heap u" for u d
      using old [OF that] a(3) by auto
    show "vpn w = vpn w'"
    proof (rule ccontr)
      assume ne: "vpn w \<noteq> vpn w'"
      have "vpn w \<noteq> vpn v"
      proof
        assume "vpn w = vpn v"
        then have "frame e = frame phys" "leaf pg w' = Some e'" using e e' ne f3 by simp_all
        then show False using out [OF w'(1), of e'] w'(3) by simp
      qed
      moreover have "vpn w' \<noteq> vpn v"
      proof
        assume v': "vpn w' = vpn v"
        then have "e' = phys OR 1 OR 2" using e' by presburger
        moreover have "leaf pg w = Some e" using e ne v' by presburger
        ultimately show False using out [OF w(1), of e] w'(3) f3 by metis
      qed
      ultimately have "leaf pg w = Some e" "leaf pg w' = Some e'" using e e' by presburger+
      then show False using inj [OF w(1) w'(1)] w'(3) ne by blast
    qed
  qed
  moreover have "frame phys \<notin> free_set (pg_pmm pg2)" using nt t2(1) by auto
  moreover have "pg_mem pg2 (slot u j) = pg_mem pg (slot u j)"
    if u: "aligned u" "unat j < 512" "frame u \<notin> table_pages pg \<union> free_set (pg_pmm pg)" for u j
  proof -
    have "phys \<noteq> u" using u(3) a(3) by auto
    then have "pg_mem ?pg1 (slot u j) = pg_mem pg (slot u j)" using zero_table_out [OF a(2) u(1) _ u(2)] by simp
    moreover have "unat u div 4096 \<notin> table_pages ?pg1 \<union> free_set (pg_pmm ?pg1)"
      using u(3) c(5) r(2) by (simp add: frame_def)
    ultimately show ?thesis using m(4) u(1,2) unfolding took_tables_def by metis
  qed
  moreover have "card (free_set (pg_pmm pg)) \<le> 4 + card (free_set (pg_pmm pg2))"
    using m(6) \<open>card (free_set p') = card (free_set (pg_pmm pg)) - 1\<close> by linarith
  ultimately show ?thesis using run a(2,3) leaf2 t2(4) m(5) c(4)
    by (intro exI [of _ "st\<lparr>vm_paging := pg2\<rparr>"] exI [of _ phys]) (simp add: zero_table_in)
qed

lemma vmm_wfD:
  assumes "vmm_wf st"
  shows "paging_wf (vm_paging st)"
    and "in_heap v \<Longrightarrow> leaf (vm_paging st) v = Some e \<Longrightarrow> 0 < frame e \<and>
      frame e < unat (pm_total_pages (pg_pmm (vm_paging st))) \<and>
      frame e \<notin> free_set (pg_pmm (vm_paging st)) \<union> table_pages (vm_paging st)"
    and "in_heap v \<Longrightarrow> in_heap w \<Longrightarrow> leaf (vm_paging st) v = Some e \<Longrightarrow>
      leaf (vm_paging st) w = Some e' \<Longrightarrow> frame e = frame e' \<Longrightarrow> vpn v = vpn w"
  using assms unfolding vmm_wf_def by blast+

lemma table_pages_cong: "(\<And>js. path_ok js \<Longrightarrow> table st' js = table st js) \<Longrightarrow> table_pages st' = table_pages st"
  by (simp add: table_pages_def cong: conj_cong)

lemma table_pmm [simp]: "table (pg\<lparr>pg_pmm := p\<rparr>) js = table pg js"
  by (induction js) (simp_all cong: option.case_cong)

lemma leaf_pmm [simp]: "leaf (pg\<lparr>pg_pmm := p\<rparr>) v = leaf pg v"
  by (simp add: leaf_def cong: option.case_cong)

text \<open>Unmapping a heap page gives its frame back.\<close>

lemma unmap_page_spec:
  assumes wf: "vmm_wf st" and v: "in_heap v"
  shows "\<exists>b st'. unmap_page v st = Some (b, st') \<and> vmm_wf st' \<and> smp_ok st' = smp_ok st \<and>
    (b \<longleftrightarrow> leaf (vm_paging st) v \<noteq> None) \<and>
    (\<forall>w. leaf (vm_paging st') w = (if vpn w = vpn v then None else leaf (vm_paging st) w)) \<and>
    free_set (pg_pmm (vm_paging st')) = free_set (pg_pmm (vm_paging st)) \<union>
      frame ` set_option (leaf (vm_paging st) v)"
proof -
  let ?pg = "vm_paging st"
  obtain phys pg where u: "paging_unmap v ?pg = (phys, pg)" by fastforce
  note s = paging_unmap_spec [OF vmm_wfD(1) [OF wf] u]
  show ?thesis
  proof (cases "leaf ?pg v")
    case None
    then have "unmap_page v st = Some (False, st)" using u s(1) s(7) [OF None] by (simp add: unmap_page_def)
    moreover have "leaf ?pg w = (if vpn w = vpn v then None else leaf ?pg w)" for w
      using s(4) [of w] s(7) [OF None] by simp
    ultimately show ?thesis using wf None by (intro exI [of _ False] exI [of _ st]) simp
  next
    case (Some e)
    let ?t = "unat (pm_total_pages (pg_pmm ?pg))"
    note fe = vmm_wfD(2) [OF wf v Some]
    have ph: "phys = table_of e" using s(1) Some by simp
    then have fp: "unat phys div 4096 = frame e" by (simp add: unat_table_of frame_def)
    have p0: "phys \<noteq> 0" using fp fe by auto
    have ok: "pmm_ok (pg_pmm pg)" using s(2) by (simp add: paging_wf_def)
    have "frame e + unat (1 :: u64) < 2 ^ 64" using fe ok s(3) by (simp add: pmm_ok_def)
    then obtain p' where p': "pmm_free_pages phys 1 (pg_pmm pg) = Some p'"
      "repaged (insert (frame e) (free_set (pg_pmm pg))) (pg_pmm pg) p'"
    proof -
      have "{i. frame e \<le> i \<and> i < frame e + unat (1 :: u64) \<and> i < unat (pm_total_pages (pg_pmm pg))} = {frame e}"
        using fe s(3) by auto
      then show ?thesis using that pmm_free_spec [OF ok, of phys 1] fp \<open>frame e + _ < _\<close> by auto
    qed
    note r = repaged_ok [OF p'(2)]
    let ?st = "st\<lparr>vm_paging := pg\<lparr>pg_pmm := p'\<rparr>\<rparr>"
    have run: "unmap_page v st = Some (True, ?st)" using u p0 p'(1) by (simp add: unmap_page_def)
    have tp: "table_pages (pg\<lparr>pg_pmm := p'\<rparr>) = table_pages ?pg" using s(6) by (simp add: table_pages_def)
    have nt: "frame e \<notin> table_pages pg" using fe s(6) by simp
    then have used: "unat t div 4096 \<noteq> frame e" if "path_ok js" "table pg js = Some t" for js t
      using that unfolding table_pages_def by auto
    have pwf: "paging_wf (pg\<lparr>pg_pmm := p'\<rparr>)"
      using s(2) r(1,2) used fe unfolding paging_wf_def by (auto simp del: table.simps)
    have lf: "leaf (vm_paging ?st) w = (if vpn w = vpn v then None else leaf ?pg w)" for w using s(4) by simp
    have other: "vpn w \<noteq> vpn v \<and> leaf ?pg w = Some d" if "leaf (vm_paging ?st) w = Some d" for w d
      using that lf [of w] by (simp split: if_splits)
    have "vmm_wf ?st"
      unfolding vmm_wf_def
    proof (intro conjI allI impI)
      show "paging_wf (vm_paging ?st)" using pwf by simp
      fix w d assume w: "in_heap w" "leaf (vm_paging ?st) w = Some d"
      note o = other [OF w(2)] and fd = vmm_wfD(2) [OF wf w(1), of d]
      show "0 < frame d" using o fd by blast
      show "frame d < unat (pm_total_pages (pg_pmm (vm_paging ?st)))" using o fd r(3) s(3) by simp
      have "frame d \<noteq> frame e" using vmm_wfD(3) [OF wf w(1) v, of d e] o Some by blast
      then show "frame d \<notin> free_set (pg_pmm (vm_paging ?st)) \<union> table_pages (vm_paging ?st)"
        using o fd r(2) s(3) tp by simp
      fix w' d' assume w': "in_heap w'" "leaf (vm_paging ?st) w' = Some d'" "frame d = frame d'"
      show "vpn w = vpn w'" using vmm_wfD(3) [OF wf w(1) w'(1)] o other [OF w'(2)] w'(3) by blast
    qed
    then show ?thesis using run lf Some r(2) s(3)
      by (intro exI [of _ True] exI [of _ ?st]) (simp add: smp_ok_def)
  qed
qed

lemma if_merge: "(P \<longleftrightarrow> A \<or> B) \<Longrightarrow> (if B then x else if A then x else y) = (if P then x else y)"
  by auto

lemma kfree_loop_spec:
  "vmm_wf st \<Longrightarrow> smp_ok st \<Longrightarrow> (\<And>i. i < n \<Longrightarrow> in_heap (page + of_nat i * 4096)) \<Longrightarrow>
   \<exists>st'. kfree_loop n page st = Some st' \<and> vmm_wf st' \<and> smp_ok st' \<and>
     (\<forall>w. leaf (vm_paging st') w =
       (if \<exists>i < n. vpn w = vpn (page + of_nat i * 4096) then None else leaf (vm_paging st) w))"
proof (induction n arbitrary: page st)
  case (Suc n)
  obtain b st1 where 1: "unmap_page page st = Some (b, st1)" "vmm_wf st1" "smp_ok st1"
    "\<forall>w. leaf (vm_paging st1) w = (if vpn w = vpn page then None else leaf (vm_paging st) w)"
  proof -
    have "in_heap page" using Suc.prems(3) [of 0] by simp
    from unmap_page_spec [OF Suc.prems(1) this] show ?thesis using that Suc.prems(2) by blast
  qed
  obtain st2 where 2: "(if b then shoot_if_smp page st1 else Some st1) = Some st2"
    "vm_paging st2 = vm_paging st1" "smp_ok st2"
  proof (cases b)
    case True
    then show ?thesis using that shoot_if_smp_ok [OF 1(3), of page] by auto
  qed (use that 1(3) in simp)
  have wf2: "vmm_wf st2" using 1(2) unfolding vmm_wf_def 2(2) .
  have next_page: "page + 4096 + of_nat i * 4096 = page + of_nat (Suc i) * 4096" for i by (simp add: algebra_simps)
  have h: "in_heap (page + 4096 + of_nat i * 4096)" if "i < n" for i
    unfolding next_page by (rule Suc.prems(3)) (simp add: that)
  obtain st3 where 3: "kfree_loop n (page + 4096) st2 = Some st3" "vmm_wf st3" "smp_ok st3"
    "\<forall>w. leaf (vm_paging st3) w =
      (if \<exists>i < n. vpn w = vpn (page + of_nat (Suc i) * 4096) then None else leaf (vm_paging st2) w)"
    using Suc.IH [OF wf2 2(3) h] unfolding next_page by blast
  have "kfree_loop (Suc n) page st = Some st3" using 1(1) 2(1) 3(1) by simp
  moreover have "leaf (vm_paging st3) w =
      (if \<exists>i < Suc n. vpn w = vpn (page + of_nat i * 4096) then None else leaf (vm_paging st) w)" for w
  proof -
    have "(\<exists>i < Suc n. vpn w = vpn (page + of_nat i * 4096)) \<longleftrightarrow>
        vpn w = vpn page \<or> (\<exists>i < n. vpn w = vpn (page + of_nat (Suc i) * 4096))"
      unfolding Ex_less_Suc2 by simp
    then show ?thesis unfolding 3(4) [rule_format] 2(2) 1(4) [rule_format] by (rule if_merge)
  qed
  ultimately show ?case using 3 by blast
qed simp

lemma vpn_heap:
  assumes "in_heap v" "in_heap w"
  shows "vpn v = vpn w \<longleftrightarrow> frame v = frame w"
proof
  have u: "unat (vpn x) = frame x mod 2 ^ 36" for x
  proof -
    have "vpn x = take_bit 36 (drop_bit 12 x)" by (simp add: vpn_def)
    then have "unat (vpn x) = take_bit 36 (unat (drop_bit 12 x))" by (simp add: unsigned_take_bit_eq)
    then show ?thesis by (simp add: take_bit_eq_mod drop_bit_eq_div unat_div frame_def)
  qed
  have r: "\<exists>i < 2 ^ 36. frame x = 4503599626878976 + i" if "in_heap x" for x
  proof -
    have "18446744071696285696 \<le> unat x" "unat x < 18446744071830503424"
      using that by (simp_all add: in_heap_def word_le_nat_alt word_less_nat_alt)
    then have "4503599626878976 \<le> frame x" "frame x < 4503599626911744" unfolding frame_def by auto
    then show ?thesis by (intro exI [of _ "frame x - 4503599626878976"]) auto
  qed
  assume "vpn v = vpn w"
  then have "frame v mod 2 ^ 36 = frame w mod 2 ^ 36" using u [of v] u [of w] by presburger
  then show "frame v = frame w" using r [OF assms(1)] r [OF assms(2)] mod_add_inj by metis
next
  assume "frame v = frame w"
  then have "table_of v = table_of w" by (simp add: word_unat_eq_iff unat_table_of frame_def)
  then show "vpn v = vpn w" by (metis vpn_table_of)
qed

text \<open>\<open>kfree\<close> unmaps every page that the block touches, also for what else lies in those pages.\<close>

lemma kfree_spec:
  assumes wf: "vmm_wf st" and smp: "smp_ok st" and sz: "sz \<noteq> 0"
    and lo: "VMM_HEAP_BASE \<le> ptr" and hi: "unat ptr + unat sz \<le> unat VMM_HEAP_END"
  shows "\<exists>st'. kfree ptr sz st = Some st' \<and> vmm_wf st' \<and>
    (\<forall>w. in_heap w \<longrightarrow> leaf (vm_paging st') w =
      (if frame ptr \<le> frame w \<and> 4096 * frame w < unat ptr + unat sz then None else leaf (vm_paging st) w))"
proof -
  let ?a = "ptr AND NOT 0xFFF" and ?e = "(ptr + sz + 0xFFF) AND NOT 0xFFF"
  let ?n = "(unat ?e - unat ?a) div 4096"
  have lo': "18446744071696285696 \<le> unat ptr" using lo by (simp add: word_le_nat_alt)
  have hi': "unat ptr + unat sz \<le> 18446744071830503424" using hi by simp
  have "unat (ptr + sz) = unat ptr + unat sz" using hi' by (simp add: unat_add_nowrap)
  then have "unat (ptr + sz + 0xFFF) = unat ptr + unat sz + 4095"
    using hi' unat_add_nowrap [of "ptr + sz" "0xFFF"] by simp
  then have e: "unat ?e = 4096 * ((unat ptr + unat sz + 4095) div 4096)" by (simp only: unat_and_not_4095)
  have a: "unat ?a = 4096 * frame ptr" unfolding frame_def by (rule unat_and_not_4095)
  have n: "?n = (unat ptr + unat sz + 4095) div 4096 - frame ptr" unfolding e a by (simp flip: diff_mult_distrib2)
  have page: "unat (?a + of_nat i * 4096) = 4096 * (frame ptr + i) \<and> in_heap (?a + of_nat i * 4096)" if "i < ?n" for i
  proof -
    have "frame ptr + i + 1 \<le> (unat ptr + unat sz + 4095) div 4096" using that unfolding n by linarith
    then have "(frame ptr + i + 1) * 4096 \<le> unat ptr + unat sz + 4095"
      by (simp only: less_eq_div_iff_mult_less_eq zero_less_numeral)
    then have i: "4096 * (frame ptr + i) + 1 \<le> unat ptr + unat sz" by simp
    then have "unat (of_nat i * 4096 :: u64) = 4096 * i"
      using hi' unat_of_nat_lt [of "4096 * i", where 'a = 64] by (simp add: mult.commute)
    then have u: "unat (?a + of_nat i * 4096) = 4096 * (frame ptr + i)"
      using a i hi' by (subst unat_add_nowrap) simp_all
    have "18446744071696285696 \<le> 4096 * frame ptr" using lo' unfolding frame_def by auto
    then show ?thesis using u i hi' by (simp add: in_heap_def word_le_nat_alt word_less_nat_alt)
  qed
  obtain st' where st': "kfree_loop ?n ?a st = Some st'" "vmm_wf st'"
    "\<forall>w. leaf (vm_paging st') w =
       (if \<exists>i < ?n. vpn w = vpn (?a + of_nat i * 4096) then None else leaf (vm_paging st) w)"
    using kfree_loop_spec [OF wf smp, of ?n ?a] page by blast
  have in_range: "(\<exists>i < ?n. vpn w = vpn (?a + of_nat i * 4096)) \<longleftrightarrow>
      frame ptr \<le> frame w \<and> 4096 * frame w < unat ptr + unat sz" if w: "in_heap w" for w
  proof -
    have "(\<exists>i < ?n. vpn w = vpn (?a + of_nat i * 4096)) \<longleftrightarrow> (\<exists>i < ?n. frame w = frame ptr + i)"
      using vpn_heap [OF w] page by (simp add: frame_def cong: conj_cong)
    also have "\<dots> \<longleftrightarrow> frame ptr \<le> frame w \<and> frame w - frame ptr < ?n"
      by (metis add_diff_cancel_left' le_add1 le_add_diff_inverse)
    also have "\<dots> \<longleftrightarrow> frame ptr \<le> frame w \<and> 4096 * frame w < unat ptr + unat sz"
      unfolding n by auto
    finally show ?thesis .
  qed
  have "ptr \<noteq> 0" using lo by auto
  then have "kfree ptr sz st = Some st'" using sz st'(1) by (simp add: kfree_def Let_def)
  then show ?thesis using st' in_range by (intro exI [of _ st']) (simp cong: if_cong)
qed

end
