(* ===== verification/Sample_Machine.thy ===== *)
theory Sample_Machine
  imports X86_Vmm
begin

text \<open>
  A small machine on which the theorems about the bare-metal memory management are applied: eight
  pages, of which page 0 is in use and the others are free, an empty root page table behind
  them, and one processor.
\<close>

definition sample_pmm :: pmm where
  "sample_pmm = \<lparr>pm_bitmap = replicate 16384 1, pm_total_pages = 8, pm_usable_pages = 7,
     pm_free_pages = 7, pm_highest_addr = 32768\<rparr>"

lemma sample_free_set [simp]: "free_set sample_pmm = {1..7}"
proof (intro set_eqI)
  fix i
  have "page_used (replicate 16384 1) i \<longleftrightarrow> i = 0" if "i < 8"
    using that by (simp add: page_used_def bit_1_iff)
  then show "i \<in> free_set sample_pmm \<longleftrightarrow> i \<in> {1..7}" by (auto simp: free_set_def sample_pmm_def)
qed

lemma sample_pmm_ok [simp]: "pmm_ok sample_pmm"
  unfolding pmm_ok_def sample_free_set by (simp add: sample_pmm_def)

lemma sample_fits: "fits sample_pmm c s \<longleftrightarrow> c = 0 \<or> 1 \<le> s \<and> s + c \<le> 8"
proof
  assume f: "fits sample_pmm c s"
  show "c = 0 \<or> 1 \<le> s \<and> s + c \<le> 8"
  proof (cases c)
    case (Suc k)
    then show ?thesis using fits_free [OF f, of s] fits_free [OF f, of "s + k"] by auto
  qed simp
qed (auto simp: fits_def)

lemma sample_least_fit: "(LEAST s. fits sample_pmm 3 s) = 1"
  by (rule Least_equality) (auto simp: sample_fits)

definition sample_paging :: paging where
  "sample_paging = \<lparr>pg_cr3 = 32768, pg_mem = (\<lambda>_. 0), pg_pmm = sample_pmm, pg_flushed = []\<rparr>"

lemma sample_table: "table sample_paging is = (if is = [] then Some 32768 else None)"
proof (induction "is")
  case Nil
  then show ?case by (simp add: sample_paging_def table_of_def)
next
  case (Cons i "is")
  then show ?case by (simp add: sample_paging_def present_def)
qed

lemma sample_paging_wf [simp]: "paging_wf sample_paging"
  unfolding paging_wf_def sample_table by (auto simp: sample_paging_def split: if_splits)

lemma sample_leaf [simp]: "leaf sample_paging v = None"
  by (simp add: leaf_def sample_table vpath_def del: table.simps)

lemma sample_not_huge [simp]: "\<not> in_huge_page sample_paging v"
  by (simp add: in_huge_page_def huge_at_def sample_table sample_paging_def present_def del: table.simps)

definition sample_vmm :: vmm where
  "sample_vmm = vmm_init \<lparr>vm_paging = sample_paging, vm_heap_next = 0, vm_heap_lock = gmk_spinlock_init,
     vm_tlb_addr = 0, vm_tlb_ack = 0, vm_total_cpus = 0, vm_responders = 0, vm_remote_flushed = []\<rparr>"

lemma sample_vmm_simps [simp]:
  "vm_paging sample_vmm = sample_paging" "vm_heap_next sample_vmm = 0xffffffff88000000"
  "vm_total_cpus sample_vmm = 1" "vm_responders sample_vmm = 0" "vm_remote_flushed sample_vmm = []"
  by (simp_all add: sample_vmm_def vmm_init_def)

lemma sample_vmm_wf [simp]: "vmm_wf sample_vmm" "smp_ok sample_vmm"
  by (simp_all add: vmm_wf_def smp_ok_def)

definition sample_bare_metal :: bare_metal where
  "sample_bare_metal = \<lparr>bm_hhdm = 0xffff800000000000,
     bm_boot = \<lparr>ba_base = 0xffff800000800000, ba_size = 8388608, ba_offset = 5\<rparr>,
     bm_pmm = sample_pmm, bm_bytes = (\<lambda>_. 0)\<rparr>"

end
