(* ===== verification/X86_Serial.thy ===== *)
theory X86_Serial
  imports Ggmk_Prelude
begin

text \<open>
  The serial console \<open>arch/x86_64/serial.c\<close>.  What is printed is a list of characters; the wait for
  the transmitter is left out, and the console lock is held for one call of \<open>kprintf\<close>.  A format
  argument carries its C type, so that a conversion that fetches an argument of another type, or
  one that is not there, is undefined behaviour and has no result (\<open>None\<close>), as has an access
  outside the digit buffers.

  The lemmas show that the digit loops stay inside their buffers and print the decimal and
  hexadecimal notation of the number.
\<close>

section \<open>Output\<close>

definition serial_putc :: "char \<Rightarrow> string" where
  "serial_putc c = [c]"

fun serial_puts :: "string \<Rightarrow> string" where
  "serial_puts [] = []"
| "serial_puts (c # s) = (if c = CHR 0x0A then serial_putc (CHR 0x0D) else []) @ serial_putc c @ serial_puts s"

text \<open>The register writes of \<open>serial_init\<close>, as ports relative to \<open>COM1\<close> with the values.\<close>

abbreviation (input) COM1 :: u16 where "COM1 \<equiv> 0x3F8"

definition serial_init :: "(u16 \<times> u8) list" where
  "serial_init = [(COM1 + 1, 0x00), (COM1 + 3, 0x80), (COM1 + 0, 0x01), (COM1 + 1, 0x00),
     (COM1 + 3, 0x03), (COM1 + 2, 0xC7), (COM1 + 4, 0x0B)]"

text \<open>Input: the line status register and the data register are what the port returns.\<close>

definition serial_data_ready :: "u8 \<Rightarrow> bool" where
  "serial_data_ready lsr \<longleftrightarrow> lsr AND 0x01 \<noteq> 0"

definition serial_getc :: "u8 \<Rightarrow> u8 \<Rightarrow> int" where
  "serial_getc lsr rbr = (if \<not> serial_data_ready lsr then - 1 else uint rbr)"

section \<open>Numbers\<close>

definition digit_char :: "nat \<Rightarrow> char" where
  "digit_char d = (if d < 10 then char_of (48 + d) else char_of (87 + d))"

definition putc_down :: "nat \<Rightarrow> string \<Rightarrow> string" where
  "putc_down i buf = concat (map (\<lambda>c. serial_putc c) (rev (take i buf)))"

function dec_loop :: "u64 \<Rightarrow> nat \<Rightarrow> string \<Rightarrow> (nat \<times> string) exec" where
  "dec_loop val i buf =
     (if val > 0 then
        Option.bind (arr_set buf i (digit_char (unat (val mod 10)))) (\<lambda>b. dec_loop (val div 10) (Suc i) b)
      else Some (i, buf))"
  by auto

lemma unat_div_less: "0 < (val :: u64) \<Longrightarrow> 1 < unat d \<Longrightarrow> unat (val div d) < unat val"
  by (simp add: unat_div word_less_nat_alt)

termination dec_loop
  by (relation "measure (\<lambda>(val, _). unat val)") (auto intro: unat_div_less)

function hex_loop :: "u64 \<Rightarrow> nat \<Rightarrow> string \<Rightarrow> (nat \<times> string) exec" where
  "hex_loop val i buf =
     (if val > 0 then
        Option.bind (arr_set buf i (digit_char (unat (val AND 0xF)))) (\<lambda>b. hex_loop (drop_bit 4 val) (Suc i) b)
      else Some (i, buf))"
  by auto

lemma drop_bit_4: "drop_bit 4 (val :: u64) = val div 16"
  by (simp add: drop_bit_eq_div)

termination hex_loop
  by (relation "measure (\<lambda>(val, _). unat val)") (auto simp: drop_bit_4 intro: unat_div_less)

declare dec_loop.simps [simp del] hex_loop.simps [simp del]

definition print_uint64 :: "u64 \<Rightarrow> string exec" where
  "print_uint64 val =
     (if val = 0 then Some (serial_putc (CHR ''0''))
      else Option.bind (dec_loop val 0 (replicate 21 (CHR 0x00))) (\<lambda>(i, buf). Some (putc_down i buf)))"

definition print_hex64 :: "u64 \<Rightarrow> string exec" where
  "print_hex64 val =
     (if val = 0 then Some (serial_putc (CHR ''0''))
      else Option.bind (hex_loop val 0 (replicate 17 (CHR 0x00))) (\<lambda>(i, buf). Some (putc_down i buf)))"

text \<open>Negating the least 64-bit integer is signed overflow.\<close>

definition print_int64 :: "u64 \<Rightarrow> string exec" where
  "print_int64 val =
     (if sint val < 0 then
        if sint val = - (2 ^ 63) then None
        else Option.bind (print_uint64 (- val)) (\<lambda>s. Some (serial_putc (CHR ''-'') @ s))
      else print_uint64 val)"

section \<open>Formatted output\<close>

datatype karg = KStr "string option" | KInt i32 | KUint u32 | KLong u64 | KUlong u64 | KPtr addr

text \<open>One conversion: the characters it prints and the arguments that are left.\<close>

definition kconv :: "bool \<Rightarrow> char \<Rightarrow> karg list \<Rightarrow> (string \<times> karg list) exec" where
  "kconv is_long c args =
     (if c = CHR ''s'' then
        (case args of KStr s # as \<Rightarrow> Some (serial_puts (case s of None \<Rightarrow> ''(null)'' | Some s \<Rightarrow> s), as) | _ \<Rightarrow> None)
      else if c = CHR ''d'' then
        (case args of
           KLong v # as \<Rightarrow> if is_long then map_option (\<lambda>s. (s, as)) (print_int64 v) else None
         | KInt v # as \<Rightarrow> if is_long then None else map_option (\<lambda>s. (s, as)) (print_int64 (scast v))
         | _ \<Rightarrow> None)
      else if c = CHR ''u'' then
        (case args of
           KUlong v # as \<Rightarrow> if is_long then map_option (\<lambda>s. (s, as)) (print_uint64 v) else None
         | KUint v # as \<Rightarrow> if is_long then None else map_option (\<lambda>s. (s, as)) (print_uint64 (ucast v))
         | _ \<Rightarrow> None)
      else if c = CHR ''x'' then
        (case args of
           KUlong v # as \<Rightarrow> if is_long then map_option (\<lambda>s. (s, as)) (print_hex64 v) else None
         | KUint v # as \<Rightarrow> if is_long then None else map_option (\<lambda>s. (s, as)) (print_hex64 (ucast v))
         | _ \<Rightarrow> None)
      else if c = CHR ''p'' then
        (case args of KPtr v # as \<Rightarrow> map_option (\<lambda>s. (serial_puts ''0x'' @ s, as)) (print_hex64 v) | _ \<Rightarrow> None)
      else if c = CHR ''%'' then Some (serial_putc (CHR ''%''), args)
      else Some (serial_putc (CHR ''%'') @ (if is_long then serial_putc (CHR ''l'') else []) @ serial_putc c, args))"

text \<open>A format that ends inside a conversion makes the loop run past its terminator.\<close>

fun kprintf :: "string \<Rightarrow> karg list \<Rightarrow> string exec" where
  "kprintf [] args = Some []"
| "kprintf (c # fmt) args =
     (if c \<noteq> CHR ''%'' then
        map_option ((@) ((if c = CHR 0x0A then serial_putc (CHR 0x0D) else []) @ serial_putc c)) (kprintf fmt args)
      else
        case fmt of [] \<Rightarrow> None
        | d # fmt1 \<Rightarrow>
            if d = CHR ''l'' then
              (case fmt1 of [] \<Rightarrow> None
               | e # fmt2 \<Rightarrow>
                   Option.bind (kconv True e args) (\<lambda>(s, as). map_option ((@) s) (kprintf fmt2 as)))
            else Option.bind (kconv False d args) (\<lambda>(s, as). map_option ((@) s) (kprintf fmt1 as)))"

text \<open>\<open>panic\<close> prints its own message with a format loop that has no \<open>%%\<close> and no test for a null
  string, then stops the processor; only what it prints is of interest.\<close>

definition panic_conv :: "bool \<Rightarrow> char \<Rightarrow> karg list \<Rightarrow> (string \<times> karg list) exec" where
  "panic_conv is_long c args =
     (if c = CHR ''s'' then
        (case args of KStr (Some s) # as \<Rightarrow> Some (serial_puts s, as) | _ \<Rightarrow> None)
      else if c \<in> {CHR ''d'', CHR ''u'', CHR ''x'', CHR ''p''} then kconv is_long c args
      else Some (serial_putc c, args))"

fun panic_format :: "string \<Rightarrow> karg list \<Rightarrow> string exec" where
  "panic_format [] args = Some []"
| "panic_format (c # fmt) args =
     (if c \<noteq> CHR ''%'' then
        map_option ((@) ((if c = CHR 0x0A then serial_putc (CHR 0x0D) else []) @ serial_putc c)) (panic_format fmt args)
      else
        case fmt of [] \<Rightarrow> None
        | d # fmt1 \<Rightarrow>
            if d = CHR ''l'' then
              (case fmt1 of [] \<Rightarrow> None
               | e # fmt2 \<Rightarrow>
                   Option.bind (panic_conv True e args) (\<lambda>(s, as). map_option ((@) s) (panic_format fmt2 as)))
            else Option.bind (panic_conv False d args) (\<lambda>(s, as). map_option ((@) s) (panic_format fmt1 as)))"

definition panic :: "string \<Rightarrow> u64 \<Rightarrow> string \<Rightarrow> karg list \<Rightarrow> string exec" where
  "panic file line fmt args =
     Option.bind (print_uint64 line) (\<lambda>n.
     Option.bind (panic_format fmt args) (\<lambda>body.
       Some (serial_puts (CHR 0x0D # CHR 0x0A # ''!!! KERNEL PANIC !!!'' @ [CHR 0x0D, CHR 0x0A]) @
         serial_puts ''  at '' @ serial_puts file @ serial_putc (CHR '':'') @ n @
         serial_puts (CHR 0x0D # CHR 0x0A # ''  '') @ body @
         serial_puts (CHR 0x0D # CHR 0x0A # ''  SYSTEM HALTED.'' @ [CHR 0x0D, CHR 0x0A]))))"

declare kprintf.simps [simp del] panic_format.simps [simp del]

text \<open>A format is printed when its conversions find arguments of their types; the collection
  evaluates that.\<close>

named_theorems print_simps \<open>evaluation of formatted output\<close>

declare kprintf.simps [print_simps] kconv_def [print_simps]

section \<open>Notation of numbers\<close>

text \<open>The digits of a number in base \<open>b\<close>, least significant first, and its usual notation.\<close>

function lsd :: "nat \<Rightarrow> nat \<Rightarrow> string" where
  "lsd b n = (if n = 0 \<or> b < 2 then [] else digit_char (n mod b) # lsd b (n div b))"
  by auto

termination lsd
  by (relation "measure snd") auto

declare lsd.simps [simp del]

definition notation_of :: "nat \<Rightarrow> nat \<Rightarrow> string" where
  "notation_of b n = (if n = 0 then ''0'' else rev (lsd b n))"

lemma lsd_0 [simp]: "lsd b 0 = []"
  by (simp add: lsd.simps)

lemma length_lsd: "2 \<le> b \<Longrightarrow> n < b ^ k \<Longrightarrow> length (lsd b n) \<le> k"
proof (induction k arbitrary: n)
  case (Suc k)
  have "n div b < b ^ k" using Suc.prems by (simp add: less_mult_imp_div_less mult.commute)
  then show ?case using Suc.IH [of "n div b"] Suc.prems(1) by (subst lsd.simps) simp
qed simp

lemma arr_set_snoc: "arr_set (xs @ y # ys) (length xs) v = Some (xs @ v # ys)"
  by (simp add: arr_set_def)

lemma dec_loop_lsd:
  assumes "length (lsd 10 (unat v)) \<le> length ys"
  shows "dec_loop v (length xs) (xs @ ys) =
    Some (length (xs @ lsd 10 (unat v)), xs @ lsd 10 (unat v) @ drop (length (lsd 10 (unat v))) ys)"
  using assms
proof (induction "unat v" arbitrary: v xs ys rule: less_induct)
  case less
  show ?case
  proof (cases "v = 0")
    case True
    then show ?thesis by (simp add: dec_loop.simps)
  next
    case False
    then have pos: "0 < v" "unat v \<noteq> 0" by (simp_all add: word_neq_0_conv unat_gt_0)
    have l: "lsd 10 (unat v) = digit_char (unat v mod 10) # lsd 10 (unat (v div 10))"
      using pos(2) by (subst lsd.simps) (simp add: unat_div)
    obtain y zs where ys: "ys = y # zs" using less.prems l by (cases ys) auto
    have "dec_loop v (length xs) (xs @ ys) =
        dec_loop (v div 10) (length (xs @ [digit_char (unat v mod 10)])) ((xs @ [digit_char (unat v mod 10)]) @ zs)"
      using pos(1) by (subst dec_loop.simps) (simp add: ys arr_set_snoc unat_mod)
    also have "\<dots> = Some (length (xs @ lsd 10 (unat v)), xs @ lsd 10 (unat v) @ drop (length (lsd 10 (unat v))) ys)"
      using less.prems by (subst less.hyps) (simp_all add: unat_div_less pos(1) l ys)
    finally show ?thesis .
  qed
qed

lemma unat_and_15: "unat ((v :: u64) AND 0xF) = unat v mod 16"
  using unat_and_mask [of v 4] by simp

lemma hex_loop_lsd:
  assumes "length (lsd 16 (unat v)) \<le> length ys"
  shows "hex_loop v (length xs) (xs @ ys) =
    Some (length (xs @ lsd 16 (unat v)), xs @ lsd 16 (unat v) @ drop (length (lsd 16 (unat v))) ys)"
  using assms
proof (induction "unat v" arbitrary: v xs ys rule: less_induct)
  case less
  show ?case
  proof (cases "v = 0")
    case True
    then show ?thesis by (simp add: hex_loop.simps)
  next
    case False
    then have pos: "0 < v" "unat v \<noteq> 0" by (simp_all add: word_neq_0_conv unat_gt_0)
    have l: "lsd 16 (unat v) = digit_char (unat v mod 16) # lsd 16 (unat (v div 16))"
      using pos(2) by (subst lsd.simps) (simp add: unat_div)
    obtain y zs where ys: "ys = y # zs" using less.prems l by (cases ys) auto
    have "hex_loop v (length xs) (xs @ ys) =
        hex_loop (v div 16) (length (xs @ [digit_char (unat v mod 16)])) ((xs @ [digit_char (unat v mod 16)]) @ zs)"
      using pos(1) by (subst hex_loop.simps) (simp add: ys arr_set_snoc unat_and_15 drop_bit_4)
    also have "\<dots> = Some (length (xs @ lsd 16 (unat v)), xs @ lsd 16 (unat v) @ drop (length (lsd 16 (unat v))) ys)"
      using less.prems by (subst less.hyps) (simp_all add: unat_div_less pos(1) l ys)
    finally show ?thesis .
  qed
qed

lemma putc_down_eq: "putc_down i buf = rev (take i buf)"
proof -
  have "concat (map (\<lambda>c. serial_putc c) cs) = cs" for cs by (induction cs) (simp_all add: serial_putc_def)
  then show ?thesis by (simp add: putc_down_def)
qed

lemma print_uint64_eq: "print_uint64 v = Some (notation_of 10 (unat v))"
proof -
  have "unat v < 10 ^ 20" using unat64_lt [of v] by (rule less_trans) simp
  then have "length (lsd 10 (unat v)) \<le> 20" by (intro length_lsd) simp_all
  then have "dec_loop v 0 (replicate 21 (CHR 0x00)) =
      Some (length (lsd 10 (unat v)), lsd 10 (unat v) @ drop (length (lsd 10 (unat v))) (replicate 21 (CHR 0x00)))"
    using dec_loop_lsd [of v "replicate 21 (CHR 0x00)" "[]"] by simp
  then show ?thesis by (simp add: print_uint64_def notation_of_def putc_down_eq serial_putc_def unat_eq_zero)
qed

lemma print_hex64_eq: "print_hex64 v = Some (notation_of 16 (unat v))"
proof -
  have "unat v < 16 ^ 16" by simp
  then have "length (lsd 16 (unat v)) \<le> 16" by (intro length_lsd) simp_all
  then have "hex_loop v 0 (replicate 17 (CHR 0x00)) =
      Some (length (lsd 16 (unat v)), lsd 16 (unat v) @ drop (length (lsd 16 (unat v))) (replicate 17 (CHR 0x00)))"
    using hex_loop_lsd [of v "replicate 17 (CHR 0x00)" "[]"] by simp
  then show ?thesis by (simp add: print_hex64_def notation_of_def putc_down_eq serial_putc_def unat_eq_zero)
qed

declare print_uint64_eq [print_simps] print_hex64_eq [print_simps]

end
