(* ===== verification/X86_Properties.thy ===== *)
theory X86_Properties
  imports Sample_Machine X86_Serial
begin

text \<open>
  The properties of the bare-metal parts of the kernel: the ticket spinlock, the page
  allocator, the page tables, the virtual memory manager, the bare-metal HAL and the
  freestanding library routines.
\<close>

section \<open>Spinlock\<close>

text \<open>C4: Every interleaving of any number of processors (fewer than \<open>2 ^ 32\<close>) that draw tickets, spin,
  enter, and release is a run of a FIFO queue of processors; the processors that want or have
  the lock are those in the queue, and only the head of the queue is past its test, so that no
  two processors are in the critical section at the same time.\<close>

theorem spinlock_is_fifo:
  assumes "lock_run n lock_start es (l, pc)" "n < 2 ^ 32"
  shows "\<exists>q. queue_events [] es = Some q \<and> distinct q \<and> (\<forall>i. i \<in> set q \<longleftrightarrow> pc i \<noteq> Outside) \<and>
    (\<forall>i c. pc i = Holding \<or> pc i = Releasing c \<longrightarrow> (\<exists>q'. q = i # q'))"
proof -
  obtain q where q: "queue_events [] es = Some q" "lock_queue n q l pc"
    using lock_run_queue [OF assms] by auto
  then show ?thesis
    using lock_queue_outside [OF q(2)] lock_queue_inside [OF q(2) assms(2)] by (auto simp: lock_queue_def)
qed

lemma sample_lock_run:
  "lock_run 2 lock_start [Join 0, Join 1, Stay]
     (\<lparr>sl_next = 2, sl_serving = 0\<rparr>, (\<lambda>_. Outside)(0 := Holding, 1 := Spinning 1))"
proof -
  have 1: "lock_step 2 (Join 0) lock_start (\<lparr>sl_next = 1, sl_serving = 0\<rparr>, (\<lambda>_. Outside)(0 := Spinning 0))"
    unfolding lock_start_def by (rule step_draw) (simp_all add: spinlock_defs)
  have 2: "lock_step 2 (Join 1) (\<lparr>sl_next = 1, sl_serving = 0\<rparr>, (\<lambda>_. Outside)(0 := Spinning 0))
      (\<lparr>sl_next = 2, sl_serving = 0\<rparr>, (\<lambda>_. Outside)(0 := Spinning 0, 1 := Spinning 1))"
    by (rule step_draw) (simp_all add: spinlock_defs)
  have "lock_step 2 Stay (\<lparr>sl_next = 2, sl_serving = 0\<rparr>, (\<lambda>_. Outside)(0 := Spinning 0, 1 := Spinning 1))
      (\<lparr>sl_next = 2, sl_serving = 0\<rparr>, ((\<lambda>_. Outside)(0 := Spinning 0, 1 := Spinning 1))(0 := Holding))"
    by (rule step_enter) (simp_all add: spinlock_defs)
  moreover have "((\<lambda>_. Outside)(0 :: nat := Spinning 0, 1 := Spinning 1))(0 := Holding) =
      (\<lambda>_. Outside)(0 := Holding, 1 := Spinning 1)" by (rule ext) simp
  ultimately show ?thesis using run_snoc [OF run_snoc [OF run_snoc [OF run_nil 1] 2]] by simp
qed

theorem spinlock_is_fifo_witness:
  "\<exists>q. queue_events [] [Join 0, Join 1, Stay] = Some q \<and> q = [0, 1] \<and>
    (\<exists>q'. q = 0 # q')"
  using spinlock_is_fifo [OF sample_lock_run] by auto

text \<open>C17: A processor waits for those before it and no others: in whatever way the processors are
  scheduled, every release moves the ticket that is served one step closer to the waiting
  processor's, and it keeps waiting with its ticket until its turn.\<close>

theorem spinlock_bounded_overtaking:
  assumes "lock_run n lock_start es0 (l, pc)" "n < 2 ^ 32" "pc i = Spinning t"
    and "lock_run n (l, pc) es (l', pc')" "leaves es \<le> unat (t - sl_serving l)"
  shows "unat (t - sl_serving l') = unat (t - sl_serving l) - leaves es \<and>
    (if leaves es < unat (t - sl_serving l) then pc' i = Spinning t else at_head t (pc' i))"
proof -
  obtain q where q: "lock_queue n q l pc" using lock_run_queue [OF assms(1,2)] by auto
  obtain q' where q': "queue_events q es = Some q'" "lock_queue n q' l' pc'"
    using lock_run_simulates [OF assms(4,2)] q by auto
  let ?d = "unat (t - sl_serving l)" and ?k = "unat (t - sl_serving l) - leaves es"
  note p = lock_queue_position [OF q assms(2,3)]
  then have k: "?k < length q'" "q' ! ?k = i"
    using queue_events_position [OF q'(1), of ?d] assms(5) by auto
  have serve: "sl_serving l' = sl_serving l + of_nat (leaves es)"
    using lock_run_serving [OF assms(4,2)] q by simp
  have lv: "of_nat (leaves es) \<le> t - sl_serving l" "unat (of_nat (leaves es) :: u32) = leaves es"
    using assms(5) unat32_lt [of "t - sl_serving l"] by (simp_all add: word_le_nat_alt unat_of_nat_lt del: unat32_lt)
  have e: "t - sl_serving l' = (t - sl_serving l) - of_nat (leaves es)" by (simp add: serve)
  have d: "unat (t - sl_serving l') = ?k" unfolding e using lv by (simp add: unat_sub)
  show ?thesis
  proof (cases "leaves es < ?d")
    case True
    then have "pc' i = Spinning (sl_serving l' + of_nat ?k)"
      using lock_queue_ticket [OF q'(2) k(1)] k(2) by simp
    then show ?thesis using True d unfolding d [symmetric] by simp
  next
    case False
    then have "?k = 0" "sl_serving l' = t" using d assms(5) by (simp_all add: unat_eq_zero)
    then have "at_head t (pc' i)" using q'(2) k by (auto simp: lock_queue_def)
    then show ?thesis using False d by simp
  qed
qed

lemma sample_lock_release:
  "lock_run 2 (\<lparr>sl_next = 2, sl_serving = 0\<rparr>, (\<lambda>_. Outside)(0 := Holding, 1 := Spinning 1)) [Stay, Leave 0]
     (\<lparr>sl_next = 2, sl_serving = 1\<rparr>, (\<lambda>_. Outside)(1 := Spinning 1))"
proof -
  let ?l = "\<lparr>sl_next = 2, sl_serving = 0\<rparr>" and ?pc = "(\<lambda>_. Outside)(0 :: nat := Holding, 1 := Spinning 1)"
  have 1: "lock_step 2 Stay (?l, ?pc) (?l, ?pc(0 := Releasing (spinlock_load ?l)))"
    by (rule step_load) simp_all
  have "lock_step 2 (Leave 0) (?l, ?pc(0 := Releasing (spinlock_load ?l)))
      (spinlock_store 0 ?l, ?pc(0 := Releasing (spinlock_load ?l), 0 := Outside))"
    by (rule step_store) (simp_all add: spinlock_load_def)
  moreover have "?pc(0 := Releasing (spinlock_load ?l), 0 := Outside) = (\<lambda>_. Outside)(1 := Spinning 1)"
    by (rule ext) simp
  ultimately show ?thesis using run_snoc [OF run_snoc [OF run_nil 1]] by (simp add: spinlock_store_def)
qed

theorem spinlock_bounded_overtaking_witness:
  "leaves [Stay, Leave 0] = unat (1 - 0 :: u32) \<and> at_head 1 (((\<lambda>_. Outside)(1 := Spinning 1)) (1 :: nat))"
  using spinlock_bounded_overtaking [OF sample_lock_run _ _ sample_lock_release, of 1 1] by simp

section \<open>Physical pages\<close>

text \<open>C15: Allocating pages returns the first place where the requested number of contiguous pages is
  free, marks exactly those pages as used and keeps the allocator well-formed; where there is
  no such place, or no page is asked for, the result is 0 and nothing changes.\<close>

theorem pmm_alloc_first_fit:
  assumes "pmm_ok p"
  shows "if cnt \<noteq> 0 \<and> (\<exists>s. fits p (unat cnt) s)
    then \<exists>p'. pmm_alloc_pages cnt p = Some (of_nat (LEAST s. fits p (unat cnt) s) * 4096, p') \<and>
      repaged (free_set p - {(LEAST s. fits p (unat cnt) s)..<(LEAST s. fits p (unat cnt) s) + unat cnt}) p p'
    else pmm_alloc_pages cnt p = Some (0, p)"
  using pmm_alloc_fits [OF assms] pmm_alloc_fails [OF assms, of cnt] by auto

theorem pmm_alloc_first_fit_witness:
  "\<exists>p'. pmm_alloc_pages 3 sample_pmm = Some (4096, p') \<and> free_set p' = {4..7}"
proof -
  have "\<exists>s. fits sample_pmm (unat (3 :: u64)) s" by (auto simp: sample_fits)
  moreover have "{1..7} - {1..<4} = {4..7 :: nat}" by auto
  ultimately show ?thesis
    using pmm_alloc_first_fit [OF sample_pmm_ok, of 3] by (auto simp: sample_least_fit repaged_def)
qed

text \<open>From a memory map whose entries do not overlap, initialisation makes exactly the pages that
  lie inside usable entries free, and the allocator well-formed, as long as the highest address
  is below 4 GB.  From 4 GB on the loop that fills the bitmap writes behind its end.\<close>

theorem pmm_init_outcome:
  assumes "memmap_ok es" "length (pm_bitmap p) = 16384"
  shows "if unat (pmm_highest es) < 2 ^ 32
    then \<exists>p'. pmm_init (Some es) p = Some p' \<and> pmm_ok p' \<and>
      free_set p' = memmap_pages es \<inter> {..<unat (pmm_highest es) div 4096} \<and> pm_usable_pages p' = pm_free_pages p'
    else pmm_init (Some es) p = None"
  using pmm_init_small [OF assms] pmm_init_overrun [OF assms(2)] by (auto simp: not_less)

definition sample_memmap :: "limine_memmap_entry list" where
  "sample_memmap = [\<lparr>me_base = 0, me_length = 4096, me_type = 1\<rparr>, \<lparr>me_base = 4096, me_length = 28672, me_type = 0\<rparr>]"

theorem pmm_init_outcome_witness:
  "\<exists>p'. pmm_init (Some sample_memmap) pmm_static = Some p' \<and> free_set p' = {1..7}"
proof -
  have ok: "memmap_ok sample_memmap"
    by (simp add: memmap_ok_def sample_memmap_def usable_entries_def entry_in_space_def)
  have h: "pmm_highest sample_memmap = 32768"
    by (simp add: pmm_highest_def sample_memmap_def)
  have "memmap_pages sample_memmap \<inter> {..<8} = {1..7}"
    by (auto simp: memmap_pages_def sample_memmap_def usable_entries_def entry_pages_def)
  then show ?thesis using pmm_init_outcome [OF ok, of pmm_static] by (auto simp: h pmm_static_def)
qed

text \<open>The boot code's search returns the start of a longest run of free pages, with its size in
  bytes, if that run is long enough.\<close>

theorem pmm_find_longest:
  assumes "pmm_ok p"
  shows "\<exists>s l. fits p l s \<and> (\<forall>c s'. fits p c s' \<longrightarrow> c \<le> l) \<and>
    pmm_find_contiguous min_size p =
      Some (if of_nat l < (min_size + 4095) div 4096 then (0, None)
            else (of_nat s * 4096, Some (of_nat l * 4096)))"
  using pmm_find_spec [OF assms] .

theorem pmm_find_longest_witness:
  "pmm_find_contiguous 8192 sample_pmm = Some (4096, Some 28672)"
proof -
  obtain s l where *: "fits sample_pmm l s" "\<forall>c s'. fits sample_pmm c s' \<longrightarrow> c \<le> l"
    "pmm_find_contiguous 8192 sample_pmm =
      Some (if of_nat l < ((8192 :: u64) + 4095) div 4096 then (0, None) else (of_nat s * 4096, Some (of_nat l * 4096)))"
    using pmm_find_longest [OF sample_pmm_ok, of 8192] by auto
  have "fits sample_pmm 7 1" by (simp add: sample_fits)
  then have "7 \<le> l" using *(2) by blast
  then have "l = 7" "s = 1" using *(1) by (auto simp: sample_fits)
  then show ?thesis using *(3) by simp
qed

text \<open>What the bare-metal HAL allocates is a zeroed block of pages that were free, at its address in
  the linear map of physical memory, and freeing the block gives back exactly those pages.\<close>

theorem hal_page_roundtrip:
  assumes "pmm_ok (bm_pmm s)" "0 \<notin> free_set (bm_pmm s)" "sz \<noteq> 0" "unat sz < 2 ^ 63"
    and "fits (bm_pmm s) ((unat sz + 4095) div 4096) i" "bm_hhdm s \<le> 0xfffffffe00000000"
  shows "\<exists>j ptr s1 s2. bm_hal_page_alloc sz al s = Some (ptr, s1) \<and> ptr = phys_to_virt s (of_nat j * 4096) \<and>
    {j..<j + (unat sz + 4095) div 4096} \<subseteq> free_set (bm_pmm s) \<and>
    free_set (bm_pmm s1) = free_set (bm_pmm s) - {j..<j + (unat sz + 4095) div 4096} \<and>
    get_bytes (bm_bytes s1) ptr (unat sz) = replicate (unat sz) 0 \<and>
    bm_hal_page_free ptr sz s1 = Some s2 \<and> free_set (bm_pmm s2) = free_set (bm_pmm s)"
proof -
  let ?n = "(unat sz + 4095) div 4096"
  obtain j p' where j: "bm_hal_page_alloc sz al s = Some (phys_to_virt s (of_nat j * 4096),
        s\<lparr>bm_pmm := p', bm_bytes := put_bytes (phys_to_virt s (of_nat j * 4096)) (replicate (unat sz) 0) (bm_bytes s)\<rparr>)"
    "0 < j" "fits (bm_pmm s) ?n j" "repaged (free_set (bm_pmm s) - {j..<j + ?n}) (bm_pmm s) p'"
    using bm_page_alloc_spec [OF assms(1-5)] by blast
  let ?ptr = "phys_to_virt s (of_nat j * 4096)" and ?m = "bm_bytes s"
  let ?s1 = "s\<lparr>bm_pmm := p', bm_bytes := put_bytes ?ptr (replicate (unat sz) 0) ?m\<rparr>"
  have n: "0 < ?n" using assms(3) by (simp add: div_greater_zero_iff unat_gt_0 flip: unat_gt_0)
  have top: "j + ?n \<le> unat (pm_total_pages (bm_pmm s))" using fits_inside [OF j(3) n] .
  then have "j < 2 ^ 20" using n assms(1) by (simp add: pmm_ok_def)
  then have u: "unat (of_nat j * 4096 :: u64) = 4096 * j" "4096 * j < 2 ^ 32" by (simp_all add: unat_page_addr)
  have "unat (bm_hhdm s) \<le> 0xfffffffe00000000" using assms(6) by (simp add: word_le_nat_alt)
  then have "unat ?ptr = 4096 * j + unat (bm_hhdm s)"
    using u unfolding phys_to_virt_def by (subst unat_add_nowrap) simp_all
  then have "?ptr \<noteq> 0" using j(2) by auto
  moreover have "phys_to_virt ?s1 (of_nat j * 4096) = ?ptr" by (simp add: phys_to_virt_def)
  ultimately obtain p2 where p2: "bm_hal_page_free ?ptr sz ?s1 = Some (?s1\<lparr>bm_pmm := p2\<rparr>)"
    "repaged (free_set p' \<union> {j..<j + ?n}) p' p2"
    using bm_page_free_spec [of ?s1 ?n j sz] repaged_ok [OF j(4)] n top assms(4) by auto
  have "free_set p' \<union> {j..<j + ?n} = free_set (bm_pmm s)"
    using repaged_ok(2) [OF j(4)] j(3) by (auto simp: fits_def)
  moreover have "get_bytes (put_bytes ?ptr (replicate (unat sz) 0) ?m) ?ptr (unat sz) = replicate (unat sz) 0"
    using get_bytes_put_bytes [of "replicate (unat sz) 0" ?ptr ?m] by simp
  ultimately show ?thesis using j p2 repaged_ok(2) [OF j(4)] repaged_ok(2) [OF p2(2)]
    by (intro exI [of _ j] exI [of _ ?ptr] exI [of _ ?s1] exI [of _ "?s1\<lparr>bm_pmm := p2\<rparr>"]) (simp add: fits_def)
qed

theorem hal_page_roundtrip_witness:
  "\<exists>ptr s1 s2. bm_hal_page_alloc 5000 64 sample_bare_metal = Some (ptr, s1) \<and>
    bm_hal_page_free ptr 5000 s1 = Some s2 \<and> free_set (bm_pmm s2) = {1..7}"
proof -
  have "fits (bm_pmm sample_bare_metal) ((unat (5000 :: u64) + 4095) div 4096) 1"
    by (simp add: sample_bare_metal_def sample_fits)
  from hal_page_roundtrip [OF _ _ _ _ this, of 64] show ?thesis
    by (auto simp: sample_bare_metal_def)
qed

section \<open>Library routines\<close>

text \<open>C26: \<open>memmove\<close> leaves memory as if the source had first been read as a whole and then written to
  the destination, also when the two regions overlap, as long as neither wraps around the
  address space; \<open>memcpy\<close> does the same if the regions are disjoint.\<close>

theorem memmove_equals_buffered_copy:
  assumes "unat src + unat n \<le> 2 ^ 64" "unat dst + unat n \<le> 2 ^ 64"
  shows "memmove dst src n m = (dst, put_bytes dst (get_bytes m src (unat n)) m) \<and>
    (unat n \<le> unat (dst - src) \<longrightarrow> memcpy dst src n m = memmove dst src n m)"
  using memmove_put [OF assms, of m] copy_up_put [of "unat n" dst src m] by (auto simp: memcpy_def)

theorem memmove_equals_buffered_copy_witness:
  "memmove 1001 1000 3 (\<lambda>a. ucast a) =
    (1001, put_bytes 1001 (get_bytes (\<lambda>a. ucast a) 1000 3) (\<lambda>a. ucast a))"
  using memmove_equals_buffered_copy [of 1000 3 1001 "\<lambda>a. ucast a"] by simp

text \<open>The freestanding \<open>strncpy\<close> and \<open>strncmp\<close> compute, on the strings in memory, the functions on
  character lists that the channel registry's model uses.\<close>

theorem string_routines_refine_lists:
  assumes "byte_range dst (unat n) \<inter> byte_range src (unat n) = {}"
  shows "(\<exists>m'. strncpy dst src n m = (dst, m') \<and>
      mem_string m' dst (unat n) = c_strncpy (mem_string m dst (unat n)) (mem_string m src (unat n)) (unat n) \<and>
      (\<forall>x. x \<notin> byte_range dst (unat n) \<longrightarrow> m' x = m x)) \<and>
    (strncmp dst src n m = 0 \<longleftrightarrow> c_strneq (mem_string m dst (unat n)) (mem_string m src (unat n)) (unat n))"
proof -
  obtain p m' where s: "strncpy dst src n m = (p, m')" by fastforce
  show ?thesis using strncpy_string [OF assms s] s strncmp_eq_0_iff [of dst src n m] by auto
qed

theorem string_routines_refine_lists_witness:
  "strncmp 100 200 4 (\<lambda>a. if a = 101 then 7 else 65) = 0 \<longleftrightarrow>
   c_strneq (mem_string (\<lambda>a. if a = 101 then 7 else 65) 100 4) (mem_string (\<lambda>a. if a = 101 then 7 else 65) 200 4) 4"
proof -
  have "byte_range 100 4 \<inter> byte_range 200 4 = ({} :: u64 set)"
  proof (rule ccontr)
    assume "byte_range 100 4 \<inter> byte_range 200 4 \<noteq> ({} :: u64 set)"
    then obtain x :: u64 where x: "unat (x - 100) < 4" "unat (x - 200) < 4" by (auto simp: byte_range_def)
    have "x - 100 = (x - 200) + 100" by simp
    then have "unat (x - 100) = unat (x - 200) + 100" using x(2) unat_add_nowrap [of "x - 200" 100] by simp
    then show False using x(1) by simp
  qed
  then show ?thesis using string_routines_refine_lists [of 100 4 200] by simp
qed

section \<open>Virtual memory\<close>

text \<open>C5: Mapping a 4 KB page outside huge pages succeeds when three pages are free for tables; afterwards
  a walk for any address in that page ends at the new entry, the translation of every other
  page is what it was, the tables are still a tree in pages that are not free, and the stale
  TLB entry is invalidated.\<close>

theorem paging_map_one_page:
  assumes "paging_wf st" "3 \<le> card (free_set (pg_pmm st))" "\<not> in_huge_page st v" "present f"
  shows "\<exists>st'. paging_map v p f st = Some st' \<and> paging_wf st' \<and> pg_flushed st' = v # pg_flushed st \<and>
    (\<forall>w. vpn w = vpn v \<longrightarrow> leaf st' w = Some (table_of p OR f)) \<and>
    (\<forall>w. vpn w \<noteq> vpn v \<longrightarrow> leaf st' w = leaf st w)"
proof -
  have "present (table_of p OR f)" using assms(4) by (simp add: present_bit bit_simps)
  then show ?thesis using paging_map_spec [OF assms(1-3), of p f] by (auto simp: Let_def)
qed

theorem paging_map_one_page_witness:
  "\<exists>st'. paging_map 0xffffffff88000000 20480 3 sample_paging = Some st' \<and>
    leaf st' 0xffffffff88000ABC = Some (table_of 20480 OR 3) \<and> leaf st' 0xffffffff88001000 = None"
proof -
  have fr: "3 \<le> card (free_set (pg_pmm sample_paging))" by (simp add: sample_paging_def)
  have "vpn 0xffffffff88000ABC = vpn 0xffffffff88000000" "vpn 0xffffffff88001000 \<noteq> vpn 0xffffffff88000000"
    by (simp_all add: vpn_def take_bit_eq_mod drop_bit_eq_div)
  then show ?thesis
    using paging_map_one_page [OF sample_paging_wf fr sample_not_huge, of 3 "0xffffffff88000000" 20480]
    by (auto simp: present_def)
qed

text \<open>C25: Unmapping a page that was just mapped returns the physical page, if the flags fit in the low
  bits, and restores the translation of every address of the page to nothing and of every other
  address to what it was.\<close>

theorem paging_map_unmap:
  assumes "paging_wf st" "3 \<le> card (free_set (pg_pmm st))" "\<not> in_huge_page st v"
    and "present f" "unat f < 4096" "paging_map v p f st = Some st1" "paging_unmap v st1 = (phys, st2)"
  shows "phys = table_of p \<and> paging_wf st2 \<and>
    (\<forall>w. leaf st2 w = (if vpn w = vpn v then None else leaf st w))"
proof -
  have "present (table_of p OR f)" using assms(4) by (simp add: present_bit bit_simps)
  then have l: "paging_wf st1" "leaf st1 w = (if vpn w = vpn v then Some (table_of p OR f) else leaf st w)" for w
    using paging_map_spec [OF assms(1-3), of p f] assms(6) by (auto simp: Let_def)
  note u = paging_unmap_spec [OF l(1) assms(7)]
  have "phys = table_of (table_of p OR f)" using u(1) l(2) [of v] by simp
  then have "phys = table_of p" using assms(5) by (simp add: table_of_OR table_of_small table_of_aligned)
  then show ?thesis using u(2,4) l(2) by auto
qed

theorem paging_map_unmap_witness:
  "\<exists>st1 st2. paging_map 0xffffffff88000000 20480 3 sample_paging = Some st1 \<and>
    paging_unmap 0xffffffff88000000 st1 = (table_of 20480, st2) \<and> paging_wf st2"
proof -
  have fr: "3 \<le> card (free_set (pg_pmm sample_paging))" by (simp add: sample_paging_def)
  obtain st1 where st1: "paging_map 0xffffffff88000000 20480 3 sample_paging = Some st1"
    using paging_map_spec [OF sample_paging_wf fr sample_not_huge] by blast
  obtain phys st2 where st2: "paging_unmap 0xffffffff88000000 st1 = (phys, st2)" by fastforce
  show ?thesis
    using paging_map_unmap [OF sample_paging_wf fr sample_not_huge _ _ st1 st2] st1 st2 by (auto simp: present_def)
qed

text \<open>A page fault in the kernel heap is answered with a frame that was free: it is zeroed, the
  faulting page is mapped to it, no other page changes, and the frame is used neither for a
  table nor for another page of the heap.\<close>

theorem demand_page_fresh_frame:
  assumes "vmm_wf st" "in_heap v" "leaf (vm_paging st) v = None" "\<not> in_huge_page (vm_paging st) v"
    and "4 \<le> card (free_set (pg_pmm (vm_paging st)))"
  shows "\<exists>st' phys. vmm_demand_page v st = Some (0, st') \<and> vmm_wf st' \<and>
    frame phys \<in> free_set (pg_pmm (vm_paging st)) \<and> frame phys \<notin> free_set (pg_pmm (vm_paging st')) \<and>
    (\<forall>i. unat i < 512 \<longrightarrow> pg_mem (vm_paging st') (slot phys i) = 0) \<and>
    (\<forall>w. leaf (vm_paging st') w = (if vpn w = vpn v then Some (phys OR 1 OR 2) else leaf (vm_paging st) w))"
  using demand_page_spec [OF assms] by blast

theorem demand_page_fresh_frame_witness:
  "\<exists>st'. vmm_demand_page 0xffffffff88000010 sample_vmm = Some (0, st') \<and> vmm_wf st'"
proof -
  have "in_heap 0xffffffff88000010" by (simp add: in_heap_def)
  moreover have "4 \<le> card (free_set (pg_pmm (vm_paging sample_vmm)))" by (simp add: sample_paging_def)
  ultimately show ?thesis using demand_page_fresh_frame [of sample_vmm "0xffffffff88000010"] by auto
qed







text \<open>The boot allocator returns a zeroed block inside its pool at the next aligned offset and
  advances to its end, or fails without a change, if alignment and size do not make the
  offset wrap around.\<close>

theorem boot_alloc_block:
  assumes "boot_alloc_ok ba" "k < 64" "unat (ba_offset ba) + 2 ^ k + unat sz < 2 ^ 64" "ba_base ba \<noteq> 0" "sz \<noteq> 0"
  shows "(\<exists>a. unat (ba_offset ba) \<le> a \<and> a mod 2 ^ k = 0 \<and> a + unat sz \<le> unat (ba_size ba) \<and>
      boot_aligned_alloc (2 ^ k) sz ba m = (ba_base ba + of_nat a, ba\<lparr>ba_offset := of_nat (a + unat sz)\<rparr>,
        put_bytes (ba_base ba + of_nat a) (replicate (unat sz) 0) m) \<and>
      boot_alloc_ok (ba\<lparr>ba_offset := of_nat (a + unat sz)\<rparr>)) \<or>
    boot_aligned_alloc (2 ^ k) sz ba m = (0, ba, m)"
proof -
  let ?a = "align_up (unat (ba_offset ba)) (2 ^ k)"
  note e = boot_aligned_alloc_eq [OF assms(2-5), of m]
  show ?thesis
  proof (cases "?a + unat sz \<le> unat (ba_size ba)")
    case True
    then have lt: "?a + unat sz < 2 ^ 64" using unat64_lt [of "ba_size ba"] by (simp del: unat64_lt)
    then have "boot_alloc_ok (ba\<lparr>ba_offset := of_nat (?a + unat sz)\<rparr>)"
      using assms(1) True by (simp add: boot_alloc_ok_def word_le_nat_alt unat_of_nat_lt del: of_nat_add)
    then show ?thesis using True e align_up_ge [of "2 ^ k" "unat (ba_offset ba)"]
      by (intro disjI1 exI [of _ ?a]) (simp add: align_up_def)
  next
    case False
    then show ?thesis using e by simp
  qed
qed

theorem boot_alloc_block_witness:
  "(\<exists>a. 5 \<le> a \<and> a mod 8 = 0 \<and> a + 24 \<le> (8388608 :: nat)) \<or>
    boot_aligned_alloc 8 24 (bm_boot sample_bare_metal) (\<lambda>_. 0) = (0, bm_boot sample_bare_metal, \<lambda>_. 0)"
  using boot_alloc_block [of "bm_boot sample_bare_metal" 3 24 "\<lambda>_. 0"]
  by (auto simp: sample_bare_metal_def boot_alloc_ok_def word_le_nat_alt)

end
