(* ===== verification/Cli_Parse.thy ===== *)
theory Cli_Parse
  imports X86_Serial
begin

text \<open>
  The text handling of the kernel monitor \<open>arch/x86_64/cli.c\<close>: numbers, string comparison and the
  split of a line into arguments.  A C string that is only read is the list of its characters
  before the terminator; the line buffer is an array of characters, and an argument is the
  offset at which its string begins in the buffer.

  The lemmas show that the number parser inverts the printing of numbers, and that the arguments
  are the words of the line as long as there are fewer than eight.
\<close>

section \<open>Numbers\<close>

definition hex_digit :: "char \<Rightarrow> u64 option" where
  "hex_digit c =
     (let n = of_char c :: nat
      in if 48 \<le> n \<and> n \<le> 57 then Some (of_nat (n - 48))
         else if 97 \<le> n \<and> n \<le> 102 then Some (of_nat (n - 97 + 10))
         else if 65 \<le> n \<and> n \<le> 70 then Some (of_nat (n - 65 + 10))
         else None)"

fun parse_hex :: "u64 \<Rightarrow> string \<Rightarrow> u64 \<times> bool" where
  "parse_hex val [] = (val, True)"
| "parse_hex val (c # s) =
     (case hex_digit c of None \<Rightarrow> (0, False) | Some d \<Rightarrow> parse_hex (push_bit 4 val OR d) s)"

fun parse_dec :: "u64 \<Rightarrow> string \<Rightarrow> u64 \<times> bool" where
  "parse_dec val [] = (val, True)"
| "parse_dec val (c # s) =
     (let n = of_char c :: nat
      in if n < 48 \<or> n > 57 then (0, False) else parse_dec (val * 10 + of_nat (n - 48)) s)"

text \<open>The result is the value with the flag that \<open>ok\<close> is set to.\<close>

definition parse_u64 :: "string \<Rightarrow> u64 \<times> bool" where
  "parse_u64 s =
     (case s of
        [] \<Rightarrow> (0, False)
      | c0 # s1 \<Rightarrow>
          (case s1 of
             c1 # s2 \<Rightarrow>
               if c0 = CHR ''0'' \<and> (c1 = CHR ''x'' \<or> c1 = CHR ''X'') then
                 (if s2 = [] then (0, False) else parse_hex 0 s2)
               else parse_dec 0 s
           | [] \<Rightarrow> parse_dec 0 s))"

section \<open>Strings\<close>

fun str_eq :: "string \<Rightarrow> string \<Rightarrow> bool" where
  "str_eq (a # as) (b # bs) = (if a \<noteq> b then False else str_eq as bs)"
| "str_eq as bs \<longleftrightarrow> as = [] \<and> bs = []"

fun str_len :: "string \<Rightarrow> int" where
  "str_len [] = 0"
| "str_len (c # s) = 1 + str_len s"

definition print_padded :: "string \<Rightarrow> int \<Rightarrow> string exec" where
  "print_padded s width =
     Option.bind (kprintf ''%s'' [KStr (Some s)]) (\<lambda>out.
       Some (out @ concat (map (\<lambda>_. serial_putc (CHR '' '')) [1..width - str_len s])))"

section \<open>Arguments\<close>

abbreviation (input) CLI_LINE_MAX :: nat where "CLI_LINE_MAX \<equiv> 256"
abbreviation (input) CLI_ARGC_MAX :: nat where "CLI_ARGC_MAX \<equiv> 8"

definition is_blank :: "char \<Rightarrow> bool" where
  "is_blank c \<longleftrightarrow> c = CHR '' '' \<or> c = CHR 0x09"

text \<open>The loop over the line, from index \<open>i\<close> with \<open>n\<close> characters left: blanks become terminators, the
  first character of a token is recorded.\<close>

fun tokenize :: "nat \<Rightarrow> nat \<Rightarrow> string \<Rightarrow> nat list \<Rightarrow> bool \<Rightarrow> (string \<times> nat list) exec" where
  "tokenize 0 i line argv in_token = Some (line, argv)"
| "tokenize (Suc n) i line argv in_token =
     (if \<not> length argv < CLI_ARGC_MAX then Some (line, argv)
      else
        Option.bind (arr_get line i) (\<lambda>c.
        if is_blank c then Option.bind (arr_set line i (CHR 0x00)) (\<lambda>line. tokenize n (Suc i) line argv False)
        else if \<not> in_token then tokenize n (Suc i) line (argv @ [i]) True
        else tokenize n (Suc i) line argv in_token))"

text \<open>The string that a pointer into the buffer denotes.\<close>

definition cstr :: "string \<Rightarrow> nat \<Rightarrow> string" where
  "cstr line off = takeWhile (\<lambda>c. c \<noteq> CHR 0x00) (drop off line)"

section \<open>Printing and parsing numbers\<close>

lemma digit_char_code:
  "d < 16 \<Longrightarrow> (of_char (digit_char d) :: nat) = (if d < 10 then 48 + d else 87 + d)"
  by (simp add: digit_char_def take_bit_nat_eq_self)

lemma hex_digit_char: "d < 16 \<Longrightarrow> hex_digit (digit_char d) = Some (of_nat d)"
  by (auto simp: hex_digit_def digit_char_code Let_def)

lemma hex_step: "d < 16 \<Longrightarrow> push_bit 4 (val :: u64) OR of_nat d = val * 16 + of_nat d"
proof -
  assume d: "d < 16"
  have "push_bit 4 val OR of_nat d = push_bit 4 val + (of_nat d :: u64)"
  proof (rule disjunctive_add [symmetric])
    fix n
    have "take_bit 4 (of_nat d :: u64) = of_nat d" using d by (simp add: take_bit_of_nat take_bit_nat_eq_self)
    then have "bit (of_nat d :: u64) n \<Longrightarrow> n < 4" by (metis bit_take_bit_iff)
    then show "\<not> bit (push_bit 4 val) n \<or> \<not> bit (of_nat d :: u64) n" by (auto simp: bit_push_bit_iff)
  qed
  then show ?thesis by (simp add: push_bit_eq_mult)
qed

text \<open>Parsing goes through the digits most significant first.\<close>

lemma parse_hex_append:
  "\<forall>c\<in>set s. hex_digit c \<noteq> None \<Longrightarrow> parse_hex val (s @ t) = parse_hex (fst (parse_hex val s)) t"
  by (induction s arbitrary: val) auto

lemma parse_dec_append:
  "\<forall>c\<in>set s. 48 \<le> (of_char c :: nat) \<and> of_char c \<le> (57 :: nat) \<Longrightarrow>
   parse_dec val (s @ t) = parse_dec (fst (parse_dec val s)) t"
  by (induction s arbitrary: val) (auto simp: Let_def)

lemma lsd_digits: "2 \<le> b \<Longrightarrow> b \<le> 16 \<Longrightarrow> c \<in> set (lsd b n) \<Longrightarrow> \<exists>d<b. c = digit_char d"
proof (induction b n rule: lsd.induct)
  case (1 b n)
  show ?case
  proof (cases "n = 0")
    case False
    then have s: "set (lsd b n) = insert (digit_char (n mod b)) (set (lsd b (n div b)))"
      using 1 by (subst lsd.simps) simp
    have m: "n mod b < b" using 1 by simp
    show ?thesis
    proof (cases "c = digit_char (n mod b)")
      case True
      then show ?thesis using m by blast
    next
      case False
      then show ?thesis using 1 s \<open>n \<noteq> 0\<close> by auto
    qed
  qed (use 1 in simp)
qed

lemma of_nat_digits: "of_nat (n div numeral b) * numeral b + of_nat (n mod numeral b) = (of_nat n :: u64)"
  by (metis div_mult_mod_eq of_nat_add of_nat_mult of_nat_numeral)

lemma parse_hex_lsd: "parse_hex 0 (rev (lsd 16 n)) = (of_nat n, True)"
proof (induction "16 :: nat" n rule: lsd.induct)
  case (1 n)
  show ?case
  proof (cases "n = 0")
    case False
    then have l: "lsd 16 n = digit_char (n mod 16) # lsd 16 (n div 16)" by (subst lsd.simps) simp
    have "\<forall>c\<in>set (rev (lsd 16 (n div 16))). hex_digit c \<noteq> None"
      using lsd_digits [of 16 _ "n div 16"] by (fastforce simp: hex_digit_char)
    then have "parse_hex 0 (rev (lsd 16 n)) = parse_hex (of_nat (n div 16)) [digit_char (n mod 16)]"
      using 1 False by (simp add: l parse_hex_append)
    also have "\<dots> = (of_nat (n div 16) * 16 + of_nat (n mod 16), True)"
      by (simp add: hex_digit_char hex_step)
    also have "of_nat (n div 16) * 16 + of_nat (n mod 16) = (of_nat n :: u64)" by (rule of_nat_digits)
    finally show ?thesis .
  qed simp
qed

lemma parse_dec_lsd: "parse_dec 0 (rev (lsd 10 n)) = (of_nat n, True)"
proof (induction "10 :: nat" n rule: lsd.induct)
  case (1 n)
  show ?case
  proof (cases "n = 0")
    case False
    then have l: "lsd 10 n = digit_char (n mod 10) # lsd 10 (n div 10)" by (subst lsd.simps) simp
    have "\<forall>c\<in>set (rev (lsd 10 (n div 10))). 48 \<le> (of_char c :: nat) \<and> of_char c \<le> (57 :: nat)"
      using lsd_digits [of 10 _ "n div 10"] by (fastforce simp: digit_char_code)
    then have "parse_dec 0 (rev (lsd 10 n)) = parse_dec (of_nat (n div 10)) [digit_char (n mod 10)]"
      using 1 False by (simp add: l parse_dec_append)
    also have "\<dots> = (of_nat (n div 10) * 10 + of_nat (n mod 10), True)"
      by (simp add: digit_char_code Let_def)
    also have "of_nat (n div 10) * 10 + of_nat (n mod 10) = (of_nat n :: u64)" by (rule of_nat_digits)
    finally show ?thesis .
  qed simp
qed


lemma lsd_neq_Nil: "0 < n \<Longrightarrow> 2 \<le> b \<Longrightarrow> lsd b n \<noteq> []"
  by (subst lsd.simps) simp

lemma parse_u64_dec: "parse_u64 (notation_of 10 (unat v)) = (v, True)"
proof (cases "unat v = 0")
  case True
  then show ?thesis by (simp add: notation_of_def parse_u64_def unat_eq_zero)
next
  case False
  obtain c s where cs: "rev (lsd 10 (unat v)) = c # s"
    using False by (cases "rev (lsd 10 (unat v))") (simp_all add: lsd_neq_Nil)
  have "c' \<noteq> CHR ''x'' \<and> c' \<noteq> CHR ''X''" if c': "c' \<in> set (rev (lsd 10 (unat v)))" for c'
  proof -
    obtain d where "d < 10" "c' = digit_char d" using lsd_digits [of 10 c' "unat v"] c' by auto
    then have "(of_char c' :: nat) < 58" by (simp add: digit_char_code)
    then show ?thesis by auto
  qed
  then have "parse_u64 (rev (lsd 10 (unat v))) = parse_dec 0 (rev (lsd 10 (unat v)))"
    unfolding parse_u64_def cs by (auto split: list.splits)
  then show ?thesis using False by (simp add: notation_of_def parse_dec_lsd)
qed

lemma parse_u64_hex: "x = CHR ''x'' \<or> x = CHR ''X'' \<Longrightarrow> parse_u64 (CHR ''0'' # x # notation_of 16 (unat v)) = (v, True)"
proof (cases "unat v = 0")
  case True
  moreover assume "x = CHR ''x'' \<or> x = CHR ''X''"
  moreover have "hex_digit (CHR ''0'') = Some 0" by (simp add: hex_digit_def)
  ultimately show ?thesis by (simp add: notation_of_def parse_u64_def unat_eq_zero)
next
  case False
  moreover assume "x = CHR ''x'' \<or> x = CHR ''X''"
  moreover have "lsd 16 (unat v) \<noteq> []" using False by (simp add: lsd_neq_Nil)
  ultimately show ?thesis by (simp add: notation_of_def parse_u64_def parse_hex_lsd)
qed

lemma str_eq_iff: "str_eq a b \<longleftrightarrow> a = b"
  by (induction a b rule: str_eq.induct) auto


section \<open>Words of a line\<close>

text \<open>Where the maximal runs of characters other than blanks begin, and the run at such a place.\<close>

definition word_start :: "string \<Rightarrow> nat \<Rightarrow> bool" where
  "word_start s i \<longleftrightarrow> \<not> is_blank (s ! i) \<and> (i = 0 \<or> is_blank (s ! (i - 1)))"

definition starts :: "string \<Rightarrow> nat \<Rightarrow> nat list" where
  "starts s n = filter (word_start s) [0..<n]"

definition word_at :: "string \<Rightarrow> nat \<Rightarrow> string" where
  "word_at s i = takeWhile (\<lambda>c. \<not> is_blank c) (drop i s)"

text \<open>The line after the first \<open>m\<close> characters have been looked at.\<close>

definition cut_line :: "string \<Rightarrow> nat \<Rightarrow> string \<Rightarrow> string" where
  "cut_line s m rest = map (\<lambda>c. if is_blank c then CHR 0x00 else c) (take m s) @ drop m s @ rest"

lemma starts_Suc: "starts s (Suc n) = starts s n @ (if word_start s n then [n] else [])"
  by (simp add: starts_def)

lemma starts_prefix: "m \<le> n \<Longrightarrow> \<exists>l. starts s n = starts s m @ l"
  by (induction n) (auto simp: le_Suc_eq starts_Suc)

lemma cut_line_nth: "i < length s \<Longrightarrow> cut_line s i rest ! i = s ! i"
  by (simp add: cut_line_def nth_append)

lemma cut_line_Suc:
  assumes "i < length s"
  shows "cut_line s (Suc i) rest = (if is_blank (s ! i) then (cut_line s i rest)[i := CHR 0x00] else cut_line s i rest)"
proof -
  have "drop i s = s ! i # drop (Suc i) s" using assms by (simp add: Cons_nth_drop_Suc)
  then show ?thesis using assms by (simp add: cut_line_def take_Suc_conv_app_nth list_update_append)
qed

lemma length_cut_line [simp]: "length (cut_line s m rest) = length s + length rest"
  by (simp add: cut_line_def)

lemma tokenize_stops:
  assumes "length (starts s i) \<le> 8" "length (starts s i) = 8 \<longrightarrow> last (starts s i) = i - 1" "i + n = length s"
  shows "\<exists>m. tokenize n i (cut_line s i rest) (starts s i) (0 < i \<and> \<not> is_blank (s ! (i - 1))) =
      Some (cut_line s m rest, starts s m) \<and> i \<le> m \<and> m \<le> length s \<and> (m = length s \<or> length (starts s m) = 8)
    \<and> length (starts s m) \<le> 8 \<and> (length (starts s m) = 8 \<longrightarrow> last (starts s m) = m - 1 \<or> m = i)"
  using assms
proof (induction n arbitrary: i)
  case 0
  then show ?case by auto
next
  case (Suc n)
  show ?case
  proof (cases "length (starts s i) = 8")
    case True
    then show ?thesis using Suc.prems by (intro exI [of _ i]) auto
  next
    case False
    then have lt: "length (starts s i) < 8" "i < length s" using Suc.prems by auto
    have "tokenize (Suc n) i (cut_line s i rest) (starts s i) (0 < i \<and> \<not> is_blank (s ! (i - 1))) =
        tokenize n (Suc i) (cut_line s (Suc i) rest) (starts s (Suc i)) (0 < Suc i \<and> \<not> is_blank (s ! (Suc i - 1)))"
      using lt by (auto simp: cut_line_nth cut_line_Suc exec_simps starts_Suc word_start_def)
    moreover have "length (starts s (Suc i)) \<le> 8" "length (starts s (Suc i)) = 8 \<longrightarrow> last (starts s (Suc i)) = Suc i - 1"
      using lt by (auto simp: starts_Suc)
    ultimately obtain m where "tokenize (Suc n) i (cut_line s i rest) (starts s i) (0 < i \<and> \<not> is_blank (s ! (i - 1))) =
        Some (cut_line s m rest, starts s m)" "Suc i \<le> m" "m \<le> length s" "m = length s \<or> length (starts s m) = 8"
        "length (starts s m) \<le> 8" "length (starts s m) = 8 \<longrightarrow> last (starts s m) = m - 1 \<or> m = Suc i"
      using Suc.IH [of "Suc i"] Suc.prems(3) by auto
    moreover from this have "length (starts s m) = 8 \<longrightarrow> last (starts s m) = m - 1"
      using \<open>length (starts s (Suc i)) = 8 \<longrightarrow> last (starts s (Suc i)) = Suc i - 1\<close> by auto
    ultimately show ?thesis by (intro exI [of _ m]) auto
  qed
qed

lemma takeWhile_cut:
  "\<exists>c\<in>set t. is_blank c \<Longrightarrow> \<forall>c\<in>set t. c \<noteq> CHR 0x00 \<Longrightarrow>
   takeWhile (\<lambda>c. c \<noteq> CHR 0x00) (map (\<lambda>c. if is_blank c then CHR 0x00 else c) t @ ys) = takeWhile (\<lambda>c. \<not> is_blank c) (t @ zs)"
  by (induction t) auto

lemma cstr_cut:
  assumes "a < m" "m \<le> length s" "\<forall>c\<in>set s. c \<noteq> CHR 0x00"
  shows "cstr (cut_line s m (CHR 0x00 # r)) a =
    (if \<exists>e. a \<le> e \<and> e < m \<and> is_blank (s ! e) then word_at s a else drop a s)"
proof -
  let ?f = "\<lambda>c. if is_blank c then CHR 0x00 else c"
  let ?t = "drop a (take m s)"
  have d: "drop a (cut_line s m (CHR 0x00 # r)) = map ?f ?t @ drop m s @ CHR 0x00 # r"
    using assms by (simp add: cut_line_def drop_map)
  have "drop a (take m s @ drop m s) = ?t @ drop m s" using assms(1,2) by (simp only: drop_append) simp
  then have s: "drop a s = ?t @ drop m s" by simp
  have nz: "\<forall>c\<in>set ?t. c \<noteq> CHR 0x00" "\<forall>c\<in>set (drop m s). c \<noteq> CHR 0x00"
    using assms(3) by (auto dest: in_set_dropD in_set_takeD)
  have ex: "(\<exists>e. a \<le> e \<and> e < m \<and> is_blank (s ! e)) \<longleftrightarrow> (\<exists>c\<in>set ?t. is_blank c)"
  proof
    assume "\<exists>e. a \<le> e \<and> e < m \<and> is_blank (s ! e)"
    then obtain e where e: "a \<le> e" "e < m" "is_blank (s ! e)" by blast
    then have "s ! e \<in> set ?t" using assms(2) by (auto simp: in_set_conv_nth intro!: exI [of _ "e - a"])
    then show "\<exists>c\<in>set ?t. is_blank c" using e(3) by blast
  next
    assume "\<exists>c\<in>set ?t. is_blank c"
    then obtain k where "k < length ?t" "is_blank (?t ! k)" by (metis in_set_conv_nth)
    then show "\<exists>e. a \<le> e \<and> e < m \<and> is_blank (s ! e)" using assms(2) by (intro exI [of _ "a + k"]) simp
  qed
  show ?thesis
  proof (cases "\<exists>c\<in>set ?t. is_blank c")
    case True
    then show ?thesis
      using takeWhile_cut [OF True nz(1), of "drop m s @ CHR 0x00 # r" "drop m s"] unfolding ex cstr_def d word_at_def s by simp
  next
    case False
    then have "map ?f ?t = ?t" by (auto intro: map_idI)
    then show ?thesis using False nz unfolding ex cstr_def d s by (simp add: takeWhile_append2)
  qed
qed


lemma starts_in: "i \<in> set (starts s n) \<longleftrightarrow> i < n \<and> word_start s i"
  by (auto simp: starts_def)

lemma sorted_starts: "sorted_wrt (<) (starts s n)"
  unfolding starts_def by (intro sorted_wrt_filter) simp

text \<open>Before the next word there is a blank.\<close>

lemma blank_between:
  assumes "Suc k < length (starts s n)"
  shows "\<exists>e. starts s n ! k \<le> e \<and> e < n \<and> is_blank (s ! e)"
proof -
  let ?a = "starts s n ! k" and ?b = "starts s n ! Suc k"
  have "?a < ?b" using sorted_wrt_nth_less [OF sorted_starts, of k "Suc k"] assms by simp
  moreover have "?b < n" "word_start s ?b" using nth_mem [OF assms] by (simp_all add: starts_in)
  ultimately show ?thesis by (intro exI [of _ "?b - 1"]) (auto simp: word_start_def)
qed

lemma no_blank_word:
  assumes "\<not> (\<exists>e. a \<le> e \<and> e < length s \<and> is_blank (s ! e))"
  shows "word_at s a = drop a s"
proof -
  have "\<not> is_blank c" if "c \<in> set (drop a s)" for c
    using that assms by (auto simp: in_set_conv_nth)
  then show ?thesis by (simp add: word_at_def takeWhile_eq_all_conv)
qed

lemma cut_start: "cut_line s 0 rest = s @ rest" "starts s 0 = []"
  by (simp_all add: cut_line_def starts_def)

theorem tokenize_words:
  assumes "\<forall>c\<in>set s. c \<noteq> CHR 0x00"
  shows "\<exists>line argv. tokenize (length s) 0 (s @ CHR 0x00 # r) [] False = Some (line, argv)
    \<and> argv = take 8 (starts s (length s)) \<and> length line = length s + Suc (length r)
    \<and> (\<forall>k<length argv. cstr line (argv ! k) =
         (if k < 7 then word_at s (argv ! k) else drop (argv ! k) s))"
proof -
  obtain m where m: "tokenize (length s) 0 (cut_line s 0 (CHR 0x00 # r)) (starts s 0) False =
      Some (cut_line s m (CHR 0x00 # r), starts s m)" "m \<le> length s" "m = length s \<or> length (starts s m) = 8"
      "length (starts s m) \<le> 8" "length (starts s m) = 8 \<longrightarrow> last (starts s m) = m - 1"
    using tokenize_stops [of s 0 "length s" "CHR 0x00 # r"] by (auto simp: cut_start)
  obtain l where l: "starts s (length s) = starts s m @ l" using starts_prefix [OF m(2)] by blast
  have argv: "starts s m = take 8 (starts s (length s))" using m(3,4) l by auto
  have "cstr (cut_line s m (CHR 0x00 # r)) (starts s m ! k) =
      (if k < 7 then word_at s (starts s m ! k) else drop (starts s m ! k) s)" if k: "k < length (starts s m)" for k
  proof -
    have a: "starts s m ! k < m" using nth_mem [OF k] by (simp add: starts_in)
    note c = cstr_cut [OF a m(2) assms, of r]
    consider "Suc k < length (starts s m)" | "Suc k = length (starts s m)" "k < 7" | "k = 7" using k m(4) by linarith
    then show ?thesis
    proof cases
      case 1
      then show ?thesis using blank_between [OF 1] m(4) c by auto
    next
      case 2
      then have "m = length s" using m(3) by auto
      then show ?thesis using 2 c no_blank_word [of "starts s m ! k" s] by auto
    next
      case 3
      then have len: "length (starts s m) = 8" using k m(4) by simp
      then have "starts s m ! k = m - 1" using m(5) 3 last_conv_nth [of "starts s m"] by fastforce
      moreover have "word_start s (starts s m ! k)" using nth_mem [OF k] by (simp add: starts_in)
      ultimately show ?thesis using c 3 a by (auto simp: word_start_def dest!: le_antisym)
    qed
  qed
  then show ?thesis using m(1) argv unfolding cut_start
    by (intro exI [of _ "cut_line s m (CHR 0x00 # r)"] exI [of _ "starts s m"]) simp
qed

end
