(* ===== verification/X86_Pci.thy ===== *)
theory X86_Pci
  imports X86_Serial
begin

text \<open>
  Port I/O and the PCI enumeration of \<open>arch/x86_64/pci.c\<close>.  The hardware behind the ports is a
  parameter: a record of the six port instructions over a device state of any type.  What the code
  relies on is the configuration mechanism of the bus, stated as the predicate
  \<open>config_space\<close>: a read of the data port returns the register that the address port selects.

  The lemmas show that the selector decodes to the function and register it was made from, that the
  narrow reads return the bytes of the register, and that the scan fills the device table with the
  functions of bus 0 in order, up to its 32 entries.
\<close>

section \<open>Port instructions\<close>

record 'd ports =
  p_inb :: "u16 \<Rightarrow> 'd \<Rightarrow> u8 \<times> 'd"
  p_inw :: "u16 \<Rightarrow> 'd \<Rightarrow> u16 \<times> 'd"
  p_inl :: "u16 \<Rightarrow> 'd \<Rightarrow> u32 \<times> 'd"
  p_outb :: "u16 \<Rightarrow> u8 \<Rightarrow> 'd \<Rightarrow> 'd"
  p_outw :: "u16 \<Rightarrow> u16 \<Rightarrow> 'd \<Rightarrow> 'd"
  p_outl :: "u16 \<Rightarrow> u32 \<Rightarrow> 'd \<Rightarrow> 'd"

text \<open>The state the drivers work on: the devices and the text on the console.\<close>

record 'd world =
  w_dev :: 'd
  w_con :: string

definition kprint :: "string \<Rightarrow> karg list \<Rightarrow> 'd world \<Rightarrow> 'd world exec" where
  "kprint fmt args w = map_option (\<lambda>s. w\<lparr>w_con := w_con w @ s\<rparr>) (kprintf fmt args)"

section \<open>Configuration space\<close>

abbreviation (input) PCI_CONFIG_ADDR :: u16 where "PCI_CONFIG_ADDR \<equiv> 0xCF8"
abbreviation (input) PCI_CONFIG_DATA :: u16 where "PCI_CONFIG_DATA \<equiv> 0xCFC"
abbreviation (input) PCI_MAX_DEVICES :: u32 where "PCI_MAX_DEVICES \<equiv> 32"

definition pci_addr :: "u8 \<Rightarrow> u8 \<Rightarrow> u8 \<Rightarrow> u8 \<Rightarrow> u32" where
  "pci_addr bus dev func off =
     push_bit 31 1 OR push_bit 16 (ucast bus) OR push_bit 11 (ucast (dev AND 0x1F))
     OR push_bit 8 (ucast (func AND 0x07)) OR ucast (off AND 0xFC)"

definition pci_cfg_read32 :: "'d ports \<Rightarrow> u8 \<Rightarrow> u8 \<Rightarrow> u8 \<Rightarrow> u8 \<Rightarrow> 'd \<Rightarrow> u32 \<times> 'd" where
  "pci_cfg_read32 hw bus dev func off d =
     p_inl hw PCI_CONFIG_DATA (p_outl hw PCI_CONFIG_ADDR (pci_addr bus dev func off) d)"

definition pci_cfg_write32 :: "'d ports \<Rightarrow> u8 \<Rightarrow> u8 \<Rightarrow> u8 \<Rightarrow> u8 \<Rightarrow> u32 \<Rightarrow> 'd \<Rightarrow> 'd" where
  "pci_cfg_write32 hw bus dev func off val d =
     p_outl hw PCI_CONFIG_DATA val (p_outl hw PCI_CONFIG_ADDR (pci_addr bus dev func off) d)"

definition pci_cfg_read16 :: "'d ports \<Rightarrow> u8 \<Rightarrow> u8 \<Rightarrow> u8 \<Rightarrow> u8 \<Rightarrow> 'd \<Rightarrow> u16 \<times> 'd" where
  "pci_cfg_read16 hw bus dev func off d =
     (let (val, d) = pci_cfg_read32 hw bus dev func (off AND 0xFC) d
      in (ucast (drop_bit (unat ((off AND 2) * 8)) val), d))"

definition pci_cfg_read8 :: "'d ports \<Rightarrow> u8 \<Rightarrow> u8 \<Rightarrow> u8 \<Rightarrow> u8 \<Rightarrow> 'd \<Rightarrow> u8 \<times> 'd" where
  "pci_cfg_read8 hw bus dev func off d =
     (let (val, d) = pci_cfg_read32 hw bus dev func (off AND 0xFC) d
      in (ucast (drop_bit (unat ((off AND 3) * 8)) val), d))"

section \<open>The device table\<close>

record pci_device =
  pd_bus :: u8
  pd_dev :: u8
  pd_func :: u8
  pd_vendor_id :: u16
  pd_device_id :: u16
  pd_class_code :: u8
  pd_subclass :: u8
  pd_prog_if :: u8
  pd_header_type :: u8
  pd_bar :: "u32 list"
  pd_irq_line :: u8

record pci =
  pci_devices :: "pci_device list"
  pci_n :: u32

text \<open>The static table before the scan: all bytes zero.\<close>

definition zero_pci_device :: pci_device where
  "zero_pci_device = \<lparr>pd_bus = 0, pd_dev = 0, pd_func = 0, pd_vendor_id = 0, pd_device_id = 0,
     pd_class_code = 0, pd_subclass = 0, pd_prog_if = 0, pd_header_type = 0,
     pd_bar = replicate 6 0, pd_irq_line = 0\<rparr>"

definition pci_static :: pci where
  "pci_static = \<lparr>pci_devices = replicate 32 zero_pci_device, pci_n = 0\<rparr>"

fun read_bars :: "'d ports \<Rightarrow> u8 \<Rightarrow> u8 \<Rightarrow> nat list \<Rightarrow> u32 list \<Rightarrow> 'd \<Rightarrow> (u32 list \<times> 'd) exec" where
  "read_bars hw dev func [] bar d = Some (bar, d)"
| "read_bars hw dev func (i # js) bar d =
     (let (v, d) = pci_cfg_read32 hw 0 dev func (0x10 + of_nat i * 4) d
      in Option.bind (arr_set bar i v) (\<lambda>bar. read_bars hw dev func js bar d))"

text \<open>What the scan stores about one function whose identification register is \<open>ident\<close>.\<close>

definition pci_fill :: "'d ports \<Rightarrow> u8 \<Rightarrow> u8 \<Rightarrow> u32 \<Rightarrow> pci_device \<Rightarrow> 'd \<Rightarrow> (pci_device \<times> 'd) exec" where
  "pci_fill hw dev func ident e d =
     (let e = e\<lparr>pd_bus := 0, pd_dev := dev, pd_func := func,
            pd_vendor_id := ucast (ident AND 0xFFFF), pd_device_id := ucast (drop_bit 16 ident)\<rparr>;
          (class_rev, d) = pci_cfg_read32 hw 0 dev func 0x08 d;
          e = e\<lparr>pd_class_code := ucast (drop_bit 24 class_rev), pd_subclass := ucast (drop_bit 16 class_rev),
            pd_prog_if := ucast (drop_bit 8 class_rev)\<rparr>;
          (ht, d) = pci_cfg_read8 hw 0 dev func 0x0E d;
          e = e\<lparr>pd_header_type := ht AND 0x7F\<rparr>
      in Option.bind
           (if pd_header_type e = 0 then read_bars hw dev func [0..<6] (pd_bar e) d else Some (pd_bar e, d))
           (\<lambda>(bar, d).
              let (irq, d) = pci_cfg_read8 hw 0 dev func 0x3C d
              in Some (e\<lparr>pd_bar := bar, pd_irq_line := irq\<rparr>, d)))"

definition pci_id_args :: "pci_device \<Rightarrow> karg list" where
  "pci_id_args e = [KUint (ucast (pd_bus e)), KUint (ucast (pd_dev e)), KUint (ucast (pd_func e)),
     KUint (ucast (pd_vendor_id e)), KUint (ucast (pd_device_id e)),
     KUint (ucast (pd_class_code e)), KUint (ucast (pd_subclass e))]"

text \<open>Fill the next entry of the table.\<close>

definition pci_add :: "'d ports \<Rightarrow> u8 \<Rightarrow> u8 \<Rightarrow> u32 \<Rightarrow> pci \<Rightarrow> 'd world \<Rightarrow> (pci_device \<times> pci \<times> 'd world) exec" where
  "pci_add hw dev func ident p w =
     Option.bind (arr_get (pci_devices p) (unat (pci_n p))) (\<lambda>old.
     Option.bind (pci_fill hw dev func ident old (w_dev w)) (\<lambda>(e, d).
     Option.bind (arr_set (pci_devices p) (unat (pci_n p)) e) (\<lambda>es.
       Some (e, p\<lparr>pci_devices := es\<rparr>, w\<lparr>w_dev := d\<rparr>))))"

fun pci_scan_funcs :: "'d ports \<Rightarrow> u8 \<Rightarrow> nat list \<Rightarrow> pci \<Rightarrow> 'd world \<Rightarrow> (pci \<times> 'd world) exec" where
  "pci_scan_funcs hw dev [] p w = Some (p, w)"
| "pci_scan_funcs hw dev (f # fs) p w =
     (if \<not> pci_n p < PCI_MAX_DEVICES then Some (p, w)
      else
        let (ident, d) = pci_cfg_read32 hw 0 dev (of_nat f) 0x00 (w_dev w);
            w = w\<lparr>w_dev := d\<rparr>
        in if (ucast (ident AND 0xFFFF) :: u16) = 0xFFFF then pci_scan_funcs hw dev fs p w
           else
             Option.bind (pci_add hw dev (of_nat f) ident p w) (\<lambda>(e, p, w).
             Option.bind (kprint (''PCI %u:%u.%u %x:%x class %x:%x'' @ [CHR 0x0A]) (pci_id_args e) w) (\<lambda>w.
               pci_scan_funcs hw dev fs (p\<lparr>pci_n := pci_n p + 1\<rparr>) w)))"

text \<open>The line that is printed for function 0.\<close>

definition pci_announce :: "pci_device \<Rightarrow> 'd world \<Rightarrow> 'd world exec" where
  "pci_announce e w =
     Option.bind (kprint ''PCI %u:%u.%u %x:%x class %x:%x'' (pci_id_args e) w) (\<lambda>w.
     Option.bind (arr_get (pd_bar e) 0) (\<lambda>bar0.
     Option.bind (if pd_header_type e = 0 \<and> bar0 \<noteq> 0 then kprint '' BAR0=0x%x'' [KUint bar0] w else Some w) (\<lambda>w.
       kprint [CHR 0x0A] [] w)))"

fun pci_scan :: "'d ports \<Rightarrow> nat list \<Rightarrow> pci \<Rightarrow> 'd world \<Rightarrow> (pci \<times> 'd world) exec" where
  "pci_scan hw [] p w = Some (p, w)"
| "pci_scan hw (n # ns) p w =
     (if \<not> pci_n p < PCI_MAX_DEVICES then Some (p, w)
      else
        let dev = of_nat n;
            (ident, d) = pci_cfg_read32 hw 0 dev 0 0x00 (w_dev w);
            w = w\<lparr>w_dev := d\<rparr>
        in if (ucast (ident AND 0xFFFF) :: u16) = 0xFFFF then pci_scan hw ns p w
           else
             Option.bind (pci_add hw dev 0 ident p w) (\<lambda>(e, p, w).
             Option.bind (pci_announce e w) (\<lambda>w.
               let p = p\<lparr>pci_n := pci_n p + 1\<rparr>;
                   (ht_raw, d) = pci_cfg_read8 hw 0 dev 0 0x0E (w_dev w);
                   w = w\<lparr>w_dev := d\<rparr>
               in Option.bind (if ht_raw AND 0x80 \<noteq> 0 then pci_scan_funcs hw dev [1..<8] p w else Some (p, w))
                    (\<lambda>(p, w). pci_scan hw ns p w))))"

definition pci_init :: "'d ports \<Rightarrow> pci \<Rightarrow> 'd world \<Rightarrow> (pci \<times> 'd world) exec" where
  "pci_init hw p w =
     Option.bind (pci_scan hw [0..<32] (p\<lparr>pci_n := 0\<rparr>) w) (\<lambda>(p, w).
     Option.bind (kprint (''PCI: %u devices found'' @ [CHR 0x0A]) [KUint (pci_n p)] w) (\<lambda>w. Some (p, w)))"

section \<open>Look-up\<close>

text \<open>A pointer into the table is the index of the entry.\<close>

fun find_from :: "nat \<Rightarrow> u16 \<Rightarrow> u16 \<Rightarrow> pci_device list \<Rightarrow> nat option" where
  "find_from i v dv [] = None"
| "find_from i v dv (e # es) =
     (if pd_vendor_id e = v \<and> pd_device_id e = dv then Some i else find_from (Suc i) v dv es)"

definition pci_find_device :: "u16 \<Rightarrow> u16 \<Rightarrow> pci \<Rightarrow> nat option" where
  "pci_find_device v dv p = find_from 0 v dv (take (unat (pci_n p)) (pci_devices p))"

definition pci_device_count :: "pci \<Rightarrow> u32" where
  "pci_device_count p = pci_n p"

definition pci_get_device :: "u32 \<Rightarrow> pci \<Rightarrow> nat option" where
  "pci_get_device i p = (if pci_n p \<le> i then None else Some (unat i))"


section \<open>The selector\<close>

text \<open>Different registers of different functions have different selectors: the fields of the
  address can be read off it.\<close>

lemma mask_numerals: "(0x1F :: u8) = mask 5" "(0x07 :: u8) = mask 3"
  by (simp_all add: mask_eq_exp_minus_1)

lemma pci_addr_masks:
  "pci_addr bus dev func off =
     push_bit 31 1 OR push_bit 16 (ucast bus) OR push_bit 11 (ucast (take_bit 5 dev))
     OR push_bit 8 (ucast (take_bit 3 func)) OR ucast (off AND 0xFC)"
  by (simp only: pci_addr_def mask_numerals take_bit_eq_mask)

lemma bit_u8_lt: "bit (x :: u8) n \<Longrightarrow> n < 8"
  using bit_imp_le_length [of x n] by simp

lemma pci_addr_bus: "take_bit 8 (drop_bit 16 (pci_addr bus dev func off)) = ucast bus"
  unfolding pci_addr_masks by (rule bit_word_eqI) (auto simp: bit_simps dest: bit_u8_lt)

lemma pci_addr_dev: "take_bit 5 (drop_bit 11 (pci_addr bus dev func off)) = ucast (take_bit 5 dev)"
  unfolding pci_addr_masks by (rule bit_word_eqI) (auto simp: bit_simps dest: bit_u8_lt)

lemma pci_addr_func: "take_bit 3 (drop_bit 8 (pci_addr bus dev func off)) = ucast (take_bit 3 func)"
  unfolding pci_addr_masks by (rule bit_word_eqI) (auto simp: bit_simps dest: bit_u8_lt)

lemma pci_addr_off: "take_bit 8 (pci_addr bus dev func off) = ucast (off AND 0xFC)"
  unfolding pci_addr_masks by (rule bit_word_eqI) (auto simp: bit_simps dest: bit_u8_lt)


lemma pci_addr_inj:
  assumes "pci_addr bus dev func off = pci_addr bus' dev' func' off'"
    "dev < 32" "dev' < 32" "func < 8" "func' < 8"
  shows "bus = bus' \<and> dev = dev' \<and> func = func' \<and> off AND 0xFC = off' AND 0xFC"
proof -
  have dev: "take_bit 5 x = x" if "x < 32" for x :: u8
    using that by (simp add: word_unat_eq_iff unsigned_take_bit_eq take_bit_eq_mod word_less_nat_alt unat_mod)
  have func: "take_bit 3 x = x" if "x < 8" for x :: u8
    using that by (simp add: word_unat_eq_iff unsigned_take_bit_eq take_bit_eq_mod word_less_nat_alt unat_mod)
  have uc: "x = y" if "(ucast x :: u32) = ucast y" for x y :: u8
    using arg_cong [OF that, of unat] by (simp add: unat_ucast_up word_unat_eq_iff)
  show ?thesis
    using pci_addr_bus [of bus dev func off] pci_addr_bus [of bus' dev' func' off']
      pci_addr_dev [of bus dev func off] pci_addr_dev [of bus' dev' func' off']
      pci_addr_func [of bus dev func off] pci_addr_func [of bus' dev' func' off']
      pci_addr_off [of bus dev func off] pci_addr_off [of bus' dev' func' off'] assms
    by (metis dev func uc)
qed

section \<open>What a scan reads\<close>

text \<open>The configuration mechanism: whatever the state of the devices (in a set that reads stay in),
  the data port returns the register \<open>cfg a\<close> that was selected by \<open>a\<close>.\<close>

definition config_space :: "'d ports \<Rightarrow> 'd set \<Rightarrow> (u32 \<Rightarrow> u32) \<Rightarrow> bool" where
  "config_space hw S cfg \<longleftrightarrow>
     (\<forall>a. \<forall>d\<in>S. fst (p_inl hw 0xCFC (p_outl hw 0xCF8 a d)) = cfg a
        \<and> snd (p_inl hw 0xCFC (p_outl hw 0xCF8 a d)) \<in> S)"

definition reg :: "(u32 \<Rightarrow> u32) \<Rightarrow> nat \<Rightarrow> nat \<Rightarrow> u8 \<Rightarrow> u32" where
  "reg cfg dev func off = cfg (pci_addr 0 (of_nat dev) (of_nat func) off)"

definition header_byte :: "(u32 \<Rightarrow> u32) \<Rightarrow> nat \<Rightarrow> nat \<Rightarrow> u8" where
  "header_byte cfg dev func = ucast (drop_bit 16 (reg cfg dev func 0x0C))"

definition pci_entry :: "(u32 \<Rightarrow> u32) \<Rightarrow> nat \<times> nat \<Rightarrow> u32 list \<Rightarrow> pci_device" where
  "pci_entry cfg = (\<lambda>(dev, func) stale.
     \<lparr>pd_bus = 0, pd_dev = of_nat dev, pd_func = of_nat func,
      pd_vendor_id = ucast (reg cfg dev func 0), pd_device_id = ucast (drop_bit 16 (reg cfg dev func 0)),
      pd_class_code = ucast (drop_bit 24 (reg cfg dev func 8)),
      pd_subclass = ucast (drop_bit 16 (reg cfg dev func 8)),
      pd_prog_if = ucast (drop_bit 8 (reg cfg dev func 8)),
      pd_header_type = header_byte cfg dev func AND 0x7F,
      pd_bar = (if header_byte cfg dev func AND 0x7F = 0
                then map (\<lambda>i. reg cfg dev func (0x10 + of_nat i * 4)) [0..<6] else stale),
      pd_irq_line = ucast (reg cfg dev func 0x3C)\<rparr>)"

definition exists_func :: "(u32 \<Rightarrow> u32) \<Rightarrow> nat \<Rightarrow> nat \<Rightarrow> bool" where
  "exists_func cfg dev func \<longleftrightarrow> (ucast (reg cfg dev func 0) :: u16) \<noteq> 0xFFFF"

definition other_funcs :: "(u32 \<Rightarrow> u32) \<Rightarrow> nat \<Rightarrow> nat list \<Rightarrow> (nat \<times> nat) list" where
  "other_funcs cfg dev fs = map (Pair dev) (filter (exists_func cfg dev) fs)"

text \<open>The functions of one device, and of all devices of bus 0, in the order of the scan.\<close>

definition dev_funcs :: "(u32 \<Rightarrow> u32) \<Rightarrow> nat \<Rightarrow> (nat \<times> nat) list" where
  "dev_funcs cfg dev =
     (if exists_func cfg dev 0
      then (dev, 0) # (if header_byte cfg dev 0 AND 0x80 \<noteq> 0 then other_funcs cfg dev [1..<8] else [])
      else [])"

definition bus_funcs :: "(u32 \<Rightarrow> u32) \<Rightarrow> nat list \<Rightarrow> (nat \<times> nat) list" where
  "bus_funcs cfg devs = concat (map (dev_funcs cfg) devs)"

text \<open>The table with the functions \<open>l\<close> entered: the bars of an entry whose header is not of type 0
  are the ones that were there before.\<close>

definition pci_table :: "(u32 \<Rightarrow> u32) \<Rightarrow> pci_device list \<Rightarrow> (nat \<times> nat) list \<Rightarrow> pci_device list" where
  "pci_table cfg old l = map (\<lambda>i. if i < length l then pci_entry cfg (l ! i) (pd_bar (old ! i)) else old ! i) [0..<length old]"

definition pci_table_ok :: "pci_device list \<Rightarrow> bool" where
  "pci_table_ok es \<longleftrightarrow> length es = 32 \<and> (\<forall>e\<in>set es. length (pd_bar e) = 6)"

lemma pci_table_snoc:
  assumes "length l < length old"
  shows "(pci_table cfg old l)[length l := pci_entry cfg x (pd_bar (old ! length l))] = pci_table cfg old (l @ [x])"
    "pci_table cfg old l ! length l = old ! length l"
  using assms by (auto simp: pci_table_def nth_list_update nth_append intro!: nth_equalityI)

lemma length_pci_table [simp]: "length (pci_table cfg old l) = length old"
  by (simp add: pci_table_def)

lemma config_read:
  assumes "config_space hw S cfg" "d \<in> S"
  obtains d' where "pci_cfg_read32 hw b dev f off d = (cfg (pci_addr b dev f off), d')" "d' \<in> S"
proof
  let ?r = "p_inl hw 0xCFC (p_outl hw 0xCF8 (pci_addr b dev f off) d)"
  show "pci_cfg_read32 hw b dev f off d = (cfg (pci_addr b dev f off), snd ?r)" "snd ?r \<in> S"
    using assms unfolding config_space_def pci_cfg_read32_def by (metis prod.collapse)+
qed


lemma read_header:
  assumes "config_space hw S cfg" "d \<in> S"
  obtains d' where "pci_cfg_read8 hw 0 (of_nat dev) (of_nat f) 0x0E d = (header_byte cfg dev f, d')" "d' \<in> S"
proof -
  obtain d' where d': "pci_cfg_read32 hw 0 (of_nat dev) (of_nat f) 0x0C d = (reg cfg dev f 0x0C, d')" "d' \<in> S"
    using config_read [OF assms] unfolding reg_def by metis
  show thesis by (rule that [OF _ d'(2)]) (simp add: pci_cfg_read8_def header_byte_def d'(1))
qed

lemma read_irq:
  assumes "config_space hw S cfg" "d \<in> S"
  obtains d' where "pci_cfg_read8 hw 0 (of_nat dev) (of_nat f) 0x3C d = (ucast (reg cfg dev f 0x3C), d')" "d' \<in> S"
proof -
  obtain d' where d': "pci_cfg_read32 hw 0 (of_nat dev) (of_nat f) 0x3C d = (reg cfg dev f 0x3C, d')" "d' \<in> S"
    using config_read [OF assms] unfolding reg_def by metis
  show thesis by (rule that [OF _ d'(2)]) (simp add: pci_cfg_read8_def d'(1))
qed

lemma read_reg:
  assumes "config_space hw S cfg" "d \<in> S"
  obtains d' where "pci_cfg_read32 hw 0 (of_nat dev) (of_nat f) off d = (reg cfg dev f off, d')" "d' \<in> S"
  using config_read [OF assms] unfolding reg_def by metis

lemma read_bars_eq:
  assumes "config_space hw S cfg" "d \<in> S" "\<forall>i\<in>set js. i < length bar"
  shows "\<exists>d'\<in>S. read_bars hw (of_nat dev) (of_nat f) js bar d =
    Some (fold (\<lambda>i b. b[i := reg cfg dev f (0x10 + of_nat i * 4)]) js bar, d')"
  using assms(2,3)
proof (induction js arbitrary: bar d)
  case (Cons i js)
  obtain d' where d': "pci_cfg_read32 hw 0 (of_nat dev) (of_nat f) (0x10 + of_nat i * 4) d =
      (reg cfg dev f (0x10 + of_nat i * 4), d')" "d' \<in> S"
    using read_reg [OF assms(1) Cons.prems(1)] .
  show ?case using Cons.IH [OF d'(2)] Cons.prems(2) d'(1) by (simp add: exec_simps)
qed simp

lemma fold_bars:
  assumes "length bar = 6"
  shows "fold (\<lambda>i b. b[i := g i]) [0..<6] bar = map g [0..<6]"
proof -
  have "\<exists>a b c d e f. bar = [a, b, c, d, e, f]" using assms
    by (auto simp: length_Suc_conv eval_nat_numeral)
  then show ?thesis by (auto simp: upt_rec eval_nat_numeral)
qed

lemma ucast_and_ffff: "(ucast (x AND 0xFFFF :: u32) :: u16) = ucast x"
proof -
  have "x AND 0xFFFF = take_bit 16 x" by (simp add: take_bit_eq_mask mask_eq_exp_minus_1)
  then show ?thesis by (simp add: unsigned_take_bit_eq bit_eq_iff bit_simps)
qed

lemma pci_fill_eq:
  assumes "config_space hw S cfg" "d \<in> S" "length (pd_bar old) = 6"
  shows "\<exists>d'\<in>S. pci_fill hw (of_nat dev) (of_nat f) (reg cfg dev f 0) old d =
    Some (pci_entry cfg (dev, f) (pd_bar old), d')"
proof -
  obtain d1 where d1: "pci_cfg_read32 hw 0 (of_nat dev) (of_nat f) 8 d = (reg cfg dev f 8, d1)" "d1 \<in> S"
    using read_reg [OF assms(1,2)] .
  obtain d2 where d2: "pci_cfg_read8 hw 0 (of_nat dev) (of_nat f) 0x0E d1 = (header_byte cfg dev f, d2)" "d2 \<in> S"
    using read_header [OF assms(1) d1(2)] .
  obtain d3 where d3: "d3 \<in> S" "(if header_byte cfg dev f AND 0x7F = 0
        then read_bars hw (of_nat dev) (of_nat f) [0..<6] (pd_bar old) d2 else Some (pd_bar old, d2)) =
      Some (pd_bar (pci_entry cfg (dev, f) (pd_bar old)), d3)"
  proof (cases "header_byte cfg dev f AND 0x7F = 0")
    case True
    then show thesis
      using read_bars_eq [OF assms(1) d2(2), of "[0..<6]" "pd_bar old" dev f] assms(3) that
      by (auto simp: pci_entry_def fold_bars simp del: upt_Suc)
  next
    case False
    then show thesis by (intro that [OF d2(2)]) (simp add: pci_entry_def)
  qed
  obtain d4 where d4: "pci_cfg_read8 hw 0 (of_nat dev) (of_nat f) 0x3C d3 = (ucast (reg cfg dev f 0x3C), d4)" "d4 \<in> S"
    using read_irq [OF assms(1) d3(1)] .
  have "pci_fill hw (of_nat dev) (of_nat f) (reg cfg dev f 0) old d = Some (pci_entry cfg (dev, f) (pd_bar old), d4)"
    unfolding pci_fill_def using d1(1) d2(1) d3(2) d4(1)
    by (cases "header_byte cfg dev f AND 0x7F = 0"; cases old)
      (simp_all add: Let_def ucast_and_ffff pci_entry_def del: upt_Suc)
  then show ?thesis using d4(2) by blast
qed


section \<open>The scan\<close>

lemma kprintf_pci:
  "\<exists>s. kprintf (''PCI %u:%u.%u %x:%x class %x:%x'' @ [CHR 0x0A]) (pci_id_args e) = Some s"
  "\<exists>s. kprintf ''PCI %u:%u.%u %x:%x class %x:%x'' (pci_id_args e) = Some s"
  "\<exists>s. kprintf '' BAR0=0x%x'' [KUint b] = Some s"
  "\<exists>s. kprintf (''PCI: %u devices found'' @ [CHR 0x0A]) [KUint n] = Some s"
  by (simp_all add: pci_id_args_def print_simps)

lemma kprint_Some: "\<exists>s. kprintf fmt args = Some s \<Longrightarrow> \<exists>c. kprint fmt args w = Some (w\<lparr>w_con := c\<rparr>)"
  by (auto simp: kprint_def)

definition holds_funcs :: "(u32 \<Rightarrow> u32) \<Rightarrow> pci_device list \<Rightarrow> (nat \<times> nat) list \<Rightarrow> pci \<Rightarrow> bool" where
  "holds_funcs cfg old l p \<longleftrightarrow> length l \<le> 32 \<and> p = \<lparr>pci_devices = pci_table cfg old l, pci_n = of_nat (length l)\<rparr>"

lemma pci_add_eq:
  assumes "config_space hw S cfg" "w_dev w \<in> S" "pci_table_ok old" "holds_funcs cfg old l p" "length l < 32"
  obtains d' where "d' \<in> S"
    "pci_add hw (of_nat dev) (of_nat f) (reg cfg dev f 0) p w =
       Some (pci_entry cfg (dev, f) (pd_bar (old ! length l)),
         \<lparr>pci_devices = pci_table cfg old (l @ [(dev, f)]), pci_n = of_nat (length l)\<rparr>, w\<lparr>w_dev := d'\<rparr>)"
proof -
  have l: "length l < length old" "length (pd_bar (old ! length l)) = 6"
    using assms(3,5) by (auto simp: pci_table_ok_def)
  have n: "unat (of_nat (length l) :: u32) = length l" using assms(5) by (simp add: unat_of_nat_lt)
  obtain d' where "d' \<in> S" "pci_fill hw (of_nat dev) (of_nat f) (reg cfg dev f 0) (old ! length l) (w_dev w) =
      Some (pci_entry cfg (dev, f) (pd_bar (old ! length l)), d')"
    using pci_fill_eq [OF assms(1,2) l(2)] by blast
  then show thesis
    using assms(4) l(1) n that [of d']
    by (simp add: pci_add_def holds_funcs_def exec_simps pci_table_snoc)
qed

lemma not_full: "length l < 32 \<Longrightarrow> (of_nat (length l) :: u32) < 32"
  by (simp add: word_less_nat_alt unat_of_nat_lt)

lemma pci_scan_funcs_eq:
  assumes "config_space hw S cfg" "pci_table_ok old" "w_dev w \<in> S" "holds_funcs cfg old l p"
  shows "\<exists>p' w'. pci_scan_funcs hw (of_nat dev) fs p w = Some (p', w') \<and> w_dev w' \<in> S
    \<and> holds_funcs cfg old (take 32 (l @ other_funcs cfg dev fs)) p'"
  using assms(3,4)
proof (induction fs arbitrary: l p w)
  case Nil
  then show ?case by (auto simp: other_funcs_def holds_funcs_def)
next
  case (Cons f fs)
  show ?case
  proof (cases "length l < 32")
    case False
    then show ?thesis using Cons.prems by (auto simp: holds_funcs_def)
  next
    case True
    obtain d1 where d1: "pci_cfg_read32 hw 0 (of_nat dev) (of_nat f) 0 (w_dev w) = (reg cfg dev f 0, d1)" "d1 \<in> S"
      using read_reg [OF assms(1) Cons.prems(1)] .
    have n: "pci_n p < 32" using Cons.prems(2) not_full [OF True] by (simp add: holds_funcs_def)
    show ?thesis
    proof (cases "exists_func cfg dev f")
      case False
      then show ?thesis using Cons.IH [of "w\<lparr>w_dev := d1\<rparr>" l p] Cons.prems(2) d1 n
        by (simp add: ucast_and_ffff exists_func_def other_funcs_def)
    next
      case ex: True
      obtain d2 where d2: "d2 \<in> S" "pci_add hw (of_nat dev) (of_nat f) (reg cfg dev f 0) p (w\<lparr>w_dev := d1\<rparr>) =
          Some (pci_entry cfg (dev, f) (pd_bar (old ! length l)),
            \<lparr>pci_devices = pci_table cfg old (l @ [(dev, f)]), pci_n = of_nat (length l)\<rparr>, w\<lparr>w_dev := d1\<rparr>\<lparr>w_dev := d2\<rparr>)"
        by (rule pci_add_eq [OF assms(1) _ assms(2) Cons.prems(2) True, of "w\<lparr>w_dev := d1\<rparr>" dev f]) (use d1(2) in simp_all)
      obtain c where c: "kprint (''PCI %u:%u.%u %x:%x class %x:%x'' @ [CHR 0x0A])
          (pci_id_args (pci_entry cfg (dev, f) (pd_bar (old ! length l)))) (w\<lparr>w_dev := d2\<rparr>) = Some (w\<lparr>w_dev := d2, w_con := c\<rparr>)"
        using kprint_Some [OF kprintf_pci(1)] by metis
      have "holds_funcs cfg old (l @ [(dev, f)])
          \<lparr>pci_devices = pci_table cfg old (l @ [(dev, f)]), pci_n = of_nat (length l) + 1\<rparr>"
        using True by (simp add: holds_funcs_def add.commute)
      from Cons.IH [OF _ this, of "w\<lparr>w_dev := d2, w_con := c\<rparr>"] ex d1(1) d2 c n
      show ?thesis by (simp add: ucast_and_ffff exists_func_def other_funcs_def)
    qed
  qed
qed


lemma newline: "kprintf [CHR 0x0A] [] = Some [CHR 0x0D, CHR 0x0A]"
  by (simp add: print_simps serial_putc_def)

lemma pci_announce_Some:
  assumes "length (pd_bar e) = 6"
  obtains c where "pci_announce e w = Some (w\<lparr>w_con := c\<rparr>)"
proof -
  obtain s1 where s1: "kprintf ''PCI %u:%u.%u %x:%x class %x:%x'' (pci_id_args e) = Some s1"
    using kprintf_pci(2) by blast
  obtain s2 where s2: "kprintf '' BAR0=0x%x'' [KUint (pd_bar e ! 0)] = Some s2"
    using kprintf_pci(3) by blast
  show thesis
    using that assms s1 s2
    by (cases "pd_header_type e = 0 \<and> pd_bar e ! 0 \<noteq> 0") (auto simp: pci_announce_def kprint_def newline exec_simps)
qed

lemma read_func_0:
  assumes "config_space hw S cfg" "d \<in> S"
  obtains d' where "pci_cfg_read32 hw 0 (of_nat dev) 0 off d = (reg cfg dev 0 off, d')" "d' \<in> S"
  using read_reg [OF assms, of dev 0 off thesis] by simp

lemma read_header_0:
  assumes "config_space hw S cfg" "d \<in> S"
  obtains d' where "pci_cfg_read8 hw 0 (of_nat dev) 0 0x0E d = (header_byte cfg dev 0, d')" "d' \<in> S"
  using read_header [OF assms, of dev 0 thesis] by simp

lemma length_entry_bar: "length stale = 6 \<Longrightarrow> length (pd_bar (pci_entry cfg x stale)) = 6"
  by (simp add: pci_entry_def split: prod.splits)

lemma take_take_append: "take n (take n xs @ ys) = take n (xs @ ys)"
  by (cases "length xs \<le> n") auto

lemma pci_scan_eq:
  assumes "config_space hw S cfg" "pci_table_ok old" "w_dev w \<in> S" "holds_funcs cfg old l p"
  shows "\<exists>p' w'. pci_scan hw devs p w = Some (p', w') \<and> w_dev w' \<in> S
    \<and> holds_funcs cfg old (take 32 (l @ bus_funcs cfg devs)) p'"
  using assms(3,4)
proof (induction devs arbitrary: l p w)
  case Nil
  then show ?case by (auto simp: bus_funcs_def holds_funcs_def)
next
  case (Cons dev devs)
  show ?case
  proof (cases "length l < 32")
    case False
    then show ?thesis using Cons.prems by (auto simp: holds_funcs_def)
  next
    case True
    obtain d1 where d1: "pci_cfg_read32 hw 0 (of_nat dev) 0 0 (w_dev w) = (reg cfg dev 0 0, d1)" "d1 \<in> S"
      by (rule read_func_0 [OF assms(1) Cons.prems(1)])
    have n: "pci_n p < 32" using Cons.prems(2) not_full [OF True] by (simp add: holds_funcs_def)
    show ?thesis
    proof (cases "exists_func cfg dev 0")
      case False
      then show ?thesis using Cons.IH [of "w\<lparr>w_dev := d1\<rparr>" l p] Cons.prems(2) d1 n
        by (simp add: ucast_and_ffff exists_func_def bus_funcs_def dev_funcs_def)
    next
      case ex: True
      define e where "e = pci_entry cfg (dev, 0) (pd_bar (old ! length l))"
      define l1 where "l1 = l @ [(dev, 0)]"
      define p1 where "p1 = \<lparr>pci_devices = pci_table cfg old l1, pci_n = of_nat (length l) + 1\<rparr>"
      obtain d2 where d2: "d2 \<in> S" "pci_add hw (of_nat dev) 0 (reg cfg dev 0 0) p (w\<lparr>w_dev := d1\<rparr>) =
          Some (e, \<lparr>pci_devices = pci_table cfg old l1, pci_n = of_nat (length l)\<rparr>, w\<lparr>w_dev := d2\<rparr>)"
        by (rule pci_add_eq [OF assms(1) _ assms(2) Cons.prems(2) True, of "w\<lparr>w_dev := d1\<rparr>" dev 0])
          (use d1(2) in \<open>simp_all add: e_def l1_def\<close>)
      have "length (pd_bar e) = 6"
        using assms(2) True by (simp add: e_def length_entry_bar pci_table_ok_def)
      then obtain c where c: "pci_announce e (w\<lparr>w_dev := d2\<rparr>) = Some (w\<lparr>w_dev := d2, w_con := c\<rparr>)"
        by (rule pci_announce_Some)
      obtain d3 where d3: "pci_cfg_read8 hw 0 (of_nat dev) 0 0x0E d2 = (header_byte cfg dev 0, d3)" "d3 \<in> S"
        by (rule read_header_0 [OF assms(1) d2(1)])
      have h1: "holds_funcs cfg old l1 p1" using True by (simp add: holds_funcs_def l1_def p1_def add.commute)
      define w3 where "w3 = w\<lparr>w_con := c, w_dev := d3\<rparr>"
      obtain p4 w4 where p4: "(if header_byte cfg dev 0 AND 0x80 \<noteq> 0 then pci_scan_funcs hw (of_nat dev) [1..<8] p1 w3 else Some (p1, w3))
          = Some (p4, w4)" "w_dev w4 \<in> S" "holds_funcs cfg old (take 32 (l @ dev_funcs cfg dev)) p4"
        using pci_scan_funcs_eq [OF assms(1,2) _ h1, of w3 dev "[1..<8]"] d3(2) h1 ex True
        by (cases "header_byte cfg dev 0 AND 0x80 \<noteq> 0") (auto simp: dev_funcs_def w3_def l1_def simp del: upt_Suc)
      have "pci_scan hw (dev # devs) p w = pci_scan hw devs p4 w4"
        using d1(1) n ex d2(2) c d3(1) p4(1)
        by (simp add: ucast_and_ffff exists_func_def Let_def flip: p1_def w3_def del: upt_Suc split: if_splits)
      moreover have "take 32 (take 32 (l @ dev_funcs cfg dev) @ bus_funcs cfg devs) = take 32 (l @ bus_funcs cfg (dev # devs))"
        by (simp only: take_take_append) (simp add: bus_funcs_def)
      ultimately show ?thesis using Cons.IH [OF p4(2,3)] by metis
    qed
  qed
qed

theorem pci_init_eq:
  assumes "config_space hw S cfg" "pci_table_ok (pci_devices p)" "w_dev w \<in> S"
  shows "\<exists>p' w'. pci_init hw p w = Some (p', w') \<and> w_dev w' \<in> S
    \<and> holds_funcs cfg (pci_devices p) (take 32 (bus_funcs cfg [0..<32])) p'"
proof -
  have "holds_funcs cfg (pci_devices p) [] (p\<lparr>pci_n := 0\<rparr>)"
    using map_nth [of "pci_devices p"] by (cases p) (simp add: holds_funcs_def pci_table_def)
  from pci_scan_eq [OF assms this, of "[0..<32]"] obtain p' w' where
    scan: "pci_scan hw [0..<32] (p\<lparr>pci_n := 0\<rparr>) w = Some (p', w')" "w_dev w' \<in> S"
      "holds_funcs cfg (pci_devices p) (take 32 (bus_funcs cfg [0..<32])) p'" by auto
  obtain c where "kprint (''PCI: %u devices found'' @ [CHR 0x0A]) [KUint (pci_n p')] w' = Some (w'\<lparr>w_con := c\<rparr>)"
    using kprint_Some [OF kprintf_pci(4)] by blast
  then show ?thesis using scan by (simp add: pci_init_def del: upt_Suc)
qed


text \<open>A look-up by vendor and device returns the first entry that carries both.\<close>

definition is_device :: "u16 \<Rightarrow> u16 \<Rightarrow> pci_device \<Rightarrow> bool" where
  "is_device v dv e \<longleftrightarrow> pd_vendor_id e = v \<and> pd_device_id e = dv"

lemma find_from_Some:
  "find_from i v dv es = Some j \<longleftrightarrow>
     (\<exists>k<length es. j = i + k \<and> is_device v dv (es ! k) \<and> (\<forall>m<k. \<not> is_device v dv (es ! m)))"
proof (induction es arbitrary: i)
  case (Cons e es)
  have "find_from i v dv (e # es) = (if is_device v dv e then Some i else find_from (Suc i) v dv es)"
    by (simp add: is_device_def)
  then show ?case using Cons.IH [of "Suc i"] by (auto simp: Ex_less_Suc2 All_less_Suc2 simp del: find_from.simps)
qed simp

lemma find_from_None: "find_from i v dv es = None \<longleftrightarrow> (\<forall>e\<in>set es. \<not> is_device v dv e)"
  by (induction es arbitrary: i) (auto simp: is_device_def)

end
