(* ===== verification/Virtio_Pci.thy ===== *)
theory Virtio_Pci
  imports X86_Pci X86_Hal
begin

text \<open>
  The legacy virtio transport: the ring layout of \<open>drivers/virtio/virtio.h\<close> and the device
  set-up of \<open>drivers/virtio/virtio_pci.c\<close>.  The device behind the I/O ports is the parameter of
  \<open>X86_Pci\<close>.  The memory of a ring is kept as its three parts, the descriptor table, the
  available ring and the used ring; that the parts lie side by side inside the pages that the
  driver allocates is proved from the size arithmetic of the header.
\<close>

section \<open>Ring layout\<close>

record vring_desc =
  de_addr :: u64
  de_len :: u32
  de_flags :: u16
  de_next :: u16

record vring =
  vr_desc :: "vring_desc list"
  vr_avail_idx :: u16
  vr_avail_ring :: "u16 list"
  vr_used_idx :: u16
  vr_used_ring :: "(u32 \<times> u32) list"

abbreviation (input) VRING_DESC_F_NEXT :: u16 where "VRING_DESC_F_NEXT \<equiv> 1"
abbreviation (input) VRING_DESC_F_WRITE :: u16 where "VRING_DESC_F_WRITE \<equiv> 2"

record virtqueue =
  vq_num :: u16
  vq_desc :: addr
  vq_avail :: addr
  vq_used :: addr
  vq_free_head :: u16
  vq_num_free :: u16
  vq_last_used_idx :: u16
  vq_io_base :: u32
  vq_queue_index :: u16
  vq_phys_base :: u64
  vq_ring :: vring

definition vring_desc_size :: "u16 \<Rightarrow> u64" where
  "vring_desc_size num = ucast num * 16"

definition vring_avail_size :: "u16 \<Rightarrow> u64" where
  "vring_avail_size num = 4 + ucast num * 2 + 2"

definition vring_used_size :: "u16 \<Rightarrow> u64" where
  "vring_used_size num = 4 + ucast num * 8 + 2"

definition vring_align :: "u64 \<Rightarrow> u64 \<Rightarrow> u64" where
  "vring_align x a = (x + a - 1) AND NOT (a - 1)"

definition vring_total_size :: "u16 \<Rightarrow> u64" where
  "vring_total_size num =
     (let a = vring_desc_size num + vring_avail_size num;
          a = vring_align a 4096
      in a + vring_used_size num)"

text \<open>All bytes zero.\<close>

definition zero_ring :: "u16 \<Rightarrow> vring" where
  "zero_ring num = \<lparr>vr_desc = replicate (unat num) \<lparr>de_addr = 0, de_len = 0, de_flags = 0, de_next = 0\<rparr>,
     vr_avail_idx = 0, vr_avail_ring = replicate (unat num) 0, vr_used_idx = 0,
     vr_used_ring = replicate (unat num) (0, 0)\<rparr>"

definition zero_queue :: virtqueue where
  "zero_queue = \<lparr>vq_num = 0, vq_desc = 0, vq_avail = 0, vq_used = 0, vq_free_head = 0, vq_num_free = 0,
     vq_last_used_idx = 0, vq_io_base = 0, vq_queue_index = 0, vq_phys_base = 0, vq_ring = zero_ring 0\<rparr>"

section \<open>Registers\<close>

abbreviation (input) VIRTIO_PCI_HOST_FEATURES :: u32 where "VIRTIO_PCI_HOST_FEATURES \<equiv> 0x00"
abbreviation (input) VIRTIO_PCI_GUEST_FEATURES :: u32 where "VIRTIO_PCI_GUEST_FEATURES \<equiv> 0x04"
abbreviation (input) VIRTIO_PCI_QUEUE_PFN :: u32 where "VIRTIO_PCI_QUEUE_PFN \<equiv> 0x08"
abbreviation (input) VIRTIO_PCI_QUEUE_SIZE :: u32 where "VIRTIO_PCI_QUEUE_SIZE \<equiv> 0x0C"
abbreviation (input) VIRTIO_PCI_QUEUE_SEL :: u32 where "VIRTIO_PCI_QUEUE_SEL \<equiv> 0x0E"
abbreviation (input) VIRTIO_PCI_QUEUE_NOTIFY :: u32 where "VIRTIO_PCI_QUEUE_NOTIFY \<equiv> 0x10"
abbreviation (input) VIRTIO_PCI_STATUS :: u32 where "VIRTIO_PCI_STATUS \<equiv> 0x12"
abbreviation (input) VIRTIO_PCI_ISR :: u32 where "VIRTIO_PCI_ISR \<equiv> 0x13"
abbreviation (input) VIRTIO_PCI_CONFIG :: u32 where "VIRTIO_PCI_CONFIG \<equiv> 0x14"
abbreviation (input) VIRTIO_STATUS_RESET :: u8 where "VIRTIO_STATUS_RESET \<equiv> 0"
abbreviation (input) VIRTIO_STATUS_ACKNOWLEDGE :: u8 where "VIRTIO_STATUS_ACKNOWLEDGE \<equiv> 1"
abbreviation (input) VIRTIO_STATUS_DRIVER :: u8 where "VIRTIO_STATUS_DRIVER \<equiv> 2"
abbreviation (input) VIRTIO_STATUS_DRIVER_OK :: u8 where "VIRTIO_STATUS_DRIVER_OK \<equiv> 4"

definition virtio_pci_get_status :: "'d ports \<Rightarrow> u32 \<Rightarrow> 'd \<Rightarrow> u8 \<times> 'd" where
  "virtio_pci_get_status hw io_base d = p_inb hw (ucast (io_base + VIRTIO_PCI_STATUS)) d"

definition virtio_pci_set_status :: "'d ports \<Rightarrow> u32 \<Rightarrow> u8 \<Rightarrow> 'd \<Rightarrow> 'd" where
  "virtio_pci_set_status hw io_base status d = p_outb hw (ucast (io_base + VIRTIO_PCI_STATUS)) status d"

definition virtio_pci_get_features :: "'d ports \<Rightarrow> u32 \<Rightarrow> 'd \<Rightarrow> u32 \<times> 'd" where
  "virtio_pci_get_features hw io_base d = p_inl hw (ucast (io_base + VIRTIO_PCI_HOST_FEATURES)) d"

definition virtio_pci_set_features :: "'d ports \<Rightarrow> u32 \<Rightarrow> u32 \<Rightarrow> 'd \<Rightarrow> 'd" where
  "virtio_pci_set_features hw io_base features d = p_outl hw (ucast (io_base + VIRTIO_PCI_GUEST_FEATURES)) features d"

definition virtio_pci_cfg_read8 :: "'d ports \<Rightarrow> u32 \<Rightarrow> u32 \<Rightarrow> 'd \<Rightarrow> u8 \<times> 'd" where
  "virtio_pci_cfg_read8 hw io_base off d = p_inb hw (ucast (io_base + VIRTIO_PCI_CONFIG + off)) d"

definition virtio_pci_cfg_read16 :: "'d ports \<Rightarrow> u32 \<Rightarrow> u32 \<Rightarrow> 'd \<Rightarrow> u16 \<times> 'd" where
  "virtio_pci_cfg_read16 hw io_base off d = p_inw hw (ucast (io_base + VIRTIO_PCI_CONFIG + off)) d"

definition virtio_pci_cfg_read32 :: "'d ports \<Rightarrow> u32 \<Rightarrow> u32 \<Rightarrow> 'd \<Rightarrow> u32 \<times> 'd" where
  "virtio_pci_cfg_read32 hw io_base off d = p_inl hw (ucast (io_base + VIRTIO_PCI_CONFIG + off)) d"

definition virtio_pci_isr_status :: "'d ports \<Rightarrow> u32 \<Rightarrow> 'd \<Rightarrow> u8 \<times> 'd" where
  "virtio_pci_isr_status hw io_base d = p_inb hw (ucast (io_base + VIRTIO_PCI_ISR)) d"

definition virtio_pci_notify :: "'d ports \<Rightarrow> virtqueue \<Rightarrow> 'd \<Rightarrow> 'd" where
  "virtio_pci_notify hw vq d = p_outw hw (ucast (vq_io_base vq + VIRTIO_PCI_QUEUE_NOTIFY)) (vq_queue_index vq) d"

section \<open>Set-up\<close>

definition virtio_pci_enable_bus_master :: "'d ports \<Rightarrow> pci_device \<Rightarrow> 'd \<Rightarrow> 'd" where
  "virtio_pci_enable_bus_master hw pci d =
     (let (cmd, d) = pci_cfg_read16 hw (pd_bus pci) (pd_dev pci) (pd_func pci) 0x04 d;
          cmd = cmd OR push_bit 2 1;
          (st, d) = pci_cfg_read16 hw (pd_bus pci) (pd_dev pci) (pd_func pci) 0x06 d
      in pci_cfg_write32 hw (pd_bus pci) (pd_dev pci) (pd_func pci) 0x04
           (ucast cmd OR push_bit 16 (ucast st)) d)"

text \<open>The caller's \<open>io_base\<close> is \<open>None\<close> when nothing is stored to it.\<close>

definition virtio_pci_init :: "'d ports \<Rightarrow> pci_device option \<Rightarrow> 'd world \<Rightarrow> (rc \<times> u32 option \<times> 'd world) exec" where
  "virtio_pci_init hw pci w =
     (case pci of None \<Rightarrow> Some (- 1, None, w)
      | Some pci \<Rightarrow>
          Option.bind (arr_get (pd_bar pci) 0) (\<lambda>bar0.
          if bar0 AND 1 = 0 then
            Option.bind (kprint (''virtio: BAR0 is not I/O space'' @ [CHR 0x0A]) [] w) (\<lambda>w. Some (- 1, None, w))
          else
            let io_base = bar0 AND NOT 0x3;
                d = virtio_pci_enable_bus_master hw pci (w_dev w);
                d = p_outb hw (ucast (io_base + VIRTIO_PCI_STATUS)) VIRTIO_STATUS_RESET d;
                d = p_outb hw (ucast (io_base + VIRTIO_PCI_STATUS)) VIRTIO_STATUS_ACKNOWLEDGE d;
                (status, d) = p_inb hw (ucast (io_base + VIRTIO_PCI_STATUS)) d;
                d = p_outb hw (ucast (io_base + VIRTIO_PCI_STATUS)) (status OR VIRTIO_STATUS_DRIVER) d
            in Some (0, Some io_base, w\<lparr>w_dev := d\<rparr>)))"

fun chain_loop :: "nat list \<Rightarrow> vring_desc list \<Rightarrow> vring_desc list exec" where
  "chain_loop [] ds = Some ds"
| "chain_loop (i # js) ds =
     Option.bind (arr_get ds i) (\<lambda>e.
     Option.bind (arr_set ds i (e\<lparr>de_next := of_nat (i + 1)\<rparr>)) (chain_loop js))"

definition init_chain :: "u16 \<Rightarrow> vring_desc list \<Rightarrow> vring_desc list exec" where
  "init_chain num ds =
     Option.bind (chain_loop [0..<unat num - 1] ds) (\<lambda>ds.
     Option.bind (arr_get ds (unat num - 1)) (\<lambda>e. arr_set ds (unat num - 1) (e\<lparr>de_next := 0xFFFF\<rparr>)))"

text \<open>\<open>hhdm\<close> is the offset of the direct map of physical memory.\<close>

definition virtio_pci_setup_queue ::
  "'d ports \<Rightarrow> u64 \<Rightarrow> u32 \<Rightarrow> u16 \<Rightarrow> virtqueue \<Rightarrow> pmm \<Rightarrow> 'd world \<Rightarrow> (rc \<times> virtqueue \<times> pmm \<times> 'd world) exec" where
  "virtio_pci_setup_queue hw hhdm io_base queue_idx vq pm w =
     (let d = p_outw hw (ucast (io_base + VIRTIO_PCI_QUEUE_SEL)) queue_idx (w_dev w);
          (num, d) = p_inw hw (ucast (io_base + VIRTIO_PCI_QUEUE_SIZE)) d;
          w = w\<lparr>w_dev := d\<rparr>
      in if num = 0 then
           Option.bind (kprint (''virtio: queue %u does not exist'' @ [CHR 0x0A]) [KUint (ucast queue_idx)] w) (\<lambda>w.
             Some (- 1, vq, pm, w))
         else
           let total = vring_total_size num;
               pages = (total + 4095) div 4096
           in Option.bind (pmm_alloc_pages pages pm) (\<lambda>(phys, pm).
           if phys = 0 then
             Option.bind (kprint (''virtio: cannot allocate %lu pages for queue %u'' @ [CHR 0x0A])
                 [KUlong pages, KUint (ucast queue_idx)] w) (\<lambda>w. Some (- 1, vq, pm, w))
           else
             let virt = phys + hhdm;
                 used_offset = vring_align (vring_desc_size num + vring_avail_size num) 4096;
                 vq = vq\<lparr>vq_ring := zero_ring num, vq_num := num, vq_phys_base := phys, vq_io_base := io_base,
                   vq_queue_index := queue_idx, vq_desc := virt, vq_avail := virt + vring_desc_size num,
                   vq_used := virt + used_offset, vq_last_used_idx := 0, vq_num_free := num, vq_free_head := 0\<rparr>
             in Option.bind (init_chain num (vr_desc (vq_ring vq))) (\<lambda>ds.
             let w = w\<lparr>w_dev := p_outl hw (ucast (io_base + VIRTIO_PCI_QUEUE_PFN)) (ucast (drop_bit 12 phys)) (w_dev w)\<rparr>
             in Option.bind (kprint (''virtio: queue %u size=%u phys=0x%lx'' @ [CHR 0x0A])
                  [KUint (ucast queue_idx), KUint (ucast num), KUlong phys] w) (\<lambda>w.
                Some (0, vq\<lparr>vq_ring := (vq_ring vq)\<lparr>vr_desc := ds\<rparr>\<rparr>, pm, w)))))"


section \<open>The parts of a ring\<close>

lemma vring_sizes:
  "unat (vring_desc_size num) = 16 * unat num"
  "unat (vring_avail_size num) = 2 * unat num + 6"
  "unat (vring_used_size num) = 8 * unat num + 6"
proof -
  have n: "unat (ucast num :: u64) = unat num" "unat num < 65536"
    using unsigned_less [of num] by (simp_all add: unat_ucast_up)
  have m: "unat (ucast num * c :: u64) = unat num * unat c" if "unat c \<le> 16" for c :: u64
  proof (subst unat_mult_nowrap)
    have "unat num * unat c \<le> 65536 * 16" using n(2) that by (intro mult_le_mono) simp_all
    then show "unat (ucast num :: u64) * unat c < 2 ^ LENGTH(64)" using n(1) by simp
  qed (simp add: n(1))
  show "unat (vring_desc_size num) = 16 * unat num" by (simp add: vring_desc_size_def m)
  have "unat (4 + ucast num * 2 :: u64) = 4 + unat num * 2"
    using n(2) by (subst unat_add_nowrap) (simp_all add: m)
  then show "unat (vring_avail_size num) = 2 * unat num + 6"
    unfolding vring_avail_size_def using n(2) by (subst unat_add_nowrap) simp_all
  have "unat (4 + ucast num * 8 :: u64) = 4 + unat num * 8"
    using n(2) by (subst unat_add_nowrap) (simp_all add: m)
  then show "unat (vring_used_size num) = 8 * unat num + 6"
    unfolding vring_used_size_def using n(2) by (subst unat_add_nowrap) simp_all
qed

definition used_offset :: "u16 \<Rightarrow> u64" where
  "used_offset num = vring_align (vring_desc_size num + vring_avail_size num) 4096"

lemma unat_used_offset: "unat (used_offset num) = align_up (18 * unat num + 6) 4096"
proof -
  have n: "unat num < 65536" using unsigned_less [of num] by simp
  have "unat (vring_desc_size num + vring_avail_size num) = 18 * unat num + 6"
    using n by (subst unat_add_nowrap) (simp_all add: vring_sizes)
  then show ?thesis
    using unat_align_up [of 12 "vring_desc_size num + vring_avail_size num"] n
    by (simp add: used_offset_def vring_align_def)
qed

lemma align_up_less: "0 < a \<Longrightarrow> align_up x a < x + a"
  by (rule le_less_trans [OF _ diff_less [of 1]]) (simp_all add: align_up_def div_times_less_eq_dividend)

lemma unat_total_size: "unat (vring_total_size num) = unat (used_offset num) + 8 * unat num + 6"
proof -
  have n: "unat num < 65536" using unsigned_less [of num] by simp
  have "unat (used_offset num) < 18 * unat num + 6 + 4096"
    using align_up_less [of 4096 "18 * unat num + 6"] by (simp add: unat_used_offset)
  then have "unat (used_offset num + vring_used_size num) = unat (used_offset num) + (8 * unat num + 6)"
    using n by (subst unat_add_nowrap) (simp_all add: vring_sizes)
  then show ?thesis by (simp add: vring_total_size_def Let_def flip: used_offset_def)
qed

definition ring_pages :: "u16 \<Rightarrow> u64" where
  "ring_pages num = (vring_total_size num + 4095) div 4096"

lemma unat_ring_pages: "unat (ring_pages num) = (unat (vring_total_size num) + 4095) div 4096"
proof -
  have n: "unat num < 65536" using unsigned_less [of num] by simp
  have "unat (used_offset num) < 18 * unat num + 6 + 4096"
    using align_up_less [of 4096 "18 * unat num + 6"] by (simp add: unat_used_offset)
  then have "unat (vring_total_size num + 4095) = unat (vring_total_size num) + 4095"
    using n by (subst unat_add_nowrap) (simp_all add: unat_total_size)
  then show ?thesis by (simp add: ring_pages_def unat_div)
qed

section \<open>The free chain\<close>

text \<open>\<open>free_chain ds h l\<close>: following \<open>next\<close> from descriptor \<open>h\<close> visits the descriptors \<open>l\<close>.\<close>

fun free_chain :: "vring_desc list \<Rightarrow> u16 \<Rightarrow> nat list \<Rightarrow> bool" where
  "free_chain ds h [] \<longleftrightarrow> True"
| "free_chain ds h (i # l) \<longleftrightarrow> unat h = i \<and> i < length ds \<and> free_chain ds (de_next (ds ! i)) l"

definition queue_ok :: "nat list \<Rightarrow> virtqueue \<Rightarrow> bool" where
  "queue_ok l q \<longleftrightarrow> vq_num q \<noteq> 0 \<and> length (vr_desc (vq_ring q)) = unat (vq_num q)
     \<and> length (vr_avail_ring (vq_ring q)) = unat (vq_num q)
     \<and> free_chain (vr_desc (vq_ring q)) (vq_free_head q) l \<and> distinct l
     \<and> unat (vq_num_free q) = length l"

lemma free_chain_cong:
  assumes "free_chain ds h l" "length ds' = length ds" "\<forall>i\<in>set l. de_next (ds' ! i) = de_next (ds ! i)"
  shows "free_chain ds' h l"
  using assms by (induction l arbitrary: h) auto

lemma free_chain_in: "free_chain ds h l \<Longrightarrow> i \<in> set l \<Longrightarrow> i < length ds"
  by (induction l arbitrary: h) auto

lemma chain_loop_append:
  "chain_loop (xs @ ys) ds = Option.bind (chain_loop xs ds) (chain_loop ys)"
  by (induction xs arbitrary: ds) (auto simp: arr_get_def arr_set_def)

lemma chain_loop_upt:
  "k \<le> length ds \<Longrightarrow> chain_loop [0..<k] ds =
     Some (map (\<lambda>i. if i < k then (ds ! i)\<lparr>de_next := of_nat (i + 1)\<rparr> else ds ! i) [0..<length ds])"
proof (induction k)
  case 0
  then show ?case by (simp add: map_nth)
next
  case (Suc k)
  then show ?case
    by (auto simp: chain_loop_append exec_simps nth_list_update less_Suc_eq intro!: nth_equalityI)
qed

lemma free_chain_upt:
  assumes "\<forall>i<n - 1. de_next (ds ! i) = of_nat (i + 1)" "length ds = n" "n < 65536"
  shows "k \<le> n \<Longrightarrow> k < n \<longrightarrow> unat h = k \<Longrightarrow> free_chain ds h [k..<n]"
proof (induction "n - k" arbitrary: k h)
  case (Suc m)
  then have k: "k < n" "[k..<n] = k # [Suc k..<n]" by (simp_all add: upt_conv_Cons)
  have "Suc k < n \<longrightarrow> unat (de_next (ds ! k)) = Suc k"
    using assms by (auto simp: unat_of_nat_lt simp del: of_nat_Suc)
  then show ?case using Suc.hyps(1) [of "Suc k" "de_next (ds ! k)"] Suc.hyps(2) Suc.prems k assms(2) by simp
qed simp

lemma kprintf_queue:
  "\<exists>s. kprintf (''virtio: queue %u does not exist'' @ [CHR 0x0A]) [KUint q] = Some s"
  "\<exists>s. kprintf (''virtio: cannot allocate %lu pages for queue %u'' @ [CHR 0x0A]) [KUlong n, KUint q] = Some s"
  "\<exists>s. kprintf (''virtio: queue %u size=%u phys=0x%lx'' @ [CHR 0x0A]) [KUint q, KUint u, KUlong n] = Some s"
  by (simp_all add: print_simps)


text \<open>What set-up leaves behind when the device has the queue and the pages are there.\<close>

definition ring_at :: "u64 \<Rightarrow> u64 \<Rightarrow> u32 \<Rightarrow> u16 \<Rightarrow> u16 \<Rightarrow> virtqueue \<Rightarrow> bool" where
  "ring_at hhdm phys io_base idx num q \<longleftrightarrow>
     vq_num q = num \<and> vq_phys_base q = phys \<and> vq_io_base q = io_base \<and> vq_queue_index q = idx
     \<and> vq_desc q = phys + hhdm \<and> vq_avail q = vq_desc q + vring_desc_size num
     \<and> vq_used q = vq_desc q + used_offset num
     \<and> vq_last_used_idx q = 0 \<and> vr_avail_idx (vq_ring q) = 0 \<and> vr_used_idx (vq_ring q) = 0"

lemma init_chain_ok:
  assumes "num \<noteq> 0"
  obtains ds where "init_chain num (vr_desc (zero_ring num)) = Some ds" "length ds = unat num"
    "free_chain ds 0 [0..<unat num]"
proof -
  let ?n = "unat num"
  let ?z = "\<lparr>de_addr = 0, de_len = 0, de_flags = 0, de_next = 0\<rparr>"
  have n: "0 < ?n" "?n < 65536" using assms unsigned_less [of num] by (simp_all add: unat_gt_0)
  define ds where "ds = map (\<lambda>i. if i < ?n - 1 then ?z\<lparr>de_next := of_nat (i + 1)\<rparr> else ?z) [0..<?n]"
  define ds' where "ds' = ds[?n - 1 := ?z\<lparr>de_next := 0xFFFF\<rparr>]"
  have "chain_loop [0..<?n - 1] (replicate ?n ?z) = Some ds"
    using chain_loop_upt [of "?n - 1" "replicate ?n ?z"] n by (auto simp: ds_def intro!: map_cong)
  then have "init_chain num (vr_desc (zero_ring num)) = Some ds'"
    using n by (simp add: init_chain_def zero_ring_def exec_simps ds_def ds'_def)
  moreover have "free_chain ds' 0 [0..<?n]"
    by (rule free_chain_upt) (use n in \<open>auto simp: ds'_def ds_def nth_list_update\<close>)
  moreover have "length ds' = ?n" by (simp add: ds'_def ds_def)
  ultimately show thesis by (intro that)
qed

lemma setup_queue_ok:
  assumes "p_inw hw (ucast (io_base + 0x0C)) (p_outw hw (ucast (io_base + 0x0E)) idx (w_dev w)) = (num, d)"
    "num \<noteq> 0" "pmm_alloc_pages (ring_pages num) pm = Some (phys, pm')" "phys \<noteq> 0"
  shows "\<exists>q c. virtio_pci_setup_queue hw hhdm io_base idx vq pm w =
      Some (0, q, pm', w\<lparr>w_dev := p_outl hw (ucast (io_base + 0x08)) (ucast (drop_bit 12 phys)) d, w_con := c\<rparr>)
    \<and> ring_at hhdm phys io_base idx num q \<and> queue_ok [0..<unat num] q"
proof -
  obtain ds where ds: "init_chain num (vr_desc (zero_ring num)) = Some ds" "length ds = unat num"
    "free_chain ds 0 [0..<unat num]"
    using assms(2) by (rule init_chain_ok)
  obtain s where "kprintf (''virtio: queue %u size=%u phys=0x%lx'' @ [CHR 0x0A])
      [KUint (ucast idx), KUint (ucast num), KUlong phys] = Some s"
    using kprintf_queue(3) by blast
  then have "kprint (''virtio: queue %u size=%u phys=0x%lx'' @ [CHR 0x0A])
      [KUint (ucast idx), KUint (ucast num), KUlong phys] v = Some (v\<lparr>w_con := w_con v @ s\<rparr>)" for v :: "'a world"
    by (simp add: kprint_def)
  then show ?thesis
    using assms ds
    by (simp add: virtio_pci_setup_queue_def Let_def ring_at_def queue_ok_def
        flip: used_offset_def ring_pages_def del: upt_Suc) (auto simp: zero_ring_def)
qed

end
