(* ===== verification/Virtio_Blk.thy ===== *)
theory Virtio_Blk
  imports Virtio_Pci
begin

text \<open>
  The block driver \<open>drivers/virtio/virtio_blk.c\<close>.  The device reads and writes the ring and the
  three request buffers by itself: \<open>dma\<close> is a parameter that says what it does to this shared
  memory each time the driver looks at it.  What the driver relies on is the predicate \<open>serves\<close>:
  the device executes a well-formed request within the time that the driver waits.

  The lemmas show that the driver hands the device a well-formed chain of three descriptors from
  the free chain and returns them in the same order, so that driver and device together behave as
  an array of sectors; and that a request that is not answered in time costs three descriptors.
\<close>

section \<open>State\<close>

record virtio_blk_req =
  rq_type :: u32
  rq_reserved :: u32
  rq_sector :: u64

text \<open>The memory that is shared with the device.\<close>

record blk_mem =
  sm_ring :: vring
  sm_header :: virtio_blk_req
  sm_data :: "u8 list"
  sm_status :: u8

record virtio_blk =
  vb_queue :: virtqueue
  vb_io_base :: u32
  vb_capacity :: u64
  vb_header :: virtio_blk_req
  vb_data :: "u8 list"
  vb_status :: u8
  vb_header_phys :: u64
  vb_data_phys :: u64
  vb_status_phys :: u64

type_synonym 'd dma = "'d \<Rightarrow> blk_mem \<Rightarrow> 'd \<times> blk_mem"

abbreviation (input) VIRTIO_BLK_T_IN :: u32 where "VIRTIO_BLK_T_IN \<equiv> 0"
abbreviation (input) VIRTIO_BLK_T_OUT :: u32 where "VIRTIO_BLK_T_OUT \<equiv> 1"
abbreviation (input) VIRTIO_BLK_S_OK :: u8 where "VIRTIO_BLK_S_OK \<equiv> 0"

definition shared :: "virtio_blk \<Rightarrow> blk_mem" where
  "shared b = \<lparr>sm_ring = vq_ring (vb_queue b), sm_header = vb_header b, sm_data = vb_data b, sm_status = vb_status b\<rparr>"

definition with_shared :: "blk_mem \<Rightarrow> virtio_blk \<Rightarrow> virtio_blk" where
  "with_shared m b = b\<lparr>vb_queue := (vb_queue b)\<lparr>vq_ring := sm_ring m\<rparr>, vb_header := sm_header m,
     vb_data := sm_data m, vb_status := sm_status m\<rparr>"

definition zero_blk :: virtio_blk where
  "zero_blk = \<lparr>vb_queue = zero_queue, vb_io_base = 0, vb_capacity = 0,
     vb_header = \<lparr>rq_type = 0, rq_reserved = 0, rq_sector = 0\<rparr>, vb_data = [], vb_status = 0,
     vb_header_phys = 0, vb_data_phys = 0, vb_status_phys = 0\<rparr>"

section \<open>Set-up\<close>

definition virtio_blk_init ::
  "'d ports \<Rightarrow> u64 \<Rightarrow> pci_device option \<Rightarrow> virtio_blk \<Rightarrow> pmm \<Rightarrow> 'd world \<Rightarrow> (rc \<times> virtio_blk \<times> pmm \<times> 'd world) exec" where
  "virtio_blk_init hw hhdm pci b pm w =
     Option.bind (pmm_alloc_pages 1 pm) (\<lambda>(dma_phys, pm).
     if dma_phys = 0 then
       Option.bind (kprint (''virtio-blk: cannot allocate DMA page'' @ [CHR 0x0A]) [] w) (\<lambda>w. Some (- 1, b, pm, w))
     else
       let b = b\<lparr>vb_header := \<lparr>rq_type = 0, rq_reserved = 0, rq_sector = 0\<rparr>, vb_data := replicate 512 0, vb_status := 0,
             vb_header_phys := dma_phys, vb_data_phys := dma_phys + 512, vb_status_phys := dma_phys + 1024\<rparr>
       in Option.bind (virtio_pci_init hw pci w) (\<lambda>(rc, io, w).
          let b = (case io of None \<Rightarrow> b | Some io_base \<Rightarrow> b\<lparr>vb_io_base := io_base\<rparr>)
          in if rc < 0 then Some (rc, b, pm, w)
          else
            let (features, d) = virtio_pci_get_features hw (vb_io_base b) (w_dev w)
            in Option.bind (kprint (''virtio-blk: host features 0x%x'' @ [CHR 0x0A]) [KUint features] (w\<lparr>w_dev := d\<rparr>)) (\<lambda>w.
               let w = w\<lparr>w_dev := virtio_pci_set_features hw (vb_io_base b) 0 (w_dev w)\<rparr>
               in Option.bind (virtio_pci_setup_queue hw hhdm (vb_io_base b) 0 (vb_queue b) pm w) (\<lambda>(rc, q, pm, w).
                  let b = b\<lparr>vb_queue := q\<rparr>
                  in if rc < 0 then Some (rc, b, pm, w)
                  else
                    let (status, d) = virtio_pci_get_status hw (vb_io_base b) (w_dev w);
                        d = virtio_pci_set_status hw (vb_io_base b) (status OR VIRTIO_STATUS_DRIVER_OK) d;
                        (cap_lo, d) = virtio_pci_cfg_read32 hw (vb_io_base b) 0 d;
                        (cap_hi, d) = virtio_pci_cfg_read32 hw (vb_io_base b) 4 d;
                        b = b\<lparr>vb_capacity := push_bit 32 (ucast cap_hi) OR ucast cap_lo\<rparr>
                    in Option.bind (kprint (''virtio-blk: capacity %lu sectors (%lu KB)'' @ [CHR 0x0A])
                           [KUlong (vb_capacity b), KUlong (vb_capacity b div 2)] (w\<lparr>w_dev := d\<rparr>)) (\<lambda>w.
                         Some (0, b, pm, w))))))"

section \<open>Requests\<close>

text \<open>The loops over 512 bytes.\<close>

definition copy_512 :: "u8 list \<Rightarrow> u8 list \<Rightarrow> u8 list exec" where
  "copy_512 src dst = (if 512 \<le> length src \<and> 512 \<le> length dst then Some (take 512 src @ drop 512 dst) else None)"

definition upd_desc :: "u16 \<Rightarrow> (vring_desc \<Rightarrow> vring_desc) \<Rightarrow> vring_desc list \<Rightarrow> vring_desc list exec" where
  "upd_desc i f ds = Option.bind (arr_get ds (unat i)) (\<lambda>e. arr_set ds (unat i) (f e))"

text \<open>Three descriptors from the free chain.\<close>

definition take_three :: "virtqueue \<Rightarrow> (u16 \<times> u16 \<times> u16 \<times> virtqueue) exec" where
  "take_three q =
     (let ds = vr_desc (vq_ring q); d0 = vq_free_head q
      in Option.bind (arr_get ds (unat d0)) (\<lambda>e0. let d1 = de_next e0
      in Option.bind (arr_get ds (unat d1)) (\<lambda>e1. let d2 = de_next e1
      in Option.bind (arr_get ds (unat d2)) (\<lambda>e2.
         Some (d0, d1, d2, q\<lparr>vq_free_head := de_next e2, vq_num_free := vq_num_free q - 3\<rparr>)))))"

definition link_three :: "u32 \<Rightarrow> u16 \<Rightarrow> u16 \<Rightarrow> u16 \<Rightarrow> virtio_blk \<Rightarrow> vring_desc list \<Rightarrow> vring_desc list exec" where
  "link_three type d0 d1 d2 b ds =
     Option.bind (upd_desc d0 (\<lambda>_. \<lparr>de_addr = vb_header_phys b, de_len = 16, de_flags = VRING_DESC_F_NEXT, de_next = d1\<rparr>) ds) (\<lambda>ds.
     Option.bind (upd_desc d1 (\<lambda>_. \<lparr>de_addr = vb_data_phys b, de_len = 512,
        de_flags = (if type = VIRTIO_BLK_T_IN then VRING_DESC_F_NEXT OR VRING_DESC_F_WRITE else VRING_DESC_F_NEXT),
        de_next = d2\<rparr>) ds) (\<lambda>ds.
     upd_desc d2 (\<lambda>_. \<lparr>de_addr = vb_status_phys b, de_len = 1, de_flags = VRING_DESC_F_WRITE, de_next = 0\<rparr>) ds))"

definition blk_submit :: "u32 \<Rightarrow> u64 \<Rightarrow> u8 list option \<Rightarrow> virtio_blk \<Rightarrow> (u16 \<times> u16 \<times> u16 \<times> virtio_blk) exec" where
  "blk_submit type sector buf b =
     (let b = b\<lparr>vb_header := \<lparr>rq_type = type, rq_reserved = 0, rq_sector = sector\<rparr>\<rparr>
      in Option.bind (case buf of Some src \<Rightarrow> if type = VIRTIO_BLK_T_OUT then copy_512 src (vb_data b) else Some (vb_data b)
                      | None \<Rightarrow> Some (vb_data b)) (\<lambda>data.
         let b = b\<lparr>vb_data := data, vb_status := 0xFF\<rparr>
         in Option.bind (take_three (vb_queue b)) (\<lambda>(d0, d1, d2, q).
            Option.bind (link_three type d0 d1 d2 b (vr_desc (vq_ring q))) (\<lambda>ds.
            let r = (vq_ring q)\<lparr>vr_desc := ds\<rparr>; avail_idx = vr_avail_idx r
            in Option.bind (arr_set (vr_avail_ring r) (unat (avail_idx mod vq_num q)) d0) (\<lambda>ring.
               Some (d0, d1, d2, b\<lparr>vb_queue := q\<lparr>vq_ring := r\<lparr>vr_avail_ring := ring, vr_avail_idx := avail_idx + 1\<rparr>\<rparr>\<rparr>))))))"

text \<open>The wait: at most \<open>n\<close> looks at the used index.\<close>

fun blk_poll :: "'d dma \<Rightarrow> nat \<Rightarrow> u16 \<Rightarrow> 'd \<Rightarrow> blk_mem \<Rightarrow> 'd \<times> blk_mem" where
  "blk_poll dma n lu d m =
     (if n = 0 then (d, m)
      else let (d, m) = dma d m
           in if vr_used_idx (sm_ring m) \<noteq> lu then (d, m) else blk_poll dma (n - 1) lu d m)"

declare blk_poll.simps [simp del]

definition blk_reclaim :: "u16 \<Rightarrow> u16 \<Rightarrow> u16 \<Rightarrow> virtqueue \<Rightarrow> virtqueue exec" where
  "blk_reclaim d0 d1 d2 q =
     (let q = q\<lparr>vq_last_used_idx := vq_last_used_idx q + 1\<rparr>
      in Option.bind (upd_desc d2 (\<lambda>e. e\<lparr>de_next := vq_free_head q\<rparr>) (vr_desc (vq_ring q))) (\<lambda>ds.
         Option.bind (upd_desc d1 (\<lambda>e. e\<lparr>de_next := d2\<rparr>) ds) (\<lambda>ds.
         Option.bind (upd_desc d0 (\<lambda>e. e\<lparr>de_next := d1\<rparr>) ds) (\<lambda>ds.
           Some (q\<lparr>vq_ring := (vq_ring q)\<lparr>vr_desc := ds\<rparr>, vq_free_head := d0, vq_num_free := vq_num_free q + 3\<rparr>)))))"

text \<open>\<open>buf\<close> is the caller's buffer, \<open>None\<close> for a null pointer; the result has its contents afterwards.\<close>

definition virtio_blk_do_io ::
  "'d ports \<Rightarrow> 'd dma \<Rightarrow> u32 \<Rightarrow> u64 \<Rightarrow> u8 list option \<Rightarrow> virtio_blk \<Rightarrow> 'd world \<Rightarrow>
   (rc \<times> u8 list option \<times> virtio_blk \<times> 'd world) exec" where
  "virtio_blk_do_io hw dma type sector buf b w =
     (if vq_num_free (vb_queue b) < 3 then
        Option.bind (kprint (''virtio-blk: no free descriptors'' @ [CHR 0x0A]) [] w) (\<lambda>w. Some (- 1, buf, b, w))
      else
        Option.bind (blk_submit type sector buf b) (\<lambda>(d0, d1, d2, b).
        let d = virtio_pci_notify hw (vb_queue b) (w_dev w);
            lu = vq_last_used_idx (vb_queue b);
            (d, m) = blk_poll dma 10000000 lu d (shared b);
            (d, m) = dma d m;
            b = with_shared m b;
            w = w\<lparr>w_dev := d\<rparr>
        in if vr_used_idx (vq_ring (vb_queue b)) = lu then
             Option.bind (kprint (''virtio-blk: timeout waiting for completion'' @ [CHR 0x0A]) [] w) (\<lambda>w. Some (- 1, buf, b, w))
           else
             Option.bind (blk_reclaim d0 d1 d2 (vb_queue b)) (\<lambda>q.
             let b = b\<lparr>vb_queue := q\<rparr>
             in if vb_status b \<noteq> VIRTIO_BLK_S_OK then
                  Option.bind (kprint (''virtio-blk: I/O error status=%u'' @ [CHR 0x0A]) [KUint (ucast (vb_status b))] w) (\<lambda>w.
                    Some (- 1, buf, b, w))
                else (case buf of
                        Some dst \<Rightarrow>
                          if type = VIRTIO_BLK_T_IN then Option.bind (copy_512 (vb_data b) dst) (\<lambda>dst. Some (0, Some dst, b, w))
                          else Some (0, buf, b, w)
                      | None \<Rightarrow> Some (0, buf, b, w)))))"

definition virtio_blk_read where
  "virtio_blk_read hw dma sector buf b w = virtio_blk_do_io hw dma VIRTIO_BLK_T_IN sector buf b w"

definition virtio_blk_write where
  "virtio_blk_write hw dma sector buf b w = virtio_blk_do_io hw dma VIRTIO_BLK_T_OUT sector buf b w"

definition virtio_blk_capacity :: "virtio_blk \<Rightarrow> u64" where
  "virtio_blk_capacity b = vb_capacity b"


section \<open>Submission\<close>

definition chain_descs :: "u32 \<Rightarrow> virtio_blk \<Rightarrow> u16 \<Rightarrow> u16 \<Rightarrow> u16 \<Rightarrow> vring_desc list \<Rightarrow> vring_desc list" where
  "chain_descs type b d0 d1 d2 ds = ds
     [unat d0 := \<lparr>de_addr = vb_header_phys b, de_len = 16, de_flags = 1, de_next = d1\<rparr>,
      unat d1 := \<lparr>de_addr = vb_data_phys b, de_len = 512, de_flags = (if type = 0 then 1 OR 2 else 1), de_next = d2\<rparr>,
      unat d2 := \<lparr>de_addr = vb_status_phys b, de_len = 1, de_flags = 2, de_next = 0\<rparr>]"

definition submitted :: "u32 \<Rightarrow> u64 \<Rightarrow> u8 list \<Rightarrow> u16 \<Rightarrow> u16 \<Rightarrow> u16 \<Rightarrow> u16 \<Rightarrow> virtio_blk \<Rightarrow> virtio_blk" where
  "submitted type sector data d0 d1 d2 d3 b =
     b\<lparr>vb_header := \<lparr>rq_type = type, rq_reserved = 0, rq_sector = sector\<rparr>, vb_data := data, vb_status := 0xFF,
       vb_queue := (vb_queue b)\<lparr>vq_free_head := d3, vq_num_free := vq_num_free (vb_queue b) - 3,
         vq_ring := (vq_ring (vb_queue b))\<lparr>vr_desc := chain_descs type b d0 d1 d2 (vr_desc (vq_ring (vb_queue b))),
           vr_avail_ring := (vr_avail_ring (vq_ring (vb_queue b)))
             [unat (vr_avail_idx (vq_ring (vb_queue b)) mod vq_num (vb_queue b)) := d0],
           vr_avail_idx := vr_avail_idx (vq_ring (vb_queue b)) + 1\<rparr>\<rparr>\<rparr>"

lemma unat_mod_less: "n \<noteq> 0 \<Longrightarrow> unat ((x :: u16) mod n) < unat n"
  by (simp add: unat_mod unat_gt_0)

text \<open>The first four links of the free chain.\<close>

lemma queue_three:
  assumes "queue_ok (i # j # k # l) q"
  obtains d0 d1 d2 d3 where "vq_free_head q = d0" "unat d0 = i" "unat d1 = j" "unat d2 = k"
    "de_next (vr_desc (vq_ring q) ! i) = d1" "de_next (vr_desc (vq_ring q) ! j) = d2"
    "de_next (vr_desc (vq_ring q) ! k) = d3"
    "i < unat (vq_num q)" "j < unat (vq_num q)" "k < unat (vq_num q)"
    "free_chain (vr_desc (vq_ring q)) d3 l"
  using assms by (auto simp: queue_ok_def)

lemma blk_submit_ok:
  assumes "queue_ok (i # j # k # l) (vb_queue b)"
    "(case buf of Some src \<Rightarrow> if type = 1 then copy_512 src (vb_data b) else Some (vb_data b) | None \<Rightarrow> Some (vb_data b)) = Some data"
  obtains d0 d1 d2 d3 where "unat d0 = i" "unat d1 = j" "unat d2 = k"
    "de_next (vr_desc (vq_ring (vb_queue b)) ! k) = d3" "vq_free_head (vb_queue b) = d0"
    "i < unat (vq_num (vb_queue b))" "j < unat (vq_num (vb_queue b))" "k < unat (vq_num (vb_queue b))"
    "free_chain (vr_desc (vq_ring (vb_queue b))) d3 l"
    "blk_submit type sector buf b = Some (d0, d1, d2, submitted type sector data d0 d1 d2 d3 b)"
proof -
  obtain d0 d1 d2 d3 where d: "vq_free_head (vb_queue b) = d0" "unat d0 = i" "unat d1 = j" "unat d2 = k"
    "de_next (vr_desc (vq_ring (vb_queue b)) ! i) = d1" "de_next (vr_desc (vq_ring (vb_queue b)) ! j) = d2"
    "de_next (vr_desc (vq_ring (vb_queue b)) ! k) = d3"
    "i < unat (vq_num (vb_queue b))" "j < unat (vq_num (vb_queue b))" "k < unat (vq_num (vb_queue b))"
    "free_chain (vr_desc (vq_ring (vb_queue b))) d3 l"
    using assms(1) by (rule queue_three)
  have q: "length (vr_desc (vq_ring (vb_queue b))) = unat (vq_num (vb_queue b))"
    "length (vr_avail_ring (vq_ring (vb_queue b))) = unat (vq_num (vb_queue b))" "vq_num (vb_queue b) \<noteq> 0"
    using assms(1) by (simp_all add: queue_ok_def)
  have take: "take_three (vb_queue b) = Some (d0, d1, d2,
      (vb_queue b)\<lparr>vq_free_head := d3, vq_num_free := vq_num_free (vb_queue b) - 3\<rparr>)"
    using d q by (simp add: take_three_def Let_def exec_simps)
  have link: "link_three type d0 d1 d2 b' (vr_desc (vq_ring (vb_queue b))) =
      Some (chain_descs type b d0 d1 d2 (vr_desc (vq_ring (vb_queue b))))"
    if "vb_header_phys b' = vb_header_phys b" "vb_data_phys b' = vb_data_phys b" "vb_status_phys b' = vb_status_phys b" for b'
    using d q that by (simp add: link_three_def chain_descs_def upd_desc_def exec_simps)
  have "blk_submit type sector buf b = Some (d0, d1, d2, submitted type sector data d0 d1 d2 d3 b)"
    using assms(2) take link q unat_mod_less [OF q(3)]
    by (cases buf; cases "type = 1") (simp_all add: blk_submit_def Let_def submitted_def exec_simps)
  then show thesis using d by (intro that) simp_all
qed

section \<open>A device that serves requests\<close>

text \<open>The chain that the newest entry of the available ring names is a request: a header, a sector of
  data that the device may write only for a read, and a status byte.\<close>

definition request :: "u64 \<Rightarrow> u64 \<Rightarrow> u64 \<Rightarrow> u16 \<Rightarrow> blk_mem \<Rightarrow> bool" where
  "request hp dp sp slot m \<longleftrightarrow>
     (let r = sm_ring m; d0 = vr_avail_ring r ! unat (slot mod of_nat (length (vr_avail_ring r))); t = rq_type (sm_header m)
      in \<exists>d1 d2. distinct [unat d0, unat d1, unat d2] \<and> (\<forall>d\<in>{d0, d1, d2}. unat d < length (vr_desc r))
         \<and> vr_desc r ! unat d0 = \<lparr>de_addr = hp, de_len = 16, de_flags = 1, de_next = d1\<rparr>
         \<and> vr_desc r ! unat d1 = \<lparr>de_addr = dp, de_len = 512, de_flags = (if t = 0 then 3 else 1), de_next = d2\<rparr>
         \<and> vr_desc r ! unat d2 = \<lparr>de_addr = sp, de_len = 1, de_flags = 2, de_next = 0\<rparr>
         \<and> t \<in> {0, 1} \<and> length (sm_data m) = 512)"

text \<open>The memory after the device has executed the request on its sectors \<open>disk\<close>.\<close>

definition answered :: "(u64 \<Rightarrow> u8 list) \<Rightarrow> blk_mem \<Rightarrow> blk_mem \<Rightarrow> bool" where
  "answered disk m m' \<longleftrightarrow>
     (\<exists>u. m' = m\<lparr>sm_ring := (sm_ring m)\<lparr>vr_used_idx := vr_used_idx (sm_ring m) + 1, vr_used_ring := u\<rparr>,
       sm_status := 0, sm_data := (if rq_type (sm_header m) = 0 then disk (rq_sector (sm_header m)) else sm_data m)\<rparr>)"

definition disk_after :: "blk_mem \<Rightarrow> (u64 \<Rightarrow> u8 list) \<Rightarrow> u64 \<Rightarrow> u8 list" where
  "disk_after m disk = (if rq_type (sm_header m) = 0 then disk else disk(rq_sector (sm_header m) := sm_data m))"

text \<open>A device in a state of \<open>S\<close> holds sectors \<open>disk\<close> and has consumed \<open>seen\<close> entries of the available
  ring.  Without work it leaves the memory alone; with one request it either lets time pass
  (\<open>lag\<close> bounds how often) or executes it.\<close>

record 'd disk_view =
  dv_states :: "'d set"
  dv_disk :: "'d \<Rightarrow> u64 \<Rightarrow> u8 list"
  dv_seen :: "'d \<Rightarrow> u16"
  dv_lag :: "'d \<Rightarrow> nat"

definition unchanged :: "'d disk_view \<Rightarrow> 'd \<Rightarrow> 'd \<Rightarrow> bool" where
  "unchanged v d d' \<longleftrightarrow> d' \<in> dv_states v \<and> dv_disk v d' = dv_disk v d \<and> dv_seen v d' = dv_seen v d"

definition idle_ok :: "'d disk_view \<Rightarrow> 'd dma \<Rightarrow> bool" where
  "idle_ok v dma \<longleftrightarrow> (\<forall>d\<in>dv_states v. \<forall>m. dv_seen v d = vr_avail_idx (sm_ring m) \<longrightarrow>
     snd (dma d m) = m \<and> unchanged v d (fst (dma d m)))"

definition work_ok :: "'d disk_view \<Rightarrow> u64 \<Rightarrow> u64 \<Rightarrow> u64 \<Rightarrow> u64 \<Rightarrow> 'd dma \<Rightarrow> bool" where
  "work_ok v cap hp dp sp dma \<longleftrightarrow> (\<forall>d\<in>dv_states v. \<forall>m.
     vr_avail_idx (sm_ring m) = dv_seen v d + 1 \<and> request hp dp sp (dv_seen v d) m \<and> rq_sector (sm_header m) < cap \<longrightarrow>
     (case dma d m of (d', m') \<Rightarrow>
        m' = m \<and> unchanged v d d' \<and> dv_lag v d' < dv_lag v d \<or>
        d' \<in> dv_states v \<and> answered (dv_disk v d) m m' \<and> dv_seen v d' = dv_seen v d + 1 \<and>
        dv_disk v d' = disk_after m (dv_disk v d)))"

definition serves :: "'d disk_view \<Rightarrow> u64 \<Rightarrow> 'd ports \<Rightarrow> 'd dma \<Rightarrow> virtio_blk \<Rightarrow> bool" where
  "serves v cap hw dma b \<longleftrightarrow>
     idle_ok v dma \<and> work_ok v cap (vb_header_phys b) (vb_data_phys b) (vb_status_phys b) dma
     \<and> (\<forall>d\<in>dv_states v. dv_lag v d < 10000000 \<and> (\<forall>s. length (dv_disk v d s) = 512)
        \<and> unchanged v d (virtio_pci_notify hw (vb_queue b) d))"

lemma blk_poll_answers:
  assumes "work_ok v cap hp dp sp dma" "d \<in> dv_states v" "dv_lag v d < n"
    "vr_avail_idx (sm_ring m) = dv_seen v d + 1" "request hp dp sp (dv_seen v d) m" "rq_sector (sm_header m) < cap"
    "vr_used_idx (sm_ring m) = lu"
  shows "\<exists>d' m'. blk_poll dma n lu d m = (d', m') \<and> d' \<in> dv_states v \<and> answered (dv_disk v d) m m'
    \<and> dv_seen v d' = dv_seen v d + 1 \<and> dv_disk v d' = disk_after m (dv_disk v d)"
  using assms(2-5)
proof (induction n arbitrary: d)
  case (Suc n)
  obtain d1 m1 where dm: "dma d m = (d1, m1)" by fastforce
  have "m1 = m \<and> unchanged v d d1 \<and> dv_lag v d1 < dv_lag v d \<or>
      d1 \<in> dv_states v \<and> answered (dv_disk v d) m m1 \<and> dv_seen v d1 = dv_seen v d + 1 \<and>
      dv_disk v d1 = disk_after m (dv_disk v d)"
    using assms(1,6) Suc.prems dm by (fastforce simp: work_ok_def)
  then show ?case
  proof
    assume "m1 = m \<and> unchanged v d d1 \<and> dv_lag v d1 < dv_lag v d"
    then have w: "m1 = m" "d1 \<in> dv_states v" "dv_disk v d1 = dv_disk v d" "dv_seen v d1 = dv_seen v d" "dv_lag v d1 < n"
      using Suc.prems(2) by (simp_all add: unchanged_def)
    have "blk_poll dma (Suc n) lu d m = blk_poll dma n lu d1 m"
      using dm assms(7) w(1) by (simp add: blk_poll.simps [of dma "Suc n"])
    then show ?thesis using Suc.IH [OF w(2,5)] Suc.prems w by simp
  next
    assume a: "d1 \<in> dv_states v \<and> answered (dv_disk v d) m m1 \<and> dv_seen v d1 = dv_seen v d + 1 \<and>
      dv_disk v d1 = disk_after m (dv_disk v d)"
    then have "vr_used_idx (sm_ring m1) \<noteq> lu" using assms(7) by (auto simp: answered_def)
    then show ?thesis using a dm by (simp add: blk_poll.simps [of dma "Suc n"])
  qed
qed simp


section \<open>A request that is served\<close>

text \<open>The driver is ready: \<open>l\<close> lists the free descriptors, and everything submitted has been completed.\<close>

definition blk_ready :: "nat list \<Rightarrow> virtio_blk \<Rightarrow> bool" where
  "blk_ready l b \<longleftrightarrow> queue_ok l (vb_queue b) \<and> vr_used_idx (vq_ring (vb_queue b)) = vq_last_used_idx (vb_queue b)
     \<and> length (vb_data b) = 512"

lemma chain_descs_nth:
  assumes "distinct [unat d0, unat d1, unat d2]" "unat d0 < length ds" "unat d1 < length ds" "unat d2 < length ds"
  shows "chain_descs type b d0 d1 d2 ds ! unat d0 = \<lparr>de_addr = vb_header_phys b, de_len = 16, de_flags = 1, de_next = d1\<rparr>"
    "chain_descs type b d0 d1 d2 ds ! unat d1 =
      \<lparr>de_addr = vb_data_phys b, de_len = 512, de_flags = (if type = 0 then 3 else 1), de_next = d2\<rparr>"
    "chain_descs type b d0 d1 d2 ds ! unat d2 = \<lparr>de_addr = vb_status_phys b, de_len = 1, de_flags = 2, de_next = 0\<rparr>"
    "i \<notin> {unat d0, unat d1, unat d2} \<Longrightarrow> chain_descs type b d0 d1 d2 ds ! i = ds ! i"
    "length (chain_descs type b d0 d1 d2 ds) = length ds"
  using assms by (auto simp: chain_descs_def nth_list_update)

lemma of_nat_unat16: "of_nat (unat (x :: u16)) = x"
  by simp

lemma submitted_request:
  assumes "queue_ok (unat d0 # unat d1 # unat d2 # l) (vb_queue b)" "length data = 512" "type \<in> {0, 1}"
  shows "request (vb_header_phys b) (vb_data_phys b) (vb_status_phys b) (vr_avail_idx (vq_ring (vb_queue b)))
    (shared (submitted type sector data d0 d1 d2 d3 b))"
proof -
  have q: "length (vr_desc (vq_ring (vb_queue b))) = unat (vq_num (vb_queue b))"
    "length (vr_avail_ring (vq_ring (vb_queue b))) = unat (vq_num (vb_queue b))" "vq_num (vb_queue b) \<noteq> 0"
    "distinct [unat d0, unat d1, unat d2]" "\<forall>d\<in>{d0, d1, d2}. unat d < length (vr_desc (vq_ring (vb_queue b)))"
    using assms(1) free_chain_in [of "vr_desc (vq_ring (vb_queue b))" "vq_free_head (vb_queue b)"]
    by (auto simp: queue_ok_def)
  let ?m = "shared (submitted type sector data d0 d1 d2 d3 b)"
  let ?slot = "vr_avail_idx (vq_ring (vb_queue b))"
  have m: "vr_desc (sm_ring ?m) = chain_descs type b d0 d1 d2 (vr_desc (vq_ring (vb_queue b)))"
    "vr_avail_ring (sm_ring ?m) = (vr_avail_ring (vq_ring (vb_queue b)))[unat (?slot mod vq_num (vb_queue b)) := d0]"
    "rq_type (sm_header ?m) = type" "sm_data ?m = data"
    by (simp_all add: shared_def submitted_def)
  have len: "of_nat (length (vr_avail_ring (sm_ring ?m))) = vq_num (vb_queue b)"
    by (simp add: m(2) q(2))
  have d0: "vr_avail_ring (sm_ring ?m) ! unat (?slot mod of_nat (length (vr_avail_ring (sm_ring ?m)))) = d0"
    using unat_mod_less [OF q(3), of ?slot] unfolding len by (simp add: m(2) q(2))
  show ?thesis
    unfolding request_def Let_def d0 m(1,3,4)
    by (rule exI [of _ d1], rule exI [of _ d2]) (use q(4,5) assms(2,3) in \<open>simp add: chain_descs_nth\<close>)
qed

text \<open>Giving the descriptors back restores the free chain.\<close>

lemma blk_reclaim_ok:
  assumes q: "length (vr_desc (vq_ring q)) = unat (vq_num q)" "length (vr_avail_ring (vq_ring q)) = unat (vq_num q)" "vq_num q \<noteq> 0"
    and l: "distinct (unat d0 # unat d1 # unat d2 # l)" "free_chain (vr_desc (vq_ring q)) (vq_free_head q) l"
      "\<forall>d\<in>{d0, d1, d2}. unat d < unat (vq_num q)" "unat (vq_num_free q + 3) = length l + 3"
  obtains q' where "blk_reclaim d0 d1 d2 q = Some q'" "queue_ok (unat d0 # unat d1 # unat d2 # l) q'"
    "vq_last_used_idx q' = vq_last_used_idx q + 1" "\<exists>ds. vq_ring q' = (vq_ring q)\<lparr>vr_desc := ds\<rparr>"
    "vq_io_base q' = vq_io_base q" "vq_queue_index q' = vq_queue_index q"
proof -
  let ?ds = "vr_desc (vq_ring q)"
  define ds' where "ds' = ?ds[unat d2 := (?ds ! unat d2)\<lparr>de_next := vq_free_head q\<rparr>,
      unat d1 := (?ds ! unat d1)\<lparr>de_next := d2\<rparr>, unat d0 := (?ds ! unat d0)\<lparr>de_next := d1\<rparr>]"
  define q' where "q' = q\<lparr>vq_last_used_idx := vq_last_used_idx q + 1, vq_ring := (vq_ring q)\<lparr>vr_desc := ds'\<rparr>,
      vq_free_head := d0, vq_num_free := vq_num_free q + 3\<rparr>"
  have r: "blk_reclaim d0 d1 d2 q = Some q'"
    using q l by (simp add: blk_reclaim_def upd_desc_def exec_simps ds'_def q'_def)
  have "free_chain ds' (vq_free_head q) l"
  proof (rule free_chain_cong [OF l(2)])
    have "unat d0 \<noteq> i" "unat d1 \<noteq> i" "unat d2 \<noteq> i" if "i \<in> set l" for i using that l(1) by auto
    then show "\<forall>i\<in>set l. de_next (ds' ! i) = de_next (?ds ! i)" by (simp add: ds'_def)
  qed (simp add: ds'_def)
  then have "free_chain ds' d0 (unat d0 # unat d1 # unat d2 # l)"
    using l q by (simp add: ds'_def nth_list_update)
  then have "queue_ok (unat d0 # unat d1 # unat d2 # l) q'"
    using l q by (simp add: queue_ok_def q'_def ds'_def)
  then show thesis using r by (intro that [of q']) (auto simp: q'_def)
qed


lemma with_shared_simps [simp]:
  "vq_ring (vb_queue (with_shared m b)) = sm_ring m" "vb_data (with_shared m b) = sm_data m"
  "vb_status (with_shared m b) = sm_status m" "vb_header (with_shared m b) = sm_header m"
  "vq_num (vb_queue (with_shared m b)) = vq_num (vb_queue b)"
  "vq_free_head (vb_queue (with_shared m b)) = vq_free_head (vb_queue b)"
  "vq_num_free (vb_queue (with_shared m b)) = vq_num_free (vb_queue b)"
  "vq_last_used_idx (vb_queue (with_shared m b)) = vq_last_used_idx (vb_queue b)"
  "vq_io_base (vb_queue (with_shared m b)) = vq_io_base (vb_queue b)"
  "vq_queue_index (vb_queue (with_shared m b)) = vq_queue_index (vb_queue b)"
  "vb_header_phys (with_shared m b) = vb_header_phys b" "vb_data_phys (with_shared m b) = vb_data_phys b"
  "vb_status_phys (with_shared m b) = vb_status_phys b" "vb_capacity (with_shared m b) = vb_capacity b"
  by (simp_all add: with_shared_def)

text \<open>The device executes a submitted request before the wait ends.\<close>

lemma device_answers:
  fixes d3 :: u16
  assumes dev: "serves v cap hw dma b" "d \<in> dv_states v" "dv_seen v d = vr_avail_idx (vq_ring (vb_queue b))"
    and q: "queue_ok (unat d0 # unat d1 # unat d2 # l) (vb_queue b)"
      "vr_used_idx (vq_ring (vb_queue b)) = vq_last_used_idx (vb_queue b)"
    and req: "type \<in> {0, 1}" "sector < cap" "length data = 512"
  defines "b1 \<equiv> submitted type sector data d0 d1 d2 d3 b"
  obtains d' m' where
    "(case blk_poll dma 10000000 (vq_last_used_idx (vb_queue b1)) (virtio_pci_notify hw (vb_queue b1) d) (shared b1) of
       (d, m) \<Rightarrow> dma d m) = (d', m')"
    "d' \<in> dv_states v" "answered (dv_disk v d) (shared b1) m'" "dv_seen v d' = dv_seen v d + 1"
    "dv_disk v d' = disk_after (shared b1) (dv_disk v d)"
proof -
  let ?n = "virtio_pci_notify hw (vb_queue b1) d"
  have n: "?n \<in> dv_states v" "dv_disk v ?n = dv_disk v d" "dv_seen v ?n = dv_seen v d"
    using dev(1,2) by (simp_all add: serves_def unchanged_def virtio_pci_notify_def b1_def submitted_def)
  have s: "idle_ok v dma" "work_ok v cap (vb_header_phys b) (vb_data_phys b) (vb_status_phys b) dma" "dv_lag v ?n < 10000000"
    using dev(1) n(1) by (simp_all add: serves_def)
  have b1: "rq_sector (sm_header (shared b1)) = sector" "vr_avail_idx (sm_ring (shared b1)) = dv_seen v ?n + 1"
    "vr_used_idx (sm_ring (shared b1)) = vq_last_used_idx (vb_queue b1)"
    using dev(3) q(2) n(3) by (simp_all add: b1_def submitted_def shared_def)
  have r: "request (vb_header_phys b) (vb_data_phys b) (vb_status_phys b) (dv_seen v ?n) (shared b1)"
    using submitted_request [OF q(1) req(3,1)] dev(3) n(3) by (simp add: b1_def)
  obtain d' m' where p: "blk_poll dma 10000000 (vq_last_used_idx (vb_queue b1)) ?n (shared b1) = (d', m')"
    "d' \<in> dv_states v" "answered (dv_disk v ?n) (shared b1) m'" "dv_seen v d' = dv_seen v ?n + 1"
    "dv_disk v d' = disk_after (shared b1) (dv_disk v ?n)"
    using blk_poll_answers [OF s(2) n(1) s(3) b1(2) r _ b1(3)] b1(1) req(2) by auto
  have "vr_avail_idx (sm_ring m') = dv_seen v d'" using p(3,4) b1(2) by (auto simp: answered_def)
  then obtain d2 where "dma d' m' = (d2, m')" "unchanged v d' d2"
    using s(1) p(2) unfolding idle_ok_def by (metis prod.collapse)
  then show thesis using p n by (intro that [of d2 m']) (simp_all add: unchanged_def)
qed

text \<open>The completion of an answered request.\<close>

lemma answered_reclaim:
  assumes q: "queue_ok (unat d0 # unat d1 # unat d2 # l) (vb_queue b)"
      "vr_used_idx (vq_ring (vb_queue b)) = vq_last_used_idx (vb_queue b)"
    and d3: "free_chain (vr_desc (vq_ring (vb_queue b))) d3 l"
    and a: "answered disk (shared (submitted type sector data d0 d1 d2 d3 b)) m"
    and len: "length data = 512" "\<And>s. length (disk s) = 512"
  defines "b2 \<equiv> with_shared m (submitted type sector data d0 d1 d2 d3 b)"
  obtains q' where "blk_reclaim d0 d1 d2 (vb_queue b2) = Some q'"
    "blk_ready (unat d0 # unat d1 # unat d2 # l) (b2\<lparr>vb_queue := q'\<rparr>)"
    "vr_avail_idx (vq_ring q') = vr_avail_idx (vq_ring (vb_queue b)) + 1"
    "vq_io_base q' = vq_io_base (vb_queue b)" "vq_queue_index q' = vq_queue_index (vb_queue b)"
proof -
  let ?q = "vb_queue b2"
  have ds: "length (vr_desc (vq_ring (vb_queue b))) = unat (vq_num (vb_queue b))"
    "length (vr_avail_ring (vq_ring (vb_queue b))) = unat (vq_num (vb_queue b))" "vq_num (vb_queue b) \<noteq> 0"
    "distinct (unat d0 # unat d1 # unat d2 # l)" "unat (vq_num_free (vb_queue b)) = length l + 3"
    using q(1) by (simp_all add: queue_ok_def)
  have lt: "\<forall>d\<in>{d0, d1, d2}. unat d < unat (vq_num (vb_queue b))"
    using q(1) free_chain_in ds(1) unfolding queue_ok_def by (metis insertE list.set_intros emptyE)
  have sub: "rq_type (sm_header (shared (submitted type sector data d0 d1 d2 d3 b))) = type"
    "rq_sector (sm_header (shared (submitted type sector data d0 d1 d2 d3 b))) = sector"
    "sm_data (shared (submitted type sector data d0 d1 d2 d3 b)) = data"
    "vr_used_idx (sm_ring (shared (submitted type sector data d0 d1 d2 d3 b))) = vr_used_idx (vq_ring (vb_queue b))"
    by (simp_all add: shared_def submitted_def)
  obtain u where m: "m = (shared (submitted type sector data d0 d1 d2 d3 b))
      \<lparr>sm_ring := (sm_ring (shared (submitted type sector data d0 d1 d2 d3 b)))
         \<lparr>vr_used_idx := vr_used_idx (vq_ring (vb_queue b)) + 1, vr_used_ring := u\<rparr>,
       sm_status := 0, sm_data := (if type = 0 then disk sector else data)\<rparr>"
    using a unfolding answered_def sub by blast
  have b2: "vr_desc (vq_ring ?q) = chain_descs type b d0 d1 d2 (vr_desc (vq_ring (vb_queue b)))"
    "vq_num ?q = vq_num (vb_queue b)" "length (vr_avail_ring (vq_ring ?q)) = unat (vq_num (vb_queue b))"
    "vq_free_head ?q = d3" "vq_num_free ?q + 3 = vq_num_free (vb_queue b)"
    "vr_used_idx (vq_ring ?q) = vq_last_used_idx ?q + 1" "length (vb_data b2) = 512"
    "vr_avail_idx (vq_ring ?q) = vr_avail_idx (vq_ring (vb_queue b)) + 1"
    "vq_io_base ?q = vq_io_base (vb_queue b)" "vq_queue_index ?q = vq_queue_index (vb_queue b)"
    using ds(2) q(2) len by (simp_all add: b2_def m shared_def submitted_def)
  have "free_chain (vr_desc (vq_ring ?q)) d3 l"
  proof (rule free_chain_cong [OF d3])
    have "i \<notin> {unat d0, unat d1, unat d2}" if "i \<in> set l" for i using that ds(4) by auto
    then show "\<forall>i\<in>set l. de_next (vr_desc (vq_ring ?q) ! i) = de_next (vr_desc (vq_ring (vb_queue b)) ! i)"
      using lt ds by (simp add: b2(1) chain_descs_nth)
  qed (simp add: b2(1) chain_descs_def)
  then obtain q' where q': "blk_reclaim d0 d1 d2 ?q = Some q'" "queue_ok (unat d0 # unat d1 # unat d2 # l) q'"
    "vq_last_used_idx q' = vq_last_used_idx ?q + 1" "\<exists>ds. vq_ring q' = (vq_ring ?q)\<lparr>vr_desc := ds\<rparr>"
    "vq_io_base q' = vq_io_base ?q" "vq_queue_index q' = vq_queue_index ?q"
    using blk_reclaim_ok [of ?q d0 d1 d2 l] lt ds b2 by (simp add: chain_descs_def) blast
  then show thesis using b2 by (intro that [of q']) (auto simp: blk_ready_def)
qed


text \<open>One request against a device that serves it: the driver stays ready with the same free
  descriptors and the device has executed the request.\<close>

definition blk_running :: "'d disk_view \<Rightarrow> nat list \<Rightarrow> 'd ports \<Rightarrow> 'd dma \<Rightarrow> virtio_blk \<Rightarrow> 'd world \<Rightarrow> bool" where
  "blk_running v l hw dma b w \<longleftrightarrow> blk_ready l b \<and> serves v (vb_capacity b) hw dma b \<and> w_dev w \<in> dv_states v
     \<and> dv_seen v (w_dev w) = vr_avail_idx (vq_ring (vb_queue b))"

definition finish_io :: "u32 \<Rightarrow> u8 list \<Rightarrow> u8 list option \<Rightarrow> virtio_blk \<Rightarrow> 'd world \<Rightarrow> (rc \<times> u8 list option \<times> virtio_blk \<times> 'd world) exec" where
  "finish_io type sec buf b w = (case buf of
     Some dst \<Rightarrow> if type = 0 then Option.bind (copy_512 sec dst) (\<lambda>dst. Some (0, Some dst, b, w)) else Some (0, buf, b, w)
   | None \<Rightarrow> Some (0, buf, b, w))"

lemma blk_io_serves:
  assumes run: "blk_running v (i # j # k # l) hw dma b w"
    and type: "type \<in> {0, 1}" "sector < vb_capacity b"
    and data: "(case buf of Some src \<Rightarrow> if type = 1 then copy_512 src (vb_data b) else Some (vb_data b)
        | None \<Rightarrow> Some (vb_data b)) = Some data" "length data = 512"
  obtains b' w' where
    "virtio_blk_do_io hw dma type sector buf b w = finish_io type (dv_disk v (w_dev w) sector) buf b' w'"
    "blk_running v (i # j # k # l) hw dma b' w'" "vb_capacity b' = vb_capacity b" "w_con w' = w_con w"
    "dv_disk v (w_dev w') = (if type = 0 then dv_disk v (w_dev w) else (dv_disk v (w_dev w))(sector := data))"
proof -
  let ?d = "w_dev w" and ?q = "vb_queue b"
  have qok: "queue_ok (i # j # k # l) ?q" and lu: "vr_used_idx (vq_ring ?q) = vq_last_used_idx ?q"
    and dev: "serves v (vb_capacity b) hw dma b" "?d \<in> dv_states v" "dv_seen v ?d = vr_avail_idx (vq_ring ?q)"
    using run by (simp_all add: blk_running_def blk_ready_def)
  obtain d0 d1 d2 d3 where s: "unat d0 = i" "unat d1 = j" "unat d2 = k"
    "free_chain (vr_desc (vq_ring ?q)) d3 l"
    "blk_submit type sector buf b = Some (d0, d1, d2, submitted type sector data d0 d1 d2 d3 b)"
    using blk_submit_ok [OF qok data(1)] by metis
  define b1 where "b1 = submitted type sector data d0 d1 d2 d3 b"
  note q = qok [folded s(1-3)]
  obtain d' m' where dm: "(case blk_poll dma 10000000 (vq_last_used_idx (vb_queue b1)) (virtio_pci_notify hw (vb_queue b1) ?d)
      (shared b1) of (d, m) \<Rightarrow> dma d m) = (d', m')"
    "d' \<in> dv_states v" "answered (dv_disk v ?d) (shared b1) m'" "dv_seen v d' = dv_seen v ?d + 1"
    "dv_disk v d' = disk_after (shared b1) (dv_disk v ?d)"
    unfolding b1_def by (rule device_answers [OF dev q lu type data(2)])
  define b2 where "b2 = with_shared m' b1"
  have len: "\<And>s. length (dv_disk v ?d s) = 512" using dev by (simp add: serves_def)
  obtain q' where q': "blk_reclaim d0 d1 d2 (vb_queue b2) = Some q'"
    "blk_ready (i # j # k # l) (b2\<lparr>vb_queue := q'\<rparr>)" "vr_avail_idx (vq_ring q') = vr_avail_idx (vq_ring ?q) + 1"
    "vq_io_base q' = vq_io_base ?q" "vq_queue_index q' = vq_queue_index ?q"
    unfolding b2_def b1_def s(1-3) [symmetric]
    by (rule answered_reclaim [OF q lu s(4) dm(3) [unfolded b1_def] data(2) len])
  define b' where "b' = b2\<lparr>vb_queue := q'\<rparr>"
  have b': "vb_status b2 = 0" "vr_used_idx (vq_ring (vb_queue b2)) \<noteq> vq_last_used_idx (vb_queue b1)"
    "type = 0 \<Longrightarrow> vb_data b' = dv_disk v ?d sector" "vb_capacity b' = vb_capacity b"
    "vb_header_phys b' = vb_header_phys b" "vb_data_phys b' = vb_data_phys b" "vb_status_phys b' = vb_status_phys b"
    using dm(3) lu by (auto simp: answered_def b2_def b1_def b'_def shared_def submitted_def)
  have nf: "\<not> vq_num_free ?q < 3" using qok by (simp add: queue_ok_def word_less_nat_alt)
  have m': "vr_used_idx (sm_ring m') \<noteq> vq_last_used_idx (vb_queue b1)" using b'(2) by (simp add: b2_def)
  have "virtio_blk_do_io hw dma type sector buf b w = finish_io type (dv_disk v ?d sector) buf b' (w\<lparr>w_dev := d'\<rparr>)"
  proof -
    obtain dp mp where p: "blk_poll dma 10000000 (vq_last_used_idx (vb_queue b1)) (virtio_pci_notify hw (vb_queue b1) ?d)
        (shared b1) = (dp, mp)" "dma dp mp = (d', m')" using dm(1) by (auto split: prod.splits)
    show ?thesis
      unfolding virtio_blk_do_io_def finish_io_def s(5) [folded b1_def]
      using p q'(1) b'(1-3) nf m' b2_def [symmetric] b'_def [symmetric] by (cases buf) auto
  qed
  moreover have "serves v (vb_capacity b') hw dma b'"
    using dev(1) b' q' by (simp add: serves_def virtio_pci_notify_def b'_def)
  moreover have "dv_disk v d' = (if type = 0 then dv_disk v ?d else (dv_disk v ?d)(sector := data))"
    by (simp add: dm(5) disk_after_def b1_def shared_def submitted_def)
  ultimately show thesis
    using q'(2,3) dm(2,4) dev(3) b'(4) by (intro that [of b' "w\<lparr>w_dev := d'\<rparr>"]) (auto simp: blk_running_def b'_def)
qed


lemma blk_write_serves:
  assumes "blk_running v (i # j # k # l) hw dma b w" "sector < vb_capacity b" "512 \<le> length buf"
  obtains b' w' where "virtio_blk_write hw dma sector (Some buf) b w = Some (0, Some buf, b', w')"
    "blk_running v (i # j # k # l) hw dma b' w'" "vb_capacity b' = vb_capacity b" "w_con w' = w_con w"
    "dv_disk v (w_dev w') = (dv_disk v (w_dev w))(sector := take 512 buf)"
proof -
  have "length (vb_data b) = 512" using assms(1) by (simp add: blk_running_def blk_ready_def)
  then have f: "(1 :: u32) \<in> {0, 1}" "(case Some buf of Some src \<Rightarrow> if (1 :: u32) = 1 then copy_512 src (vb_data b) else Some (vb_data b)
      | None \<Rightarrow> Some (vb_data b)) = Some (take 512 buf)" "length (take 512 buf) = 512"
    using assms(3) by (simp_all add: copy_512_def)
  show thesis
    by (rule blk_io_serves [OF assms(1) f(1) assms(2) f(2,3)])
      (simp_all add: virtio_blk_write_def finish_io_def that)
qed

lemma blk_read_serves:
  assumes "blk_running v (i # j # k # l) hw dma b w" "sector < vb_capacity b" "512 \<le> length buf"
  obtains b' w' where "virtio_blk_read hw dma sector (Some buf) b w =
      Some (0, Some (dv_disk v (w_dev w) sector @ drop 512 buf), b', w')"
    "blk_running v (i # j # k # l) hw dma b' w'" "vb_capacity b' = vb_capacity b" "w_con w' = w_con w"
    "dv_disk v (w_dev w') = dv_disk v (w_dev w)"
proof -
  have d: "length (vb_data b) = 512" "length (dv_disk v (w_dev w) sector) = 512"
    using assms(1) by (simp_all add: blk_running_def blk_ready_def serves_def)
  then have f: "(0 :: u32) \<in> {0, 1}" "(case Some buf of Some src \<Rightarrow> if (0 :: u32) = 1 then copy_512 src (vb_data b) else Some (vb_data b)
      | None \<Rightarrow> Some (vb_data b)) = Some (vb_data b)" by simp_all
  show thesis
    by (rule blk_io_serves [OF assms(1) f(1) assms(2) f(2) d(1)])
      (use d(2) assms(3) in \<open>simp_all add: virtio_blk_read_def finish_io_def copy_512_def that\<close>)
qed

text \<open>A sequence of requests, with the return code and the caller's buffer of each.\<close>

type_synonym io_request = "u32 \<times> u64 \<times> u8 list option"

fun blk_requests ::
  "'d ports \<Rightarrow> 'd dma \<Rightarrow> io_request list \<Rightarrow> virtio_blk \<Rightarrow> 'd world \<Rightarrow>
   ((rc \<times> u8 list option) list \<times> virtio_blk \<times> 'd world) exec" where
  "blk_requests hw dma [] b w = Some ([], b, w)"
| "blk_requests hw dma ((type, sector, buf) # rs) b w =
     Option.bind (virtio_blk_do_io hw dma type sector buf b w) (\<lambda>(rc, buf, b, w).
     Option.bind (blk_requests hw dma rs b w) (\<lambda>(res, b, w). Some ((rc, buf) # res, b, w)))"

text \<open>The array of sectors that driver and device implement.\<close>

fun disk_spec :: "io_request list \<Rightarrow> (u64 \<Rightarrow> u8 list) \<Rightarrow> (rc \<times> u8 list option) list \<times> (u64 \<Rightarrow> u8 list)" where
  "disk_spec [] disk = ([], disk)"
| "disk_spec ((type, sector, buf) # rs) disk =
     (if type = 0 then apfst ((#) (0, map_option (\<lambda>bs. disk sector @ drop 512 bs) buf)) (disk_spec rs disk)
      else apfst ((#) (0, buf)) (disk_spec rs (disk(sector := take 512 (the buf)))))"

definition request_ok :: "u64 \<Rightarrow> io_request \<Rightarrow> bool" where
  "request_ok cap = (\<lambda>(type, sector, buf). type \<in> {0, 1} \<and> sector < cap \<and> buf \<noteq> None \<and> 512 \<le> length (the buf))"

lemma blk_requests_serve:
  assumes "blk_running v (i # j # k # l) hw dma b w" "\<forall>r\<in>set rs. request_ok (vb_capacity b) r"
  shows "\<exists>b' w'. blk_requests hw dma rs b w = Some (fst (disk_spec rs (dv_disk v (w_dev w))), b', w')
    \<and> blk_running v (i # j # k # l) hw dma b' w' \<and> dv_disk v (w_dev w') = snd (disk_spec rs (dv_disk v (w_dev w)))"
  using assms
proof (induction rs arbitrary: b w)
  case (Cons r rs)
  obtain type sector bs where r: "r = (type, sector, Some bs)" "type = 0 \<or> type = 1" "sector < vb_capacity b" "512 \<le> length bs"
    using Cons.prems(2) by (cases r) (auto simp: request_ok_def)
  show ?case
  proof (cases "type = 0")
    case True
    obtain b1 w1 where io: "virtio_blk_read hw dma sector (Some bs) b w =
        Some (0, Some (dv_disk v (w_dev w) sector @ drop 512 bs), b1, w1)" "blk_running v (i # j # k # l) hw dma b1 w1"
      "vb_capacity b1 = vb_capacity b" "dv_disk v (w_dev w1) = dv_disk v (w_dev w)"
      using blk_read_serves [OF Cons.prems(1) r(3,4)] by metis
    show ?thesis using Cons.IH [OF io(2)] Cons.prems(2) io True by (auto simp: r(1) virtio_blk_read_def)
  next
    case False
    then have "type = 1" using r(2) by simp
    obtain b1 w1 where io: "virtio_blk_write hw dma sector (Some bs) b w = Some (0, Some bs, b1, w1)"
      "blk_running v (i # j # k # l) hw dma b1 w1" "vb_capacity b1 = vb_capacity b"
      "dv_disk v (w_dev w1) = (dv_disk v (w_dev w))(sector := take 512 bs)"
      using blk_write_serves [OF Cons.prems(1) r(3,4)] by metis
    have "\<forall>r\<in>set rs. request_ok (vb_capacity b1) r" using Cons.prems(2) io(3) by simp
    from Cons.IH [OF io(2) this, unfolded io(4)] show ?thesis
      using io(1) \<open>type = 1\<close> by (auto simp: r(1) virtio_blk_write_def fun_upd_def)
  qed
qed simp

section \<open>A request that is not answered\<close>

text \<open>A device that does not touch the shared memory.\<close>

definition silent :: "'d dma \<Rightarrow> bool" where
  "silent dma \<longleftrightarrow> (\<forall>d m. snd (dma d m) = m)"

lemma blk_poll_silent: "silent dma \<Longrightarrow> snd (blk_poll dma n lu d m) = m"
proof (induction n arbitrary: d)
  case 0
  then show ?case by (simp add: blk_poll.simps)
next
  case (Suc n)
  obtain d' where "dma d m = (d', m)" using Suc.prems unfolding silent_def by (metis prod.collapse)
  then show ?case using Suc.IH [OF Suc.prems, of d'] by (simp add: blk_poll.simps [of dma "Suc n"])
qed

lemma with_shared_id: "with_shared (shared b) b = b"
  by (simp add: with_shared_def shared_def)

definition buf_ok :: "u8 list option \<Rightarrow> bool" where
  "buf_ok buf \<longleftrightarrow> (case buf of None \<Rightarrow> True | Some bs \<Rightarrow> 512 \<le> length bs)"

lemma kprintf_blk:
  "\<exists>s. kprintf (''virtio-blk: no free descriptors'' @ [CHR 0x0A]) [] = Some s"
  "\<exists>s. kprintf (''virtio-blk: timeout waiting for completion'' @ [CHR 0x0A]) [] = Some s"
  by (simp_all add: print_simps)

lemma blk_io_silent:
  assumes ready: "blk_ready (i # j # k # l) b" and dma: "silent dma" and buf: "buf_ok buf"
  shows "\<exists>b' w'. virtio_blk_do_io hw dma type sector buf b w = Some (- 1, buf, b', w') \<and> blk_ready l b'"
proof -
  have qok: "queue_ok (i # j # k # l) (vb_queue b)" and len: "length (vb_data b) = 512"
    and lu: "vr_used_idx (vq_ring (vb_queue b)) = vq_last_used_idx (vb_queue b)"
    using ready by (simp_all add: blk_ready_def)
  obtain data where data: "length data = 512"
    "(case buf of Some src \<Rightarrow> if type = 1 then copy_512 src (vb_data b) else Some (vb_data b) | None \<Rightarrow> Some (vb_data b)) = Some data"
    by (rule that [of "if type = 1 then (case buf of Some a \<Rightarrow> take 512 a | None \<Rightarrow> vb_data b) else vb_data b"])
      (use buf len in \<open>auto simp: buf_ok_def copy_512_def split: option.splits\<close>)
  obtain d0 d1 d2 d3 where s: "unat d0 = i" "unat d1 = j" "unat d2 = k" "free_chain (vr_desc (vq_ring (vb_queue b))) d3 l"
    "blk_submit type sector buf b = Some (d0, d1, d2, submitted type sector data d0 d1 d2 d3 b)"
    using blk_submit_ok [OF qok data(2)] by metis
  define b1 where "b1 = submitted type sector data d0 d1 d2 d3 b"
  have q: "distinct (i # j # k # l)" "unat (vq_num_free (vb_queue b)) = length l + 3"
    "length (vr_desc (vq_ring (vb_queue b))) = unat (vq_num (vb_queue b))"
    "length (vr_avail_ring (vq_ring (vb_queue b))) = unat (vq_num (vb_queue b))" "vq_num (vb_queue b) \<noteq> 0"
    using qok by (simp_all add: queue_ok_def)
  have nf: "\<not> vq_num_free (vb_queue b) < 3" "unat (vq_num_free (vb_queue b) - 3) = length l"
    using q(2) by (simp_all add: word_less_nat_alt unat_sub word_le_nat_alt)
  have "free_chain (chain_descs type b d0 d1 d2 (vr_desc (vq_ring (vb_queue b)))) d3 l"
  proof (rule free_chain_cong [OF s(4)])
    have "unat d0 \<noteq> n" "unat d1 \<noteq> n" "unat d2 \<noteq> n" if "n \<in> set l" for n using that q(1) s(1-3) by auto
    then show "\<forall>n\<in>set l. de_next (chain_descs type b d0 d1 d2 (vr_desc (vq_ring (vb_queue b))) ! n) =
        de_next (vr_desc (vq_ring (vb_queue b)) ! n)" by (simp add: chain_descs_def)
  qed (simp add: chain_descs_def)
  then have r: "blk_ready l b1"
    using q nf(2) lu data(1) by (simp add: blk_ready_def queue_ok_def b1_def submitted_def chain_descs_def)
  obtain dp where p: "blk_poll dma 10000000 (vq_last_used_idx (vb_queue b1)) (virtio_pci_notify hw (vb_queue b1) (w_dev w))
      (shared b1) = (dp, shared b1)" using blk_poll_silent [OF dma] by (metis prod.collapse)
  obtain d' where d': "dma dp (shared b1) = (d', shared b1)" using dma unfolding silent_def by (metis prod.collapse)
  obtain c where "kprint (''virtio-blk: timeout waiting for completion'' @ [CHR 0x0A]) [] (w\<lparr>w_dev := d'\<rparr>) =
      Some (w\<lparr>w_dev := d'\<rparr>\<lparr>w_con := c\<rparr>)" using kprint_Some [OF kprintf_blk(2)] by blast
  then have "virtio_blk_do_io hw dma type sector buf b w = Some (- 1, buf, b1, w\<lparr>w_dev := d'\<rparr>\<lparr>w_con := c\<rparr>)"
    unfolding virtio_blk_do_io_def s(5) [folded b1_def]
    using nf(1) p d' r by (simp add: with_shared_id blk_ready_def Let_def) (simp add: shared_def)
  then show ?thesis using r by blast
qed

lemma blk_requests_silent:
  assumes "silent dma" "\<forall>(_, _, buf)\<in>set rs. buf_ok buf" "blk_ready l b" "3 * length rs \<le> length l"
  shows "\<exists>b' w'. blk_requests hw dma rs b w = Some (map (\<lambda>(_, _, buf). (- 1, buf)) rs, b', w') \<and> blk_ready (drop (3 * length rs) l) b'"
  using assms(2-)
proof (induction rs arbitrary: l b w)
  case (Cons r rs)
  obtain type sector buf where r: "r = (type, sector, buf)" by (cases r)
  then have buf: "buf_ok buf" using Cons.prems(1) by simp
  obtain i j k l' where l: "l = i # j # k # l'" using Cons.prems(3)
    by (cases l; cases "tl l"; cases "tl (tl l)") auto
  obtain b1 w1 where io: "virtio_blk_do_io hw dma type sector buf b w = Some (- 1, buf, b1, w1)" "blk_ready l' b1"
    using blk_io_silent [OF Cons.prems(2) [unfolded l] assms(1) buf, of hw type sector w] by blast
  have bufs: "\<forall>(_, _, buf)\<in>set rs. buf_ok buf" using Cons.prems(1) by simp
  have "3 * length rs \<le> length l'" using Cons.prems(3) l by simp
  from Cons.IH [OF bufs io(2) this, of w1] obtain b' w' where
    "blk_requests hw dma rs b1 w1 = Some (map (\<lambda>(_, _, buf). (- 1, buf)) rs, b', w')" "blk_ready (drop (3 * length rs) l') b'" by blast
  moreover have "drop (3 * length (r # rs)) l = drop (3 * length rs) l'" by (simp add: l eval_nat_numeral)
  ultimately show ?case using io(1) unfolding r by simp
qed simp

lemma blk_io_exhausted:
  assumes "blk_ready l b" "length l < 3"
  shows "\<exists>c. virtio_blk_do_io hw dma type sector buf b w = Some (- 1, buf, b, w\<lparr>w_con := c\<rparr>)"
proof -
  have "vq_num_free (vb_queue b) < 3" using assms by (simp add: blk_ready_def queue_ok_def word_less_nat_alt)
  moreover obtain c where "kprint (''virtio-blk: no free descriptors'' @ [CHR 0x0A]) [] w = Some (w\<lparr>w_con := c\<rparr>)"
    using kprint_Some [OF kprintf_blk(1)] by blast
  ultimately show ?thesis by (auto simp: virtio_blk_do_io_def)
qed

end
