(* ===== verification/X86_Cli.thy ===== *)
theory X86_Cli
  imports Cli_Parse Virtio_Blk X86_Vmm Boot
begin

text \<open>
  The kernel monitor \<open>arch/x86_64/cli.c\<close>: line editing, dispatch and the fifteen commands.  The
  monitor looks at the kernel, the memory managers, the device table and the block device, which
  are the fields of one record; the LAPIC ids of the workers, which the bare-metal HAL keeps in
  their parking structures, are a list.  The loop is a function of the bytes that arrive on the
  serial line; waiting for the next one is not a step of the model.

  The lemmas show that the line buffer is never overrun, that the editing keys build the line they
  are meant to build, and that a line is dispatched once whether it ends in CR, LF or both.
\<close>

section \<open>State\<close>

record 'd monitor =
  mo_line :: string
  mo_pos :: u32
  mo_last_was_cr :: bool
  mo_running :: bool
  mo_scratch :: "u8 list option"
  mo_kernel :: gmk_kernel
  mo_cpu_ids :: "u32 list"
  mo_bsp_lapic :: u32
  mo_vmm :: vmm
  mo_pci :: pci
  mo_blk :: virtio_blk
  mo_ticks :: u64
  mo_world :: "'d world"

abbreviation (input) nl :: string where "nl \<equiv> [CHR 0x0A]"

definition mprint :: "string \<Rightarrow> karg list \<Rightarrow> 'd monitor \<Rightarrow> 'd monitor exec" where
  "mprint fmt args mo = map_option (\<lambda>w. mo\<lparr>mo_world := w\<rparr>) (kprint fmt args (mo_world mo))"

definition mputs :: "string \<Rightarrow> 'd monitor \<Rightarrow> 'd monitor" where
  "mputs s mo = mo\<lparr>mo_world := (mo_world mo)\<lparr>w_con := w_con (mo_world mo) @ s\<rparr>\<rparr>"

definition mpadded :: "string \<Rightarrow> int \<Rightarrow> 'd monitor \<Rightarrow> 'd monitor exec" where
  "mpadded s width mo = map_option (\<lambda>out. mputs out mo) (print_padded s width)"

text \<open>A loop over a range of indices that carries the monitor.\<close>

fun each :: "(nat \<Rightarrow> 'm \<Rightarrow> 'm exec) \<Rightarrow> nat list \<Rightarrow> 'm \<Rightarrow> 'm exec" where
  "each f [] mo = Some mo"
| "each f (i # js) mo = Option.bind (f i mo) (each f js)"

section \<open>Commands\<close>

datatype cli_cmd = Cmd_help | Cmd_cpu | Cmd_mem | Cmd_heap | Cmd_map | Cmd_pci | Cmd_blkcap | Cmd_blkread
  | Cmd_blkwrite | Cmd_tasks | Cmd_mod | Cmd_metrics | Cmd_uptime | Cmd_halt | Cmd_reboot

definition commands :: "(string \<times> string \<times> cli_cmd) list" where
  "commands = [
     (''help'', ''Show this help'', Cmd_help), (''cpu'', ''CPU and worker status'', Cmd_cpu),
     (''mem'', ''Physical memory usage'', Cmd_mem), (''heap'', ''Kernel heap status'', Cmd_heap),
     (''map'', ''Walk page tables for address'', Cmd_map), (''pci'', ''List PCI devices'', Cmd_pci),
     (''blkcap'', ''Block device capacity'', Cmd_blkcap), (''blkread'', ''Read and hex-dump sector'', Cmd_blkread),
     (''blkwrite'', ''Write pattern to sector'', Cmd_blkwrite), (''tasks'', ''Task dispatch statistics'', Cmd_tasks),
     (''mod'', ''List modules and handlers'', Cmd_mod), (''metrics'', ''Global metric counters'', Cmd_metrics),
     (''uptime'', ''System uptime'', Cmd_uptime), (''halt'', ''Shutdown kernel'', Cmd_halt),
     (''reboot'', ''Reboot system'', Cmd_reboot)]"

definition cmd_help :: "'d monitor \<Rightarrow> 'd monitor exec" where
  "cmd_help mo =
     each (\<lambda>i mo. do {
       mo \<leftarrow> mprint ''  '' [] mo;
       mo \<leftarrow> mpadded (fst (commands ! i)) 12 mo;
       mprint (''%s'' @ nl) [KStr (Some (fst (snd (commands ! i))))] mo }) [0..<length commands] mo"

definition cmd_cpu :: "'d monitor \<Rightarrow> 'd monitor exec" where
  "cmd_cpu mo =
     (let n = pl_n_workers (kn_pool (mo_kernel mo)) in do {
       mo \<leftarrow> mprint (''CPUs: %u online  BSP LAPIC=%u (console)'' @ nl) [KUint n, KUint (mo_bsp_lapic mo)] mo;
       each (\<lambda>i mo. do {
         w \<leftarrow> arr_get (pl_workers (kn_pool (mo_kernel mo))) i;
         cpu_id \<leftarrow> arr_get (mo_cpu_ids mo) i;
         mprint (''  worker %u  LAPIC %u  dispatched %lu  %s'' @ nl)
           [KUint (of_nat i), KUint cpu_id, KUlong (wk_tasks_dispatched w),
            KStr (Some (if wk_parked w then ''parked'' else ''active''))] mo }) [1..<unat n] mo })"

definition cmd_mem :: "'d monitor \<Rightarrow> 'd monitor exec" where
  "cmd_mem mo =
     (let p = pg_pmm (vm_paging (mo_vmm mo)); usable = pmm_usable_count p; free = pmm_free_count p; used = usable - free in do {
       mo \<leftarrow> mprint (''Physical memory:'' @ nl) [] mo;
       mo \<leftarrow> mprint (''  Usable: %lu pages (%lu MB)'' @ nl) [KUlong usable, KUlong (usable * 4 div 1024)] mo;
       mo \<leftarrow> mprint (''  Free:   %lu pages (%lu MB)'' @ nl) [KUlong free, KUlong (free * 4 div 1024)] mo;
       mprint (''  Used:   %lu pages (%lu MB)'' @ nl) [KUlong used, KUlong (used * 4 div 1024)] mo })"

definition cmd_heap :: "'d monitor \<Rightarrow> 'd monitor exec" where
  "cmd_heap mo =
     (let used = vmm_get_heap_used (mo_vmm mo); free_bytes = VMM_HEAP_SIZE - used in do {
       mo \<leftarrow> mprint (''Kernel heap:'' @ nl) [] mo;
       mo \<leftarrow> mprint (''  Range: 0x%lx - 0x%lx'' @ nl) [KUlong VMM_HEAP_BASE, KUlong VMM_HEAP_END] mo;
       mo \<leftarrow> mprint (''  Used:  %lu bytes'' @ nl) [KUlong used] mo;
       mprint (''  Free:  %lu bytes'' @ nl) [KUlong free_bytes] mo })"

definition not_present :: "u64 \<Rightarrow> karg" where
  "not_present e = KStr (Some (if e AND PTE_PRESENT \<noteq> 0 then '''' else ''(not present)''))"

definition big_page :: "u64 \<Rightarrow> string \<Rightarrow> karg" where
  "big_page e s = KStr (Some (if e AND PTE_PS \<noteq> 0 then s else ''''))"

definition idx_arg :: "u64 \<Rightarrow> nat \<Rightarrow> karg" where
  "idx_arg a n = KUint (ucast (drop_bit n a AND 0x1FF))"

definition cmd_map :: "string list \<Rightarrow> 'd monitor \<Rightarrow> 'd monitor exec" where
  "cmd_map argv mo =
     (if length argv < 2 then mprint (''Usage: map <addr>'' @ nl) [] mo
      else
        let (a, ok) = parse_u64 (argv ! 1)
        in if \<not> ok then mprint (''Invalid address: %s'' @ nl) [KStr (Some (argv ! 1))] mo
        else
          let (depth, pml4e, pdpe, pde, pte) = paging_walk a (vm_paging (mo_vmm mo)) in do {
            mo \<leftarrow> mprint (''Page table walk for 0x%lx:'' @ nl) [KUlong a] mo;
            mo \<leftarrow> mprint (''  PML4E[%u]: 0x%lx %s'' @ nl) [idx_arg a 39, KUlong pml4e, not_present pml4e] mo;
            if depth < 2 then Some mo else do {
            mo \<leftarrow> mprint (''  PDPE[%u]:  0x%lx %s%s'' @ nl)
              [idx_arg a 30, KUlong pdpe, not_present pdpe, big_page pdpe '' [1GB page]''] mo;
            if depth < 3 \<or> pdpe AND PTE_PS \<noteq> 0 then Some mo else do {
            mo \<leftarrow> mprint (''  PDE[%u]:   0x%lx %s%s'' @ nl)
              [idx_arg a 21, KUlong pde, not_present pde, big_page pde '' [2MB page]''] mo;
            if depth < 4 \<or> pde AND PTE_PS \<noteq> 0 then Some mo else do {
            mo \<leftarrow> mprint (''  PTE[%u]:   0x%lx %s'' @ nl) [idx_arg a 12, KUlong pte, not_present pte] mo;
            if pte AND PTE_PRESENT \<noteq> 0 then
              mprint (''  -> phys 0x%lx  flags:%s%s%s'' @ nl)
                [KUlong (pte AND NOT 0xFFF), KStr (Some (if pte AND PTE_WRITABLE \<noteq> 0 then '' W'' else '' R'')),
                 KStr (Some (if pte AND 4 \<noteq> 0 then '' U'' else '' S'')),
                 KStr (Some (if pte AND push_bit 63 1 \<noteq> 0 then '' NX'' else ''''))] mo
            else Some mo }}}})"

definition cmd_pci :: "'d monitor \<Rightarrow> 'd monitor exec" where
  "cmd_pci mo =
     (let cnt = pci_device_count (mo_pci mo) in do {
       mo \<leftarrow> mprint (''PCI devices: %u'' @ nl) [KUint cnt] mo;
       each (\<lambda>i mo. case pci_get_device (of_nat i) (mo_pci mo) of None \<Rightarrow> Some mo
         | Some j \<Rightarrow> do {
             e \<leftarrow> arr_get (pci_devices (mo_pci mo)) j;
             mo \<leftarrow> mprint ''  %u:%u.%u  %x:%x  class %x:%x'' (pci_id_args e) mo;
             bar0 \<leftarrow> arr_get (pd_bar e) 0;
             mo \<leftarrow> (if bar0 \<noteq> 0 then mprint ''  BAR0=0x%x'' [KUint bar0] mo else Some mo);
             mprint nl [] mo }) [0..<unat cnt] mo })"

definition cmd_blkcap :: "'d monitor \<Rightarrow> 'd monitor exec" where
  "cmd_blkcap mo =
     (let cap = virtio_blk_capacity (mo_blk mo)
      in if cap = 0 then mprint (''No block device'' @ nl) [] mo
         else mprint (''Block device: %lu sectors (%lu KB)'' @ nl) [KUlong cap, KUlong (cap div 2)] mo)"

section \<open>Block device commands\<close>

definition hex_row :: "u8 list \<Rightarrow> nat \<Rightarrow> 'd monitor \<Rightarrow> 'd monitor exec" where
  "hex_row data row mo = do {
     mo \<leftarrow> mprint ''  %x: '' [KUint (of_nat (row * 16) AND 0xFFFF)] mo;
     mo \<leftarrow> each (\<lambda>col mo. do {
       v \<leftarrow> arr_get data (row * 16 + col);
       mprint ''%x%x '' [KUint (ucast (drop_bit 4 v)), KUint (ucast (v AND 0xF))] mo }) [0..<16] mo;
     mprint nl [] mo }"

definition cmd_blkread :: "'d ports \<Rightarrow> 'd dma \<Rightarrow> string list \<Rightarrow> 'd monitor \<Rightarrow> 'd monitor exec" where
  "cmd_blkread hw dma argv mo =
     (if length argv < 2 then mprint (''Usage: blkread <lba>'' @ nl) [] mo
      else if mo_scratch mo = None then mprint (''No block device'' @ nl) [] mo
      else
        let (lba, ok) = parse_u64 (argv ! 1)
        in if \<not> ok then mprint (''Invalid LBA: %s'' @ nl) [KStr (Some (argv ! 1))] mo
        else
          let cap = virtio_blk_capacity (mo_blk mo)
          in if lba \<ge> cap then mprint (''LBA %lu out of range (capacity %lu)'' @ nl) [KUlong lba, KUlong cap] mo
          else
            Option.bind (virtio_blk_read hw dma lba (mo_scratch mo) (mo_blk mo) (mo_world mo)) (\<lambda>(rc, buf, blk, w).
            let mo = mo\<lparr>mo_scratch := buf, mo_blk := blk, mo_world := w\<rparr>
            in if rc \<noteq> 0 then mprint (''Read failed'' @ nl) [] mo
            else do {
              mo \<leftarrow> mprint (''Sector %lu (512 bytes):'' @ nl) [KUlong lba] mo;
              data \<leftarrow> mo_scratch mo;
              each (hex_row data) [0..<4] mo }))"

definition fill_512 :: "u8 \<Rightarrow> u8 list \<Rightarrow> u8 list exec" where
  "fill_512 v bs = (if 512 \<le> length bs then Some (replicate 512 v @ drop 512 bs) else None)"

definition cmd_blkwrite :: "'d ports \<Rightarrow> 'd dma \<Rightarrow> string list \<Rightarrow> 'd monitor \<Rightarrow> 'd monitor exec" where
  "cmd_blkwrite hw dma argv mo =
     (if length argv < 3 then mprint (''Usage: blkwrite <lba> <byte>'' @ nl) [] mo
      else case mo_scratch mo of None \<Rightarrow> mprint (''No block device'' @ nl) [] mo
      | Some scratch \<Rightarrow>
        let (lba, ok) = parse_u64 (argv ! 1)
        in if \<not> ok then mprint (''Invalid LBA: %s'' @ nl) [KStr (Some (argv ! 1))] mo
        else
          let cap = virtio_blk_capacity (mo_blk mo)
          in if lba \<ge> cap then mprint (''LBA %lu out of range (capacity %lu)'' @ nl) [KUlong lba, KUlong cap] mo
          else
            let (byte_val, ok) = parse_u64 (argv ! 2)
            in if \<not> ok \<or> byte_val > 255 then mprint (''Invalid byte: %s (must be 0-255)'' @ nl) [KStr (Some (argv ! 2))] mo
            else
              Option.bind (fill_512 (ucast byte_val) scratch) (\<lambda>scratch.
              Option.bind (virtio_blk_write hw dma lba (Some scratch) (mo_blk mo) (mo_world mo)) (\<lambda>(rc, buf, blk, w).
              let mo = mo\<lparr>mo_scratch := buf, mo_blk := blk, mo_world := w\<rparr>
              in if rc \<noteq> 0 then mprint (''Write failed'' @ nl) [] mo
              else
                Option.bind (virtio_blk_read hw dma lba (Some (replicate 512 0)) (mo_blk mo) (mo_world mo)) (\<lambda>(rc, verify_buf, blk, w).
                let mo = mo\<lparr>mo_blk := blk, mo_world := w\<rparr>
                in if rc \<noteq> 0 then mprint (''Write OK, verify read failed'' @ nl) [] mo
                else
                  Option.bind verify_buf (\<lambda>vb.
                  let match = (\<forall>i\<in>set [0..<512]. vb ! i = ucast byte_val)
                  in mprint (''Sector %lu: write 0x%x, verify %s'' @ nl)
                       [KUlong lba, KUint (ucast byte_val), KStr (Some (if match then ''PASS'' else ''FAIL''))] mo)))))"

section \<open>Kernel commands\<close>

text \<open>The statistics that \<open>tasks\<close> and \<open>halt\<close> print: one line for each worker, and the sum.\<close>

fun print_dispatched :: "nat list \<Rightarrow> u64 \<Rightarrow> 'd monitor \<Rightarrow> 'd monitor exec" where
  "print_dispatched [] tot mo = mprint (''Total: %lu dispatched'' @ nl) [KUlong tot] mo"
| "print_dispatched (i # js) tot mo = do {
     w \<leftarrow> arr_get (pl_workers (kn_pool (mo_kernel mo))) i;
     mo \<leftarrow> mprint (''  worker %u: %lu tasks'' @ nl) [KUint (of_nat i), KUlong (wk_tasks_dispatched w)] mo;
     print_dispatched js (tot + wk_tasks_dispatched w) mo }"

definition other_workers :: "'d monitor \<Rightarrow> nat list" where
  "other_workers mo = [1..<unat (pl_n_workers (kn_pool (mo_kernel mo)))]"

definition cmd_tasks :: "'d monitor \<Rightarrow> 'd monitor exec" where
  "cmd_tasks mo = print_dispatched (other_workers mo) 0 mo"

text \<open>A handler of the model always has a name.\<close>

definition cmd_mod :: "'d monitor \<Rightarrow> 'd monitor exec" where
  "cmd_mod mo =
     (let mr = kn_modules (mo_kernel mo) in do {
       mo \<leftarrow> mprint (''Modules: %u registered'' @ nl) [KUint (mr_n_modules mr)] mo;
       each (\<lambda>i mo. do {
         m \<leftarrow> arr_get (mr_modules mr) i;
         case m of None \<Rightarrow> Some mo
         | Some m \<Rightarrow> do {
             mo \<leftarrow> mprint (''  [%u] %s  v%u.%u.%u  handlers=%u  channels=%u'' @ nl)
               [KUint (of_nat i), KStr (Some (md_name m)), KUint (drop_bit 16 (md_version m) AND 0xFF),
                KUint (drop_bit 8 (md_version m) AND 0xFF), KUint (md_version m AND 0xFF),
                KUint (md_n_handlers m), KUint (md_n_channels m)] mo;
             each (\<lambda>j mo. do {
               h \<leftarrow> arr_get (md_handlers m) j;
               mprint (''      type %u: %s'' @ nl) [KUint (hr_type h), KStr (Some (hr_name h))] mo })
               [0..<unat (md_n_handlers m)] mo } }) [0..<unat (mr_n_modules mr)] mo })"

definition metric_names :: "string list" where
  "metric_names = [''tasks_enqueued'', ''tasks_dequeued'', ''tasks_dispatched'', ''tasks_failed'', ''tasks_retried'',
     ''tasks_yielded'', ''alloc_bytes'', ''alloc_fails'', ''chan_emits'', ''chan_drops'', ''chan_full'',
     ''worker_parks'', ''worker_wakes'']"

definition cmd_metrics :: "'d monitor \<Rightarrow> 'd monitor exec" where
  "cmd_metrics mo = do {
     mo \<leftarrow> mprint (''Global metrics:'' @ nl) [] mo;
     each (\<lambda>i mo. do {
       val \<leftarrow> gmk_metric_get (ks_metrics (kn_store (mo_kernel mo))) (of_nat i);
       name \<leftarrow> arr_get metric_names i;
       mo \<leftarrow> mprint ''  '' [] mo;
       mo \<leftarrow> mpadded name 20 mo;
       mprint (''%lu'' @ nl) [KUlong val] mo }) [0..<13] mo }"

definition cmd_uptime :: "'d monitor \<Rightarrow> 'd monitor exec" where
  "cmd_uptime mo =
     (let ticks = mo_ticks mo; secs = ticks div 1000; ms = ticks mod 1000 in do {
       mo \<leftarrow> mprint ''Uptime: %lu.'' [KUlong secs] mo;
       let mo = (if ms < 100 then mputs (serial_putc (CHR ''0'')) mo else mo);
       let mo = (if ms < 10 then mputs (serial_putc (CHR ''0'')) mo else mo);
       mprint (''%lu s (%lu ticks)'' @ nl) [KUlong ms, KUlong ticks] mo })"

text \<open>The delay after the wake-ups, in which other processors act, is left out.\<close>

definition cmd_halt :: "'d monitor \<Rightarrow> 'd monitor exec" where
  "cmd_halt mo = do {
     mo \<leftarrow> mprint (''Stopping workers...'' @ nl) [] mo;
     let ws = other_workers mo;
     let k = fold (\<lambda>i. upd_worker i (\<lambda>w. w\<lparr>wk_running := False\<rparr>)) ws (mo_kernel mo);
     let k = fold gmk_worker_wake ws k;
     mo \<leftarrow> print_dispatched ws 0 (mo\<lparr>mo_kernel := k\<rparr>);
     Some (mo\<lparr>mo_running := False\<rparr>) }"

text \<open>A triple fault: the command does not return.\<close>

definition cmd_reboot :: "'d monitor \<Rightarrow> 'd monitor exec" where
  "cmd_reboot mo = Option.bind (mprint (''Rebooting...'' @ nl) [] mo) (\<lambda>_. None)"

section \<open>Dispatch\<close>

definition run_cmd :: "'d ports \<Rightarrow> 'd dma \<Rightarrow> cli_cmd \<Rightarrow> string list \<Rightarrow> 'd monitor \<Rightarrow> 'd monitor exec" where
  "run_cmd hw dma cmd argv mo =
     (case cmd of
        Cmd_help \<Rightarrow> cmd_help mo | Cmd_cpu \<Rightarrow> cmd_cpu mo | Cmd_mem \<Rightarrow> cmd_mem mo | Cmd_heap \<Rightarrow> cmd_heap mo
      | Cmd_map \<Rightarrow> cmd_map argv mo | Cmd_pci \<Rightarrow> cmd_pci mo | Cmd_blkcap \<Rightarrow> cmd_blkcap mo
      | Cmd_blkread \<Rightarrow> cmd_blkread hw dma argv mo | Cmd_blkwrite \<Rightarrow> cmd_blkwrite hw dma argv mo
      | Cmd_tasks \<Rightarrow> cmd_tasks mo | Cmd_mod \<Rightarrow> cmd_mod mo | Cmd_metrics \<Rightarrow> cmd_metrics mo
      | Cmd_uptime \<Rightarrow> cmd_uptime mo | Cmd_halt \<Rightarrow> cmd_halt mo | Cmd_reboot \<Rightarrow> cmd_reboot mo)"

fun find_cmd :: "string \<Rightarrow> (string \<times> string \<times> cli_cmd) list \<Rightarrow> cli_cmd option" where
  "find_cmd s [] = None"
| "find_cmd s ((name, _, cmd) # cs) = (if str_eq s name then Some cmd else find_cmd s cs)"

definition cli_dispatch :: "'d ports \<Rightarrow> 'd dma \<Rightarrow> 'd monitor \<Rightarrow> 'd monitor exec" where
  "cli_dispatch hw dma mo =
     Option.bind (arr_set (mo_line mo) (unat (mo_pos mo)) (CHR 0x00)) (\<lambda>line.
     let mo = mo\<lparr>mo_line := line\<rparr>
     in if mo_pos mo = 0 then Some mo
     else Option.bind (tokenize (unat (mo_pos mo)) 0 line [] False) (\<lambda>(line, offs).
       let mo = mo\<lparr>mo_line := line\<rparr>; argv = map (cstr line) offs
       in if argv = [] then Some mo
       else (case find_cmd (hd argv) commands of
               Some cmd \<Rightarrow> run_cmd hw dma cmd argv mo
             | None \<Rightarrow> mprint (''Unknown command: %s (type '' @ [CHR 0x27] @ ''help'' @ [CHR 0x27] @ '')'' @ nl)
                         [KStr (Some (hd argv))] mo)))"

definition cli_prompt :: "'d monitor \<Rightarrow> 'd monitor exec" where
  "cli_prompt mo = mprint ''ggmk> '' [] mo"

text \<open>One byte from the serial line.\<close>

definition cli_byte :: "'d ports \<Rightarrow> 'd dma \<Rightarrow> u8 \<Rightarrow> 'd monitor \<Rightarrow> 'd monitor exec" where
  "cli_byte hw dma ch mo =
     (if ch = 0x0A \<and> mo_last_was_cr mo then Some (mo\<lparr>mo_last_was_cr := False\<rparr>)
      else
        let mo = mo\<lparr>mo_last_was_cr := (ch = 0x0D)\<rparr>
        in if ch = 0x0D \<or> ch = 0x0A then do {
             mo \<leftarrow> mprint nl [] mo;
             mo \<leftarrow> cli_dispatch hw dma mo;
             let mo = mo\<lparr>mo_pos := 0\<rparr>;
             if mo_running mo then cli_prompt mo else Some mo }
           else if ch = 0x08 \<or> ch = 0x7F then
             (if mo_pos mo > 0
              then mprint [CHR 0x08, CHR '' '', CHR 0x08] [] (mo\<lparr>mo_pos := mo_pos mo - 1\<rparr>) else Some mo)
           else if ch \<ge> 0x20 \<and> ch < 0x7F then
             (if mo_pos mo < 255 then
                Option.bind (arr_set (mo_line mo) (unat (mo_pos mo)) (char_of (unat ch))) (\<lambda>line.
                  Some (mputs (serial_putc (char_of (unat ch))) (mo\<lparr>mo_line := line, mo_pos := mo_pos mo + 1\<rparr>)))
              else Some mo)
           else Some mo)"

text \<open>The loop on the bytes that arrive; with the input used up the monitor waits.\<close>

fun cli_loop :: "'d ports \<Rightarrow> 'd dma \<Rightarrow> u8 list \<Rightarrow> 'd monitor \<Rightarrow> 'd monitor exec" where
  "cli_loop hw dma [] mo = Some mo"
| "cli_loop hw dma (ch # chs) mo =
     (if mo_running mo then Option.bind (cli_byte hw dma ch mo) (cli_loop hw dma chs) else Some mo)"

text \<open>The scratch page has 4096 bytes; their values are those of the frame, \<open>page\<close>.\<close>

definition cli_run :: "'d ports \<Rightarrow> 'd dma \<Rightarrow> (u64 \<Rightarrow> u8 list) \<Rightarrow> u8 list \<Rightarrow> 'd monitor \<Rightarrow> 'd monitor exec" where
  "cli_run hw dma page input mo =
     (let mo = mo\<lparr>mo_running := True, mo_pos := 0, mo_last_was_cr := False\<rparr> in do {
       mo \<leftarrow> (if virtio_blk_capacity (mo_blk mo) > 0 then
                Option.bind (pmm_alloc_pages 1 (pg_pmm (vm_paging (mo_vmm mo)))) (\<lambda>(phys, p).
                let mo = mo\<lparr>mo_vmm := (mo_vmm mo)\<lparr>vm_paging := (vm_paging (mo_vmm mo))\<lparr>pg_pmm := p\<rparr>\<rparr>\<rparr>
                in Some (if phys \<noteq> 0 then mo\<lparr>mo_scratch := Some (page phys)\<rparr> else mo))
              else Some mo);
       mo \<leftarrow> mprint (nl @ ''=== GGMK Kernel Monitor ==='' @ nl) [] mo;
       mo \<leftarrow> mprint (''Type '' @ [CHR 0x27] @ ''help'' @ [CHR 0x27] @ '' for available commands.'' @ nl @ nl) [] mo;
       mo \<leftarrow> cli_prompt mo;
       cli_loop hw dma input mo })"

end
