(* ===== verification/Cli_Laws.thy ===== *)
theory Cli_Laws
  imports X86_Cli
begin

text \<open>
  What the monitor of \<open>X86_Cli\<close> does with the bytes it receives: the keys of a line build the edited
  line, the end of the line runs the command that the words of the line name, and the write command
  leaves the device with the sector that was asked for.
\<close>

section \<open>Line editing\<close>

definition cli_ok :: "'d monitor \<Rightarrow> bool" where
  "cli_ok mo \<longleftrightarrow> length (mo_line mo) = 256 \<and> unat (mo_pos mo) \<le> 255
     \<and> (\<forall>c\<in>set (take (unat (mo_pos mo)) (mo_line mo)). c \<noteq> CHR 0x00)"

definition typed :: "'d monitor \<Rightarrow> string" where
  "typed mo = take (unat (mo_pos mo)) (mo_line mo)"

text \<open>The effect of one key on the line.\<close>

definition edit :: "string \<Rightarrow> u8 \<Rightarrow> string" where
  "edit s ch =
     (if ch = 0x08 \<or> ch = 0x7F then butlast s
      else if ch \<ge> 0x20 \<and> ch < 0x7F \<and> length s < 255 then s @ [char_of (unat ch)]
      else s)"

text \<open>The monitor with line \<open>s\<close> in its buffer.\<close>

definition with_line :: "'d monitor \<Rightarrow> string \<Rightarrow> string \<Rightarrow> 'd world \<Rightarrow> 'd monitor" where
  "with_line mo buf s w = mo\<lparr>mo_line := buf, mo_pos := of_nat (length s), mo_last_was_cr := False, mo_world := w\<rparr>"

definition holds_line :: "string \<Rightarrow> string \<Rightarrow> bool" where
  "holds_line buf s \<longleftrightarrow> length buf = 256 \<and> length s \<le> 255 \<and> take (length s) buf = s \<and> (\<forall>c\<in>set s. c \<noteq> CHR 0x00)"

lemma kprintf_erase: "\<exists>s. kprintf [CHR 0x08, CHR '' '', CHR 0x08] [] = Some s"
  by (simp add: print_simps)

lemma unat_of_len: "length s \<le> 255 \<Longrightarrow> unat (of_nat (length s) :: u32) = length s"
  by (simp add: unat_of_nat_lt)

lemma printable_not_nul: "(ch :: u8) \<ge> 0x20 \<Longrightarrow> char_of (unat ch) \<noteq> (CHR 0x00 :: char)"
proof
  assume ch: "ch \<ge> 0x20" and c: "char_of (unat ch) = (CHR 0x00 :: char)"
  have "unat ch < 256" using unsigned_less [of ch] by simp
  then have "unat ch = of_char (char_of (unat ch) :: char)" by (simp add: take_bit_nat_eq_self)
  then have "unat ch = 0" using c by simp
  then show False using ch by (simp add: word_le_nat_alt)
qed

lemma cli_byte_key:
  assumes "holds_line buf s" "ch \<noteq> 0x0D" "ch \<noteq> 0x0A"
  shows "\<exists>buf' w'. cli_byte hw dma ch (with_line mo buf s w) = Some (with_line mo buf' (edit s ch) w')
    \<and> holds_line buf' (edit s ch) \<and> w_dev w' = w_dev w"
proof -
  have l: "length buf = 256" "length s \<le> 255" "take (length s) buf = s" "\<forall>c\<in>set s. c \<noteq> CHR 0x00"
    using assms(1) by (simp_all add: holds_line_def)
  have pos: "unat (mo_pos (with_line mo buf s w)) = length s" using l(2) by (simp add: with_line_def unat_of_len)
  consider "ch = 0x08 \<or> ch = 0x7F" | "ch \<noteq> 0x08" "ch \<noteq> 0x7F" "ch \<ge> 0x20" "ch < 0x7F" "length s < 255"
    | "ch \<noteq> 0x08" "ch \<noteq> 0x7F" "\<not> (ch \<ge> 0x20 \<and> ch < 0x7F \<and> length s < 255)" by blast
  then show ?thesis
  proof cases
    case 1
    show ?thesis
    proof (cases "s = []")
      case True
      then show ?thesis using 1 assms
        by (intro exI [of _ buf] exI [of _ w]) (auto simp: cli_byte_def with_line_def edit_def)
    next
      case False
      then obtain t c where s: "s = t @ [c]" by (cases s rule: rev_cases) auto
      then have p: "mo_pos (with_line mo buf s w) > 0" using pos by (simp add: word_less_nat_alt)
      have q: "(of_nat (length s) :: u32) - 1 = of_nat (length t)" by (simp add: s)
      obtain c' where "kprint [CHR 0x08, CHR '' '', CHR 0x08] [] w = Some (w\<lparr>w_con := c'\<rparr>)"
        using kprint_Some [OF kprintf_erase] by blast
      moreover have "take (length t) buf = take (length t) (take (length s) buf)" by (simp add: s)
      then have "take (length t) buf = t" unfolding l(3) by (simp add: s)
      then have "holds_line buf t" using l by (simp add: holds_line_def s)
      ultimately show ?thesis using 1 p q
        by (intro exI [of _ buf] exI [of _ "w\<lparr>w_con := c'\<rparr>"]) (auto simp: cli_byte_def with_line_def edit_def mprint_def s)
    qed
  next
    case 2
    have p: "mo_pos (with_line mo buf s w) < 255" using pos 2(5) by (simp add: word_less_nat_alt)
    let ?b = "buf[length s := char_of (unat ch)]"
    have "take (length s) ?b = s" "?b ! length s = char_of (unat ch)" using l 2(5) by simp_all
    then have "holds_line ?b (s @ [char_of (unat ch)])"
      using l 2(5) printable_not_nul [OF 2(3)] by (auto simp: holds_line_def take_Suc_conv_app_nth)
    moreover have "arr_set buf (unat (mo_pos (with_line mo buf s w))) (char_of (unat ch)) = Some ?b"
      using pos l 2(5) by (simp add: exec_simps)
    ultimately show ?thesis using 2 p assms(2,3)
      by (intro exI [of _ ?b] exI [of _ "w\<lparr>w_con := w_con w @ serial_putc (char_of (unat ch))\<rparr>"])
        (auto simp: cli_byte_def with_line_def edit_def mputs_def add.commute)
  next
    case 3
    then have "\<not> (ch \<ge> 0x20 \<and> ch < 0x7F \<and> mo_pos (with_line mo buf s w) < 255)"
      using pos by (simp add: word_less_nat_alt)
    then show ?thesis using 3 assms
      by (intro exI [of _ buf] exI [of _ w]) (auto simp: cli_byte_def with_line_def edit_def Let_def)
  qed
qed


definition keys_only :: "u8 list \<Rightarrow> bool" where
  "keys_only keys \<longleftrightarrow> 0x0D \<notin> set keys \<and> 0x0A \<notin> set keys"

lemma cli_loop_keys:
  assumes "holds_line buf s" "keys_only keys" "mo_running mo"
  shows "\<exists>buf' w'. cli_loop hw dma (keys @ rest) (with_line mo buf s w) = cli_loop hw dma rest (with_line mo buf' (foldl edit s keys) w')
    \<and> holds_line buf' (foldl edit s keys) \<and> w_dev w' = w_dev w"
  using assms(1,2)
proof (induction keys arbitrary: buf s w)
  case (Cons ch keys)
  then obtain buf1 w1 where k: "cli_byte hw dma ch (with_line mo buf s w) = Some (with_line mo buf1 (edit s ch) w1)"
    "holds_line buf1 (edit s ch)" "w_dev w1 = w_dev w"
    using cli_byte_key [of buf s ch hw dma mo w] by (auto simp: keys_only_def)
  have "mo_running (with_line mo buf s w)" using assms(3) by (simp add: with_line_def)
  then have "cli_loop hw dma ((ch # keys) @ rest) (with_line mo buf s w) = cli_loop hw dma (keys @ rest) (with_line mo buf1 (edit s ch) w1)"
    using k(1) by simp
  then show ?case using Cons.IH [OF k(2), of w1] Cons.prems(2) k(3) by (simp add: keys_only_def)
qed auto

section \<open>The end of a line\<close>

text \<open>The arguments of a line: its words, except that the eighth argument is the whole rest.\<close>

definition line_args :: "string \<Rightarrow> string list" where
  "line_args s = (let st = take 8 (starts s (length s))
     in map (\<lambda>k. if k < 7 then word_at s (st ! k) else drop (st ! k) s) [0..<length st])"

definition run_args :: "'d ports \<Rightarrow> 'd dma \<Rightarrow> string list \<Rightarrow> 'd monitor \<Rightarrow> 'd monitor exec" where
  "run_args hw dma argv mo =
     (if argv = [] then Some mo
      else case find_cmd (hd argv) commands of
             Some cmd \<Rightarrow> run_cmd hw dma cmd argv mo
           | None \<Rightarrow> mprint (''Unknown command: %s (type '' @ [CHR 0x27] @ ''help'' @ [CHR 0x27] @ '')'' @ nl)
                       [KStr (Some (hd argv))] mo)"

definition end_line :: "'d monitor \<Rightarrow> 'd monitor exec" where
  "end_line mo = (let mo = mo\<lparr>mo_pos := 0\<rparr> in if mo_running mo then cli_prompt mo else Some mo)"

lemma holds_line_split:
  assumes "holds_line buf s"
  shows "buf[length s := CHR 0x00] = s @ CHR 0x00 # drop (Suc (length s)) buf"
proof -
  have "buf = s @ drop (length s) buf" using assms unfolding holds_line_def by (metis append_take_drop_id)
  moreover have "drop (length s) buf = buf ! length s # drop (Suc (length s)) buf"
    using assms by (simp add: holds_line_def Cons_nth_drop_Suc)
  ultimately show ?thesis by (metis list_update_length)
qed

lemma cli_dispatch_line:
  assumes "holds_line buf s" "mo_line mo = buf" "mo_pos mo = of_nat (length s)"
  shows "\<exists>line. length line = 256 \<and> cli_dispatch hw dma mo = run_args hw dma (line_args s) (mo\<lparr>mo_line := line\<rparr>)"
proof -
  have l: "length buf = 256" "length s \<le> 255" "\<forall>c\<in>set s. c \<noteq> CHR 0x00" using assms(1) by (simp_all add: holds_line_def)
  have pos: "unat (mo_pos mo) = length s" using l(2) assms(3) by (simp add: unat_of_len)
  let ?buf = "s @ CHR 0x00 # drop (Suc (length s)) buf"
  have set: "arr_set (mo_line mo) (unat (mo_pos mo)) (CHR 0x00) = Some ?buf"
    using assms(2) l pos holds_line_split [OF assms(1)] by (simp add: exec_simps)
  obtain line argv where t: "tokenize (length s) 0 ?buf [] False = Some (line, argv)"
    "argv = take 8 (starts s (length s))" "length line = length s + Suc (length (drop (Suc (length s)) buf))"
    "\<forall>k<length argv. cstr line (argv ! k) = (if k < 7 then word_at s (argv ! k) else drop (argv ! k) s)"
    using tokenize_words [OF l(3), of "drop (Suc (length s)) buf"] by blast
  have args: "map (cstr line) argv = line_args s"
    unfolding line_args_def Let_def t(2) [symmetric] using t(4) by (intro nth_equalityI) simp_all
  show ?thesis
  proof (cases "s = []")
    case True
    then have "line_args s = []" by (simp add: line_args_def starts_def)
    then show ?thesis using True set pos assms(3) l(1)
      by (intro exI [of _ ?buf]) (simp add: cli_dispatch_def run_args_def Let_def)
  next
    case False
    then have "mo_pos mo \<noteq> 0" using pos by auto
    moreover have "argv = [] \<longleftrightarrow> line_args s = []" using args by auto
    ultimately show ?thesis using set t(1,3) l pos
      by (intro exI [of _ line]) (simp add: cli_dispatch_def run_args_def Let_def args cong: option.case_cong)
  qed
qed

lemma cli_byte_eol:
  assumes "holds_line buf s" "ch = 0x0D \<or> ch = 0x0A"
  shows "\<exists>line w'. length line = 256 \<and> w_dev w' = w_dev w \<and> cli_byte hw dma ch (with_line mo buf s w) =
    Option.bind (run_args hw dma (line_args s)
      (mo\<lparr>mo_pos := of_nat (length s), mo_last_was_cr := (ch = 0x0D), mo_world := w', mo_line := line\<rparr>)) end_line"
proof -
  let ?mo = "mo\<lparr>mo_line := buf, mo_pos := of_nat (length s), mo_last_was_cr := (ch = 0x0D),
      mo_world := w\<lparr>w_con := w_con w @ [CHR 0x0D, CHR 0x0A]\<rparr>\<rparr>"
  obtain line where line: "length line = 256" "cli_dispatch hw dma ?mo = run_args hw dma (line_args s) (?mo\<lparr>mo_line := line\<rparr>)"
    using cli_dispatch_line [OF assms(1), of ?mo] by auto
  have "cli_byte hw dma ch (with_line mo buf s w) = Option.bind (cli_dispatch hw dma ?mo) end_line"
    using assms(2) by (auto simp: cli_byte_def with_line_def mprint_def kprint_def newline end_line_def [abs_def] Let_def)
  then show ?thesis using line
    by (intro exI [of _ line] exI [of _ "w\<lparr>w_con := w_con w @ [CHR 0x0D, CHR 0x0A]\<rparr>"]) simp
qed


lemma typed_line:
  assumes "mo_running mo" "length (mo_line mo) = 256" "mo_pos mo = 0" "\<not> mo_last_was_cr mo" "keys_only keys"
    "eol = 0x0D \<or> eol = 0x0A"
  shows "\<exists>line w. length line = 256 \<and> w_dev w = w_dev (mo_world mo)
    \<and> cli_loop hw dma (keys @ [eol]) mo =
        Option.bind (run_args hw dma (line_args (foldl edit [] keys))
          (mo\<lparr>mo_pos := of_nat (length (foldl edit [] keys)), mo_last_was_cr := (eol = 0x0D), mo_world := w, mo_line := line\<rparr>)) end_line"
proof -
  let ?s = "foldl edit [] keys"
  have mo: "mo = with_line mo (mo_line mo) [] (mo_world mo)" "holds_line (mo_line mo) []"
    using assms by (simp_all add: with_line_def holds_line_def)
  obtain buf w1 where k: "cli_loop hw dma (keys @ [eol]) mo = cli_loop hw dma [eol] (with_line mo buf ?s w1)"
    "holds_line buf ?s" "w_dev w1 = w_dev (mo_world mo)"
    using cli_loop_keys [OF mo(2) assms(5,1), of hw dma "[eol]" "mo_world mo", folded mo(1)] by blast
  obtain line w2 where e: "length line = 256" "w_dev w2 = w_dev w1" "cli_byte hw dma eol (with_line mo buf ?s w1) =
      Option.bind (run_args hw dma (line_args ?s)
        (mo\<lparr>mo_pos := of_nat (length ?s), mo_last_was_cr := (eol = 0x0D), mo_world := w2, mo_line := line\<rparr>)) end_line"
    using cli_byte_eol [OF k(2) assms(6), of w1 hw dma mo] by blast
  have "mo_running (with_line mo buf ?s w1)" using assms(1) by (simp add: with_line_def)
  moreover have "Option.bind x (cli_loop hw dma []) = x" for x by (cases x) simp_all
  ultimately have "cli_loop hw dma (keys @ [eol]) mo = cli_byte hw dma eol (with_line mo buf ?s w1)" using k(1) by simp
  then show ?thesis using e k(3) by (intro exI [of _ line] exI [of _ w2]) simp
qed


lemma cli_loop_append: "cli_loop hw dma (xs @ ys) mo = Option.bind (cli_loop hw dma xs mo) (cli_loop hw dma ys)"
proof (induction xs arbitrary: mo)
  case (Cons x xs)
  then show ?case by (cases ys) (auto split: bind_splits)
qed simp

lemma prompt: "kprintf ''ggmk> '' [] = Some ''ggmk> ''"
  by (simp add: print_simps serial_putc_def)

lemma end_line_prompt:
  "mo_running mo \<Longrightarrow> end_line mo = Some (mo\<lparr>mo_pos := 0, mo_world := (mo_world mo)\<lparr>w_con := w_con (mo_world mo) @ ''ggmk> ''\<rparr>\<rparr>)"
  by (simp add: end_line_def cli_prompt_def mprint_def kprint_def prompt)

lemma end_line_keeps:
  "mo_running mo \<Longrightarrow> \<exists>mo'. end_line mo = Some mo' \<and> mo_running mo' \<and> mo_pos mo' = 0 \<and> mo_last_was_cr mo' = mo_last_was_cr mo"
  by (simp add: end_line_prompt)

lemma cmd_uptime_keeps: "\<exists>w. cmd_uptime mo = Some (mo\<lparr>mo_world := w\<rparr>)"
  by (auto simp: cmd_uptime_def mprint_def kprint_def print_simps mputs_def Let_def)

section \<open>Writing a sector\<close>

definition verify_line :: "u64 \<Rightarrow> u64 \<Rightarrow> string" where
  "verify_line lba v = ''Sector '' @ notation_of 10 (unat lba) @ '': write 0x'' @ notation_of 16 (unat v) @
     '', verify PASS'' @ [CHR 0x0D, CHR 0x0A]"

lemma kprintf_verify:
  assumes "v \<le> 255"
  shows "kprintf (''Sector %lu: write 0x%x, verify %s'' @ nl) [KUlong lba, KUint (ucast v), KStr (Some ''PASS'')] =
    Some (verify_line lba v)"
proof -
  have "unat v < 2 ^ 32" using assms by (simp add: word_le_nat_alt)
  then have "unat (ucast (ucast v :: u32) :: u64) = unat v" by (simp add: unsigned_ucast_eq unsigned_take_bit_eq take_bit_nat_eq_self)
  then show ?thesis by (simp add: print_simps verify_line_def serial_putc_def)
qed

lemma blkwrite_serves:
  assumes run: "blk_running v (i # j # k # l) hw dma (mo_blk mo) (mo_world mo)"
    and pg: "mo_scratch mo = Some pg" "512 \<le> length pg"
    and lba: "lba < vb_capacity (mo_blk mo)" and val: "val \<le> 255"
    and argv: "argv ! 1 = notation_of 10 (unat lba)" "argv ! 2 = notation_of 10 (unat val)" "length argv = 3"
  obtains b' w' pg' where
    "cmd_blkwrite hw dma argv mo = Some (mo\<lparr>mo_scratch := Some pg', mo_blk := b', mo_world := w'\<rparr>)"
    "blk_running v (i # j # k # l) hw dma b' w'" "512 \<le> length pg'" "vb_capacity b' = vb_capacity (mo_blk mo)"
    "w_con w' = w_con (mo_world mo) @ verify_line lba val"
    "dv_disk v (w_dev w') = (dv_disk v (w_dev (mo_world mo)))(lba := replicate 512 (ucast val))"
proof -
  let ?pg = "replicate 512 (ucast val) @ drop 512 pg"
  have fill: "fill_512 (ucast val) pg = Some ?pg" "512 \<le> length ?pg" using pg(2) by (simp_all add: fill_512_def)
  obtain b1 w1 where w: "virtio_blk_write hw dma lba (Some ?pg) (mo_blk mo) (mo_world mo) = Some (0, Some ?pg, b1, w1)"
    "blk_running v (i # j # k # l) hw dma b1 w1" "vb_capacity b1 = vb_capacity (mo_blk mo)" "w_con w1 = w_con (mo_world mo)"
    "dv_disk v (w_dev w1) = (dv_disk v (w_dev (mo_world mo)))(lba := take 512 ?pg)"
    by (rule blk_write_serves [OF run lba fill(2)])
  obtain b2 w2 where r: "virtio_blk_read hw dma lba (Some (replicate 512 0)) b1 w1 =
      Some (0, Some (dv_disk v (w_dev w1) lba @ drop 512 (replicate 512 0)), b2, w2)"
    "blk_running v (i # j # k # l) hw dma b2 w2" "vb_capacity b2 = vb_capacity b1" "w_con w2 = w_con w1"
    "dv_disk v (w_dev w2) = dv_disk v (w_dev w1)"
    by (rule blk_read_serves [OF w(2), of lba "replicate 512 0"]) (use lba w(3) in simp_all)
  have d: "dv_disk v (w_dev w1) lba @ drop 512 (replicate 512 0) = replicate 512 (ucast val)" using w(5) by simp
  have guards: "\<not> vb_capacity (mo_blk mo) \<le> lba" "\<not> 255 < val" using lba val by auto
  define w3 where "w3 = w2\<lparr>w_con := w_con w2 @ verify_line lba val\<rparr>"
  have "cmd_blkwrite hw dma argv mo = Some (mo\<lparr>mo_scratch := Some ?pg, mo_blk := b2, mo_world := w3\<rparr>)"
    using argv pg(1) guards fill(1) w(1) r(1) d kprintf_verify [OF val, of lba]
    by (simp add: cmd_blkwrite_def parse_u64_dec virtio_blk_capacity_def mprint_def kprint_def w3_def Let_def del: drop_replicate)
  moreover have "blk_running v (i # j # k # l) hw dma b2 w3" using r(2) by (simp add: blk_running_def w3_def)
  ultimately show thesis
    by (rule that) (use fill(2) r w in \<open>simp_all add: w3_def\<close>)
qed

end
