(* ===== verification/Sample_Devices.thy ===== *)
theory Sample_Devices
  imports Cli_Laws Sample_Machine Sample_States
begin

text \<open>
  Concrete devices at which the theorems on drivers and the monitor are evaluated: a disk that
  executes a request as soon as it sees it, a device that never answers, a PCI bus with one
  function, and a monitor with an empty line.
\<close>

type_synonym disk = "u16 \<times> (u64 \<Rightarrow> u8 list)"

definition quiet_ports :: "'d ports" where
  "quiet_ports = \<lparr>p_inb = \<lambda>_ d. (0, d), p_inw = \<lambda>_ d. (0, d), p_inl = \<lambda>_ d. (0, d),
     p_outb = \<lambda>_ _ d. d, p_outw = \<lambda>_ _ d. d, p_outl = \<lambda>_ _ d. d\<rparr>"

definition disk_dma :: "disk dma" where
  "disk_dma = (\<lambda>(seen, disk) m.
     if vr_avail_idx (sm_ring m) = seen then ((seen, disk), m)
     else ((seen + 1, disk_after m disk),
       m\<lparr>sm_ring := (sm_ring m)\<lparr>vr_used_idx := vr_used_idx (sm_ring m) + 1, vr_used_ring := vr_used_ring (sm_ring m)\<rparr>,
         sm_status := 0, sm_data := (if rq_type (sm_header m) = 0 then disk (rq_sector (sm_header m)) else sm_data m)\<rparr>))"

definition disk_view :: "disk disk_view" where
  "disk_view = \<lparr>dv_states = {d. \<forall>s. length (snd d s) = 512}, dv_disk = snd, dv_seen = fst, dv_lag = \<lambda>_. 0\<rparr>"

lemma disk_answers:
  assumes "vr_avail_idx (sm_ring m) \<noteq> seen"
  obtains m' where "disk_dma (seen, disk) m = ((seen + 1, disk_after m disk), m')" "answered disk m m'"
proof -
  have "answered disk m (snd (disk_dma (seen, disk) m))"
    unfolding answered_def using assms by (intro exI [of _ "vr_used_ring (sm_ring m)"]) (simp add: disk_dma_def)
  then show thesis using assms by (intro that [of "snd (disk_dma (seen, disk) m)"]) (simp_all add: disk_dma_def)
qed

lemma disk_serves: "serves disk_view cap quiet_ports disk_dma b"
proof -
  have "idle_ok disk_view disk_dma"
    by (auto simp: idle_ok_def disk_view_def disk_dma_def unchanged_def split: prod.splits)
  moreover have "work_ok disk_view cap hp dp sp disk_dma" for hp dp sp
    unfolding work_ok_def
  proof (intro ballI allI impI)
    fix d :: disk and m
    assume d: "d \<in> dv_states disk_view" and a: "vr_avail_idx (sm_ring m) = dv_seen disk_view d + 1 \<and>
        request hp dp sp (dv_seen disk_view d) m \<and> rq_sector (sm_header m) < cap"
    obtain seen disk where sd: "d = (seen, disk)" by (cases d)
    have "length (sm_data m) = 512" using a by (auto simp: request_def Let_def)
    moreover obtain m' where "disk_dma d m = ((seen + 1, disk_after m disk), m')" "answered disk m m'"
      using disk_answers [of m seen disk] a by (auto simp: sd disk_view_def)
    ultimately show "case disk_dma d m of (d', m') \<Rightarrow>
        m' = m \<and> unchanged disk_view d d' \<and> dv_lag disk_view d' < dv_lag disk_view d \<or>
        d' \<in> dv_states disk_view \<and> answered (dv_disk disk_view d) m m' \<and> dv_seen disk_view d' = dv_seen disk_view d + 1 \<and>
        dv_disk disk_view d' = disk_after m (dv_disk disk_view d)"
      using d by (simp add: sd disk_view_def disk_after_def)
  qed
  ultimately show ?thesis
    by (auto simp: serves_def disk_view_def unchanged_def virtio_pci_notify_def quiet_ports_def)
qed

text \<open>A queue of four descriptors, as set-up leaves it.\<close>

definition sample_queue :: virtqueue where
  "sample_queue = zero_queue\<lparr>vq_num := 4, vq_num_free := 4,
     vq_ring := (zero_ring 4)\<lparr>vr_desc := map (\<lambda>i. \<lparr>de_addr = 0, de_len = 0, de_flags = 0, de_next = of_nat (Suc i)\<rparr>) [0..<4]\<rparr>\<rparr>"

definition sample_blk :: virtio_blk where
  "sample_blk = zero_blk\<lparr>vb_queue := sample_queue, vb_capacity := 8, vb_data := replicate 512 0,
     vb_header_phys := 0x5000, vb_data_phys := 0x5200, vb_status_phys := 0x5400\<rparr>"

lemma sample_blk_ready: "blk_ready [0, 1, 2, 3] sample_blk"
  by (simp add: blk_ready_def queue_ok_def sample_blk_def sample_queue_def zero_blk_def zero_queue_def zero_ring_def)

definition sample_world :: "disk world" where
  "sample_world = \<lparr>w_dev = (0, \<lambda>_. replicate 512 0), w_con = []\<rparr>"

lemma sample_blk_running: "blk_running disk_view [0, 1, 2, 3] quiet_ports disk_dma sample_blk sample_world"
  using sample_blk_ready disk_serves
  by (simp add: blk_running_def sample_world_def sample_blk_def sample_queue_def zero_ring_def disk_view_def)

lemma sample_blk_capacity [simp]: "vb_capacity sample_blk = 8"
  by (simp add: sample_blk_def)

text \<open>A device that never answers.\<close>

definition dead_dma :: "disk dma" where
  "dead_dma = (\<lambda>d m. (d, m))"

lemma dead_silent: "silent dead_dma"
  by (simp add: silent_def dead_dma_def)

text \<open>A bus on which the address port is remembered; device 2 is a block device.\<close>

definition bus_cfg :: "u32 \<Rightarrow> u32" where
  "bus_cfg a = (if take_bit 5 (drop_bit 11 a) = 2 \<and> take_bit 3 (drop_bit 8 a) = 0 \<and> take_bit 8 a = 0 then 0x10011AF4
     else if take_bit 5 (drop_bit 11 a) = 2 \<and> take_bit 3 (drop_bit 8 a) = 0 then 0 else 0xFFFFFFFF)"

definition bus_ports :: "u32 ports" where
  "bus_ports = \<lparr>p_inb = \<lambda>_ d. (0, d), p_inw = \<lambda>_ d. (0, d), p_inl = \<lambda>_ d. (bus_cfg d, d),
     p_outb = \<lambda>_ _ d. d, p_outw = \<lambda>_ _ d. d, p_outl = \<lambda>port v d. if port = 0xCF8 then v else d\<rparr>"

lemma bus_config: "config_space bus_ports UNIV bus_cfg"
  by (simp add: config_space_def bus_ports_def)

lemma pci_static_ok: "pci_table_ok (pci_devices pci_static)" "pci_table_ok (replicate 32 zero_pci_device)"
  by (simp_all add: pci_table_ok_def pci_static_def zero_pci_device_def)

definition sample_monitor :: "disk monitor" where
  "sample_monitor = \<lparr>mo_line = replicate 256 (CHR 0x00), mo_pos = 0, mo_last_was_cr = False, mo_running = True,
     mo_scratch = Some (replicate 4096 0), mo_kernel = zero_kernel (\<lambda>_. 0) sample_hal, mo_cpu_ids = [0],
     mo_bsp_lapic = 0, mo_vmm = sample_vmm, mo_pci = pci_static, mo_blk = sample_blk, mo_ticks = 0,
     mo_world = sample_world\<rparr>"

lemma sample_monitor_simps [simp]:
  "mo_line sample_monitor = replicate 256 (CHR 0x00)" "mo_pos sample_monitor = 0" "\<not> mo_last_was_cr sample_monitor"
  "mo_running sample_monitor" "mo_scratch sample_monitor = Some (replicate 4096 0)" "mo_blk sample_monitor = sample_blk"
  "mo_world sample_monitor = sample_world"
  by (simp_all add: sample_monitor_def)

text \<open>The bytes of a text.\<close>

definition bytes_of :: "string \<Rightarrow> u8 list" where
  "bytes_of s = map (\<lambda>c. of_nat (of_char c)) s"

end
