(* ===== verification/Device_Properties.thy ===== *)
theory Device_Properties
  imports Sample_Devices
begin

text \<open>
  The properties of the PCI enumeration, the virtio drivers and the kernel monitor.
\<close>

section \<open>Drivers\<close>

text \<open>C31: The block driver with a device that serves its requests is an array of sectors.  For every
  sequence of reads and writes inside the capacity, each request returns 0, a read fills the caller's
  buffer with the sector, a write replaces exactly that sector, and the driver ends with the free
  descriptors it began with.\<close>

theorem blk_refines_disk:
  assumes "blk_running v (i # j # k # l) hw dma b w" "\<forall>r\<in>set rs. request_ok (vb_capacity b) r"
  shows "\<exists>b' w'. blk_requests hw dma rs b w = Some (fst (disk_spec rs (dv_disk v (w_dev w))), b', w')
    \<and> blk_running v (i # j # k # l) hw dma b' w' \<and> dv_disk v (w_dev w') = snd (disk_spec rs (dv_disk v (w_dev w)))"
  using assms by (rule blk_requests_serve)

theorem blk_refines_disk_witness:
  "\<exists>b' w'. blk_requests quiet_ports disk_dma [(1, 5, Some (replicate 512 7)), (0, 5, Some (replicate 600 0))] sample_blk sample_world =
    Some ([(0, Some (replicate 512 7)), (0, Some (replicate 512 7 @ replicate 88 0))], b', w')"
proof -
  let ?rs = "[(1, 5, Some (replicate 512 7)), (0, 5, Some (replicate 600 0))] :: io_request list"
  have "\<forall>r\<in>set ?rs. request_ok (vb_capacity sample_blk) r" by (simp add: request_ok_def)
  from blk_refines_disk [OF sample_blk_running this] show ?thesis
    by (auto simp: disk_view_def sample_world_def)
qed

text \<open>C32: A request that the device does not answer in time costs three descriptors for good.  With a
  device that stays silent every request returns -1, and after a third as many requests as there were
  free descriptors the driver refuses all later requests without touching the device, whatever
  device is behind it.\<close>

theorem blk_timeouts_exhaust:
  assumes "blk_ready l b" "silent dma" "\<forall>(_, _, buf)\<in>set rs. buf_ok buf" "length rs = length l div 3"
  shows "\<exists>b' w'. blk_requests hw dma rs b w = Some (map (\<lambda>(_, _, buf). (- 1, buf)) rs, b', w') \<and>
    (\<forall>(hw' :: 'd ports) dma' type sector buf w. \<exists>c.
       virtio_blk_do_io hw' dma' type sector buf b' w = Some (- 1, buf, b', w\<lparr>w_con := c\<rparr>))"
proof -
  have "3 * length rs \<le> length l" using assms(4) by simp
  with blk_requests_silent [OF assms(2,3,1)] obtain b' w' where
    "blk_requests hw dma rs b w = Some (map (\<lambda>(_, _, buf). (- 1, buf)) rs, b', w')" "blk_ready (drop (3 * length rs) l) b'"
    by blast
  moreover have "length (drop (3 * length rs) l) < 3" using assms(4) by (simp add: minus_mult_div_eq_mod)
  ultimately show ?thesis using blk_io_exhausted by blast
qed

theorem blk_timeouts_exhaust_witness:
  "\<exists>b' w'. blk_requests quiet_ports dead_dma [(0, 1, Some (replicate 512 0))] sample_blk sample_world =
      Some ([(- 1, Some (replicate 512 0))], b', w') \<and>
    (\<exists>c. virtio_blk_do_io quiet_ports disk_dma 0 1 None b' sample_world = Some (- 1, None, b', sample_world\<lparr>w_con := c\<rparr>))"
  using blk_timeouts_exhaust [OF sample_blk_ready dead_silent, of "[(0, 1, Some (replicate 512 0))]" quiet_ports sample_world, where 'd = disk]
  by (auto simp: buf_ok_def)

text \<open>The three parts of a ring lie side by side in the memory that set-up allocates.  When the
  device reports a queue of \<open>num\<close> entries and the pages are available, set-up returns 0 with all
  descriptors in the free chain; the descriptor table and the available ring end before the used ring
  begins, the used ring begins on a page boundary and ends inside the allocated pages, and not a
  page more than needed is allocated.\<close>

theorem queue_setup_layout:
  assumes "p_inw hw (ucast (io_base + 0x0C)) (p_outw hw (ucast (io_base + 0x0E)) idx (w_dev w)) = (num, d)"
    "num \<noteq> 0" "pmm_alloc_pages (ring_pages num) pm = Some (phys, pm')" "phys \<noteq> 0"
  shows "\<exists>q w'. virtio_pci_setup_queue hw hhdm io_base idx vq pm w = Some (0, q, pm', w')
    \<and> queue_ok [0..<unat num] q \<and> vq_desc q = phys + hhdm
    \<and> vq_avail q = vq_desc q + vring_desc_size num \<and> vq_used q = vq_desc q + used_offset num
    \<and> unat (vring_desc_size num) + unat (vring_avail_size num) \<le> unat (used_offset num)
    \<and> unat (used_offset num) mod 4096 = 0
    \<and> unat (used_offset num) + unat (vring_used_size num) \<le> 4096 * unat (ring_pages num)
    \<and> 4096 * unat (ring_pages num) < unat (used_offset num) + unat (vring_used_size num) + 4096"
proof -
  obtain q c where q: "virtio_pci_setup_queue hw hhdm io_base idx vq pm w =
      Some (0, q, pm', w\<lparr>w_dev := p_outl hw (ucast (io_base + 0x08)) (ucast (drop_bit 12 phys)) d, w_con := c\<rparr>)"
    "ring_at hhdm phys io_base idx num q" "queue_ok [0..<unat num] q"
    using setup_queue_ok [OF assms] by blast
  have "18 * unat num + 6 \<le> unat (used_offset num)" "unat (used_offset num) mod 4096 = 0"
    using align_up_ge [of 4096 "18 * unat num + 6"] by (simp_all add: unat_used_offset align_up_def)
  then show ?thesis using q by (simp add: ring_at_def vring_sizes unat_ring_pages unat_total_size) linarith
qed

definition four_ports :: "unit ports" where
  "four_ports = quiet_ports\<lparr>p_inw := \<lambda>_ d. (4, d)\<rparr>"

theorem queue_setup_layout_witness:
  "\<exists>q pm' w'. virtio_pci_setup_queue four_ports 0 0xC000 0 zero_queue sample_pmm \<lparr>w_dev = (), w_con = []\<rparr> = Some (0, q, pm', w')
    \<and> queue_ok [0, 1, 2, 3] q"
proof -
  have p: "unat (ring_pages 4) = 2"
    by (simp add: unat_ring_pages unat_total_size unat_used_offset align_up_def)
  have "(LEAST s. fits sample_pmm 2 s) = 1" by (rule Least_equality) (auto simp: sample_fits)
  then obtain pm' where a: "pmm_alloc_pages (ring_pages 4) sample_pmm = Some (4096, pm')"
    using pmm_alloc_fits [of sample_pmm "ring_pages 4" 1] p by (cases "ring_pages 4 = 0") (auto simp: sample_fits)
  have n: "p_inw four_ports (ucast ((0xC000 :: u32) + 0x0C)) (p_outw four_ports (ucast ((0xC000 :: u32) + 0x0E)) 0
      (w_dev \<lparr>w_dev = (), w_con = []\<rparr>)) = (4, ())" by (simp add: four_ports_def)
  have "[0..<unat (4 :: u16)] = [0, 1, 2, 3]" by simp
  then show ?thesis using queue_setup_layout [OF n _ a, of 0 zero_queue] by auto
qed


text \<open>C33: The scan lists the functions of bus 0.  On a bus whose configuration registers are \<open>cfg\<close>, the
  scan returns with a table that holds, in order of device and function number, every function 0 that
  answers and, for devices that say they have several functions, the other functions that answer, cut
  at 32 entries; and a look-up by vendor and device returns the first entry that carries both.\<close>

theorem pci_scan_lists_bus:
  assumes "config_space hw S cfg" "pci_table_ok (pci_devices p)" "w_dev w \<in> S"
  shows "\<exists>p' w'. pci_init hw p w = Some (p', w')
    \<and> unat (pci_n p') = min 32 (length (bus_funcs cfg [0..<32])) \<and> length (pci_devices p') = 32
    \<and> (\<forall>i<unat (pci_n p'). pci_devices p' ! i = pci_entry cfg (bus_funcs cfg [0..<32] ! i) (pd_bar (pci_devices p ! i)))
    \<and> (\<forall>ven dev. case pci_find_device ven dev p' of
         None \<Rightarrow> \<forall>i<unat (pci_n p'). \<not> is_device ven dev (pci_devices p' ! i)
       | Some i \<Rightarrow> i < unat (pci_n p') \<and> is_device ven dev (pci_devices p' ! i)
           \<and> (\<forall>k<i. \<not> is_device ven dev (pci_devices p' ! k)))"
proof -
  obtain p' w' where r: "pci_init hw p w = Some (p', w')"
    "holds_funcs cfg (pci_devices p) (take 32 (bus_funcs cfg [0..<32])) p'"
    using pci_init_eq [OF assms] by blast
  have n: "unat (pci_n p') = min 32 (length (bus_funcs cfg [0..<32]))" and len: "length (pci_devices p') = 32"
    and es: "\<forall>i<unat (pci_n p'). pci_devices p' ! i = pci_entry cfg (bus_funcs cfg [0..<32] ! i) (pd_bar (pci_devices p ! i))"
    using r(2) assms(2) by (auto simp: holds_funcs_def pci_table_ok_def pci_table_def unat_of_nat_lt min_def)
  have t: "length (take (unat (pci_n p')) (pci_devices p')) = unat (pci_n p')"
    "\<And>i. i < unat (pci_n p') \<Longrightarrow> take (unat (pci_n p')) (pci_devices p') ! i = pci_devices p' ! i"
    using n len by simp_all
  have "case pci_find_device ven dev p' of None \<Rightarrow> \<forall>i<unat (pci_n p'). \<not> is_device ven dev (pci_devices p' ! i)
     | Some i \<Rightarrow> i < unat (pci_n p') \<and> is_device ven dev (pci_devices p' ! i) \<and> (\<forall>k<i. \<not> is_device ven dev (pci_devices p' ! k))" for ven dev
  proof (cases "pci_find_device ven dev p'")
    case None
    have "pci_devices p' ! i \<in> set (take (unat (pci_n p')) (pci_devices p'))" if "i < unat (pci_n p')" for i
      using that t nth_mem [of i "take (unat (pci_n p')) (pci_devices p')"] by simp
    moreover have "\<forall>e\<in>set (take (unat (pci_n p')) (pci_devices p')). \<not> is_device ven dev e"
      using None by (simp add: pci_find_device_def find_from_None)
    ultimately show ?thesis unfolding None by simp
  next
    case (Some i)
    moreover from Some have "i < unat (pci_n p') \<and> is_device ven dev (pci_devices p' ! i)
        \<and> (\<forall>k<i. \<not> is_device ven dev (pci_devices p' ! k))"
      using t by (auto simp: pci_find_device_def find_from_Some)
    ultimately show ?thesis by simp
  qed
  then show ?thesis using r(1) n len es by blast
qed

theorem pci_scan_lists_bus_witness:
  "\<exists>p' w'. pci_init bus_ports pci_static \<lparr>w_dev = 0, w_con = []\<rparr> = Some (p', w') \<and> unat (pci_n p') = 1
    \<and> pci_devices p' ! 0 = pci_entry bus_cfg (2, 0) (replicate 6 0)"
proof -
  have f: "bus_funcs bus_cfg [0..<32] = [(2, 0)]" by code_simp
  from pci_scan_lists_bus [OF bus_config pci_static_ok(1), of "\<lparr>w_dev = 0, w_con = []\<rparr>"]
  show ?thesis by (auto simp: f) (simp add: pci_static_def zero_pci_device_def)
qed

section \<open>The monitor\<close>

text \<open>C34: Numbers survive the round trip through the console: what \<open>kprintf\<close> prints for \<open>%lu\<close>, and for
  \<open>%lx\<close> after the prefix \<open>0x\<close>, is read back by the number parser of the monitor as the same 64-bit
  value.\<close>

theorem printed_numbers_parse:
  "(\<exists>s. kprintf ''%lu'' [KUlong v] = Some s \<and> parse_u64 s = (v, True))
   \<and> (\<exists>s. kprintf ''0x%lx'' [KUlong v] = Some s \<and> parse_u64 s = (v, True))"
  by (simp add: print_simps parse_u64_dec parse_u64_hex serial_putc_def)



text \<open>C36: Typing a write command writes the sector.  With a device that serves requests, a line whose words
  are \<open>blkwrite\<close>, the decimal number of a sector of the device and a decimal number up to 255 makes
  exactly that sector a sector of 512 such bytes; the monitor reports that the sector was verified,
  prints the prompt and stays ready for the next line with all descriptors free.\<close>

theorem monitor_writes_sector:
  assumes "blk_running v (i # j # k # l) hw dma (mo_blk mo) (mo_world mo)"
    "mo_scratch mo = Some pg" "512 \<le> length pg" "lba < vb_capacity (mo_blk mo)" "val \<le> 255"
    "mo_running mo" "length (mo_line mo) = 256" "mo_pos mo = 0" "\<not> mo_last_was_cr mo" "keys_only keys"
    "line_args (foldl edit [] keys) = [''blkwrite'', notation_of 10 (unat lba), notation_of 10 (unat val)]"
  shows "\<exists>mo' pre. cli_loop hw dma (keys @ [0x0D]) mo = Some mo'
    \<and> dv_disk v (w_dev (mo_world mo')) = (dv_disk v (w_dev (mo_world mo)))(lba := replicate 512 (ucast val))
    \<and> w_con (mo_world mo') = pre @ verify_line lba val @ ''ggmk> ''
    \<and> mo_running mo' \<and> length (mo_line mo') = 256 \<and> mo_pos mo' = 0
    \<and> blk_running v (i # j # k # l) hw dma (mo_blk mo') (mo_world mo')"
proof -
  let ?n = "of_nat (length (foldl edit [] keys))"
  obtain line w where l: "length line = 256" "w_dev w = w_dev (mo_world mo)"
    "cli_loop hw dma (keys @ [0x0D]) mo =
      Option.bind (run_args hw dma [''blkwrite'', notation_of 10 (unat lba), notation_of 10 (unat val)]
        (mo\<lparr>mo_pos := ?n, mo_last_was_cr := True, mo_world := w, mo_line := line\<rparr>)) end_line"
    using typed_line [OF assms(6-10), of "0x0D" hw dma] assms(11) by auto
  let ?mo = "mo\<lparr>mo_pos := ?n, mo_last_was_cr := True, mo_world := w, mo_line := line\<rparr>"
  have run: "blk_running v (i # j # k # l) hw dma (mo_blk ?mo) (mo_world ?mo)"
    using assms(1) l(2) by (simp add: blk_running_def)
  obtain b' w' pg' where c: "cmd_blkwrite hw dma [''blkwrite'', notation_of 10 (unat lba), notation_of 10 (unat val)] ?mo =
      Some (?mo\<lparr>mo_scratch := Some pg', mo_blk := b', mo_world := w'\<rparr>)"
    "blk_running v (i # j # k # l) hw dma b' w'" "w_con w' = w_con (mo_world ?mo) @ verify_line lba val"
    "dv_disk v (w_dev w') = (dv_disk v (w_dev (mo_world ?mo)))(lba := replicate 512 (ucast val))"
    by (rule blkwrite_serves [OF run, of pg lba val "[''blkwrite'', notation_of 10 (unat lba), notation_of 10 (unat val)]"])
      (use assms(2-5) in simp_all)
  let ?mo' = "?mo\<lparr>mo_scratch := Some pg', mo_blk := b', mo_world := w'\<rparr>"
  have "run_args hw dma [''blkwrite'', notation_of 10 (unat lba), notation_of 10 (unat val)] ?mo = Some ?mo'"
    unfolding run_args_def using c(1) by (simp add: commands_def str_eq_iff run_cmd_def)
  then have "cli_loop hw dma (keys @ [0x0D]) mo =
      Some (?mo'\<lparr>mo_pos := 0, mo_world := w'\<lparr>w_con := w_con w' @ ''ggmk> ''\<rparr>\<rparr>)"
    using l(3) end_line_prompt [of ?mo'] assms(6) by simp
  then show ?thesis using c l(1,2) assms(6)
    by (intro exI [of _ "?mo'\<lparr>mo_pos := 0, mo_world := w'\<lparr>w_con := w_con w' @ ''ggmk> ''\<rparr>\<rparr>"] exI [of _ "w_con w"])
      (simp add: blk_running_def)
qed

theorem monitor_writes_sector_witness:
  "\<exists>mo'. cli_loop quiet_ports disk_dma (bytes_of ''blkwrite 5 171'' @ [0x0D]) sample_monitor = Some mo'
    \<and> dv_disk disk_view (w_dev (mo_world mo')) 5 = replicate 512 171"
proof -
  have k: "keys_only (bytes_of ''blkwrite 5 171'')" by code_simp
  have a: "line_args (foldl edit [] (bytes_of ''blkwrite 5 171'')) =
      [''blkwrite'', notation_of 10 (unat (5 :: u64)), notation_of 10 (unat (171 :: u64))]" by code_simp
  show ?thesis
    using monitor_writes_sector [of disk_view 0 1 2 "[3]" quiet_ports disk_dma sample_monitor "replicate 4096 0" 5 171
        "bytes_of ''blkwrite 5 171''", OF _ _ _ _ _ _ _ _ _ k a] sample_blk_running
    by (auto simp: disk_view_def)
qed

end
