(* ===== verification/X86_Lapic.thy ===== *)
theory X86_Lapic
  imports X86_Pci
begin

text \<open>
  The local APIC \<open>arch/x86_64/lapic.c\<close>: enabling it, end of interrupt, interprocessor interrupts and
  the timer, calibrated against channel 2 of the PIT.  The registers are memory-mapped: a parameter
  gives the two kinds of access to a 32-bit device register, at its virtual address.  The loops that
  poll a register may run forever, so they are partial functions; the hypotheses
  \<open>icr_drains\<close> and \<open>pit_expires\<close> say that the hardware finishes what it was asked to do.

  The lemmas show that an interprocessor interrupt is sent as one destination and one command, and
  which counts the timer is programmed with.
\<close>

section \<open>Memory-mapped registers\<close>

record 'd mmio =
  mm_read :: "addr \<Rightarrow> 'd \<Rightarrow> u32 \<times> 'd"
  mm_write :: "addr \<Rightarrow> u32 \<Rightarrow> 'd \<Rightarrow> 'd"

abbreviation (input) LAPIC_PHYS_BASE :: u64 where "LAPIC_PHYS_BASE \<equiv> 0xFEE00000"
abbreviation (input) LAPIC_ID :: u32 where "LAPIC_ID \<equiv> 0x020"
abbreviation (input) LAPIC_TPR :: u32 where "LAPIC_TPR \<equiv> 0x080"
abbreviation (input) LAPIC_EOI :: u32 where "LAPIC_EOI \<equiv> 0x0B0"
abbreviation (input) LAPIC_SPURIOUS :: u32 where "LAPIC_SPURIOUS \<equiv> 0x0F0"
abbreviation (input) LAPIC_ICR_LO :: u32 where "LAPIC_ICR_LO \<equiv> 0x300"
abbreviation (input) LAPIC_ICR_HI :: u32 where "LAPIC_ICR_HI \<equiv> 0x310"
abbreviation (input) LAPIC_TIMER_LVT :: u32 where "LAPIC_TIMER_LVT \<equiv> 0x320"
abbreviation (input) LAPIC_TIMER_ICR :: u32 where "LAPIC_TIMER_ICR \<equiv> 0x380"
abbreviation (input) LAPIC_TIMER_CCR :: u32 where "LAPIC_TIMER_CCR \<equiv> 0x390"
abbreviation (input) LAPIC_TIMER_DCR :: u32 where "LAPIC_TIMER_DCR \<equiv> 0x3E0"
abbreviation (input) ICR_DELIVERY_PENDING :: u32 where "ICR_DELIVERY_PENDING \<equiv> 0x1000"
abbreviation (input) IPI_WAKE_VECTOR :: u8 where "IPI_WAKE_VECTOR \<equiv> 0xFE"
abbreviation (input) IPI_TLB_VECTOR :: u8 where "IPI_TLB_VECTOR \<equiv> 0xFD"

text \<open>The two static variables.\<close>

record lapic =
  la_base :: addr
  la_ticks_per_ms :: u32

text \<open>The address of a register: the base is an array of 32-bit words.\<close>

definition lapic_reg :: "lapic \<Rightarrow> u32 \<Rightarrow> addr" where
  "lapic_reg la rg = la_base la + 4 * ucast (rg div 4)"

definition lapic_read :: "'d mmio \<Rightarrow> lapic \<Rightarrow> u32 \<Rightarrow> 'd \<Rightarrow> u32 \<times> 'd" where
  "lapic_read mm la rg d = mm_read mm (lapic_reg la rg) d"

definition lapic_write :: "'d mmio \<Rightarrow> lapic \<Rightarrow> u32 \<Rightarrow> u32 \<Rightarrow> 'd \<Rightarrow> 'd" where
  "lapic_write mm la rg val d = mm_write mm (lapic_reg la rg) val d"

definition lapic_eoi :: "'d mmio \<Rightarrow> lapic \<Rightarrow> 'd \<Rightarrow> 'd" where
  "lapic_eoi mm la d = lapic_write mm la LAPIC_EOI 0 d"

definition lapic_init :: "'d mmio \<Rightarrow> u64 \<Rightarrow> lapic \<Rightarrow> 'd \<Rightarrow> lapic \<times> 'd" where
  "lapic_init mm hhdm la d =
     (let la = la\<lparr>la_base := LAPIC_PHYS_BASE + hhdm\<rparr>;
          d = lapic_write mm la LAPIC_SPURIOUS (0xFF OR push_bit 8 1) d;
          d = lapic_write mm la LAPIC_TPR 0 d
      in (la, lapic_eoi mm la d))"

section \<open>Interprocessor interrupts\<close>

text \<open>Waiting for the previous interrupt to be delivered.\<close>

partial_function (option) icr_wait :: "'d mmio \<Rightarrow> lapic \<Rightarrow> 'd \<Rightarrow> 'd exec" where
  "icr_wait mm la d =
     (let (v, d) = lapic_read mm la LAPIC_ICR_LO d
      in if v AND ICR_DELIVERY_PENDING \<noteq> 0 then icr_wait mm la d else Some d)"

definition lapic_send_ipi :: "'d mmio \<Rightarrow> lapic \<Rightarrow> u32 \<Rightarrow> u8 \<Rightarrow> 'd \<Rightarrow> 'd exec" where
  "lapic_send_ipi mm la apic_id vector d =
     Option.bind (icr_wait mm la d) (\<lambda>d.
       let d = lapic_write mm la LAPIC_ICR_HI (push_bit 24 apic_id) d
       in Some (lapic_write mm la LAPIC_ICR_LO (ucast vector) d))"

definition lapic_send_ipi_all_but_self :: "'d mmio \<Rightarrow> lapic \<Rightarrow> u8 \<Rightarrow> 'd \<Rightarrow> 'd exec" where
  "lapic_send_ipi_all_but_self mm la vector d =
     Option.bind (icr_wait mm la d) (\<lambda>d.
       Some (lapic_write mm la LAPIC_ICR_LO (ucast vector OR push_bit 18 3) d))"

definition lapic_id :: "'d mmio \<Rightarrow> lapic \<Rightarrow> 'd \<Rightarrow> u32 \<times> 'd" where
  "lapic_id mm la d = (let (v, d) = lapic_read mm la LAPIC_ID d in (drop_bit 24 v, d))"

section \<open>The timer\<close>

abbreviation (input) PIT_CH2_DATA :: u16 where "PIT_CH2_DATA \<equiv> 0x42"
abbreviation (input) PIT_CMD :: u16 where "PIT_CMD \<equiv> 0x43"
abbreviation (input) PIT_GATE :: u16 where "PIT_GATE \<equiv> 0x61"
abbreviation (input) PIT_FREQ :: u64 where "PIT_FREQ \<equiv> 1193182"

text \<open>Waiting for the output bit of the PIT.\<close>

partial_function (option) pit_wait :: "'d ports \<Rightarrow> 'd \<Rightarrow> 'd exec" where
  "pit_wait hw d =
     (let (v, d) = p_inb hw PIT_GATE d
      in if v AND 0x20 = 0 then pit_wait hw d else Some d)"

text \<open>The part of the calibration before the wait: both counters are started.\<close>

definition start_counters :: "'d ports \<Rightarrow> 'd mmio \<Rightarrow> lapic \<Rightarrow> 'd \<Rightarrow> 'd" where
  "start_counters hw mm la d =
     (let d = lapic_write mm la LAPIC_TIMER_DCR 0x03 d;
          d = lapic_write mm la LAPIC_TIMER_LVT (push_bit 16 1) d;
          (gate, d) = p_inb hw PIT_GATE d;
          gate = gate AND NOT 0x02;
          gate = gate OR 0x01;
          d = p_outb hw PIT_GATE gate d;
          d = p_outb hw PIT_CMD 0xB0 d;
          d = p_outb hw PIT_CH2_DATA 0xFF d;
          d = p_outb hw PIT_CH2_DATA 0xFF d;
          d = lapic_write mm la LAPIC_TIMER_ICR 0xFFFFFFFF d;
          (gate, d) = p_inb hw PIT_GATE d;
          gate = gate AND NOT 0x01;
          d = p_outb hw PIT_GATE gate d;
          gate = gate OR 0x01
      in p_outb hw PIT_GATE gate d)"

text \<open>The conversion from the count that elapsed during 65535 ticks of the PIT.\<close>

definition ticks_of_elapsed :: "u32 \<Rightarrow> u32" where
  "ticks_of_elapsed elapsed =
     (let ticks_ms = (ucast ((ucast elapsed * PIT_FREQ) div (65535 * 1000)) :: u32)
      in if ticks_ms = 0 then 1 else ticks_ms)"

definition calibrate_lapic_timer :: "'d ports \<Rightarrow> 'd mmio \<Rightarrow> lapic \<Rightarrow> 'd \<Rightarrow> (u32 \<times> 'd) exec" where
  "calibrate_lapic_timer hw mm la d =
     Option.bind (pit_wait hw (start_counters hw mm la d)) (\<lambda>d.
       let (lapic_current, d) = lapic_read mm la LAPIC_TIMER_CCR d;
           elapsed = 0xFFFFFFFF - lapic_current
       in Some (ticks_of_elapsed elapsed, d))"

text \<open>A frequency of zero divides by zero.\<close>

definition timer_count_for :: "u32 \<Rightarrow> u32 \<Rightarrow> u32 exec" where
  "timer_count_for ticks_ms hz =
     (if hz = 0 then None
      else let cnt = ticks_ms * (1000 div hz) in Some (if cnt = 0 then 1 else cnt))"

definition lapic_timer_init :: "'d ports \<Rightarrow> 'd mmio \<Rightarrow> u32 \<Rightarrow> lapic \<Rightarrow> 'd world \<Rightarrow> (lapic \<times> 'd world) exec" where
  "lapic_timer_init hw mm hz la w =
     Option.bind (calibrate_lapic_timer hw mm la (w_dev w)) (\<lambda>(t, d).
     let la = la\<lparr>la_ticks_per_ms := t\<rparr> in
     Option.bind (kprint (''LAPIC timer: %u ticks/ms (divisor 16)'' @ [CHR 0x0A]) [KUint (la_ticks_per_ms la)]
       (w\<lparr>w_dev := d\<rparr>)) (\<lambda>w.
     let d = lapic_write mm la LAPIC_TIMER_DCR 0x03 (w_dev w);
         d = lapic_write mm la LAPIC_TIMER_LVT (32 OR push_bit 17 1) d
     in Option.bind (timer_count_for (la_ticks_per_ms la) hz) (\<lambda>cnt.
        Some (la, w\<lparr>w_dev := lapic_write mm la LAPIC_TIMER_ICR cnt d\<rparr>))))"

definition lapic_get_ticks_per_ms :: "lapic \<Rightarrow> u32" where
  "lapic_get_ticks_per_ms la = la_ticks_per_ms la"

section \<open>What the hardware promises\<close>

text \<open>Polling \<open>rd\<close> ends: from every state, \<open>cnt\<close> more reads report that the device is busy and the
  next one does not and leaves the device in the state \<open>fin\<close>.\<close>

definition settles :: "('d \<Rightarrow> 'v \<times> 'd) \<Rightarrow> ('v \<Rightarrow> bool) \<Rightarrow> ('d \<Rightarrow> nat) \<Rightarrow> ('d \<Rightarrow> 'd) \<Rightarrow> bool" where
  "settles rd busy cnt fin \<longleftrightarrow>
     (\<forall>d. if busy (fst (rd d)) then cnt d = Suc (cnt (snd (rd d))) \<and> fin (snd (rd d)) = fin d
          else fin d = snd (rd d))"

text \<open>A pending delivery ends after finitely many reads of the command register, and the PIT raises
  its output after finitely many polls.\<close>

definition icr_drains :: "'d mmio \<Rightarrow> lapic \<Rightarrow> ('d \<Rightarrow> nat) \<Rightarrow> ('d \<Rightarrow> 'd) \<Rightarrow> bool" where
  "icr_drains mm la = settles (lapic_read mm la LAPIC_ICR_LO) (\<lambda>v. v AND ICR_DELIVERY_PENDING \<noteq> 0)"

definition pit_expires :: "'d ports \<Rightarrow> ('d \<Rightarrow> nat) \<Rightarrow> ('d \<Rightarrow> 'd) \<Rightarrow> bool" where
  "pit_expires hw = settles (p_inb hw PIT_GATE) (\<lambda>v. v AND 0x20 = 0)"

lemma polling_ends:
  assumes "settles rd busy cnt fin"
    and loop: "\<And>d. poll d = (let (v, d) = rd d in if busy v then poll d else Some d)"
  shows "poll d = Some (fin d)"
proof (induction "cnt d" arbitrary: d rule: less_induct)
  case less
  note s = assms(1) [unfolded settles_def, rule_format, of d]
  show ?case using s less by (subst loop) (auto simp: case_prod_beta split: if_splits)
qed

lemma icr_wait_returns: "icr_drains mm la pend idle \<Longrightarrow> icr_wait mm la d = Some (idle d)"
  unfolding icr_drains_def by (rule polling_ends) (assumption, rule icr_wait.simps)

lemma pit_wait_returns: "pit_expires hw polls don \<Longrightarrow> pit_wait hw d = Some (don d)"
  unfolding pit_expires_def by (rule polling_ends) (assumption, rule pit_wait.simps)

lemma send_ipi_eq:
  "icr_drains mm la pend idle \<Longrightarrow>
   lapic_send_ipi mm la i vec d =
     Some (lapic_write mm la LAPIC_ICR_LO (ucast vec) (lapic_write mm la LAPIC_ICR_HI (push_bit 24 i) (idle d)))"
  by (simp add: lapic_send_ipi_def icr_wait_returns Let_def)

section \<open>Counts\<close>

lemma unat_ticks_of_elapsed: "unat (ticks_of_elapsed e) = max 1 (unat e * 1193182 div 65535000)"
proof -
  have e: "unat e < 4294967296" using unsigned_less [of e] by simp
  then have lt: "unat e * 1193182 < 18446744073709551616" by linarith
  have "unat (ucast e :: u64) = unat e" by (rule unat_ucast_up) simp
  then have "unat (ucast e * PIT_FREQ :: u64) = unat e * 1193182"
    using lt by (simp add: unat_word_ariths)
  then have q: "unat ((ucast e * PIT_FREQ) div (65535 * 1000) :: u64) = unat e * 1193182 div 65535000"
    by (simp add: unat_div)
  have "unat e * 1193182 div 65535000 < 4294967296" using e by linarith
  then have "unat (ucast ((ucast e * PIT_FREQ) div (65535 * 1000) :: u64) :: u32) = unat e * 1193182 div 65535000"
    using q by (simp add: unsigned_ucast_eq take_bit_nat_eq_self)
  then show ?thesis
    unfolding ticks_of_elapsed_def Let_def by (auto simp: word_unat_eq_iff max_def)
qed

section \<open>Programming the timer\<close>

lemma lapic_reg_ticks [simp]:
  "lapic_read mm (la\<lparr>la_ticks_per_ms := t\<rparr>) = lapic_read mm la"
  "lapic_write mm (la\<lparr>la_ticks_per_ms := t\<rparr>) = lapic_write mm la"
  by (simp_all add: lapic_read_def lapic_write_def lapic_reg_def fun_eq_iff)

lemma kprintf_timer: "kprintf (''LAPIC timer: %u ticks/ms (divisor 16)'' @ [CHR 0x0A]) [KUint t] \<noteq> None"
  by (simp add: print_simps)

lemma timer_init_eq:
  fixes hw mm la w polls don
  defines "d \<equiv> don (start_counters hw mm la (w_dev w))"
  defines "t \<equiv> ticks_of_elapsed (0xFFFFFFFF - fst (lapic_read mm la LAPIC_TIMER_CCR d))"
  assumes "pit_expires hw polls don" and hz: "hz \<noteq> 0"
  shows "\<exists>c. lapic_timer_init hw mm hz la w =
    Some (la\<lparr>la_ticks_per_ms := t\<rparr>, w\<lparr>w_con := c, w_dev :=
      lapic_write mm la LAPIC_TIMER_ICR (if t * (1000 div hz) = 0 then 1 else t * (1000 div hz))
        (lapic_write mm la LAPIC_TIMER_LVT (32 OR push_bit 17 1)
          (lapic_write mm la LAPIC_TIMER_DCR 3 (snd (lapic_read mm la LAPIC_TIMER_CCR d))))\<rparr>)"
proof -
  have "calibrate_lapic_timer hw mm la (w_dev w) = Some (t, snd (lapic_read mm la LAPIC_TIMER_CCR d))"
    using pit_wait_returns [OF assms(3)] unfolding calibrate_lapic_timer_def t_def d_def
    by (simp add: case_prod_beta Let_def)
  then show ?thesis
    using kprintf_timer [of t] hz unfolding lapic_timer_init_def timer_count_for_def
    by (auto simp: kprint_def Let_def)
qed

end
