(* ===== verification/X86_Idt.thy ===== *)
theory X86_Idt
  imports X86_Lapic X86_Vmm
begin

text \<open>
  Segments and interrupts: \<open>arch/x86_64/gdt.c\<close> and \<open>arch/x86_64/idt.c\<close>.  The handler runs on the
  processor that took the interrupt; its local APIC and the faulting address in CR2 are parameters.
  A handler that stops the processor for good returns \<open>Halted\<close>, one that resumes the interrupted code
  returns \<open>Resumed\<close>, and \<open>None\<close> is a panic on the way.

  The lemmas show that a gate leads to the stub it was made from through a 64-bit kernel code
  segment, that a page fault in the heap is resolved and any other exception stops the machine
  with its memory unchanged, and that the shutdown timer counts the ticks of one processor.
\<close>

section \<open>Segments\<close>

record gdt_entry =
  ge_limit_lo :: u16
  ge_base_lo :: u16
  ge_base_mid :: u8
  ge_access :: u8
  ge_granularity :: u8
  ge_base_hi :: u8

definition zero_gdt :: "gdt_entry list" where
  "zero_gdt = replicate 5 \<lparr>ge_limit_lo = 0, ge_base_lo = 0, ge_base_mid = 0, ge_access = 0,
     ge_granularity = 0, ge_base_hi = 0\<rparr>"

definition set_entry :: "nat \<Rightarrow> u8 \<Rightarrow> u8 \<Rightarrow> gdt_entry list \<Rightarrow> gdt_entry list exec" where
  "set_entry i access gran gdt =
     arr_set gdt i \<lparr>ge_limit_lo = 0, ge_base_lo = 0, ge_base_mid = 0, ge_access = access,
       ge_granularity = gran, ge_base_hi = 0\<rparr>"

text \<open>The table and the limit that \<open>lgdt\<close> loads.\<close>

definition gdt_init :: "gdt_entry list \<Rightarrow> (gdt_entry list \<times> u16) exec" where
  "gdt_init gdt = do {
     gdt \<leftarrow> set_entry 0 0x00 0x00 gdt;
     gdt \<leftarrow> set_entry 1 0x9A 0x20 gdt;
     gdt \<leftarrow> set_entry 2 0x92 0x00 gdt;
     gdt \<leftarrow> set_entry 3 0xFA 0x20 gdt;
     gdt \<leftarrow> set_entry 4 0xF2 0x00 gdt;
     Some (gdt, of_nat (8 * 5) - 1) }"

section \<open>Gates\<close>

record idt_entry =
  ie_offset_lo :: u16
  ie_selector :: u16
  ie_ist :: u8
  ie_type_attr :: u8
  ie_offset_mid :: u16
  ie_offset_hi :: u32
  ie_reserved :: u32

definition zero_idt :: "idt_entry list" where
  "zero_idt = replicate 256 \<lparr>ie_offset_lo = 0, ie_selector = 0, ie_ist = 0, ie_type_attr = 0,
     ie_offset_mid = 0, ie_offset_hi = 0, ie_reserved = 0\<rparr>"

definition set_gate :: "nat \<Rightarrow> addr \<Rightarrow> u8 \<Rightarrow> idt_entry list \<Rightarrow> idt_entry list exec" where
  "set_gate vec handler type_attr idt =
     arr_set idt vec \<lparr>ie_offset_lo = ucast (handler AND 0xFFFF), ie_selector = 0x08, ie_ist = 0,
       ie_type_attr = type_attr, ie_offset_mid = ucast (drop_bit 16 handler AND 0xFFFF),
       ie_offset_hi = ucast (drop_bit 32 handler), ie_reserved = 0\<rparr>"

fun install_gates :: "addr list \<Rightarrow> nat list \<Rightarrow> idt_entry list \<Rightarrow> idt_entry list exec" where
  "install_gates stubs [] idt = Some idt"
| "install_gates stubs (i # js) idt =
     Option.bind (arr_get stubs i) (\<lambda>h. Option.bind (set_gate i h 0x8E idt) (install_gates stubs js))"

text \<open>The table and the limit that \<open>lidt\<close> loads.\<close>

definition idt_init :: "addr list \<Rightarrow> idt_entry list \<Rightarrow> (idt_entry list \<times> u16) exec" where
  "idt_init isr_stub_table idt =
     Option.bind (install_gates isr_stub_table [0..<256] idt) (\<lambda>idt. Some (idt, of_nat (16 * 256) - 1))"

section \<open>The shutdown timer\<close>

text \<open>\<open>tm_flag\<close> is the flag that the pointer \<open>shutdown_flag\<close> leads to, \<open>None\<close> when it is null.\<close>

record shutdown_timer =
  tm_flag :: "bool option"
  tm_ticks :: u32
  tm_count :: u64

definition zero_timer :: shutdown_timer where
  "zero_timer = \<lparr>tm_flag = None, tm_ticks = 0, tm_count = 0\<rparr>"

definition idt_set_shutdown_timer :: "u32 \<Rightarrow> bool option \<Rightarrow> shutdown_timer" where
  "idt_set_shutdown_timer ticks flag = \<lparr>tm_flag = flag, tm_ticks = ticks, tm_count = 0\<rparr>"

definition idt_get_timer_count :: "shutdown_timer \<Rightarrow> u64" where
  "idt_get_timer_count tm = tm_count tm"

definition timer_tick :: "shutdown_timer \<Rightarrow> shutdown_timer" where
  "timer_tick tm =
     (let tm = tm\<lparr>tm_count := tm_count tm + 1\<rparr>
      in if tm_flag tm \<noteq> None \<and> tm_ticks tm > 0 \<and> tm_count tm \<ge> ucast (tm_ticks tm)
         then tm\<lparr>tm_flag := Some False, tm_ticks := 0\<rparr> else tm)"

section \<open>The handler\<close>

record interrupt_frame =
  fr_r15 :: u64
  fr_r14 :: u64
  fr_r13 :: u64
  fr_r12 :: u64
  fr_r11 :: u64
  fr_r10 :: u64
  fr_r9 :: u64
  fr_r8 :: u64
  fr_rbp :: u64
  fr_rdi :: u64
  fr_rsi :: u64
  fr_rdx :: u64
  fr_rcx :: u64
  fr_rbx :: u64
  fr_rax :: u64
  fr_vector :: u64
  fr_error_code :: u64
  fr_rip :: u64
  fr_cs :: u64
  fr_rflags :: u64
  fr_rsp :: u64
  fr_ss :: u64

definition exception_names :: "string list" where
  "exception_names = [
     ''Division Error'', ''Debug'', ''NMI'', ''Breakpoint'',
     ''Overflow'', ''Bound Range'', ''Invalid Opcode'', ''Device Not Available'',
     ''Double Fault'', ''Coprocessor Segment'', ''Invalid TSS'', ''Segment Not Present'',
     ''Stack-Segment Fault'', ''General Protection Fault'', ''Page Fault'', ''Reserved'',
     ''x87 FP Exception'', ''Alignment Check'', ''Machine Check'', ''SIMD FP Exception'',
     ''Virtualization'', ''Control Protection'', ''Reserved'', ''Reserved'',
     ''Reserved'', ''Reserved'', ''Reserved'', ''Reserved'',
     ''Hypervisor Injection'', ''VMM Communication'', ''Security Exception'', ''Reserved'']"

text \<open>What the handler works on.\<close>

record 'd isr =
  is_timer :: shutdown_timer
  is_vmm :: vmm
  is_world :: "'d world"

datatype 'd outcome = Resumed "'d isr" | Halted "'d isr"

definition iprint :: "string \<Rightarrow> karg list \<Rightarrow> 'd isr \<Rightarrow> 'd isr exec" where
  "iprint fmt args st = map_option (\<lambda>w. st\<lparr>is_world := w\<rparr>) (kprint (fmt @ [CHR 0x0A]) args (is_world st))"

definition page_fault_dump :: "u64 \<Rightarrow> interrupt_frame \<Rightarrow> 'd isr \<Rightarrow> 'd isr exec" where
  "page_fault_dump cr2 fr st = do {
     st \<leftarrow> iprint ([CHR 0x0A] @ ''!!! PAGE FAULT !!!'') [] st;
     st \<leftarrow> iprint ''  CR2: 0x%lx  Error: 0x%lx'' [KUlong cr2, KUlong (fr_error_code fr)] st;
     st \<leftarrow> iprint ''  RIP: 0x%lx  RSP: 0x%lx'' [KUlong (fr_rip fr), KUlong (fr_rsp fr)] st;
     iprint ''  SYSTEM HALTED.'' [] st }"

definition exception_dump :: "interrupt_frame \<Rightarrow> 'd isr \<Rightarrow> 'd isr exec" where
  "exception_dump fr st = do {
     name \<leftarrow> arr_get exception_names (unat (fr_vector fr));
     st \<leftarrow> iprint ([CHR 0x0A] @ ''!!! EXCEPTION %lu: %s'') [KUlong (fr_vector fr), KStr (Some name)] st;
     st \<leftarrow> iprint ''  Error code: 0x%lx'' [KUlong (fr_error_code fr)] st;
     st \<leftarrow> iprint ''  RIP: 0x%lx  RSP: 0x%lx'' [KUlong (fr_rip fr), KUlong (fr_rsp fr)] st;
     st \<leftarrow> iprint ''  CS:  0x%lx  SS:  0x%lx'' [KUlong (fr_cs fr), KUlong (fr_ss fr)] st;
     st \<leftarrow> iprint ''  RAX: 0x%lx  RBX: 0x%lx'' [KUlong (fr_rax fr), KUlong (fr_rbx fr)] st;
     st \<leftarrow> iprint ''  RCX: 0x%lx  RDX: 0x%lx'' [KUlong (fr_rcx fr), KUlong (fr_rdx fr)] st;
     st \<leftarrow> iprint ''  RSI: 0x%lx  RDI: 0x%lx'' [KUlong (fr_rsi fr), KUlong (fr_rdi fr)] st;
     st \<leftarrow> iprint ''  RBP: 0x%lx  RFLAGS: 0x%lx'' [KUlong (fr_rbp fr), KUlong (fr_rflags fr)] st;
     iprint ''  SYSTEM HALTED.'' [] st }"

text \<open>Exceptions, vectors below 32.\<close>

definition handle_exception :: "u64 \<Rightarrow> interrupt_frame \<Rightarrow> 'd isr \<Rightarrow> 'd outcome exec" where
  "handle_exception cr2 fr st =
     (if fr_vector fr = 14 then do {
        (rc, st) \<leftarrow> (if fr_error_code fr AND 1 = 0 then do {
                         (rc, vm) \<leftarrow> vmm_demand_page cr2 (is_vmm st);
                         Some (rc, st\<lparr>is_vmm := vm\<rparr>) }
                       else Some (1, st));
        if rc = 0 then Some (Resumed st)
        else do { st \<leftarrow> page_fault_dump cr2 fr st; Some (Halted st) } }
      else do { st \<leftarrow> exception_dump fr st; Some (Halted st) })"

text \<open>Interrupts, vectors from 32 on.\<close>

definition handle_irq :: "'d mmio \<Rightarrow> lapic \<Rightarrow> u32 \<Rightarrow> interrupt_frame \<Rightarrow> 'd isr \<Rightarrow> 'd isr" where
  "handle_irq mm la bsp fr st =
     (let st = (if fr_vector fr = 32 then
                  let (me, d) = lapic_id mm la (w_dev (is_world st));
                      st = st\<lparr>is_world := (is_world st)\<lparr>w_dev := d\<rparr>\<rparr>
                  in if me = bsp then st\<lparr>is_timer := timer_tick (is_timer st)\<rparr> else st
                else st);
          st = (if fr_vector fr = 0xFD then st\<lparr>is_vmm := vmm_tlb_shootdown_handler (is_vmm st)\<rparr> else st)
      in st\<lparr>is_world := (is_world st)\<lparr>w_dev := lapic_eoi mm la (w_dev (is_world st))\<rparr>\<rparr>)"

definition isr_handler ::
  "'d mmio \<Rightarrow> lapic \<Rightarrow> u32 \<Rightarrow> u64 \<Rightarrow> interrupt_frame \<Rightarrow> 'd isr \<Rightarrow> 'd outcome exec" where
  "isr_handler mm la bsp cr2 fr st =
     (if fr_vector fr < 32 then handle_exception cr2 fr st
      else Some (Resumed (handle_irq mm la bsp fr st)))"

section \<open>Gates lead to their stubs\<close>

text \<open>The address a gate holds, as the processor puts it together.\<close>

definition gate_offset :: "idt_entry \<Rightarrow> u64" where
  "gate_offset e = ucast (ie_offset_lo e) OR push_bit 16 (ucast (ie_offset_mid e)) OR push_bit 32 (ucast (ie_offset_hi e))"

lemma split_offset:
  "(ucast (ucast (h AND 0xFFFF) :: u16) :: u64) OR push_bit 16 (ucast (ucast (drop_bit 16 h AND 0xFFFF) :: u16))
     OR push_bit 32 (ucast (ucast (drop_bit 32 h) :: u32)) = h"
proof (rule bit_word_eqI)
  fix n assume n: "n < LENGTH(64)"
  have m: "(0xFFFF :: u64) = mask 16" by (simp add: mask_eq_decr_exp)
  show "bit ((ucast (ucast (h AND 0xFFFF) :: u16) :: u64) OR push_bit 16 (ucast (ucast (drop_bit 16 h AND 0xFFFF) :: u16))
     OR push_bit 32 (ucast (ucast (drop_bit 32 h) :: u32))) n = bit h n"
    using n unfolding m by (cases "n < 16"; cases "n < 32") (auto simp: bit_simps)
qed

definition gate :: "addr \<Rightarrow> idt_entry" where
  "gate h = \<lparr>ie_offset_lo = ucast (h AND 0xFFFF), ie_selector = 0x08, ie_ist = 0, ie_type_attr = 0x8E,
     ie_offset_mid = ucast (drop_bit 16 h AND 0xFFFF), ie_offset_hi = ucast (drop_bit 32 h), ie_reserved = 0\<rparr>"

lemma gate_offset_gate: "gate_offset (gate h) = h"
  unfolding gate_offset_def gate_def idt_entry.simps by (rule split_offset)

lemma install_gates_eq:
  assumes "length idt = n" "length stubs = n" "k \<le> n"
  shows "install_gates stubs [k..<n] idt = Some (take k idt @ map gate (drop k stubs))"
  using assms(1,3)
proof (induction "n - k" arbitrary: k idt)
  case 0
  then show ?case using assms(2) by simp
next
  case (Suc m)
  have k: "k < n" using Suc by simp
  have s: "set_gate k (stubs ! k) 0x8E idt = Some (idt[k := gate (stubs ! k)])"
    using k Suc by (simp add: set_gate_def gate_def exec_simps)
  have "install_gates stubs [Suc k..<n] (idt[k := gate (stubs ! k)]) =
      Some (take (Suc k) (idt[k := gate (stubs ! k)]) @ map gate (drop (Suc k) stubs))"
    using Suc k by simp
  moreover have "take (Suc k) (idt[k := gate (stubs ! k)]) = take k idt @ [gate (stubs ! k)]"
    using k Suc by (simp add: take_Suc_conv_app_nth)
  moreover have "drop k stubs = stubs ! k # drop (Suc k) stubs"
    using k assms(2) by (simp add: Cons_nth_drop_Suc)
  ultimately show ?case using k assms(2) s by (simp add: upt_conv_Cons exec_simps)
qed

lemma idt_init_eq:
  assumes "length stubs = 256" "length idt = 256"
  shows "idt_init stubs idt = Some (map gate stubs, 4095)"
  using install_gates_eq [OF assms(2,1), of 0] by (simp add: idt_init_def)

text \<open>The segment a selector names, and the kind of segment the gates need: present, ring 0,
  code, 64-bit.\<close>

definition kernel_code :: "gdt_entry \<Rightarrow> bool" where
  "kernel_code e \<longleftrightarrow> bit (ge_access e) 7 \<and> ge_access e AND 0x60 = 0 \<and> bit (ge_access e) 4 \<and>
     bit (ge_access e) 3 \<and> bit (ge_granularity e) 5 \<and> \<not> bit (ge_granularity e) 6"

definition selected :: "gdt_entry list \<Rightarrow> u16 \<Rightarrow> gdt_entry" where
  "selected gdt sel = gdt ! unat (drop_bit 3 sel)"

lemma length_5: "length gdt = 5 \<Longrightarrow> \<exists>a b c d e. gdt = [a, b, c, d, e]"
  by (auto simp: length_Suc_conv eval_nat_numeral)

lemma gdt_init_ok:
  assumes "length gdt = 5"
  shows "\<exists>gdt'. gdt_init gdt = Some (gdt', 39) \<and> length gdt' = 5 \<and> kernel_code (selected gdt' 0x08)"
proof -
  obtain a b c d e where "gdt = [a, b, c, d, e]" using length_5 [OF assms] by blast
  then show ?thesis
    by (simp add: gdt_init_def set_entry_def exec_simps kernel_code_def selected_def)
qed

section \<open>Exceptions\<close>

text \<open>The state with more text on the console.\<close>

definition logged :: "string \<Rightarrow> 'd isr \<Rightarrow> 'd isr" where
  "logged s st = st\<lparr>is_world := (is_world st)\<lparr>w_con := w_con (is_world st) @ s\<rparr>\<rparr>"

lemma logged_logged [simp]: "logged t (logged s st) = logged (s @ t) st"
  by (simp add: logged_def)

lemma logged_sel [simp]: "is_vmm (logged s st) = is_vmm st" "is_timer (logged s st) = is_timer st"
    "w_dev (is_world (logged s st)) = w_dev (is_world st)" "w_con (is_world (logged s st)) = w_con (is_world st) @ s"
  by (simp_all add: logged_def)

lemma iprint_eq: "iprint fmt args st = map_option (\<lambda>s. logged s st) (kprintf (fmt @ [CHR 0x0A]) args)"
  by (cases "kprintf (fmt @ [CHR 0x0A]) args") (simp_all add: iprint_def kprint_def logged_def)

definition page_fault_text :: "u64 \<Rightarrow> interrupt_frame \<Rightarrow> string" where
  "page_fault_text cr2 fr = (let crlf = [CHR 0x0D, CHR 0x0A] in
     crlf @ ''!!! PAGE FAULT !!!'' @ crlf @
     ''  CR2: 0x'' @ notation_of 16 (unat cr2) @ ''  Error: 0x'' @ notation_of 16 (unat (fr_error_code fr)) @ crlf @
     ''  RIP: 0x'' @ notation_of 16 (unat (fr_rip fr)) @ ''  RSP: 0x'' @ notation_of 16 (unat (fr_rsp fr)) @ crlf @
     ''  SYSTEM HALTED.'' @ crlf)"

lemma page_fault_dump_eq: "page_fault_dump cr2 fr st = Some (logged (page_fault_text cr2 fr) st)"
  by (simp add: page_fault_dump_def iprint_eq print_simps page_fault_text_def serial_putc_def Let_def)

lemma exception_dump_Some:
  assumes "fr_vector fr < 32"
  shows "\<exists>s. exception_dump fr st = Some (logged s st)"
proof -
  have "unat (fr_vector fr) < length exception_names"
    using assms by (simp add: exception_names_def word_less_nat_alt)
  then show ?thesis by (simp add: exception_dump_def iprint_eq print_simps exec_simps) blast
qed

lemma page_fault_resolved:
  assumes "fr_vector fr = 14" "fr_error_code fr AND 1 = 0" "vmm_demand_page cr2 (is_vmm st) = Some (0, vm)"
  shows "isr_handler mm la bsp cr2 fr st = Some (Resumed (st\<lparr>is_vmm := vm\<rparr>))"
  using assms by (simp add: isr_handler_def handle_exception_def)

lemma page_fault_stops:
  assumes "fr_vector fr = 14" "fr_error_code fr AND 1 \<noteq> 0 \<or> \<not> in_heap cr2"
  shows "isr_handler mm la bsp cr2 fr st = Some (Halted (logged (page_fault_text cr2 fr) st))"
proof (cases "fr_error_code fr AND 1 = 0")
  case True
  then have "vmm_demand_page cr2 (is_vmm st) = Some (- 1, is_vmm st)"
    using assms(2) by (auto simp: in_heap_def vmm_demand_page_def not_le not_less)
  then show ?thesis using True assms(1) by (simp add: isr_handler_def handle_exception_def page_fault_dump_eq)
next
  case False
  then show ?thesis using assms(1) by (simp add: isr_handler_def handle_exception_def page_fault_dump_eq)
qed

lemma exception_stops:
  assumes "fr_vector fr < 32" "fr_vector fr \<noteq> 14"
  shows "\<exists>s. isr_handler mm la bsp cr2 fr st = Some (Halted (logged s st))"
  using exception_dump_Some [OF assms(1), of st] assms by (auto simp: isr_handler_def handle_exception_def)

section \<open>Interrupts on several processors\<close>

text \<open>Interrupts as they are taken by the processors, one after the other; \<open>mm c\<close> is the local APIC
  that processor \<open>c\<close> sees.  Nothing more happens once a processor has stopped the machine.\<close>

fun isr_run :: "(nat \<Rightarrow> 'd mmio) \<Rightarrow> lapic \<Rightarrow> u32 \<Rightarrow> (nat \<times> u64 \<times> interrupt_frame) list \<Rightarrow> 'd isr \<Rightarrow> 'd outcome exec" where
  "isr_run mm la bsp [] st = Some (Resumed st)"
| "isr_run mm la bsp ((c, cr2, fr) # evs) st =
     Option.bind (isr_handler (mm c) la bsp cr2 fr st) (\<lambda>r.
       case r of Resumed st \<Rightarrow> isr_run mm la bsp evs st | Halted st \<Rightarrow> Some (Halted st))"

text \<open>The ID register of processor \<open>c\<close> holds its id in the upper byte.\<close>

definition reports_ids :: "(nat \<Rightarrow> 'd mmio) \<Rightarrow> lapic \<Rightarrow> (nat \<Rightarrow> u32) \<Rightarrow> bool" where
  "reports_ids mm la ids \<longleftrightarrow> (\<forall>c d. ids c < 256 \<and> fst (lapic_read (mm c) la LAPIC_ID d) = push_bit 24 (ids c))"

lemma drop_push_24: "(i :: u32) < 256 \<Longrightarrow> drop_bit 24 (push_bit 24 i) = i"
proof -
  assume "i < 256"
  then have "i = take_bit 8 i" by (simp add: word_unat_eq_iff unsigned_take_bit_eq take_bit_nat_eq_self word_less_nat_alt)
  then have "bit i n \<Longrightarrow> n < 8" for n by (metis bit_take_bit_iff)
  then show ?thesis by (intro bit_word_eqI) (auto simp: bit_simps)
qed

lemma lapic_id_eq: "reports_ids mm la ids \<Longrightarrow> fst (lapic_id (mm c) la d) = ids c"
  unfolding lapic_id_def reports_ids_def by (simp add: case_prod_beta drop_push_24)

definition bsp_tick :: "(nat \<Rightarrow> u32) \<Rightarrow> u32 \<Rightarrow> nat \<times> u64 \<times> interrupt_frame \<Rightarrow> bool" where
  "bsp_tick ids bsp = (\<lambda>(c, cr2, fr). fr_vector fr = 32 \<and> ids c = bsp)"

lemma exception_keeps_timer:
  assumes "handle_exception cr2 fr st = Some r" "fr_vector fr < 32"
  shows "\<exists>st'. (r = Resumed st' \<or> r = Halted st') \<and> is_timer st' = is_timer st"
  using assms exception_dump_Some [OF assms(2), of st]
  by (auto simp: handle_exception_def page_fault_dump_eq split: if_splits bind_splits)

lemma isr_timer:
  assumes "reports_ids mm la ids" "isr_handler (mm c) la bsp cr2 fr st = Some (Resumed st')"
  shows "is_timer st' = (if bsp_tick ids bsp (c, cr2, fr) then timer_tick (is_timer st) else is_timer st)"
proof (cases "fr_vector fr < 32")
  case True
  then have "fr_vector fr \<noteq> 32" by auto
  then show ?thesis using True assms(2) exception_keeps_timer [of cr2 fr st "Resumed st'"]
    by (auto simp: isr_handler_def bsp_tick_def)
next
  case False
  then show ?thesis using assms(2) lapic_id_eq [OF assms(1), of c "w_dev (is_world st)"]
    by (auto simp: isr_handler_def bsp_tick_def handle_irq_def Let_def case_prod_beta)
qed

lemma isr_run_timer:
  assumes "reports_ids mm la ids" "isr_run mm la bsp evs st = Some (Resumed st')"
  shows "is_timer st' = (timer_tick ^^ length (filter (bsp_tick ids bsp) evs)) (is_timer st)"
  using assms(2)
proof (induction evs arbitrary: st)
  case (Cons e evs)
  obtain c cr2 fr where e: "e = (c, cr2, fr)" by (cases e)
  obtain st1 where 1: "isr_handler (mm c) la bsp cr2 fr st = Some (Resumed st1)"
    "isr_run mm la bsp evs st1 = Some (Resumed st')"
    using Cons.prems by (auto simp: e split: bind_splits outcome.splits)
  show ?case
    using Cons.IH [OF 1(2)] isr_timer [OF assms(1) 1(1)] by (auto simp: e funpow_swap1)
qed simp

lemma isr_run_irqs:
  assumes "\<And>c cr2 fr. (c, cr2, fr) \<in> set evs \<Longrightarrow> 32 \<le> fr_vector fr"
  shows "\<exists>st'. isr_run mm la bsp evs st = Some (Resumed st')"
  using assms
proof (induction evs arbitrary: st)
  case (Cons e evs)
  obtain c cr2 fr where e: "e = (c, cr2, fr)" by (cases e)
  have "isr_handler (mm c) la bsp cr2 fr st = Some (Resumed (handle_irq (mm c) la bsp fr st))"
    using Cons.prems [of c cr2 fr] by (simp add: e isr_handler_def leD)
  moreover have "\<exists>st'. isr_run mm la bsp evs (handle_irq (mm c) la bsp fr st) = Some (Resumed st')"
    by (rule Cons.IH) (rule Cons.prems, auto)
  ultimately show ?case by (simp add: e)
qed simp

lemma timer_tick_pow:
  assumes "0 < ticks" "n < 2 ^ 64"
  shows "(timer_tick ^^ n) (idt_set_shutdown_timer ticks (Some True)) =
    \<lparr>tm_flag = Some (n < unat ticks), tm_ticks = (if n < unat ticks then ticks else 0), tm_count = of_nat n\<rparr>"
  using assms(2)
proof (induction n)
  case 0
  then show ?case using assms(1) by (simp add: idt_set_shutdown_timer_def word_less_nat_alt)
next
  case (Suc n)
  have "unat (of_nat (Suc n) :: u64) = Suc n" using Suc.prems by (intro unat_of_nat_lt) simp
  moreover have "unat (ucast ticks :: u64) = unat ticks" by (rule unat_ucast_up) simp
  ultimately have "(ucast ticks \<le> (of_nat (Suc n) :: u64)) = (unat ticks \<le> Suc n)"
    unfolding word_le_nat_alt by simp
  then show ?case using Suc assms(1)
    by (auto simp: timer_tick_def Let_def word_less_nat_alt add.commute)
qed

end
