(* ===== verification/X86_Heap.thy ===== *)
theory X86_Heap
  imports X86_Idt
begin

text \<open>
  The kernel heap as memory.  An access to a heap address goes through the page tables; when there
  is no entry for the page, the processor raises a page fault, \<open>isr_handler\<close> runs, and the access is
  tried again.  The lemmas show that the page tables, the demand pager and the fault handler together
  implement a flat memory whose bytes are zero until they are written.
\<close>

section \<open>Bytes of words\<close>

definition get_byte :: "u64 \<Rightarrow> nat \<Rightarrow> u8" where
  "get_byte w k = ucast (drop_bit (8 * k) w)"

definition put_byte :: "u64 \<Rightarrow> nat \<Rightarrow> u8 \<Rightarrow> u64" where
  "put_byte w k b = (w AND NOT (push_bit (8 * k) 0xFF)) OR push_bit (8 * k) (ucast b)"

lemma mask_255: "(0xFF :: u64) = mask 8"
  by (simp add: mask_eq_decr_exp)

lemma bit_put_byte:
  "bit (put_byte w k b) n \<longleftrightarrow> n < 64 \<and> (if 8 * k \<le> n \<and> n < 8 * k + 8 then bit b (n - 8 * k) else bit w n)"
proof -
  have "bit b (n - 8 * k) \<Longrightarrow> n - 8 * k < 8" using bit_imp_le_length [of b "n - 8 * k"] by simp
  moreover have "bit w n \<Longrightarrow> n < 64" using bit_imp_le_length [of w n] by simp
  ultimately show ?thesis unfolding put_byte_def mask_255 by (auto simp: bit_simps)
qed

lemma bit_get_byte: "bit (get_byte w k) n \<longleftrightarrow> n < 8 \<and> bit w (8 * k + n)"
  by (auto simp: get_byte_def bit_simps)

lemma get_put_same: "k < 8 \<Longrightarrow> get_byte (put_byte w k b) k = b"
  by (rule bit_word_eqI) (auto simp: bit_get_byte bit_put_byte)

lemma get_put_other:
  assumes "j \<noteq> k" shows "get_byte (put_byte w k b) j = get_byte w j"
proof (rule bit_word_eqI)
  fix n assume n: "n < LENGTH(8)"
  have "\<not> (8 * k \<le> 8 * j + n \<and> 8 * j + n < 8 * k + 8)" using n assms by (cases "j < k") auto
  then show "bit (get_byte (put_byte w k b) j) n = bit (get_byte w j) n"
    using bit_imp_le_length [of w "8 * j + n"] by (auto simp: bit_get_byte bit_put_byte)
qed

lemma get_put: "k < 8 \<Longrightarrow> get_byte (put_byte w k b) j = (if j = k then b else get_byte w j)"
  by (simp add: get_put_same get_put_other)

lemma get_byte_0 [simp]: "get_byte 0 k = 0"
  by (simp add: get_byte_def)

section \<open>Accesses\<close>

text \<open>The last-level entry that the processor's walk finds, the word of the page that an address lies
  in and the byte of the word.\<close>

definition page_entry :: "u64 \<Rightarrow> paging \<Rightarrow> u64 option" where
  "page_entry v pg = (let (depth, _, _, _, pte) = paging_walk v pg in if depth = 4 \<and> present pte then Some pte else None)"

definition word_idx :: "u64 \<Rightarrow> u64" where
  "word_idx v = drop_bit 3 (v AND 0xFFF)"

definition byte_idx :: "u64 \<Rightarrow> nat" where
  "byte_idx v = unat (v AND 7)"

definition peek :: "u64 \<Rightarrow> u64 \<Rightarrow> paging \<Rightarrow> u8" where
  "peek e v pg = get_byte (pg_mem pg (slot (table_of e) (word_idx v))) (byte_idx v)"

definition poke :: "u64 \<Rightarrow> u64 \<Rightarrow> u8 \<Rightarrow> paging \<Rightarrow> paging" where
  "poke e v b pg = (let a = slot (table_of e) (word_idx v)
     in pg\<lparr>pg_mem := (pg_mem pg)(a := put_byte (pg_mem pg a) (byte_idx v) b)\<rparr>)"

text \<open>The entry for an access, after a page fault if need be; \<open>err\<close> is the error code of the fault.\<close>

definition resolve ::
  "'d mmio \<Rightarrow> lapic \<Rightarrow> u32 \<Rightarrow> interrupt_frame \<Rightarrow> u64 \<Rightarrow> u64 \<Rightarrow> 'd isr \<Rightarrow> (u64 \<times> 'd isr) exec" where
  "resolve mm la bsp fr err v st =
     (case page_entry v (vm_paging (is_vmm st)) of
        Some e \<Rightarrow> Some (e, st)
      | None \<Rightarrow>
          Option.bind (isr_handler mm la bsp v (fr\<lparr>fr_vector := 14, fr_error_code := err\<rparr>) st) (\<lambda>r.
            case r of Halted _ \<Rightarrow> None
            | Resumed st \<Rightarrow> map_option (\<lambda>e. (e, st)) (page_entry v (vm_paging (is_vmm st)))))"

definition store_byte where
  "store_byte mm la bsp fr v b st =
     Option.bind (resolve mm la bsp fr 2 v st) (\<lambda>(e, st).
       Some (st\<lparr>is_vmm := (is_vmm st)\<lparr>vm_paging := poke e v b (vm_paging (is_vmm st))\<rparr>\<rparr>))"

definition load_byte where
  "load_byte mm la bsp fr v st =
     Option.bind (resolve mm la bsp fr 0 v st) (\<lambda>(e, st). Some (peek e v (vm_paging (is_vmm st)), st))"

section \<open>Flat memory\<close>

definition heap_byte :: "vmm \<Rightarrow> u64 \<Rightarrow> u8" where
  "heap_byte vm v = (case leaf (vm_paging vm) v of None \<Rightarrow> 0 | Some e \<Rightarrow> peek e v (vm_paging vm))"

definition heap_sound :: "vmm \<Rightarrow> bool" where
  "heap_sound vm \<longleftrightarrow> vmm_wf vm \<and> (\<forall>v. in_heap v \<longrightarrow> \<not> in_huge_page (vm_paging vm) v)"

definition free_frames :: "vmm \<Rightarrow> nat" where
  "free_frames vm = card (free_set (pg_pmm (vm_paging vm)))"

lemma page_entry_leaf: "page_entry v pg = leaf pg v"
  by (cases "paging_walk v pg") (simp add: page_entry_def paging_walk_leaf)

lemma leaf_vpn: "vpn w = vpn v \<Longrightarrow> leaf st w = leaf st v"
  by (simp add: leaf_def vpn_eq_iff cong: option.case_cong)

lemma unat_word_idx: "unat (word_idx v) = unat v mod 4096 div 8"
  using unat_and_mask [of v 12] by (simp add: word_idx_def drop_bit_eq_div unat_div)

lemma byte_idx_eq: "byte_idx v = unat v mod 8"
  using unat_and_mask [of v 3] by (simp add: byte_idx_def)

lemma idx_bounds [simp]: "unat (word_idx v) < 512" "byte_idx v < 8"
  by (simp_all add: unat_word_idx byte_idx_eq div_less_iff_less_mult)

lemma same_cell:
  assumes "frame v = frame w" "word_idx v = word_idx w" "byte_idx v = byte_idx w"
  shows "v = w"
proof -
  have u: "unat x = 4096 * frame x + 8 * unat (word_idx x) + byte_idx x" for x
  proof -
    have "unat x mod 4096 mod 8 = unat x mod 8" by (simp add: mod_mod_cancel)
    then show ?thesis unfolding frame_def unat_word_idx byte_idx_eq
      using mult_div_mod_eq [of 4096 "unat x"] mult_div_mod_eq [of 8 "unat x mod 4096"] by linarith
  qed
  have "unat v = unat w" using u [of v] u [of w] assms by simp
  then show ?thesis by (simp add: word_unat_eq_iff)
qed

lemma frame_table_of [simp]: "frame (table_of e) = frame e"
  by (simp add: frame_def unat_table_of)

lemma frame_eq_table_of: "frame e = frame e' \<longleftrightarrow> table_of e = table_of e'"
  by (auto simp: frame_def word_unat_eq_iff unat_table_of)

section \<open>Stores and loads\<close>

lemma poke_tree:
  assumes wf: "vmm_wf vm" and v: "in_heap v" "leaf (vm_paging vm) v = Some e"
  shows "leaf (poke e v b (vm_paging vm)) w = leaf (vm_paging vm) w"
    and "in_huge_page (poke e v b (vm_paging vm)) w = in_huge_page (vm_paging vm) w"
    and "table_pages (poke e v b (vm_paging vm)) = table_pages (vm_paging vm)"
    and "path_ok js \<Longrightarrow> table (poke e v b (vm_paging vm)) js = table (vm_paging vm) js"
proof -
  let ?pg = "vm_paging vm"
  have nt: "frame e \<notin> table_pages ?pg" using vmm_wfD(2) [OF wf v] by simp
  have mem: "pg_mem (poke e v b ?pg) (slot u j) = pg_mem ?pg (slot u j)"
    if "path_ok js" "table ?pg js = Some u" "unat j < 512" for js u j
  proof -
    have "frame u \<in> table_pages ?pg" using that by (auto simp: table_pages_def frame_def)
    then have "table_of e \<noteq> u" using nt by (metis frame_table_of)
    then show ?thesis using slot_inj(1) [of "table_of e" u "word_idx v" j] table_aligned [OF that(2)] that(3)
      by (auto simp: poke_def Let_def)
  qed
  have cr3: "pg_cr3 (poke e v b ?pg) = pg_cr3 ?pg" by (simp add: poke_def Let_def)
  note tree = tree_cong [OF cr3 mem]
  show "path_ok js \<Longrightarrow> table (poke e v b ?pg) js = table ?pg js" by (rule tree(1))
  show "leaf (poke e v b ?pg) w = leaf ?pg w" "in_huge_page (poke e v b ?pg) w = in_huge_page ?pg w"
    "table_pages (poke e v b ?pg) = table_pages ?pg"
    by (rule tree; assumption)+
qed

lemma poke_ok:
  fixes vm v e b
  assumes ok: "heap_sound vm" and v: "in_heap v" "leaf (vm_paging vm) v = Some e"
  defines "vm' \<equiv> vm\<lparr>vm_paging := poke e v b (vm_paging vm)\<rparr>"
  shows "heap_sound vm'" "free_frames vm' = free_frames vm"
    and "in_heap w \<Longrightarrow> heap_byte vm' w = (if w = v then b else heap_byte vm w)"
proof -
  have wf: "vmm_wf vm" using ok by (simp add: heap_sound_def)
  note tree = poke_tree [OF wf v, where b = b]
  have pm: "pg_pmm (poke e v b (vm_paging vm)) = pg_pmm (vm_paging vm)" by (simp add: poke_def Let_def)
  have pwf: "paging_wf (poke e v b (vm_paging vm))"
    using vmm_wfD(1) [OF wf] unfolding paging_wf_def pm by (simp add: tree(4) del: table.simps cong: imp_cong)
  have "vm_paging vm' = poke e v b (vm_paging vm)" by (simp add: vm'_def)
  then have "vmm_wf vm' = vmm_wf vm"
    unfolding vmm_wf_def by (simp only: tree(1,3) pm pwf vmm_wfD(1) [OF wf])
  then have "vmm_wf vm'" using wf by simp
  then show "heap_sound vm'" using ok tree(2) unfolding heap_sound_def by (simp add: vm'_def)
  show "free_frames vm' = free_frames vm" by (simp add: free_frames_def vm'_def pm)
  show "heap_byte vm' w = (if w = v then b else heap_byte vm w)" if w: "in_heap w"
  proof (cases "leaf (vm_paging vm) w")
    case None
    then have "w \<noteq> v" using v by auto
    then show ?thesis using None tree(1) by (simp add: heap_byte_def vm'_def)
  next
    case (Some e')
    have "slot (table_of e') (word_idx w) = slot (table_of e) (word_idx v) \<and> byte_idx w = byte_idx v \<Longrightarrow> w = v"
    proof -
      assume a: "slot (table_of e') (word_idx w) = slot (table_of e) (word_idx v) \<and> byte_idx w = byte_idx v"
      then have "table_of e' = table_of e" "word_idx w = word_idx v" using slot_inj [of "table_of e'" "table_of e" "word_idx w" "word_idx v"] by auto
      moreover from this have "vpn w = vpn v" using vmm_wfD(3) [OF wf w v(1) Some v(2)] frame_eq_table_of by simp
      ultimately show "w = v" using same_cell vpn_heap [OF w v(1)] a by blast
    qed
    then have "peek e' w (poke e v b (vm_paging vm)) = (if w = v then b else peek e' w (vm_paging vm))"
      using Some v(2) by (auto simp: peek_def poke_def Let_def get_put)
    then show ?thesis using Some tree(1) [of w] by (simp add: heap_byte_def vm'_def)
  qed
qed

text \<open>A page fault in the heap is invisible: it changes no byte of the heap.\<close>

lemma demand_page_invisible:
  assumes ok: "heap_sound vm" and v: "in_heap v" "leaf (vm_paging vm) v = None" and fr: "4 \<le> free_frames vm"
  shows "\<exists>vm' e. vmm_demand_page v vm = Some (0, vm') \<and> heap_sound vm' \<and> leaf (vm_paging vm') v = Some e \<and>
    free_frames vm \<le> 4 + free_frames vm' \<and> vm' = vm\<lparr>vm_paging := vm_paging vm'\<rparr> \<and>
    (\<forall>w. in_heap w \<longrightarrow> heap_byte vm' w = heap_byte vm w)"
proof -
  have wf: "vmm_wf vm" and nh: "\<not> in_huge_page (vm_paging vm) v" using ok v(1) by (auto simp: heap_sound_def)
  obtain vm' phys where d: "vmm_demand_page v vm = Some (0, vm')" "vmm_wf vm'" "aligned phys"
    "\<And>i. unat i < 512 \<Longrightarrow> pg_mem (vm_paging vm') (slot phys i) = 0"
    "\<And>w. leaf (vm_paging vm') w = (if vpn w = vpn v then Some (phys OR 1 OR 2) else leaf (vm_paging vm) w)"
    "\<And>w. in_huge_page (vm_paging vm') w = in_huge_page (vm_paging vm) w"
    "free_frames vm \<le> 4 + free_frames vm'" "vm' = vm\<lparr>vm_paging := vm_paging vm'\<rparr>"
    "\<And>u j. aligned u \<Longrightarrow> unat j < 512 \<Longrightarrow>
       frame u \<notin> table_pages (vm_paging vm) \<union> free_set (pg_pmm (vm_paging vm)) \<Longrightarrow>
       pg_mem (vm_paging vm') (slot u j) = pg_mem (vm_paging vm) (slot u j)"
    using demand_page_spec [OF wf v nh fr [unfolded free_frames_def]] unfolding free_frames_def by blast
  have "heap_byte vm' w = heap_byte vm w" if w: "in_heap w" for w
  proof (cases "vpn w = vpn v")
    case True
    then have "leaf (vm_paging vm) w = None" using v(2) leaf_vpn [OF True] by (simp only:)
    moreover have l: "leaf (vm_paging vm') w = Some (phys OR 1 OR 2)" using d(5) [of w] True by presburger
    have "heap_byte vm' w = get_byte (pg_mem (vm_paging vm') (slot phys (word_idx w))) (byte_idx w)"
      unfolding heap_byte_def peek_def by (simp only: l option.case new_entry(3) [OF d(3)])
    ultimately show ?thesis using d(4) [of "word_idx w"] by (simp add: heap_byte_def)
  next
    case False
    show ?thesis
    proof (cases "leaf (vm_paging vm) w")
      case (Some e)
      then show ?thesis using False d(5) [of w] vmm_wfD(2) [OF wf w Some] d(9) [of "table_of e" "word_idx w"]
        by (simp add: heap_byte_def peek_def)
    qed (use False d(5) [of w] in \<open>simp add: heap_byte_def\<close>)
  qed
  moreover have "heap_sound vm'" using ok d(2,6) by (simp add: heap_sound_def)
  moreover have "leaf (vm_paging vm') v = Some (phys OR 1 OR 2)" using d(5) [of v] by (simp only: refl if_True)
  ultimately show ?thesis using d(1,7,8) by blast
qed

lemma resolve_spec:
  assumes ok: "heap_sound (is_vmm st)" and v: "in_heap v" and err: "err AND 1 = 0"
    and fr: "leaf (vm_paging (is_vmm st)) v = None \<Longrightarrow> 4 \<le> free_frames (is_vmm st)"
  shows "\<exists>e vm'. resolve mm la bsp frm err v st = Some (e, st\<lparr>is_vmm := vm'\<rparr>) \<and> heap_sound vm' \<and>
    leaf (vm_paging vm') v = Some e \<and> free_frames (is_vmm st) \<le> 4 + free_frames vm' \<and>
    vm' = (is_vmm st)\<lparr>vm_paging := vm_paging vm'\<rparr> \<and>
    (\<forall>w. in_heap w \<longrightarrow> heap_byte vm' w = heap_byte (is_vmm st) w)"
proof (cases "leaf (vm_paging (is_vmm st)) v")
  case None
  obtain vm' e where d: "vmm_demand_page v (is_vmm st) = Some (0, vm')" "heap_sound vm'" "leaf (vm_paging vm') v = Some e"
    "free_frames (is_vmm st) \<le> 4 + free_frames vm'" "vm' = (is_vmm st)\<lparr>vm_paging := vm_paging vm'\<rparr>"
    "\<forall>w. in_heap w \<longrightarrow> heap_byte vm' w = heap_byte (is_vmm st) w"
    using demand_page_invisible [OF ok v None fr [OF None]] by blast
  have "isr_handler mm la bsp v (frm\<lparr>fr_vector := 14, fr_error_code := err\<rparr>) st = Some (Resumed (st\<lparr>is_vmm := vm'\<rparr>))"
    by (rule page_fault_resolved [OF _ _ d(1)]) (simp_all add: err)
  then have "resolve mm la bsp frm err v st = Some (e, st\<lparr>is_vmm := vm'\<rparr>)"
    using None d(3) by (simp add: resolve_def page_entry_leaf)
  then show ?thesis using d by blast
next
  case (Some e)
  then have "resolve mm la bsp frm err v st = Some (e, st\<lparr>is_vmm := is_vmm st\<rparr>)"
    by (simp add: resolve_def page_entry_leaf)
  then show ?thesis using Some ok by (intro exI [of _ e] exI [of _ "is_vmm st"]) simp
qed

lemma store_byte_spec:
  assumes "heap_sound (is_vmm st)" "in_heap v"
    and "leaf (vm_paging (is_vmm st)) v = None \<Longrightarrow> 4 \<le> free_frames (is_vmm st)"
  shows "\<exists>vm'. store_byte mm la bsp frm v b st = Some (st\<lparr>is_vmm := vm'\<rparr>) \<and> heap_sound vm' \<and>
    free_frames (is_vmm st) \<le> 4 + free_frames vm' \<and> vm' = (is_vmm st)\<lparr>vm_paging := vm_paging vm'\<rparr> \<and>
    (\<forall>w. in_heap w \<longrightarrow> heap_byte vm' w = (if w = v then b else heap_byte (is_vmm st) w))"
proof -
  obtain e vm1 where r: "resolve mm la bsp frm 2 v st = Some (e, st\<lparr>is_vmm := vm1\<rparr>)" "heap_sound vm1"
    "leaf (vm_paging vm1) v = Some e" "free_frames (is_vmm st) \<le> 4 + free_frames vm1"
    "vm1 = (is_vmm st)\<lparr>vm_paging := vm_paging vm1\<rparr>" "\<forall>w. in_heap w \<longrightarrow> heap_byte vm1 w = heap_byte (is_vmm st) w"
    using resolve_spec [OF assms(1,2) _ assms(3), of 2 mm la bsp frm] by auto
  let ?vm = "vm1\<lparr>vm_paging := poke e v b (vm_paging vm1)\<rparr>"
  have "store_byte mm la bsp frm v b st = Some (st\<lparr>is_vmm := ?vm\<rparr>)" by (simp add: store_byte_def r(1))
  moreover have "?vm = (is_vmm st)\<lparr>vm_paging := vm_paging ?vm\<rparr>" by (subst r(5)) simp
  ultimately show ?thesis
    using poke_ok [OF r(2) assms(2) r(3), where b = b] r(4,6) by (intro exI [of _ ?vm]) simp
qed

lemma load_byte_spec:
  assumes "heap_sound (is_vmm st)" "in_heap v"
    and "leaf (vm_paging (is_vmm st)) v = None \<Longrightarrow> 4 \<le> free_frames (is_vmm st)"
  shows "\<exists>vm'. load_byte mm la bsp frm v st = Some (heap_byte (is_vmm st) v, st\<lparr>is_vmm := vm'\<rparr>) \<and> heap_sound vm' \<and>
    free_frames (is_vmm st) \<le> 4 + free_frames vm' \<and> vm' = (is_vmm st)\<lparr>vm_paging := vm_paging vm'\<rparr> \<and>
    (\<forall>w. in_heap w \<longrightarrow> heap_byte vm' w = heap_byte (is_vmm st) w)"
proof -
  obtain e vm1 where r: "resolve mm la bsp frm 0 v st = Some (e, st\<lparr>is_vmm := vm1\<rparr>)" "heap_sound vm1"
    "leaf (vm_paging vm1) v = Some e" "free_frames (is_vmm st) \<le> 4 + free_frames vm1"
    "vm1 = (is_vmm st)\<lparr>vm_paging := vm_paging vm1\<rparr>" "\<forall>w. in_heap w \<longrightarrow> heap_byte vm1 w = heap_byte (is_vmm st) w"
    using resolve_spec [OF assms(1,2) _ assms(3), of 0 mm la bsp frm] by auto
  have "peek e v (vm_paging vm1) = heap_byte (is_vmm st) v" using r(3) r(6) [rule_format, OF assms(2), symmetric] by (simp add: heap_byte_def)
  then have "load_byte mm la bsp frm v st = Some (heap_byte (is_vmm st) v, st\<lparr>is_vmm := vm1\<rparr>)"
    by (simp add: load_byte_def r(1))
  then show ?thesis using r by blast
qed

section \<open>Programs\<close>

datatype access = Store u64 u8 | Load u64

fun target :: "access \<Rightarrow> u64" where
  "target (Store v b) = v"
| "target (Load v) = v"

fun run_accesses ::
  "'d mmio \<Rightarrow> lapic \<Rightarrow> u32 \<Rightarrow> interrupt_frame \<Rightarrow> access list \<Rightarrow> 'd isr \<Rightarrow> (u8 list \<times> 'd isr) exec" where
  "run_accesses mm la bsp frm [] st = Some ([], st)"
| "run_accesses mm la bsp frm (Store v b # as) st =
     Option.bind (store_byte mm la bsp frm v b st) (run_accesses mm la bsp frm as)"
| "run_accesses mm la bsp frm (Load v # as) st =
     Option.bind (load_byte mm la bsp frm v st) (\<lambda>(x, st).
       map_option (\<lambda>(xs, st). (x # xs, st)) (run_accesses mm la bsp frm as st))"

text \<open>The same program on a flat memory.\<close>

fun flat :: "access list \<Rightarrow> (u64 \<Rightarrow> u8) \<Rightarrow> u8 list \<times> (u64 \<Rightarrow> u8)" where
  "flat [] m = ([], m)"
| "flat (Store v b # as) m = flat as (m(v := b))"
| "flat (Load v # as) m = (let (xs, m') = flat as m in (m v # xs, m'))"

lemma flat_cong:
  assumes "\<forall>w. in_heap w \<longrightarrow> m w = m' w" "\<forall>a \<in> set as. in_heap (target a)"
  shows "fst (flat as m) = fst (flat as m') \<and> (\<forall>w. in_heap w \<longrightarrow> snd (flat as m) w = snd (flat as m') w)"
  using assms by (induction as m arbitrary: m' rule: flat.induct) (auto simp: case_prod_beta)

lemma run_accesses_flat:
  assumes "heap_sound (is_vmm st)" "\<forall>a \<in> set as. in_heap (target a)" "4 * length as \<le> free_frames (is_vmm st)"
  shows "\<exists>vm'. run_accesses mm la bsp frm as st = Some (fst (flat as (heap_byte (is_vmm st))), st\<lparr>is_vmm := vm'\<rparr>) \<and>
    heap_sound vm' \<and> vm' = (is_vmm st)\<lparr>vm_paging := vm_paging vm'\<rparr> \<and>
    (\<forall>w. in_heap w \<longrightarrow> heap_byte vm' w = snd (flat as (heap_byte (is_vmm st))) w)"
  using assms
proof (induction mm la bsp frm as st rule: run_accesses.induct)
  case (1 mm la bsp frm st)
  then show ?case by (intro exI [of _ "is_vmm st"]) simp
next
  case (2 mm la bsp frm v b as st)
  obtain vm1 where s: "store_byte mm la bsp frm v b st = Some (st\<lparr>is_vmm := vm1\<rparr>)" "heap_sound vm1"
    "free_frames (is_vmm st) \<le> 4 + free_frames vm1" "vm1 = (is_vmm st)\<lparr>vm_paging := vm_paging vm1\<rparr>"
    "\<forall>w. in_heap w \<longrightarrow> heap_byte vm1 w = ((heap_byte (is_vmm st))(v := b)) w"
    using store_byte_spec [OF 2(2), of v mm la bsp frm b] 2(3,4) by auto
  obtain vm2 where r: "run_accesses mm la bsp frm as (st\<lparr>is_vmm := vm1\<rparr>) = Some (fst (flat as (heap_byte vm1)), st\<lparr>is_vmm := vm2\<rparr>)"
    "heap_sound vm2" "vm2 = vm1\<lparr>vm_paging := vm_paging vm2\<rparr>" "\<forall>w. in_heap w \<longrightarrow> heap_byte vm2 w = snd (flat as (heap_byte vm1)) w"
    using 2(1) [OF s(1)] s(2,3) 2(3,4) by auto
  have "vm2 = (is_vmm st)\<lparr>vm_paging := vm_paging vm2\<rparr>" by (subst r(3), subst s(4)) simp
  then show ?case using s(1) r(1,2,4) flat_cong [OF s(5), of as] 2(3) by (intro exI [of _ vm2]) (auto simp: fun_upd_def)
next
  case (3 mm la bsp frm v as st)
  obtain vm1 where s: "load_byte mm la bsp frm v st = Some (heap_byte (is_vmm st) v, st\<lparr>is_vmm := vm1\<rparr>)" "heap_sound vm1"
    "free_frames (is_vmm st) \<le> 4 + free_frames vm1" "vm1 = (is_vmm st)\<lparr>vm_paging := vm_paging vm1\<rparr>"
    "\<forall>w. in_heap w \<longrightarrow> heap_byte vm1 w = heap_byte (is_vmm st) w"
    using load_byte_spec [OF 3(2), of v mm la bsp frm] 3(3,4) by auto
  obtain vm2 where r: "run_accesses mm la bsp frm as (st\<lparr>is_vmm := vm1\<rparr>) = Some (fst (flat as (heap_byte vm1)), st\<lparr>is_vmm := vm2\<rparr>)"
    "heap_sound vm2" "vm2 = vm1\<lparr>vm_paging := vm_paging vm2\<rparr>" "\<forall>w. in_heap w \<longrightarrow> heap_byte vm2 w = snd (flat as (heap_byte vm1)) w"
    using 3(1) [OF s(1) refl] s(2,3) 3(3,4) by auto
  have "vm2 = (is_vmm st)\<lparr>vm_paging := vm_paging vm2\<rparr>" by (subst r(3), subst s(4)) simp
  then show ?case using s(1) r(1,2,4) flat_cong [OF s(5), of as] 3(3)
    by (intro exI [of _ vm2]) (auto simp: case_prod_beta)
qed

end
