(* ===== verification/X86_Smp.thy ===== *)
theory X86_Smp
  imports X86_Idt
begin

text \<open>
  Bringing up the other processors, \<open>arch/x86_64/smp.c\<close>.  The boot loader's answer lists the
  processors; writing a processor's goto address starts it, with the address of its entry of
  \<open>ap_contexts\<close> as argument, here the index of the entry.  The array has \<open>GMK_MAX_WORKERS\<close> entries and
  a write beyond it is \<open>None\<close>.

  The lemmas show which context each processor gets, and that the array is overrun exactly when
  there are too many processors.
\<close>

section \<open>State\<close>

record limine_smp_info =
  ci_lapic_id :: u32
  ci_extra_argument :: nat
  ci_goto :: bool

record limine_smp_response =
  re_bsp_lapic_id :: u32
  re_cpu_count :: u64
  re_cpus :: "limine_smp_info list"

record ap_entry_ctx =
  ac_fn :: addr
  ac_arg :: addr
  ac_cpu_idx :: u32

record smp =
  sm_resp :: "limine_smp_response option"
  sm_cpu_count :: u32
  sm_bsp_lapic :: u32
  sm_contexts :: "ap_entry_ctx list"

definition smp_static :: smp where
  "smp_static = \<lparr>sm_resp = None, sm_cpu_count = 0, sm_bsp_lapic = 0,
     sm_contexts = replicate 32 \<lparr>ac_fn = 0, ac_arg = 0, ac_cpu_idx = 0\<rparr>\<rparr>"

section \<open>Operations\<close>

definition smp_init :: "limine_smp_response option \<Rightarrow> smp \<Rightarrow> 'd world \<Rightarrow> (u32 \<times> smp \<times> 'd world) exec" where
  "smp_init resp s w =
     (let s = s\<lparr>sm_resp := resp\<rparr> in
      case resp of None \<Rightarrow> Some (1, s, w)
      | Some r \<Rightarrow>
          let s = s\<lparr>sm_cpu_count := ucast (re_cpu_count r), sm_bsp_lapic := re_bsp_lapic_id r\<rparr>
          in Option.bind (kprint (''SMP: %u CPUs detected, BSP LAPIC ID = %u'' @ [CHR 0x0A])
               [KUint (sm_cpu_count s), KUint (sm_bsp_lapic s)] w) (\<lambda>w. Some (sm_cpu_count s, s, w)))"

text \<open>The inner loop: processors other than the BSP are numbered from 1.\<close>

fun ap_index :: "u32 \<Rightarrow> limine_smp_info list \<Rightarrow> nat \<Rightarrow> nat list \<Rightarrow> u32 \<Rightarrow> u32 exec" where
  "ap_index bsp cpus i [] idx = Some 0"
| "ap_index bsp cpus i (j # js) idx =
     Option.bind (arr_get cpus j) (\<lambda>c.
       if ci_lapic_id c = bsp then ap_index bsp cpus i js idx
       else if j = i then Some (idx + 1) else ap_index bsp cpus i js (idx + 1))"

definition start_ap :: "addr \<Rightarrow> addr \<Rightarrow> u32 \<Rightarrow> nat \<Rightarrow> nat \<Rightarrow> limine_smp_info list \<times> ap_entry_ctx list
    \<Rightarrow> (limine_smp_info list \<times> ap_entry_ctx list) exec" where
  "start_ap ap_entry arg bsp n i = (\<lambda>(cpus, ctxs).
     Option.bind (arr_get cpus i) (\<lambda>cpu.
     if ci_lapic_id cpu = bsp then Some (cpus, ctxs)
     else
       Option.bind (ap_index bsp cpus i [0..<n] 0) (\<lambda>cpu_idx.
       Option.bind (arr_set ctxs (unat cpu_idx) \<lparr>ac_fn = ap_entry, ac_arg = arg, ac_cpu_idx = cpu_idx\<rparr>) (\<lambda>ctxs.
       Option.bind (arr_set cpus i (cpu\<lparr>ci_extra_argument := unat cpu_idx, ci_goto := True\<rparr>)) (\<lambda>cpus.
         Some (cpus, ctxs))))))"

fun start_aps_loop :: "addr \<Rightarrow> addr \<Rightarrow> u32 \<Rightarrow> nat \<Rightarrow> nat list \<Rightarrow> limine_smp_info list \<times> ap_entry_ctx list
    \<Rightarrow> (limine_smp_info list \<times> ap_entry_ctx list) exec" where
  "start_aps_loop ap_entry arg bsp n [] st = Some st"
| "start_aps_loop ap_entry arg bsp n (i # js) st =
     Option.bind (start_ap ap_entry arg bsp n i st) (start_aps_loop ap_entry arg bsp n js)"

definition smp_start_aps :: "addr \<Rightarrow> addr \<Rightarrow> smp \<Rightarrow> smp exec" where
  "smp_start_aps ap_entry arg s =
     (case sm_resp s of None \<Rightarrow> Some s
      | Some r \<Rightarrow>
          let n = unat (re_cpu_count r)
          in Option.bind (start_aps_loop ap_entry arg (sm_bsp_lapic s) n [0..<n] (re_cpus r, sm_contexts s)) (\<lambda>(cpus, ctxs).
               Some (s\<lparr>sm_resp := Some (r\<lparr>re_cpus := cpus\<rparr>), sm_contexts := ctxs\<rparr>)))"

definition smp_bsp_lapic_id :: "smp \<Rightarrow> u32" where
  "smp_bsp_lapic_id s = sm_bsp_lapic s"

definition smp_cpu_count :: "smp \<Rightarrow> u32" where
  "smp_cpu_count s = sm_cpu_count s"

definition smp_lapic_id :: "u32 \<Rightarrow> smp \<Rightarrow> u32 exec" where
  "smp_lapic_id cpu_idx s =
     (case sm_resp s of None \<Rightarrow> Some 0
      | Some r \<Rightarrow> if cpu_idx \<ge> sm_cpu_count s then Some 0
                 else map_option ci_lapic_id (arr_get (re_cpus r) (unat cpu_idx)))"

text \<open>What a started processor does before it calls the entry function of its context: the result is
  the context.\<close>

definition ap_trampoline ::
  "'d ports \<Rightarrow> 'd mmio \<Rightarrow> u64 \<Rightarrow> limine_smp_info \<Rightarrow> smp \<Rightarrow> gdt_entry list \<Rightarrow> lapic \<Rightarrow> 'd world
    \<Rightarrow> (ap_entry_ctx \<times> gdt_entry list \<times> lapic \<times> 'd world) exec" where
  "ap_trampoline hw mm hhdm info s gdt la w = do {
     (gdt, _) \<leftarrow> gdt_init gdt;
     let (la, d) = lapic_init mm hhdm la (w_dev w) in do {
     (la, w) \<leftarrow> lapic_timer_init hw mm 1000 la (w\<lparr>w_dev := d\<rparr>);
     ctx \<leftarrow> arr_get (sm_contexts s) (ci_extra_argument info);
     w \<leftarrow> kprint (''CPU %u (LAPIC %u) ready'' @ [CHR 0x0A]) [KUint (ac_cpu_idx ctx), KUint (ci_lapic_id info)] w;
     Some (ctx, gdt, la, w) } }"

section \<open>Numbering\<close>

text \<open>The processors before position \<open>i\<close> that are not the BSP.\<close>

definition aps_before :: "u32 \<Rightarrow> limine_smp_info list \<Rightarrow> nat \<Rightarrow> nat" where
  "aps_before bsp cpus i = length (filter (\<lambda>c. ci_lapic_id c \<noteq> bsp) (take i cpus))"

lemma aps_before_0 [simp]: "aps_before bsp cpus 0 = 0"
  by (simp add: aps_before_def)

lemma aps_before_Suc:
  "i < length cpus \<Longrightarrow> aps_before bsp cpus (Suc i) =
     (if ci_lapic_id (cpus ! i) = bsp then aps_before bsp cpus i else Suc (aps_before bsp cpus i))"
  by (simp add: aps_before_def take_Suc_conv_app_nth)

lemma ap_index_eq:
  assumes "i < length cpus" "ci_lapic_id (cpus ! i) \<noteq> bsp" "n = length cpus" "k \<le> i"
    and "idx = of_nat (aps_before bsp cpus k)"
  shows "ap_index bsp cpus i [k..<n] idx = Some (of_nat (Suc (aps_before bsp cpus i)))"
  using assms(4,5)
proof (induction "i - k" arbitrary: k idx)
  case 0
  then have "k = i" by simp
  then show ?case using assms 0 by (simp add: upt_conv_Cons exec_simps)
next
  case (Suc m)
  then have k: "k < i" "k < n" using assms by auto
  then have "ap_index bsp cpus i [Suc k..<n] (of_nat (aps_before bsp cpus (Suc k))) =
      Some (of_nat (Suc (aps_before bsp cpus i)))"
    using Suc by auto
  then show ?case using k Suc.prems(2) assms(3)
    by (auto simp: upt_conv_Cons exec_simps aps_before_Suc add.commute)
qed

text \<open>The answer after the processors before position \<open>k\<close> have been started.\<close>

definition started :: "u32 \<Rightarrow> limine_smp_info list \<Rightarrow> nat \<Rightarrow> limine_smp_info list" where
  "started bsp cpus k = map (\<lambda>i.
     if i < k \<and> ci_lapic_id (cpus ! i) \<noteq> bsp
     then (cpus ! i)\<lparr>ci_extra_argument := Suc (aps_before bsp cpus i), ci_goto := True\<rparr> else cpus ! i) [0..<length cpus]"

definition contexts :: "addr \<Rightarrow> addr \<Rightarrow> nat \<Rightarrow> ap_entry_ctx list \<Rightarrow> ap_entry_ctx list" where
  "contexts fn arg m ctxs = map (\<lambda>j.
     if 1 \<le> j \<and> j \<le> m then \<lparr>ac_fn = fn, ac_arg = arg, ac_cpu_idx = of_nat j\<rparr> else ctxs ! j) [0..<length ctxs]"

lemma started_ids [simp]: "i < length cpus \<Longrightarrow> ci_lapic_id (started bsp cpus k ! i) = ci_lapic_id (cpus ! i)"
  by (simp add: started_def)

lemma length_started [simp]: "length (started bsp cpus k) = length cpus"
  by (simp add: started_def)

lemma aps_before_started [simp]: "aps_before bsp (started bsp cpus k) i = aps_before bsp cpus i"
proof -
  have "map ci_lapic_id (take i (started bsp cpus k)) = map ci_lapic_id (take i cpus)"
    by (rule nth_equalityI) auto
  moreover have "length (filter (\<lambda>c. ci_lapic_id c \<noteq> bsp) xs) = length (filter (\<lambda>i. i \<noteq> bsp) (map ci_lapic_id xs))" for xs
    by (simp add: filter_map o_def)
  ultimately show ?thesis unfolding aps_before_def by metis
qed

lemma aps_before_mono: "i \<le> j \<Longrightarrow> aps_before bsp cpus i \<le> aps_before bsp cpus j"
  unfolding aps_before_def by (metis filter_append le_add1 length_append take_add le_iff_add)

lemma start_ap_step:
  assumes k: "k < length cpus" and len: "length ctxs = 32" and n: "n = length cpus"
    and small: "aps_before bsp cpus (Suc k) < 32"
  shows "start_ap fn arg bsp n k (started bsp cpus k, contexts fn arg (aps_before bsp cpus k) ctxs) =
    Some (started bsp cpus (Suc k), contexts fn arg (aps_before bsp cpus (Suc k)) ctxs)"
proof (cases "ci_lapic_id (cpus ! k) = bsp")
  case True
  have "started bsp cpus (Suc k) = started bsp cpus k"
    using True by (intro nth_equalityI) (auto simp: started_def less_Suc_eq)
  then show ?thesis using True k by (simp add: start_ap_def exec_simps aps_before_Suc)
next
  case False
  let ?m = "Suc (aps_before bsp cpus k)"
  have m: "?m < 32" using small k False by (simp add: aps_before_Suc)
  then have u: "unat (of_nat ?m :: u32) = ?m" by (intro unat_of_nat_lt) simp
  have i: "ap_index bsp (started bsp cpus k) k [0..<n] 0 = Some (of_nat ?m)"
    using ap_index_eq [of k "started bsp cpus k" bsp n 0 0] k n False by simp
  have c: "(contexts fn arg (aps_before bsp cpus k) ctxs)[?m := \<lparr>ac_fn = fn, ac_arg = arg, ac_cpu_idx = of_nat ?m\<rparr>]
      = contexts fn arg ?m ctxs"
    using m len by (intro nth_equalityI) (auto simp: contexts_def nth_list_update)
  have s: "(started bsp cpus k)[k := (cpus ! k)\<lparr>ci_extra_argument := ?m, ci_goto := True\<rparr>] = started bsp cpus (Suc k)"
    using k False by (intro nth_equalityI) (auto simp: started_def nth_list_update)
  have "started bsp cpus k ! k = cpus ! k" using k by (simp add: started_def)
  moreover have "length (contexts fn arg (aps_before bsp cpus k) ctxs) = 32" using len by (simp add: contexts_def)
  ultimately show ?thesis
    using i c s u m k False unfolding start_ap_def by (simp add: exec_simps aps_before_Suc del: of_nat_Suc)
qed

lemma start_aps_loop_eq:
  assumes len: "length ctxs = 32" and n: "n = length cpus" and small: "aps_before bsp cpus n < 32" and "k \<le> n"
  shows "start_aps_loop fn arg bsp n [k..<n] (started bsp cpus k, contexts fn arg (aps_before bsp cpus k) ctxs) =
    Some (started bsp cpus n, contexts fn arg (aps_before bsp cpus n) ctxs)"
  using assms(4)
proof (induction "n - k" arbitrary: k)
  case (Suc m)
  then have k: "k < n" by simp
  then have "aps_before bsp cpus (Suc k) < 32" using small aps_before_mono [of "Suc k" n bsp cpus] by simp
  then show ?case using Suc k n start_ap_step [OF _ len n] by (simp add: upt_conv_Cons)
qed simp

lemma smp_start_aps_eq:
  assumes "sm_resp s = Some r" "unat (re_cpu_count r) = length (re_cpus r)" "length (sm_contexts s) = 32"
    and "aps_before (sm_bsp_lapic s) (re_cpus r) (length (re_cpus r)) < 32"
  shows "smp_start_aps fn arg s =
    Some (s\<lparr>sm_resp := Some (r\<lparr>re_cpus := started (sm_bsp_lapic s) (re_cpus r) (length (re_cpus r))\<rparr>),
      sm_contexts := contexts fn arg (aps_before (sm_bsp_lapic s) (re_cpus r) (length (re_cpus r))) (sm_contexts s)\<rparr>)"
proof -
  have "started b c 0 = c" "contexts fn arg 0 x = x" for b c x
    by (auto intro: nth_equalityI simp: started_def contexts_def)
  then show ?thesis
    using start_aps_loop_eq [OF assms(3) refl assms(4), of 0 fn arg] assms(1,2)
    by (simp add: smp_start_aps_def Let_def)
qed

lemma start_aps_overrun:
  assumes len: "length ctxs = 32" and n: "n = length cpus" "n < 2 ^ 32" and many: "32 \<le> aps_before bsp cpus n"
    and "k \<le> n" "aps_before bsp cpus k < 32"
  shows "start_aps_loop fn arg bsp n [k..<n] (started bsp cpus k, contexts fn arg (aps_before bsp cpus k) ctxs) = None"
  using assms(5,6)
proof (induction "n - k" arbitrary: k)
  case 0
  then show ?case using many by simp
next
  case (Suc m)
  then have k: "k < n" by simp
  show ?case
  proof (cases "aps_before bsp cpus (Suc k) < 32")
    case True
    then show ?thesis using Suc k n start_ap_step [OF _ len n(1)] by (simp add: upt_conv_Cons)
  next
    case False
    then have a: "ci_lapic_id (cpus ! k) \<noteq> bsp" "Suc (aps_before bsp cpus k) = 32"
      using Suc(4) k n by (auto simp: aps_before_Suc split: if_splits)
    have "ap_index bsp (started bsp cpus k) k [0..<n] 0 = Some 32"
      using ap_index_eq [of k "started bsp cpus k" bsp n 0 0] k n a by (simp del: of_nat_Suc)
    moreover have "length (contexts fn arg (aps_before bsp cpus k) ctxs) = 32" using len by (simp add: contexts_def)
    ultimately have "start_ap fn arg bsp n k (started bsp cpus k, contexts fn arg (aps_before bsp cpus k) ctxs) = None"
      using k n a(1) by (simp add: start_ap_def exec_simps arr_set_def)
    then show ?thesis using k by (simp add: upt_conv_Cons)
  qed
qed

lemma smp_start_aps_overrun:
  assumes "sm_resp s = Some r" "unat (re_cpu_count r) = length (re_cpus r)" "length (sm_contexts s) = 32"
    and "length (re_cpus r) < 2 ^ 32" "32 \<le> aps_before (sm_bsp_lapic s) (re_cpus r) (length (re_cpus r))"
  shows "smp_start_aps fn arg s = None"
proof -
  have "started b c 0 = c" "contexts fn arg 0 x = x" for b c x
    by (auto intro: nth_equalityI simp: started_def contexts_def)
  then show ?thesis
    using start_aps_overrun [OF assms(3) refl assms(4,5), of 0 fn arg] assms(1,2)
    by (simp add: smp_start_aps_def Let_def)
qed

end
