(* ===== verification/X86_Kmain.thy ===== *)
theory X86_Kmain
  imports X86_Heap X86_Smp X86_Cli X86_Hal
begin

text \<open>
  Start-up: \<open>arch/x86_64/entry.c\<close> and \<open>arch/x86_64/kmain.c\<close>, with the bare-metal parking of workers,
  \<open>hal/x86_baremetal/park.c\<close>.  The boot loader's answers are a record, and the other processors act
  through \<open>ready\<close>, the value of the ready counter that each poll reads.  \<open>None\<close> is a panic or undefined
  behaviour; the final idle loops are the end of the run.

  The memory that \<open>gmk_boot\<close> obtains is that of the HAL record it is given.  Interrupts are taken
  where the code raises them itself, in the page faults of the memory test.

  The lemmas show that the memory test reads back what it wrote and gives its page back, that the
  disk test passes on a working device, that the sixteen tasks are queued in order, and which
  worker each processor takes.
\<close>

section \<open>Parking\<close>

text \<open>The parking structure of a worker is its processor's LAPIC id.\<close>

definition bm_hal_park_init :: u32 where "bm_hal_park_init = 0"

definition bm_hal_park_wake :: "'d mmio \<Rightarrow> lapic \<Rightarrow> u32 \<Rightarrow> 'd \<Rightarrow> 'd exec" where
  "bm_hal_park_wake mm la cpu_id d = lapic_send_ipi mm la cpu_id IPI_WAKE_VECTOR d"

definition bm_hal_park_destroy :: "u32 \<Rightarrow> u32" where "bm_hal_park_destroy p = p"

section \<open>Modules\<close>

abbreviation (input) GMK_PRIO_NORMAL :: u16 where "GMK_PRIO_NORMAL \<equiv> 2"
abbreviation (input) GMK_CHAN_PRODUCE :: u32 where "GMK_CHAN_PRODUCE \<equiv> 0x0100"
abbreviation (input) GMK_CHAN_CONSUME :: u32 where "GMK_CHAN_CONSUME \<equiv> 0x0200"

definition GMK_VERSION :: "u32 \<Rightarrow> u32 \<Rightarrow> u32 \<Rightarrow> u32" where
  "GMK_VERSION major minor patch = push_bit 16 major OR push_bit 8 minor OR patch"

definition echo_handler :: "gmk_ctx \<Rightarrow> 'd world \<Rightarrow> (rc \<times> 'd world) exec" where
  "echo_handler ctx w =
     Option.bind (cx_task ctx) (\<lambda>t.
     Option.bind (kprint (''[worker %u] echo: type=%u meta0=%lu'' @ nl)
       [KUint (cx_worker_id ctx), KUint (tk_type t), KUlong (tk_meta0 t)] w) (\<lambda>w. Some (0, w)))"

definition echo_module :: "addr \<Rightarrow> gmk_module" where
  "echo_module fn = \<lparr>md_name = ''echo'', md_version = GMK_VERSION 0 1 0,
     md_handlers = [\<lparr>hr_type = 1, hr_fn = fn, hr_name = ''echo'', hr_flags = 0, hr_max_yields = 0\<rparr>],
     md_n_handlers = 1, md_channels = [], md_n_channels = 0, md_init = 0, md_fini = 0\<rparr>"

definition cli_module :: gmk_module where
  "cli_module = \<lparr>md_name = ''cli'', md_version = GMK_VERSION 0 1 0, md_handlers = [], md_n_handlers = 0,
     md_channels = [
       \<lparr>cd_name = ''cli.cmd'', cd_direction = GMK_CHAN_PRODUCE, cd_msg_type = 0, cd_mode = GMK_CHAN_P2P,
        cd_guarantee = GMK_CHAN_LOSSLESS\<rparr>,
       \<lparr>cd_name = ''cli.resp'', cd_direction = GMK_CHAN_CONSUME, cd_msg_type = 0, cd_mode = GMK_CHAN_P2P,
        cd_guarantee = GMK_CHAN_LOSSLESS\<rparr>],
     md_n_channels = 2, md_init = 0, md_fini = 0\<rparr>"

section \<open>The machine\<close>

record 'd machine =
  ma_gdt :: "gdt_entry list"
  ma_idt :: "idt_entry list"
  ma_lapic :: lapic
  ma_smp :: smp
  ma_timer :: shutdown_timer
  ma_hhdm :: u64
  ma_boot :: boot_alloc
  ma_ap_ready :: u32
  ma_mon :: "'d monitor"

text \<open>The hardware and the environment: ports, the local APIC of the running processor, the bus-master
  accesses of the block device, the registers of an interrupted program, the contents of fresh pages,
  the stubs, the handlers, the result of creating a thread, the time stamps, the HAL's memory, the
  ready counter as the polls see it and the bytes typed at the console.\<close>

record 'd env =
  en_ports :: "'d ports"
  en_mmio :: "'d mmio"
  en_dma :: "'d dma"
  en_frame :: interrupt_frame
  en_page :: "u64 \<Rightarrow> u8 list"
  en_stubs :: "addr list"
  en_echo :: addr
  en_ap_entry :: addr
  en_pool :: addr
  en_run :: callbacks
  en_create :: "nat \<Rightarrow> rc"
  en_tsc :: "nat \<Rightarrow> u64"
  en_hal :: hal
  en_ready :: "nat \<Rightarrow> u32"
  en_input :: "u8 list"

definition maprint :: "string \<Rightarrow> karg list \<Rightarrow> 'd machine \<Rightarrow> 'd machine exec" where
  "maprint fmt args ma = map_option (\<lambda>mo. ma\<lparr>ma_mon := mo\<rparr>) (mprint (fmt @ nl) args (ma_mon ma))"

text \<open>The part of the machine that an interrupt handler works on.\<close>

definition as_isr :: "'d machine \<Rightarrow> 'd isr" where
  "as_isr ma = \<lparr>is_timer = ma_timer ma, is_vmm = mo_vmm (ma_mon ma), is_world = mo_world (ma_mon ma)\<rparr>"

definition with_isr :: "'d isr \<Rightarrow> 'd machine \<Rightarrow> 'd machine" where
  "with_isr st ma = ma\<lparr>ma_timer := is_timer st,
     ma_mon := (ma_mon ma)\<lparr>mo_vmm := is_vmm st, mo_world := is_world st\<rparr>\<rparr>"

section \<open>Kernel main\<close>

definition kmain_cfg :: "u32 \<Rightarrow> gmk_boot_cfg" where
  "kmain_cfg cpu_count = \<lparr>cf_arena_size = GMK_DEFAULT_ARENA_SIZE,
     cf_n_workers = (if cpu_count > GMK_MAX_WORKERS then GMK_MAX_WORKERS else cpu_count),
     cf_n_tenants = GMK_DEFAULT_TENANTS\<rparr>"

definition kmain_boot :: "'d env \<Rightarrow> u32 \<Rightarrow> 'd machine \<Rightarrow> 'd machine exec" where
  "kmain_boot en cpu_count ma = do {
     ma \<leftarrow> maprint (nl @ ''=== GGMK/cpu kernel main ==='') [] ma;
     let cfg = kmain_cfg cpu_count;
     ma \<leftarrow> maprint ''Booting GGMK kernel: %u workers, %lu MB arena''
       [KUint (cf_n_workers cfg), KUlong (drop_bit 20 (cf_arena_size cfg))] ma;
     (rc, k) \<leftarrow> gmk_boot (en_run en) (en_create en) (en_tsc en) (Some cfg)
       [Some (echo_module (en_echo en)), Some cli_module] (en_hal en);
     if rc \<noteq> 0 then None
     else maprint ''GGMK kernel booted successfully'' [] (ma\<lparr>ma_mon := (ma_mon ma)\<lparr>mo_kernel := k,
       mo_cpu_ids := map (\<lambda>_. bm_hal_park_init) (pl_workers (kn_pool k))\<rparr>\<rparr>) }"

text \<open>The memory test; its accesses go through \<open>store_byte\<close> and \<open>load_byte\<close>.\<close>

definition on_isr :: "('d isr \<Rightarrow> 'd isr exec) \<Rightarrow> 'd machine \<Rightarrow> 'd machine exec" where
  "on_isr f ma = map_option (\<lambda>st. with_isr st ma) (f (as_isr ma))"

definition touch_page ::
  "'d mmio \<Rightarrow> lapic \<Rightarrow> u32 \<Rightarrow> interrupt_frame \<Rightarrow> addr \<Rightarrow> 'd isr \<Rightarrow> (u8 \<times> u8 \<times> 'd isr) exec" where
  "touch_page mm la bsp fr p st = do {
     st \<leftarrow> store_byte mm la bsp fr p 0xAB st;
     st \<leftarrow> store_byte mm la bsp fr (p + 4095) 0xCD st;
     (x, st) \<leftarrow> load_byte mm la bsp fr p st;
     (y, st) \<leftarrow> load_byte mm la bsp fr (p + 4095) st;
     Some (x, y, st) }"

definition vmm_test :: "'d mmio \<Rightarrow> lapic \<Rightarrow> u32 \<Rightarrow> interrupt_frame \<Rightarrow> 'd isr \<Rightarrow> 'd isr exec" where
  "vmm_test mm la bsp fr st = do {
     (p, vm) \<leftarrow> kmalloc 4096 (is_vmm st);
     st \<leftarrow> iprint ''VMM test: kmalloc(4096) = %p'' [KPtr p] (st\<lparr>is_vmm := vm\<rparr>);
     (x, y, st) \<leftarrow> touch_page mm la bsp fr p st;
     st \<leftarrow> iprint ''VMM test: p[0]=0x%x p[4095]=0x%x'' [KUint (ucast x), KUint (ucast y)] st;
     vm \<leftarrow> kfree p 4096 (is_vmm st);
     iprint ''VMM test: kfree OK'' [] (st\<lparr>is_vmm := vm\<rparr>) }"

definition smoke_pattern :: "u8 list" where
  "smoke_pattern = map (\<lambda>i. of_nat i AND 0xFF) [0..<512]"

text \<open>\<open>"OK"\<close> or \<open>"FAIL"\<close>; \<open>"PASS"\<close> or \<open>"FAIL"\<close>.\<close>

definition ok_fail :: "rc \<Rightarrow> karg" where
  "ok_fail rc = KStr (Some (if rc = 0 then ''OK'' else ''FAIL''))"

definition pass_fail :: "bool \<Rightarrow> karg" where
  "pass_fail b = KStr (Some (if b then ''PASS'' else ''FAIL''))"

definition blk_smoke :: "'d ports \<Rightarrow> 'd dma \<Rightarrow> 'd monitor \<Rightarrow> 'd monitor exec" where
  "blk_smoke hw dma mo = do {
     (vrc, _, b, w) \<leftarrow> virtio_blk_write hw dma 0 (Some smoke_pattern) (mo_blk mo) (mo_world mo);
     mo \<leftarrow> mprint (''virtio-blk: write sector 0: %s'' @ nl) [ok_fail vrc] (mo\<lparr>mo_blk := b, mo_world := w\<rparr>);
     (vrc, rbuf, b, w) \<leftarrow> virtio_blk_read hw dma 0 (Some (replicate 512 0)) (mo_blk mo) (mo_world mo);
     mo \<leftarrow> mprint (''virtio-blk: read sector 0: %s'' @ nl) [ok_fail vrc] (mo\<lparr>mo_blk := b, mo_world := w\<rparr>);
     mprint (''virtio-blk: verify: %s'' @ nl) [pass_fail (rbuf = Some smoke_pattern)] mo }"

definition kmain_blk_test :: "'d env \<Rightarrow> 'd machine \<Rightarrow> 'd machine exec" where
  "kmain_blk_test en ma =
     (case pci_find_device 0x1AF4 0x1001 (mo_pci (ma_mon ma)) of
        None \<Rightarrow> maprint ''virtio-blk: no device found (add -device virtio-blk-pci to QEMU)'' [] ma
      | Some i \<Rightarrow> do {
          vblk \<leftarrow> arr_get (pci_devices (mo_pci (ma_mon ma))) i;
          ma \<leftarrow> maprint ''virtio-blk device found at PCI %u:%u.%u''
            [KUint (ucast (pd_bus vblk)), KUint (ucast (pd_dev vblk)), KUint (ucast (pd_func vblk))] ma;
          let pg = vm_paging (mo_vmm (ma_mon ma));
          (vrc, b, pm, w) \<leftarrow> virtio_blk_init (en_ports en) (ma_hhdm ma) (Some vblk) (mo_blk (ma_mon ma)) (pg_pmm pg)
            (mo_world (ma_mon ma));
          let ma = ma\<lparr>ma_mon := (ma_mon ma)\<lparr>mo_blk := b, mo_world := w,
            mo_vmm := (mo_vmm (ma_mon ma))\<lparr>vm_paging := pg\<lparr>pg_pmm := pm\<rparr>\<rparr>\<rparr>\<rparr>;
          if vrc \<noteq> 0 then Some ma
          else map_option (\<lambda>mo. ma\<lparr>ma_mon := mo\<rparr>) (blk_smoke (en_ports en) (en_dma en) (ma_mon ma)) })"

text \<open>The LAPIC ids that wake the workers.\<close>

fun assign_loop :: "smp \<Rightarrow> nat list \<Rightarrow> u32 list \<Rightarrow> u32 list exec" where
  "assign_loop s [] ids = Some ids"
| "assign_loop s (i # js) ids =
     Option.bind (smp_lapic_id (of_nat i) s) (\<lambda>l. Option.bind (arr_set ids i l) (assign_loop s js))"

definition assign_lapics :: "u32 \<Rightarrow> smp \<Rightarrow> u32 list \<Rightarrow> u32 list exec" where
  "assign_lapics n_workers s ids =
     Option.bind (arr_set ids 0 (smp_bsp_lapic_id s)) (assign_loop s [1..<unat n_workers])"

definition kmain_assign :: "u32 \<Rightarrow> 'd machine \<Rightarrow> 'd machine exec" where
  "kmain_assign cpu_count ma =
     map_option (\<lambda>ids. ma\<lparr>ma_mon := (ma_mon ma)\<lparr>mo_cpu_ids := ids\<rparr>\<rparr>)
       (assign_lapics (cf_n_workers (kmain_cfg cpu_count)) (ma_smp ma) (mo_cpu_ids (ma_mon ma)))"

text \<open>What a processor runs: it looks for the worker with its LAPIC id.\<close>

fun find_worker :: "u32 \<Rightarrow> u32 list \<Rightarrow> nat list \<Rightarrow> nat option exec" where
  "find_worker my_lapic ids [] = Some None"
| "find_worker my_lapic ids (i # js) =
     Option.bind (arr_get ids i) (\<lambda>l. if l = my_lapic then Some (Some i) else find_worker my_lapic ids js)"

definition ap_worker_entry ::
  "'d mmio \<Rightarrow> callbacks \<Rightarrow> (nat \<Rightarrow> gmk_kernel \<Rightarrow> gmk_kernel) \<Rightarrow> 'd machine \<Rightarrow> 'd machine exec" where
  "ap_worker_entry mm run others ma =
     (let mo = ma_mon ma;
          (my_lapic, d) = lapic_id mm (ma_lapic ma) (w_dev (mo_world mo));
          ma = ma\<lparr>ma_mon := mo\<lparr>mo_world := (mo_world mo)\<lparr>w_dev := d\<rparr>\<rparr>\<rparr>;
          pool = kn_pool (mo_kernel mo)
      in do {
        fw \<leftarrow> find_worker my_lapic (mo_cpu_ids mo) [0..<unat (pl_n_workers pool)];
        case fw of
          None \<Rightarrow> Some ma
        | Some i \<Rightarrow> do {
            w \<leftarrow> arr_get (pl_workers pool) i;
            ma \<leftarrow> maprint ''CPU %u entering worker loop (LAPIC %u)'' [KUint (wk_id w), KUint my_lapic] ma;
            k \<leftarrow> gmk_worker_loop run i others 0 (mo_kernel (ma_mon ma));
            Some (ma\<lparr>ma_ap_ready := ma_ap_ready ma + 1, ma_mon := (ma_mon ma)\<lparr>mo_kernel := k\<rparr>\<rparr>) } })"

text \<open>Waiting for the processors: the number of the poll that ends the loop.\<close>

fun await_aps :: "nat \<Rightarrow> u32 \<Rightarrow> (nat \<Rightarrow> u32) \<Rightarrow> nat \<Rightarrow> nat" where
  "await_aps 0 expected ready t = t"
| "await_aps (Suc n) expected ready t = (if ready t \<ge> expected then t else await_aps n expected ready (Suc t))"

definition kmain_start_aps :: "'d env \<Rightarrow> u32 \<Rightarrow> 'd machine \<Rightarrow> 'd machine exec" where
  "kmain_start_aps en cpu_count ma =
     (if cpu_count > 1 then do {
        s \<leftarrow> smp_start_aps (en_ap_entry en) (en_pool en) (ma_smp ma);
        let expected = cpu_count - 1;
        let ready = en_ready en (Suc (await_aps 10000000 expected (en_ready en) 0));
        ma \<leftarrow> maprint ''APs ready: %u / %u'' [KUint ready, KUint expected] (ma\<lparr>ma_smp := s, ma_ap_ready := ready\<rparr>);
        Some (ma\<lparr>ma_mon := (ma_mon ma)\<lparr>mo_vmm := vmm_set_cpu_count cpu_count (mo_vmm (ma_mon ma))\<rparr>\<rparr>) }
      else Some ma)"

definition echo_task :: "nat \<Rightarrow> gmk_task" where
  "echo_task i = zero_task\<lparr>tk_type := 1, tk_flags := GMK_SET_PRIORITY 0 GMK_PRIO_NORMAL, tk_meta0 := of_nat i, tk_meta1 := 0\<rparr>"

fun submit_loop :: "nat list \<Rightarrow> 'd machine \<Rightarrow> 'd machine exec" where
  "submit_loop [] ma = Some ma"
| "submit_loop (i # js) ma = do {
     (rc, k, _) \<leftarrow> gmk_submit (mo_kernel (ma_mon ma)) (echo_task i);
     let ma = ma\<lparr>ma_mon := (ma_mon ma)\<lparr>mo_kernel := k\<rparr>\<rparr>;
     ma \<leftarrow> (if rc \<noteq> 0 then maprint ''  submit %u failed: %d'' [KUint (of_nat i), KInt (of_int rc)] ma else Some ma);
     submit_loop js ma }"

definition kmain_submit :: "'d machine \<Rightarrow> 'd machine exec" where
  "kmain_submit ma = do {
     ma \<leftarrow> maprint ''Submitting 16 tasks...'' [] ma;
     ma \<leftarrow> submit_loop [0..<16] ma;
     maprint ''Submitted 16 tasks.'' [] ma }"

definition kmain_cli :: "'d env \<Rightarrow> 'd machine \<Rightarrow> 'd machine exec" where
  "kmain_cli en ma =
     map_option (\<lambda>mo. ma\<lparr>ma_mon := mo\<rparr>)
       (cli_run (en_ports en) (en_dma en) (en_page en) (en_input en)
         ((ma_mon ma)\<lparr>mo_bsp_lapic := smp_bsp_lapic_id (ma_smp ma), mo_ticks := idt_get_timer_count (ma_timer ma)\<rparr>))"

definition kmain :: "'d env \<Rightarrow> u32 \<Rightarrow> 'd machine \<Rightarrow> 'd machine exec" where
  "kmain en cpu_count ma = do {
     ma \<leftarrow> kmain_boot en cpu_count ma;
     ma \<leftarrow> on_isr (vmm_test (en_mmio en) (ma_lapic ma) (smp_bsp_lapic_id (ma_smp ma)) (en_frame en)) ma;
     ma \<leftarrow> kmain_blk_test en ma;
     ma \<leftarrow> kmain_assign cpu_count ma;
     ma \<leftarrow> kmain_start_aps en cpu_count ma;
     ma \<leftarrow> kmain_submit ma;
     ma \<leftarrow> kmain_cli en ma;
     maprint (nl @ ''GMK kernel halted. System idle.'') [] ma }"

section \<open>Entry\<close>

text \<open>The answers of the boot loader.\<close>

record boot_info =
  bi_revision_supported :: bool
  bi_hhdm :: "u64 option"
  bi_memmap :: "limine_memmap_entry list option"
  bi_smp :: "limine_smp_response option"

text \<open>The error exits, which stop the processor: the result is \<open>False\<close> and the machine.\<close>

definition stop :: "string \<Rightarrow> 'd machine \<Rightarrow> (bool \<times> 'd machine) exec" where
  "stop msg ma = map_option (Pair False) (maprint msg [] ma)"

text \<open>Steps 7 to 12: local APIC, processors, virtual memory, PCI, kernel main.\<close>

definition kstart_devices :: "'d env \<Rightarrow> boot_info \<Rightarrow> 'd machine \<Rightarrow> (bool \<times> 'd machine) exec" where
  "kstart_devices en bi ma = do {
     let mo = ma_mon ma;
     pg \<leftarrow> map_mmio (ma_hhdm ma) LAPIC_PHYS_BASE 0x1000 (vm_paging (mo_vmm mo));
     let (la, d) = lapic_init (en_mmio en) (ma_hhdm ma) (ma_lapic ma) (w_dev (mo_world mo));
     (la, w) \<leftarrow> lapic_timer_init (en_ports en) (en_mmio en) 1000 la ((mo_world mo)\<lparr>w_dev := d\<rparr>);
     let (me, d) = lapic_id (en_mmio en) la (w_dev w);
     w \<leftarrow> kprint (''LAPIC initialized (BSP ID = %u)'' @ nl) [KUint me] (w\<lparr>w_dev := d\<rparr>);
     (cpu_count, s, w) \<leftarrow> (if bi_smp bi \<noteq> None then smp_init (bi_smp bi) (ma_smp ma) w else Some (1, ma_smp ma, w));
     let vm = vmm_init ((mo_vmm mo)\<lparr>vm_paging := pg\<rparr>);
     (p, w) \<leftarrow> pci_init (en_ports en) (mo_pci mo) w;
     ma \<leftarrow> kmain en cpu_count (ma\<lparr>ma_lapic := la, ma_smp := s,
       ma_mon := mo\<lparr>mo_vmm := vm, mo_pci := p, mo_world := w\<rparr>\<rparr>);
     Some (True, ma) }"

definition kstart_memory :: "'d env \<Rightarrow> boot_info \<Rightarrow> 'd machine \<Rightarrow> (bool \<times> 'd machine) exec" where
  "kstart_memory en bi ma =
     (case bi_memmap bi of
        None \<Rightarrow> stop ''ERROR: No memmap response from Limine'' ma
      | Some es \<Rightarrow> do {
          let pg = vm_paging (mo_vmm (ma_mon ma));
          pm \<leftarrow> pmm_init (Some es) (pg_pmm pg);
          (ba_phys, pm) \<leftarrow> pmm_alloc_pages (8388608 div 4096) pm;
          let ma = ma\<lparr>ma_mon := (ma_mon ma)\<lparr>mo_vmm := (mo_vmm (ma_mon ma))\<lparr>vm_paging := pg\<lparr>pg_pmm := pm\<rparr>\<rparr>\<rparr>\<rparr>;
          if ba_phys = 0 then stop ''ERROR: Cannot allocate boot allocator region'' ma
          else do {
            ma \<leftarrow> maprint ''Boot alloc: %lu KB at phys 0x%lx'' [KUlong (8388608 div 1024), KUlong ba_phys]
              (ma\<lparr>ma_boot := boot_alloc_init (ba_phys + ma_hhdm ma) 8388608\<rparr>);
            kstart_devices en bi ma } })"

definition kstart :: "'d env \<Rightarrow> boot_info \<Rightarrow> 'd machine \<Rightarrow> (bool \<times> 'd machine) exec" where
  "kstart en bi ma = do {
     let mo = ma_mon ma;
     let d = fold (\<lambda>(p, v). p_outb (en_ports en) p v) serial_init (w_dev (mo_world mo));
     ma \<leftarrow> maprint (nl @ ''GMK/cpu bare-metal kernel starting'') []
       (ma\<lparr>ma_mon := mo\<lparr>mo_world := (mo_world mo)\<lparr>w_dev := d\<rparr>\<rparr>\<rparr>);
     if \<not> bi_revision_supported bi then stop ''ERROR: Limine base revision not supported'' ma
     else do {
       (gdt, _) \<leftarrow> gdt_init (ma_gdt ma);
       (idt, _) \<leftarrow> idt_init (en_stubs en) (ma_idt ma);
       ma \<leftarrow> maprint ''GDT+IDT loaded'' [] (ma\<lparr>ma_gdt := gdt, ma_idt := idt\<rparr>);
       case bi_hhdm bi of
         None \<Rightarrow> stop ''ERROR: No HHDM response from Limine'' ma
       | Some off \<Rightarrow> do {
           ma \<leftarrow> maprint ''HHDM offset: 0x%lx'' [KUlong off] (ma\<lparr>ma_hhdm := off\<rparr>);
           kstart_memory en bi ma } } }"

section \<open>Processors and workers\<close>

lemma assign_loop_eq:
  assumes "\<And>i. i < n \<Longrightarrow> smp_lapic_id (of_nat i) s = Some (l ! i)" "length l = n" "length ids = n" "1 \<le> k" "k \<le> n"
  shows "assign_loop s [k..<n] (take k ids @ drop k ids) = Some (take k ids @ drop k l)"
  using assms(3-5)
proof (induction "n - k" arbitrary: k ids)
  case 0
  then show ?case using assms(2) by simp
next
  case (Suc m)
  then have k: "k < n" by simp
  have t: "take (Suc k) (ids[k := l ! k]) = take k ids @ [l ! k]"
    using k Suc.prems by (simp add: take_Suc_conv_app_nth)
  have "assign_loop s [Suc k..<n] (ids[k := l ! k]) = Some (take (Suc k) (ids[k := l ! k]) @ drop (Suc k) l)"
    using Suc(1) [of "Suc k" "ids[k := l ! k]"] Suc k by simp
  also have "\<dots> = Some (take k ids @ drop k l)"
    using t k assms(2) by (simp add: Cons_nth_drop_Suc)
  finally show ?case using k Suc.prems assms(1) [OF k] by (simp add: upt_conv_Cons exec_simps)
qed

lemma smp_lapic_id_eq:
  assumes "sm_resp s = Some r" "sm_cpu_count s = of_nat (length (re_cpus r))" "length (re_cpus r) < 2 ^ 32"
    and "i < length (re_cpus r)"
  shows "smp_lapic_id (of_nat i) s = Some (map ci_lapic_id (re_cpus r) ! i)"
proof -
  have "unat (of_nat i :: u32) = i" "unat (of_nat (length (re_cpus r)) :: u32) = length (re_cpus r)"
    using assms(3,4) by (auto intro!: unat_of_nat_lt)
  then show ?thesis using assms by (simp add: smp_lapic_id_def word_le_nat_alt exec_simps)
qed

lemma assign_lapics_eq:
  assumes "sm_resp s = Some r" "sm_cpu_count s = of_nat (length (re_cpus r))" "length (re_cpus r) < 2 ^ 32"
    and "unat n = length (re_cpus r)" "length ids = length (re_cpus r)" "re_cpus r \<noteq> []"
  shows "assign_lapics n s ids = Some (sm_bsp_lapic s # tl (map ci_lapic_id (re_cpus r)))"
proof -
  let ?l = "map ci_lapic_id (re_cpus r)" and ?ids = "ids[0 := sm_bsp_lapic s]"
  have len: "length (re_cpus r) \<ge> 1" using assms(6) by (cases "re_cpus r") auto
  have "assign_loop s [1..<unat n] (take 1 ?ids @ drop 1 ?ids) = Some (take 1 ?ids @ drop 1 ?l)"
    using len assms(4,5) by (intro assign_loop_eq smp_lapic_id_eq [OF assms(1-3)]) auto
  moreover have "take 1 ?ids = [sm_bsp_lapic s]" using len assms(5) by (cases ids) auto
  moreover have "arr_set ids 0 (sm_bsp_lapic s) = Some ?ids" using assms(5,6) by (simp add: arr_set_def)
  ultimately show ?thesis
    unfolding append_take_drop_id by (simp add: assign_lapics_def smp_bsp_lapic_id_def drop_Suc)
qed

lemma find_worker_eq:
  "n \<le> length ids \<Longrightarrow> find_worker l ids [k..<n] = Some (find (\<lambda>i. ids ! i = l) [k..<n])"
  by (induction "n - k" arbitrary: k) (auto simp: upt_conv_Cons exec_simps)

lemma find_upt_Some:
  assumes "k < n" "P k" "\<And>i. i < k \<Longrightarrow> \<not> P i"
  shows "find P [0..<n] = Some k"
proof -
  have "[0..<n] = [0..<k] @ k # [Suc k..<n]" using assms(1) upt_add_eq_append [of 0 k "n - k"] by (simp add: upt_conv_Cons)
  moreover have "find P [0..<k] = None" using assms(3) by (simp add: find_None_iff)
  moreover have "find P (xs @ ys) = (case find P xs of None \<Rightarrow> find P ys | Some x \<Rightarrow> Some x)" for xs ys
    by (induction xs) auto
  ultimately show ?thesis using assms(2) by simp
qed

text \<open>Which worker a processor takes: the BSP takes worker 0, the processor in position 0 takes none
  unless it is the BSP, every other one takes the worker of its position.\<close>

lemma worker_of_cpu:
  fixes cpus b c
  defines "ids \<equiv> ci_lapic_id (cpus ! b) # tl (map ci_lapic_id cpus)"
  assumes d: "distinct (map ci_lapic_id cpus)" and b: "b < length cpus" and c: "c < length cpus"
  shows "find_worker (ci_lapic_id (cpus ! c)) ids [0..<length cpus] =
    Some (if c = b then Some 0 else if c = 0 then None else Some c)"
proof -
  have len: "length ids = length cpus" using b by (simp add: ids_def)
  have nth: "ids ! i = (if i = 0 then ci_lapic_id (cpus ! b) else ci_lapic_id (cpus ! i))" if "i < length cpus" for i
    using that b by (cases i) (simp_all add: ids_def nth_tl map_tl)
  have inj: "ci_lapic_id (cpus ! i) = ci_lapic_id (cpus ! j) \<longleftrightarrow> i = j" if "i < length cpus" "j < length cpus" for i j
    using d that by (metis distinct_conv_nth length_map nth_map)
  have hit: "ids ! i = ci_lapic_id (cpus ! c) \<longleftrightarrow> (if i = 0 then c = b else i = c)" if "i < length cpus" for i
    using nth [OF that] inj [OF b c] inj [OF that c] by auto
  have "find (\<lambda>i. ids ! i = ci_lapic_id (cpus ! c)) [0..<length cpus] =
      (if c = b then Some 0 else if c = 0 then None else Some c)"
  proof (cases "c = b")
    case True
    have "find (\<lambda>i. ids ! i = ci_lapic_id (cpus ! c)) [0..<length cpus] = Some 0"
      by (rule find_upt_Some) (use hit [OF order.strict_trans1 [OF le0 b]] b True in auto)
    then show ?thesis using True by simp
  next
    case False
    show ?thesis
    proof (cases "c = 0")
      case True
      then show ?thesis using hit False by (auto simp: find_None_iff)
    next
      case c0: False
      then have "find (\<lambda>i. ids ! i = ci_lapic_id (cpus ! c)) [0..<length cpus] = Some c"
        using hit False c by (intro find_upt_Some) auto
      then show ?thesis using False c0 by simp
    qed
  qed
  then show ?thesis using find_worker_eq [of "length cpus" ids] len by simp
qed

section \<open>The memory test\<close>

definition vmm_test_text :: "u64 \<Rightarrow> string" where
  "vmm_test_text p = (let crlf = [CHR 0x0D, CHR 0x0A] in
     ''VMM test: kmalloc(4096) = 0x'' @ notation_of 16 (unat p) @ crlf @
     ''VMM test: p[0]=0xab p[4095]=0xcd'' @ crlf @ ''VMM test: kfree OK'' @ crlf)"

lemma heap_page:
  assumes "i < 134217728"
  shows "unat (VMM_HEAP_BASE + of_nat i) = 18446744071696285696 + i" "in_heap (VMM_HEAP_BASE + of_nat i)"
proof -
  have "unat (of_nat i :: u64) = i" using assms by (intro unat_of_nat_lt) simp
  then show u: "unat (VMM_HEAP_BASE + of_nat i) = 18446744071696285696 + i"
    using assms by (subst unat_add_nowrap) simp_all
  then show "in_heap (VMM_HEAP_BASE + of_nat i)" using assms unfolding in_heap_def word_le_nat_alt word_less_nat_alt by simp
qed

lemma kprintf_vmm_test:
  "kprintf (''VMM test: kmalloc(4096) = %p'' @ [CHR 0x0A]) [KPtr p] =
     Some (''VMM test: kmalloc(4096) = 0x'' @ notation_of 16 (unat p) @ [CHR 0x0D, CHR 0x0A])"
  "kprintf (''VMM test: p[0]=0x%x p[4095]=0x%x'' @ [CHR 0x0A]) [KUint (ucast (0xAB :: u8)), KUint (ucast (0xCD :: u8))] =
     Some (''VMM test: p[0]=0xab p[4095]=0xcd'' @ [CHR 0x0D, CHR 0x0A])"
  "kprintf (''VMM test: kfree OK'' @ [CHR 0x0A]) [] = Some (''VMM test: kfree OK'' @ [CHR 0x0D, CHR 0x0A])"
proof -
  have d: "notation_of 16 171 = ''ab''" "notation_of 16 205 = ''cd''" by code_simp+
  show "kprintf (''VMM test: p[0]=0x%x p[4095]=0x%x'' @ [CHR 0x0A]) [KUint (ucast (0xAB :: u8)), KUint (ucast (0xCD :: u8))] =
     Some (''VMM test: p[0]=0xab p[4095]=0xcd'' @ [CHR 0x0D, CHR 0x0A])"
    by (simp add: print_simps serial_putc_def d)
qed (simp_all add: print_simps serial_putc_def)

lemma logged_is_vmm: "(logged s st)\<lparr>is_vmm := vm\<rparr> = logged s (st\<lparr>is_vmm := vm\<rparr>)"
  by (simp add: logged_def)

lemma heap_next_irrelevant:
  "heap_sound (vm\<lparr>vm_heap_next := x\<rparr>) = heap_sound vm" "smp_ok (vm\<lparr>vm_heap_next := x\<rparr>) = smp_ok vm"
  "free_frames (vm\<lparr>vm_heap_next := x\<rparr>) = free_frames vm" "smp_ok (vm\<lparr>vm_paging := pg\<rparr>) = smp_ok vm"
  by (simp_all add: heap_sound_def vmm_wf_def smp_ok_def free_frames_def)

lemma kmalloc_first_page:
  "vm_heap_next vm = VMM_HEAP_BASE \<Longrightarrow> kmalloc 4096 vm = Some (VMM_HEAP_BASE, vm\<lparr>vm_heap_next := VMM_HEAP_BASE + 4096\<rparr>)"
  using kmalloc_eq [of 4096 vm] by (simp add: up16_def)

text \<open>The four accesses of the test, on a page of the heap.\<close>

lemma test_accesses:
  fixes p :: u64
  assumes ok: "heap_sound (is_vmm st)" and fr: "16 \<le> free_frames (is_vmm st)" and "in_heap p" "in_heap (p + 4095)"
  obtains vm where "touch_page mm la bsp frm p st = Some (0xAB, 0xCD, st\<lparr>is_vmm := vm\<rparr>)"
    "heap_sound vm" "vm = (is_vmm st)\<lparr>vm_paging := vm_paging vm\<rparr>"
proof -
  define a b q where "a = (0xAB :: u8)" and "b = (0xCD :: u8)" and "q = p + 4095"
  have pq: "in_heap p" "in_heap q" "p \<noteq> q" using assms(3,4) by (simp_all add: q_def)
  obtain vm1 where 1: "store_byte mm la bsp frm p a st = Some (st\<lparr>is_vmm := vm1\<rparr>)" "heap_sound vm1"
    "free_frames (is_vmm st) \<le> 4 + free_frames vm1" "vm1 = (is_vmm st)\<lparr>vm_paging := vm_paging vm1\<rparr>" "heap_byte vm1 p = a"
    using store_byte_spec [OF ok pq(1), of mm la bsp frm a] fr pq by auto
  obtain vm2 where 2: "store_byte mm la bsp frm q b (st\<lparr>is_vmm := vm1\<rparr>) = Some (st\<lparr>is_vmm := vm2\<rparr>)" "heap_sound vm2"
    "free_frames vm1 \<le> 4 + free_frames vm2" "vm2 = vm1\<lparr>vm_paging := vm_paging vm2\<rparr>" "heap_byte vm2 p = a" "heap_byte vm2 q = b"
    using store_byte_spec [of "st\<lparr>is_vmm := vm1\<rparr>" q mm la bsp frm b] 1 fr pq by auto
  obtain vm3 where 3: "load_byte mm la bsp frm p (st\<lparr>is_vmm := vm2\<rparr>) = Some (a, st\<lparr>is_vmm := vm3\<rparr>)" "heap_sound vm3"
    "free_frames vm2 \<le> 4 + free_frames vm3" "vm3 = vm2\<lparr>vm_paging := vm_paging vm3\<rparr>" "heap_byte vm3 q = b"
    using load_byte_spec [of "st\<lparr>is_vmm := vm2\<rparr>" p mm la bsp frm] 1(3) 2 fr pq by auto
  obtain vm4 where 4: "load_byte mm la bsp frm q (st\<lparr>is_vmm := vm3\<rparr>) = Some (b, st\<lparr>is_vmm := vm4\<rparr>)" "heap_sound vm4"
    "vm4 = vm3\<lparr>vm_paging := vm_paging vm4\<rparr>"
    using load_byte_spec [of "st\<lparr>is_vmm := vm3\<rparr>" q mm la bsp frm] 1(3) 2(3) 3 fr pq by auto
  have "vm4 = (is_vmm st)\<lparr>vm_paging := vm_paging vm4\<rparr>" by (subst 4(3), subst 3(4), subst 2(4), subst 1(4)) simp
  then show thesis using that [of vm4] 1(1) 2(1) 3(1) 4(1,2) by (simp add: touch_page_def a_def b_def q_def)
qed

lemma vmm_test_ok:
  assumes ok: "heap_sound (is_vmm st)" and smp: "smp_ok (is_vmm st)" and base: "vm_heap_next (is_vmm st) = VMM_HEAP_BASE"
    and fr: "16 \<le> free_frames (is_vmm st)"
  shows "\<exists>vm'. vmm_test mm la bsp frm st = Some (logged (vmm_test_text VMM_HEAP_BASE) (st\<lparr>is_vmm := vm'\<rparr>)) \<and>
    vmm_wf vm' \<and> (\<forall>w. in_heap w \<longrightarrow> frame w = frame VMM_HEAP_BASE \<longrightarrow> leaf (vm_paging vm') w = None)"
proof -
  let ?p = VMM_HEAP_BASE
  let ?t1 = "''VMM test: kmalloc(4096) = 0x'' @ notation_of 16 (unat ?p) @ [CHR 0x0D, CHR 0x0A]"
  let ?st = "logged ?t1 (st\<lparr>is_vmm := (is_vmm st)\<lparr>vm_heap_next := VMM_HEAP_BASE + 4096\<rparr>\<rparr>)"
  have s: "heap_sound (is_vmm ?st)" "16 \<le> free_frames (is_vmm ?st)" "in_heap ?p" "in_heap (?p + 4095)"
    by (simp_all add: heap_next_irrelevant ok fr in_heap_def)
  obtain vm where a: "touch_page mm la bsp frm ?p ?st = Some (0xAB, 0xCD, ?st\<lparr>is_vmm := vm\<rparr>)" "heap_sound vm"
    "vm = (is_vmm ?st)\<lparr>vm_paging := vm_paging vm\<rparr>"
    by (rule test_accesses [OF s])
  have "smp_ok vm" by (subst a(3)) (simp add: heap_next_irrelevant smp)
  then obtain vm' where k: "kfree ?p 4096 vm = Some vm'" "vmm_wf vm'"
    "\<forall>w. in_heap w \<longrightarrow> leaf (vm_paging vm') w =
      (if frame ?p \<le> frame w \<and> 4096 * frame w < unat ?p + unat (4096 :: u64) then None else leaf (vm_paging vm) w)"
    using kfree_spec [of vm 4096 ?p] a(2) by (auto simp: heap_sound_def)
  have "vmm_test mm la bsp frm st = Some (logged (vmm_test_text ?p) (st\<lparr>is_vmm := vm'\<rparr>))"
    unfolding vmm_test_def kmalloc_first_page [OF base] iprint_eq kprintf_vmm_test(1)
    using a(1) k(1) kprintf_vmm_test(2,3) by (simp add: logged_is_vmm vmm_test_text_def Let_def)
  then show ?thesis using k by (auto simp: frame_def)
qed

section \<open>The disk test\<close>

definition disk_test_text :: string where
  "disk_test_text = (let crlf = [CHR 0x0D, CHR 0x0A] in ''virtio-blk: write sector 0: OK'' @ crlf @
     ''virtio-blk: read sector 0: OK'' @ crlf @ ''virtio-blk: verify: PASS'' @ crlf)"

lemma kprintf_disk_test:
  "kprintf (''virtio-blk: write sector 0: %s'' @ nl) [ok_fail 0] = Some (''virtio-blk: write sector 0: OK'' @ [CHR 0x0D, CHR 0x0A])"
  "kprintf (''virtio-blk: read sector 0: %s'' @ nl) [ok_fail 0] = Some (''virtio-blk: read sector 0: OK'' @ [CHR 0x0D, CHR 0x0A])"
  "kprintf (''virtio-blk: verify: %s'' @ nl) [pass_fail True] = Some (''virtio-blk: verify: PASS'' @ [CHR 0x0D, CHR 0x0A])"
  by (simp_all add: print_simps serial_putc_def ok_fail_def pass_fail_def)

lemma blk_running_con: "blk_running v fl hw dma b (w\<lparr>w_con := c\<rparr>) = blk_running v fl hw dma b w"
  by (simp add: blk_running_def)

lemma blk_smoke_passes:
  assumes run: "blk_running v (i # j # k # l) hw dma (mo_blk mo) (mo_world mo)" and cap: "0 < vb_capacity (mo_blk mo)"
  shows "\<exists>b' w'. blk_smoke hw dma mo = Some (mo\<lparr>mo_blk := b', mo_world := w'\<rparr>) \<and>
    blk_running v (i # j # k # l) hw dma b' w' \<and> w_con w' = w_con (mo_world mo) @ disk_test_text \<and>
    dv_disk v (w_dev w') = (dv_disk v (w_dev (mo_world mo)))(0 := smoke_pattern)"
proof -
  have len: "length smoke_pattern = 512" by (simp add: smoke_pattern_def)
  obtain b1 w1 where w: "virtio_blk_write hw dma 0 (Some smoke_pattern) (mo_blk mo) (mo_world mo) = Some (0, Some smoke_pattern, b1, w1)"
    "blk_running v (i # j # k # l) hw dma b1 w1" "vb_capacity b1 = vb_capacity (mo_blk mo)" "w_con w1 = w_con (mo_world mo)"
    "dv_disk v (w_dev w1) = (dv_disk v (w_dev (mo_world mo)))(0 := take 512 smoke_pattern)"
    by (rule blk_write_serves [OF run cap, of smoke_pattern]) (simp_all add: len)
  let ?w = "w1\<lparr>w_con := w_con w1 @ ''virtio-blk: write sector 0: OK'' @ [CHR 0x0D, CHR 0x0A]\<rparr>"
  obtain b2 w2 where r: "virtio_blk_read hw dma 0 (Some (replicate 512 0)) b1 ?w =
      Some (0, Some (dv_disk v (w_dev ?w) 0 @ drop 512 (replicate 512 0)), b2, w2)"
    "blk_running v (i # j # k # l) hw dma b2 w2" "w_con w2 = w_con ?w" "dv_disk v (w_dev w2) = dv_disk v (w_dev ?w)"
    by (rule blk_read_serves [of v i j k l hw dma b1 ?w 0 "replicate 512 0"])
      (use w cap in \<open>simp_all add: blk_running_con\<close>)
  have d: "dv_disk v (w_dev ?w) 0 @ drop 512 (replicate 512 0) = smoke_pattern" using w(5) len by simp
  define w3 where "w3 = w2\<lparr>w_con := w_con w2 @ ''virtio-blk: read sector 0: OK'' @ [CHR 0x0D, CHR 0x0A] @
    ''virtio-blk: verify: PASS'' @ [CHR 0x0D, CHR 0x0A]\<rparr>"
  have "blk_smoke hw dma mo = Some (mo\<lparr>mo_blk := b2, mo_world := w3\<rparr>)"
    unfolding blk_smoke_def w(1) using r(1) [unfolded d] kprintf_disk_test
    by (simp add: mprint_def kprint_def w3_def)
  moreover have "blk_running v (i # j # k # l) hw dma b2 w3" using r(2) by (simp add: w3_def blk_running_con)
  ultimately show ?thesis using r(3,4) w(4,5) len
    by (intro exI [of _ b2] exI [of _ w3]) (simp add: w3_def disk_test_text_def Let_def)
qed

section \<open>Error exits\<close>

lemma stop_Some:
  assumes "kprintf (msg @ nl) [] = Some s"
  shows "stop msg ma = Some (False, ma\<lparr>ma_mon := mputs s (ma_mon ma)\<rparr>)"
  using assms by (simp add: stop_def maprint_def mprint_def kprint_def mputs_def)

end
