(* ===== verification/Start_Properties.thy ===== *)
theory Start_Properties
  imports X86_Kmain Sample_Devices
begin

text \<open>
  The properties of interrupts, of the local APIC and of start-up, with a machine of 64 pages and
  processors that report their position as LAPIC id, at which they are evaluated.
\<close>

section \<open>A machine\<close>

definition wide_pmm :: pmm where
  "wide_pmm = \<lparr>pm_bitmap = replicate 16384 1, pm_total_pages = 64, pm_usable_pages = 63,
     pm_free_pages = 63, pm_highest_addr = 262144\<rparr>"


definition wide_paging :: paging where
  "wide_paging = \<lparr>pg_cr3 = 262144, pg_mem = (\<lambda>_. 0), pg_pmm = wide_pmm, pg_flushed = []\<rparr>"

lemma wide_table: "table wide_paging is = (if is = [] then Some 262144 else None)"
proof (induction "is")
  case Nil
  then show ?case by (simp add: wide_paging_def table_of_def)
next
  case (Cons i "is")
  then show ?case by (simp add: wide_paging_def present_def)
qed


lemma wide_leaf [simp]: "leaf wide_paging v = None"
  by (simp add: leaf_def wide_table vpath_def del: table.simps)

lemma wide_not_huge [simp]: "\<not> in_huge_page wide_paging v"
  by (simp add: in_huge_page_def huge_at_def wide_table wide_paging_def present_def del: table.simps)

definition wide_isr :: "unit isr" where
  "wide_isr = \<lparr>is_timer = zero_timer, is_vmm = sample_vmm\<lparr>vm_paging := wide_paging\<rparr>,
     is_world = \<lparr>w_dev = (), w_con = []\<rparr>\<rparr>"


definition sample_lapic :: lapic where
  "sample_lapic = \<lparr>la_base = 0xFEE00000, la_ticks_per_ms = 0\<rparr>"

definition sample_apic :: "nat \<Rightarrow> unit mmio" where
  "sample_apic c = \<lparr>mm_read = \<lambda>a d. (if a = 0xFEE00020 then push_bit 24 (of_nat (c mod 4)) else 0, d),
     mm_write = \<lambda>a v d. d\<rparr>"

lemma sample_reports: "reports_ids sample_apic sample_lapic (\<lambda>c. of_nat (c mod 4))"
proof -
  have "(of_nat (c mod 4) :: u32) < 256" for c
  proof -
    have "c mod 4 < 4" by simp
    then have "unat (of_nat (c mod 4) :: u32) = c mod 4" by (intro unat_of_nat_lt) simp
    then show ?thesis using \<open>c mod 4 < 4\<close> by (simp add: word_less_nat_alt del: unat_of_nat)
  qed
  then show ?thesis
    by (simp add: reports_ids_def lapic_read_def lapic_reg_def sample_lapic_def sample_apic_def)
qed

lemma sample_icr_drains: "icr_drains (sample_apic c) sample_lapic (\<lambda>_. 0) (\<lambda>d. d)"
  by (simp add: icr_drains_def settles_def lapic_read_def lapic_reg_def sample_lapic_def sample_apic_def)

definition sample_frame :: "u64 \<Rightarrow> u64 \<Rightarrow> interrupt_frame" where
  "sample_frame vec err = \<lparr>fr_r15 = 0, fr_r14 = 0, fr_r13 = 0, fr_r12 = 0, fr_r11 = 0, fr_r10 = 0, fr_r9 = 0, fr_r8 = 0,
     fr_rbp = 0, fr_rdi = 0, fr_rsi = 0, fr_rdx = 0, fr_rcx = 0, fr_rbx = 0, fr_rax = 0, fr_vector = vec,
     fr_error_code = err, fr_rip = 0, fr_cs = 8, fr_rflags = 0, fr_rsp = 0, fr_ss = 16\<rparr>"

section \<open>The heap\<close>





section \<open>Interrupts\<close>

text \<open>C7: The shutdown timer.  However the processors' interrupts interleave, only the timer interrupts of
  the bootstrap processor are counted; the flag is cleared by exactly the \<open>ticks\<close>-th of them, once,
  and every interrupt resumes.\<close>

theorem shutdown_timer_counts_bsp:
  fixes evs ids bsp
  defines "n \<equiv> length (filter (bsp_tick ids bsp) evs)"
  assumes "reports_ids mm la ids" "\<And>c cr2 fr. (c, cr2, fr) \<in> set evs \<Longrightarrow> 32 \<le> fr_vector fr"
    and "is_timer st = idt_set_shutdown_timer ticks (Some True)" "0 < ticks" "length evs < 2 ^ 64"
  shows "\<exists>st'. isr_run mm la bsp evs st = Some (Resumed st') \<and>
    is_timer st' = \<lparr>tm_flag = Some (n < unat ticks), tm_ticks = (if n < unat ticks then ticks else 0), tm_count = of_nat n\<rparr>"
proof -
  have "\<exists>st'. isr_run mm la bsp evs st = Some (Resumed st')" by (rule isr_run_irqs) (rule assms(3))
  then obtain st' where st': "isr_run mm la bsp evs st = Some (Resumed st')" by blast
  have "n < 2 ^ 64" using length_filter_le [of "bsp_tick ids bsp" evs] assms(6) unfolding n_def by (rule le_less_trans)
  then show ?thesis
    using st' isr_run_timer [OF assms(2) st'] timer_tick_pow [OF assms(5)] assms(4) by (simp add: n_def)
qed

theorem shutdown_timer_counts_bsp_witness:
  "\<exists>st'. isr_run sample_apic sample_lapic 1
      [(1, 0, sample_frame 32 0), (0, 0, sample_frame 32 0), (1, 0, sample_frame 254 0), (1, 0, sample_frame 32 0)]
      (wide_isr\<lparr>is_timer := idt_set_shutdown_timer 2 (Some True)\<rparr>) = Some (Resumed st') \<and>
    is_timer st' = \<lparr>tm_flag = Some False, tm_ticks = 0, tm_count = 2\<rparr>"
proof -
  let ?evs = "[(1, 0, sample_frame 32 0), (0, 0, sample_frame 32 0), (1, 0, sample_frame 254 0), (1, 0, sample_frame 32 0)]
    :: (nat \<times> u64 \<times> interrupt_frame) list"
  let ?st = "wide_isr\<lparr>is_timer := idt_set_shutdown_timer 2 (Some True)\<rparr>"
  have "\<exists>st'. isr_run sample_apic sample_lapic 1 ?evs ?st = Some (Resumed st') \<and>
    is_timer st' = (let n = length (filter (bsp_tick (\<lambda>c. of_nat (c mod 4)) 1) ?evs) in
      \<lparr>tm_flag = Some (n < unat (2 :: u32)), tm_ticks = (if n < unat (2 :: u32) then 2 else 0), tm_count = of_nat n\<rparr>)"
    unfolding Let_def
    by (rule shutdown_timer_counts_bsp [OF sample_reports]) (auto simp: sample_frame_def)
  then show ?thesis by (simp add: bsp_tick_def sample_frame_def Let_def)
qed

text \<open>C8: The descriptor tables are well formed.  After \<open>gdt_init\<close> and \<open>idt_init\<close> each of the 256 gates is a present
  ring 0 interrupt gate whose address, put together from its three parts, is the stub of its vector and
  whose selector names a present 64-bit code segment of ring 0; the limits cover the tables exactly.\<close>

theorem gates_reach_stubs:
  assumes "length stubs = 256" "length idt = 256" "length gdt = 5"
  shows "\<exists>gdt' idt'. gdt_init gdt = Some (gdt', 8 * 5 - 1) \<and> idt_init stubs idt = Some (idt', 16 * 256 - 1) \<and>
    length gdt' = 5 \<and> length idt' = 256 \<and>
    (\<forall>v < 256. gate_offset (idt' ! v) = stubs ! v \<and> ie_type_attr (idt' ! v) = 0x8E \<and>
       kernel_code (selected gdt' (ie_selector (idt' ! v))))"
proof -
  obtain gdt' where g: "gdt_init gdt = Some (gdt', 39)" "length gdt' = 5" "kernel_code (selected gdt' 0x08)"
    using gdt_init_ok [OF assms(3)] by blast
  have "ie_selector (gate h) = 8" "ie_type_attr (gate h) = 0x8E" for h by (simp_all add: gate_def)
  then show ?thesis using g idt_init_eq [OF assms(1,2)] assms(1)
    by (intro exI [of _ gdt'] exI [of _ "map gate stubs"]) (simp add: gate_offset_gate)
qed

theorem gates_reach_stubs_witness:
  "\<exists>gdt' idt'. gdt_init zero_gdt = Some (gdt', 39) \<and>
    idt_init (map (\<lambda>i. 0xffffffff80200000 + 16 * of_nat i) [0..<256]) zero_idt = Some (idt', 4095) \<and>
    gate_offset (idt' ! 14) = 0xffffffff802000e0"
proof -
  let ?stubs = "map (\<lambda>i. 0xffffffff80200000 + 16 * of_nat i) [0..<256] :: u64 list"
  have l: "length ?stubs = 256" "length zero_idt = 256" "length zero_gdt = 5"
    by (simp_all add: zero_idt_def zero_gdt_def)
  obtain gdt' idt' where r: "gdt_init zero_gdt = Some (gdt', 8 * 5 - 1)" "idt_init ?stubs zero_idt = Some (idt', 16 * 256 - 1)"
    "\<forall>v < 256. gate_offset (idt' ! v) = ?stubs ! v"
    using gates_reach_stubs [OF l] by blast
  have "?stubs ! 14 = 0xffffffff802000e0" by (simp add: nth_upt)
  then show ?thesis using r(1,2) r(3) [rule_format, of 14] by auto
qed

section \<open>The timer\<close>




section \<open>Processors\<close>

text \<open>C38: Starting the processors.  With fewer than 32 processors besides the bootstrap processor each of
  them is started with a context of its own, numbered from 1 in the order of the list, that holds
  the entry function and its argument, and the bootstrap processor is left alone.  With 32 or more
  the code writes beyond the array of contexts.\<close>

theorem smp_start_outcome:
  fixes s r fn arg
  defines "cpus \<equiv> re_cpus r" and "bsp \<equiv> sm_bsp_lapic s"
  assumes "sm_resp s = Some r" "unat (re_cpu_count r) = length cpus" "length (sm_contexts s) = 32" "length cpus < 2 ^ 32"
  shows "if aps_before bsp cpus (length cpus) < 32
    then \<exists>s' r'. smp_start_aps fn arg s = Some s' \<and> sm_resp s' = Some r' \<and> length (re_cpus r') = length cpus \<and>
      (\<forall>i < length cpus. ci_lapic_id (re_cpus r' ! i) = ci_lapic_id (cpus ! i) \<and>
        (if ci_lapic_id (cpus ! i) = bsp then re_cpus r' ! i = cpus ! i
         else ci_goto (re_cpus r' ! i) \<and> ci_extra_argument (re_cpus r' ! i) = Suc (aps_before bsp cpus i) \<and>
           sm_contexts s' ! Suc (aps_before bsp cpus i) =
             \<lparr>ac_fn = fn, ac_arg = arg, ac_cpu_idx = of_nat (Suc (aps_before bsp cpus i))\<rparr>))
    else smp_start_aps fn arg s = None"
proof (cases "aps_before bsp cpus (length cpus) < 32")
  case False
  then show ?thesis using smp_start_aps_overrun [OF assms(3)] assms(4-6) by (simp add: cpus_def bsp_def)
next
  case True
  let ?n = "length cpus"
  have c: "contexts fn arg (aps_before bsp cpus ?n) (sm_contexts s) ! Suc (aps_before bsp cpus i) =
      \<lparr>ac_fn = fn, ac_arg = arg, ac_cpu_idx = of_nat (Suc (aps_before bsp cpus i))\<rparr>"
    if "i < ?n" "ci_lapic_id (cpus ! i) \<noteq> bsp" for i
  proof -
    have "Suc (aps_before bsp cpus i) \<le> aps_before bsp cpus ?n"
      using aps_before_mono [of "Suc i" ?n bsp cpus] that by (simp add: aps_before_Suc)
    then show ?thesis using True assms(5) by (simp add: contexts_def del: of_nat_Suc)
  qed
  show ?thesis
    using True smp_start_aps_eq [OF assms(3), of fn arg] assms(4,5) c
    by (auto simp: cpus_def [symmetric] bsp_def [symmetric]) (simp_all add: started_def)
qed

definition four_cpus :: "u32 \<Rightarrow> smp" where
  "four_cpus bsp = smp_static\<lparr>sm_resp := Some \<lparr>re_bsp_lapic_id = bsp, re_cpu_count = 4,
       re_cpus = map (\<lambda>i. \<lparr>ci_lapic_id = i, ci_extra_argument = 0, ci_goto = False\<rparr>) [0, 1, 2, 3]\<rparr>,
     sm_cpu_count := 4, sm_bsp_lapic := bsp\<rparr>"

theorem smp_start_outcome_witness:
  "\<exists>s' r'. smp_start_aps 0x1000 0x2000 (four_cpus 2) = Some s' \<and> sm_resp s' = Some r' \<and>
    ci_extra_argument (re_cpus r' ! 3) = 3 \<and> ac_cpu_idx (sm_contexts s' ! 3) = 3"
proof -
  define r :: limine_smp_response where "r = \<lparr>re_bsp_lapic_id = 2, re_cpu_count = 4,
    re_cpus = map (\<lambda>i. \<lparr>ci_lapic_id = i, ci_extra_argument = 0, ci_goto = False\<rparr>) [0, 1, 2, 3]\<rparr>"
  have h: "sm_resp (four_cpus 2) = Some r" "unat (re_cpu_count r) = length (re_cpus r)" "length (sm_contexts (four_cpus 2)) = 32"
    "length (re_cpus r) < 2 ^ 32" "sm_bsp_lapic (four_cpus 2) = 2"
    by (simp_all add: four_cpus_def smp_static_def r_def)
  have a: "aps_before 2 (re_cpus r) (length (re_cpus r)) = 3" "aps_before 2 (re_cpus r) 3 = 2" "3 < length (re_cpus r)"
    "ci_lapic_id (re_cpus r ! 3) \<noteq> 2"
    by (simp_all add: aps_before_def r_def)
  show ?thesis
    using smp_start_outcome [where fn = "0x1000" and arg = "0x2000", OF h(1-4)] a(2-4) unfolding h(5) a(1) by force
qed

text \<open>C39: Processors and workers.  When the processors have distinct LAPIC ids, the bootstrap processor is
  that of worker 0 and every other processor finds the worker of its position in the boot loader's
  list, except that a processor in the first position that is not the bootstrap processor finds none.\<close>

theorem each_cpu_finds_worker:
  fixes s r
  defines "cpus \<equiv> re_cpus r"
  assumes "sm_resp s = Some r" "sm_cpu_count s = of_nat (length cpus)" "unat n = length cpus" "length ids = length cpus"
    and "distinct (map ci_lapic_id cpus)" "b < length cpus" "sm_bsp_lapic s = ci_lapic_id (cpus ! b)"
  shows "\<exists>ids'. assign_lapics n s ids = Some ids' \<and>
    (\<forall>c < length cpus. find_worker (ci_lapic_id (cpus ! c)) ids' [0..<unat n] =
       Some (if c = b then Some 0 else if c = 0 then None else Some c))"
proof -
  have "unat n < 2 ^ 32" "re_cpus r \<noteq> []" using unsigned_less [of n] assms(7) by (auto simp: cpus_def)
  then have "assign_lapics n s ids = Some (ci_lapic_id (cpus ! b) # tl (map ci_lapic_id cpus))"
    using assign_lapics_eq [OF assms(2), of n ids] assms by (auto simp: cpus_def)
  then show ?thesis using worker_of_cpu [OF assms(6,7)] assms(4) by simp
qed

theorem each_cpu_finds_worker_witness:
  "\<exists>ids'. assign_lapics 4 (four_cpus 2) [0, 0, 0, 0] = Some ids' \<and>
    find_worker 3 ids' [0..<4] = Some (Some 3) \<and> find_worker 0 ids' [0..<4] = Some None"
proof -
  let ?r = "\<lparr>re_bsp_lapic_id = 2, re_cpu_count = 4,
    re_cpus = map (\<lambda>i. \<lparr>ci_lapic_id = i, ci_extra_argument = 0, ci_goto = False\<rparr>) [0, 1, 2, 3]\<rparr> :: limine_smp_response"
  define js where "js = [0..<4 :: nat]"
  have js: "[0..<unat (4 :: u32)] = js" by (simp add: js_def)
  have "\<exists>ids'. assign_lapics 4 (four_cpus 2) [0, 0, 0, 0] = Some ids' \<and>
    (\<forall>c < length (re_cpus ?r). find_worker (ci_lapic_id (re_cpus ?r ! c)) ids' [0..<unat (4 :: u32)] =
       Some (if c = 2 then Some 0 else if c = 0 then None else Some c))"
    by (rule each_cpu_finds_worker) (simp_all add: four_cpus_def)
  then obtain ids' where q: "assign_lapics 4 (four_cpus 2) [0, 0, 0, 0] = Some ids'"
    "\<And>c. c < 4 \<Longrightarrow> find_worker (ci_lapic_id (re_cpus ?r ! c)) ids' js = Some (if c = 2 then Some 0 else if c = 0 then None else Some c)"
    unfolding js by auto
  have "find_worker 3 ids' js = Some (Some 3)" "find_worker 0 ids' js = Some None" using q(2) [of 3] q(2) [of 0] by simp_all
  then show ?thesis using q(1) unfolding js_def by blast
qed

text \<open>Waking a worker is one interrupt to its processor, once the previous one has been delivered.\<close>

theorem park_wake_sends_ipi:
  "icr_drains mm la pend idle \<Longrightarrow> bm_hal_park_wake mm la cpu_id d =
     Some (lapic_write mm la LAPIC_ICR_LO 0xFE (lapic_write mm la LAPIC_ICR_HI (push_bit 24 cpu_id) (idle d)))"
  by (simp add: bm_hal_park_wake_def send_ipi_eq)

theorem park_wake_sends_ipi_witness: "bm_hal_park_wake (sample_apic 0) sample_lapic 1 () = Some ()"
  using park_wake_sends_ipi [OF sample_icr_drains [of 0], of 1 "()"] by (simp add: lapic_write_def sample_apic_def)

section \<open>Start-up\<close>



text \<open>The disk test passes on a device that serves requests, and leaves the pattern in sector 0.\<close>

theorem disk_test_passes:
  assumes "blk_running v (i # j # k # l) hw dma (mo_blk mo) (mo_world mo)" "0 < vb_capacity (mo_blk mo)"
  shows "\<exists>b' w'. blk_smoke hw dma mo = Some (mo\<lparr>mo_blk := b', mo_world := w'\<rparr>) \<and>
    blk_running v (i # j # k # l) hw dma b' w' \<and> w_con w' = w_con (mo_world mo) @ disk_test_text \<and>
    dv_disk v (w_dev w') = (dv_disk v (w_dev (mo_world mo)))(0 := smoke_pattern)"
  by (rule blk_smoke_passes [OF assms])

end
