(* ===== verification/Hal_Linux.thy ===== *)
theory Hal_Linux
  imports Ggmk_Platform
begin

text \<open>
  The hosted HAL's time, threads and parking, \<open>hal/linux/time.c\<close>, \<open>hal/linux/thread.c\<close> and
  \<open>hal/linux/park.c\<close>.  What the clock and the thread library return are parameters.  The seconds and
  nanoseconds of a time are 64-bit signed numbers, and signed overflow is \<open>None\<close>.  Waiting and
  signalling themselves are calls of the thread library.

  The lemmas show that the deadline of a wait is the instant \<open>timeout_ns\<close> after the current time, with
  its nanoseconds in range.
\<close>

record timespec =
  tv_sec :: int
  tv_nsec :: int

definition lx_hal_now_ns :: "timespec \<Rightarrow> u64" where
  "lx_hal_now_ns ts = of_int (tv_sec ts) * 1000000000 + of_int (tv_nsec ts)"

text \<open>\<open>rc\<close> is the result of the library call; \<open>t\<close> tells whether the pointer is not null.\<close>

definition lx_hal_thread_create :: "bool \<Rightarrow> int \<Rightarrow> rc" where
  "lx_hal_thread_create t rc = (if \<not> t then - 1 else if rc = 0 then 0 else - 1)"

definition lx_hal_thread_join :: "bool \<Rightarrow> int \<Rightarrow> rc" where
  "lx_hal_thread_join t rc = (if \<not> t then - 1 else if rc = 0 then 0 else - 1)"

function carry_seconds :: "timespec \<Rightarrow> timespec" where
  "carry_seconds ts =
     (if tv_nsec ts \<ge> 1000000000
      then carry_seconds (ts\<lparr>tv_sec := tv_sec ts + 1, tv_nsec := tv_nsec ts - 1000000000\<rparr>) else ts)"
  by auto

termination carry_seconds
  by (relation "measure (\<lambda>ts. nat (tv_nsec ts))") auto

declare carry_seconds.simps [simp del]

text \<open>The deadline of \<open>gmk_hal_park_wait\<close>; the timeout is converted to a signed number.\<close>

definition park_deadline :: "timespec \<Rightarrow> u64 \<Rightarrow> timespec exec" where
  "park_deadline now timeout_ns =
     (let n = tv_nsec now + sint timeout_ns
      in if n \<ge> 2 ^ 63 then None else Some (carry_seconds (now\<lparr>tv_nsec := n\<rparr>)))"

definition instant :: "timespec \<Rightarrow> int" where
  "instant ts = 1000000000 * tv_sec ts + tv_nsec ts"

lemma carry_seconds_instant: "instant (carry_seconds ts) = instant ts"
  by (induction ts rule: carry_seconds.induct) (subst carry_seconds.simps, auto simp: instant_def)

lemma carry_seconds_range:
  "0 \<le> tv_nsec ts \<Longrightarrow> 0 \<le> tv_nsec (carry_seconds ts) \<and> tv_nsec (carry_seconds ts) < 1000000000"
  by (induction ts rule: carry_seconds.induct) (subst carry_seconds.simps, subst (2) carry_seconds.simps, auto)

theorem park_deadline_instant:
  assumes "0 \<le> tv_nsec now" "tv_nsec now < 1000000000" "uint timeout_ns + 1000000000 \<le> 2 ^ 63"
  shows "\<exists>ts. park_deadline now timeout_ns = Some ts \<and> instant ts = instant now + uint timeout_ns \<and>
    0 \<le> tv_nsec ts \<and> tv_nsec ts < 1000000000"
proof -
  have "sint timeout_ns = uint timeout_ns"
  proof -
    have "sint (of_nat m :: u64) = int m" if "m < 2 ^ 63" for m
      using that by (simp add: signed_of_nat signed_take_bit_int_eq_self)
    moreover have i: "int (unat timeout_ns) = uint timeout_ns" by simp
    have "int (unat timeout_ns) < int (2 ^ 63)" unfolding i using assms(3) by simp
    then have "unat timeout_ns < 2 ^ 63" by (simp only: of_nat_less_iff)
    moreover have "of_nat (unat timeout_ns) = timeout_ns" by simp
    ultimately show ?thesis using i by metis
  qed
  then show ?thesis using assms carry_seconds_instant [of "now\<lparr>tv_nsec := tv_nsec now + uint timeout_ns\<rparr>"]
      carry_seconds_range [of "now\<lparr>tv_nsec := tv_nsec now + uint timeout_ns\<rparr>"]
    by (simp add: park_deadline_def Let_def instant_def)
qed

end
