(* ===== verification/Spec2Isabelle.thy ===== *)
theory Spec2Isabelle
  imports Queue_Properties Alloc_Properties Chan_Properties Kernel_Properties X86_Properties Device_Properties Start_Properties Hal_Linux
begin

text \<open>
  GGMK is a kernel for short tasks.  A module registers handlers for task types; a task is a small
  record that is enqueued, scheduled by priority to a worker and dispatched to the handler of its
  type.  Handlers send messages over channels, and the messages may carry reference-counted
  payloads.  The same core runs hosted, over the C library and threads, or on bare x86_64 hardware,
  where the repository also has the memory management, the interrupt handling, the device drivers
  and a monitor on the serial line.  This development models both.

  \<^bold>\<open>The parts and how they interact.\<close>  \<open>gmk_boot\<close> builds, on memory of the hardware abstraction
  layer, an allocator, a trace, the metrics, a scheduler, a channel registry, a module registry
  and a pool of workers, and undoes what it has built when one step fails; \<open>gmk_halt\<close> takes all
  of it down.  The scheduler owns one local queue per worker, one ready queue with four
  priorities, an overflow bucket and one event queue for delayed tasks.  Enqueueing goes to the local queue of the
  calling worker or to the ready queue; a worker takes from its local queue, else from the overflow
  bucket, else from the ready queue, moves due events into the queues when there was nothing, and
  parks when there was no event either.  Dispatch calls the handler; its result is success, a retry
  or a failure, and the sixteenth failure poisons the task type.  Channels buffer messages in
  rings and deliver them through the scheduler; what cannot be delivered goes to the dead-letter
  channel.  On bare metal, \<open>entry.c\<close> takes the boot loader's answers and sets up pages, page
  tables, descriptor tables, the local APIC and the other processors, each of which then runs as
  one worker; \<open>kmain.c\<close> tests memory and disk, boots the kernel and ends in the monitor.

  \<^bold>\<open>The theories and their sources\<close> (paths under \<open>src/\<close>).

    \<^item> \<open>Ggmk_Prelude\<close>: word types, array accesses, the result type of C functions and shared lemmas.
      \<open>Ggmk_Platform\<close>: \<open>include/ggmk/platform.h\<close>, \<open>error.h\<close>.  \<open>Ggmk_Types\<close>: \<open>types.h\<close>.

    \<^item> \<open>Hal_Mem\<close>: \<open>hal/linux/mem.c\<close>.  \<open>Hal_Linux\<close>: \<open>hal/linux/time.c\<close>, \<open>thread.c\<close>, \<open>park.c\<close>.
      \<open>Owned_Array\<close>: the loops that build and destroy arrays of such objects.

    \<^item> \<open>Bounded_Fifo\<close>: the contract of a ring.  \<open>Ring_Spsc\<close>, \<open>Ring_Mpmc\<close>: \<open>src/ring_spsc.c\<close>, \<open>ring_mpmc.c\<close>.

    \<^item> \<open>Sched_Lq\<close>, \<open>Sched_Rq\<close>, \<open>Sched_Evq\<close>, \<open>Sched\<close>: \<open>src/sched_lq.c\<close>, \<open>sched_rq.c\<close>, \<open>sched_evq.c\<close>, \<open>sched.c\<close>
      and \<open>enqueue.c\<close>.

    \<^item> \<open>Alloc_Slab\<close>, \<open>Alloc_Block\<close>, \<open>Alloc_Bump\<close>, \<open>Alloc\<close>: \<open>src/alloc_slab.c\<close>, \<open>alloc_block.c\<close>, \<open>alloc_bump.c\<close>,
      \<open>alloc_arena.c\<close> and \<open>alloc.c\<close>.

    \<^item> \<open>Metrics\<close>, \<open>Trace\<close>: \<open>src/metrics.c\<close>, \<open>trace.c\<close>.

    \<^item> \<open>Chan\<close>: \<open>src/chan.c\<close>, with its lemmas in \<open>Chan_Laws\<close> (the registry), \<open>Chan_Flow\<close> (delivery and
      draining) and \<open>Chan_Emit\<close> (emission).

    \<^item> \<open>Kernel_State\<close>: the record of the kernel.  \<open>Module_Reg\<close>, \<open>Worker\<close>, \<open>Boot\<close>: \<open>src/module.c\<close>,
      \<open>worker.c\<close>, \<open>boot.c\<close>, with their lemmas in \<open>Module_Laws\<close>, \<open>Worker_Laws\<close> and \<open>Boot_Laws\<close>.

    \<^item> \<open>X86_Memops\<close>, \<open>X86_Pmm\<close>, \<open>X86_Paging\<close>, \<open>X86_Vmm\<close>: \<open>arch/x86_64/memops.c\<close>, \<open>pmm.c\<close>, \<open>paging.c\<close>, \<open>vmm.c\<close>.
      \<open>X86_Spinlock\<close>: \<open>include/ggmk/arch/spinlock.h\<close>.  \<open>X86_Hal\<close>: \<open>arch/x86_64/boot_alloc.c\<close> and
      \<open>hal/x86_baremetal\<close>.

    \<^item> \<open>X86_Serial\<close>, \<open>X86_Pci\<close>: \<open>arch/x86_64/serial.c\<close>, \<open>pci.c\<close>.  \<open>Virtio_Pci\<close>, \<open>Virtio_Blk\<close>:
      \<open>drivers/virtio\<close>.  \<open>Cli_Parse\<close>, \<open>X86_Cli\<close>: \<open>arch/x86_64/cli.c\<close>, with its lemmas in \<open>Cli_Laws\<close>.

    \<^item> \<open>X86_Lapic\<close>, \<open>X86_Idt\<close>, \<open>X86_Smp\<close>: \<open>arch/x86_64/lapic.c\<close>, \<open>gdt.c\<close> and \<open>idt.c\<close>, \<open>smp.c\<close>.
      \<open>X86_Heap\<close>: the heap as a program sees it, through page tables and page faults.
      \<open>X86_Kmain\<close>: \<open>arch/x86_64/entry.c\<close>, \<open>kmain.c\<close> and \<open>hal/x86_baremetal/park.c\<close>.

    \<^item> \<open>Sample_States\<close>, \<open>Sample_Channels\<close>, \<open>Sample_Machine\<close>, \<open>Sample_Devices\<close>: concrete states at which
      the theorems are applied.

    \<^item> \<open>Queue_Properties\<close>, \<open>Alloc_Properties\<close>, \<open>Chan_Properties\<close>, \<open>Kernel_Properties\<close>, \<open>X86_Properties\<close>,
      \<open>Device_Properties\<close> and \<open>Start_Properties\<close>: the main theorems.

  \<^bold>\<open>How the code is represented.\<close>  A \<open>struct\<close> is a record whose fields carry a prefix for the type, an
  integer is a word of its width, so that additions wrap, and a return code is an \<open>int\<close>.  A
  function that updates an object through a pointer takes the record and returns the new one.
  A function that may touch memory outside its objects or may not return has the result type
  \<open>'a exec\<close>, an option: \<open>None\<close> is undefined behaviour, a panic or no return, and a theorem that
  concludes \<open>f x = Some y\<close> says that the function returns and stays in bounds.  Code that is
  not part of the repository is a parameter.  The C library's allocator is a field of the record
  \<open>hal\<close>, which also keeps the live blocks.  The callbacks of modules are the function \<open>run\<close>.  The
  hardware is a record of port instructions (\<open>ports\<close>), of register accesses (\<open>mmio\<close>) and of what a
  device does to shared memory (\<open>dma\<close>), over a device state of any type; what is relied on is
  stated by \<open>config_space\<close>, \<open>serves\<close>, \<open>icr_drains\<close>, \<open>pit_expires\<close> and \<open>reports_ids\<close>, and each is
  shown to hold of a sample device.

  \<^bold>\<open>Interfaces.\<close>  \<open>bounded_fifo\<close> is what clients need of a ring; both rings and the yield path of the
  local queue are interpretations.  \<open>slot_allocator\<close> is what the block allocator and the unified
  allocator need of a slab.  \<open>owned_element\<close> is what the array loops need of an element; local
  queues and trace rings are interpretations.  \<open>event_queue\<close> is a timed priority queue, which the
  binary heap implements.  \<open>chan_drain\<close> is the loop of \<open>gmk_chan_drain\<close> with an invariant, once for
  point-to-point and once for fan-out channels.

  \<^bold>\<open>What is shown.\<close>

    \<^item> Queues: rings are bounded FIFO queues whatever their counters are; the ready queue is a
      weighted round robin in which nobody waits without bound; the event queue hands out due
      tasks in key order; where an enqueued or yielding task goes, refusals included.  A
      multi-producer ring of capacity 1 hangs.

    \<^item> Memory: allocation gives fresh disjoint objects of a fitting class and fails only when there
      is none; a payload lives exactly as long as it has references.

    \<^item> Channels: the fate of an emitted message in each case; draining loses and duplicates nothing,
      and the reference counts agree with the number of deliveries.

    \<^item> Kernel: boot and halt leak nothing on any path; a worker empties its queues and parks only
      when idle; retry and poisoning.

    \<^item> Machine: the ticket lock is a FIFO queue of processors, for every interleaving; the page
      allocator is first fit; mapping a page changes the translation of that page only; the heap
      with demand paging is a flat zero-initialised memory; the outcome of every exception; the
      shutdown timer counts one processor's ticks; TLB shootdown waits for all processors;
      \<open>memmove\<close> is a buffered copy.

    \<^item> Devices and start-up: the disk driver refines an array of sectors, the scan lists the bus,
      numbers survive printing and parsing, a typed line runs its command, the timer is
      calibrated, and each processor finds its own worker.

  \<^bold>\<open>Loops and bounds.\<close>  A loop with a bound fixed at its start is a recursion on the number of its
  iterations.  Two loops have a large bound in the code, 10,000,000 polls in the block driver
  and in the wait for the other processors; it is the same number in the model, and the
  theorems say what happens on either side of it.  The loops whose end depends on data are
  partial functions into an option, so that running forever is \<open>None\<close>: the claims of the
  multi-producer ring, the sift-down of the heap, the drain loop, module initialisation, the
  worker loop, the freeing of a memory-map entry, the mapping of device memory, and the waits
  for the interrupt command register and the PIT.  No definition uses fuel of its own choice.  An
  access to the heap may need up to four frames, one for the page and three for tables, which
  is the amount of free memory the theorems on the heap ask for.

  \<^bold>\<open>Not modelled.\<close>  Concurrent interleavings are modelled for the ticket lock, which protects the
  shared state on bare metal, and for timer interrupts; elsewhere one operation runs at a time
  and locks, atomics and barriers have no effect.  Mutexes, condition variables and threads of
  the hosted build are calls of the thread library.  The assembly stubs (\<open>idt_stubs.S\<close>,
  \<open>ctx_switch.S\<close>) and the instructions that load descriptor tables or change the interrupt flag are
  outside the C code.  Of the boot protocol's header \<open>limine.h\<close> only the fields that are read are
  represented.  Busy-wait delays take no steps.  In \<open>kmain\<close> the memory of the kernel's subsystems
  comes from its own \<open>hal\<close> record, apart from the pages that the page allocator counts; the two
  are connected only in \<open>X86_Hal\<close>.  The sampling rate of the trace is a real number, and its
  rounding is a parameter.  The test programs are not modelled.
\<close>

end
